(* ===== verification/CPrelude.thy ===== *)
theory CPrelude
  imports Main "HOL-Library.Word" "HOL-Library.Signed_Division"
    "HOL-Library.Monad_Syntax" "HOL-Library.Multiset"
begin

text \<open>
  Vocabulary shared by every component: the C integer types, the partial results of C
  code, checked array accesses, counted loops, and the generic lemmas on words, bits and
  lists the component proofs use.

  A C function that can run into undefined behaviour (an access outside an array, a null
  pointer, a shift by too much) or that may not return has a result of type
  \<^typ>\<open>'a option\<close>: \<^const>\<open>None\<close> stands for "undefined or no result". A theorem that such a
  function returns \<^const>\<open>Some\<close> is therefore a memory-safety and termination theorem.
\<close>

unbundle bit_operations_syntax

named_theorems c_run \<open>rules that decompose a partial computation\<close>
named_theorems c_word \<open>facts on machine words shared by the components\<close>

section \<open>C integer types\<close>

type_synonym u8 = "8 word"
type_synonym u16 = "16 word"
type_synonym u32 = "32 word"
type_synonym u64 = "64 word"
type_synonym s16 = "16 word"
type_synonym s32 = "32 word"

text \<open>
  The remainder of C's signed division, which truncates towards zero. The signed
  arithmetic of the other operators is that of the words: two's complement, wrapping.
\<close>

definition c_smod :: "'a::len word \<Rightarrow> 'a word \<Rightarrow> 'a word" where
  "c_smod x y = word_of_int (sint x smod sint y)"

section \<open>Partial computations\<close>

text \<open>\<open>runs m Q\<close>: the computation has a result, and the result satisfies \<open>Q\<close>.\<close>

definition runs :: "'a option \<Rightarrow> ('a \<Rightarrow> bool) \<Rightarrow> bool" where
  "runs m Q \<longleftrightarrow> (case m of None \<Rightarrow> False | Some x \<Rightarrow> Q x)"

lemma runs_simps [simp]:
  "runs (Some x) Q = Q x"
  "runs None Q = False"
  by (simp_all add: runs_def)

lemma runs_bind [simp]: "runs (m \<bind> f) Q = runs m (\<lambda>x. runs (f x) Q)"
  by (cases m) simp_all

lemma runs_if: "runs (if b then m else n) Q = (if b then runs m Q else runs n Q)"
  by simp

lemma runs_mono: "runs m P \<Longrightarrow> (\<And>x. P x \<Longrightarrow> Q x) \<Longrightarrow> runs m Q"
  by (cases m) simp_all

lemma runs_conj: "runs m P \<Longrightarrow> runs m Q \<Longrightarrow> runs m (\<lambda>x. P x \<and> Q x)"
  by (cases m) simp_all

lemma runs_iff_Some: "runs m Q \<longleftrightarrow> (\<exists>x. m = Some x \<and> Q x)"
  by (cases m) simp_all

lemma runs_SomeD: "runs m Q \<Longrightarrow> m = Some x \<Longrightarrow> Q x"
  by simp

text \<open>A C assertion or a run-time check whose failure is undefined behaviour.\<close>

definition guard :: "bool \<Rightarrow> unit option" where
  "guard b = (if b then Some () else None)"

lemma guard_simps [simp]: "guard True = Some ()" "guard False = None"
  by (simp_all add: guard_def)

lemma runs_guard [simp]: "runs (guard b) Q \<longleftrightarrow> b \<and> Q ()"
  by (cases b) simp_all

section \<open>Checked array accesses\<close>

text \<open>Arrays whose length is small and fixed are lists.\<close>

definition aget :: "'a list \<Rightarrow> nat \<Rightarrow> 'a option" where
  "aget xs i = (if i < length xs then Some (xs ! i) else None)"

definition aput :: "'a list \<Rightarrow> nat \<Rightarrow> 'a \<Rightarrow> 'a list option" where
  "aput xs i v = (if i < length xs then Some (xs[i := v]) else None)"

lemma runs_aget [simp]: "runs (aget xs i) Q \<longleftrightarrow> i < length xs \<and> Q (xs ! i)"
  by (simp add: aget_def)

lemma runs_aput [simp]: "runs (aput xs i v) Q \<longleftrightarrow> i < length xs \<and> Q (xs[i := v])"
  by (simp add: aput_def)

lemma aget_Some [simp]: "i < length xs \<Longrightarrow> aget xs i = Some (xs ! i)"
  by (simp add: aget_def)

lemma aput_Some [simp]: "i < length xs \<Longrightarrow> aput xs i v = Some (xs[i := v])"
  by (simp add: aput_def)

text \<open>Two-dimensional arrays.\<close>

definition aget2 :: "'a list list \<Rightarrow> nat \<Rightarrow> nat \<Rightarrow> 'a option" where
  "aget2 xss i j = do { xs \<leftarrow> aget xss i; aget xs j }"

definition aput2 :: "'a list list \<Rightarrow> nat \<Rightarrow> nat \<Rightarrow> 'a \<Rightarrow> 'a list list option" where
  "aput2 xss i j v = do { xs \<leftarrow> aget xss i; xs \<leftarrow> aput xs j v; aput xss i xs }"

lemma runs_aget2 [simp]: "runs (aget2 xss i j) Q \<longleftrightarrow> i < length xss \<and> j < length (xss ! i) \<and> Q (xss ! i ! j)"
  by (simp add: aget2_def)

lemma runs_aput2 [simp]:
  "runs (aput2 xss i j v) Q \<longleftrightarrow> i < length xss \<and> j < length (xss ! i) \<and> Q (xss[i := (xss ! i)[j := v]])"
  by (auto simp: aput2_def)

lemma aget2_Some [simp]: "i < length xss \<Longrightarrow> j < length (xss ! i) \<Longrightarrow> aget2 xss i j = Some (xss ! i ! j)"
  by (simp add: aget2_def)

lemma aput2_Some [simp]:
  "i < length xss \<Longrightarrow> j < length (xss ! i) \<Longrightarrow> aput2 xss i j v = Some (xss[i := (xss ! i)[j := v]])"
  by (simp add: aput2_def)

text \<open>
  Arrays in allocated blocks are a length and a total function: the contents of a fresh
  block are whatever the function says.
\<close>

definition fget :: "nat \<Rightarrow> (nat \<Rightarrow> 'a) \<Rightarrow> nat \<Rightarrow> 'a option" where
  "fget n a i = (if i < n then Some (a i) else None)"

definition fput :: "nat \<Rightarrow> (nat \<Rightarrow> 'a) \<Rightarrow> nat \<Rightarrow> 'a \<Rightarrow> (nat \<Rightarrow> 'a) option" where
  "fput n a i v = (if i < n then Some (a(i := v)) else None)"

lemma runs_fget [simp]: "runs (fget n a i) Q \<longleftrightarrow> i < n \<and> Q (a i)"
  by (simp add: fget_def)

lemma runs_fput [simp]: "runs (fput n a i v) Q \<longleftrightarrow> i < n \<and> Q (a(i := v))"
  by (simp add: fput_def)

lemma fget_Some [simp]: "i < n \<Longrightarrow> fget n a i = Some (a i)"
  by (simp add: fget_def)

lemma fput_Some [simp]: "i < n \<Longrightarrow> fput n a i v = Some (a(i := v))"
  by (simp add: fput_def)

section \<open>Counted loops\<close>

text \<open>\<open>for_in is body s\<close> runs the body for each index in turn, as a counted C loop does.\<close>

fun for_in :: "'i list \<Rightarrow> ('i \<Rightarrow> 's \<Rightarrow> 's option) \<Rightarrow> 's \<Rightarrow> 's option" where
  "for_in [] body s = Some s"
| "for_in (i # is) body s = (body i s \<bind> for_in is body)"

lemma for_in_Nil_fun [simp]: "for_in [] body = Some"
  by (rule ext) simp

lemma bind_Some_right [simp]: "m \<bind> Some = m"
  by (cases m) simp_all

lemma for_in_single [simp]: "for_in [x] body = body x"
  by (rule ext) simp

lemma for_in_Cons_fun: "for_in (i # is) body = (\<lambda>s. body i s \<bind> for_in is body)"
  by (rule ext) simp

lemma for_in_append: "for_in (xs @ ys) body s = (for_in xs body s \<bind> for_in ys body)"
  by (induction xs arbitrary: s) (auto split: Option.bind_split)

lemma for_in_cong [fundef_cong]:
  assumes "is = js" "s = t" "\<And>i u. i \<in> set js \<Longrightarrow> f i u = g i u"
  shows "for_in is f s = for_in js g t"
proof -
  have "(\<And>i u. i \<in> set js \<Longrightarrow> f i u = g i u) \<Longrightarrow> for_in js f t = for_in js g t" for t
  proof (induction js arbitrary: t)
    case (Cons j js)
    have "for_in js f = for_in js g" using Cons by auto
    with Cons.prems show ?case by simp
  qed simp
  with assms show ?thesis by simp
qed

text \<open>The invariant rule of a loop \<open>for (i = a; i < b; i++)\<close>.\<close>

lemma runs_for_upt:
  assumes "I a s" "a \<le> b"
    and "\<And>i s. a \<le> i \<Longrightarrow> i < b \<Longrightarrow> I i s \<Longrightarrow> runs (body i s) (I (Suc i))"
  shows "runs (for_in [a..<b] body s) (I b)"
  using assms
proof (induction "b - a" arbitrary: b)
  case 0
  then show ?case by simp
next
  case (Suc d)
  then obtain b' where b: "b = Suc b'" "a \<le> b'" by (cases b) auto
  have "runs (for_in [a..<b'] body s) (I b')"
    using Suc b by auto
  then show ?case
    using Suc.prems b by (auto simp: for_in_append runs_iff_Some)
qed

lemma runs_for_in:
  assumes "I s" "\<And>i s. i \<in> set is \<Longrightarrow> I s \<Longrightarrow> runs (body i s) I"
  shows "runs (for_in is body s) I"
  using assms
proof (induction "is" arbitrary: s)
  case (Cons i "is")
  have "runs (body i s) I" using Cons.prems by simp
  moreover have "runs (for_in is body t) I" if "I t" for t
    using Cons that by simp
  ultimately show ?case by (auto intro: runs_mono)
qed simp

lemma for_in_total:
  "(\<And>i s. i \<in> set is \<Longrightarrow> body i s = Some (f i s)) \<Longrightarrow> for_in is body s = Some (fold f is s)"
  by (induction "is" arbitrary: s) simp_all

lemma for_in_map: "for_in (map f xs) body s = for_in xs (\<lambda>x. body (f x)) s"
proof (induction xs arbitrary: s)
  case (Cons x xs)
  then have "for_in (map f xs) body = for_in xs (\<lambda>x. body (f x))" by blast
  then show ?case by simp
qed simp

text \<open>Two nested loops over a row-major matrix are one loop over its cells.\<close>

lemma for_in_nested:
  "for_in [0..<M] (\<lambda>i. for_in [0..<N] (\<lambda>j. body i j)) s
     = for_in [0..<M * N] (\<lambda>k. body (k div N) (k mod N)) s"
proof (induction M)
  case (Suc M)
  have "[0..<Suc M * N] = [0..<M * N] @ map (\<lambda>j. j + M * N) [0..<N]"
    using upt_add_eq_append [of 0 "M * N" N] by (simp add: map_add_upt add.commute)
  moreover have "for_in (map (\<lambda>j. j + M * N) [0..<N]) (\<lambda>k. body (k div N) (k mod N))
      = for_in [0..<N] (body M)"
    unfolding for_in_map by (intro ext for_in_cong) auto
  ultimately show ?case
    using Suc by (simp add: for_in_append)
qed simp

text \<open>A loop that overwrites the cells \<open>0 .. n - 1\<close> of an array one after the other.\<close>

lemma for_in_aput:
  assumes "n \<le> length xs"
    and "\<And>k ys. k < n \<Longrightarrow> length ys = length xs \<Longrightarrow> drop k ys = drop k xs \<Longrightarrow> body k ys = Some (ys[k := g k])"
  shows "for_in [0..<n] body xs = Some (map g [0..<n] @ drop n xs)"
  using assms
proof (induction n)
  case (Suc n)
  have "for_in [0..<n] body xs = Some (map g [0..<n] @ drop n xs)"
    using Suc by simp
  moreover have "body n (map g [0..<n] @ drop n xs)
      = Some ((map g [0..<n] @ drop n xs)[n := g n])"
    using Suc.prems by simp
  moreover have "(map g [0..<n] @ drop n xs)[n := g n] = map g [0..<Suc n] @ drop (Suc n) xs"
    using Suc.prems(1) by (simp add: list_update_append Cons_nth_drop_Suc [symmetric])
  ultimately show ?case
    by (simp add: for_in_append)
qed simp

lemma for_in_aput_range:
  "i \<le> j \<Longrightarrow> j \<le> length xs \<Longrightarrow>
     for_in [i..<j] (\<lambda>k ys. aput ys k (g k)) xs = Some (take i xs @ map g [i..<j] @ drop j xs)"
proof (induction "j - i" arbitrary: j)
  case (Suc d)
  then obtain j' where j: "j = Suc j'" "i \<le> j'" by (cases j) auto
  then have "for_in [i..<j'] (\<lambda>k ys. aput ys k (g k)) xs = Some (take i xs @ map g [i..<j'] @ drop j' xs)"
    using Suc by simp
  moreover have "(take i xs @ map g [i..<j'] @ drop j' xs)[j' := g j'] = take i xs @ map g [i..<j] @ drop j xs"
    using j Suc.prems(2)
    by (simp add: list_update_append min_def Cons_nth_drop_Suc [symmetric])
  ultimately show ?case
    using j Suc.prems(2) by (simp add: for_in_append)
qed simp

text \<open>A loop that adds a term to one cell.\<close>

lemma for_in_accumulate:
  assumes "i < length xs"
    and "\<And>k ys. k \<in> set ks \<Longrightarrow> length ys = length xs \<Longrightarrow> body k ys = Some (ys[i := ys ! i + g k])"
  shows "for_in ks body xs = Some (xs[i := xs ! i + (\<Sum>k\<leftarrow>ks. g k :: 'a::comm_monoid_add)])"
  using assms
  by (induction ks arbitrary: xs) (simp_all add: add.assoc)

lemma fold_upt_Suc: "a \<le> b \<Longrightarrow> fold f [a..<Suc b] s = f b (fold f [a..<b] s)"
  by simp

lemma fold_invariant_upt:
  assumes "I a s" "a \<le> b" "\<And>i s. a \<le> i \<Longrightarrow> i < b \<Longrightarrow> I i s \<Longrightarrow> I (Suc i) (f i s)"
  shows "I b (fold f [a..<b] s)"
  using assms
proof (induction "b - a" arbitrary: b)
  case (Suc d)
  then obtain b' where b: "b = Suc b'" "a \<le> b'" by (cases b) auto
  then have "I b' (fold f [a..<b'] s)" using Suc by auto
  then show ?case using Suc.prems b by simp
qed simp

section \<open>Bits of words\<close>

text \<open>\<open>bits_of n v\<close>: the low \<open>n\<close> bits of \<open>v\<close>, most significant first.\<close>

definition bits_of :: "nat \<Rightarrow> 'a::len word \<Rightarrow> bool list" where
  "bits_of n v = map (bit v) (rev [0..<n])"

lemma length_bits_of [simp]: "length (bits_of n v) = n"
  by (simp add: bits_of_def)

lemma bits_of_0 [simp]: "bits_of 0 v = []"
  by (simp add: bits_of_def)

lemma word_xor_eq_0_iff [c_word]: "(x :: 'a::len word) XOR y = 0 \<longleftrightarrow> x = y"
  by (auto simp: bit_eq_iff bit_xor_iff)

lemma bits_of_Suc: "bits_of (Suc n) v = bit v n # bits_of n v"
  by (simp add: bits_of_def)

lemma nat_bit_le: "bit (m :: nat) k \<Longrightarrow> 2 ^ k \<le> m"
  by (metis bit_iff_odd div_less even_zero not_le)

lemma unat_u8_less [simp]: "unat (b :: u8) < 256"
proof -
  have "unat b < 2 ^ LENGTH(8)" by (rule unsigned_less)
  then show ?thesis by simp
qed

lemma unat_2p: "n < LENGTH('a) \<Longrightarrow> unat ((2 :: 'a::len word) ^ n) = 2 ^ n"
proof -
  assume n: "n < LENGTH('a)"
  have "(2 :: 'a word) ^ n = word_of_nat (2 ^ n)" by simp
  then have "unat ((2 :: 'a word) ^ n) = 2 ^ n mod 2 ^ LENGTH('a)" by (simp only: unat_of_nat)
  also have "\<dots> = 2 ^ n" using n by simp
  finally show ?thesis .
qed

lemma word_bit_less:
  assumes "(v :: 'a::len word) < 2 ^ n" "bit v k"
  shows "k < n"
proof -
  have n: "n < LENGTH('a)"
    using assms(1) by (metis exp_eq_zero_iff not_le word_zero_le not_less)
  then have "unat v < 2 ^ n"
    using assms(1) by (simp add: word_less_nat_alt unat_2p)
  moreover have "bit (unat v) k" using assms(2) by (simp add: bit_unsigned_iff bit_imp_le_length)
  then have "2 ^ k \<le> unat v" by (rule nat_bit_le)
  ultimately show ?thesis using power_less_imp_less_exp [of "2 :: nat" k n] by linarith
qed

lemma nth_bits_of: "i < n \<Longrightarrow> bits_of n v ! i = bit v (n - 1 - i)"
  by (simp add: bits_of_def rev_nth)

end
