(* ===== verification/CText.thy ===== *)
theory CText
  imports CPrelude
begin

text \<open>
  Strings as the C library reads and writes them: arrays of pointers to strings that a
  null pointer ends, and decimal numbers (the conversion \<open>%d\<close> of \<open>printf\<close>). Printing a
  number and reading the digits back gives the number.
\<close>

section \<open>Arrays of strings\<close>

text \<open>
  \<open>argv\<close> is an array of pointers to strings; \<^const>\<open>None\<close> is the null pointer. The strings
  in front of the first null pointer; without one the array is overrun.
\<close>

fun c_vector :: "string option list \<Rightarrow> string list option" where
  "c_vector [] = None"
| "c_vector (None # ps) = Some []"
| "c_vector (Some s # ps) = map_option (\<lambda>ss. s # ss) (c_vector ps)"

text \<open>What the language promises of the arguments of \<open>main\<close>.\<close>

definition main_args :: "string list \<Rightarrow> int \<Rightarrow> string option list \<Rightarrow> bool" where
  "main_args args argc argv \<longleftrightarrow> argc = int (length args) \<and> argv = map Some args @ [None]"

lemma c_vector_map [simp]: "c_vector (map Some ss @ None # ps) = Some ss"
  by (induction ss) simp_all

lemma main_args_vector:
  "main_args args argc argv \<Longrightarrow> k \<le> length args \<Longrightarrow> c_vector (drop k argv) = Some (drop k args)"
  by (simp add: main_args_def drop_map)

lemma main_args_nth:
  "main_args args argc argv \<Longrightarrow> k < length args \<Longrightarrow> aget argv k = Some (Some (args ! k))"
  by (simp add: main_args_def nth_append)

section \<open>Decimal digits\<close>

definition digit_char :: "nat \<Rightarrow> char" where
  "digit_char d = char_of (48 + d)"

definition is_digit :: "char \<Rightarrow> bool" where
  "is_digit c \<longleftrightarrow> 48 \<le> (of_char c :: nat) \<and> (of_char c :: nat) \<le> 57"

definition digit_value :: "char \<Rightarrow> nat" where
  "digit_value c = of_char c - 48"

fun digits :: "nat \<Rightarrow> string" where
  "digits n = (if n < 10 then [digit_char n] else digits (n div 10) @ [digit_char (n mod 10)])"

declare digits.simps [simp del]

definition digits_value :: "string \<Rightarrow> nat" where
  "digits_value ds = foldl (\<lambda>n c. 10 * n + digit_value c) 0 ds"

text \<open>The conversion \<open>%d\<close>.\<close>

definition fmt_d :: "int \<Rightarrow> string" where
  "fmt_d i = (if i < 0 then ''-'' else []) @ digits (nat \<bar>i\<bar>)"

lemma digit_char [simp]:
  "d < 10 \<Longrightarrow> is_digit (digit_char d)"
  "d < 10 \<Longrightarrow> digit_value (digit_char d) = d"
  by (simp_all add: is_digit_def digit_value_def digit_char_def)

lemma digits_value_snoc [simp]:
  "digits_value [] = 0"
  "digits_value (ds @ [c]) = 10 * digits_value ds + digit_value c"
  by (simp_all add: digits_value_def)

lemma digits_value_single [simp]: "digits_value [c] = digit_value c"
  by (simp add: digits_value_def)

lemma digits_value_digits [simp]: "digits_value (digits n) = n"
  by (induction n rule: digits.induct) (subst digits.simps, simp)

lemma digits_are_digits: "c \<in> set (digits n) \<Longrightarrow> is_digit c"
  by (induction n rule: digits.induct) (subst (asm) (2) digits.simps, auto split: if_splits)

lemma digits_nonempty [simp]: "digits n \<noteq> []"
  by (subst digits.simps) simp

lemma digits_no_sign [simp]: "digits n \<noteq> CHR ''-'' # ds" "CHR ''-'' # ds \<noteq> digits n"
  using digits_are_digits [of "CHR ''-''" n] by (auto simp: is_digit_def dest: sym)

lemma digits_inj [simp]: "digits m = digits n \<longleftrightarrow> m = n"
  by (metis digits_value_digits)

lemma fmt_d_inj: "fmt_d i = fmt_d j \<Longrightarrow> i = j"
  by (cases "i < 0"; cases "j < 0") (simp_all add: fmt_d_def)

lemma digits_value_append: "digits_value (xs @ ys) = digits_value xs * 10 ^ length ys + digits_value ys"
proof (induction ys rule: rev_induct)
  case (snoc y ys)
  have "digits_value (xs @ ys @ [y]) = 10 * digits_value (xs @ ys) + digit_value y"
    using digits_value_snoc(2) [of "xs @ ys" y] by simp
  then show ?case using snoc by (simp add: algebra_simps)
qed simp

lemma digits_value_zeros [simp]: "digits_value (replicate n CHR ''0'') = 0"
proof (induction n)
  case (Suc n)
  have "replicate (Suc n) (CHR ''0'') = replicate n (CHR ''0'') @ [CHR ''0'']"
    by (simp add: replicate_append_same)
  then show ?case using Suc by (simp add: digit_value_def del: replicate_Suc)
qed simp

lemma length_digits: "n < 10 ^ k \<Longrightarrow> 0 < k \<Longrightarrow> length (digits n) \<le> k"
proof (induction n arbitrary: k rule: digits.induct)
  case (1 n)
  show ?case
  proof (cases "n < 10")
    case True
    then show ?thesis using 1(3) by (subst digits.simps) simp
  next
    case False
    then obtain k' where k: "k = Suc k'" "0 < k'"
      using 1(2) by (cases k; cases "k - 1") auto
    have "n div 10 < 10 ^ k'" using 1(2) k by (simp add: less_mult_imp_div_less)
    then have "length (digits (n div 10)) \<le> k'" using 1(1) False k(2) by blast
    then show ?thesis using False k(1) by (subst digits.simps) simp
  qed
qed

lemma takeWhile_digits [simp]: "takeWhile is_digit (digits n @ r) = digits n @ takeWhile is_digit r"
  by (intro takeWhile_append2) (rule digits_are_digits)

lemma dropWhile_digits [simp]: "dropWhile is_digit (digits n @ r) = dropWhile is_digit r"
  by (intro dropWhile_append2) (rule digits_are_digits)

lemma takeWhile_digits_all [simp]:
  "takeWhile is_digit (digits n) = digits n" "dropWhile is_digit (digits n) = []"
  using takeWhile_digits [of n "[]"] dropWhile_digits [of n "[]"] by simp_all

end
