(* ===== verification/NoAslr.thy ===== *)
theory NoAslr
  imports CText
begin

text \<open>
  The launcher \<open>ci/noaslr.c\<close>, which runs a command without address-space randomisation and
  hands its exit status on.

  The program is a tree of system calls: every call is a node, and what the system answers
  selects the branch. Nothing is assumed of the answers in the definitions: an execution is
  any sequence of calls with any answers, and what POSIX documents of \<open>posix_spawn\<close> and
  \<open>waitpid\<close> is a hypothesis of the theorem that relies on it. The macros of \<open>sys/wait.h\<close>
  that take a wait status apart belong to the system as well and are a parameter.
\<close>

section \<open>The system interface\<close>

text \<open>
  \<open>'attr\<close> is the opaque contents of a \<open>posix_spawnattr_t\<close>. A call that takes a pointer to
  a variable answers with the new contents of the variable and the result of the call.
\<close>

datatype 'attr program =
    Exit int
  | Undefined
  | Eprintf string "'attr program"
  | Spawnattr_init "'attr \<times> int \<Rightarrow> 'attr program"
  | Spawnattr_setflags 'attr "16 word" "'attr \<times> int \<Rightarrow> 'attr program"
  | Spawnp string 'attr "string list" "string list" "int \<times> int \<Rightarrow> 'attr program"
  | Waitpid int int "int \<times> int \<Rightarrow> 'attr program"

text \<open>A call and its answer. The last two components of \<open>Spawned\<close> are the result and the process.\<close>

datatype 'attr event =
    Message string
  | Attr_initialised 'attr int
  | Flags_set 'attr "16 word" 'attr int
  | Spawned string 'attr "string list" "string list" int int
  | Waited int int int int

inductive call :: "'attr program \<Rightarrow> 'attr event \<Rightarrow> 'attr program \<Rightarrow> bool" where
  eprintf: "call (Eprintf s p) (Message s) p"
| init: "call (Spawnattr_init k) (Attr_initialised a rc) (k (a, rc))"
| setflags: "call (Spawnattr_setflags a f k) (Flags_set a f b rc) (k (b, rc))"
| spawnp: "call (Spawnp file a args env k) (Spawned file a args env rc pid) (k (rc, pid))"
| waitpid: "call (Waitpid pid opts k) (Waited pid opts ret status) (k (ret, status))"

inductive_simps call_simps [simp]:
  "call (Exit r) e p"
  "call Undefined e p"
  "call (Eprintf s q) e p"
  "call (Spawnattr_init k) e p"
  "call (Spawnattr_setflags a f k) e p"
  "call (Spawnp file a args env k) e p"
  "call (Waitpid pid opts k) e p"

inductive executes :: "'attr program \<Rightarrow> 'attr event list \<Rightarrow> 'attr program \<Rightarrow> bool" where
  refl: "executes p [] p"
| step: "call p e q \<Longrightarrow> executes q es r \<Longrightarrow> executes p (e # es) r"

inductive_simps executes_simps [simp]:
  "executes p [] q"
  "executes p (e # es) q"

lemma can_call: "(\<exists>e q. call p e q) \<longleftrightarrow> p \<noteq> Undefined \<and> (\<forall>r. p \<noteq> Exit r)"
  by (cases p) (auto intro: call.intros simp del: call_simps elim: call.cases)

text \<open>The macros of \<open>sys/wait.h\<close>.\<close>

record wait_macros =
  WIFEXITED :: "int \<Rightarrow> bool"
  WEXITSTATUS :: "int \<Rightarrow> int"
  WIFSIGNALED :: "int \<Rightarrow> bool"
  WTERMSIG :: "int \<Rightarrow> int"

section \<open>The program\<close>

text \<open>[src/ci/noaslr.c 19-21 POSIX_SPAWN_DISABLE_ASLR]\<close>

definition POSIX_SPAWN_DISABLE_ASLR :: "16 word" where
  "POSIX_SPAWN_DISABLE_ASLR = 0x0100"

text \<open>[src/ci/noaslr.c 25-25 main]\<close>

definition usage :: string where
  "usage = ''usage: noaslr command [args...]'' @ [CHR 0x0A]"

text \<open>[src/ci/noaslr.c 34-34 main]\<close>

definition spawn_failed :: "int \<Rightarrow> string" where
  "spawn_failed rc = ''noaslr: spawn failed: '' @ fmt_d rc @ [CHR 0x0A]"

text \<open>[src/ci/noaslr.c 37-41 main] Wait for the process and translate how it ended.\<close>

definition await_child :: "wait_macros \<Rightarrow> int \<Rightarrow> 'attr program" where
  "await_child m pid =
     Waitpid pid 0 (\<lambda>(ret, status).
       if ret < 0 then Exit 127
       else if WIFEXITED m status then Exit (WEXITSTATUS m status)
       else if WIFSIGNALED m status then Exit (128 + WTERMSIG m status)
       else Exit 127)"

text \<open>[src/ci/noaslr.c 31-36 main] Start the command with the attributes.\<close>

definition spawn_command ::
    "wait_macros \<Rightarrow> string option list \<Rightarrow> string list \<Rightarrow> 'attr \<Rightarrow> 'attr program" where
  "spawn_command m argv environ attr =
     (case (aget argv 1, c_vector (drop 1 argv)) of
        (Some (Some file), Some args) \<Rightarrow>
          Spawnp file attr args environ (\<lambda>(rc, pid).
            if rc \<noteq> 0 then Eprintf (spawn_failed rc) (Exit 127)
            else await_child m pid)
      | _ \<Rightarrow> Undefined)"

text \<open>[src/ci/noaslr.c 23-42 main] The results of the two calls that set the attributes up are ignored.\<close>

definition noaslr_main ::
    "wait_macros \<Rightarrow> int \<Rightarrow> string option list \<Rightarrow> string list \<Rightarrow> 'attr program" where
  "noaslr_main m argc argv environ =
     (if argc < 2 then Eprintf usage (Exit 2)
      else Spawnattr_init (\<lambda>(attr, _).
           Spawnattr_setflags attr POSIX_SPAWN_DISABLE_ASLR (\<lambda>(attr, _).
           spawn_command m argv environ attr)))"

text \<open>The result of the program when the wait has been answered.\<close>

definition wait_result :: "wait_macros \<Rightarrow> int \<Rightarrow> int \<Rightarrow> int" where
  "wait_result m ret status =
     (if ret < 0 then 127 else if WIFEXITED m status then WEXITSTATUS m status
      else if WIFSIGNALED m status then 128 + WTERMSIG m status else 127)"

section \<open>What the system documents\<close>

text \<open>
  How a process can end; \<open>stat\<close> is the wait status the system reports for it. An exit code
  is a byte, and the signal numbers of Darwin and Linux end at 31 and 64.
\<close>

datatype ending = Exited nat | Killed nat

definition possible :: "ending \<Rightarrow> bool" where
  "possible e = (case e of Exited c \<Rightarrow> c < 256 | Killed sig \<Rightarrow> 1 \<le> sig \<and> sig \<le> 64)"

definition wait_macros_ok :: "wait_macros \<Rightarrow> (ending \<Rightarrow> int) \<Rightarrow> bool" where
  "wait_macros_ok m stat \<longleftrightarrow>
     (\<forall>c < 256. WIFEXITED m (stat (Exited c)) \<and> WEXITSTATUS m (stat (Exited c)) = int c)
   \<and> (\<forall>sig. 1 \<le> sig \<and> sig \<le> 64 \<longrightarrow> \<not> WIFEXITED m (stat (Killed sig))
        \<and> WIFSIGNALED m (stat (Killed sig)) \<and> WTERMSIG m (stat (Killed sig)) = int sig)"

text \<open>
  A wait without options answers with the process and how it ended, or with \<open>-1\<close>.
\<close>

definition waits_ok :: "(ending \<Rightarrow> int) \<Rightarrow> 'attr event list \<Rightarrow> bool" where
  "waits_ok stat es \<longleftrightarrow> (\<forall>pid ret status. Waited pid 0 ret status \<in> set es \<longrightarrow>
     ret = -1 \<or> ret = pid \<and> (\<exists>e. possible e \<and> status = stat e))"

text \<open>The status of a command as a shell reports it.\<close>

definition shell_status :: "ending \<Rightarrow> int" where
  "shell_status e = (case e of Exited c \<Rightarrow> int c | Killed sig \<Rightarrow> 128 + int sig)"

lemma shell_status_bounds: "possible e \<Longrightarrow> 0 \<le> shell_status e \<and> shell_status e \<le> 255"
  by (cases e) (simp_all add: possible_def shell_status_def)

lemma wait_result_shell:
  "wait_macros_ok m stat \<Longrightarrow> possible e \<Longrightarrow> 0 \<le> ret \<Longrightarrow> wait_result m ret (stat e) = shell_status e"
  by (cases e) (simp_all add: wait_macros_ok_def possible_def wait_result_def shell_status_def)

section \<open>The launcher as a specification\<close>

text \<open>
  What a launcher promises to the one who calls it, without the calls it is made of: the
  environment decides whether the process can be started, whether it can be waited for and
  how it ends.
\<close>

datatype outcome = Not_started int | Not_waited | Ended ending

definition launch_status :: "outcome \<Rightarrow> int" where
  "launch_status out = (case out of Not_started rc \<Rightarrow> 127 | Not_waited \<Rightarrow> 127 | Ended e \<Rightarrow> shell_status e)"

text \<open>The outcome a sequence of calls stands for.\<close>

inductive outcome_of :: "(ending \<Rightarrow> int) \<Rightarrow> 'attr event list \<Rightarrow> outcome \<Rightarrow> bool" for stat where
  not_started: "Spawned f a args env rc pid \<in> set es \<Longrightarrow> rc \<noteq> 0 \<Longrightarrow> outcome_of stat es (Not_started rc)"
| not_waited: "Spawned f a args env 0 pid \<in> set es \<Longrightarrow> Waited pid 0 ret st \<in> set es \<Longrightarrow> ret < 0 \<Longrightarrow>
     outcome_of stat es Not_waited"
| ended: "Spawned f a args env 0 pid \<in> set es \<Longrightarrow> Waited pid 0 pid (stat e) \<in> set es \<Longrightarrow> 0 \<le> pid \<Longrightarrow>
     possible e \<Longrightarrow> outcome_of stat es (Ended e)"

text \<open>The process number of a process that was started is positive.\<close>

definition spawns_ok :: "'attr event list \<Rightarrow> bool" where
  "spawns_ok es \<longleftrightarrow> (\<forall>f a args env pid. Spawned f a args env 0 pid \<in> set es \<longrightarrow> 0 < pid)"

section \<open>Every state on the way\<close>

lemma executes_snoc: "executes p (es @ [e]) r \<longleftrightarrow> (\<exists>q. executes p es q \<and> call q e r)"
  by (induction es arbitrary: p) auto

text \<open>The calls answered so far determine what is left of the program.\<close>

definition on_the_way ::
    "wait_macros \<Rightarrow> string list \<Rightarrow> string option list \<Rightarrow> string list \<Rightarrow> 'attr event list \<Rightarrow> 'attr program \<Rightarrow> bool" where
  "on_the_way m args argv environ es p \<longleftrightarrow>
     es = [] \<and> p = noaslr_main m (int (length args)) argv environ
   \<or> (\<exists>a rc0. es = [Attr_initialised a rc0]
        \<and> p = Spawnattr_setflags a POSIX_SPAWN_DISABLE_ASLR (\<lambda>(b, _). spawn_command m argv environ b))
   \<or> (\<exists>a rc0 b rc1. es = [Attr_initialised a rc0, Flags_set a POSIX_SPAWN_DISABLE_ASLR b rc1]
        \<and> p = spawn_command m argv environ b)
   \<or> (\<exists>a rc0 b rc1 rc pid. es = [Attr_initialised a rc0, Flags_set a POSIX_SPAWN_DISABLE_ASLR b rc1,
          Spawned (args ! 1) b (tl args) environ rc pid]
        \<and> p = (if rc \<noteq> 0 then Eprintf (spawn_failed rc) (Exit 127) else await_child m pid))
   \<or> (\<exists>a rc0 b rc1 rc pid. es = [Attr_initialised a rc0, Flags_set a POSIX_SPAWN_DISABLE_ASLR b rc1,
          Spawned (args ! 1) b (tl args) environ rc pid, Message (spawn_failed rc)] \<and> rc \<noteq> 0 \<and> p = Exit 127)
   \<or> (\<exists>a rc0 b rc1 pid ret status. es = [Attr_initialised a rc0, Flags_set a POSIX_SPAWN_DISABLE_ASLR b rc1,
          Spawned (args ! 1) b (tl args) environ 0 pid, Waited pid 0 ret status]
        \<and> p = Exit (wait_result m ret status))"

lemma spawn_command_eq:
  assumes "main_args args argc argv" "2 \<le> length args"
  shows "spawn_command m argv environ attr =
     Spawnp (args ! 1) attr (tl args) environ (\<lambda>(rc, pid).
       if rc \<noteq> 0 then Eprintf (spawn_failed rc) (Exit 127) else await_child m pid)"
  using main_args_nth [OF assms(1), of 1] main_args_vector [OF assms(1), of 1] assms(2)
  by (simp add: spawn_command_def drop_Suc)

lemma await_child_eq: "await_child m pid = Waitpid pid 0 (\<lambda>(ret, status). Exit (wait_result m ret status))"
  by (simp add: await_child_def wait_result_def fun_eq_iff)

lemma on_the_way_step:
  assumes "main_args args argc argv" "2 \<le> length args" "on_the_way m args argv environ es p" "call p e q"
  shows "on_the_way m args argv environ (es @ [e]) q"
proof -
  note sp = spawn_command_eq [OF assms(1,2)]
  have main: "noaslr_main m (int (length args)) argv environ
      = Spawnattr_init (\<lambda>(attr, _). Spawnattr_setflags attr POSIX_SPAWN_DISABLE_ASLR
          (\<lambda>(attr, _). spawn_command m argv environ attr))"
    using assms(2) by (simp add: noaslr_main_def)
  from assms(3) [unfolded on_the_way_def] assms(4) show ?thesis
    by (elim disjE conjE exE) (auto simp: on_the_way_def main sp await_child_eq split: if_splits)
qed

lemma executes_on_the_way:
  assumes "main_args args argc argv" "2 \<le> length args"
  shows "executes (noaslr_main m argc argv environ) es p \<Longrightarrow> on_the_way m args argv environ es p"
proof (induction es arbitrary: p rule: rev_induct)
  case Nil
  then show ?case using assms(1) by (simp add: on_the_way_def main_args_def)
next
  case (snoc e es)
  from snoc.prems obtain q where "executes (noaslr_main m argc argv environ) es q" "call q e p"
    unfolding executes_snoc by blast
  then show ?case using snoc.IH on_the_way_step [OF assms] by blast
qed

text \<open>A complete execution took one of two ways.\<close>

lemma complete_executions:
  assumes "main_args args argc argv" "2 \<le> length args" "executes (noaslr_main m argc argv environ) es (Exit r)"
  shows "\<exists>a rc0 b rc1 rc pid. es = [Attr_initialised a rc0, Flags_set a POSIX_SPAWN_DISABLE_ASLR b rc1,
          Spawned (args ! 1) b (tl args) environ rc pid, Message (spawn_failed rc)] \<and> rc \<noteq> 0 \<and> r = 127
     \<or> (\<exists>ret status. es = [Attr_initialised a rc0, Flags_set a POSIX_SPAWN_DISABLE_ASLR b rc1,
          Spawned (args ! 1) b (tl args) environ 0 pid, Waited pid 0 ret status]
          \<and> r = wait_result m ret status)"
proof -
  have "spawn_command m argv environ b \<noteq> Exit r" for b :: 'a
    unfolding spawn_command_eq [OF assms(1,2)] by simp
  then show ?thesis
    using executes_on_the_way [OF assms] assms(2)
    by (auto simp: on_the_way_def noaslr_main_def await_child_eq dest: sym split: if_splits)
qed

section \<open>Properties\<close>

text \<open>
  C1: the launcher is transparent: with at least one argument, every complete execution
  started exactly one process, namely the first argument with the remaining command line as
  its argument vector and the launcher's own environment, and the launcher's result is the
  status a shell reports for what became of that process: its exit code, 128 plus the
  signal that killed it, or 127 if it could not be started or waited for. The result is
  always an exit code that fits a byte.
\<close>

theorem noaslr_transparent:
  assumes "main_args args argc argv" "2 \<le> length args" "wait_macros_ok m stat"
    and "executes (noaslr_main m argc argv environ) es (Exit r)" "waits_ok stat es" "spawns_ok es"
  shows "\<exists>out. outcome_of stat es out \<and> r = launch_status out \<and> 0 \<le> r \<and> r \<le> 255
     \<and> (\<exists>attr rc pid. filter (\<lambda>e. case e of Spawned _ _ _ _ _ _ \<Rightarrow> True | _ \<Rightarrow> False) es
          = [Spawned (args ! 1) attr (tl args) environ rc pid])"
proof -
  obtain a rc0 b rc1 rc pid where
    "es = [Attr_initialised a rc0, Flags_set a POSIX_SPAWN_DISABLE_ASLR b rc1,
          Spawned (args ! 1) b (tl args) environ rc pid, Message (spawn_failed rc)] \<and> rc \<noteq> 0 \<and> r = 127
     \<or> (\<exists>ret status. es = [Attr_initialised a rc0, Flags_set a POSIX_SPAWN_DISABLE_ASLR b rc1,
          Spawned (args ! 1) b (tl args) environ 0 pid, Waited pid 0 ret status] \<and> r = wait_result m ret status)"
    using complete_executions [OF assms(1,2,4)] by blast
  then show ?thesis
  proof (elim disjE exE conjE)
    assume es: "es = [Attr_initialised a rc0, Flags_set a POSIX_SPAWN_DISABLE_ASLR b rc1,
          Spawned (args ! 1) b (tl args) environ rc pid, Message (spawn_failed rc)]" and "rc \<noteq> 0" "r = 127"
    then show ?thesis
      by (intro exI [of _ "Not_started rc"]) (auto intro!: not_started simp: launch_status_def)
  next
    fix ret status assume es: "es = [Attr_initialised a rc0, Flags_set a POSIX_SPAWN_DISABLE_ASLR b rc1,
          Spawned (args ! 1) b (tl args) environ 0 pid, Waited pid 0 ret status]"
      and r: "r = wait_result m ret status"
    consider "ret = -1" | e where "ret = pid" "possible e" "status = stat e"
      using assms(5) es by (auto simp: waits_ok_def)
    then show ?thesis
    proof cases
      case 1
      then show ?thesis using es r
        by (intro exI [of _ Not_waited]) (auto intro!: not_waited simp: launch_status_def wait_result_def)
    next
      case 2
      have "0 < pid" using assms(6) es by (auto simp: spawns_ok_def)
      then have "r = shell_status e" "outcome_of stat es (Ended e)"
        using 2 es r wait_result_shell [OF assms(3), of e pid] by (auto intro!: ended)
      then show ?thesis using es shell_status_bounds [OF 2(2)]
        by (intro exI [of _ "Ended e"]) (simp add: launch_status_def)
    qed
  qed
qed

text \<open>The wait status of Darwin.\<close>

definition darwin_macros :: wait_macros where
  "darwin_macros = \<lparr>WIFEXITED = (\<lambda>st. st mod 128 = 0), WEXITSTATUS = (\<lambda>st. st div 256 mod 256),
     WIFSIGNALED = (\<lambda>st. st mod 128 \<noteq> 127 \<and> st mod 128 \<noteq> 0), WTERMSIG = (\<lambda>st. st mod 128)\<rparr>"

definition darwin_status :: "ending \<Rightarrow> int" where
  "darwin_status e = (case e of Exited c \<Rightarrow> 256 * int c | Killed sig \<Rightarrow> int sig)"

lemma darwin_macros_ok: "wait_macros_ok darwin_macros darwin_status"
  by (auto simp: wait_macros_ok_def darwin_macros_def darwin_status_def)

text \<open>A run of the command \<open>bench\<close> that is killed by signal 9.\<close>

definition example_argv :: "string option list" where
  "example_argv = [Some ''noaslr'', Some ''bench'', Some ''-x'', None]"

definition killed_run :: "nat event list" where
  "killed_run = [Attr_initialised 0 0, Flags_set 0 POSIX_SPAWN_DISABLE_ASLR 256 0,
     Spawned ''bench'' 256 [''bench'', ''-x''] [''HOME=/''] 0 42, Waited 42 0 42 9]"

lemma example_args: "main_args [''noaslr'', ''bench'', ''-x''] 3 example_argv"
  by (simp add: main_args_def example_argv_def)

lemma killed_run_executes:
  "executes (noaslr_main darwin_macros 3 example_argv [''HOME=/'']) killed_run (Exit 137)"
  by (simp add: killed_run_def noaslr_main_def spawn_command_def example_argv_def await_child_def
      darwin_macros_def)

lemma killed_run_documented: "waits_ok darwin_status killed_run" "spawns_ok killed_run"
  by (auto simp: killed_run_def waits_ok_def spawns_ok_def darwin_status_def possible_def
      intro!: exI [of _ "Killed 9"])

lemma noaslr_transparent_witness:
  "\<exists>out. outcome_of darwin_status killed_run out \<and> (137 :: int) = launch_status out \<and> 0 \<le> (137 :: int) \<and> (137 :: int) \<le> 255
     \<and> (\<exists>attr rc pid. filter (\<lambda>e. case e of Spawned _ _ _ _ _ _ \<Rightarrow> True | _ \<Rightarrow> False) killed_run
          = [Spawned ([''noaslr'', ''bench'', ''-x''] ! 1) attr (tl [''noaslr'', ''bench'', ''-x'']) [''HOME=/''] rc pid])"
  by (rule noaslr_transparent [OF example_args _ darwin_macros_ok killed_run_executes killed_run_documented]) simp

text \<open>
  What POSIX documents of \<open>posix_spawnattr_setflags\<close>: a call that returns 0 has stored the
  flags in the attributes. \<open>flags_of\<close> reads them.
\<close>

definition setflags_ok :: "('attr \<Rightarrow> 16 word) \<Rightarrow> 'attr event list \<Rightarrow> bool" where
  "setflags_ok flags_of es \<longleftrightarrow> (\<forall>a f b. Flags_set a f b 0 \<in> set es \<longrightarrow> flags_of b = f)"

text \<open>
  C3: at every moment of every execution, whatever the system answers: nothing undefined
  happens; the process is only ever started with the command line and environment given and
  with the attributes as they were left by the call made just before, which asks for the
  flag that disables the randomisation, so that the flag is set whenever that call reported
  success (its failure goes unnoticed, see the end of the theory); and only a process that was started is waited for.
\<close>

theorem noaslr_call_order:
  assumes "main_args args argc argv" "2 \<le> length args" "executes (noaslr_main m argc argv environ) es p"
    and "setflags_ok flags_of es"
  shows "p \<noteq> Undefined
     \<and> (\<forall>i < length es. \<forall>f attr av env rc pid. es ! i = Spawned f attr av env rc pid \<longrightarrow>
          f = args ! 1 \<and> av = tl args \<and> env = environ
          \<and> 0 < i \<and> (\<exists>attr0 rc1. es ! (i - 1) = Flags_set attr0 0x0100 attr rc1 \<and> (rc1 = 0 \<longrightarrow> flags_of attr = 0x0100)))
     \<and> (\<forall>i < length es. \<forall>pid opts ret st. es ! i = Waited pid opts ret st \<longrightarrow>
          opts = 0 \<and> 0 < i \<and> (\<exists>f attr av env. es ! (i - 1) = Spawned f attr av env 0 pid))"
proof -
  have "spawn_command m argv environ b \<noteq> Undefined" for b :: 'a
    unfolding spawn_command_eq [OF assms(1,2)] by simp
  then show ?thesis
    using executes_on_the_way [OF assms(1-3)] assms(2,4) unfolding on_the_way_def
    by (elim disjE conjE exE)
      (auto simp: noaslr_main_def await_child_eq POSIX_SPAWN_DISABLE_ASLR_def less_Suc_eq setflags_ok_def split: if_splits)
qed

text \<open>In the example the attributes are the flags.\<close>

lemma noaslr_call_order_witness:
  "(\<exists>attr0 rc1. killed_run ! 1 = Flags_set attr0 0x0100 256 rc1 \<and> of_nat 256 = (0x0100 :: 16 word))
     \<and> (\<exists>f attr av env. killed_run ! 2 = Spawned f attr av env 0 42)"
proof -
  have flags: "setflags_ok of_nat killed_run"
    by (auto simp: setflags_ok_def killed_run_def POSIX_SPAWN_DISABLE_ASLR_def)
  have order: "\<forall>i < length killed_run. \<forall>f attr av env rc pid. killed_run ! i = Spawned f attr av env rc pid \<longrightarrow>
          0 < i \<and> (\<exists>attr0 rc1. killed_run ! (i - 1) = Flags_set attr0 0x0100 attr rc1 \<and> (rc1 = 0 \<longrightarrow> of_nat attr = (0x0100 :: 16 word)))"
    "\<forall>i < length killed_run. \<forall>pid opts ret st. killed_run ! i = Waited pid opts ret st \<longrightarrow>
          0 < i \<and> (\<exists>f attr av env. killed_run ! (i - 1) = Spawned f attr av env 0 pid)"
    using noaslr_call_order [OF example_args _ killed_run_executes flags] by auto
  have "\<exists>attr0 rc1. killed_run ! 1 = Flags_set attr0 0x0100 256 rc1 \<and> of_nat 256 = (0x0100 :: 16 word)"
    using order(1) [rule_format, of 2 "''bench''" 256 "[''bench'', ''-x'']" "[''HOME=/'']" 0 42]
    by (simp add: killed_run_def)
  moreover have "\<exists>f attr av env. killed_run ! 2 = Spawned f attr av env 0 42"
    using order(2) [rule_format, of 3 42 0 42 9] by (simp add: killed_run_def)
  ultimately show ?thesis ..
qed

text \<open>
  C5: the launcher always comes to its end: it makes at most four calls, after each of
  which it either has returned or is ready for another call, whatever the answers were. It
  can only be kept waiting by a call that the system does not answer.
\<close>

theorem noaslr_returns:
  assumes "main_args args argc argv" "executes (noaslr_main m argc argv environ) es p"
  shows "length es \<le> 4 \<and> (length es = 4 \<longrightarrow> (\<exists>r. p = Exit r)) \<and> ((\<exists>r. p = Exit r) \<or> (\<exists>e q. call p e q))"
proof (cases "2 \<le> length args")
  case True
  have "executes (noaslr_main m argc argv environ) es p \<Longrightarrow> on_the_way m args argv environ es p"
    by (rule executes_on_the_way [OF assms(1) True])
  then have "on_the_way m args argv environ es p" using assms(2) .
  then show ?thesis
    using True unfolding on_the_way_def spawn_command_eq [OF assms(1) True] can_call
    by (elim disjE conjE exE) (auto simp: noaslr_main_def await_child_eq)
next
  case False
  then have main: "noaslr_main m argc argv environ = Eprintf usage (Exit 2)"
    using assms(1) by (simp add: noaslr_main_def main_args_def)
  show ?thesis using assms(2) unfolding main can_call by (cases es; cases "tl es") auto
qed

lemma noaslr_returns_witness: "length killed_run \<le> 4 \<and> (\<exists>r. Exit 137 = (Exit r :: nat program))"
  using noaslr_returns [OF example_args killed_run_executes] by (simp add: killed_run_def)

text \<open>
  C32: called without a command, or even without its own name, the launcher prints how it is
  used and returns 2, without any other call.
\<close>

theorem noaslr_usage:
  assumes "main_args args argc argv" "length args < 2"
  shows "executes (noaslr_main m argc argv environ) es (Exit r) \<longleftrightarrow> es = [Message usage] \<and> r = 2"
proof -
  have main: "noaslr_main m argc argv environ = Eprintf usage (Exit 2)"
    using assms by (simp add: noaslr_main_def main_args_def)
  show ?thesis unfolding main by (cases es; cases "tl es") auto
qed

lemma noaslr_usage_witness:
  "\<forall>es r. executes (noaslr_main darwin_macros 1 [Some ''noaslr'', None] []) es (Exit r :: nat program)
     \<longleftrightarrow> es = [Message usage] \<and> r = 2"
  by (intro allI noaslr_usage [of "[''noaslr'']"]) (simp_all add: main_args_def)

text \<open>
  C31: a command that could not be started is reported by its error number: of two complete
  executions that wrote the same messages, either both started the command, or both failed
  to, with the same error.
\<close>

theorem spawn_error_reported:
  assumes "main_args args argc argv" "2 \<le> length args"
    and "executes (noaslr_main m argc argv environ) es (Exit r)"
    and "executes (noaslr_main m argc argv environ) es' (Exit r')"
    and "\<forall>s. Message s \<in> set es \<longleftrightarrow> Message s \<in> set es'"
    and "Spawned f a av env rc pid \<in> set es" "Spawned f' a' av' env' rc' pid' \<in> set es'"
  shows "rc = rc'"
proof -
  have spawned: "Message (spawn_failed rc) \<in> set es \<and> rc \<noteq> 0 \<or> rc = 0 \<and> (\<forall>s. Message s \<notin> set es)"
    if "executes (noaslr_main m argc argv environ) es (Exit r)" "Spawned f a av env rc pid \<in> set es"
    for es r f a av env rc pid
    using complete_executions [OF assms(1,2) that(1)] that(2) by auto
  have only: "Message s \<in> set es \<Longrightarrow> s = spawn_failed rc"
    if "executes (noaslr_main m argc argv environ) es (Exit r)" "Spawned f a av env rc pid \<in> set es"
    for es r f a av env rc pid s
    using complete_executions [OF assms(1,2) that(1)] that(2) by auto
  have "spawn_failed i = spawn_failed j \<Longrightarrow> i = j" for i j
    by (simp add: spawn_failed_def fmt_d_inj)
  then show ?thesis
    using spawned [OF assms(3,6)] spawned [OF assms(4,7)] only [OF assms(3,6)] only [OF assms(4,7)] assms(5)
    by metis
qed

text \<open>A run of the command \<open>bench\<close> that is not found.\<close>

definition failed_run :: "nat event list" where
  "failed_run = [Attr_initialised 0 0, Flags_set 0 POSIX_SPAWN_DISABLE_ASLR 256 0,
     Spawned ''bench'' 256 [''bench'', ''-x''] [''HOME=/''] 2 0, Message (spawn_failed 2)]"

lemma failed_run_executes:
  "executes (noaslr_main darwin_macros 3 example_argv [''HOME=/'']) failed_run (Exit 127)"
  by (simp add: failed_run_def noaslr_main_def spawn_command_def example_argv_def)

lemma spawn_error_reported_witness:
  "executes (noaslr_main darwin_macros 3 example_argv [''HOME=/'']) failed_run (Exit 127) \<and> (2 :: int) = 2"
proof
  show "(2 :: int) = 2"
    by (rule spawn_error_reported [OF example_args _ failed_run_executes failed_run_executes,
          of "''bench''" 256 "[''bench'', ''-x'']" "[''HOME=/'']" _ 0 "''bench''" 256 "[''bench'', ''-x'']" "[''HOME=/'']" _ 0])
      (simp_all add: failed_run_def)
qed (rule failed_run_executes)

text \<open>
  C34: the launcher does not notice when the randomisation could not be switched off: if
  setting the flag reports an error and leaves the attributes as they were, the command is
  started with those attributes, nothing is printed, and the result is that of the command.
\<close>

theorem flag_error_unnoticed:
  assumes "main_args args argc argv" "2 \<le> length args" "WIFEXITED m status" "0 \<le> ret" "err \<noteq> 0"
  shows "executes (noaslr_main m argc argv environ)
     [Attr_initialised attr 0, Flags_set attr POSIX_SPAWN_DISABLE_ASLR attr err,
      Spawned (args ! 1) attr (tl args) environ 0 pid, Waited pid 0 ret status] (Exit (WEXITSTATUS m status))"
proof -
  have "\<not> argc < 2" using assms(1,2) by (simp add: main_args_def)
  then show ?thesis
    using assms(3-5) by (simp add: noaslr_main_def spawn_command_eq [OF assms(1,2)] await_child_eq wait_result_def)
qed

lemma flag_error_unnoticed_witness:
  "executes (noaslr_main darwin_macros 3 example_argv [''HOME=/''])
     [Attr_initialised (0 :: nat) 0, Flags_set 0 POSIX_SPAWN_DISABLE_ASLR 0 22,
      Spawned ([''noaslr'', ''bench'', ''-x''] ! 1) 0 (tl [''noaslr'', ''bench'', ''-x'']) [''HOME=/''] 0 42,
      Waited 42 0 42 0] (Exit (WEXITSTATUS darwin_macros 0))"
  by (rule flag_error_unnoticed [OF example_args]) (simp_all add: darwin_macros_def)

end
