(* ===== verification/CDouble.thy ===== *)
theory CDouble
  imports CText Complex_Main
begin

text \<open>
  The type \<open>double\<close> of C on the machines the sources are built for: IEEE 754 binary64 with
  rounding to nearest, ties to even. A finite value is an exact rational; an operation
  computes the exact result and rounds it. The sign of a zero is not kept: no program here
  divides by a zero that could be negative or prints one.
\<close>

section \<open>Rounding\<close>

text \<open>To the nearest integer, halves to the even one.\<close>

definition round_even :: "rat \<Rightarrow> int" where
  "round_even x =
     (let f = \<lfloor>x\<rfloor>; d = x - of_int f
      in if d < 1 / 2 then f else if d > 1 / 2 then f + 1 else if even f then f else f + 1)"

function bit_length :: "int \<Rightarrow> int" where
  "bit_length n = (if n \<le> 0 then 0 else bit_length (n div 2) + 1)"
  by pat_completeness auto
termination by (relation "measure nat") auto

declare bit_length.simps [simp del]

text \<open>The exponent of the binade of a positive rational.\<close>

definition exponent :: "rat \<Rightarrow> int" where
  "exponent x =
     (let (p, q) = quotient_of x; e = bit_length p - bit_length q
      in if 2 powi e \<le> x then e else e - 1)"

datatype double = Finite rat | Infinite bool | Not_a_number

text \<open>The distance of the doubles around \<open>x\<close>: 53 significant bits, down to the subnormals.\<close>

definition ulp :: "rat \<Rightarrow> rat" where
  "ulp x = 2 powi (max (exponent \<bar>x\<bar>) (- 1022) - 52)"

definition rounded :: "rat \<Rightarrow> double" where
  "rounded x =
     (if x = 0 then Finite 0
      else let y = of_int (round_even (x / ulp x)) * ulp x
           in if \<bar>y\<bar> < 2 ^ 1024 then Finite y else Infinite (x < 0))"

lemma rounded_0 [simp]: "rounded 0 = Finite 0"
  by (simp add: rounded_def)

section \<open>Operations\<close>

fun d_neg_sign :: "double \<Rightarrow> bool" where
  "d_neg_sign (Finite x) = (x < 0)"
| "d_neg_sign (Infinite s) = s"
| "d_neg_sign Not_a_number = False"

fun d_mult :: "double \<Rightarrow> double \<Rightarrow> double" where
  "d_mult (Finite x) (Finite y) = rounded (x * y)"
| "d_mult Not_a_number y = Not_a_number"
| "d_mult x Not_a_number = Not_a_number"
| "d_mult (Infinite s) (Finite y) = (if y = 0 then Not_a_number else Infinite (s \<noteq> (y < 0)))"
| "d_mult (Finite x) (Infinite t) = (if x = 0 then Not_a_number else Infinite (t \<noteq> (x < 0)))"
| "d_mult (Infinite s) (Infinite t) = Infinite (s \<noteq> t)"

text \<open>A zero divisor counts as positive.\<close>

fun d_div :: "double \<Rightarrow> double \<Rightarrow> double" where
  "d_div (Finite x) (Finite y) =
     (if y \<noteq> 0 then rounded (x / y) else if x = 0 then Not_a_number else Infinite (x < 0))"
| "d_div Not_a_number y = Not_a_number"
| "d_div x Not_a_number = Not_a_number"
| "d_div (Infinite s) (Finite y) = Infinite (s \<noteq> (y < 0))"
| "d_div (Finite x) (Infinite t) = Finite 0"
| "d_div (Infinite s) (Infinite t) = Not_a_number"

fun d_less :: "double \<Rightarrow> double \<Rightarrow> bool" where
  "d_less (Finite x) (Finite y) = (x < y)"
| "d_less Not_a_number y = False"
| "d_less x Not_a_number = False"
| "d_less (Infinite s) (Finite y) = s"
| "d_less (Finite x) (Infinite t) = (\<not> t)"
| "d_less (Infinite s) (Infinite t) = (s \<and> \<not> t)"

text \<open>The conversion of an unsigned integer.\<close>

definition d_of_word :: "'a::len word \<Rightarrow> double" where
  "d_of_word w = rounded (of_int (uint w))"

text \<open>The conversion \<open>%.nf\<close> of \<open>printf\<close>: the exact value, rounded to \<open>n\<close> digits.\<close>

definition fmt_f :: "nat \<Rightarrow> double \<Rightarrow> string" where
  "fmt_f n d =
     (case d of
        Finite x \<Rightarrow>
          let m = nat (round_even (\<bar>x\<bar> * 10 ^ n)); frac = digits (m mod 10 ^ n)
          in (if x < 0 then ''-'' else []) @ digits (m div 10 ^ n)
             @ (if n = 0 then [] else ''.'' @ replicate (n - length frac) (CHR ''0'') @ frac)
      | Infinite s \<Rightarrow> if s then ''-inf'' else ''inf''
      | Not_a_number \<Rightarrow> ''nan'')"

section \<open>Reading a number\<close>

text \<open>The function \<open>atof\<close>: \<open>strtod\<close> in the C locale, with the exact value rounded.\<close>

definition is_space :: "char \<Rightarrow> bool" where
  "is_space c \<longleftrightarrow> (of_char c :: nat) = 32 \<or> 9 \<le> (of_char c :: nat) \<and> (of_char c :: nat) \<le> 13"

definition lower_case :: "char \<Rightarrow> char" where
  "lower_case c = (let n = of_char c :: nat in if 65 \<le> n \<and> n \<le> 90 then char_of (n + 32) else c)"

definition is_hex_digit :: "char \<Rightarrow> bool" where
  "is_hex_digit c \<longleftrightarrow> is_digit c \<or> (let n = of_char (lower_case c) :: nat in 97 \<le> n \<and> n \<le> 102)"

definition hex_digit_value :: "char \<Rightarrow> nat" where
  "hex_digit_value c = (if is_digit c then digit_value c else of_char (lower_case c) - 87)"

definition hex_value :: "string \<Rightarrow> nat" where
  "hex_value ds = foldl (\<lambda>n c. 16 * n + hex_digit_value c) 0 ds"

text \<open>A sign, and what follows it.\<close>

definition read_sign :: "string \<Rightarrow> bool \<times> string" where
  "read_sign s = (case s of [] \<Rightarrow> (False, []) | c # r \<Rightarrow>
     if c = CHR ''-'' then (True, r) else if c = CHR ''+'' then (False, r) else (False, s))"

text \<open>An exponent behind the mark \<open>e\<close> or \<open>p\<close>; without digits there is none.\<close>

definition read_exponent :: "char \<Rightarrow> string \<Rightarrow> int" where
  "read_exponent mark s = (case s of [] \<Rightarrow> 0 | c # r \<Rightarrow>
     if lower_case c = mark
     then let (neg, r) = read_sign r; ds = takeWhile is_digit r
          in if neg then - int (digits_value ds) else int (digits_value ds)
     else 0)"

text \<open>The digits in front of and behind a point, and the rest.\<close>

definition read_digits :: "(char \<Rightarrow> bool) \<Rightarrow> string \<Rightarrow> string \<times> string \<times> string" where
  "read_digits ok s =
     (let ip = takeWhile ok s; r = dropWhile ok s
      in case r of [] \<Rightarrow> (ip, [], []) | c # r' \<Rightarrow>
           if c = CHR ''.'' then (ip, takeWhile ok r', dropWhile ok r') else (ip, [], r))"

definition read_decimal :: "string \<Rightarrow> rat" where
  "read_decimal s =
     (let (ip, fp, r) = read_digits is_digit s
      in if ip = [] \<and> fp = [] then 0
         else of_nat (digits_value (ip @ fp)) * 10 powi (read_exponent (CHR ''e'') r - int (length fp)))"

definition read_hexadecimal :: "string \<Rightarrow> rat option" where
  "read_hexadecimal s =
     (case s of z # x # s' \<Rightarrow>
        if z = CHR ''0'' \<and> lower_case x = CHR ''x''
        then let (ip, fp, r) = read_digits is_hex_digit s'
             in if ip = [] \<and> fp = [] then None
                else Some (of_nat (hex_value (ip @ fp))
                       * 2 powi (read_exponent (CHR ''p'') r - 4 * int (length fp)))
        else None
      | _ \<Rightarrow> None)"

definition starts_with :: "string \<Rightarrow> string \<Rightarrow> bool" where
  "starts_with p s \<longleftrightarrow> map lower_case (take (length p) s) = p"

definition atof :: "string \<Rightarrow> double" where
  "atof s =
     (let (neg, s) = read_sign (dropWhile is_space s)
      in if starts_with ''inf'' s then Infinite neg
         else if starts_with ''nan'' s then Not_a_number
         else let v = (case read_hexadecimal s of Some v \<Rightarrow> v | None \<Rightarrow> read_decimal s)
              in rounded (if neg then - v else v))"

section \<open>Correct rounding\<close>

lemma round_even_bounds:
  "of_int (round_even x) - x \<le> 1 / 2" "x - of_int (round_even x) \<le> 1 / 2"
  unfolding round_even_def Let_def
  by (auto split: if_splits) linarith+

lemma round_even_error: "\<bar>of_int (round_even x) - x\<bar> \<le> 1 / 2"
  using round_even_bounds [of x] by linarith

lemma round_even_of_int [simp]: "round_even (of_int n) = n"
  by (simp add: round_even_def)

text \<open>No integer is nearer.\<close>

lemma round_even_nearest: "\<bar>of_int (round_even x) - x\<bar> \<le> \<bar>of_int n - x\<bar>"
proof (cases "n = round_even x")
  case False
  then have "1 \<le> \<bar>n - round_even x\<bar>" by linarith
  then have "(1 :: rat) \<le> \<bar>of_int n - of_int (round_even x)\<bar>" by linarith
  then show ?thesis using round_even_error [of x] by linarith
qed simp

lemma bit_length_bounds:
  "0 < n \<Longrightarrow> 1 \<le> bit_length n \<and> (2 :: rat) powi (bit_length n - 1) \<le> of_int n \<and> of_int n < (2 :: rat) powi bit_length n"
proof (induction n rule: bit_length.induct)
  case (1 n)
  show ?case
  proof (cases "n = 1")
    case True
    then show ?thesis by (simp add: bit_length.simps)
  next
    case False
    define h where "h = n div 2"
    have h: "0 < h" "2 * h \<le> n" "n \<le> 2 * h + 1" using 1(2) False by (auto simp: h_def)
    have b: "bit_length n = bit_length h + 1" using 1(2) by (subst bit_length.simps) (simp add: h_def)
    have IH: "1 \<le> bit_length h" "(2 :: rat) powi (bit_length h - 1) \<le> of_int h" "of_int h < (2 :: rat) powi bit_length h"
      using 1(1) h(1) 1(2) unfolding h_def [symmetric] by auto
    have "(2 :: rat) powi bit_length h = 2 * 2 powi (bit_length h - 1)"
      using power_int_minus_mult [of "2 :: rat" "bit_length h"] by simp
    moreover have "(2 :: rat) powi (bit_length h + 1) = 2 * 2 powi bit_length h"
      using power_int_add [of "2 :: rat" "bit_length h" 1] by simp
    moreover have p: "(2 :: rat) powi bit_length h = of_int (2 ^ nat (bit_length h))"
      using IH(1) by (simp add: power_int_nonneg_exp)
    moreover have "h < 2 ^ nat (bit_length h)"
      using IH(3) unfolding p by (simp only: of_int_less_iff)
    then have "rat_of_int (h + 1) \<le> of_int (2 ^ nat (bit_length h))" by (simp only: of_int_le_iff)
    ultimately show ?thesis
      using IH h(2,3) b by simp
  qed
qed

lemma powi_Suc: "(2 :: rat) powi (e + 1) = 2 * 2 powi e"
  using power_int_add [of "2 :: rat" e 1] by simp

lemma exponent_bounds:
  assumes "0 < x"
  shows "2 powi exponent x \<le> x \<and> x < 2 powi (exponent x + 1)"
proof -
  obtain p q where pq: "quotient_of x = (p, q)" by fastforce
  have x: "x = of_int p / of_int q" and q: "0 < q"
    using quotient_of_div [OF pq] quotient_of_denom_pos [OF pq] by auto
  then have "0 < p" using assms by (simp add: zero_less_divide_iff)
  define e where "e = bit_length p - bit_length q"
  let ?P = "(2 :: rat) powi bit_length p" and ?Q = "(2 :: rat) powi bit_length q"
  have pb: "?P / 2 \<le> of_int p" "of_int p < ?P"
    using bit_length_bounds [OF \<open>0 < p\<close>] powi_Suc [of "bit_length p - 1"] by auto
  have qb: "?Q / 2 \<le> of_int q" "of_int q < ?Q"
    using bit_length_bounds [OF q] powi_Suc [of "bit_length q - 1"] by auto
  have e: "2 powi e = ?P / ?Q" by (simp add: e_def power_int_diff)
  have pos: "0 < ?P" "0 < ?Q" "(0 :: rat) < of_int q" "(0 :: rat) < of_int p" using q \<open>0 < p\<close> by auto
  have "x < ?P / (?Q / 2)"
    unfolding x using pb(2) qb(1) pos by (intro frac_less) auto
  then have up: "x < 2 powi (e + 1)" unfolding powi_Suc e by (simp add: mult.commute)
  have "?P / 2 / ?Q < x"
    unfolding x using pb(1) qb(2) pos by (intro frac_less2) auto
  then have low: "2 powi (e - 1) \<le> x" using powi_Suc [of "e - 1"] e by simp
  have "exponent x = (if 2 powi e \<le> x then e else e - 1)"
    by (simp add: exponent_def pq e_def Let_def)
  then show ?thesis using up low by auto
qed

lemma exponent_unique:
  assumes "2 powi e \<le> x" "x < 2 powi (e + 1)"
  shows "exponent x = e"
proof -
  have "0 < x" using assms(1) by (rule less_le_trans [rotated]) simp
  then have b: "2 powi exponent x \<le> x" "x < 2 powi (exponent x + 1)" using exponent_bounds by auto
  have "2 powi exponent x < (2 :: rat) powi (e + 1)" "2 powi e < (2 :: rat) powi (exponent x + 1)"
    using b assms by auto
  then have "exponent x < e + 1" "e < exponent x + 1"
    using power_int_increasing [of "e + 1" "exponent x" "2 :: rat"]
      power_int_increasing [of "exponent x + 1" e "2 :: rat"] by (auto simp: not_le [symmetric])
  then show ?thesis by simp
qed

lemma ulp_pos [simp]: "0 < ulp x"
  by (simp add: ulp_def)

text \<open>
  The values that 53 significant bits and the least exponent allow, and the finite values of
  the type.
\<close>

definition on_grid :: "rat \<Rightarrow> bool" where
  "on_grid y \<longleftrightarrow> (\<exists>m k. y = of_int m * 2 powi k \<and> \<bar>m\<bar> \<le> 2 ^ 53 \<and> - 1074 \<le> k)"

definition representable :: "rat \<Rightarrow> bool" where
  "representable y \<longleftrightarrow> on_grid y \<and> \<bar>y\<bar> < 2 ^ 1024"

text \<open>Rounding without an upper limit on the exponent.\<close>

definition to_grid :: "rat \<Rightarrow> rat" where
  "to_grid x = of_int (round_even (x / ulp x)) * ulp x"

lemma rounded_to_grid: "rounded x = (if \<bar>to_grid x\<bar> < 2 ^ 1024 then Finite (to_grid x) else Infinite (x < 0))"
  by (simp add: rounded_def to_grid_def round_even_def Let_def)

lemma to_grid_error: "\<bar>to_grid x - x\<bar> \<le> ulp x / 2"
proof -
  have "\<bar>of_int (round_even (x / ulp x)) - x / ulp x\<bar> * ulp x \<le> 1 / 2 * ulp x"
    by (intro mult_right_mono round_even_error) (simp add: less_imp_le)
  also have "\<bar>of_int (round_even (x / ulp x)) - x / ulp x\<bar> * ulp x
      = \<bar>(of_int (round_even (x / ulp x)) - x / ulp x) * ulp x\<bar>"
    by (simp add: abs_mult abs_of_pos)
  also have "(of_int (round_even (x / ulp x)) - x / ulp x) * ulp x = of_int (round_even (x / ulp x)) * ulp x - x"
    using ulp_pos [of x] by (simp add: left_diff_distrib less_imp_neq [symmetric] del: ulp_pos)
  finally show ?thesis by (simp add: to_grid_def)
qed

lemma round_even_between: "of_int a \<le> x \<Longrightarrow> x \<le> of_int b \<Longrightarrow> a \<le> round_even x \<and> round_even x \<le> b"
proof -
  assume "of_int a \<le> x" "x \<le> of_int b"
  then have "rat_of_int a < of_int (round_even x) + 1" "rat_of_int (round_even x) < of_int b + 1"
    using round_even_bounds [of x] by linarith+
  then have "rat_of_int a < of_int (round_even x + 1)" "rat_of_int (round_even x) < of_int (b + 1)" by simp_all
  then show ?thesis by (simp only: of_int_less_iff) simp
qed

lemma exponent_mono: "0 < x \<Longrightarrow> x \<le> y \<Longrightarrow> exponent x \<le> exponent y"
proof (rule ccontr)
  assume "0 < x" "x \<le> y" "\<not> exponent x \<le> exponent y"
  then have "y < 2 powi (exponent y + 1)" "2 powi exponent x \<le> x" "(2 :: rat) powi (exponent y + 1) \<le> 2 powi exponent x"
    using exponent_bounds [of x] exponent_bounds [of y] power_int_increasing [of "exponent y + 1" "exponent x" "2 :: rat"]
    by auto
  then show False using \<open>x \<le> y\<close> by linarith
qed

lemma ulp_scaled: "x \<noteq> 0 \<Longrightarrow> \<bar>x\<bar> < 2 ^ 53 * ulp x"
proof -
  assume "x \<noteq> 0"
  then have "\<bar>x\<bar> < 2 powi (exponent \<bar>x\<bar> + 1)" using exponent_bounds [of "\<bar>x\<bar>"] by simp
  also have "\<dots> \<le> 2 powi (53 + (max (exponent \<bar>x\<bar>) (- 1022) - 52))" by (intro power_int_increasing) auto
  also have "\<dots> = 2 ^ 53 * ulp x" by (subst power_int_add) (simp_all add: ulp_def)
  finally show ?thesis .
qed

lemma to_grid_on_grid: "on_grid (to_grid x)"
proof (cases "x = 0")
  case True
  then show ?thesis by (auto simp: on_grid_def to_grid_def round_even_def Let_def intro!: exI [of _ 0])
next
  case False
  have "- (2 ^ 53 * ulp x) < x" "x < 2 ^ 53 * ulp x" using ulp_scaled [OF False] by linarith+
  then have "- (2 ^ 53) \<le> x / ulp x" "x / ulp x \<le> 2 ^ 53"
    by (simp_all add: pos_le_divide_eq pos_divide_le_eq)
  then have "- (2 ^ 53) \<le> round_even (x / ulp x) \<and> round_even (x / ulp x) \<le> 2 ^ 53"
    by (intro round_even_between) simp_all
  then show ?thesis
    unfolding on_grid_def to_grid_def ulp_def
    by (intro exI [of _ "round_even (x / ulp x)"] exI [of _ "max (exponent \<bar>x\<bar>) (- 1022) - 52"])
      (auto simp: ulp_def)
qed

lemma to_grid_0 [simp]: "to_grid 0 = 0"
  by (simp add: to_grid_def round_even_def Let_def)

lemma to_grid_nearest_multiple: "\<bar>to_grid x - x\<bar> \<le> \<bar>of_int n * ulp x - x\<bar>"
proof -
  have scale: "\<bar>of_int i * ulp x - x\<bar> = \<bar>of_int i - x / ulp x\<bar> * ulp x" for i
  proof -
    have "of_int i * ulp x - x = (of_int i - x / ulp x) * ulp x"
      using ulp_pos [of x] by (simp add: left_diff_distrib del: ulp_pos)
    then show ?thesis using ulp_pos [of x] by (simp add: abs_mult abs_of_pos del: ulp_pos)
  qed
  show ?thesis
    unfolding to_grid_def scale by (intro mult_right_mono round_even_nearest) (simp add: less_imp_le)
qed

text \<open>Rounding is to the nearest value of the grid.\<close>

lemma to_grid_nearest:
  assumes "on_grid z"
  shows "\<bar>to_grid x - x\<bar> \<le> \<bar>z - x\<bar>"
proof (cases "x = 0")
  case False
  obtain m k where z: "z = of_int m * 2 powi k" "\<bar>m\<bar> \<le> 2 ^ 53" "- 1074 \<le> k"
    using assms by (auto simp: on_grid_def)
  define e where "e = exponent \<bar>x\<bar>"
  define U where "U = max e (- 1022) - 52"
  have ulp: "ulp x = 2 powi U" by (simp add: ulp_def U_def e_def)
  show ?thesis
  proof (cases "U \<le> k")
    case True
    then have "(2 :: rat) powi k = 2 powi (k - U) * 2 powi U"
      using power_int_add [of "2 :: rat" "k - U" U] by simp
    moreover have "(2 :: rat) powi (k - U) = of_int (2 ^ nat (k - U))"
      using True by (simp add: power_int_nonneg_exp)
    ultimately have "z = of_int (m * 2 ^ nat (k - U)) * ulp x"
      by (simp add: z(1) ulp)
    then show ?thesis using to_grid_nearest_multiple [of x "m * 2 ^ nat (k - U)"] by simp
  next
    case False
    then have e: "U = e - 52" using z(3) by (simp add: U_def max_def split: if_splits)
    have low: "2 powi e \<le> \<bar>x\<bar>" using exponent_bounds [of "\<bar>x\<bar>"] \<open>x \<noteq> 0\<close> by (simp add: e_def)
    have "rat_of_int \<bar>m\<bar> \<le> of_int (2 ^ 53)" using z(2) by (simp only: of_int_le_iff)
    then have "\<bar>of_int m\<bar> \<le> (2 ^ 53 :: rat)" by simp
    then have "\<bar>z\<bar> \<le> 2 ^ 53 * 2 powi k" by (simp add: z(1) abs_mult)
    also have "\<dots> \<le> 2 ^ 53 * 2 powi (e - 53)"
      using False e by (intro mult_left_mono power_int_increasing) auto
    also have "\<dots> = 2 powi e" using power_int_add [of "2 :: rat" 53 "e - 53"] by simp
    finally have small: "\<bar>z\<bar> \<le> 2 powi e" .
    have edge: "of_int (2 ^ 52) * ulp x = 2 powi e"
      using power_int_add [of "2 :: rat" 52 "e - 52"] by (simp add: ulp e)
    have "\<bar>to_grid x - x\<bar> \<le> \<bar>x\<bar> - 2 powi e"
    proof (cases "0 < x")
      case True
      then show ?thesis using to_grid_nearest_multiple [of x "2 ^ 52"] low unfolding edge by simp
    next
      case False
      then show ?thesis
        using to_grid_nearest_multiple [of x "- (2 ^ 52)"] low edge by simp
    qed
    then show ?thesis using small by linarith
  qed
qed simp

lemma to_grid_exact: "on_grid x \<Longrightarrow> to_grid x = x"
  using to_grid_nearest [of x x] by simp

lemma to_grid_mono:
  assumes "x \<le> y"
  shows "to_grid x \<le> to_grid y"
proof (cases "x = y")
  case False
  show ?thesis
    using to_grid_nearest [OF to_grid_on_grid, of x y] to_grid_nearest [OF to_grid_on_grid, of y x] assms False
    by (simp add: abs_if split: if_splits)
qed simp

text \<open>Away from the subnormals and the infinities the relative error is at most half a bit.\<close>

definition normal :: "rat \<Rightarrow> bool" where
  "normal x \<longleftrightarrow> 2 powi (- 1022) \<le> \<bar>x\<bar> \<and> \<bar>x\<bar> < 2 ^ 1023"

lemma normal_exponent: "normal x \<Longrightarrow> - 1022 \<le> exponent \<bar>x\<bar>"
proof -
  assume "normal x"
  then have "(2 :: rat) powi (- 1022) \<le> \<bar>x\<bar>" by (simp add: normal_def)
  moreover have "exponent (2 powi (- 1022)) = - 1022"
    by (rule exponent_unique) (simp, intro power_int_strict_increasing, auto)
  ultimately show ?thesis using exponent_mono [of "2 powi (- 1022)" "\<bar>x\<bar>"] by (simp del: power_int_minus)
qed

lemma rounded_normal:
  assumes "normal x"
  shows "\<exists>y. rounded x = Finite y \<and> \<bar>y - x\<bar> \<le> \<bar>x\<bar> / 2 ^ 53"
proof -
  let ?e = "exponent \<bar>x\<bar>"
  have "0 < (2 :: rat) powi (- 1022)" by (rule zero_less_power_int) simp
  then have pos: "0 < \<bar>x\<bar>" using assms unfolding normal_def by linarith
  then have b: "2 powi ?e \<le> \<bar>x\<bar>" using exponent_bounds by blast
  have u: "ulp x = 2 powi (?e - 52)" using normal_exponent [OF assms] by (simp add: ulp_def max_def)
  have "2 powi ?e = 2 ^ 52 * ulp x" using power_int_add [of "2 :: rat" 52 "?e - 52"] by (simp add: u)
  then have err: "\<bar>to_grid x - x\<bar> \<le> \<bar>x\<bar> / 2 ^ 53" using to_grid_error [of x] b by simp
  moreover have "\<bar>x\<bar> / 2 ^ 53 \<le> \<bar>x\<bar>" by simp
  ultimately have "\<bar>to_grid x\<bar> \<le> 2 * \<bar>x\<bar>" by linarith
  also have "\<dots> < 2 * 2 ^ 1023" using assms by (simp add: normal_def)
  also have "\<dots> = 2 ^ 1024" by simp
  finally have "rounded x = Finite (to_grid x)" by (simp only: rounded_to_grid if_True)
  then show ?thesis using err by blast
qed

lemma rounded_exact: "representable x \<Longrightarrow> rounded x = Finite x"
  by (simp add: rounded_to_grid representable_def to_grid_exact)

lemma rounded_representable: "rounded x = Finite y \<Longrightarrow> representable y"
  using to_grid_on_grid [of x] by (auto simp: rounded_to_grid representable_def split: if_splits)

lemma to_grid_neg: "x < 0 \<Longrightarrow> to_grid x \<le> 0"
  using to_grid_mono [of x 0] by simp

lemma to_grid_nonneg: "0 \<le> x \<Longrightarrow> 0 \<le> to_grid x"
  using to_grid_mono [of 0 x] by simp

lemma rounded_mono:
  assumes "x \<le> y"
  shows "\<not> d_less (rounded y) (rounded x)"
proof -
  define M :: rat where "M = 2 ^ 1024"
  have M: "rounded z = (if \<bar>to_grid z\<bar> < M then Finite (to_grid z) else Infinite (z < 0))" for z
    by (simp only: rounded_to_grid M_def)
  have sign: "z < 0 \<and> to_grid z \<le> 0 \<or> 0 \<le> z \<and> 0 \<le> to_grid z" for z
    using to_grid_neg [of z] to_grid_nonneg [of z] by linarith
  show ?thesis
    using assms to_grid_mono [OF assms] sign [of x] sign [of y] unfolding M
    by (cases "\<bar>to_grid x\<bar> < M"; cases "\<bar>to_grid y\<bar> < M") (simp_all, linarith+)
qed

text \<open>Integers of 53 bits are exact, and so are their multiples by powers of two.\<close>

lemma representable_int: "\<bar>m\<bar> \<le> 2 ^ 53 \<Longrightarrow> representable (of_int m * 2 ^ k)" if "k \<le> 900"
proof -
  assume m: "\<bar>m\<bar> \<le> 2 ^ 53"
  then have "rat_of_int \<bar>m\<bar> \<le> of_int (2 ^ 53)" by (simp only: of_int_le_iff)
  moreover have "(2 :: rat) ^ k \<le> 2 ^ 900" using that by (intro power_increasing) auto
  ultimately have "\<bar>of_int m * 2 ^ k\<bar> \<le> (2 ^ 53 * 2 ^ 900 :: rat)"
    unfolding abs_mult by (intro mult_mono) auto
  also have "(2 ^ 53 * 2 ^ 900 :: rat) < 2 ^ 1024" by simp
  finally show ?thesis
    using m unfolding representable_def on_grid_def
    by (intro conjI exI [of _ m] exI [of _ "int k"]) auto
qed

lemma rounded_int: "\<bar>m\<bar> \<le> 2 ^ 53 \<Longrightarrow> rounded (of_int m) = Finite (of_int m)"
  using rounded_exact [OF representable_int [of 0 m]] by simp

section \<open>Computations of several roundings\<close>

text \<open>
  \<open>near j x y\<close>: two positive values that are at most \<open>j\<close> roundings apart. The relation
  composes, and passes through products and quotients.
\<close>

definition shrink :: rat where
  "shrink = 1 - 1 / 2 ^ 53"

definition near :: "nat \<Rightarrow> rat \<Rightarrow> rat \<Rightarrow> bool" where
  "near j x y \<longleftrightarrow> 0 < x \<and> 0 < y \<and> shrink ^ j * x \<le> y \<and> shrink ^ j * y \<le> x"

lemma shrink_bounds: "0 < shrink" "shrink \<le> 1"
  by (simp_all add: shrink_def)

lemma shrink_power: "1 - of_nat j / 2 ^ 53 \<le> shrink ^ j"
proof (induction j)
  case (Suc j)
  have "(1 - of_nat j / 2 ^ 53) * shrink \<le> shrink ^ j * shrink"
    using Suc shrink_bounds by (intro mult_right_mono) auto
  moreover have "1 - of_nat (Suc j) / 2 ^ 53 \<le> (1 - of_nat j / 2 ^ 53) * shrink"
    by (simp add: shrink_def algebra_simps)
  ultimately show ?case by (simp add: mult.commute)
qed simp

lemma near_refl: "0 < x \<Longrightarrow> near 0 x x"
  by (simp add: near_def)

lemma near_sym: "near j x y \<Longrightarrow> near j y x"
  by (simp add: near_def)

lemma near_trans:
  assumes "near i x y" "near j y z"
  shows "near (i + j) x z"
proof -
  have one: "shrink ^ (i + j) * a \<le> c" if "shrink ^ i * a \<le> b" "shrink ^ j * b \<le> c" for a b c i j
  proof -
    have "shrink ^ j * (shrink ^ i * a) \<le> shrink ^ j * b"
      using that(1) shrink_bounds by (intro mult_left_mono) auto
    then show ?thesis using that(2) by (simp add: power_add ac_simps)
  qed
  have "shrink ^ (j + i) * z \<le> x" using assms by (intro one [of j z y i x]) (auto simp: near_def)
  then show ?thesis using assms one [of i x y j z] by (simp add: near_def add.commute)
qed

lemma near_mult: "near j x y \<Longrightarrow> 0 < c \<Longrightarrow> near j (x * c) (y * c)"
  by (simp add: near_def mult.assoc [symmetric])

lemma near_divide: "near j x y \<Longrightarrow> 0 < c \<Longrightarrow> near j (x / c) (y / c)"
  using near_mult [of j x y "1 / c"] by simp

lemma near_divide_left: "near j x y \<Longrightarrow> 0 < c \<Longrightarrow> near j (c / x) (c / y)"
proof -
  assume n: "near j x y" and c: "0 < c"
  have "shrink ^ j * (c / a) \<le> c / b" if "0 < a" "0 < b" "shrink ^ j * b \<le> a" for a b
  proof -
    have "c * (shrink ^ j * b) \<le> c * a" using that c by (intro mult_left_mono) auto
    then show ?thesis using that by (simp add: field_simps)
  qed
  then show ?thesis using n c by (simp add: near_def)
qed

lemma near_bounds:
  assumes "near j x y" "j \<le> 2 ^ 52"
  shows "x / 2 \<le> y" "y \<le> 2 * x"
proof -
  have "of_nat j \<le> (2 ^ 52 :: rat)" using assms(2) by (metis of_nat_le_iff of_nat_numeral of_nat_power)
  then have "1 / 2 \<le> shrink ^ j" using shrink_power [of j] by simp
  then have half: "a / 2 \<le> shrink ^ j * a" if "0 < a" for a
    using mult_right_mono [of "1 / 2" "shrink ^ j" a] that by simp
  show "x / 2 \<le> y" "y \<le> 2 * x"
    using half [of x] half [of y] assms(1) unfolding near_def by linarith+
qed

lemma shrink_gap: "1 < shrink ^ 4 * (1 + 1 / 2 ^ 50)"
proof -
  have "(1 - 4 / 2 ^ 53) * (1 + 1 / 2 ^ 50) \<le> shrink ^ 4 * (1 + 1 / 2 ^ 50)"
    using shrink_power [of 4] by (intro mult_right_mono) simp_all
  moreover have "(1 :: rat) < (1 - 4 / 2 ^ 53) * (1 + 1 / 2 ^ 50)" by simp
  ultimately show ?thesis by linarith
qed

text \<open>A value that is larger by that much stays larger after four roundings.\<close>

lemma near_gap:
  assumes "near 3 x c" "near 1 v y" "(1 + 1 / 2 ^ 50) * v \<le> x"
  shows "y < c"
proof -
  have v: "0 < v" using assms(2) by (simp add: near_def)
  have "1 * v < shrink ^ 4 * (1 + 1 / 2 ^ 50) * v" using v shrink_gap by (intro mult_strict_right_mono)
  also have "\<dots> \<le> shrink ^ 4 * x" using assms(3) shrink_bounds by (simp add: mult.assoc)
  also have "\<dots> = shrink * (shrink ^ 3 * x)" by (simp add: power4_eq_xxxx power3_eq_cube)
  also have "\<dots> \<le> shrink * c" using assms(1) shrink_bounds by (intro mult_left_mono) (simp_all add: near_def)
  finally have "v < shrink * c" by simp
  moreover have "shrink * y \<le> v" using assms(2) by (simp add: near_def)
  ultimately have "shrink * y < shrink * c" by simp
  then show ?thesis using shrink_bounds by simp
qed

lemma near_gap':
  assumes "near 3 x c" "near 1 v y" "(1 + 1 / 2 ^ 50) * x \<le> v"
  shows "c < y"
proof -
  have x: "0 < x" using assms(1) by (simp add: near_def)
  have "1 * x < shrink ^ 4 * (1 + 1 / 2 ^ 50) * x" using x shrink_gap by (intro mult_strict_right_mono)
  also have "\<dots> \<le> shrink ^ 4 * v" using assms(3) shrink_bounds by (simp add: mult.assoc)
  also have "\<dots> = shrink ^ 3 * (shrink * v)" by (simp add: power4_eq_xxxx power3_eq_cube)
  also have "\<dots> \<le> shrink ^ 3 * y" using assms(2) shrink_bounds by (intro mult_left_mono) (simp_all add: near_def)
  finally have "x < shrink ^ 3 * y" by simp
  moreover have "shrink ^ 3 * c \<le> x" using assms(1) by (simp add: near_def)
  ultimately have "shrink ^ 3 * c < shrink ^ 3 * y" by simp
  then show ?thesis using shrink_bounds by simp
qed

text \<open>The smallest value that is compared with care.\<close>

definition tiny :: rat where
  "tiny = 1 / 2 ^ 90"

lemma rounded_tiny: "rounded tiny = Finite tiny"
proof -
  have "on_grid tiny" unfolding on_grid_def tiny_def
    by (intro exI [of _ 1] exI [of _ "- 90"]) (simp add: power_int_minus_divide)
  then show ?thesis by (intro rounded_exact) (simp add: representable_def tiny_def)
qed

lemma rounded_not_nan [simp]: "rounded x \<noteq> Not_a_number"
  unfolding rounded_to_grid by (simp split: if_split)

lemma rounded_below_tiny:
  assumes "x \<le> tiny" "tiny < c"
  shows "d_less (rounded x) (Finite c)"
proof -
  have "\<not> d_less (Finite tiny) (rounded x)" using rounded_mono [OF assms(1)] unfolding rounded_tiny .
  then show ?thesis using assms(2) by (cases "rounded x") auto
qed

text \<open>The relative error of four roundings.\<close>

lemma near_4_error: "near 4 x y \<Longrightarrow> \<bar>y - x\<bar> \<le> x / 2 ^ 50"
proof -
  assume n: "near 4 x y"
  have s: "1 - 1 / 2 ^ 51 \<le> shrink ^ 4" using shrink_power [of 4] by simp
  have "(1 - 1 / 2 ^ 51) * x \<le> shrink ^ 4 * x" "(1 - 1 / 2 ^ 51) * y \<le> shrink ^ 4 * y"
    using n by (intro mult_right_mono s; simp add: near_def)+
  then have "(1 - 1 / 2 ^ 51) * x \<le> y" "(1 - 1 / 2 ^ 51) * y \<le> x" using n unfolding near_def by linarith+
  moreover have "0 < x" "0 < y" using n by (auto simp: near_def)
  ultimately show ?thesis by (simp add: abs_if field_simps)
qed

definition middle :: "rat \<Rightarrow> bool" where
  "middle x \<longleftrightarrow> 1 / 2 ^ 100 \<le> x \<and> x \<le> 2 ^ 100"

lemma rounded_middle:
  assumes "middle x"
  shows "\<exists>y. rounded x = Finite y \<and> near 1 x y"
proof -
  have low: "1 / 2 ^ 100 \<le> x" and up: "x \<le> 2 ^ 100" using assms by (auto simp: middle_def)
  have "(2 :: rat) powi (- 1022) \<le> 2 powi (- 100)" by (rule power_int_increasing) simp_all
  also have "(2 :: rat) powi (- 100) = 1 / 2 ^ 100" by (simp only: power_int_minus_divide power_int_numeral)
  finally have above: "(2 :: rat) powi (- 1022) \<le> x" using low by (rule order_trans)
  have "(2 :: rat) ^ 100 < 2 ^ 1023" by (rule power_strict_increasing) simp_all
  with up have below: "x < 2 ^ 1023" by (rule le_less_trans)
  have x: "0 < x" by (rule less_le_trans [OF _ low]) simp
  have "normal x" unfolding normal_def abs_of_pos [OF x] using above below by (rule conjI)
  then obtain y where y: "rounded x = Finite y" "\<bar>y - x\<bar> \<le> \<bar>x\<bar> / 2 ^ 53"
    using rounded_normal by blast
  have "shrink * x = x - x / 2 ^ 53" by (simp add: shrink_def algebra_simps)
  then have "shrink * x \<le> y" "y \<le> x + x / 2 ^ 53"
    using y(2) unfolding abs_of_pos [OF x] by linarith+
  moreover have "shrink * (x + x / 2 ^ 53) \<le> x" using x by (simp add: shrink_def algebra_simps)
  then have "shrink * y \<le> x"
    using mult_left_mono [of y "x + x / 2 ^ 53" shrink] shrink_bounds \<open>y \<le> x + x / 2 ^ 53\<close> by linarith
  moreover have "0 < shrink * x" using x shrink_bounds by simp
  ultimately show ?thesis using y(1) x by (auto simp: near_def)
qed

section \<open>Reading what was printed\<close>

lemma read_decimal_digits: "read_decimal (digits n) = of_nat n"
  by (simp add: read_decimal_def read_digits_def read_exponent_def)

lemma digit_not_special:
  assumes "is_digit c"
  shows "c \<noteq> CHR ''-''" "c \<noteq> CHR ''+''" "\<not> is_space c" "lower_case c = c" "c \<noteq> CHR ''i''" "c \<noteq> CHR ''n''"
    "c \<noteq> CHR ''x''" "c \<noteq> CHR ''.''"
  using assms by (auto simp: is_digit_def is_space_def lower_case_def Let_def)

lemma atof_digits: "atof (digits n) = rounded (of_nat n)"
proof -
  obtain c cs where ds: "digits n = c # cs" by (cases "digits n") auto
  have dig: "is_digit d" if "d \<in> set (c # cs)" for d using digits_are_digits that ds by metis
  then have c: "is_digit c" by simp
  note nc = digit_not_special [OF c]
  have "read_hexadecimal (c # cs) = None"
    using digit_not_special [OF dig] by (auto simp: read_hexadecimal_def split: list.split)
  then show ?thesis
    using nc read_decimal_digits [of n]
    by (simp add: atof_def ds read_sign_def starts_with_def)
qed

text \<open>The decimal text of a value is the multiple of the last place that is nearest to it.\<close>

lemma read_fmt_f:
  assumes "0 \<le> x" "0 < n"
  shows "read_decimal (fmt_f n (Finite x)) = of_int (round_even (x * 10 ^ n)) / 10 ^ n"
proof -
  define m where "m = nat (round_even (x * 10 ^ n))"
  define frac where "frac = digits (m mod 10 ^ n)"
  define pad where "pad = replicate (n - length frac) CHR ''0'' @ frac"
  have "0 \<le> round_even (x * 10 ^ n)"
    using round_even_between [of 0 "x * 10 ^ n" "\<lceil>x * 10 ^ n\<rceil>"] assms(1) by simp
  then have m: "rat_of_nat m = of_int (round_even (x * 10 ^ n))" by (simp add: m_def)
  have len: "length pad = n" using length_digits [of "m mod 10 ^ n" n] assms(2) by (simp add: pad_def frac_def)
  have "\<forall>c \<in> set pad. is_digit c"
    using digits_are_digits by (auto simp: pad_def frac_def is_digit_def split: if_splits)
  then have tw: "takeWhile is_digit pad = pad" "dropWhile is_digit pad = []"
    by (auto simp: takeWhile_eq_all_conv dropWhile_eq_Nil_conv)
  have shown: "fmt_f n (Finite x) = digits (m div 10 ^ n) @ CHR ''.'' # pad"
    using assms by (simp add: fmt_f_def m_def [symmetric] pad_def frac_def Let_def)
  have dot: "\<not> is_digit CHR ''.''" by (simp add: is_digit_def)
  have "read_digits is_digit (fmt_f n (Finite x)) = (digits (m div 10 ^ n), pad, [])"
    unfolding shown read_digits_def by (simp add: dot tw Let_def)
  moreover have "digits_value pad = m mod 10 ^ n"
    using digits_value_append [of "replicate (n - length frac) CHR ''0''" frac] by (simp add: pad_def frac_def)
  then have "digits_value (digits (m div 10 ^ n) @ pad) = m"
    by (simp only: digits_value_append len digits_value_digits div_mult_mod_eq)
  ultimately show ?thesis
    using m by (simp add: read_decimal_def read_exponent_def len power_int_minus divide_inverse)
qed

lemma printed_near:
  assumes "0 \<le> x" "0 < n"
  shows "\<bar>read_decimal (fmt_f n (Finite x)) - x\<bar> \<le> 1 / (2 * 10 ^ n)"
proof -
  have "\<bar>of_int (round_even (x * 10 ^ n)) - x * 10 ^ n\<bar> / 10 ^ n \<le> 1 / 2 / 10 ^ n"
    by (intro divide_right_mono round_even_error) simp
  also have "\<bar>of_int (round_even (x * 10 ^ n)) - x * 10 ^ n\<bar> / 10 ^ n
      = \<bar>(of_int (round_even (x * 10 ^ n)) - x * 10 ^ n) / 10 ^ n\<bar>" by (simp add: abs_divide)
  also have "(of_int (round_even (x * 10 ^ n)) - x * 10 ^ n) / 10 ^ n = read_decimal (fmt_f n (Finite x)) - x"
    by (simp add: read_fmt_f [OF assms] diff_divide_distrib)
  finally show ?thesis by simp
qed

end
