(* ===== verification/FreqProbe.thy ===== *)
theory FreqProbe
  imports CDouble
begin

text \<open>
  The frequency probe \<open>scripts/freqprobe.c\<close>: it times blocks of 16384 dependent additions
  until a given time has passed and prints the additions per nanosecond.

  The clock of the machine is a parameter: the time base that \<open>mach_timebase_info\<close> fills in
  and the value of the k-th call of \<open>mach_absolute_time\<close>. The loop has no other end than
  that the time has passed, so it is a partial function: \<^const>\<open>None\<close> is a probe that never
  returns (or that reads outside \<open>argv\<close>).
\<close>

section \<open>The program\<close>

record machine =
  numer :: u32
  denom :: u32
  clock :: "nat \<Rightarrow> u64"

text \<open>[src/scripts/freqprobe.c 10-10 main] The time to measure, in milliseconds.\<close>

definition target_ms :: "int \<Rightarrow> string option list \<Rightarrow> double option" where
  "target_ms argc argv =
     (if argc > 1
      then do { p \<leftarrow> aget argv 1;
                s \<leftarrow> p;
                Some (atof s) }
      else Some (Finite 200))"

text \<open>[src/scripts/freqprobe.c 17-17 main] The unrolled block: one instruction, 16384 times.\<close>

definition add_block :: "u64 \<Rightarrow> u64" where
  "add_block x = ((\<lambda>x. x + 1) ^^ 16384) x"

text \<open>[src/scripts/freqprobe.c 20-20 main]\<close>

definition elapsed_ns :: "machine \<Rightarrow> u64 \<Rightarrow> u64 \<Rightarrow> double" where
  "elapsed_ns m t0 t1 = d_div (d_mult (d_of_word (t1 - t0)) (d_of_word (numer m))) (d_of_word (denom m))"

text \<open>[src/scripts/freqprobe.c 24-24 main]\<close>

definition ghz :: "u64 \<Rightarrow> double \<Rightarrow> double" where
  "ghz blocks ns = d_div (d_of_word (blocks * 16384)) ns"

text \<open>[src/scripts/freqprobe.c 22-25 main]\<close>

definition report :: "u64 \<Rightarrow> double \<Rightarrow> string" where
  "report blocks ns =
     ''freqprobe: '' @ fmt_f 3 (ghz blocks ns) @ '' GHz  ('' @ digits (unat (blocks * 16384 div 1000000))
     @ '' Madds / '' @ fmt_f 1 (d_div ns (Finite 1000000)) @ '' ms)'' @ [CHR 0x0A]"

text \<open>
  [src/scripts/freqprobe.c 14-28 main] The loop; \<open>k\<close> is the number of the next reading of
  the clock.
\<close>

partial_function (option) probe_loop ::
    "machine \<Rightarrow> double \<Rightarrow> u64 \<Rightarrow> nat \<Rightarrow> u64 \<Rightarrow> u64 \<Rightarrow> (u64 \<times> string) option" where
  "probe_loop m target t0 k blocks x =
     (let x = add_block x;
          blocks = blocks + 1;
          t1 = clock m k;
          ns = elapsed_ns m t0 t1
      in if d_less (d_mult target (Finite 1000000)) ns then Some (x, report blocks ns)
         else probe_loop m target t0 (Suc k) blocks x)"

text \<open>[src/scripts/freqprobe.c 9-30 main] The result and what was printed.\<close>

definition freqprobe_main :: "machine \<Rightarrow> int \<Rightarrow> string option list \<Rightarrow> (int \<times> string) option" where
  "freqprobe_main m argc argv =
     do { target \<leftarrow> target_ms argc argv;
          let t0 = clock m 0;
          (x, out) \<leftarrow> probe_loop m target t0 1 0 0;
          Some (uint (x AND 1), out) }"

section \<open>The loop\<close>

lemma add_block: "add_block x = x + 16384"
proof -
  have "((\<lambda>x. x + 1) ^^ n) x = x + of_nat n" for n
    by (induction n) (simp_all add: algebra_simps)
  then show ?thesis by (simp add: add_block_def)
qed

text \<open>The time has passed at the reading \<open>k\<close>.\<close>

definition time_up :: "machine \<Rightarrow> double \<Rightarrow> nat \<Rightarrow> bool" where
  "time_up m target k \<longleftrightarrow> d_less (d_mult target (Finite 1000000)) (elapsed_ns m (clock m 0) (clock m k))"

lemma probe_loop_unfold:
  "probe_loop m target (clock m 0) k blocks x =
     (if time_up m target k
      then Some (x + 16384, report (blocks + 1) (elapsed_ns m (clock m 0) (clock m k)))
      else probe_loop m target (clock m 0) (Suc k) (blocks + 1) (x + 16384))"
  by (subst probe_loop.simps) (simp add: add_block time_up_def Let_def)

text \<open>The loop stops at the first reading at which the time has passed.\<close>

lemma probe_loop_stops:
  assumes "time_up m target n" "k \<le> n" "\<forall>j. k \<le> j \<and> j < n \<longrightarrow> \<not> time_up m target j"
  shows "probe_loop m target (clock m 0) k blocks x =
     Some (x + 16384 * of_nat (n + 1 - k), report (blocks + of_nat (n + 1 - k)) (elapsed_ns m (clock m 0) (clock m n)))"
  using assms
proof (induction "n - k" arbitrary: k blocks x)
  case 0
  then show ?case by (subst probe_loop_unfold) simp
next
  case (Suc d)
  have "probe_loop m target (clock m 0) (Suc k) (blocks + 1) (x + 16384) =
     Some (x + 16384 + 16384 * of_nat (n + 1 - Suc k),
       report (blocks + 1 + of_nat (n + 1 - Suc k)) (elapsed_ns m (clock m 0) (clock m n)))"
    using Suc.prems Suc.hyps(2) by (intro Suc.hyps(1)) auto
  moreover have "n + 1 - k = Suc (n + 1 - Suc k)" using Suc.hyps(2) by simp
  moreover have "\<not> time_up m target k" using Suc by auto
  ultimately show ?case by (subst probe_loop_unfold) (simp add: algebra_simps)
qed

text \<open>Without such a reading it never returns.\<close>

lemma probe_loop_returns:
  assumes "probe_loop m target t0 k blocks x = Some r"
  shows "t0 = clock m 0 \<longrightarrow> (\<exists>n \<ge> k. time_up m target n)"
proof (rule probe_loop.raw_induct [of "\<lambda>m target t0 k blocks x r.
      t0 = clock m 0 \<longrightarrow> (\<exists>n \<ge> k. time_up m target n)" "(((((m, target), t0), k), blocks), x)" r, unfolded prod.case])
  fix loop m target t0 k blocks x r
  assume IH: "\<And>target t0 k blocks x b y. loop target t0 k blocks x b = Some y
      \<Longrightarrow> k = clock target 0 \<longrightarrow> (\<exists>n \<ge> blocks. time_up target t0 n)"
    and run: "(let x = add_block x; blocks = blocks + 1; t1 = clock m k; ns = elapsed_ns m t0 t1
      in if d_less (d_mult target (Finite 1000000)) ns then Some (x, report blocks ns)
         else loop m target t0 (Suc k) blocks x) = Some r"
  show "t0 = clock m 0 \<longrightarrow> (\<exists>n \<ge> k. time_up m target n)"
  proof
    assume "t0 = clock m 0"
    then consider "time_up m target k" | "loop m target t0 (Suc k) (blocks + 1) (add_block x) = Some r"
      using run by (auto simp: Let_def time_up_def split: if_splits)
    then show "\<exists>n \<ge> k. time_up m target n"
      using IH [of m target "clock m 0" "Suc k" "blocks + 1" "add_block x" r] \<open>t0 = clock m 0\<close>
      by cases (auto dest: Suc_leD)
  qed
qed (rule assms)

text \<open>The whole program, by its first reading at which the time has passed.\<close>

lemma freqprobe_stops:
  assumes "target_ms argc argv = Some target" "time_up m target n" "1 \<le> n" "\<forall>j. 1 \<le> j \<and> j < n \<longrightarrow> \<not> time_up m target j"
  shows "freqprobe_main m argc argv = Some (0, report (of_nat n) (elapsed_ns m (clock m 0) (clock m n)))"
proof -
  have "probe_loop m target (clock m 0) 1 0 0 =
     Some (16384 * of_nat n, report (of_nat n) (elapsed_ns m (clock m 0) (clock m n)))"
    using probe_loop_stops [OF assms(2,3,4), of 0 0] by simp
  moreover have "even (16384 * of_nat n :: u64)" by simp
  then have "(16384 * of_nat n AND 1 :: u64) = 0"
    by (simp only: and_one_eq even_iff_mod_2_eq_zero)
  ultimately show ?thesis
    using assms(1) by (simp add: freqprobe_main_def)
qed

lemma freqprobe_runs_out:
  assumes "target_ms argc argv = Some target" "\<forall>n \<ge> 1. \<not> time_up m target n"
  shows "freqprobe_main m argc argv = None"
  using assms probe_loop_returns [of m target "clock m 0" 1 0 0]
  by (cases "probe_loop m target (clock m 0) 1 0 0") (auto simp: freqprobe_main_def)

section \<open>The exact time and the computed time\<close>

definition ticks :: "machine \<Rightarrow> nat \<Rightarrow> nat" where
  "ticks m k = unat (clock m k - clock m 0)"

definition exact_ns :: "machine \<Rightarrow> nat \<Rightarrow> rat" where
  "exact_ns m k = of_nat (ticks m k) * of_nat (unat (numer m)) / of_nat (unat (denom m))"

text \<open>A clock with a time base that makes sense has advanced at the reading \<open>k\<close>.\<close>

definition advanced :: "machine \<Rightarrow> nat \<Rightarrow> bool" where
  "advanced m k \<longleftrightarrow> 0 < numer m \<and> 0 < denom m \<and> 0 < ticks m k"

lemma unat_range:
  "0 < unat (w :: 'a::len word) \<Longrightarrow> LENGTH('a) = n \<Longrightarrow> (1 :: rat) \<le> of_nat (unat w) \<and> of_nat (unat w) \<le> (2 :: rat) ^ n"
proof -
  assume w: "0 < unat w" and n: "LENGTH('a) = n"
  have "unat w < 2 ^ LENGTH('a)" by (rule unsigned_less)
  then have "rat_of_nat (unat w) \<le> of_nat (2 ^ n)" using n by (simp only: of_nat_le_iff)
  moreover have "rat_of_nat 1 \<le> of_nat (unat w)" using w by (simp only: of_nat_le_iff)
  ultimately show ?thesis by simp
qed

lemma d_of_u32: "d_of_word (w :: u32) = Finite (of_nat (unat w))"
proof -
  have "uint w < 2 ^ LENGTH(32)" by (rule unsigned_less)
  then have "\<bar>uint w\<bar> \<le> 2 ^ 53" by simp
  then show ?thesis using rounded_int [of "uint w"] by (simp add: d_of_word_def)
qed

lemma middle_near:
  assumes "near j x y" "j \<le> 4" "1 / 2 ^ 98 \<le> x" "x \<le> 2 ^ 99"
  shows "middle y"
proof -
  have "x / 2 \<le> y" "y \<le> 2 * x" using near_bounds [OF assms(1)] assms(2) by auto
  then show ?thesis using assms(3,4) unfolding middle_def by simp
qed

lemma d_of_u64: "0 < unat (w :: u64) \<Longrightarrow> \<exists>y. d_of_word w = Finite y \<and> near 1 (of_nat (unat w)) y"
proof -
  assume "0 < unat w"
  then have "(1 :: rat) \<le> of_nat (unat w)" "of_nat (unat w) \<le> (2 :: rat) ^ 64" using unat_range [of w 64] by auto
  then have "middle (of_nat (unat w))" unfolding middle_def by simp
  then show ?thesis using rounded_middle [of "of_nat (unat w)"] by (simp add: d_of_word_def)
qed

lemma exact_ns_range:
  assumes "advanced m k"
  shows "1 / 2 ^ 32 \<le> exact_ns m k" "exact_ns m k \<le> 2 ^ 96"
proof -
  let ?D = "rat_of_nat (ticks m k)" and ?N = "rat_of_nat (unat (numer m))" and ?Q = "rat_of_nat (unat (denom m))"
  have D: "1 \<le> ?D" "?D \<le> 2 ^ 64" and N: "1 \<le> ?N" "?N \<le> 2 ^ 32" and Q: "1 \<le> ?Q" "?Q \<le> 2 ^ 32"
    using assms unat_range [of "clock m k - clock m 0" 64] unat_range [of "numer m" 32] unat_range [of "denom m" 32]
    by (auto simp: advanced_def ticks_def unat_gt_0)
  have "1 / 2 ^ 32 \<le> 1 / ?Q" using Q by (intro divide_left_mono) auto
  also have "\<dots> \<le> (?D * ?N) / ?Q" using D N Q mult_mono [of 1 ?D 1 ?N] by (intro divide_right_mono) auto
  finally show "1 / 2 ^ 32 \<le> exact_ns m k" by (simp add: exact_ns_def)
  have "(?D * ?N) / ?Q \<le> ?D * ?N / 1" using D N Q by (intro divide_left_mono) auto
  also have "\<dots> \<le> 2 ^ 64 * 2 ^ 32" using D N mult_mono [of ?D "2 ^ 64" ?N "2 ^ 32"] by simp
  finally show "exact_ns m k \<le> 2 ^ 96" by (simp add: exact_ns_def)
qed

lemma elapsed_near:
  assumes "advanced m k"
  shows "\<exists>y. elapsed_ns m (clock m 0) (clock m k) = Finite y \<and> near 3 (exact_ns m k) y"
proof -
  let ?D = "rat_of_nat (ticks m k)" and ?N = "rat_of_nat (unat (numer m))" and ?Q = "rat_of_nat (unat (denom m))"
  have N: "1 \<le> ?N" "?N \<le> 2 ^ 32" and Q: "1 \<le> ?Q" "?Q \<le> 2 ^ 32" and D: "1 \<le> ?D" "?D \<le> 2 ^ 64"
    using assms unat_range [of "clock m k - clock m 0" 64] unat_range [of "numer m" 32] unat_range [of "denom m" 32]
    by (auto simp: advanced_def ticks_def unat_gt_0)
  obtain a where a: "d_of_word (clock m k - clock m 0) = Finite a" "near 1 ?D a"
    using d_of_u64 assms by (auto simp: advanced_def ticks_def)
  have an: "near 1 (?D * ?N) (a * ?N)" using near_mult [OF a(2), of ?N] N by simp
  have dn: "1 \<le> ?D * ?N" "?D * ?N \<le> 2 ^ 64 * 2 ^ 32"
    using mult_mono [of 1 ?D 1 ?N] mult_mono [of ?D "2 ^ 64" ?N "2 ^ 32"] D N by auto
  then have "middle (a * ?N)" by (intro middle_near [OF an]) auto
  then obtain b where b: "rounded (a * ?N) = Finite b" "near 1 (a * ?N) b" using rounded_middle by blast
  have "near 2 (?D * ?N) b" using near_trans [OF an b(2)] by (simp add: numeral_2_eq_2)
  then have bq: "near 2 (exact_ns m k) (b / ?Q)" using near_divide [of 2 "?D * ?N" b ?Q] Q by (simp add: exact_ns_def)
  have "middle (b / ?Q)"
  proof (rule middle_near [OF bq])
    have "(1 :: rat) / 2 ^ 98 \<le> 1 / 2 ^ 32" "(2 :: rat) ^ 96 \<le> 2 ^ 99" by simp_all
    then show "1 / 2 ^ 98 \<le> exact_ns m k" "exact_ns m k \<le> 2 ^ 99"
      using exact_ns_range [OF assms] by linarith+
  qed simp
  then obtain c where c: "rounded (b / ?Q) = Finite c" "near 1 (b / ?Q) c" using rounded_middle by blast
  have "near 3 (exact_ns m k) c" using near_trans [OF bq c(2)] by simp
  moreover have "elapsed_ns m (clock m 0) (clock m k) = Finite c"
    using a(1) b(1) c(1) Q by (simp add: elapsed_ns_def d_of_u32)
  ultimately show ?thesis by blast
qed

text \<open>The computed frequency and the computed milliseconds.\<close>

definition exact_ghz :: "machine \<Rightarrow> nat \<Rightarrow> rat" where
  "exact_ghz m n = of_nat (16384 * n) / exact_ns m n"

lemma block_count:
  "n < 2 ^ 50 \<Longrightarrow> unat (of_nat n * 16384 :: u64) = 16384 * n"
proof -
  assume n: "n < 2 ^ 50"
  have "of_nat n * 16384 = (of_nat (16384 * n) :: u64)" by simp
  then have "unat (of_nat n * 16384 :: u64) = 16384 * n mod 2 ^ 64" by (simp only: unat_of_nat) simp
  then show ?thesis using n by simp
qed

lemma d_of_blocks:
  assumes "n < 2 ^ 50"
  shows "d_of_word (of_nat n * 16384 :: u64) = Finite (of_nat (16384 * n))"
proof -
  have "\<bar>int n\<bar> \<le> 2 ^ 53" using assms by simp
  then have "rounded (of_int (int n) * 2 ^ 14) = Finite (of_int (int n) * 2 ^ 14)"
    by (intro rounded_exact representable_int) simp_all
  moreover have "rat_of_int (uint (of_nat n * 16384 :: u64)) = of_nat (unat (of_nat n * 16384 :: u64))" by simp
  ultimately show ?thesis
    unfolding d_of_word_def block_count [OF assms] by (simp add: block_count [OF assms] mult.commute)
qed

lemma ghz_near:
  assumes "advanced m n" "1 \<le> n" "n < 2 ^ 50"
  shows "\<exists>g. ghz (of_nat n) (elapsed_ns m (clock m 0) (clock m n)) = Finite g \<and> near 4 (exact_ghz m n) g"
proof -
  obtain y where y: "elapsed_ns m (clock m 0) (clock m n) = Finite y" "near 3 (exact_ns m n) y"
    using elapsed_near [OF assms(1)] by blast
  define A where "A = rat_of_nat (16384 * n)"
  have A: "1 \<le> A" "A \<le> 2 ^ 64"
  proof -
    have "rat_of_nat 1 \<le> A" "A \<le> of_nat (2 ^ 64)"
      unfolding A_def of_nat_le_iff using assms(2,3) by simp_all
    then show "1 \<le> A" "A \<le> 2 ^ 64" by simp_all
  qed
  have ghz: "exact_ghz m n = A / exact_ns m n" by (simp add: exact_ghz_def A_def)
  have near3: "near 3 (exact_ghz m n) (A / y)"
    using near_divide_left [OF y(2), of A] A unfolding ghz by simp
  have r: "1 / 2 ^ 32 \<le> exact_ns m n" "exact_ns m n \<le> 2 ^ 96" using exact_ns_range [OF assms(1)] by auto
  have pos: "0 < exact_ns m n" by (rule less_le_trans [OF _ r(1)]) simp
  have "1 / 2 ^ 96 \<le> 1 / exact_ns m n" using r(2) pos by (intro divide_left_mono) auto
  also have "\<dots> \<le> exact_ghz m n" unfolding ghz using A pos by (intro divide_right_mono) auto
  finally have low: "1 / 2 ^ 96 \<le> exact_ghz m n" .
  have "exact_ghz m n \<le> 2 ^ 64 / (1 / 2 ^ 32)" unfolding ghz using A r pos by (intro frac_le) auto
  then have up: "exact_ghz m n \<le> 2 ^ 96" by simp
  have "middle (A / y)" by (rule middle_near [OF near3]) (use low up in simp_all)
  then obtain g where g: "rounded (A / y) = Finite g" "near 1 (A / y) g" using rounded_middle by blast
  have "near 4 (exact_ghz m n) g" using near_trans [OF near3 g(2)] by simp
  moreover have "y \<noteq> 0" using y(2) by (simp add: near_def)
  then have "ghz (of_nat n) (elapsed_ns m (clock m 0) (clock m n)) = Finite g"
    using g(1) unfolding ghz_def d_of_blocks [OF assms(3)] y(1) A_def by simp
  ultimately show ?thesis by blast
qed

lemma ms_near:
  assumes "advanced m n"
  shows "\<exists>h. d_div (elapsed_ns m (clock m 0) (clock m n)) (Finite 1000000) = Finite h
     \<and> near 4 (exact_ns m n / 10 ^ 6) h"
proof -
  obtain y where y: "elapsed_ns m (clock m 0) (clock m n) = Finite y" "near 3 (exact_ns m n) y"
    using elapsed_near [OF assms] by blast
  have near3: "near 3 (exact_ns m n / 10 ^ 6) (y / 10 ^ 6)" by (rule near_divide [OF y(2)]) simp
  have r: "1 / 2 ^ 32 \<le> exact_ns m n" "exact_ns m n \<le> 2 ^ 96" using exact_ns_range [OF assms] by auto
  have "middle (y / 10 ^ 6)" by (rule middle_near [OF near3]) (use r in simp_all)
  then obtain h where h: "rounded (y / 10 ^ 6) = Finite h" "near 1 (y / 10 ^ 6) h" using rounded_middle by blast
  have "near 4 (exact_ns m n / 10 ^ 6) h" using near_trans [OF near3 h(2)] by simp
  then show ?thesis using h(1) y(1) by simp
qed

text \<open>
  The comparison with the target, by the exact time: it holds when the time exceeds the
  target by a factor of \<open>1 + 2^-50\<close>, and fails when the time is short of it by as much.
\<close>

lemma target_reached:
  assumes "advanced m n" "(1 + 1 / 2 ^ 50) * (t * 10 ^ 6) \<le> exact_ns m n"
  shows "time_up m (Finite t) n"
proof -
  define v where "v = t * 10 ^ 6"
  obtain c where c: "elapsed_ns m (clock m 0) (clock m n) = Finite c" "near 3 (exact_ns m n) c"
    using elapsed_near [OF assms(1)] by blast
  have r: "1 / 2 ^ 32 \<le> exact_ns m n" "exact_ns m n \<le> 2 ^ 96" using exact_ns_range [OF assms(1)] by auto
  have "d_less (rounded v) (Finite c)"
  proof (cases "v \<le> tiny")
    case True
    have "1 / 2 ^ 32 \<le> 2 * c" using near_bounds(1) [OF c(2)] r(1) by simp
    then have "tiny < c" by (simp add: tiny_def)
    with True show ?thesis by (rule rounded_below_tiny)
  next
    case False
    then have v: "tiny < v" by simp
    then have "0 < v" by (rule less_trans [rotated]) (simp add: tiny_def)
    then have "v \<le> (1 + 1 / 2 ^ 50) * v" by (simp add: algebra_simps)
    then have "v \<le> exact_ns m n" using assms(2) by (simp add: v_def)
    then have "middle v" using v r(2) unfolding middle_def tiny_def by simp
    then obtain y where y: "rounded v = Finite y" "near 1 v y" using rounded_middle by blast
    have "y < c" using near_gap [OF c(2) y(2)] assms(2) by (simp add: v_def)
    then show ?thesis using y(1) by simp
  qed
  then show ?thesis by (simp add: time_up_def c(1) v_def)
qed

lemma target_not_reached:
  assumes "time_up m (Finite t) n" "0 \<le> t" "0 < numer m" "0 < denom m"
  shows "advanced m n" "t * 10 ^ 6 \<le> (1 + 1 / 2 ^ 50) * exact_ns m n"
proof -
  define v where "v = t * 10 ^ 6"
  have less: "d_less (rounded v) (elapsed_ns m (clock m 0) (clock m n))"
    using assms(1) by (simp add: time_up_def v_def)
  have "\<not> d_less (rounded v) (rounded 0)" using assms(2) by (intro rounded_mono) (simp add: v_def)
  then have "\<not> d_less (rounded v) (Finite 0)" by (simp add: rounded_def)
  moreover have "unat (denom m) \<noteq> 0" using assms(4) by (simp add: unat_eq_0 word_gt_0)
  then have "rat_of_nat (unat (denom m)) \<noteq> 0" unfolding of_nat_eq_0_iff .
  then have "elapsed_ns m (clock m 0) (clock m n) = Finite 0" if "ticks m n = 0"
    using that by (simp add: elapsed_ns_def d_of_u32 ticks_def unat_eq_0 d_of_word_def [of "0 :: u64"] del: right_minus_eq)
  ultimately show adv: "advanced m n" using less assms(3,4) by (cases "ticks m n = 0") (auto simp: advanced_def)
  obtain c where c: "elapsed_ns m (clock m 0) (clock m n) = Finite c" "near 3 (exact_ns m n) c"
    using elapsed_near [OF adv] by blast
  define w where "w = (1 + 1 / 2 ^ 50) * exact_ns m n"
  have r: "1 / 2 ^ 32 \<le> exact_ns m n" "exact_ns m n \<le> 2 ^ 96" using exact_ns_range [OF adv] by auto
  then have "middle w" unfolding middle_def w_def by simp
  then obtain y where y: "rounded w = Finite y" "near 1 w y" using rounded_middle by blast
  have "c < y" using near_gap' [OF c(2) y(2)] by (simp add: w_def)
  then have "d_less (rounded v) (rounded w)" using less c(1) y(1) by (cases "rounded v") auto
  then have "\<not> w \<le> v" using rounded_mono by blast
  then show "t * 10 ^ 6 \<le> (1 + 1 / 2 ^ 50) * exact_ns m n" by (simp add: v_def w_def)
qed

lemma first_reading:
  assumes "1 \<le> (n :: nat)" "P n"
  obtains k where "1 \<le> k" "k \<le> n" "P k" "\<forall>j. 1 \<le> j \<and> j < k \<longrightarrow> \<not> P j"
proof -
  let ?k = "LEAST k. 1 \<le> k \<and> P k"
  have "1 \<le> ?k \<and> P ?k" using assms by (intro LeastI [of "\<lambda>k. 1 \<le> k \<and> P k" n]) simp
  moreover have "?k \<le> n" using assms by (intro Least_le) simp
  moreover have "\<forall>j. 1 \<le> j \<and> j < ?k \<longrightarrow> \<not> P j" by (blast dest: not_less_Least)
  ultimately show thesis using that by blast
qed

lemma freqprobe_iff:
  assumes "target_ms argc argv = Some target"
  shows "freqprobe_main m argc argv = Some (r, out) \<longleftrightarrow> r = 0
     \<and> (\<exists>k \<ge> 1. time_up m target k \<and> (\<forall>j. 1 \<le> j \<and> j < k \<longrightarrow> \<not> time_up m target j)
          \<and> out = report (of_nat k) (elapsed_ns m (clock m 0) (clock m k)))"
proof (cases "\<exists>n \<ge> 1. time_up m target n")
  case True
  then obtain n where "1 \<le> n" "time_up m target n" by blast
  then obtain k where k: "1 \<le> k" "time_up m target k" "\<forall>j. 1 \<le> j \<and> j < k \<longrightarrow> \<not> time_up m target j"
    by (rule first_reading)
  have unique: "k' = k" if "1 \<le> k'" "time_up m target k'" "\<forall>j. 1 \<le> j \<and> j < k' \<longrightarrow> \<not> time_up m target j" for k'
    using that k linorder_neqE_nat [of k k'] by blast
  show ?thesis
    unfolding freqprobe_stops [OF assms k(2,1,3)] option.inject prod.inject using k unique by blast
next
  case False
  then show ?thesis using freqprobe_runs_out [OF assms] by auto
qed

lemma target_ms_digits: "n \<le> 2 ^ 53 \<Longrightarrow> target_ms 2 [Some prog, Some (digits n), None] = Some (Finite (of_nat n))"
proof -
  assume "n \<le> 2 ^ 53"
  then have "\<bar>int n\<bar> \<le> 2 ^ 53" by simp
  then show ?thesis using rounded_int [of "int n"] by (simp add: target_ms_def atof_digits)
qed

section \<open>Properties\<close>

text \<open>
  C2: what the probe prints is the frequency: if the time base makes sense and the clock
  passes the target at one of the first 2^50 readings, the probe stops at a reading by
  which the target has passed (up to a relative error of 2^-50), returns 0, and prints
  three numbers: the additions per nanosecond, within half a unit of the third decimal and
  a relative error of 2^-50 of the exact quotient; the millions of additions, truncated;
  and the milliseconds, within half a unit of the first decimal and that relative error.
\<close>

theorem freqprobe_prints_frequency:
  assumes "target_ms argc argv = Some (Finite t)" "0 \<le> t" "1 \<le> n" "n < 2 ^ 50" "advanced m n"
    and "(1 + 1 / 2 ^ 50) * (t * 10 ^ 6) \<le> exact_ns m n"
  shows "\<exists>k g h. 1 \<le> k \<and> k \<le> n
     \<and> freqprobe_main m argc argv = Some (0, ''freqprobe: '' @ g @ '' GHz  ('' @ digits (16384 * k div 1000000)
          @ '' Madds / '' @ h @ '' ms)'' @ [CHR 0x0A])
     \<and> t * 10 ^ 6 \<le> (1 + 1 / 2 ^ 50) * exact_ns m k
     \<and> \<bar>read_decimal g - of_nat (16384 * k) / exact_ns m k\<bar>
          \<le> 1 / 2000 + of_nat (16384 * k) / exact_ns m k / 2 ^ 50
     \<and> \<bar>read_decimal h - exact_ns m k / 10 ^ 6\<bar> \<le> 1 / 20 + exact_ns m k / 10 ^ 6 / 2 ^ 50"
proof -
  obtain k where k: "1 \<le> k" "k \<le> n" "time_up m (Finite t) k"
      "\<forall>j. 1 \<le> j \<and> j < k \<longrightarrow> \<not> time_up m (Finite t) j"
    using first_reading [of n "time_up m (Finite t)"] target_reached [OF assms(5,6)] assms(3) by blast
  have base: "0 < numer m" "0 < denom m" using assms(5) by (auto simp: advanced_def)
  have adv: "advanced m k" and passed: "t * 10 ^ 6 \<le> (1 + 1 / 2 ^ 50) * exact_ns m k"
    using target_not_reached [OF k(3) assms(2) base] by auto
  have k50: "k < 2 ^ 50" using k(2) assms(4) by simp
  obtain f where f: "ghz (of_nat k) (elapsed_ns m (clock m 0) (clock m k)) = Finite f" "near 4 (exact_ghz m k) f"
    using ghz_near [OF adv k(1) k50] by blast
  obtain s where s: "d_div (elapsed_ns m (clock m 0) (clock m k)) (Finite 1000000) = Finite s"
      "near 4 (exact_ns m k / 10 ^ 6) s"
    using ms_near [OF adv] by blast
  have "0 \<le> f" "0 \<le> s" using f(2) s(2) by (auto simp: near_def)
  then have "\<bar>read_decimal (fmt_f 3 (Finite f)) - f\<bar> \<le> 1 / 2000" "\<bar>read_decimal (fmt_f 1 (Finite s)) - s\<bar> \<le> 1 / 20"
    using printed_near [of f 3] printed_near [of s 1] by auto
  then have "\<bar>read_decimal (fmt_f 3 (Finite f)) - exact_ghz m k\<bar> \<le> 1 / 2000 + exact_ghz m k / 2 ^ 50"
      "\<bar>read_decimal (fmt_f 1 (Finite s)) - exact_ns m k / 10 ^ 6\<bar> \<le> 1 / 20 + exact_ns m k / 10 ^ 6 / 2 ^ 50"
    using near_4_error [OF f(2)] near_4_error [OF s(2)] by linarith+
  moreover have "unat (of_nat k * 16384 div 1000000 :: u64) = 16384 * k div 1000000"
    using block_count [OF k50] by (simp add: unat_div)
  then have "report (of_nat k) (elapsed_ns m (clock m 0) (clock m k)) =
      ''freqprobe: '' @ fmt_f 3 (Finite f) @ '' GHz  ('' @ digits (16384 * k div 1000000)
          @ '' Madds / '' @ fmt_f 1 (Finite s) @ '' ms)'' @ [CHR 0x0A]"
    by (simp add: report_def f(1) s(1))
  moreover note freqprobe_stops [OF assms(1) k(3,1,4)]
  ultimately show ?thesis using k(1,2) passed unfolding exact_ghz_def by (intro exI conjI) auto
qed

text \<open>A machine whose clock counts nanoseconds and is read every 2^28 of them.\<close>

definition example_machine :: machine where
  "example_machine = \<lparr>numer = 1, denom = 1, clock = (\<lambda>k. of_nat k * 2 ^ 28)\<rparr>"

lemma example_machine_1: "advanced example_machine 1" "exact_ns example_machine 1 = 2 ^ 28"
  by (simp_all add: advanced_def exact_ns_def ticks_def example_machine_def)

lemma freqprobe_prints_frequency_witness:
  "\<exists>k g h. 1 \<le> k \<and> k \<le> 1
     \<and> freqprobe_main example_machine 1 [Some ''freqprobe'', None] = Some (0, ''freqprobe: '' @ g @ '' GHz  (''
          @ digits (16384 * k div 1000000) @ '' Madds / '' @ h @ '' ms)'' @ [CHR 0x0A])
     \<and> 200 * 10 ^ 6 \<le> (1 + 1 / 2 ^ 50) * exact_ns example_machine k
     \<and> \<bar>read_decimal g - of_nat (16384 * k) / exact_ns example_machine k\<bar>
          \<le> 1 / 2000 + of_nat (16384 * k) / exact_ns example_machine k / 2 ^ 50
     \<and> \<bar>read_decimal h - exact_ns example_machine k / 10 ^ 6\<bar>
          \<le> 1 / 20 + exact_ns example_machine k / 10 ^ 6 / 2 ^ 50"
  by (rule freqprobe_prints_frequency)
    (simp_all add: target_ms_def example_machine_1 [unfolded One_nat_def])

text \<open>
  C6: the program is its loop, completely: it returns exactly if the time is up at some
  reading of the clock; then the result is 0, whatever the machine is, and the report is
  about the first such reading, with the number of blocks run until then.
\<close>

theorem freqprobe_first_reading:
  assumes "target_ms argc argv = Some target"
  shows "freqprobe_main m argc argv = Some (r, out) \<longleftrightarrow> r = 0
     \<and> (\<exists>k \<ge> 1. d_less (d_mult target (Finite 1000000)) (elapsed_ns m (clock m 0) (clock m k))
          \<and> (\<forall>j. 1 \<le> j \<and> j < k \<longrightarrow>
               \<not> d_less (d_mult target (Finite 1000000)) (elapsed_ns m (clock m 0) (clock m j)))
          \<and> out = report (of_nat k) (elapsed_ns m (clock m 0) (clock m k)))"
  using freqprobe_iff [OF assms] unfolding time_up_def .

lemma freqprobe_first_reading_witness:
  "\<forall>r out. freqprobe_main example_machine 1 [Some ''freqprobe'', None] = Some (r, out) \<longleftrightarrow> r = 0
     \<and> (\<exists>k \<ge> 1. d_less (d_mult (Finite 200) (Finite 1000000))
            (elapsed_ns example_machine (clock example_machine 0) (clock example_machine k))
          \<and> (\<forall>j. 1 \<le> j \<and> j < k \<longrightarrow> \<not> d_less (d_mult (Finite 200) (Finite 1000000))
               (elapsed_ns example_machine (clock example_machine 0) (clock example_machine j)))
          \<and> out = report (of_nat k) (elapsed_ns example_machine (clock example_machine 0) (clock example_machine k)))"
  by (intro allI freqprobe_first_reading) (simp add: target_ms_def)

text \<open>
  C4: whether the probe comes to its end depends on the clock alone: it does if the clock
  passes the target at some reading by a relative 2^-50, and it does not if the clock stays
  below the target by as much, so a target that the clock cannot count to is waited for
  for ever.
\<close>

theorem freqprobe_returns_by_clock:
  assumes "target_ms argc argv = Some (Finite t)" "0 \<le> t" "0 < numer m" "0 < denom m"
  shows "((\<exists>n \<ge> 1. 0 < ticks m n \<and> (1 + 1 / 2 ^ 50) * (t * 10 ^ 6) \<le> exact_ns m n)
          \<longrightarrow> (\<exists>out. freqprobe_main m argc argv = Some (0, out)))
     \<and> ((\<forall>n \<ge> 1. (1 + 1 / 2 ^ 50) * exact_ns m n < t * 10 ^ 6) \<longrightarrow> freqprobe_main m argc argv = None)"
proof (intro conjI impI)
  assume "\<exists>n \<ge> 1. 0 < ticks m n \<and> (1 + 1 / 2 ^ 50) * (t * 10 ^ 6) \<le> exact_ns m n"
  then obtain n where n: "1 \<le> n" "0 < ticks m n" "(1 + 1 / 2 ^ 50) * (t * 10 ^ 6) \<le> exact_ns m n"
    by blast
  then have "time_up m (Finite t) n" using assms(3,4) by (intro target_reached) (simp_all add: advanced_def)
  with n(1) show "\<exists>out. freqprobe_main m argc argv = Some (0, out)"
    using first_reading [of n "time_up m (Finite t)"] unfolding freqprobe_iff [OF assms(1)] by metis
next
  assume "\<forall>n \<ge> 1. (1 + 1 / 2 ^ 50) * exact_ns m n < t * 10 ^ 6"
  then show "freqprobe_main m argc argv = None"
    using target_not_reached(2) [OF _ assms(2-4)] freqprobe_runs_out [OF assms(1)] by (meson not_le)
qed

lemma freqprobe_returns_by_clock_witness:
  "\<exists>out. freqprobe_main example_machine 1 [Some ''freqprobe'', None] = Some (0, out)"
proof -
  have "\<exists>n \<ge> 1. 0 < ticks example_machine n \<and> (1 + 1 / 2 ^ 50) * (200 * 10 ^ 6) \<le> exact_ns example_machine n"
    using example_machine_1 by (intro exI [of _ 1]) (simp add: advanced_def)
  then show ?thesis
    using freqprobe_returns_by_clock [of 1 "[Some ''freqprobe'', None]" 200 example_machine]
    by (simp add: target_ms_def example_machine_def)
qed

text \<open>What \<open>atof\<close> reads from the words for infinity and for no number, and from a number that is too large.\<close>

lemma atof_word:
  assumes "\<forall>c \<in> set w. is_space c" "starts_with ''inf'' t \<or> starts_with ''nan'' t" "sg = [] \<or> sg = ''+'' \<or> sg = ''-''"
  shows "atof (w @ sg @ t) = (if starts_with ''inf'' t then Infinite (sg = ''-'') else Not_a_number)"
proof -
  obtain c cs where t: "t = c # cs" using assms(2) by (cases t) (auto simp: starts_with_def)
  have c: "lower_case c = CHR ''i'' \<or> lower_case c = CHR ''n''" using assms(2) t by (auto simp: starts_with_def)
  have sp: "lower_case d = d" if "is_space d \<or> d = CHR ''-'' \<or> d = CHR ''+''" for d
    using that by (auto simp: is_space_def lower_case_def Let_def)
  have "\<not> is_space c \<and> c \<noteq> CHR ''-'' \<and> c \<noteq> CHR ''+''"
    using c sp [of c] by (auto simp: is_space_def)
  then have plain: "\<not> is_space c" "c \<noteq> CHR ''-''" "c \<noteq> CHR ''+''" by simp_all
  have "\<not> is_space (CHR ''+'')" "\<not> is_space (CHR ''-'')" by (simp_all add: is_space_def)
  then have "dropWhile is_space (w @ sg @ t) = sg @ t"
    using assms(1,3) plain(1) t by (auto simp: dropWhile_append2)
  moreover have "read_sign (sg @ t) = (sg = ''-'', t)" using assms(3) plain(2,3) t by (auto simp: read_sign_def)
  ultimately show ?thesis using assms(2) by (auto simp: atof_def)
qed

lemma atof_large: "2 ^ 1024 \<le> n \<Longrightarrow> atof (digits n) = Infinite False"
proof -
  assume n: "2 ^ 1024 \<le> n"
  define M :: rat where "M = 2 ^ 1024"
  have "of_nat (2 ^ 1024) \<le> rat_of_nat n" using n by (simp only: of_nat_le_iff)
  then have "M \<le> of_nat n" unfolding M_def by simp
  moreover have "on_grid M"
    unfolding on_grid_def M_def by (intro exI [of _ 1] exI [of _ 1024]) (simp add: power_int_def)
  ultimately have "M \<le> to_grid (of_nat n)"
    using to_grid_mono [of M "of_nat n"] to_grid_exact [of M] by simp
  then have "\<not> \<bar>to_grid (of_nat n)\<bar> < M" by simp
  then show ?thesis unfolding atof_digits rounded_to_grid M_def by simp
qed

lemma elapsed_not_negative:
  assumes "0 < denom m"
  shows "d_less (Infinite True) (elapsed_ns m t0 t1)"
proof -
  have pos: "rounded x = Infinite s \<Longrightarrow> \<not> s" "rounded x = Finite y \<Longrightarrow> 0 \<le> y" if "0 \<le> x" for x y s
    using that to_grid_nonneg [of x] by (auto simp: rounded_to_grid split: if_splits)
  have w: "\<exists>y. d_of_word v = Finite y \<and> 0 \<le> y" for v :: u64
  proof (cases "unat v = 0")
    case True
    then have "v = 0" by (simp add: unat_eq_zero)
    then show ?thesis by (simp add: d_of_word_def)
  next
    case False
    then obtain y where "d_of_word v = Finite y" using d_of_u64 [of v] by auto
    moreover have "(0 :: rat) \<le> of_int (uint v)" by (simp only: of_int_0_le_iff unsigned_greater_eq)
    ultimately show ?thesis using pos(2) [of "of_int (uint v)" y] unfolding d_of_word_def by blast
  qed
  obtain d where d: "d_of_word (t1 - t0) = Finite d" "0 \<le> d" using w by blast
  have "0 < unat (denom m)" using assms by (simp add: word_less_nat_alt)
  then have q: "(0 :: rat) < of_nat (unat (denom m))" by (simp only: of_nat_0_less_iff)
  have n: "0 \<le> d * of_nat (unat (numer m))" using d(2) by (intro mult_nonneg_nonneg) (simp_all only: of_nat_0_le_iff)
  have ns: "elapsed_ns m t0 t1 = d_div (rounded (d * of_nat (unat (numer m)))) (Finite (of_nat (unat (denom m))))"
    by (simp only: elapsed_ns_def d_of_u32 d(1) d_mult.simps)
  show ?thesis
  proof (cases "rounded (d * of_nat (unat (numer m)))")
    case (Finite y)
    have y: "0 \<le> y / of_nat (unat (denom m))" using pos(2) [OF n Finite] q by (rule divide_nonneg_pos)
    have "elapsed_ns m t0 t1 = rounded (y / of_nat (unat (denom m)))"
      unfolding ns Finite using q by (simp only: d_div.simps less_imp_neq [symmetric] if_True not_False_eq_True)
    then show ?thesis using pos(1) [OF y] by (cases "rounded (y / of_nat (unat (denom m)))") auto
  next
    case (Infinite s)
    have "elapsed_ns m t0 t1 = Infinite (s \<noteq> (of_nat (unat (denom m)) < (0 :: rat)))"
      unfolding ns Infinite by (simp only: d_div.simps)
    then show ?thesis using pos(1) [OF n Infinite] q by (simp only: less_not_sym d_less.simps) simp
  qed simp
qed

text \<open>
  C36: a duration that is not finite is not rejected: on every machine the probe runs for
  ever if the argument is read as plus infinity or as not a number, while minus infinity
  lets it stop at its first reading. The words for these, behind white space, with or
  without a sign and in upper or lower case, are read so, and every whole number from
  \<open>2^1024\<close> on is read as infinity.
\<close>

theorem freqprobe_never_returns:
  shows "(atof s = Infinite False \<or> atof s = Not_a_number \<longrightarrow> freqprobe_main m 2 [Some prog, Some s, None] = None)
     \<and> (atof s = Infinite True \<and> 0 < denom m \<longrightarrow>
          freqprobe_main m 2 [Some prog, Some s, None] = Some (0, report 1 (elapsed_ns m (clock m 0) (clock m 1))))
     \<and> ((\<forall>c \<in> set w. is_space c) \<and> starts_with ''inf'' t \<longrightarrow>
          atof (w @ t) = Infinite False \<and> atof (w @ ''+'' @ t) = Infinite False \<and> atof (w @ ''-'' @ t) = Infinite True)
     \<and> ((\<forall>c \<in> set w. is_space c) \<and> starts_with ''nan'' t \<longrightarrow>
          atof (w @ t) = Not_a_number \<and> atof (w @ ''+'' @ t) = Not_a_number \<and> atof (w @ ''-'' @ t) = Not_a_number)
     \<and> (2 ^ 1024 \<le> n \<longrightarrow> atof (digits n) = Infinite False)"
proof (intro conjI impI)
  assume s: "atof s = Infinite False \<or> atof s = Not_a_number"
  have "\<not> time_up m (Infinite False) k" "\<not> time_up m Not_a_number k" for k
    unfolding time_up_def by (cases "elapsed_ns m (clock m 0) (clock m k)"; simp)+
  then show "freqprobe_main m 2 [Some prog, Some s, None] = None"
    using s by (intro freqprobe_runs_out [of _ _ "atof s"]) (auto simp: target_ms_def)
next
  assume s: "atof s = Infinite True \<and> 0 < denom m"
  then have "time_up m (Infinite True) 1" by (simp add: time_up_def elapsed_not_negative)
  then show "freqprobe_main m 2 [Some prog, Some s, None] = Some (0, report 1 (elapsed_ns m (clock m 0) (clock m 1)))"
    using freqprobe_stops [of 2 "[Some prog, Some s, None]" "Infinite True" m 1] s by (simp add: target_ms_def)
next
  assume t: "(\<forall>c \<in> set w. is_space c) \<and> starts_with ''inf'' t"
  show "atof (w @ t) = Infinite False" "atof (w @ ''+'' @ t) = Infinite False" "atof (w @ ''-'' @ t) = Infinite True"
    using t atof_word [of w t "[]"] atof_word [of w t "''+''"] atof_word [of w t "''-''"] by simp_all
next
  assume t: "(\<forall>c \<in> set w. is_space c) \<and> starts_with ''nan'' t"
  then have "\<not> starts_with ''inf'' t" by (auto simp: starts_with_def)
  then show "atof (w @ t) = Not_a_number" "atof (w @ ''+'' @ t) = Not_a_number" "atof (w @ ''-'' @ t) = Not_a_number"
    using t atof_word [of w t "[]"] atof_word [of w t "''+''"] atof_word [of w t "''-''"] by simp_all
qed (rule atof_large)

lemma freqprobe_never_returns_witness:
  "freqprobe_main example_machine 2 [Some ''freqprobe'', Some '' +Infinity'', None] = None
     \<and> freqprobe_main example_machine 2 [Some ''freqprobe'', Some ''-NaN'', None] = None
     \<and> freqprobe_main example_machine 2 [Some ''freqprobe'', Some (digits (2 ^ 1024)), None] = None
     \<and> freqprobe_main example_machine 2 [Some ''freqprobe'', Some ''-inf'', None]
         = Some (0, report 1 (elapsed_ns example_machine (clock example_machine 0) (clock example_machine 1)))"
proof -
  note all = freqprobe_never_returns [of _ example_machine "''freqprobe''"]
  have words: "starts_with ''inf'' ''Infinity''" "starts_with ''inf'' ''inf''" "starts_with ''nan'' ''NaN''" "is_space (CHR '' '')"
    by code_simp+
  have "atof '' +Infinity'' = Infinite False" using all [of _ "'' ''" "''Infinity''" 0] words by simp
  moreover have "atof ''-NaN'' = Not_a_number" using all [of _ "[]" "''NaN''" 0] words by simp
  moreover have "atof ''-inf'' = Infinite True" using all [of _ "[]" "''inf''" 0] words by simp
  moreover have "atof (digits (2 ^ 1024)) = Infinite False" using all [of _ "[]" "[]" "2 ^ 1024"] by blast
  moreover have "0 < denom example_machine" by (simp add: example_machine_def)
  ultimately show ?thesis using all by blast
qed

text \<open>
  C37: the duration is read as it is written, without loss for every whole number of
  milliseconds up to 2^53, and leaving it out is the same as writing 200.
\<close>

theorem freqprobe_argument_read:
  assumes "n \<le> 2 ^ 53"
  shows "target_ms 2 [Some prog, Some (digits n), None] = Some (Finite (of_nat n))
     \<and> freqprobe_main m 1 [Some prog, None] = freqprobe_main m 2 [Some prog, Some ''200'', None]"
proof -
  have "target_ms 2 [Some prog, Some (digits n), None] = Some (Finite (of_nat n))"
    using assms by (rule target_ms_digits)
  moreover have "digits 200 = ''200''" by code_simp
  then have "atof ''200'' = Finite 200" using atof_digits [of 200] rounded_int [of 200] by simp
  ultimately show ?thesis by (simp add: target_ms_def freqprobe_main_def)
qed

lemma freqprobe_argument_read_witness:
  "target_ms 2 [Some ''freqprobe'', Some (digits 1500), None] = Some (Finite (of_nat 1500))
     \<and> freqprobe_main example_machine 1 [Some ''freqprobe'', None]
         = freqprobe_main example_machine 2 [Some ''freqprobe'', Some ''200'', None]"
  by (rule freqprobe_argument_read) simp

text \<open>
  An argument that is not a number is not reported but taken for zero: the probe then
  does what it does for the argument \<open>0\<close>, and stops at the first reading that is not the
  same as the one before the loop.
\<close>

theorem freqprobe_not_a_number:
  assumes "s = c # cs" "\<not> is_space c" "\<not> is_digit c" "c \<notin> set ''+-.''" "lower_case c \<notin> set ''in''"
  shows "freqprobe_main m 2 [Some prog, Some s, None] = freqprobe_main m 2 [Some prog, Some ''0'', None]"
    (is "?l = ?r")
proof -
  have "read_hexadecimal s = None"
    using assms(1,3) by (auto simp: read_hexadecimal_def is_digit_def split: list.split)
  then have "atof s = Finite 0"
    using assms by (simp add: atof_def read_sign_def starts_with_def read_decimal_def read_digits_def)
  moreover have "digits 0 = ''0''" by code_simp
  then have "atof ''0'' = Finite 0" using atof_digits [of 0] by simp
  ultimately show ?thesis by (simp add: freqprobe_main_def target_ms_def)
qed

lemma freqprobe_not_a_number_witness:
  "freqprobe_main example_machine 2 [Some ''freqprobe'', Some ''fast'', None]
     = freqprobe_main example_machine 2 [Some ''freqprobe'', Some ''0'', None]"
  by (rule freqprobe_not_a_number [of _ "CHR ''f''"]) (rule refl | code_simp)+

text \<open>
  C38: asking for a longer time never makes the probe stop earlier: on the same machine, if
  the probe returns for the longer target it returns for the shorter one, at the same
  reading or an earlier one.
\<close>

theorem freqprobe_monotone:
  assumes "target_ms argc argv = Some (Finite t)" "target_ms argc' argv' = Some (Finite t')" "t \<le> t'"
    and "freqprobe_main m argc' argv' = Some (r', out')"
  shows "\<exists>k k'. 1 \<le> k \<and> k \<le> k'
     \<and> out' = report (of_nat k') (elapsed_ns m (clock m 0) (clock m k'))
     \<and> freqprobe_main m argc argv = Some (0, report (of_nat k) (elapsed_ns m (clock m 0) (clock m k)))"
proof -
  obtain k' where k': "1 \<le> k'" "time_up m (Finite t') k'"
      "out' = report (of_nat k') (elapsed_ns m (clock m 0) (clock m k'))"
    using assms(4) unfolding freqprobe_iff [OF assms(2)] by blast
  have mono: "\<not> d_less (rounded (t' * 1000000)) (rounded (t * 1000000))"
    using assms(3) by (intro rounded_mono) simp
  have trans: "d_less x z" if "d_less y z" "\<not> d_less y x" "x \<noteq> Not_a_number" "y \<noteq> Not_a_number" for x y z
    using that by (cases x; cases y; cases z) auto
  have "time_up m (Finite t) k'"
    using trans [OF _ mono rounded_not_nan rounded_not_nan] k'(2) unfolding time_up_def d_mult.simps .
  then obtain k where k: "1 \<le> k" "k \<le> k'" "time_up m (Finite t) k" "\<forall>j. 1 \<le> j \<and> j < k \<longrightarrow> \<not> time_up m (Finite t) j"
    using first_reading [OF k'(1)] by blast
  then show ?thesis using k'(3) freqprobe_stops [OF assms(1) k(3,1,4)] by blast
qed

lemma freqprobe_monotone_witness:
  "\<exists>k k'. 1 \<le> k \<and> k \<le> k'
     \<and> report 1 (elapsed_ns example_machine 0 (2 ^ 28))
         = report (of_nat k') (elapsed_ns example_machine (clock example_machine 0) (clock example_machine k'))
     \<and> freqprobe_main example_machine 1 [Some ''freqprobe'', None]
         = Some (0, report (of_nat k) (elapsed_ns example_machine (clock example_machine 0) (clock example_machine k)))"
proof (rule freqprobe_monotone)
  show "target_ms 1 [Some ''freqprobe'', None] = Some (Finite 200)" by (simp add: target_ms_def)
  show "target_ms 2 [Some ''freqprobe'', Some (digits 250), None] = Some (Finite (of_nat 250))"
    by (rule target_ms_digits) simp
  then show "freqprobe_main example_machine 2 [Some ''freqprobe'', Some (digits 250), None]
      = Some (0, report 1 (elapsed_ns example_machine 0 (2 ^ 28)))"
    using freqprobe_stops [of 2 _ "Finite 250" example_machine 1] target_reached [OF example_machine_1(1), of 250]
      example_machine_1(2)
    by (simp add: example_machine_def)
qed simp

end
