(* ===== verification/CoreCrc.thy ===== *)
theory CoreCrc
  imports CPrelude
begin

text \<open>
  The 16-bit CRC of CoreMark, \<open>benchmarks/wasi/coremark/core_util.c\<close>: the bit-serial
  \<open>crcu8\<close> and its wider forms, and the interface (\<open>crc_code\<close>) that every CRC of the
  repository offers: a byte step that is linear over XOR and loses no register content.
\<close>

section \<open>The interface of a CRC\<close>

locale crc_code =
  fixes step :: "u8 \<Rightarrow> 'r::len word \<Rightarrow> 'r word"
  assumes step_xor: "step (a XOR b) (c XOR d) = step a c XOR step b d"
    and step_data: "step a 0 = 0 \<Longrightarrow> a = 0"
    and step_reg: "step 0 c = 0 \<Longrightarrow> c = 0"
begin

lemma step_00: "step 0 0 = 0"
  using step_xor [of 0 0 0 0] by simp

lemma step_inj_reg: "step a c = step a d \<Longrightarrow> c = d"
proof -
  assume "step a c = step a d"
  then have "step (a XOR a) (c XOR d) = 0"
    by (simp only: step_xor) simp
  then have "c XOR d = 0" by (simp add: step_reg)
  then show "c = d" by (simp add: c_word)
qed

lemma step_inj_data: "step a c = step b c \<Longrightarrow> a = b"
proof -
  assume "step a c = step b c"
  then have "step (a XOR b) (c XOR c) = 0"
    by (simp only: step_xor) simp
  then have "a XOR b = 0" by (simp add: step_data)
  then show "a = b" by (simp add: c_word)
qed

lemma fold_inj_reg: "fold step xs c = fold step xs d \<longleftrightarrow> c = d"
proof (induction xs arbitrary: c d)
  case (Cons x xs)
  then show ?case using step_inj_reg by auto
qed simp

text \<open>A change of one byte always changes the register: single-byte errors are detected.\<close>

lemma fold_detects_byte:
  "a \<noteq> b \<Longrightarrow> fold step (xs @ a # ys) c \<noteq> fold step (xs @ b # ys) c"
  using step_inj_data by (auto simp: fold_inj_reg)

text \<open>The register is a linear function of the message and the start value.\<close>

lemma fold_xor:
  "length xs = length ys \<Longrightarrow>
     fold step (map2 (XOR) xs ys) (c XOR d) = fold step xs c XOR fold step ys d"
  by (induction xs ys arbitrary: c d rule: list_induct2) (simp_all add: step_xor)

end

section \<open>The functions of core_util.c\<close>

text \<open>
  [coremark/core_util.c 169-186 crcu8] One round of the loop body: \<open>data\<close> and \<open>crc\<close>
  are the loop's variables, \<open>x16\<close> and \<open>carry\<close> are local to the round.
\<close>

definition crcu8_iter :: "u8 \<times> u16 \<Rightarrow> u8 \<times> u16" where
  "crcu8_iter = (\<lambda>(data, crc).
     let x16 = (data AND 1) XOR ((ucast crc :: u8) AND 1);
         data = drop_bit 1 data;
         carry = (x16 = 1);
         crc = (if x16 = 1 then crc XOR 0x4002 else crc);
         crc = drop_bit 1 crc
     in (data, if carry then crc OR 0x8000 else crc AND 0x7fff))"

text \<open>[coremark/core_util.c 164-188 crcu8] Eight rounds.\<close>

definition crcu8 :: "u8 \<Rightarrow> u16 \<Rightarrow> u16" where
  "crcu8 data crc = snd ((crcu8_iter ^^ 8) (data, crc))"

text \<open>[coremark/core_util.c 189-195 crcu16] The low byte first.\<close>

definition crcu16 :: "u16 \<Rightarrow> u16 \<Rightarrow> u16" where
  "crcu16 newval crc =
     (let crc = crcu8 (ucast newval) crc
      in crcu8 (ucast (drop_bit 8 newval)) crc)"

text \<open>[coremark/core_util.c 203-207 crc16] A signed value goes through \<open>crcu16\<close> unchanged.\<close>

definition crc16 :: "s16 \<Rightarrow> u16 \<Rightarrow> u16" where
  "crc16 newval crc = crcu16 newval crc"

text \<open>[coremark/core_util.c 196-202 crcu32]\<close>

definition crcu32 :: "u32 \<Rightarrow> u16 \<Rightarrow> u16" where
  "crcu32 newval crc =
     (let crc = crc16 (ucast newval) crc
      in crc16 (ucast (drop_bit 16 newval)) crc)"

section \<open>The reference: a shift register over the message bits\<close>

text \<open>
  One clock of the reflected CRC-16 register with generator x^16 + x^15 + x^2 + 1
  (reflected: A001), fed the message bit \<open>b\<close>.
\<close>

definition arc_bit :: "bool \<Rightarrow> u16 \<Rightarrow> u16" where
  "arc_bit b c = drop_bit 1 c XOR (if b \<noteq> bit c 0 then 0xA001 else 0)"

text \<open>A byte enters the register least significant bit first.\<close>

definition lsb_bits :: "u8 \<Rightarrow> bool list" where
  "lsb_bits d = map (bit d) [0..<8]"

lemma and_1_word: "(x :: 'a::len word) AND 1 = (if bit x 0 then 1 else 0)"
  by (simp add: and_one_eq mod_2_eq_odd bit_0)

lemma arc_round_carry:
  "(drop_bit (Suc 0) c XOR 0x2001) OR 0x8000 = drop_bit (Suc 0) c XOR (0xA001 :: u16)"
proof (rule bit_word_eqI)
  fix n assume "n < LENGTH(16)"
  then have "n \<in> {0..<16}" by simp
  then show "bit ((drop_bit (Suc 0) c XOR 0x2001) OR 0x8000) n
           = bit (drop_bit (Suc 0) c XOR (0xA001 :: u16)) n"
    by (simp add: atLeastLessThanSuc atLeast0_lessThan_Suc numeral_eq_Suc)
      (auto simp: bit_simps dest: bit_imp_le_length)
qed

lemma arc_round_no_carry: "drop_bit (Suc 0) c AND 0x7fff = drop_bit (Suc 0) (c :: u16)"
proof (rule bit_word_eqI)
  fix n assume "n < LENGTH(16)"
  then have "n \<in> {0..<16}" by simp
  then show "bit (drop_bit (Suc 0) c AND 0x7fff) n = bit (drop_bit (Suc 0) (c :: u16)) n"
    by (simp add: atLeastLessThanSuc atLeast0_lessThan_Suc numeral_eq_Suc)
      (auto simp: bit_simps dest: bit_imp_le_length)
qed

lemma crcu8_iter_arc: "crcu8_iter (d, c) = (drop_bit 1 d, arc_bit (bit d 0) c)"
  by (auto simp: crcu8_iter_def Let_def arc_bit_def and_1_word bit_ucast_iff
      arc_round_carry arc_round_no_carry)

lemma crcu8_iter_pow:
  "(crcu8_iter ^^ n) (d, c) = (drop_bit n d, fold arc_bit (map (bit d) [0..<n]) c)"
  by (induction n) (simp_all add: crcu8_iter_arc bit_drop_bit_eq drop_bit_drop_bit)

lemma crcu8_arc: "crcu8 d c = fold arc_bit (lsb_bits d) c"
  by (simp add: crcu8_def crcu8_iter_pow lsb_bits_def)

text \<open>
  Feeding the bits of \<open>d\<close> one at a time is the same as adding \<open>d\<close> to the register
  first and clocking in zeros: what table-driven implementations rely on.
\<close>

lemma arc_bit_shift: "arc_bit False (c XOR d) = arc_bit (bit d 0) c XOR drop_bit 1 d"
  by (rule bit_word_eqI) (auto simp: arc_bit_def bit_simps)

lemma arc_zeros_add:
  "(arc_bit False ^^ n) (c XOR d) = fold arc_bit (map (bit d) [0..<n]) c XOR drop_bit n d"
  by (induction n) (simp_all add: arc_bit_shift bit_drop_bit_eq drop_bit_drop_bit)

lemma arc_bit_xor: "arc_bit (a \<noteq> b) (c XOR d) = arc_bit a c XOR arc_bit b d"
  by (rule bit_word_eqI) (auto simp: arc_bit_def bit_simps)

lemma arc_bit_False_eq_0: "arc_bit False c = 0 \<longleftrightarrow> c = 0"
proof
  assume *: "arc_bit False c = 0"
  have "\<not> bit (arc_bit False c) 15" using * by simp
  then have no_low: "\<not> bit c 0"
    by (auto simp: arc_bit_def bit_simps dest: bit_imp_le_length split: if_splits)
  with * have "drop_bit 1 c = 0" by (simp add: arc_bit_def)
  from arg_cong [OF this, of "\<lambda>x. bit x n" for n]
  have high: "\<not> bit c (Suc n)" for n
    by (simp add: bit_drop_bit_eq)
  show "c = 0"
  proof (rule bit_word_eqI)
    show "bit c n = bit 0 n" for n
      using no_low high by (cases n) simp_all
  qed
qed (simp add: arc_bit_def)

lemma arc_zeros_eq_0: "(arc_bit False ^^ n) c = 0 \<longleftrightarrow> c = 0"
  by (induction n) (simp_all add: arc_bit_False_eq_0)

lemma crcu8_zeros: "crcu8 d c = (arc_bit False ^^ 8) (c XOR ucast d)"
proof -
  have "drop_bit 8 (ucast d :: u16) = 0"
    by (rule bit_word_eqI) (auto simp: bit_simps dest: bit_imp_le_length)
  moreover have "map (bit (ucast d :: u16)) [0..<8] = lsb_bits d"
    by (auto simp: lsb_bits_def bit_simps)
  ultimately show ?thesis
    by (simp add: arc_zeros_add crcu8_arc)
qed

lemma arc_zeros_xor:
  "(arc_bit False ^^ n) (c XOR d) = (arc_bit False ^^ n) c XOR (arc_bit False ^^ n) d"
proof (induction n)
  case (Suc n)
  then show ?case using arc_bit_xor [of False False] by simp
qed simp

lemma ucast_u8_eq_0: "(ucast (d :: u8) :: u16) = 0 \<longleftrightarrow> d = 0"
proof -
  have "bit d n \<Longrightarrow> n < 8" for n
    using bit_imp_le_length [of d n] by simp
  note lt = this
  show ?thesis
    by (auto simp: bit_eq_iff bit_simps) (blast dest: lt)
qed

text \<open>CoreMark's byte step is a CRC in the sense of the interface.\<close>

interpretation arc: crc_code crcu8
proof
  show "crcu8 (a XOR b) (c XOR d) = crcu8 a c XOR crcu8 b d" for a b c d
    by (simp add: crcu8_zeros arc_zeros_xor [symmetric] unsigned_xor_eq ac_simps)
  show "a = 0" if "crcu8 a 0 = 0" for a
    using that by (simp add: crcu8_zeros arc_zeros_eq_0 ucast_u8_eq_0)
  show "c = 0" if "crcu8 0 c = 0" for c
    using that by (simp add: crcu8_zeros arc_zeros_eq_0)
qed

section \<open>Wider values\<close>

definition le_bytes16 :: "u16 \<Rightarrow> u8 list" where
  "le_bytes16 w = [ucast w, ucast (drop_bit 8 w)]"

definition le_bytes32 :: "u32 \<Rightarrow> u8 list" where
  "le_bytes32 w = [ucast w, ucast (drop_bit 8 w), ucast (drop_bit 16 w), ucast (drop_bit 24 w)]"

lemma crcu16_bytes: "crcu16 w c = fold crcu8 (le_bytes16 w) c"
  by (simp add: crcu16_def le_bytes16_def)

lemma ucast_ucast_u16 [simp]:
  "(ucast (ucast (w :: u32) :: u16) :: u8) = ucast w"
  "(ucast (drop_bit 8 (ucast (w :: u32) :: u16)) :: u8) = ucast (drop_bit 8 w)"
  by (rule bit_word_eqI; simp add: bit_simps)+

lemma crcu32_bytes: "crcu32 w c = fold crcu8 (le_bytes32 w) c"
  by (simp add: crcu32_def crc16_def crcu16_bytes le_bytes16_def le_bytes32_def
      drop_bit_drop_bit)


section \<open>Properties\<close>

text \<open>
  C13: the three widths of the CRC are one and the same shift register: \<open>crcu8\<close>,
  \<open>crcu16\<close> and \<open>crcu32\<close> clock the bits of their argument, least significant bit first,
  through the reflected CRC-16 register with generator x^16 + x^15 + x^2 + 1.
\<close>

theorem crc_shift_register:
  "crcu8 d c = fold arc_bit (map (bit d) [0..<8]) c
     \<and> crcu16 h c = fold arc_bit (map (bit h) [0..<16]) c
     \<and> crcu32 w c = fold arc_bit (map (bit w) [0..<32]) c"
proof -
  have h: "map (bit h) [0..<16] = concat (map lsb_bits (le_bytes16 h))"
    by (simp add: le_bytes16_def lsb_bits_def upt_rec bit_simps numeral_eq_Suc)
  have w: "map (bit w) [0..<32] = concat (map lsb_bits (le_bytes32 w))"
    by (simp add: le_bytes32_def lsb_bits_def upt_rec bit_simps numeral_eq_Suc)
  have "fold crcu8 bs c = fold arc_bit (concat (map lsb_bits bs)) c" for bs c
    by (induction bs arbitrary: c) (simp_all add: crcu8_arc)
  with h w show ?thesis
    by (simp add: crcu8_arc lsb_bits_def crcu16_bytes crcu32_bytes)
qed

text \<open>
  C14: a change of a single byte anywhere in a message always changes the CRC of the
  message, whatever value the register started from.
\<close>

theorem crcu8_detects_byte_error:
  assumes "a \<noteq> b"
  shows "fold crcu8 (xs @ a # ys) c \<noteq> fold crcu8 (xs @ b # ys) c"
  by (rule arc.fold_detects_byte [OF assms])

lemma crcu8_detects_byte_error_witness:
  "fold crcu8 ([1, 2] @ 3 # [4]) 0 \<noteq> fold crcu8 ([1, 2] @ 7 # [4]) 0"
  by (rule crcu8_detects_byte_error) simp

end
