(* ===== verification/CoreMatrix.thy ===== *)
theory CoreMatrix
  imports CoreCrc
begin

text \<open>
  The matrix kernel of CoreMark, \<open>benchmarks/wasi/coremark/core_matrix.c\<close>. \<open>MATDAT\<close> is a
  16-bit and \<open>MATRES\<close> a 32-bit signed integer; a matrix is the row-major list of its cells
  and every access is checked against the list. Signed arithmetic wraps around (two's
  complement); \<open>mul_matrix_exact\<close> bounds the entries for which no wrap occurs.
\<close>

section \<open>The operations\<close>

text \<open>[coremark/core_matrix.c 47-47 matrix_clip] The argument \<open>x\<close> is promoted to \<open>int\<close>.\<close>

definition matrix_clip :: "s32 \<Rightarrow> bool \<Rightarrow> s32" where
  "matrix_clip x y = (if y then x AND 0x0ff else x AND 0x0ffff)"

text \<open>[coremark/core_matrix.c 48-48 matrix_big]\<close>

definition matrix_big :: "s16 \<Rightarrow> s16" where
  "matrix_big x = ucast (0xf000 OR (scast x :: s32))"

text \<open>[coremark/core_matrix.c 49-49 bit_extract] The mask is unsigned, so is the result.\<close>

definition bit_extract :: "s32 \<Rightarrow> nat \<Rightarrow> nat \<Rightarrow> u32" where
  "bit_extract x frm to = signed_drop_bit frm x AND NOT (push_bit to 0xffffffff)"

text \<open>[coremark/core_matrix.c 284-295 matrix_add_const]\<close>

definition matrix_add_const :: "nat \<Rightarrow> s16 list \<Rightarrow> s16 \<Rightarrow> s16 list option" where
  "matrix_add_const N A val =
     for_in [0..<N] (\<lambda>i. for_in [0..<N] (\<lambda>j A.
       do { a \<leftarrow> aget A (i * N + j); aput A (i * N + j) (a + val) })) A"

text \<open>[coremark/core_matrix.c 268-279 matrix_mul_const]\<close>

definition matrix_mul_const :: "nat \<Rightarrow> s32 list \<Rightarrow> s16 list \<Rightarrow> s16 \<Rightarrow> s32 list option" where
  "matrix_mul_const N C A val =
     for_in [0..<N] (\<lambda>i. for_in [0..<N] (\<lambda>j C.
       do { a \<leftarrow> aget A (i * N + j); aput C (i * N + j) (scast a * scast val) })) C"

text \<open>[coremark/core_matrix.c 302-314 matrix_mul_vect]\<close>

definition matrix_mul_vect :: "nat \<Rightarrow> s32 list \<Rightarrow> s16 list \<Rightarrow> s16 list \<Rightarrow> s32 list option" where
  "matrix_mul_vect N C A B =
     for_in [0..<N] (\<lambda>i C.
       do { C \<leftarrow> aput C i 0;
            for_in [0..<N] (\<lambda>j C.
              do { c \<leftarrow> aget C i; a \<leftarrow> aget A (i * N + j); b \<leftarrow> aget B j;
                   aput C i (c + scast a * scast b) }) C }) C"

text \<open>[coremark/core_matrix.c 321-336 matrix_mul_matrix]\<close>

definition matrix_mul_matrix :: "nat \<Rightarrow> s32 list \<Rightarrow> s16 list \<Rightarrow> s16 list \<Rightarrow> s32 list option" where
  "matrix_mul_matrix N C A B =
     for_in [0..<N] (\<lambda>i. for_in [0..<N] (\<lambda>j C.
       do { C \<leftarrow> aput C (i * N + j) 0;
            for_in [0..<N] (\<lambda>k C.
              do { c \<leftarrow> aget C (i * N + j); a \<leftarrow> aget A (i * N + k); b \<leftarrow> aget B (k * N + j);
                   aput C (i * N + j) (c + scast a * scast b) }) C })) C"

text \<open>[coremark/core_matrix.c 343-359 matrix_mul_matrix_bitextract]\<close>

definition matrix_mul_matrix_bitextract ::
    "nat \<Rightarrow> s32 list \<Rightarrow> s16 list \<Rightarrow> s16 list \<Rightarrow> s32 list option" where
  "matrix_mul_matrix_bitextract N C A B =
     for_in [0..<N] (\<lambda>i. for_in [0..<N] (\<lambda>j C.
       do { C \<leftarrow> aput C (i * N + j) 0;
            for_in [0..<N] (\<lambda>k C.
              do { a \<leftarrow> aget A (i * N + k); b \<leftarrow> aget B (k * N + j);
                   let tmp = (scast a * scast b :: s32);
                   c \<leftarrow> aget C (i * N + j);
                   aput C (i * N + j) (c + bit_extract tmp 2 4 * bit_extract tmp 5 7) }) C })) C"

text \<open>
  [coremark/core_matrix.c 246-259 matrix_sum] One cell: the accumulator, the previous cell
  and the result so far.
\<close>

definition matrix_sum_cell :: "s16 \<Rightarrow> s32 \<Rightarrow> s32 \<times> s32 \<times> s16 \<Rightarrow> s32 \<times> s32 \<times> s16" where
  "matrix_sum_cell clipval cur = (\<lambda>(tmp, prev, ret).
     let tmp = tmp + cur
     in if scast clipval <s tmp then (0, cur, ret + 10)
        else (tmp, cur, ret + (if prev <s cur then 1 else 0)))"

text \<open>[coremark/core_matrix.c 237-262 matrix_sum]\<close>

definition matrix_sum :: "nat \<Rightarrow> s32 list \<Rightarrow> s16 \<Rightarrow> s16 option" where
  "matrix_sum N C clipval =
     do { (tmp, prev, ret) \<leftarrow>
            for_in [0..<N] (\<lambda>i. for_in [0..<N] (\<lambda>j st.
              do { cur \<leftarrow> aget C (i * N + j); Some (matrix_sum_cell clipval cur st) })) (0, 0, 0);
          Some ret }"

text \<open>
  [coremark/core_matrix.c 129-162 matrix_test] The result with the matrices C and A as the
  function leaves them.
\<close>

definition matrix_test ::
    "nat \<Rightarrow> s32 list \<Rightarrow> s16 list \<Rightarrow> s16 list \<Rightarrow> s16 \<Rightarrow> (s16 \<times> s32 list \<times> s16 list) option" where
  "matrix_test N C A B val =
     do { let clipval = matrix_big val;
          A \<leftarrow> matrix_add_const N A val;
          C \<leftarrow> matrix_mul_const N C A val;
          sum \<leftarrow> matrix_sum N C clipval;
          let crc = crc16 sum 0;
          C \<leftarrow> matrix_mul_vect N C A B;
          sum \<leftarrow> matrix_sum N C clipval;
          let crc = crc16 sum crc;
          C \<leftarrow> matrix_mul_matrix N C A B;
          sum \<leftarrow> matrix_sum N C clipval;
          let crc = crc16 sum crc;
          C \<leftarrow> matrix_mul_matrix_bitextract N C A B;
          sum \<leftarrow> matrix_sum N C clipval;
          let crc = crc16 sum crc;
          A \<leftarrow> matrix_add_const N A (- val);
          Some (crc, C, A) }"

text \<open>[coremark/coremark.h 113-119 mat_params] The pointers are the arrays they point to.\<close>

record mat_params =
  mp_N :: nat
  mp_A :: "s16 list"
  mp_B :: "s16 list"
  mp_C :: "s32 list"

text \<open>[coremark/core_matrix.c 91-103 core_bench_matrix]\<close>

definition core_bench_matrix :: "mat_params \<Rightarrow> s16 \<Rightarrow> u16 \<Rightarrow> (u16 \<times> mat_params) option" where
  "core_bench_matrix p seed crc =
     do { (r, C, A) \<leftarrow> matrix_test (mp_N p) (mp_C p) (mp_A p) (mp_B p) seed;
          Some (crc16 r crc, p\<lparr>mp_C := C, mp_A := A\<rparr>) }"

section \<open>Initialisation\<close>

text \<open>[coremark/port/core_portme.h 121-121 align_mem] Addresses are 32 bits wide, as on wasm32.\<close>

definition align_mem :: "u32 \<Rightarrow> u32" where
  "align_mem x = 4 + ((x - 1) AND NOT 3)"

text \<open>
  [coremark/core_matrix.c 191-195 core_init_matrix] The search for the dimension, in 32-bit
  unsigned arithmetic: it does not return when the square wraps around for ever.
\<close>

partial_function (option) matrix_dim :: "u32 \<Rightarrow> u32 \<Rightarrow> u32 \<Rightarrow> u32 option" where
  "matrix_dim blksize i j =
     (if j < blksize then matrix_dim blksize (i + 1) ((i + 1) * (i + 1) * 2 * 4) else Some i)"

text \<open>
  [coremark/core_matrix.c 204-211 core_init_matrix] One cell: the running seed and order,
  and the two matrices.
\<close>

definition init_matrix_cell ::
    "nat \<Rightarrow> s32 \<times> s32 \<times> s16 list \<times> s16 list \<Rightarrow> (s32 \<times> s32 \<times> s16 list \<times> s16 list) option" where
  "init_matrix_cell k = (\<lambda>(seed, order, A, B).
     do { let seed = c_smod (order * seed) 65536;
          let val = (ucast (seed + order) :: s16);
          let val = (ucast (matrix_clip (scast val) False) :: s16);
          B \<leftarrow> aput B k val;
          let val = (ucast (scast val + order) :: s16);
          let val = (ucast (matrix_clip (scast val) True) :: s16);
          A \<leftarrow> aput A k val;
          Some (seed, order + 1, A, B) })"

text \<open>
  [coremark/core_matrix.c 180-224 core_init_matrix] \<open>A0\<close>, \<open>B0\<close>, \<open>C0\<close> are the former
  contents of the block at the places of the three matrices; the result has the dimension,
  the addresses of the matrices, and the parameters.
\<close>

definition core_init_matrix ::
    "u32 \<Rightarrow> u32 \<Rightarrow> s32 \<Rightarrow> s16 list \<Rightarrow> s16 list \<Rightarrow> s32 list
       \<Rightarrow> (u32 \<times> (u32 \<times> u32 \<times> u32) \<times> mat_params) option" where
  "core_init_matrix blksize memblk seed A0 B0 C0 =
     do { let seed = (if seed = 0 then 1 else seed);
          i \<leftarrow> matrix_dim blksize 0 0;
          let N = i - 1;
          let A = align_mem memblk;
          let B = A + 2 * (N * N);
          (seed, order, Av, Bv) \<leftarrow>
            for_in [0..<unat N] (\<lambda>i. for_in [0..<unat N] (\<lambda>j. init_matrix_cell (i * unat N + j)))
              (seed, 1, A0, B0);
          let C = align_mem (B + 2 * (N * N));
          Some (N, (A, B, C), \<lparr>mp_N = unat N, mp_A = Av, mp_B = Bv, mp_C = C0\<rparr>) }"

section \<open>What the operations compute\<close>

text \<open>Row i, column j of a row-major N by N matrix of 16-bit values, as a 32-bit value.\<close>

abbreviation cell :: "nat \<Rightarrow> s16 list \<Rightarrow> nat \<Rightarrow> nat \<Rightarrow> s32" where
  "cell N M i j \<equiv> scast (M ! (i * N + j))"

lemma cell_index: "i < N \<Longrightarrow> j < N \<Longrightarrow> i * N + j < N * (N :: nat)"
proof -
  assume "i < N" "j < N"
  then have "i * N + j < Suc i * N" by simp
  also have "\<dots> \<le> N * N" using \<open>i < N\<close> by (intro mult_le_mono1) simp
  finally show ?thesis .
qed

lemma cell_div_mod: "k < N * N \<Longrightarrow> k div N < N \<and> k mod N < (N :: nat)"
  by (cases N) (simp_all add: less_mult_imp_div_less)

lemma nth_eq_of_drop_eq:
  "drop k ys = drop k xs \<Longrightarrow> k < length xs \<Longrightarrow> length ys = length xs \<Longrightarrow> ys ! k = xs ! k"
  by (simp flip: hd_drop_conv_nth)

lemma matrix_add_const_eq:
  assumes "N * N \<le> length A"
  shows "matrix_add_const N A val = Some (map (\<lambda>k. A ! k + val) [0..<N * N] @ drop (N * N) A)"
  unfolding matrix_add_const_def for_in_nested div_mult_mod_eq
proof (rule for_in_aput)
  fix k and D :: "s16 list"
  assume "k < N * N" "length D = length A" "drop k D = drop k A"
  then show "do { a \<leftarrow> aget D k; aput D k (a + val) } = Some (D[k := A ! k + val])"
    using assms nth_eq_of_drop_eq [of k D A] by simp
qed (rule assms)

lemma matrix_mul_const_eq:
  assumes "N * N \<le> length A" "N * N \<le> length C"
  shows "matrix_mul_const N C A val
       = Some (map (\<lambda>k. scast (A ! k) * scast val) [0..<N * N] @ drop (N * N) C)"
  unfolding matrix_mul_const_def for_in_nested div_mult_mod_eq using assms
  by (intro for_in_aput) auto

definition dot :: "nat \<Rightarrow> (nat \<Rightarrow> s32) \<Rightarrow> (nat \<Rightarrow> s32) \<Rightarrow> s32" where
  "dot N f g = (\<Sum>k\<leftarrow>[0..<N]. f k * g k)"

lemma matrix_mul_vect_eq:
  assumes "N * N \<le> length A" "N \<le> length B" "N \<le> length C"
  shows "matrix_mul_vect N C A B
       = Some (map (\<lambda>i. dot N (cell N A i) (\<lambda>j. scast (B ! j))) [0..<N] @ drop N C)"
  unfolding matrix_mul_vect_def
proof (rule for_in_aput)
  fix i and D :: "s32 list"
  assume i: "i < N" and D: "length D = length C"
  have "for_in [0..<N] (\<lambda>j C. do { c \<leftarrow> aget C i; a \<leftarrow> aget A (i * N + j); b \<leftarrow> aget B j;
            aput C i (c + scast a * scast b) }) (D[i := 0])
      = Some (D[i := 0, i := D[i := 0] ! i + (\<Sum>j\<leftarrow>[0..<N]. cell N A i j * scast (B ! j))])"
    using i D assms by (intro for_in_accumulate) (auto simp: order.strict_trans2 [OF cell_index])
  then show "do { C \<leftarrow> aput D i 0; for_in [0..<N] (\<lambda>j C.
              do { c \<leftarrow> aget C i; a \<leftarrow> aget A (i * N + j); b \<leftarrow> aget B j;
                   aput C i (c + scast a * scast b) }) C }
      = Some (D[i := dot N (cell N A i) (\<lambda>j. scast (B ! j))])"
    using i D assms by (simp add: dot_def)
qed (use assms in auto)

lemma matrix_mul_matrix_eq:
  assumes "N * N \<le> length A" "N * N \<le> length B" "N * N \<le> length C"
  shows "matrix_mul_matrix N C A B
       = Some (map (\<lambda>c. dot N (cell N A (c div N)) (\<lambda>k. cell N B k (c mod N))) [0..<N * N]
               @ drop (N * N) C)"
  unfolding matrix_mul_matrix_def for_in_nested div_mult_mod_eq
proof (rule for_in_aput)
  fix c and D :: "s32 list"
  assume c: "c < N * N" and D: "length D = length C"
  let ?i = "c div N" and ?j = "c mod N"
  have "for_in [0..<N] (\<lambda>k C. do { v \<leftarrow> aget C c; a \<leftarrow> aget A (?i * N + k);
            b \<leftarrow> aget B (k * N + ?j); aput C c (v + scast a * scast b) }) (D[c := 0])
      = Some (D[c := 0, c := D[c := 0] ! c + (\<Sum>k\<leftarrow>[0..<N]. cell N A ?i k * cell N B k ?j)])"
    using c D assms cell_div_mod [OF c]
    by (intro for_in_accumulate) (auto simp: order.strict_trans2 [OF cell_index])
  then show "do { C \<leftarrow> aput D c 0; for_in [0..<N] (\<lambda>k C. do { v \<leftarrow> aget C c;
            a \<leftarrow> aget A (?i * N + k); b \<leftarrow> aget B (k * N + ?j); aput C c (v + scast a * scast b) }) C }
      = Some (D[c := dot N (cell N A ?i) (\<lambda>k. cell N B k ?j)])"
    using c D assms by (simp add: dot_def)
qed (use assms in auto)

definition extract_dot :: "nat \<Rightarrow> (nat \<Rightarrow> s32) \<Rightarrow> (nat \<Rightarrow> s32) \<Rightarrow> s32" where
  "extract_dot N f g = (\<Sum>k\<leftarrow>[0..<N]. bit_extract (f k * g k) 2 4 * bit_extract (f k * g k) 5 7)"

lemma matrix_mul_matrix_bitextract_eq:
  assumes "N * N \<le> length A" "N * N \<le> length B" "N * N \<le> length C"
  shows "matrix_mul_matrix_bitextract N C A B
       = Some (map (\<lambda>c. extract_dot N (cell N A (c div N)) (\<lambda>k. cell N B k (c mod N))) [0..<N * N]
               @ drop (N * N) C)"
  unfolding matrix_mul_matrix_bitextract_def for_in_nested div_mult_mod_eq Let_def
proof (rule for_in_aput)
  fix c and D :: "s32 list"
  assume c: "c < N * N" and D: "length D = length C"
  let ?i = "c div N" and ?j = "c mod N"
  let ?body = "\<lambda>k C. do { a \<leftarrow> aget A (?i * N + k); b \<leftarrow> aget B (k * N + ?j); v \<leftarrow> aget C c;
            aput C c (v + bit_extract (scast a * scast b) 2 4 * bit_extract (scast a * scast b) 5 7) }"
  have "for_in [0..<N] ?body (D[c := 0])
      = Some (D[c := 0, c := D[c := 0] ! c + extract_dot N (cell N A ?i) (\<lambda>k. cell N B k ?j)])"
    using c D assms cell_div_mod [OF c] unfolding extract_dot_def
    by (intro for_in_accumulate) (auto simp: order.strict_trans2 [OF cell_index])
  then show "do { C \<leftarrow> aput D c 0; for_in [0..<N] ?body C }
      = Some (D[c := extract_dot N (cell N A ?i) (\<lambda>k. cell N B k ?j)])"
    using c D assms by simp
qed (use assms in auto)

lemma matrix_sum_eq:
  assumes "N * N \<le> length C"
  shows "matrix_sum N C clipval
       = Some (snd (snd (fold (matrix_sum_cell clipval) (take (N * N) C) (0, 0, 0))))"
proof -
  have "for_in [0..<N] (\<lambda>i. for_in [0..<N] (\<lambda>j st.
              do { cur \<leftarrow> aget C (i * N + j); Some (matrix_sum_cell clipval cur st) })) (0, 0, 0)
      = Some (fold (\<lambda>k. matrix_sum_cell clipval (C ! k)) [0..<N * N] (0, 0, 0))"
    unfolding for_in_nested div_mult_mod_eq using assms by (intro for_in_total) auto
  also have "fold (\<lambda>k. matrix_sum_cell clipval (C ! k)) [0..<N * N]
      = fold (matrix_sum_cell clipval) (map ((!) C) [0..<N * N])"
    by (simp add: fold_map comp_def)
  also have "map ((!) C) [0..<N * N] = take (N * N) C"
    using assms by (intro nth_equalityI) simp_all
  finally show ?thesis
    by (simp add: matrix_sum_def split: prod.splits)
qed

section \<open>A test leaves the input matrices as they were\<close>

lemma matrix_test_restores:
  assumes "N * N \<le> length A" "N * N \<le> length B" "N * N \<le> length C"
  shows "\<exists>crc C'. matrix_test N C A B val = Some (crc, C', A) \<and> length C' = length C"
proof -
  have le: "N \<le> N * N" by (cases N) simp_all
  let ?A = "map (\<lambda>k. A ! k + val) [0..<N * N] @ drop (N * N) A"
  have undo: "matrix_add_const N ?A (- val) = Some A"
  proof -
    have "map (\<lambda>k. ?A ! k + - val) [0..<N * N] @ drop (N * N) ?A = A"
      using assms(1) by (intro nth_equalityI) (auto simp: nth_append)
    then show ?thesis
      using assms(1) by (subst matrix_add_const_eq) auto
  qed
  have "N * N \<le> length ?A" "N \<le> length B" "N \<le> length C"
    using assms le_trans [OF le] by auto
  with assms undo show ?thesis
    by (simp add: matrix_test_def matrix_add_const_eq matrix_mul_const_eq matrix_mul_vect_eq
        matrix_mul_matrix_eq matrix_mul_matrix_bitextract_eq matrix_sum_eq Let_def)
qed

definition mat_wf :: "mat_params \<Rightarrow> bool" where
  "mat_wf p \<longleftrightarrow> mp_N p * mp_N p \<le> length (mp_A p) \<and> mp_N p * mp_N p \<le> length (mp_B p)
     \<and> mp_N p * mp_N p \<le> length (mp_C p)"

lemma core_bench_matrix_safe:
  assumes "mat_wf p"
  shows "\<exists>r p'. core_bench_matrix p seed crc = Some (r, p') \<and> mat_wf p'
           \<and> mp_A p' = mp_A p \<and> mp_B p' = mp_B p \<and> mp_N p' = mp_N p"
proof -
  obtain r C' where "matrix_test (mp_N p) (mp_C p) (mp_A p) (mp_B p) seed = Some (r, C', mp_A p)"
    and "length C' = length (mp_C p)"
    using matrix_test_restores assms unfolding mat_wf_def by blast
  with assms show ?thesis
    by (simp add: core_bench_matrix_def mat_wf_def)
qed

section \<open>Overflow\<close>

lemma sint_sum_list:
  fixes f :: "'b \<Rightarrow> s32"
  assumes "\<And>x. x \<in> set xs \<Longrightarrow> \<bar>sint (f x)\<bar> \<le> M" "M * int (length xs) < 2 ^ 31" "0 \<le> M"
  shows "sint (\<Sum>x\<leftarrow>xs. f x) = (\<Sum>x\<leftarrow>xs. sint (f x)) \<and> \<bar>\<Sum>x\<leftarrow>xs. sint (f x)\<bar> \<le> M * int (length xs)"
  using assms
proof (induction xs)
  case (Cons x xs)
  have IH: "sint (\<Sum>x\<leftarrow>xs. f x) = (\<Sum>x\<leftarrow>xs. sint (f x))"
      "\<bar>\<Sum>x\<leftarrow>xs. sint (f x)\<bar> \<le> M * int (length xs)"
    using Cons by (auto simp: algebra_simps)
  have x: "\<bar>sint (f x)\<bar> \<le> M" using Cons.prems by simp
  have bound: "\<bar>sint (f x) + (\<Sum>x\<leftarrow>xs. sint (f x))\<bar> \<le> M * int (length (x # xs))"
    using x IH(2) by (auto simp: algebra_simps)
  then have "sint (f x + (\<Sum>x\<leftarrow>xs. f x)) = sint (f x) + (\<Sum>x\<leftarrow>xs. sint (f x))"
    using Cons.prems(2) IH(1)
    by (simp add: sint_word_ariths signed_take_bit_int_eq_self)
  with bound show ?case by simp
qed simp

lemma sint_mult_16:
  fixes a b :: s16
  shows "sint (scast a * scast b :: s32) = sint a * sint b"
proof -
  have "\<bar>sint a\<bar> \<le> 2 ^ 15" "\<bar>sint b\<bar> \<le> 2 ^ 15"
    using sint_range_size [of a] sint_range_size [of b] by (auto simp: word_size)
  then have "\<bar>sint a * sint b\<bar> \<le> 2 ^ 15 * 2 ^ 15"
    unfolding abs_mult by (intro mult_mono) auto
  moreover have "sint (scast a :: s32) = sint a" "sint (scast b :: s32) = sint b"
    by (simp_all add: sint_up_scast is_up)
  ultimately show ?thesis
    by (simp add: sint_word_ariths signed_take_bit_int_eq_self)
qed

lemma dot_exact:
  assumes "\<And>k. k < N \<Longrightarrow> sint (f k * g k) = p k \<and> \<bar>p k\<bar> \<le> M" "M * int N < 2 ^ 31" "0 \<le> M"
  shows "sint (dot N f g) = (\<Sum>k<N. p k)"
proof -
  have "sint (\<Sum>k\<leftarrow>[0..<N]. f k * g k) = (\<Sum>k\<leftarrow>[0..<N]. sint (f k * g k))"
    using sint_sum_list [of "[0..<N]" "\<lambda>k. f k * g k" M] assms by simp
  also have "\<dots> = (\<Sum>k\<leftarrow>[0..<N]. p k)"
    using assms(1) by (intro arg_cong [where f = sum_list] map_cong) auto
  also have "\<dots> = (\<Sum>k<N. p k)"
    by (simp add: interv_sum_list_conv_sum_set_nat atLeast0LessThan)
  finally show ?thesis by (simp add: dot_def)
qed

lemma mul_matrix_exact:
  assumes "N * N \<le> length A" "N * N \<le> length B" "N * N \<le> length C"
    and "\<forall>a \<in> set A. \<bar>sint a\<bar> \<le> MA" "\<forall>b \<in> set B. \<bar>sint b\<bar> \<le> MB" "0 \<le> MA" "0 \<le> MB"
    and "MA * MB * int N < 2 ^ 31"
  shows "\<exists>C'. matrix_mul_matrix N C A B = Some C' \<and> length C' = length C \<and>
     (\<forall>i < N. \<forall>j < N. sint (C' ! (i * N + j)) =
        (\<Sum>k<N. sint (A ! (i * N + k)) * sint (B ! (k * N + j))))"
proof -
  let ?C = "map (\<lambda>c. dot N (cell N A (c div N)) (\<lambda>k. cell N B k (c mod N))) [0..<N * N] @ drop (N * N) C"
  have "sint (dot N (cell N A i) (\<lambda>k. cell N B k j))
      = (\<Sum>k<N. sint (A ! (i * N + k)) * sint (B ! (k * N + j)))" if "i < N" "j < N" for i j
  proof (rule dot_exact)
    fix k assume k: "k < N"
    have "\<bar>sint (A ! (i * N + k))\<bar> \<le> MA" "\<bar>sint (B ! (k * N + j))\<bar> \<le> MB"
      using assms that k by (auto simp: order.strict_trans2 [OF cell_index])
    then show "sint (cell N A i k * cell N B k j) = sint (A ! (i * N + k)) * sint (B ! (k * N + j))
        \<and> \<bar>sint (A ! (i * N + k)) * sint (B ! (k * N + j))\<bar> \<le> MA * MB"
      using \<open>0 \<le> MA\<close> by (simp add: sint_mult_16 abs_mult mult_mono)
  qed (use assms in auto)
  moreover have "?C ! (i * N + j) = dot N (cell N A i) (\<lambda>k. cell N B k j)" if "i < N" "j < N" for i j
    using cell_index [OF that] that by (simp add: nth_append)
  ultimately show ?thesis
    using assms by (intro exI [of _ ?C]) (simp add: matrix_mul_matrix_eq)
qed

section \<open>The dimension and the place of the matrices\<close>

lemma matrix_dim_range:
  assumes "unat blksize \<le> 2 ^ 31" "unat i \<le> 16384" "unat j = 8 * (unat i)\<^sup>2"
    and "i = 0 \<or> 8 * (unat i - 1)\<^sup>2 < unat blksize"
  shows "\<exists>r. matrix_dim blksize i j = Some r \<and> (r = 0 \<or> 8 * (unat r - 1)\<^sup>2 < unat blksize)
           \<and> unat blksize \<le> 8 * (unat r)\<^sup>2 \<and> unat r \<le> 16384"
  using assms
proof (induction "16384 - unat i" arbitrary: i j rule: less_induct)
  case less
  show ?case
  proof (cases "j < blksize")
    case False
    with less.prems show ?thesis
      by (subst matrix_dim.simps) (auto simp: word_less_nat_alt not_less)
  next
    case True
    then have lt: "8 * (unat i)\<^sup>2 < unat blksize" "unat i < 16384"
    proof -
      show *: "8 * (unat i)\<^sup>2 < unat blksize"
        using True less.prems(3) by (simp add: word_less_nat_alt)
      show "unat i < 16384"
      proof (rule ccontr)
        assume "\<not> unat i < 16384"
        then have "16384\<^sup>2 \<le> (unat i)\<^sup>2" by (intro power_mono) auto
        with * less.prems(1) show False by (simp add: power2_eq_square)
      qed
    qed
    have Si: "unat (i + 1) = Suc (unat i)"
      using lt(2) by (simp add: unat_word_ariths)
    have "Suc (unat i) * Suc (unat i) \<le> 16384 * 16384"
      using lt(2) by (intro mult_mono) auto
    then have "unat ((i + 1) * (i + 1) * 2 * 4) = 8 * (unat (i + 1))\<^sup>2"
      using Si by (simp add: unat_word_ariths power2_eq_square)
    then have "\<exists>r. matrix_dim blksize (i + 1) ((i + 1) * (i + 1) * 2 * 4) = Some r
        \<and> (r = 0 \<or> 8 * (unat r - 1)\<^sup>2 < unat blksize) \<and> unat blksize \<le> 8 * (unat r)\<^sup>2 \<and> unat r \<le> 16384"
      using less.prems Si lt by (intro less.hyps) auto
    with True show ?thesis
      by (subst matrix_dim.simps) simp
  qed
qed

lemma and_minus_4: "(y :: u32) AND - 4 = push_bit 2 (drop_bit 2 y)"
proof -
  have "y AND NOT (mask 2) = push_bit 2 (drop_bit 2 y)"
    by (rule bit_word_eqI) (auto simp: bit_simps not_less dest!: le_Suc_ex)
  then show ?thesis by (simp add: mask_eq_exp_minus_1)
qed

lemma unat_and_minus_4: "unat ((y :: u32) AND - 4) = unat y div 4 * 4"
proof -
  have "unat y < 2 ^ LENGTH(32)" by (rule unsigned_less)
  then have "unat y div 4 * 4 < 2 ^ 32" by simp
  then show ?thesis
    by (simp add: and_minus_4 push_bit_eq_mult unat_word_ariths unat_drop_bit_eq drop_bit_eq_div)
qed

lemma unat_align_mem:
  assumes "unat x + 3 < 2 ^ 32"
  shows "unat (align_mem x) = (unat x + 3) div 4 * 4"
proof (cases "x = 0")
  case False
  then have "unat (x - 1) = unat x - 1" "0 < unat x"
    by (simp_all add: unat_minus_one unat_gt_0)
  moreover have "(unat x - 1) div 4 * 4 + 4 = (unat x + 3) div 4 * 4"
    using \<open>0 < unat x\<close> by presburger
  moreover have "(unat x + 3) div 4 * 4 < 2 ^ 32"
    using assms by presburger
  ultimately show ?thesis
    by (simp add: align_mem_def unat_word_ariths unat_and_minus_4)
qed (simp add: align_mem_def)

lemma init_matrix_cell_runs:
  assumes "k < length A" "k < length B"
  shows "\<exists>seed' b a. init_matrix_cell k (seed, order, A, B)
           = Some (seed', order + 1, A[k := a], B[k := b]) \<and> unat a < 256"
proof -
  have "unat (ucast (matrix_clip (scast v) True) :: s16) < 256" for v :: s16
  proof -
    have "(ucast (matrix_clip (scast v) True) :: s16) = v AND 0xff"
      by (rule bit_word_eqI) (auto simp: matrix_clip_def bit_simps)
    also have "v AND 0xff = take_bit 8 v"
      by (simp add: take_bit_eq_mask mask_eq_exp_minus_1)
    finally show ?thesis
      using take_bit_nat_less_exp [of 8 "unat v"] by (simp add: unsigned_take_bit_eq)
  qed
  with assms show ?thesis
    by (simp add: init_matrix_cell_def Let_def) blast
qed

lemma core_init_matrix_runs:
  assumes "0 < unat blksize" "unat blksize \<le> 2 ^ 31" "unat memblk + unat blksize + 8 \<le> 2 ^ 32"
    and "unat blksize \<le> 8 * length A0" "unat blksize \<le> 8 * length B0" "unat blksize \<le> 8 * length C0"
  shows "\<exists>N A B C p. core_init_matrix blksize memblk seed A0 B0 C0 = Some (N, (A, B, C), p)
     \<and> 8 * (unat N)\<^sup>2 < unat blksize \<and> unat blksize \<le> 8 * (unat N + 1)\<^sup>2
     \<and> mp_N p = unat N \<and> mat_wf p \<and> (\<forall>k < unat N * unat N. unat (mp_A p ! k) < 256)
     \<and> unat A = (unat memblk + 3) div 4 * 4 \<and> unat B = unat A + 2 * (unat N)\<^sup>2
     \<and> unat C = unat B + 2 * (unat N)\<^sup>2"
proof -
  obtain r where r: "matrix_dim blksize 0 0 = Some r" "r = 0 \<or> 8 * (unat r - 1)\<^sup>2 < unat blksize"
      "unat blksize \<le> 8 * (unat r)\<^sup>2" "unat r \<le> 16384"
    using matrix_dim_range [of blksize 0 0] assms(2) by auto
  have "r \<noteq> 0" using r(3) assms(1) by auto
  let ?N = "r - 1" and ?n = "unat r - 1"
  have N: "unat ?N = ?n" and pos: "0 < unat r"
    using \<open>r \<noteq> 0\<close> by (simp_all add: unat_minus_one unat_gt_0)
  have lt: "8 * ?n\<^sup>2 < unat blksize" using r(2) \<open>r \<noteq> 0\<close> by simp
  then have cells: "?n * ?n \<le> length A0" "?n * ?n \<le> length B0" "?n * ?n \<le> length C0"
    using assms(4-6) by (auto simp: power2_eq_square)
  have n2: "?n\<^sup>2 \<le> 16384\<^sup>2" using r(4) by (intro power_mono) auto
  define I where "I = (\<lambda>k (seed :: s32, order :: s32, A :: s16 list, B :: s16 list).
      length A = length A0 \<and> length B = length B0 \<and> (\<forall>i < k. unat (A ! i) < 256))"
  let ?s0 = "if seed = 0 then 1 else seed"
  have "runs (for_in [0..<?n * ?n] (\<lambda>k. init_matrix_cell (k div ?n * ?n + k mod ?n)) (?s0, 1, A0, B0))
      (I (?n * ?n))"
  proof (rule runs_for_upt)
    show "I 0 (?s0, 1, A0, B0)" by (simp add: I_def)
    fix k st assume k: "k < ?n * ?n" and st: "I k st"
    obtain seed order A B where [simp]: "st = (seed, order, A, B)" by (cases st)
    have "k < length A" "k < length B" using st k cells by (auto simp: I_def)
    from init_matrix_cell_runs [OF this, of seed order]
    obtain seed' b a where "init_matrix_cell k st = Some (seed', order + 1, A[k := a], B[k := b])" "unat a < 256"
      by auto
    moreover have "I (Suc k) (seed', order + 1, A[k := a], B[k := b])"
      using st \<open>unat a < 256\<close> \<open>k < length A\<close>
      by (auto simp: I_def less_Suc_eq nth_list_update)
    ultimately show "runs (init_matrix_cell (k div ?n * ?n + k mod ?n) st) (I (Suc k))"
      unfolding div_mult_mod_eq by simp
  qed simp
  then obtain s' o' A' B' where loop: "for_in [0..<?n] (\<lambda>i. for_in [0..<?n] (\<lambda>j. init_matrix_cell (i * ?n + j)))
        (?s0, 1, A0, B0) = Some (s', o', A', B')"
      and I: "I (?n * ?n) (s', o', A', B')"
    unfolding for_in_nested by (auto simp: runs_iff_Some)
  define M where "M = 2 * (?N * ?N)"
  have M: "unat M = 2 * ?n\<^sup>2"
    using n2 by (simp add: M_def unat_word_ariths N power2_eq_square)
  let ?A = "align_mem memblk"
  have A: "unat ?A = (unat memblk + 3) div 4 * 4"
    using assms(1,3) by (intro unat_align_mem) auto
  have A_le: "unat ?A \<le> unat memblk + 3" unfolding A by presburger
  then have B: "unat (?A + M) = unat ?A + 2 * ?n\<^sup>2"
    using lt assms(3) M by (simp add: unat_word_ariths)
  then have B2: "unat (?A + M + M) = unat ?A + 4 * ?n\<^sup>2"
    using lt assms(3) M A_le by (simp add: unat_word_ariths)
  have round: "x + 4 * q + 3 < 2 ^ 32 \<and> (x + 4 * q + 3) div 4 * 4 = x + 4 * q"
    if "8 * q < b" "m + b + 8 \<le> 2 ^ 32" "x = (m + 3) div 4 * 4" for x q b m :: nat
  proof -
    have "x \<le> m + 3" unfolding that(3) by presburger
    moreover have "((m + 3) div 4 * 4 + 4 * q + 3) div 4 = (m + 3) div 4 + q" by presburger
    ultimately show ?thesis using that by simp
  qed
  then have "unat (align_mem (?A + M + M)) = unat ?A + 4 * ?n\<^sup>2"
    using round [OF lt assms(3) A] by (subst unat_align_mem) (simp_all only: B2)
  moreover have "4 * (?N * ?N) = 2 * M" by (simp add: M_def)
  ultimately show ?thesis using r(1,3) loop I A B N lt cells pos
    by (simp add: core_init_matrix_def Let_def mat_wf_def I_def M_def [symmetric])
qed


section \<open>Properties\<close>

text \<open>
  C10: \<open>core_init_matrix\<close> finds the largest dimension whose three matrices take less than
  the block size, fills A with values below 256, and lays A, B and C out one behind the
  other from the first multiple of four at or above the block's address. In a block that
  is aligned itself the matrices end inside it; in any other they end at most two bytes
  behind it.
\<close>

theorem init_matrix_layout:
  assumes "0 < unat blksize" "unat blksize \<le> 2 ^ 31" "unat memblk + unat blksize + 8 \<le> 2 ^ 32"
    and "unat blksize \<le> 8 * length A0" "unat blksize \<le> 8 * length B0" "unat blksize \<le> 8 * length C0"
  shows "\<exists>N A B C p. core_init_matrix blksize memblk seed A0 B0 C0 = Some (N, (A, B, C), p)
     \<and> 8 * (unat N)\<^sup>2 < unat blksize \<and> unat blksize \<le> 8 * (unat N + 1)\<^sup>2
     \<and> mp_N p = unat N \<and> mat_wf p \<and> (\<forall>k < unat N * unat N. unat (mp_A p ! k) < 256)
     \<and> unat memblk \<le> unat A \<and> unat A mod 4 = 0 \<and> unat B = unat A + 2 * (unat N)\<^sup>2
     \<and> unat C = unat B + 2 * (unat N)\<^sup>2
     \<and> (unat memblk mod 4 = 0 \<longrightarrow> unat C + 4 * (unat N)\<^sup>2 < unat memblk + unat blksize)
     \<and> unat C + 4 * (unat N)\<^sup>2 \<le> unat memblk + unat blksize + 2"
proof -
  obtain N A B C p where r: "core_init_matrix blksize memblk seed A0 B0 C0 = Some (N, (A, B, C), p)"
      "8 * (unat N)\<^sup>2 < unat blksize" "unat blksize \<le> 8 * (unat N + 1)\<^sup>2"
      "mp_N p = unat N" "mat_wf p" "\<forall>k < unat N * unat N. unat (mp_A p ! k) < 256"
      "unat A = (unat memblk + 3) div 4 * 4" "unat B = unat A + 2 * (unat N)\<^sup>2"
      "unat C = unat B + 2 * (unat N)\<^sup>2"
    using core_init_matrix_runs [OF assms] by blast
  have "unat memblk \<le> unat A" "unat A mod 4 = 0" "unat A \<le> unat memblk + 3"
      "unat memblk mod 4 = 0 \<longrightarrow> unat A = unat memblk"
    unfolding r(7) by presburger+
  moreover have "unat C + 4 * (unat N)\<^sup>2 = unat A + 8 * (unat N)\<^sup>2" using r(8,9) by simp
  ultimately show ?thesis using r by auto
qed

lemma init_matrix_layout_witness:
  "\<exists>N A B C p. core_init_matrix 666 0x1000 0 (replicate 100 0) (replicate 100 0) (replicate 100 0)
       = Some (N, (A, B, C), p)
     \<and> 8 * (unat N)\<^sup>2 < unat (666 :: u32) \<and> unat (666 :: u32) \<le> 8 * (unat N + 1)\<^sup>2
     \<and> mp_N p = unat N \<and> mat_wf p \<and> (\<forall>k < unat N * unat N. unat (mp_A p ! k) < 256)
     \<and> unat (0x1000 :: u32) \<le> unat A \<and> unat A mod 4 = 0 \<and> unat B = unat A + 2 * (unat N)\<^sup>2
     \<and> unat C = unat B + 2 * (unat N)\<^sup>2
     \<and> (unat (0x1000 :: u32) mod 4 = 0 \<longrightarrow>
          unat C + 4 * (unat N)\<^sup>2 < unat (0x1000 :: u32) + unat (666 :: u32))
     \<and> unat C + 4 * (unat N)\<^sup>2 \<le> unat (0x1000 :: u32) + unat (666 :: u32) + 2"
  by (rule init_matrix_layout) simp_all

text \<open>
  C39: the two bytes can be reached: in a misaligned block of 649 bytes the last element of
  C lies partly outside the block.
\<close>

theorem init_matrix_overrun:
  "\<exists>N A B C p. core_init_matrix 649 1 0 (replicate 100 0) (replicate 100 0) (replicate 100 0)
       = Some (N, (A, B, C), p)
     \<and> unat C + 4 * (unat N)\<^sup>2 = 1 + 649 + 2"
proof -
  have square: "n = 9" if "8 * n\<^sup>2 < (649 :: nat)" "649 \<le> 8 * (n + 1)\<^sup>2" for n
  proof -
    have "n < 10"
    proof (rule ccontr)
      assume "\<not> n < 10"
      then have "10\<^sup>2 \<le> n\<^sup>2" by (intro power_mono) auto
      with that(1) show False by simp
    qed
    moreover have "\<not> n \<le> 8"
    proof
      assume "n \<le> 8"
      then have "(n + 1)\<^sup>2 \<le> 9\<^sup>2" by (intro power_mono) auto
      with that(2) show False by simp
    qed
    ultimately show "n = 9" by simp
  qed
  obtain N A B C p where r: "core_init_matrix 649 1 0 (replicate 100 0) (replicate 100 0) (replicate 100 0)
        = Some (N, (A, B, C), p)"
      "8 * (unat N)\<^sup>2 < unat (649 :: u32)" "unat (649 :: u32) \<le> 8 * (unat N + 1)\<^sup>2"
      "unat A = (unat (1 :: u32) + 3) div 4 * 4" "unat B = unat A + 2 * (unat N)\<^sup>2"
      "unat C = unat B + 2 * (unat N)\<^sup>2"
    using core_init_matrix_runs [of 649 1 "replicate 100 0" "replicate 100 0" "replicate 100 0" 0] by auto
  have "unat N = 9" using square [of "unat N"] r(2,3) by simp
  then show ?thesis using r by simp
qed

text \<open>
  C11: on well-formed parameters the matrix kernel stays inside its three arrays and always
  returns, and it leaves A, B and the dimension as they were: the addition of the seed is
  undone exactly, wrap-around included.
\<close>

theorem bench_matrix_restores:
  assumes "mat_wf p"
  shows "\<exists>r p'. core_bench_matrix p seed crc = Some (r, p') \<and> mat_wf p'
           \<and> mp_A p' = mp_A p \<and> mp_B p' = mp_B p \<and> mp_N p' = mp_N p"
  by (rule core_bench_matrix_safe [OF assms])

lemma bench_matrix_restores_witness:
  "\<exists>r p'. core_bench_matrix \<lparr>mp_N = 2, mp_A = [1, 2, 3, 0x7fff], mp_B = [5, 6, 7, 8], mp_C = [0, 0, 0, 0]\<rparr>
        0x66 0 = Some (r, p') \<and> mat_wf p'
     \<and> mp_A p' = mp_A \<lparr>mp_N = 2, mp_A = [1, 2, 3, 0x7fff], mp_B = [5, 6, 7, 8], mp_C = [0, 0, 0, 0]\<rparr>
     \<and> mp_B p' = mp_B \<lparr>mp_N = 2, mp_A = [1, 2, 3, 0x7fff], mp_B = [5, 6, 7, 8], mp_C = [0, 0, 0, 0]\<rparr>
     \<and> mp_N p' = mp_N \<lparr>mp_N = 2, mp_A = [1, 2, 3, 0x7fff], mp_B = [5, 6, 7, 8], mp_C = [0, 0, 0, 0]\<rparr>"
  by (rule bench_matrix_restores) (simp add: mat_wf_def)

text \<open>
  C12: when the entries of A and B are small enough for the dimension, \<open>matrix_mul_matrix\<close>
  leaves the exact integer product of the two matrices in C: no 32-bit sum overflows.
\<close>

theorem matrix_product_exact:
  assumes "N * N \<le> length A" "N * N \<le> length B" "N * N \<le> length C"
    and "\<forall>a \<in> set A. \<bar>sint a\<bar> \<le> MA" "\<forall>b \<in> set B. \<bar>sint b\<bar> \<le> MB" "0 \<le> MA" "0 \<le> MB"
    and "MA * MB * int N < 2 ^ 31"
  shows "\<exists>C'. matrix_mul_matrix N C A B = Some C' \<and> length C' = length C \<and>
     (\<forall>i < N. \<forall>j < N. sint (C' ! (i * N + j)) =
        (\<Sum>k<N. sint (A ! (i * N + k)) * sint (B ! (k * N + j))))"
  by (rule mul_matrix_exact [OF assms])

lemma matrix_product_exact_witness:
  "\<exists>C'. matrix_mul_matrix 2 [0, 0, 0, 0] [1, 2, 3, 4] [5, 6, 7, - 8] = Some C'
     \<and> length C' = length ([0, 0, 0, 0] :: s32 list) \<and>
     (\<forall>i < 2. \<forall>j < 2. sint (C' ! (i * 2 + j)) =
        (\<Sum>k<2. sint (([1, 2, 3, 4] :: s16 list) ! (i * 2 + k)) * sint (([5, 6, 7, - 8] :: s16 list) ! (k * 2 + j))))"
  by (rule matrix_product_exact [where MA = 4 and MB = 8]) simp_all

end
