(* ===== verification/CoreState.thy ===== *)
theory CoreState
  imports CoreCrc
begin

text \<open>
  The state-machine kernel of CoreMark, \<open>benchmarks/wasi/coremark/core_state.c\<close>: the
  scanner that classifies comma-separated tokens, the initialisation of its input and the
  benchmark pass that scans, corrupts, scans and repairs. The memory block is the list of
  its bytes; a pointer into it is the rest of the block from there, so a read through a
  pointer to the end of the block has no result.
\<close>

section \<open>The scanner\<close>

text \<open>[coremark/coremark.h 123-134 core_state_e]\<close>

datatype core_state = CORE_START | CORE_INVALID | CORE_S1 | CORE_S2
  | CORE_INT | CORE_FLOAT | CORE_EXPONENT | CORE_SCIENTIFIC

text \<open>[coremark/coremark.h 123-134 core_state_e] The values of the enumeration.\<close>

fun st_idx :: "core_state \<Rightarrow> nat" where
  "st_idx CORE_START = 0"
| "st_idx CORE_INVALID = 1"
| "st_idx CORE_S1 = 2"
| "st_idx CORE_S2 = 3"
| "st_idx CORE_INT = 4"
| "st_idx CORE_FLOAT = 5"
| "st_idx CORE_EXPONENT = 6"
| "st_idx CORE_SCIENTIFIC = 7"

text \<open>[coremark/core_state.c 69-69 core_bench_state] Count a state in an array indexed by the states.\<close>

definition bump :: "core_state \<Rightarrow> u32 list \<Rightarrow> u32 list" where
  "bump st cnt = cnt[st_idx st := cnt ! st_idx st + 1]"

text \<open>The byte of a character of a string literal.\<close>

definition chr_byte :: "char \<Rightarrow> u8" where
  "chr_byte c = of_nat (of_char c)"

abbreviation COMMA :: u8 where "COMMA \<equiv> 44"
abbreviation DOT :: u8 where "DOT \<equiv> 46"
abbreviation PLUS :: u8 where "PLUS \<equiv> 43"
abbreviation MINUS :: u8 where "MINUS \<equiv> 45"

text \<open>[coremark/core_state.c 197-203 ee_isdigit]\<close>

definition ee_isdigit :: "u8 \<Rightarrow> bool" where
  "ee_isdigit c \<longleftrightarrow> 48 \<le> c \<and> c \<le> 57"

text \<open>[coremark/core_state.c 230-325 core_state_transition] The switch on the state.\<close>

fun core_step :: "core_state \<Rightarrow> u8 \<Rightarrow> u32 list \<Rightarrow> core_state \<times> u32 list" where
  "core_step CORE_START c cnt =
     (let (st, cnt) =
        (if ee_isdigit c then (CORE_INT, cnt)
         else if c = PLUS \<or> c = MINUS then (CORE_S1, cnt)
         else if c = DOT then (CORE_FLOAT, cnt)
         else (CORE_INVALID, bump CORE_INVALID cnt))
      in (st, bump CORE_START cnt))"
| "core_step CORE_S1 c cnt =
     (if ee_isdigit c then (CORE_INT, bump CORE_S1 cnt)
      else if c = DOT then (CORE_FLOAT, bump CORE_S1 cnt)
      else (CORE_INVALID, bump CORE_S1 cnt))"
| "core_step CORE_INT c cnt =
     (if c = DOT then (CORE_FLOAT, bump CORE_INT cnt)
      else if \<not> ee_isdigit c then (CORE_INVALID, bump CORE_INT cnt)
      else (CORE_INT, cnt))"
| "core_step CORE_FLOAT c cnt =
     (if c = 69 \<or> c = 101 then (CORE_S2, bump CORE_FLOAT cnt)
      else if \<not> ee_isdigit c then (CORE_INVALID, bump CORE_FLOAT cnt)
      else (CORE_FLOAT, cnt))"
| "core_step CORE_S2 c cnt =
     (if c = PLUS \<or> c = MINUS then (CORE_EXPONENT, bump CORE_S2 cnt)
      else (CORE_INVALID, bump CORE_S2 cnt))"
| "core_step CORE_EXPONENT c cnt =
     (if ee_isdigit c then (CORE_SCIENTIFIC, bump CORE_EXPONENT cnt)
      else (CORE_INVALID, bump CORE_EXPONENT cnt))"
| "core_step CORE_SCIENTIFIC c cnt =
     (if \<not> ee_isdigit c then (CORE_INVALID, bump CORE_INVALID cnt)
      else (CORE_SCIENTIFIC, cnt))"
| "core_step CORE_INVALID c cnt = (CORE_INVALID, cnt)"

text \<open>
  [coremark/core_state.c 222-328 core_state_transition] The loop over the characters, from
  the state \<open>st\<close>: the state at the end, the pointer behind the token, the counters.
\<close>

fun scan_token :: "core_state \<Rightarrow> u8 list \<Rightarrow> u32 list \<Rightarrow> (core_state \<times> u8 list \<times> u32 list) option" where
  "scan_token st [] cnt = None"
| "scan_token st (c # str) cnt =
     (if c = 0 \<or> st = CORE_INVALID then Some (st, c # str, cnt)
      else if c = COMMA then Some (st, str, cnt)
      else let (st, cnt) = core_step st c cnt in scan_token st str cnt)"

text \<open>[coremark/core_state.c 216-330 core_state_transition]\<close>

definition core_state_transition :: "u8 list \<Rightarrow> u32 list \<Rightarrow> (core_state \<times> u8 list \<times> u32 list) option" where
  "core_state_transition instr cnt = scan_token CORE_START instr cnt"

lemma scan_token_shorter:
  "scan_token st str cnt = Some (st', rest, cnt') \<Longrightarrow> length rest \<le> length str"
  by (induction st str cnt rule: scan_token.induct)
    (auto split: if_splits prod.splits intro: le_SucI)

lemma transition_shorter:
  "core_state_transition (c # str) cnt = Some (st, rest, cnt') \<Longrightarrow> c \<noteq> 0 \<Longrightarrow>
     length rest < length (c # str)"
  by (auto simp: core_state_transition_def split: if_splits prod.splits dest: scan_token_shorter)

section \<open>The benchmark pass\<close>

text \<open>[coremark/core_state.c 66-75 core_bench_state] One scan of the whole input.\<close>

function scan_input :: "u8 list \<Rightarrow> u32 list \<Rightarrow> u32 list \<Rightarrow> (u32 list \<times> u32 list) option" where
  "scan_input [] final track = None"
| "scan_input (c # str) final track =
     (if c = 0 then Some (final, track)
      else case core_state_transition (c # str) track of
             None \<Rightarrow> None
           | Some (fstate, p, track) \<Rightarrow> scan_input p (bump fstate final) track)"
  by pat_completeness auto
termination
  by (relation "measure (\<lambda>(p, _, _). length p)") (auto dest: transition_shorter)

text \<open>
  [coremark/core_state.c 78-83 core_bench_state] The corruption loop from offset \<open>i\<close>. A
  step that is not positive either loops for ever or leaves the block: no result.
\<close>

function corrupt :: "nat \<Rightarrow> s16 \<Rightarrow> s16 \<Rightarrow> nat \<Rightarrow> u8 list \<Rightarrow> u8 list option" where
  "corrupt blksize seed step i mem =
     (if i < blksize
      then do { b \<leftarrow> aget mem i;
                mem \<leftarrow> aput mem i (if b \<noteq> COMMA then b XOR ucast seed else b);
                if 0 <s step then corrupt blksize seed step (i + nat (sint step)) mem else None }
      else Some mem)"
  by pat_completeness auto
termination
  by (relation "measure (\<lambda>(n, _, _, i, _). n - i)") (auto simp: word_sless_alt)

declare corrupt.simps [simp del]

text \<open>[coremark/core_state.c 45-111 core_bench_state] The CRC and the block at the end.\<close>

definition core_bench_state ::
    "nat \<Rightarrow> u8 list \<Rightarrow> s16 \<Rightarrow> s16 \<Rightarrow> s16 \<Rightarrow> u16 \<Rightarrow> (u16 \<times> u8 list) option" where
  "core_bench_state blksize memblock seed1 seed2 step crc =
     do { let final_counts = replicate 8 0; 
          let track_counts = replicate 8 0;
          (final_counts, track_counts) \<leftarrow> scan_input memblock final_counts track_counts;
          memblock \<leftarrow> corrupt blksize seed1 step 0 memblock;
          (final_counts, track_counts) \<leftarrow> scan_input memblock final_counts track_counts;
          memblock \<leftarrow> corrupt blksize seed2 step 0 memblock;
          let crc = fold (\<lambda>i crc. crcu32 (track_counts ! i) (crcu32 (final_counts ! i) crc)) [0..<8] crc;
          Some (crc, memblock) }"

section \<open>The input\<close>

text \<open>[coremark/core_state.c 114-115 intpat]\<close>

definition intpat :: "string list" where
  "intpat = [''5012'', ''1234'', ''-874'', ''+122'']"

text \<open>[coremark/core_state.c 116-119 floatpat]\<close>

definition floatpat :: "string list" where
  "floatpat = [''35.54400'', ''.1234500'', ''-110.700'', ''+0.64400'']"

text \<open>[coremark/core_state.c 120-123 scipat]\<close>

definition scipat :: "string list" where
  "scipat = [''5.500e+3'', ''-.123e-2'', ''-87e+832'', ''+0.6e-12'']"

text \<open>[coremark/core_state.c 124-127 errpat]\<close>

definition errpat :: "string list" where
  "errpat = [''T0.3e-1F'', ''-T.T++Tq'', ''1T3.4e4z'', ''34.0e-T^'']"

text \<open>[coremark/core_state.c 161-184 core_init_state] The pattern a seed selects, and its \<open>next\<close>.\<close>

definition pick_pattern :: "s16 \<Rightarrow> u8 list \<times> nat" where
  "pick_pattern seed =
     (let k = unat (seed AND 0x7); j = unat (signed_drop_bit 3 seed AND 0x3)
      in if k \<le> 2 then (map chr_byte (intpat ! j), 4)
         else if k \<le> 4 then (map chr_byte (floatpat ! j), 8)
         else if k \<le> 6 then (map chr_byte (scipat ! j), 8)
         else (map chr_byte (errpat ! j), 8))"

text \<open>[coremark/core_state.c 153-159 core_init_state] Store a pattern and a comma.\<close>

definition store_pattern :: "nat \<Rightarrow> nat \<Rightarrow> u8 list \<Rightarrow> u8 list \<Rightarrow> u8 list option" where
  "store_pattern tot nxt buf p =
     do { p \<leftarrow> for_in [0..<nxt] (\<lambda>i p. do { b \<leftarrow> aget buf i; aput p (tot + i) b }) p;
          aput p (tot + nxt) COMMA }"

lemma pick_pattern_next: "snd (pick_pattern seed) \<in> {4, 8}"
  by (simp add: pick_pattern_def Let_def)

text \<open>[coremark/core_state.c 151-185 core_init_state] The loop; \<open>sz\<close> is already decremented.\<close>

function init_loop ::
    "nat \<Rightarrow> nat \<Rightarrow> nat \<Rightarrow> u8 list \<Rightarrow> s16 \<Rightarrow> u8 list \<Rightarrow> (nat \<times> u8 list) option" where
  "init_loop sz tot nxt buf seed p =
     (if tot + nxt + 1 < sz
      then do { (p, tot) \<leftarrow>
                  (if nxt > 0 then do { p \<leftarrow> store_pattern tot nxt buf p; Some (p, tot + nxt + 1) }
                   else Some (p, tot));
                let seed = seed + 1; 
                let (buf, nxt) = pick_pattern seed;
                init_loop sz tot nxt buf seed p }
      else Some (tot, p))"
  by pat_completeness auto
termination
proof (relation "measure (\<lambda>(sz, tot, nxt, _). 2 * (sz - tot) + (if nxt = 0 then 1 else 0))", goal_cases)
  case (2 sz tot nxt buf seed p x p' tot' seed' y buf' nxt')
  then show ?case
    using pick_pattern_next [of "seed + 1"]
    by (cases "pick_pattern (seed + 1)") (auto split: if_splits bind_splits)
qed simp

declare init_loop.simps [simp del]

text \<open>[coremark/core_state.c 139-195 core_init_state] \<open>sz\<close> is a 32-bit unsigned integer.\<close>

definition core_init_state :: "nat \<Rightarrow> s16 \<Rightarrow> u8 list \<Rightarrow> u8 list option" where
  "core_init_state sz seed p =
     do { let sz' = (if sz = 0 then 2 ^ 32 - 1 else sz - 1);
          (tot, p) \<leftarrow> init_loop sz' 0 0 [] seed p;
          for_in [tot..<sz] (\<lambda>i p. aput p i 0) p }"

section \<open>What the scanner recognises\<close>

definition digits :: "u8 list \<Rightarrow> bool" where
  "digits w \<longleftrightarrow> (\<forall>c \<in> set w. ee_isdigit c)"

definition optsign :: "u8 list \<Rightarrow> bool" where
  "optsign s \<longleftrightarrow> s = [] \<or> s = [PLUS] \<or> s = [MINUS]"

definition is_int :: "u8 list \<Rightarrow> bool" where
  "is_int w \<longleftrightarrow> (\<exists>s ds. w = s @ ds \<and> optsign s \<and> ds \<noteq> [] \<and> digits ds)"

definition is_float :: "u8 list \<Rightarrow> bool" where
  "is_float w \<longleftrightarrow> (\<exists>s ds fs. w = s @ ds @ DOT # fs \<and> optsign s \<and> digits ds \<and> digits fs)"

definition is_mantissa :: "u8 list \<Rightarrow> bool" where
  "is_mantissa w \<longleftrightarrow> (\<exists>m e. w = m @ [e] \<and> is_float m \<and> (e = 69 \<or> e = 101))"

definition is_expsign :: "u8 list \<Rightarrow> bool" where
  "is_expsign w \<longleftrightarrow> (\<exists>m s. w = m @ [s] \<and> is_mantissa m \<and> (s = PLUS \<or> s = MINUS))"

definition is_scientific :: "u8 list \<Rightarrow> bool" where
  "is_scientific w \<longleftrightarrow> (\<exists>m ds. w = m @ ds \<and> is_expsign m \<and> ds \<noteq> [] \<and> digits ds)"

text \<open>The format of a token, by the state the scanner should end in.\<close>

fun format :: "core_state \<Rightarrow> u8 list \<Rightarrow> bool" where
  "format CORE_START w \<longleftrightarrow> w = []"
| "format CORE_S1 w \<longleftrightarrow> w = [PLUS] \<or> w = [MINUS]"
| "format CORE_INT w \<longleftrightarrow> is_int w"
| "format CORE_FLOAT w \<longleftrightarrow> is_float w"
| "format CORE_S2 w \<longleftrightarrow> is_mantissa w"
| "format CORE_EXPONENT w \<longleftrightarrow> is_expsign w"
| "format CORE_SCIENTIFIC w \<longleftrightarrow> is_scientific w"
| "format CORE_INVALID w \<longleftrightarrow>
     \<not> (w = [] \<or> w = [PLUS] \<or> w = [MINUS] \<or> is_int w \<or> is_float w \<or> is_mantissa w
        \<or> is_expsign w \<or> is_scientific w)"

definition nstate :: "core_state \<Rightarrow> u8 \<Rightarrow> core_state" where
  "nstate st c = fst (core_step st c [])"

lemma fst_core_step [simp]: "fst (core_step st c cnt) = nstate st c"
  by (cases st) (auto simp: nstate_def Let_def)

lemma nstate_simps [simp]:
  "nstate CORE_START c = (if ee_isdigit c then CORE_INT else if c = PLUS \<or> c = MINUS then CORE_S1
     else if c = DOT then CORE_FLOAT else CORE_INVALID)"
  "nstate CORE_S1 c = (if ee_isdigit c then CORE_INT else if c = DOT then CORE_FLOAT else CORE_INVALID)"
  "nstate CORE_INT c = (if c = DOT then CORE_FLOAT else if \<not> ee_isdigit c then CORE_INVALID else CORE_INT)"
  "nstate CORE_FLOAT c = (if c = 69 \<or> c = 101 then CORE_S2
     else if \<not> ee_isdigit c then CORE_INVALID else CORE_FLOAT)"
  "nstate CORE_S2 c = (if c = PLUS \<or> c = MINUS then CORE_EXPONENT else CORE_INVALID)"
  "nstate CORE_EXPONENT c = (if ee_isdigit c then CORE_SCIENTIFIC else CORE_INVALID)"
  "nstate CORE_SCIENTIFIC c = (if ee_isdigit c then CORE_SCIENTIFIC else CORE_INVALID)"
  "nstate CORE_INVALID c = CORE_INVALID"
  by (auto simp: nstate_def Let_def)

text \<open>The state after the characters \<open>w\<close>.\<close>

definition run_states :: "core_state \<Rightarrow> u8 list \<Rightarrow> core_state" where
  "run_states st w = foldl nstate st w"

lemma run_states_simps [simp]:
  "run_states st [] = st"
  "run_states st (c # w) = run_states (nstate st c) w"
  "run_states st (v @ w) = run_states (run_states st v) w"
  by (simp_all add: run_states_def)

lemma not_digit [simp]:
  "\<not> ee_isdigit DOT" "\<not> ee_isdigit PLUS" "\<not> ee_isdigit MINUS" "\<not> ee_isdigit 69" "\<not> ee_isdigit 101"
  by (simp_all add: ee_isdigit_def)

lemma digits_simps [simp]:
  "digits []" "digits (c # w) \<longleftrightarrow> ee_isdigit c \<and> digits w" "digits (v @ w) \<longleftrightarrow> digits v \<and> digits w"
  by (auto simp: digits_def)

lemma digit_neq [simp]:
  "ee_isdigit c \<Longrightarrow> c \<noteq> DOT \<and> c \<noteq> PLUS \<and> c \<noteq> MINUS \<and> c \<noteq> 69 \<and> c \<noteq> 101"
  by (auto simp: ee_isdigit_def)

lemma run_digits:
  "digits ds \<Longrightarrow> run_states CORE_INT ds = CORE_INT"
  "digits ds \<Longrightarrow> run_states CORE_FLOAT ds = CORE_FLOAT"
  "digits ds \<Longrightarrow> run_states CORE_SCIENTIFIC ds = CORE_SCIENTIFIC"
  by (induction ds) auto

lemma run_int: "is_int w \<Longrightarrow> run_states CORE_START w = CORE_INT"
  by (auto simp: is_int_def optsign_def neq_Nil_conv run_digits)

lemma run_float: "is_float w \<Longrightarrow> run_states CORE_START w = CORE_FLOAT"
proof -
  assume "is_float w"
  then obtain s ds fs where w: "w = s @ ds @ DOT # fs" "optsign s" "digits ds" "digits fs"
    by (auto simp: is_float_def)
  have "run_states (run_states CORE_START s) (ds @ [DOT]) = CORE_FLOAT"
    using w(2,3) by (cases ds) (auto simp: optsign_def run_digits)
  with w show ?thesis by (simp add: run_digits)
qed

lemma run_mantissa: "is_mantissa w \<Longrightarrow> run_states CORE_START w = CORE_S2"
  by (auto simp: is_mantissa_def run_float)

lemma run_expsign: "is_expsign w \<Longrightarrow> run_states CORE_START w = CORE_EXPONENT"
  by (auto simp: is_expsign_def run_mantissa)

lemma run_scientific: "is_scientific w \<Longrightarrow> run_states CORE_START w = CORE_SCIENTIFIC"
  by (auto simp: is_scientific_def run_expsign neq_Nil_conv run_digits)

lemmas run_formats = run_int run_float run_mantissa run_expsign run_scientific

lemma run_format: "format q w \<Longrightarrow> q \<noteq> CORE_INVALID \<Longrightarrow> run_states CORE_START w = q"
  by (cases q) (auto simp: run_formats)

text \<open>Each step keeps the format: the characters read so far have the format of the state.\<close>

lemma int_snoc: "is_int w \<Longrightarrow> ee_isdigit c \<Longrightarrow> is_int (w @ [c])"
  unfolding is_int_def by (elim exE conjE) (rule exI, rule exI [of _ "_ @ [c]"], auto)

lemma int_dot: "is_int w \<Longrightarrow> is_float (w @ [DOT])"
  unfolding is_int_def is_float_def by (fastforce intro: exI [of _ "[] :: u8 list"])

lemma float_snoc: "is_float w \<Longrightarrow> ee_isdigit c \<Longrightarrow> is_float (w @ [c])"
  unfolding is_float_def by (elim exE conjE) (rule exI, rule exI, rule exI [of _ "_ @ [c]"], auto)

lemma scientific_snoc: "is_scientific w \<Longrightarrow> ee_isdigit c \<Longrightarrow> is_scientific (w @ [c])"
  unfolding is_scientific_def by (elim exE conjE) (rule exI, rule exI [of _ "_ @ [c]"], auto)

lemma int_start: "ee_isdigit c \<Longrightarrow> optsign s \<Longrightarrow> is_int (s @ [c])"
  unfolding is_int_def by (intro exI [of _ s] exI [of _ "[c]"]) simp

lemma scientific_start: "is_expsign w \<Longrightarrow> ee_isdigit c \<Longrightarrow> is_scientific (w @ [c])"
  unfolding is_scientific_def by (intro exI [of _ w] exI [of _ "[c]"]) simp

lemma float_start: "optsign s \<Longrightarrow> is_float (s @ [DOT])"
  unfolding is_float_def by (metis append_Nil digits_simps(1))

lemma format_step:
  assumes "format q w" "nstate q c \<noteq> CORE_INVALID"
  shows "format (nstate q c) (w @ [c])"
proof (cases q)
  case CORE_START
  then show ?thesis
    using assms int_start [of c "[]"] float_start [of "[]"]
    by (auto simp: optsign_def split: if_splits)
next
  case CORE_S1
  then show ?thesis
    using assms int_start [of c w] float_start [of w]
    by (auto simp: optsign_def split: if_splits)
next
  case CORE_INT
  then show ?thesis using assms by (auto simp: int_snoc int_dot split: if_splits)
next
  case CORE_FLOAT
  then show ?thesis using assms by (auto simp: float_snoc is_mantissa_def split: if_splits)
next
  case CORE_S2
  then show ?thesis using assms by (auto simp: is_expsign_def split: if_splits)
next
  case CORE_EXPONENT
  then show ?thesis
    using assms by (auto simp: scientific_start split: if_splits)
next
  case CORE_SCIENTIFIC
  then show ?thesis using assms by (auto simp: scientific_snoc split: if_splits)
qed (use assms in simp)

lemma format_run: "run_states CORE_START w \<noteq> CORE_INVALID \<Longrightarrow> format (run_states CORE_START w) w"
proof (induction w rule: rev_induct)
  case (snoc c w)
  then have "run_states CORE_START w \<noteq> CORE_INVALID" by auto
  with snoc format_step show ?case by simp
qed simp

lemma run_states_format: "run_states CORE_START w = q \<longleftrightarrow> format q w"
proof (cases "q = CORE_INVALID")
  case True
  have "format CORE_INVALID w \<longleftrightarrow> \<not> (\<exists>q. q \<noteq> CORE_INVALID \<and> format q w)"
  proof
    assume "format CORE_INVALID w"
    then have "\<not> format q w" if "q \<noteq> CORE_INVALID" for q using that by (cases q) auto
    then show "\<not> (\<exists>q. q \<noteq> CORE_INVALID \<and> format q w)" by blast
  next
    assume none: "\<not> (\<exists>q. q \<noteq> CORE_INVALID \<and> format q w)"
    have "\<not> format q w" if "q \<noteq> CORE_INVALID" for q using none that by blast
    from this [of CORE_START] this [of CORE_S1] this [of CORE_INT] this [of CORE_FLOAT]
      this [of CORE_S2] this [of CORE_EXPONENT] this [of CORE_SCIENTIFIC]
    show "format CORE_INVALID w" by auto
  qed
  then show ?thesis using True format_run run_format by metis
next
  case False
  then show ?thesis using format_run run_format by metis
qed

section \<open>What a call of the scanner returns\<close>

lemma scan_token_invalid: "scan_token CORE_INVALID (c # str) cnt = Some (CORE_INVALID, c # str, cnt)"
  by simp

lemma run_invalid [simp]: "run_states CORE_INVALID w = CORE_INVALID"
  by (induction w) simp_all

text \<open>The token is \<open>w\<close>; behind it comes a comma or the end of the input.\<close>

lemma scan_token_result:
  assumes "\<forall>c \<in> set w. c \<noteq> 0 \<and> c \<noteq> COMMA" "e = COMMA \<or> e = 0"
  shows "\<exists>rest cnt'. scan_token st (w @ e # str) cnt = Some (run_states st w, rest, cnt')
     \<and> (run_states st w \<noteq> CORE_INVALID \<longrightarrow> rest = (if e = COMMA then str else e # str))"
  using assms(1)
proof (induction w arbitrary: st cnt)
  case Nil
  then show ?case using assms(2) by auto
next
  case (Cons c w)
  show ?case
  proof (cases "st = CORE_INVALID")
    case False
    obtain cnt1 where step: "core_step st c cnt = (nstate st c, cnt1)"
      by (metis fst_core_step prod.collapse)
    have "\<exists>rest cnt'. scan_token (nstate st c) (w @ e # str) cnt1
        = Some (run_states (nstate st c) w, rest, cnt')
        \<and> (run_states (nstate st c) w \<noteq> CORE_INVALID \<longrightarrow> rest = (if e = COMMA then str else e # str))"
      using Cons by simp
    with Cons.prems False step show ?thesis by simp
  qed simp
qed

section \<open>Scanning stays inside the block\<close>

lemma scan_token_safe:
  "0 \<in> set str \<Longrightarrow> \<exists>st' rest cnt'. scan_token st str cnt = Some (st', rest, cnt') \<and> 0 \<in> set rest"
  by (induction st str cnt rule: scan_token.induct) (auto split: prod.splits)

lemma scan_input_safe:
  "0 \<in> set str \<Longrightarrow> \<exists>final' track'. scan_input str final track = Some (final', track')"
proof (induction str final track rule: scan_input.induct)
  case (2 c str final track)
  show ?case
  proof (cases "c = 0")
    case False
    obtain q p track' where r: "core_state_transition (c # str) track = Some (q, p, track')" "0 \<in> set p"
      using scan_token_safe [OF 2(2)] unfolding core_state_transition_def by blast
    with 2(1) [OF False r(1) refl refl] False show ?thesis by simp
  qed simp
qed simp

section \<open>Corruption and repair\<close>

definition flip :: "s16 \<Rightarrow> u8 \<Rightarrow> u8" where
  "flip seed b = (if b \<noteq> COMMA then b XOR ucast seed else b)"

lemma corrupt_eq:
  assumes "0 <s step" "blksize \<le> length mem"
  shows "corrupt blksize seed step i mem
     = Some (map (\<lambda>k. if k < blksize \<and> i \<le> k \<and> (k - i) mod nat (sint step) = 0
                      then flip seed (mem ! k) else mem ! k) [0..<length mem])"
  using assms
proof (induction blksize seed step i mem rule: corrupt.induct)
  case (1 blksize seed step i mem)
  let ?d = "nat (sint step)"
  have d: "0 < ?d" using 1(2) by (simp add: word_sless_alt)
  show ?case
  proof (cases "i < blksize")
    case False
    then have "map (\<lambda>k. if k < blksize \<and> i \<le> k \<and> (k - i) mod ?d = 0
          then flip seed (mem ! k) else mem ! k) [0..<length mem] = mem"
      by (intro nth_equalityI) auto
    with False show ?thesis by (subst corrupt.simps) simp
  next
    case True
    let ?m = "mem[i := flip seed (mem ! i)]"
    have idx: "(i \<le> k \<and> (k - i) mod ?d = 0) \<longleftrightarrow> k = i \<or> (i + ?d \<le> k \<and> (k - (i + ?d)) mod ?d = 0)" for k
    proof (cases "i + ?d \<le> k")
      case True
      then obtain r where "k = i + ?d + r" using le_Suc_ex by blast
      then show ?thesis using d by simp
    next
      case False
      then have "k - i < ?d" if "i \<le> k" using that by simp
      then show ?thesis using False by auto
    qed
    have "corrupt blksize seed step (i + ?d) ?m
        = Some (map (\<lambda>k. if k < blksize \<and> i + ?d \<le> k \<and> (k - (i + ?d)) mod ?d = 0
            then flip seed (?m ! k) else ?m ! k) [0..<length ?m])"
      using 1 True by (simp add: flip_def)
    also have "map (\<lambda>k. if k < blksize \<and> i + ?d \<le> k \<and> (k - (i + ?d)) mod ?d = 0
            then flip seed (?m ! k) else ?m ! k) [0..<length ?m]
        = map (\<lambda>k. if k < blksize \<and> i \<le> k \<and> (k - i) mod ?d = 0
                   then flip seed (mem ! k) else mem ! k) [0..<length mem]"
      using True d 1(3) by (intro nth_equalityI) (auto simp: idx nth_list_update)
    finally show ?thesis
      using True 1(2,3) by (subst corrupt.simps) (simp add: flip_def)
  qed
qed

lemma nth_corrupt:
  assumes "0 <s step" "blksize \<le> length mem" "corrupt blksize seed step 0 mem = Some mem'"
  shows "length mem' = length mem" "k < length mem \<Longrightarrow>
     mem' ! k = (if k < blksize \<and> k mod nat (sint step) = 0 then flip seed (mem ! k) else mem ! k)"
  using assms by (auto simp: corrupt_eq)

lemma flip_flip: "flip seed (flip seed b) = b \<longleftrightarrow> b = COMMA \<or> b XOR ucast seed \<noteq> COMMA"
proof -
  have "(b XOR ucast seed) XOR ucast seed = b" by (simp add: xor.assoc)
  then show ?thesis by (auto simp: flip_def)
qed

text \<open>The bytes the two passes sample are the multiples of \<open>step\<close>.\<close>

definition repairable :: "nat \<Rightarrow> nat \<Rightarrow> s16 \<Rightarrow> u8 list \<Rightarrow> bool" where
  "repairable blksize step seed p \<longleftrightarrow>
     (\<forall>k < blksize. k mod step = 0 \<longrightarrow> p ! k = COMMA \<or> p ! k XOR ucast seed \<noteq> COMMA)"

lemma bench_state_block:
  assumes "core_bench_state blksize p seed seed step crc = Some (crc', p')"
    and "0 <s step" "blksize \<le> length p"
  shows "p' = p \<longleftrightarrow> repairable blksize (nat (sint step)) seed p"
proof -
  let ?d = "nat (sint step)"
  obtain m where m: "corrupt blksize seed step 0 p = Some m" "corrupt blksize seed step 0 m = Some p'"
    using assms(1) by (auto simp: core_bench_state_def Let_def split: bind_splits prod.splits)
  have len: "length m = length p" "length p' = length p"
    using nth_corrupt(1) [OF assms(2,3) m(1)] nth_corrupt(1) [OF assms(2) _ m(2)] assms(3) by auto
  have eq: "p' ! k = (if k < blksize \<and> k mod ?d = 0 then flip seed (flip seed (p ! k)) else p ! k)"
    if "k < length p" for k
    using nth_corrupt(2) [OF assms(2,3) m(1)] nth_corrupt(2) [OF assms(2) _ m(2)] that len assms(3) by simp
  have "p' = p \<longleftrightarrow> (\<forall>k < length p. p' ! k = p ! k)"
    using len by (auto simp: list_eq_iff_nth_eq)
  also have "\<dots> \<longleftrightarrow> (\<forall>k < blksize. k mod ?d = 0 \<longrightarrow> flip seed (flip seed (p ! k)) = p ! k)"
    using eq assms(3) by auto
  finally show ?thesis by (simp add: repairable_def flip_flip)
qed

section \<open>The input block\<close>

definition pattern_bytes :: "u8 list" where
  "pattern_bytes = COMMA # map chr_byte (concat (intpat @ floatpat @ scipat @ errpat))"

lemma three_bits: "unat ((w :: s16) AND 3) < 4"
proof -
  have "w AND 3 = take_bit 2 w" by (simp add: take_bit_eq_mask mask_eq_exp_minus_1)
  then show ?thesis using take_bit_nat_less_exp [of 2 "unat w"] by (simp add: unsigned_take_bit_eq)
qed

lemma less_4: "j < 4 \<longleftrightarrow> j = 0 \<or> j = 1 \<or> j = 2 \<or> j = (3 :: nat)"
  by auto

lemma pick_pattern_ok:
  "pick_pattern seed = (buf, nxt) \<Longrightarrow> length buf = nxt \<and> 0 < nxt \<and> set buf \<subseteq> set pattern_bytes"
  using three_bits [of "signed_drop_bit 3 seed"] unfolding less_4
  by (auto simp: pick_pattern_def Let_def intpat_def floatpat_def scipat_def errpat_def
      pattern_bytes_def split: if_splits)

lemma store_pattern_eq:
  assumes "length buf = nxt" "tot + nxt < length p"
  shows "store_pattern tot nxt buf p = Some (take tot p @ buf @ COMMA # drop (tot + nxt + 1) p)"
proof -
  have "for_in [0..<nxt] (\<lambda>i p. do { b \<leftarrow> aget buf i; aput p (tot + i) b }) p
      = for_in (map (\<lambda>i. i + tot) [0..<nxt]) (\<lambda>k p. aput p k (buf ! (k - tot))) p"
    unfolding for_in_map using assms(1) by (intro for_in_cong) (auto simp: add.commute)
  also have "map (\<lambda>i. i + tot) [0..<nxt] = [tot..<tot + nxt]"
    by (simp add: map_add_upt add.commute)
  also have "for_in [tot..<tot + nxt] (\<lambda>k p. aput p k (buf ! (k - tot))) p
      = Some (take tot p @ map (\<lambda>k. buf ! (k - tot)) [tot..<tot + nxt] @ drop (tot + nxt) p)"
    using assms(2) by (intro for_in_aput_range) auto
  also have "map (\<lambda>k. buf ! (k - tot)) [tot..<tot + nxt] = buf"
    using assms(1) by (intro nth_equalityI) auto
  finally show ?thesis
    using assms by (simp add: store_pattern_def list_update_append Cons_nth_drop_Suc [symmetric])
qed

lemma init_loop_ok:
  assumes "length buf = nxt" "set buf \<subseteq> set pattern_bytes" "sz < length p"
    and "set (take tot p) \<subseteq> set pattern_bytes" "tot = 0 \<or> tot < sz"
  shows "\<exists>tot' p'. init_loop sz tot nxt buf seed p = Some (tot', p') \<and> length p' = length p
     \<and> set (take tot' p') \<subseteq> set pattern_bytes \<and> (tot' = 0 \<or> tot' < sz)"
  using assms
proof (induction "2 * (sz - tot) + (if nxt = 0 then 1 else 0)" arbitrary: tot nxt buf seed p rule: less_induct)
  case less
  show ?case
  proof (cases "tot + nxt + 1 < sz")
    case False
    with less.prems show ?thesis by (subst init_loop.simps) simp
  next
    case True
    obtain buf' nxt' where pick: "pick_pattern (seed + 1) = (buf', nxt')" by fastforce
    note ok = pick_pattern_ok [OF pick]
    show ?thesis
    proof (cases "nxt = 0")
      case True
      have "\<exists>tot' p'. init_loop sz tot nxt' buf' (seed + 1) p = Some (tot', p') \<and> length p' = length p
         \<and> set (take tot' p') \<subseteq> set pattern_bytes \<and> (tot' = 0 \<or> tot' < sz)"
        using less.prems True ok by (intro less.hyps) auto
      with True \<open>tot + nxt + 1 < sz\<close> pick show ?thesis
        by (subst init_loop.simps) (simp add: Let_def)
    next
      case False
      let ?p = "take tot p @ buf @ COMMA # drop (tot + nxt + 1) p"
      have store: "store_pattern tot nxt buf p = Some ?p"
        using less.prems(1,3) True by (intro store_pattern_eq) auto
      have "length ?p = length p" using less.prems(1,3) True by simp
      moreover have "take (tot + nxt + 1) ?p = take tot p @ buf @ [COMMA]"
        using less.prems(1,3) True by simp
      then have "set (take (tot + nxt + 1) ?p) \<subseteq> set pattern_bytes"
        using less.prems(2,4) by (simp add: pattern_bytes_def)
      ultimately have "\<exists>tot' p'. init_loop sz (tot + nxt + 1) nxt' buf' (seed + 1) ?p = Some (tot', p')
         \<and> length p' = length ?p \<and> set (take tot' p') \<subseteq> set pattern_bytes \<and> (tot' = 0 \<or> tot' < sz)"
        using less.prems(3) True False ok by (intro less.hyps) auto
      then have "\<exists>tot' p'. init_loop sz (tot + nxt + 1) nxt' buf' (seed + 1) ?p = Some (tot', p')
         \<and> length p' = length p \<and> set (take tot' p') \<subseteq> set pattern_bytes \<and> (tot' = 0 \<or> tot' < sz)"
        unfolding \<open>length ?p = length p\<close> .
      with True False store pick show ?thesis
        by (subst init_loop.simps) (simp add: Let_def)
    qed
  qed
qed

text \<open>A block as \<open>core_init_state\<close> leaves it: pattern bytes, then at least two zeros.\<close>

definition input_block :: "nat \<Rightarrow> u8 list \<Rightarrow> bool" where
  "input_block sz p \<longleftrightarrow> length p = sz \<and>
     (\<exists>tot. tot + 2 \<le> sz \<and> set (take tot p) \<subseteq> set pattern_bytes
        \<and> (\<forall>k. tot \<le> k \<and> k < sz \<longrightarrow> p ! k = 0))"

lemma core_init_state_ok:
  assumes "2 \<le> sz" "length p = sz"
  shows "\<exists>p'. core_init_state sz seed p = Some p' \<and> input_block sz p'"
proof -
  obtain tot p1 where 1: "init_loop (sz - 1) 0 0 [] seed p = Some (tot, p1)" "length p1 = sz"
      "set (take tot p1) \<subseteq> set pattern_bytes" "tot = 0 \<or> tot < sz - 1"
    using init_loop_ok [of "[]" 0 "sz - 1" p 0 seed] assms by auto
  let ?p = "take tot p1 @ map (\<lambda>_. 0) [tot..<sz] @ drop sz p1"
  have "for_in [tot..<sz] (\<lambda>i p. aput p i 0) p1 = Some ?p"
    using 1 assms by (intro for_in_aput_range) auto
  moreover have "input_block sz ?p"
    using 1 assms unfolding input_block_def
    by (intro conjI exI [of _ tot]) (auto simp: nth_append)
  ultimately show ?thesis
    using 1 assms by (simp add: core_init_state_def Let_def)
qed

text \<open>
  One of the two zeros at the end survives the corruption when the step is at least two, so
  the second scan ends inside the block as well.
\<close>

lemma core_bench_state_runs:
  assumes "input_block sz p" "2 \<le> sint step"
  shows "\<exists>crc' p'. core_bench_state sz p seed1 seed2 step crc = Some (crc', p') \<and> length p' = length p"
proof -
  let ?d = "nat (sint step)"
  have step: "0 <s step" using assms(2) by (simp add: word_sless_alt)
  obtain tot where p: "length p = sz" "tot + 2 \<le> sz" "\<And>k. tot \<le> k \<Longrightarrow> k < sz \<Longrightarrow> p ! k = 0"
    using assms(1) by (auto simp: input_block_def)
  obtain m where m: "corrupt sz seed1 step 0 p = Some m"
    using step p(1) by (simp add: corrupt_eq)
  note m' = nth_corrupt [OF step _ m]
  obtain m2 where m2: "corrupt sz seed2 step 0 m = Some m2" "length m2 = sz"
    using step p(1) m'(1) by (simp add: corrupt_eq)
  have "Suc (sz - 2) = sz - 1" using p(2) by simp
  then have "(sz - 2) mod ?d \<noteq> 0 \<or> (sz - 1) mod ?d \<noteq> 0"
    using assms(2) mod_Suc [of "sz - 2" ?d] by auto
  moreover have "sz - 2 < sz" "tot \<le> sz - 2" "sz - 1 < sz" "tot \<le> sz - 1" using p(2) by simp_all
  ultimately obtain k where k: "k < sz" "tot \<le> k" "k mod ?d \<noteq> 0" by metis
  then have "m ! k = 0" using m'(2) [of k] p by simp
  then have "0 \<in> set m" using k(1) m'(1) p(1) nth_mem [of k m] by simp
  then obtain f1 t1 f2 t2 where
    scans: "scan_input p (replicate 8 0) (replicate 8 0) = Some (f1, t1)" "scan_input m f1 t1 = Some (f2, t2)"
    using scan_input_safe [of p] scan_input_safe [of m] p nth_mem [of "sz - 1" p]
      \<open>tot \<le> sz - 1\<close> \<open>sz - 1 < sz\<close> by metis
  show ?thesis
    using scans m m2 p(1) by (simp add: core_bench_state_def Let_def)
qed

section \<open>Which seeds are harmless\<close>

text \<open>A seed that turns no byte an input block can hold into a comma.\<close>

definition harmless :: "s16 \<Rightarrow> bool" where
  "harmless seed \<longleftrightarrow> (\<forall>b \<in> set (0 # pattern_bytes). b = COMMA \<or> b XOR ucast seed \<noteq> COMMA)"

lemma harmless_repairable:
  assumes "input_block sz p" "harmless seed"
  shows "repairable sz d seed p"
  unfolding repairable_def
proof (intro allI impI)
  fix k
  assume k: "k < sz"
  obtain tot where p: "length p = sz" "set (take tot p) \<subseteq> set pattern_bytes"
      "\<And>k. tot \<le> k \<Longrightarrow> k < sz \<Longrightarrow> p ! k = 0"
    using assms(1) by (auto simp: input_block_def)
  have "p ! k \<in> set (0 # pattern_bytes)"
  proof (cases "k < tot")
    case True
    then have "p ! k \<in> set (take tot p)" using k p(1) by (auto simp: in_set_conv_nth)
    then show ?thesis using p(2) by auto
  qed (use k p(3) in simp)
  then show "p ! k = COMMA \<or> p ! k XOR ucast seed \<noteq> COMMA"
    using assms(2) by (simp only: harmless_def)
qed

lemma standard_seeds_harmless: "harmless 0" "harmless 0x3415" "harmless 8"
  by code_simp+

section \<open>Properties\<close>

text \<open>
  C9: the scanner classifies tokens: on a token that a comma or the zero byte ends, the
  call of \<open>core_state_transition\<close> ends in the state of the token's format (integer, float,
  scientific, a prefix of one of them, or none), and unless the token is invalid the
  pointer is behind the comma, or on the zero.
\<close>

theorem transition_classifies:
  assumes "\<forall>c \<in> set w. c \<noteq> 0 \<and> c \<noteq> COMMA" "e = COMMA \<or> e = 0"
  shows "\<exists>q rest cnt'. core_state_transition (w @ e # str) cnt = Some (q, rest, cnt') \<and> format q w
     \<and> (q \<noteq> CORE_INVALID \<longrightarrow> rest = (if e = COMMA then str else e # str))"
  using scan_token_result [OF assms, of CORE_START str cnt] run_states_format [of w]
  unfolding core_state_transition_def by metis

lemma transition_classifies_witness:
  "\<exists>q rest cnt'. core_state_transition (map chr_byte ''-.123e-2'' @ COMMA # [0]) (replicate 8 0)
      = Some (q, rest, cnt') \<and> format q (map chr_byte ''-.123e-2'')
     \<and> (q \<noteq> CORE_INVALID \<longrightarrow> rest = (if COMMA = COMMA then [0] else COMMA # [0]))"
  by (rule transition_classifies) (simp_all add: chr_byte_def)

text \<open>
  C8: a block of at least two bytes that \<open>core_init_state\<close> has filled is scanned, corrupted,
  scanned again and corrupted once more by \<open>core_bench_state\<close> without an access outside the
  block, for all seeds and every step of at least two (the callers' steps are); and if the
  seeds are equal and turn no pattern byte into a comma, the block is afterwards what it was
  before.
\<close>

theorem state_block_restored:
  assumes "2 \<le> sz" "length p = sz" "2 \<le> sint step"
  shows "\<exists>blk crc' blk'. core_init_state sz iseed p = Some blk \<and> input_block sz blk
     \<and> core_bench_state sz blk seed1 seed2 step crc = Some (crc', blk') \<and> length blk' = sz
     \<and> (seed1 = seed2 \<and> harmless seed1 \<longrightarrow> blk' = blk)"
proof -
  obtain blk where blk: "core_init_state sz iseed p = Some blk" "input_block sz blk"
    using core_init_state_ok [OF assms(1,2)] by blast
  then have len: "length blk = sz" by (simp add: input_block_def)
  obtain crc' blk' where run: "core_bench_state sz blk seed1 seed2 step crc = Some (crc', blk')" "length blk' = length blk"
    using core_bench_state_runs [OF blk(2) assms(3)] by blast
  have "0 <s step" "sz \<le> length blk"
    using assms(3) len by (simp_all add: word_sless_alt)
  then have "blk' = blk" if "seed1 = seed2 \<and> harmless seed1"
    using that bench_state_block run(1) harmless_repairable [OF blk(2)] by blast
  with blk run len show ?thesis by auto
qed

lemma state_block_restored_witness:
  "(\<exists>blk crc'. core_init_state 30 0x66 (replicate 30 0) = Some blk \<and> input_block 30 blk
       \<and> core_bench_state 30 blk 0x3415 0x3415 0x22 0 = Some (crc', blk))
     \<and> (\<exists>blk crc' blk'. core_init_state 30 0x66 (replicate 30 0) = Some blk
       \<and> core_bench_state 30 blk 0x19 0x34 0x22 0 = Some (crc', blk') \<and> length blk' = 30)"
proof
  show "\<exists>blk crc'. core_init_state 30 0x66 (replicate 30 0) = Some blk \<and> input_block 30 blk
       \<and> core_bench_state 30 blk 0x3415 0x3415 0x22 0 = Some (crc', blk)"
    using state_block_restored [of 30 "replicate 30 0" "0x22" "0x66" "0x3415" "0x3415" 0] standard_seeds_harmless(2) by auto
  show "\<exists>blk crc' blk'. core_init_state 30 0x66 (replicate 30 0) = Some blk
       \<and> core_bench_state 30 blk 0x19 0x34 0x22 0 = Some (crc', blk') \<and> length blk' = 30"
    using state_block_restored [of 30 "replicate 30 0" "0x22" "0x66" "0x19" "0x34" 0] by auto
qed

text \<open>
  C40: equal seeds are not enough to undo the corruption: the seed 0x19 turns the digit 5
  into a comma, which the second pass leaves alone.
\<close>

theorem state_block_not_restored:
  "\<exists>blk crc' blk'. core_init_state 8 0xffff (replicate 8 0) = Some blk
     \<and> core_bench_state 8 blk 0x19 0x19 0x22 0 = Some (crc', blk') \<and> blk' \<noteq> blk"
proof -
  have blk: "core_init_state 8 0xffff (replicate 8 0) = Some (map chr_byte ''5012,'' @ [0, 0, 0])"
    by code_simp
  obtain b where b: "b = map chr_byte ''5012,'' @ [0, 0, 0]" by simp
  have "input_block 8 b"
    using core_init_state_ok [of 8 "replicate 8 0" "0xffff"] blk b by auto
  then obtain crc' b' where run: "core_bench_state 8 b 0x19 0x19 0x22 0 = Some (crc', b')"
    using core_bench_state_runs [of 8 b "0x22"] by force
  have "\<not> repairable 8 (nat (sint (0x22 :: s16))) 0x19 b"
    unfolding repairable_def b not_all by (rule exI [of _ 0]) (simp add: chr_byte_def)
  then have "b' \<noteq> b"
    using bench_state_block [OF run] b by (simp add: word_sless_alt)
  then show ?thesis using blk b run by blast
qed

end
