(* ===== verification/CoreList.thy ===== *)
theory CoreList
  imports CPrelude
begin

text \<open>
  The linked lists of CoreMark, \<open>benchmarks/wasi/coremark/core_list_join.c\<close>: searching, reversing, removing
  and reinserting an item, and the merge sort without recursion. The list heads are an array, a pointer to a
  head is an index into it or null; \<open>info\<close> points to an item of a second array.
  A comparison can change the items and more, so the sort hands a state through all comparisons.
\<close>

section \<open>The code\<close>

text \<open>[coremark/coremark.h 97-101 list_head_s]\<close>

record list_head =
  nxt :: "nat option"
  info :: nat

text \<open>Reading and writing through a pointer; through a null pointer there is no result.\<close>

definition get_next :: "list_head list \<Rightarrow> nat option \<Rightarrow> nat option option" where
  "get_next h p = do { n \<leftarrow> p; e \<leftarrow> aget h n; Some (nxt e) }"

definition get_info :: "list_head list \<Rightarrow> nat option \<Rightarrow> nat option" where
  "get_info h p = do { n \<leftarrow> p; e \<leftarrow> aget h n; Some (info e) }"

definition set_next :: "list_head list \<Rightarrow> nat option \<Rightarrow> nat option \<Rightarrow> list_head list option" where
  "set_next h p q = do { n \<leftarrow> p; e \<leftarrow> aget h n; aput h n (e\<lparr>nxt := q\<rparr>) }"

definition set_info :: "list_head list \<Rightarrow> nat option \<Rightarrow> nat \<Rightarrow> list_head list option" where
  "set_info h p d = do { n \<leftarrow> p; e \<leftarrow> aget h n; aput h n (e\<lparr>info := d\<rparr>) }"

text \<open>[coremark/core_list_join.c 468-474 core_list_reverse] The loop.\<close>

partial_function (option) reverse_loop ::
    "list_head list \<Rightarrow> nat option \<Rightarrow> nat option \<Rightarrow> (list_head list \<times> nat option) option" where
  "reverse_loop h list nx =
     (if list = None then Some (h, nx)
      else do { tmp \<leftarrow> get_next h list;
                h \<leftarrow> set_next h list nx;
                reverse_loop h tmp list })"

declare reverse_loop.simps [code]

text \<open>[coremark/core_list_join.c 464-476 core_list_reverse]\<close>

definition core_list_reverse :: "list_head list \<Rightarrow> nat option \<Rightarrow> (list_head list \<times> nat option) option" where
  "core_list_reverse h list = reverse_loop h list None"

text \<open>[coremark/core_list_join.c 376-389 core_list_remove]\<close>

definition core_list_remove :: "list_head list \<Rightarrow> nat option \<Rightarrow> (list_head list \<times> nat option) option" where
  "core_list_remove h item =
     do { ret \<leftarrow> get_next h item;
          tmp \<leftarrow> get_info h item;
          d \<leftarrow> get_info h ret;
          h \<leftarrow> set_info h item d;
          h \<leftarrow> set_info h ret tmp;
          n \<leftarrow> get_next h item;
          n \<leftarrow> get_next h n;
          h \<leftarrow> set_next h item n;
          h \<leftarrow> set_next h ret None;
          Some (h, ret) }"

text \<open>[coremark/core_list_join.c 407-419 core_list_undo_remove]\<close>

definition core_list_undo_remove ::
    "list_head list \<Rightarrow> nat option \<Rightarrow> nat option \<Rightarrow> (list_head list \<times> nat option) option" where
  "core_list_undo_remove h item_removed item_modified =
     do { tmp \<leftarrow> get_info h item_removed;
          d \<leftarrow> get_info h item_modified;
          h \<leftarrow> set_info h item_removed d;
          h \<leftarrow> set_info h item_modified tmp;
          n \<leftarrow> get_next h item_modified;
          h \<leftarrow> set_next h item_removed n;
          h \<leftarrow> set_next h item_modified item_removed;
          Some (h, item_removed) }"

text \<open>[coremark/core_list_join.c 519-527 core_list_mergesort] Step \<open>insize\<close> places along: the places, and \<open>q\<close>.\<close>

fun step_along :: "list_head list \<Rightarrow> nat \<Rightarrow> nat \<Rightarrow> nat option \<Rightarrow> (nat \<times> nat option) option" where
  "step_along h 0 psize q = Some (psize, q)"
| "step_along h (Suc i) psize q =
     do { q \<leftarrow> get_next h q;
          if q = None then Some (psize + 1, q) else step_along h i (psize + 1) q }"

text \<open>[coremark/core_list_join.c 567-576 core_list_mergesort] Add the next element to the merged list.\<close>

definition add_merged ::
    "list_head list \<Rightarrow> nat option \<Rightarrow> nat option \<Rightarrow> nat option \<Rightarrow> (list_head list \<times> nat option) option" where
  "add_merged h list tail e =
     (if tail \<noteq> None then do { h \<leftarrow> set_next h tail e; Some (h, list) } else Some (h, e))"

text \<open>
  [coremark/core_list_join.c 533-577 core_list_mergesort] Merge two lists. The result is \<open>q\<close>, the merged list and
  its tail, and the heads and the state of the comparisons.
\<close>

function merge_loop ::
    "(nat \<Rightarrow> nat \<Rightarrow> 's \<Rightarrow> (int \<times> 's) option) \<Rightarrow> nat option \<Rightarrow> nat \<Rightarrow> nat option \<Rightarrow> nat \<Rightarrow> nat option \<Rightarrow> nat option
     \<Rightarrow> list_head list \<Rightarrow> 's \<Rightarrow> (nat option \<times> nat option \<times> nat option \<times> list_head list \<times> 's) option" where
  "merge_loop cmp p psize q qsize list tail h s =
     (if psize > 0 \<or> (qsize > 0 \<and> q \<noteq> None)
      then do { (from_p, s) \<leftarrow>
                  (if psize = 0 then Some (False, s)
                   else if qsize = 0 \<or> q = None then Some (True, s)
                   else do { a \<leftarrow> get_info h p; b \<leftarrow> get_info h q; (r, s) \<leftarrow> cmp a b s; Some (r \<le> 0, s) });
                if from_p
                then do { n \<leftarrow> get_next h p;
                          (h, list) \<leftarrow> add_merged h list tail p;
                          if psize = 0 then None else merge_loop cmp n (psize - 1) q qsize list p h s }
                else do { n \<leftarrow> get_next h q;
                          (h, list) \<leftarrow> add_merged h list tail q;
                          if qsize = 0 then None else merge_loop cmp p psize n (qsize - 1) list q h s } }
      else Some (q, list, tail, h, s))"
  by pat_completeness auto
termination
  by (relation "measure (\<lambda>(_, _, psize, _, qsize, _). psize + qsize)") auto

declare merge_loop.simps [simp del]

text \<open>[coremark/core_list_join.c 515-581 core_list_mergesort] One pass: the number of merges, the list and its tail.\<close>

partial_function (option) merge_pass ::
    "(nat \<Rightarrow> nat \<Rightarrow> 's \<Rightarrow> (int \<times> 's) option) \<Rightarrow> nat \<Rightarrow> nat option \<Rightarrow> nat \<Rightarrow> nat option \<Rightarrow> nat option
     \<Rightarrow> list_head list \<Rightarrow> 's \<Rightarrow> (nat \<times> nat option \<times> nat option \<times> list_head list \<times> 's) option" where
  "merge_pass cmp insize p nmerges list tail h s =
     (if p \<noteq> None
      then do { (psize, q) \<leftarrow> step_along h insize 0 p;
                (q, list, tail, h, s) \<leftarrow> merge_loop cmp p psize q insize list tail h s;
                merge_pass cmp insize q (nmerges + 1) list tail h s }
      else Some (nmerges, list, tail, h, s))"

declare merge_pass.simps [code]

text \<open>[coremark/core_list_join.c 507-591 core_list_mergesort] The passes.\<close>

partial_function (option) sort_loop ::
    "(nat \<Rightarrow> nat \<Rightarrow> 's \<Rightarrow> (int \<times> 's) option) \<Rightarrow> nat \<Rightarrow> nat option
     \<Rightarrow> list_head list \<Rightarrow> 's \<Rightarrow> (nat option \<times> list_head list \<times> 's) option" where
  "sort_loop cmp insize list h s =
     do { (nmerges, list, tail, h, s) \<leftarrow> merge_pass cmp insize list 0 None None h s;
          h \<leftarrow> set_next h tail None;
          if nmerges \<le> 1 then Some (list, h, s) else sort_loop cmp (insize * 2) list h s }"

declare sort_loop.simps [code]

text \<open>[coremark/core_list_join.c 499-595 core_list_mergesort] The integers \<open>insize\<close>, \<open>psize\<close> and \<open>qsize\<close> do not exceed twice the length of the list.\<close>

definition core_list_mergesort ::
    "(nat \<Rightarrow> nat \<Rightarrow> 's \<Rightarrow> (int \<times> 's) option) \<Rightarrow> nat option \<Rightarrow> list_head list \<Rightarrow> 's \<Rightarrow> (nat option \<times> list_head list \<times> 's) option" where
  "core_list_mergesort cmp list h s = sort_loop cmp 1 list h s"

section \<open>Lists in the heap\<close>

text \<open>The pointers from \<open>p\<close> go through the heads \<open>ns\<close> to \<open>q\<close>.\<close>

fun path :: "list_head list \<Rightarrow> nat option \<Rightarrow> nat list \<Rightarrow> nat option \<Rightarrow> bool" where
  "path h p [] q \<longleftrightarrow> p = q"
| "path h p (n # ns) q \<longleftrightarrow> p = Some n \<and> n < length h \<and> path h (nxt (h ! n)) ns q"

lemma path_append: "path h p (ns @ ms) q \<longleftrightarrow> (\<exists>r. path h p ns r \<and> path h r ms q)"
  by (induction ns arbitrary: p) auto

lemma path_None [simp]: "path h None ns None \<longleftrightarrow> ns = []"
  by (cases ns) auto

lemma path_end: "path h (Some n) ns None \<Longrightarrow> ns \<noteq> []"
  by (cases ns) auto

lemma path_update [simp]: "n \<notin> set ns \<Longrightarrow> path (h[n := e]) p ns q = path h p ns q"
  by (induction ns arbitrary: p) auto

lemma path_bound: "path h p ns q \<Longrightarrow> n \<in> set ns \<Longrightarrow> n < length h"
  by (induction ns arbitrary: p) auto

lemma path_cong: "\<forall>n \<in> set ns. h' ! n = h ! n \<Longrightarrow> length h' = length h \<Longrightarrow> path h' p ns q = path h p ns q"
  by (induction ns arbitrary: p) auto

lemma get_next_path: "path h p (n # ns) q \<Longrightarrow> get_next h p = Some (nxt (h ! n))"
  by (simp add: get_next_def)

lemma get_info_path: "path h p (n # ns) q \<Longrightarrow> get_info h p = Some (info (h ! n))"
  by (simp add: get_info_def)

lemma set_next_at: "n < length h \<Longrightarrow> set_next h (Some n) v = Some (h[n := (h ! n)\<lparr>nxt := v\<rparr>])"
  by (simp add: set_next_def)

text \<open>A path that is a list determines its heads.\<close>

lemma path_unique: "path h p ns None \<Longrightarrow> path h p ms None \<Longrightarrow> ns = ms"
proof (induction ns arbitrary: p ms)
  case Nil
  then show ?case by simp
next
  case (Cons n ns)
  then show ?case by (cases ms) auto
qed

text \<open>Only the \<open>next\<close> pointers of the heads \<open>ns\<close> have changed.\<close>

definition relinked :: "nat list \<Rightarrow> list_head list \<Rightarrow> list_head list \<Rightarrow> bool" where
  "relinked ns h h' \<longleftrightarrow> length h' = length h \<and> (\<forall>i < length h. info (h' ! i) = info (h ! i)) \<and> (\<forall>i < length h. i \<notin> set ns \<longrightarrow> h' ! i = h ! i)"

lemma relinked_refl [simp]: "relinked ns h h"
  by (simp add: relinked_def)

lemma relinked_trans: "relinked ns h h' \<Longrightarrow> relinked ns h' h'' \<Longrightarrow> relinked ns h h''"
  by (simp add: relinked_def)

lemma relinked_mono: "relinked ns h h' \<Longrightarrow> set ns \<subseteq> set ms \<Longrightarrow> relinked ms h h'"
  by (auto simp: relinked_def)

lemma relinked_set_next: "n \<in> set ns \<Longrightarrow> relinked ns h (h[n := (h ! n)\<lparr>nxt := v\<rparr>])"
  by (cases "n < length h") (auto simp: relinked_def nth_list_update)

lemma relinked_path:
  assumes "relinked ns h h'" "set ms \<inter> set ns = {}" "path h p ms q"
  shows "path h' p ms q"
proof -
  have "\<forall>n \<in> set ms. h' ! n = h ! n" using assms path_bound [OF assms(3)] by (auto simp: relinked_def)
  then show ?thesis using path_cong [of ms h' h p q] assms(1,3) by (simp add: relinked_def)
qed

lemma relinked_info: "relinked ns h h' \<Longrightarrow> n < length h \<Longrightarrow> info (h' ! n) = info (h ! n)"
  by (simp add: relinked_def)

text \<open>The same list in the same place: nothing has changed at all.\<close>

lemma relinked_same:
  assumes "relinked ns h h'" "path h p ns None" "path h' p ns None"
  shows "h' = h"
proof (rule nth_equalityI)
  show "length h' = length h" using assms(1) by (simp add: relinked_def)
  have "path h p ns q \<Longrightarrow> path h' p ns q \<Longrightarrow> n \<in> set ns \<Longrightarrow> nxt (h' ! n) = nxt (h ! n)" for n p q
  proof (induction ns arbitrary: p)
    case (Cons m ns)
    have "nxt (h' ! m) = nxt (h ! m)" using Cons.prems(1,2) by (cases ns) auto
    then show ?case using Cons by auto
  qed simp
  then show "h' ! i = h ! i" if "i < length h'" for i
    using assms that path_bound [OF assms(2)] by (cases "i \<in> set ns") (auto simp: relinked_def)
qed

section \<open>Reversal, removal\<close>

lemma reverse_loop_ok:
  assumes "path h p ns None" "path h r ms None" "distinct (ns @ ms)"
  shows "\<exists>h' q. reverse_loop h p r = Some (h', q) \<and> path h' q (rev ns @ ms) None \<and> relinked ns h h'"
  using assms
proof (induction ns arbitrary: h p r ms)
  case Nil
  then show ?case by (subst reverse_loop.simps) auto
next
  case (Cons n ns)
  let ?h = "h[n := (h ! n)\<lparr>nxt := r\<rparr>]"
  have p: "p = Some n" "n < length h" "path h (nxt (h ! n)) ns None" using Cons.prems(1) by auto
  have "path ?h (nxt (h ! n)) ns None" "path ?h p (n # ms) None" using Cons.prems p by auto
  from Cons.IH [OF this] Cons.prems(3) obtain h' q where h': "reverse_loop ?h (nxt (h ! n)) p = Some (h', q)"
     "path h' q (rev ns @ n # ms) None" "relinked ns ?h h'" by auto
  have "relinked (n # ns) h ?h" by (rule relinked_set_next) simp
  then have "relinked (n # ns) h h'" using relinked_mono [OF h'(3), of "n # ns"] by (auto intro: relinked_trans)
  moreover have "reverse_loop h p r = Some (h', q)"
    using h'(1) p by (subst reverse_loop.simps) (simp add: get_next_def set_next_at)
  ultimately show ?case using h'(2) by auto
qed

lemma reverse_ok:
  assumes "path h p ns None" "distinct ns"
  shows "\<exists>h' q. core_list_reverse h p = Some (h', q) \<and> path h' q (rev ns) None \<and> relinked ns h h'"
  using reverse_loop_ok [OF assms(1), of None "[]"] assms(2) by (simp add: core_list_reverse_def)

section \<open>Sorting by merging, on lists\<close>

fun merge_by :: "('a \<Rightarrow> int) \<Rightarrow> 'a list \<Rightarrow> 'a list \<Rightarrow> 'a list" where
  "merge_by k (x # xs) (y # ys) = (if k x \<le> k y then x # merge_by k xs (y # ys) else y # merge_by k (x # xs) ys)"
| "merge_by k xs [] = xs"
| "merge_by k [] ys = ys"

lemma merge_by_Nil [simp]: "merge_by k [] ys = ys"
  by (cases ys) simp_all

lemma mset_merge_by [simp]: "mset (merge_by k xs ys) = mset xs + mset ys"
  by (induction k xs ys rule: merge_by.induct) simp_all

lemma set_merge_by [simp]: "set (merge_by k xs ys) = set xs \<union> set ys"
  by (induction k xs ys rule: merge_by.induct) auto

lemma sorted_merge_by: "sorted (map k xs) \<Longrightarrow> sorted (map k ys) \<Longrightarrow> sorted (map k (merge_by k xs ys))"
  by (induction k xs ys rule: merge_by.induct) auto

lemma filter_merge_by:
  "sorted (map k xs) \<Longrightarrow> filter (\<lambda>x. k x = c) (merge_by k xs ys) = filter (\<lambda>x. k x = c) xs @ filter (\<lambda>x. k x = c) ys"
proof (induction k xs ys rule: merge_by.induct)
  case (1 k x xs y ys)
  have "filter (\<lambda>x. k x = c) (x # xs) = []" if "\<not> k x \<le> k y" "k y = c"
    using that "1.prems" by (auto simp: filter_empty_conv)
  then show ?case using 1 by auto
qed simp_all

text \<open>Merging is what makes the sort stable.\<close>

lemma merge_sorted: "merge_by k (sort_key k xs) (sort_key k ys) = sort_key k (xs @ ys)"
proof (rule sym, rule properties_for_sort_key)
  show "filter (\<lambda>x. k a = k x) (merge_by k (sort_key k xs) (sort_key k ys)) = filter (\<lambda>x. k a = k x) (xs @ ys)" for a
    using filter_merge_by [of k "sort_key k xs" "k a" "sort_key k ys"] sort_key_stable [of k "k a"] by (simp add: eq_commute)
qed (simp_all add: sorted_merge_by)

text \<open>The list in blocks of \<open>n\<close> that are sorted, and one pass over it.\<close>

function sorted_blocks :: "('a \<Rightarrow> int) \<Rightarrow> nat \<Rightarrow> 'a list \<Rightarrow> 'a list" where
  "sorted_blocks k n xs = (if xs = [] \<or> n = 0 then [] else sort_key k (take n xs) @ sorted_blocks k n (drop n xs))"
  by pat_completeness auto
termination
  by (relation "measure (\<lambda>(_, _, xs). length xs)") auto

function pass_by :: "('a \<Rightarrow> int) \<Rightarrow> nat \<Rightarrow> 'a list \<Rightarrow> 'a list" where
  "pass_by k n xs = (if xs = [] \<or> n = 0 then [] else merge_by k (take n xs) (take n (drop n xs)) @ pass_by k n (drop n (drop n xs)))"
  by pat_completeness auto
termination
  by (relation "measure (\<lambda>(_, _, xs). length xs)") auto

declare sorted_blocks.simps [simp del] pass_by.simps [simp del]

lemma merge_by_cong: "\<forall>x \<in> set xs \<union> set ys. f x = g x \<Longrightarrow> merge_by f xs ys = merge_by g xs ys"
  by (induction f xs ys rule: merge_by.induct) auto

lemma pass_by_cong: "\<forall>x \<in> set xs. f x = g x \<Longrightarrow> pass_by f n xs = pass_by g n xs"
proof (induction f n xs rule: pass_by.induct)
  case (1 f n xs)
  have "merge_by f (take n xs) (take n (drop n xs)) = merge_by g (take n xs) (take n (drop n xs))"
    using "1.prems" by (intro merge_by_cong) (auto dest: in_set_takeD in_set_dropD)
  moreover have "xs \<noteq> [] \<Longrightarrow> n \<noteq> 0 \<Longrightarrow> pass_by f n (drop n (drop n xs)) = pass_by g n (drop n (drop n xs))"
    using 1 in_set_dropD [of _ "n + n" xs] by simp
  ultimately show ?case using pass_by.simps [of f n xs] pass_by.simps [of g n xs] by simp
qed

lemma insort_key_cong: "f x = g x \<Longrightarrow> \<forall>y \<in> set ys. f y = g y \<Longrightarrow> insort_key f x ys = insort_key g x ys"
  by (induction ys) auto

lemma sort_key_cong: "\<forall>x \<in> set xs. f x = g x \<Longrightarrow> sort_key f xs = sort_key g xs"
  by (induction xs) (auto intro: insort_key_cong)

lemma sorted_blocks_Nil [simp]: "sorted_blocks k n [] = []"
  by (simp add: sorted_blocks.simps)

lemma pass_by_Nil [simp]: "pass_by k n [] = []"
  by (simp add: pass_by.simps)

lemma sorted_blocks_rec: "0 < n \<Longrightarrow> sorted_blocks k n xs = sort_key k (take n xs) @ sorted_blocks k n (drop n xs)"
  by (subst sorted_blocks.simps) simp

lemma pass_by_rec: "0 < n \<Longrightarrow> pass_by k n xs = merge_by k (take n xs) (take n (drop n xs)) @ pass_by k n (drop n (drop n xs))"
  by (subst pass_by.simps) simp

lemma mset_pass_by: "0 < n \<Longrightarrow> mset (pass_by k n xs) = mset xs"
proof (induction k n xs rule: pass_by.induct)
  case (1 k n xs)
  have "mset (pass_by k n (drop n (drop n xs))) = mset (drop n (drop n xs))" using 1 by (cases "xs = []") auto
  then have "mset (pass_by k n xs) = mset (take n xs @ take n (drop n xs) @ drop n (drop n xs))"
    by (subst pass_by_rec [OF "1.prems"]) simp
  then show ?case by (simp only: append_take_drop_id)
qed

lemma length_sorted_blocks [simp]: "0 < n \<Longrightarrow> length (sorted_blocks k n xs) = length xs"
  by (induction k n xs rule: sorted_blocks.induct) (subst sorted_blocks.simps, auto)

lemma take_sorted_blocks:
  assumes "0 < n"
  shows "take n (sorted_blocks k n xs) = sort_key k (take n xs)" "drop n (sorted_blocks k n xs) = sorted_blocks k n (drop n xs)"
  by (subst sorted_blocks_rec [OF assms], cases "length xs \<le> n"; simp)+

lemma sorted_blocks_cong: "\<forall>x \<in> set xs. f x = g x \<Longrightarrow> sorted_blocks f n xs = sorted_blocks g n xs"
proof (induction f n xs rule: sorted_blocks.induct)
  case (1 f n xs)
  have "sort_key f (take n xs) = sort_key g (take n xs)"
    using "1.prems" by (intro sort_key_cong) (auto dest: in_set_takeD)
  moreover have "xs \<noteq> [] \<Longrightarrow> n \<noteq> 0 \<Longrightarrow> sorted_blocks f n (drop n xs) = sorted_blocks g n (drop n xs)"
    using 1 in_set_dropD [of _ n xs] by simp
  ultimately show ?case using sorted_blocks.simps [of f n xs] sorted_blocks.simps [of g n xs] by simp
qed

lemma pass_sorted_blocks:
  assumes "0 < n"
  shows "pass_by k n (sorted_blocks k n xs) = sorted_blocks k (2 * n) xs"
proof (induction "length xs" arbitrary: xs rule: less_induct)
  case less
  show ?case
  proof (cases "xs = []")
    case False
    have "pass_by k n (sorted_blocks k n xs)
        = merge_by k (sort_key k (take n xs)) (sort_key k (take n (drop n xs))) @ pass_by k n (sorted_blocks k n (drop n (drop n xs)))"
      by (subst pass_by_rec [OF assms]) (simp only: take_sorted_blocks [OF assms])
    also have "pass_by k n (sorted_blocks k n (drop n (drop n xs))) = sorted_blocks k (2 * n) (drop n (drop n xs))"
      using False assms by (intro less) simp
    also have "merge_by k (sort_key k (take n xs)) (sort_key k (take n (drop n xs))) = sort_key k (take (2 * n) xs)"
      by (simp only: merge_sorted mult_2 take_add)
    also have "drop n (drop n xs) = drop (2 * n) xs" by (simp add: mult_2)
    also have "sort_key k (take (2 * n) xs) @ sorted_blocks k (2 * n) (drop (2 * n) xs) = sorted_blocks k (2 * n) xs"
      using assms by (intro sorted_blocks_rec [symmetric]) simp
    finally show ?thesis .
  qed simp
qed

lemma sorted_blocks_one: "sorted_blocks k 1 xs = xs"
proof (induction xs)
  case (Cons x xs)
  then show ?case using sorted_blocks_rec [of 1 k "x # xs"] by simp
qed simp

lemma sorted_blocks_all: "length xs \<le> n \<Longrightarrow> sorted_blocks k n xs = sort_key k xs"
  using sorted_blocks_rec [of n k xs] by (cases "n = 0") simp_all

section \<open>The merge sort\<close>

text \<open>The merged list so far: it ends in \<open>tail\<close>, and the \<open>next\<close> pointer there is not set yet.\<close>

definition merged :: "list_head list \<Rightarrow> nat option \<Rightarrow> nat option \<Rightarrow> nat list \<Rightarrow> bool" where
  "merged h list tail out \<longleftrightarrow> (if out = [] then list = None \<and> tail = None
     else tail = Some (last out) \<and> last out < length h \<and> path h list (butlast out) tail)"

lemma add_merged_ok:
  assumes "merged h list tail out" "n < length h" "n \<notin> set out" "distinct out"
  shows "\<exists>h' list'. add_merged h list tail (Some n) = Some (h', list') \<and> merged h' list' (Some n) (out @ [n]) \<and> relinked out h h'"
proof (cases "out = []")
  case True
  then show ?thesis using assms(1,2) by (simp add: merged_def add_merged_def)
next
  case False
  let ?l = "last out"
  let ?h = "h[?l := (h ! ?l)\<lparr>nxt := Some n\<rparr>]"
  have m: "tail = Some ?l" "?l < length h" "path h list (butlast out) (Some ?l)"
    using assms(1) False by (auto simp: merged_def)
  have out: "out = butlast out @ [?l]" using False by simp
  then have "?l \<notin> set (butlast out)" using assms(4) by (metis distinct_append distinct.simps(2) disjoint_iff list.set_intros(1))
  then have "path ?h list (butlast out @ [?l]) (Some n)" using m by (simp add: path_append)
  then have "merged ?h list (Some n) (out @ [n])" using out assms(2) by (simp add: merged_def)
  moreover have "relinked out h ?h" using False by (intro relinked_set_next) simp
  ultimately show ?thesis using m by (intro exI [of _ ?h] exI [of _ list]) (simp add: add_merged_def set_next_at)
qed

text \<open>Of every block with two elements or more, all elements have the property.\<close>

function blocks_known :: "(nat \<Rightarrow> bool) \<Rightarrow> nat \<Rightarrow> nat list \<Rightarrow> bool" where
  "blocks_known K n xs = (if xs = [] \<or> n = 0 then True
     else (2 \<le> length (take n xs) \<longrightarrow> (\<forall>x \<in> set (take n xs). K x)) \<and> blocks_known K n (drop n xs))"
  by pat_completeness auto
termination
  by (relation "measure (\<lambda>(_, _, xs). length xs)") auto

declare blocks_known.simps [simp del]

lemma blocks_known_Nil [simp]: "blocks_known K n []"
  by (simp add: blocks_known.simps)

lemma blocks_known_rec:
  "0 < n \<Longrightarrow> blocks_known K n xs \<longleftrightarrow> (2 \<le> length (take n xs) \<longrightarrow> (\<forall>x \<in> set (take n xs). K x)) \<and> blocks_known K n (drop n xs)"
  using blocks_known.simps [of K n xs] by (cases "xs = []") simp_all

lemma blocks_knownD:
  assumes "blocks_known K n xs" "0 < n"
  shows "blocks_known K n (drop n xs)" "2 \<le> length (take n xs) \<longrightarrow> (\<forall>x \<in> set (take n xs). K x)"
  using assms(1) unfolding blocks_known_rec [OF assms(2), of K xs] by simp_all

lemma blocks_known_one: "blocks_known K 1 xs"
proof (induction xs)
  case (Cons x xs)
  then show ?case using blocks_known_rec [of 1 K "x # xs"] by simp
qed simp

lemma blocks_known_mono: "blocks_known K n xs \<Longrightarrow> (\<And>x. x \<in> set xs \<Longrightarrow> K x \<Longrightarrow> L x) \<Longrightarrow> blocks_known L n xs"
proof (induction K n xs rule: blocks_known.induct)
  case (1 K n xs)
  show ?case
  proof (cases "xs = [] \<or> n = 0")
    case True
    then show ?thesis by (simp add: blocks_known.simps)
  next
    case False
    then have n: "0 < n" by simp
    note known = blocks_knownD [OF "1.prems"(1) n]
    have "blocks_known L n (drop n xs)"
      using False "1.IH" known(1) "1.prems"(2) in_set_dropD [of _ n xs] by simp
    then show ?thesis using known(2) "1.prems"(2) unfolding blocks_known_rec [OF n, of L xs] by (auto dest: in_set_takeD)
  qed
qed

lemma blocks_known_append:
  assumes "0 < n" "length xs \<le> n" "ys = [] \<or> length xs = n" "2 \<le> length xs \<Longrightarrow> \<forall>x \<in> set xs. K x" "blocks_known K n ys"
  shows "blocks_known K n (xs @ ys)"
proof (cases "ys = []")
  case True
  then show ?thesis using assms by (subst blocks_known_rec) auto
next
  case False
  then show ?thesis using assms by (subst blocks_known_rec) auto
qed

lemma step_along_ok:
  "path h p xs None \<Longrightarrow> xs \<noteq> [] \<Longrightarrow> 0 < n \<Longrightarrow>
     \<exists>q. step_along h n k p = Some (k + length (take n xs), q) \<and> path h p (take n xs) q \<and> path h q (drop n xs) None"
proof (induction n arbitrary: p xs k)
  case (Suc n)
  obtain x ys where xs: "xs = x # ys" using Suc.prems(2) by (cases xs) auto
  have p: "p = Some x" "x < length h" "path h (nxt (h ! x)) ys None" using Suc.prems(1) xs by auto
  show ?case
  proof (cases "ys = []")
    case True
    then show ?thesis using p xs by (simp add: get_next_def)
  next
    case False
    then obtain m where m: "nxt (h ! x) = Some m" using p(3) by (cases ys) auto
    show ?thesis
    proof (cases n)
      case 0
      then show ?thesis using p xs m by (simp add: get_next_def)
    next
      case (Suc n')
      then obtain q where q: "step_along h n (k + 1) (nxt (h ! x)) = Some (k + 1 + length (take n ys), q)"
         "path h (nxt (h ! x)) (take n ys) q" "path h q (drop n ys) None"
        using Suc.IH [OF p(3) False, of "k + 1"] by auto
      then show ?thesis using p xs m by (intro exI [of _ q]) (simp add: get_next_def)
    qed
  qed
qed simp

text \<open>
  What the sort needs of a comparison: for items it is meant for it returns, and afterwards the keys of both are
  known, and its sign is the order of the keys. A key that is known does not change any more.
\<close>

locale comparison =
  fixes cmp :: "nat \<Rightarrow> nat \<Rightarrow> 's \<Rightarrow> (int \<times> 's) option"
    and ok :: "'s \<Rightarrow> bool" and valid :: "nat set" and known :: "'s \<Rightarrow> nat \<Rightarrow> bool" and key :: "'s \<Rightarrow> nat \<Rightarrow> int"
  assumes compares: "ok s \<Longrightarrow> a \<in> valid \<Longrightarrow> b \<in> valid \<Longrightarrow>
     \<exists>r s'. cmp a b s = Some (r, s') \<and> ok s' \<and> known s' a \<and> known s' b \<and> (r \<le> 0 \<longleftrightarrow> key s' a \<le> key s' b)"
    and keeps: "ok s \<Longrightarrow> a \<in> valid \<Longrightarrow> b \<in> valid \<Longrightarrow> cmp a b s = Some (r, s') \<Longrightarrow> known s c \<Longrightarrow> known s' c \<and> key s' c = key s c"
begin

text \<open>A later state knows more; \<open>k\<close> are the keys when all are known.\<close>

definition grows :: "'s \<Rightarrow> 's \<Rightarrow> bool" where
  "grows s s' \<longleftrightarrow> (\<forall>c. known s c \<longrightarrow> known s' c \<and> key s' c = key s c)"

definition settles :: "(nat \<Rightarrow> int) \<Rightarrow> 's \<Rightarrow> bool" where
  "settles k s \<longleftrightarrow> (\<forall>c. known s c \<longrightarrow> k c = key s c)"

lemma grows_refl [simp]: "grows s s"
  by (simp add: grows_def)

lemma grows_trans: "grows s t \<Longrightarrow> grows t u \<Longrightarrow> grows s u"
  by (simp add: grows_def)

lemma grows_known: "grows s t \<Longrightarrow> known s c \<Longrightarrow> known t c"
  by (simp add: grows_def)

lemma settles_grows: "settles k t \<Longrightarrow> grows s t \<Longrightarrow> settles k s"
  by (simp add: settles_def grows_def)

lemma settles_key: "settles (key s) s"
  by (simp add: settles_def)

abbreviation by_info :: "list_head list \<Rightarrow> (nat \<Rightarrow> int) \<Rightarrow> nat \<Rightarrow> int" where
  "by_info h k \<equiv> \<lambda>n. k (info (h ! n))"

text \<open>Two runs are merged behind what is there.\<close>

definition merges :: "list_head list \<Rightarrow> nat list \<Rightarrow> nat list \<Rightarrow> nat list \<Rightarrow> nat list \<Rightarrow> 's
    \<Rightarrow> (nat option \<times> nat option \<times> nat option \<times> list_head list \<times> 's) option \<Rightarrow> bool" where
  "merges h out xs ys rest s m \<longleftrightarrow> (\<exists>q list tail h' s' ms. m = Some (q, list, tail, h', s') \<and> path h' q rest None
     \<and> merged h' list tail (out @ ms) \<and> ok s' \<and> grows s s' \<and> relinked (out @ xs @ ys) h h'
     \<and> (\<forall>k. settles k s' \<longrightarrow> ms = merge_by (by_info h k) xs ys)
     \<and> (xs \<noteq> [] \<and> ys \<noteq> [] \<longrightarrow> known s' (info (h ! hd xs)) \<and> known s' (info (h ! hd ys))))"

lemma merge_by_info: "\<forall>n \<in> set xs \<union> set ys. info (h' ! n) = info (h ! n) \<Longrightarrow> merge_by (by_info h' k) xs ys = merge_by (by_info h k) xs ys"
  by (rule merge_by_cong) simp

lemma merges_from:
  assumes "merges h' (out @ [n]) xs' ys' rest s' m" "relinked out h h'" "grows s s'"
    and "set (n # xs' @ ys') = set (xs @ ys)" "\<forall>i \<in> set (xs @ ys). i < length h"
    and "\<And>k. settles k s' \<Longrightarrow> merge_by (by_info h k) xs ys = n # merge_by (by_info h k) xs' ys'"
    and "xs \<noteq> [] \<and> ys \<noteq> [] \<Longrightarrow> known s' (info (h ! hd xs)) \<and> known s' (info (h ! hd ys))"
  shows "merges h out xs ys rest s m"
proof -
  obtain q list tail h'' s'' ms where m: "m = Some (q, list, tail, h'', s'')" "path h'' q rest None"
     "merged h'' list tail ((out @ [n]) @ ms)" "ok s''" "grows s' s''" "relinked ((out @ [n]) @ xs' @ ys') h' h''"
     "\<forall>k. settles k s'' \<longrightarrow> ms = merge_by (by_info h' k) xs' ys'"
    using assms(1) unfolding merges_def by blast
  have "relinked (out @ xs @ ys) h h'" using assms(2) by (rule relinked_mono) auto
  moreover have "relinked (out @ xs @ ys) h' h''" using m(6) by (rule relinked_mono) (use assms(4) in auto)
  ultimately have "relinked (out @ xs @ ys) h h''" by (rule relinked_trans)
  moreover have same: "\<forall>i \<in> set xs' \<union> set ys'. info (h' ! i) = info (h ! i)"
  proof
    fix i assume "i \<in> set xs' \<union> set ys'"
    then have "i \<in> set (xs @ ys)" unfolding assms(4) [symmetric] by simp
    then show "info (h' ! i) = info (h ! i)" using relinked_info [OF assms(2)] assms(5) by blast
  qed
  then have "settles k s'' \<Longrightarrow> n # ms = merge_by (by_info h k) xs ys" for k
    using m(7) assms(6) settles_grows [OF _ m(5)] merge_by_info [OF same] by simp
  moreover have "grows s s''" using assms(3) m(5) by (rule grows_trans)
  moreover have "xs \<noteq> [] \<and> ys \<noteq> [] \<Longrightarrow> known s'' (info (h ! hd xs)) \<and> known s'' (info (h ! hd ys))"
    using assms(7) grows_known [OF m(5)] by blast
  ultimately show ?thesis unfolding merges_def using m(1-4)
    by (intro exI [of _ q] exI [of _ list] exI [of _ tail] exI [of _ h''] exI [of _ s''] exI [of _ "n # ms"]) simp
qed

lemma merge_loop_ok:
  assumes "path h p xs r" "path h q (ys @ rest) None" "psize = length xs" "qsize = length ys \<or> length ys \<le> qsize \<and> rest = []"
    "distinct (out @ xs @ ys @ rest)" "merged h list tail out" "ok s" "\<forall>n \<in> set (xs @ ys). info (h ! n) \<in> valid"
  shows "merges h out xs ys rest s (merge_loop cmp p psize q qsize list tail h s)"
  using assms
proof (induction "length xs + length ys" arbitrary: xs ys p q psize qsize out list tail h s rule: less_induct)
  case less
  have bound: "\<forall>i \<in> set (xs @ ys). i < length h"
    using path_bound [OF less.prems(1)] path_bound [OF less.prems(2)] by auto
  have sizes: "psize = 0 \<longleftrightarrow> xs = []" "qsize = 0 \<or> q = None \<longleftrightarrow> ys = []"
    using less.prems(2-4) by (cases ys; auto)+
  have from_p: "merges h out xs ys rest s (merge_loop cmp p psize q qsize list tail h s)"
    if xs: "xs = n # xs'" and d: "(if psize = 0 then Some (False, s) else if qsize = 0 \<or> q = None then Some (True, s)
        else do { a \<leftarrow> get_info h p; b \<leftarrow> get_info h q; (r, s) \<leftarrow> cmp a b s; Some (r \<le> 0, s) }) = Some (True, s')"
      and s': "ok s'" "grows s s'" "ys \<noteq> [] \<Longrightarrow> known s' (info (h ! n)) \<and> known s' (info (h ! hd ys))"
      and k: "\<And>k. settles k s' \<Longrightarrow> merge_by (by_info h k) xs ys = n # merge_by (by_info h k) xs' ys"
    for n xs' s'
  proof -
    have p: "p = Some n" "n < length h" "path h (nxt (h ! n)) xs' r" "n \<notin> set out" "distinct out"
      using less.prems(1,5) xs by auto
    obtain h' list' where h': "add_merged h list tail p = Some (h', list')" "merged h' list' p (out @ [n])" "relinked out h h'"
      using add_merged_ok [OF less.prems(6) p(2,4,5)] p(1) by auto
    have "path h' (nxt (h ! n)) xs' r" using relinked_path [OF h'(3) _ p(3)] less.prems(5) xs by auto
    moreover have "path h' q (ys @ rest) None" using relinked_path [OF h'(3) _ less.prems(2)] less.prems(5) by auto
    moreover have "\<forall>i \<in> set (xs' @ ys). info (h' ! i) \<in> valid" using relinked_info [OF h'(3)] less.prems(8) bound xs by auto
    ultimately have "merges h' (out @ [n]) xs' ys rest s' (merge_loop cmp (nxt (h ! n)) (psize - 1) q qsize list' p h' s')"
      using less.prems(3,4,5) xs h'(2) s'(1) by (intro less.hyps) auto
    then have "merges h out xs ys rest s (merge_loop cmp (nxt (h ! n)) (psize - 1) q qsize list' p h' s')"
      by (rule merges_from [OF _ h'(3) s'(2)]) (use bound k s'(3) xs in auto)
    moreover have "merge_loop cmp p psize q qsize list tail h s = merge_loop cmp (nxt (h ! n)) (psize - 1) q qsize list' p h' s'"
      by (subst merge_loop.simps, unfold d) (use sizes(1) xs p(1,2) h'(1) in \<open>simp add: get_next_def\<close>)
    ultimately show ?thesis by simp
  qed
  have from_q: "merges h out xs ys rest s (merge_loop cmp p psize q qsize list tail h s)"
    if ys: "ys = n # ys'" and d: "(if psize = 0 then Some (False, s) else if qsize = 0 \<or> q = None then Some (True, s)
        else do { a \<leftarrow> get_info h p; b \<leftarrow> get_info h q; (r, s) \<leftarrow> cmp a b s; Some (r \<le> 0, s) }) = Some (False, s')"
      and s': "ok s'" "grows s s'" "xs \<noteq> [] \<Longrightarrow> known s' (info (h ! hd xs)) \<and> known s' (info (h ! n))"
      and k: "\<And>k. settles k s' \<Longrightarrow> merge_by (by_info h k) xs ys = n # merge_by (by_info h k) xs ys'"
    for n ys' s'
  proof -
    have p: "q = Some n" "n < length h" "path h (nxt (h ! n)) (ys' @ rest) None" "n \<notin> set out" "distinct out"
      using less.prems(2,5) ys by auto
    obtain h' list' where h': "add_merged h list tail q = Some (h', list')" "merged h' list' q (out @ [n])" "relinked out h h'"
      using add_merged_ok [OF less.prems(6) p(2,4,5)] p(1) by auto
    have "path h' (nxt (h ! n)) (ys' @ rest) None" using relinked_path [OF h'(3) _ p(3)] less.prems(5) ys by auto
    moreover have "path h' p xs r" using relinked_path [OF h'(3) _ less.prems(1)] less.prems(5) by auto
    moreover have "\<forall>i \<in> set (xs @ ys'). info (h' ! i) \<in> valid" using relinked_info [OF h'(3)] less.prems(8) bound ys by auto
    ultimately have "merges h' (out @ [n]) xs ys' rest s' (merge_loop cmp p psize (nxt (h ! n)) (qsize - 1) list' q h' s')"
      using less.prems(3,4,5) ys h'(2) s'(1) by (intro less.hyps) auto
    then have "merges h out xs ys rest s (merge_loop cmp p psize (nxt (h ! n)) (qsize - 1) list' q h' s')"
      by (rule merges_from [OF _ h'(3) s'(2)]) (use bound k s'(3) ys in auto)
    moreover have "qsize > 0" using sizes(2) ys by auto
    then have "merge_loop cmp p psize q qsize list tail h s = merge_loop cmp p psize (nxt (h ! n)) (qsize - 1) list' q h' s'"
      by (subst merge_loop.simps, unfold d) (use p(1,2) h'(1) in \<open>simp add: get_next_def\<close>)
    ultimately show ?thesis by simp
  qed
  show ?case
  proof (cases xs)
    case Nil
    show ?thesis
    proof (cases ys)
      case Nil
      then have "merge_loop cmp p psize q qsize list tail h s = Some (q, list, tail, h, s)"
        using sizes \<open>xs = []\<close> by (subst merge_loop.simps) auto
      then show ?thesis using less.prems Nil \<open>xs = []\<close>
        unfolding merges_def by (intro exI [of _ q] exI [of _ list] exI [of _ tail] exI [of _ h] exI [of _ s] exI [of _ "[]"]) simp
    next
      case (Cons n ys')
      then show ?thesis using from_q [OF Cons, of s] Nil sizes less.prems(7) by simp
    qed
  next
    case (Cons n xs')
    show ?thesis
    proof (cases ys)
      case Nil
      then show ?thesis using from_p [OF Cons, of s] Cons sizes less.prems(7) by simp
    next
      case (Cons m ys')
      have infos: "get_info h p = Some (info (h ! n))" "get_info h q = Some (info (h ! m))"
        using less.prems(1,2) \<open>xs = n # xs'\<close> Cons by (auto intro: get_info_path)
      have v: "info (h ! n) \<in> valid" "info (h ! m) \<in> valid" using less.prems(8) \<open>xs = n # xs'\<close> Cons by auto
      obtain r s' where c: "cmp (info (h ! n)) (info (h ! m)) s = Some (r, s')" "ok s'" "known s' (info (h ! n))" "known s' (info (h ! m))"
         "r \<le> 0 \<longleftrightarrow> key s' (info (h ! n)) \<le> key s' (info (h ! m))"
        using compares [OF less.prems(7) v] by blast
      have g: "grows s s'" using keeps [OF less.prems(7) v c(1)] by (simp add: grows_def)
      have d: "(if psize = 0 then Some (False, s) else if qsize = 0 \<or> q = None then Some (True, s)
        else do { a \<leftarrow> get_info h p; b \<leftarrow> get_info h q; (r, s) \<leftarrow> cmp a b s; Some (r \<le> 0, s) }) = Some (r \<le> 0, s')"
        using sizes \<open>xs = n # xs'\<close> Cons infos c(1) by auto
      have k: "(k (info (h ! n)) \<le> k (info (h ! m))) = (r \<le> 0)" if "settles k s'" for k
        using that c(3-5) by (simp add: settles_def)
      show ?thesis
      proof (cases "r \<le> 0")
        case True
        show ?thesis using from_p [OF \<open>xs = n # xs'\<close> _ c(2) g] d True c(3,4) k Cons \<open>xs = n # xs'\<close> by simp
      next
        case False
        show ?thesis using from_q [OF Cons _ c(2) g] d False c(3,4) k Cons \<open>xs = n # xs'\<close> by simp
      qed
    qed
  qed
qed

text \<open>A merge of two blocks.\<close>

lemma merges_known:
  assumes "merges h out xs ys rest s (Some (q, list, tail, h', s'))" "xs \<noteq> []" "xs = [x] \<or> (\<forall>i \<in> set xs. known s (info (h ! i)))"
    "ys = [] \<or> ys = [y] \<or> (\<forall>i \<in> set ys. known s (info (h ! i)))" "2 \<le> length (xs @ ys)"
  shows "\<forall>i \<in> set (xs @ ys). known s' (info (h ! i))"
proof -
  have g: "grows s s'" "xs \<noteq> [] \<and> ys \<noteq> [] \<longrightarrow> known s' (info (h ! hd xs)) \<and> known s' (info (h ! hd ys))"
    using assms(1) by (auto simp: merges_def)
  show ?thesis
    using assms(2-5) g(2) grows_known [OF g(1)] by (cases "ys = []") auto
qed

lemma merge_pass_ok:
  assumes "0 < n" "path h p xs None" "distinct (out @ xs)" "merged h list tail out" "ok s" "\<forall>i \<in> set xs. info (h ! i) \<in> valid"
    "blocks_known (\<lambda>i. known s (info (h ! i))) n xs"
  shows "\<exists>m list' tail' h' s' ms. merge_pass cmp n p c list tail h s = Some (c + m, list', tail', h', s') \<and> (m \<le> 1 \<longleftrightarrow> length xs \<le> 2 * n)
     \<and> merged h' list' tail' (out @ ms) \<and> ok s' \<and> grows s s' \<and> relinked (out @ xs) h h'
     \<and> (\<forall>k. settles k s' \<longrightarrow> ms = pass_by (by_info h k) n xs) \<and> blocks_known (\<lambda>i. known s' (info (h ! i))) (2 * n) ms
     \<and> (m = 0 \<longleftrightarrow> xs = [])"
  using assms(2-7)
proof (induction "length xs" arbitrary: xs h p out list tail s c rule: less_induct)
  case less
  show ?case
  proof (cases "xs = []")
    case True
    then have "p = None" using less.prems(1) by simp
    then have "merge_pass cmp n p c list tail h s = Some (c + 0, list, tail, h, s)" by (subst merge_pass.simps) simp
    then show ?thesis using True less.prems
      by (intro exI [of _ 0] exI [of _ list] exI [of _ tail] exI [of _ h] exI [of _ s] exI [of _ "[]"]) simp
  next
    case False
    let ?lx = "take n xs" and ?bs = "take n (drop n xs)" and ?rest = "drop n (drop n xs)"
    obtain q where q: "step_along h n 0 p = Some (length ?lx, q)" "path h p ?lx q" "path h q (drop n xs) None"
      using step_along_ok [OF less.prems(1) False assms(1), of 0] by auto
    have p: "p \<noteq> None" using less.prems(1) False by (cases xs) auto
    have lx: "?lx \<noteq> []" using False assms(1) by simp
    have parts: "?lx @ ?bs @ ?rest = xs" by (metis append_take_drop_id)
    then have dist: "distinct (out @ ?lx @ ?bs @ ?rest)" using less.prems(2) by simp
    have sub: "set (?lx @ ?bs) \<subseteq> set xs" by (metis parts append.assoc set_append Un_upper1)
    have "merges h out ?lx ?bs ?rest s (merge_loop cmp p (length ?lx) q n list tail h s)"
    proof (rule merge_loop_ok [OF q(2) _ refl _ dist less.prems(3,4)])
      show "path h q (?bs @ ?rest) None" using q(3) by (simp only: append_take_drop_id)
      show "n = length ?bs \<or> length ?bs \<le> n \<and> ?rest = []" by auto
      show "\<forall>i \<in> set (?lx @ ?bs). info (h ! i) \<in> valid" using less.prems(5) sub by blast
    qed
    then obtain r list1 tail1 h1 s1 ms where m: "merge_loop cmp p (length ?lx) q n list tail h s = Some (r, list1, tail1, h1, s1)"
       "path h1 r ?rest None" "merged h1 list1 tail1 (out @ ms)" "ok s1" "grows s s1" "relinked (out @ ?lx @ ?bs) h h1"
       "\<And>k. settles k s1 \<Longrightarrow> ms = merge_by (by_info h k) ?lx ?bs"
       "merges h out ?lx ?bs ?rest s (Some (r, list1, tail1, h1, s1))"
      unfolding merges_def by blast
    have ms: "mset ms = mset ?lx + mset ?bs" using m(7) [OF settles_key] by simp
    then have sets: "set ms = set ?lx \<union> set ?bs" and len: "length ms = length ?lx + length ?bs"
      by (metis set_mset_mset set_mset_union) (metis ms size_mset size_union)
    have dist1: "distinct ((out @ ms) @ ?rest)"
    proof -
      have "mset ((out @ ms) @ ?rest) = mset (out @ ?lx @ ?bs @ ?rest)" using ms by simp
      then show ?thesis using dist by (metis mset_eq_imp_distinct_iff)
    qed
    have bound: "i < length h" if "i \<in> set xs" for i using path_bound [OF less.prems(1)] that .
    have infos: "info (h1 ! i) = info (h ! i)" if "i \<in> set xs" for i
      using relinked_info [OF m(6)] bound that by blast
    have rest_sub: "i \<in> set xs" if "i \<in> set ?rest" for i using that by (meson in_set_dropD)
    have known_rest: "blocks_known (\<lambda>i. known s (info (h ! i))) n ?rest"
      using less.prems(6) assms(1) by (intro blocks_knownD(1))
    have "blocks_known (\<lambda>i. known s1 (info (h1 ! i))) n ?rest"
      by (rule blocks_known_mono [OF known_rest]) (use grows_known [OF m(5)] infos rest_sub in auto)
    moreover have "length ?rest < length xs" using False assms(1) by simp
    moreover have "\<forall>i \<in> set ?rest. info (h1 ! i) \<in> valid" using less.prems(5) infos rest_sub by auto
    ultimately obtain j list' tail' h' s' ms' where u: "merge_pass cmp n r (c + 1) list1 tail1 h1 s1 = Some (c + 1 + j, list', tail', h', s')"
       "j \<le> 1 \<longleftrightarrow> length ?rest \<le> 2 * n" "merged h' list' tail' ((out @ ms) @ ms')" "ok s'" "grows s1 s'"
       "relinked ((out @ ms) @ ?rest) h1 h'" "\<And>k. settles k s' \<Longrightarrow> ms' = pass_by (by_info h1 k) n ?rest"
       "blocks_known (\<lambda>i. known s' (info (h1 ! i))) (2 * n) ms'" "j = 0 \<longleftrightarrow> ?rest = []"
      using less.hyps [OF _ m(2) dist1 m(3,4), of "c + 1"] by blast
    have "merge_pass cmp n p c list tail h s = Some (c + (1 + j), list', tail', h', s')"
      using p u(1) by (subst merge_pass.simps) (simp add: q(1) m(1) del: length_take)
    moreover have "1 + j \<le> 1 \<longleftrightarrow> length xs \<le> 2 * n" using u(9) by auto
    moreover have "merged h' list' tail' (out @ ms @ ms')" using u(3) by simp
    moreover have "grows s s'" using m(5) u(5) by (rule grows_trans)
    moreover have "relinked (out @ xs) h h'"
    proof (rule relinked_trans)
      show "relinked (out @ xs) h h1" using m(6) sub by (rule_tac relinked_mono) auto
      show "relinked (out @ xs) h1 h'" using u(6) sub rest_sub by (rule_tac relinked_mono) (auto simp: sets)
    qed
    moreover have "ms @ ms' = pass_by (by_info h k) n xs" if "settles k s'" for k
    proof -
      have "ms' = pass_by (by_info h1 k) n ?rest" using u(7) that .
      also have "\<dots> = pass_by (by_info h k) n ?rest" using infos rest_sub by (intro pass_by_cong) auto
      finally show ?thesis using m(7) [OF settles_grows [OF that u(5)]] by (subst pass_by_rec [OF assms(1)]) simp
    qed
    moreover have "blocks_known (\<lambda>i. known s' (info (h ! i))) (2 * n) (ms @ ms')"
    proof (rule blocks_known_append)
      show "0 < 2 * n" using assms(1) by simp
      show "length ms \<le> 2 * n" using len by simp
      show "ms' = [] \<or> length ms = 2 * n"
      proof (cases "?rest = []")
        case True
        then show ?thesis using u(7) [OF settles_key] by simp
      next
        case False
        then show ?thesis using len by simp
      qed
      show "\<forall>i \<in> set ms. known s' (info (h ! i))" if "2 \<le> length ms"
      proof -
        have first: "2 \<le> length ?lx \<longrightarrow> (\<forall>i \<in> set ?lx. known s (info (h ! i)))" "2 \<le> length ?bs \<longrightarrow> (\<forall>i \<in> set ?bs. known s (info (h ! i)))"
          using blocks_knownD(2) [OF less.prems(6) assms(1)] blocks_knownD(2) [OF blocks_knownD(1) [OF less.prems(6) assms(1)] assms(1)] by blast+
        have short: "l = [] \<or> l = [hd l] \<or> 2 \<le> length l" for l :: "nat list" by (cases l rule: remdups_adj.cases) auto
        have "?lx = [hd ?lx] \<or> (\<forall>i \<in> set ?lx. known s (info (h ! i)))" "?bs = [] \<or> ?bs = [hd ?bs] \<or> (\<forall>i \<in> set ?bs. known s (info (h ! i)))"
          using first lx short [of ?lx] short [of ?bs] by blast+
        then have "\<forall>i \<in> set (?lx @ ?bs). known s1 (info (h ! i))"
          using merges_known [OF m(8) lx] that len by auto
        then show ?thesis using sets grows_known [OF u(5)] by auto
      qed
      show "blocks_known (\<lambda>i. known s' (info (h ! i))) (2 * n) ms'"
      proof (rule blocks_known_mono [OF u(8)])
        fix i assume i: "i \<in> set ms'" "known s' (info (h1 ! i))"
        have "mset ms' = mset ?rest" using u(7) [OF settles_key] mset_pass_by [OF assms(1)] by simp
        then have "i \<in> set xs" using i(1) rest_sub mset_eq_setD by blast
        then show "known s' (info (h ! i))" using i(2) infos by simp
      qed
    qed
    ultimately show ?thesis using u(4)
      by (intro exI [of _ "1 + j"] exI [of _ list'] exI [of _ tail'] exI [of _ h'] exI [of _ s'] exI [of _ "ms @ ms'"]) (simp add: False)
  qed
qed

text \<open>All passes.\<close>

lemma merged_ends:
  assumes "merged h list tail out" "out \<noteq> []" "distinct out"
  shows "\<exists>h'. set_next h tail None = Some h' \<and> path h' list out None \<and> relinked out h h'"
proof -
  let ?l = "last out"
  let ?h = "h[?l := (h ! ?l)\<lparr>nxt := None\<rparr>]"
  have m: "tail = Some ?l" "?l < length h" "path h list (butlast out) (Some ?l)"
    using assms(1,2) by (auto simp: merged_def)
  have out: "out = butlast out @ [?l]" using assms(2) by simp
  then have "?l \<notin> set (butlast out)" using assms(3) by (metis distinct_append distinct.simps(2) disjoint_iff list.set_intros(1))
  then have "path ?h list (butlast out @ [?l]) None" using m by (simp add: path_append)
  moreover have "relinked out h ?h" using assms(2) by (intro relinked_set_next) simp
  ultimately show ?thesis using m out by (simp add: set_next_at)
qed

lemma sort_loop_ok:
  assumes "0 < n" "path h list ns None" "distinct ns" "ns \<noteq> []" "ok s" "\<forall>i \<in> set ns. info (h ! i) \<in> valid"
    "blocks_known (\<lambda>i. known s (info (h ! i))) n ns" "mset ns = mset orig" "\<And>k. settles k s \<Longrightarrow> ns = sorted_blocks (by_info h k) n orig"
  shows "\<exists>list' h' s'. sort_loop cmp n list h s = Some (list', h', s') \<and> ok s' \<and> grows s s' \<and> relinked ns h h'
     \<and> path h' list' (sort_key (by_info h (key s')) orig) None \<and> (2 \<le> length ns \<longrightarrow> (\<forall>i \<in> set ns. known s' (info (h ! i))))"
  using assms
proof (induction "length ns - n" arbitrary: n h list ns s rule: less_induct)
  case less
  have "merged h None None []" by (simp add: merged_def)
  then obtain m l t h1 s1 ms where m: "merge_pass cmp n list 0 None None h s = Some (m, l, t, h1, s1)" "m \<le> 1 \<longleftrightarrow> length ns \<le> 2 * n"
     "merged h1 l t ms" "ok s1" "grows s s1" "relinked ns h h1" "\<And>k. settles k s1 \<Longrightarrow> ms = pass_by (by_info h k) n ns"
     "blocks_known (\<lambda>i. known s1 (info (h ! i))) (2 * n) ms"
    using merge_pass_ok [OF less.prems(1,2), of "[]" None None s 0] less.prems(3,5-7) by auto
  have mset: "mset ms = mset ns" using m(7) [OF settles_key] mset_pass_by [OF less.prems(1)] by simp
  then have set: "set ms = set ns" "length ms = length ns" "ms \<noteq> []" "distinct ms"
    using less.prems(3,4) mset_eq_setD mset_eq_length mset_eq_imp_distinct_iff by (blast, blast, fastforce, blast)
  obtain h2 where h2: "set_next h1 t None = Some h2" "path h2 l ms None" "relinked ms h1 h2"
    using merged_ends [OF m(3) set(3,4)] by blast
  have rel: "relinked ns h h2" using relinked_trans [OF m(6)] relinked_mono [OF h2(3), of ns] set(1) by simp
  have infos: "info (h2 ! i) = info (h ! i)" if "i \<in> set ns" for i
    using relinked_info [OF rel] path_bound [OF less.prems(2) that] by blast
  have blocks: "ms = sorted_blocks (by_info h k) (2 * n) orig" if "settles k s1" for k
    using m(7) [OF that] less.prems(9) [OF settles_grows [OF that m(5)]] pass_sorted_blocks [OF less.prems(1)] by simp
  show ?case
  proof (cases "m \<le> 1")
    case True
    then have n: "length ns \<le> 2 * n" using m(2) by simp
    have "sort_loop cmp n list h s = Some (l, h2, s1)" using m(1) h2(1) True by (subst sort_loop.simps) simp
    moreover have "length orig = length ns" using less.prems(8) mset_eq_length by metis
    then have "path h2 l (sort_key (by_info h (key s1)) orig) None"
      using blocks [OF settles_key] h2(2) n by (simp add: sorted_blocks_all)
    moreover have "\<forall>i \<in> set ns. known s1 (info (h ! i))" if "2 \<le> length ns"
      using blocks_knownD(2) [OF m(8)] less.prems(1) that n set(1,2) by simp
    ultimately show ?thesis using m(4,5) rel by blast
  next
    case False
    then have n: "2 * n < length ns" using m(2) by simp
    have "\<exists>list' h' s'. sort_loop cmp (2 * n) l h2 s1 = Some (list', h', s') \<and> ok s' \<and> grows s1 s' \<and> relinked ms h2 h'
       \<and> path h' list' (sort_key (by_info h2 (key s')) orig) None \<and> (2 \<le> length ms \<longrightarrow> (\<forall>i \<in> set ms. known s' (info (h2 ! i))))"
    proof (rule less.hyps)
      show "length ms - 2 * n < length ns - n" using n set(2) less.prems(1) by simp
      show "\<forall>i \<in> set ms. info (h2 ! i) \<in> valid" using less.prems(6) infos set(1) by simp
      show "blocks_known (\<lambda>i. known s1 (info (h2 ! i))) (2 * n) ms"
        by (rule blocks_known_mono [OF m(8)]) (use infos set(1) in auto)
      show "ms = sorted_blocks (by_info h2 k) (2 * n) orig" if "settles k s1" for k
      proof -
        have "set orig = set ns" using less.prems(8) mset_eq_setD by metis
        then have "sorted_blocks (by_info h2 k) (2 * n) orig = sorted_blocks (by_info h k) (2 * n) orig"
          using infos by (intro sorted_blocks_cong) simp
        then show ?thesis using blocks [OF that] by simp
      qed
    qed (use less.prems(1,8) h2(2) set m(4) mset in simp_all)
    then obtain l' h' s' where u: "sort_loop cmp (2 * n) l h2 s1 = Some (l', h', s')" "ok s'" "grows s1 s'" "relinked ms h2 h'"
       "path h' l' (sort_key (by_info h2 (key s')) orig) None" "2 \<le> length ms \<longrightarrow> (\<forall>i \<in> set ms. known s' (info (h2 ! i)))" by blast
    have "sort_loop cmp n list h s = Some (l', h', s')"
      using m(1) h2(1) False u(1) by (subst sort_loop.simps) (simp add: mult.commute)
    moreover have "relinked ns h h'" using relinked_trans [OF rel] relinked_mono [OF u(4), of ns] set(1) by simp
    moreover have "set orig = set ns" using less.prems(8) mset_eq_setD by metis
    then have "sort_key (by_info h2 (key s')) orig = sort_key (by_info h (key s')) orig"
      using infos by (intro sort_key_cong) simp
    ultimately show ?thesis using u(2,3,5,6) grows_trans [OF m(5)] set infos by auto
  qed
qed

lemma mergesort_ok:
  assumes "path h list ns None" "distinct ns" "ns \<noteq> []" "ok s" "\<forall>i \<in> set ns. info (h ! i) \<in> valid"
  shows "\<exists>list' h' s'. core_list_mergesort cmp list h s = Some (list', h', s') \<and> ok s' \<and> grows s s' \<and> relinked ns h h'
     \<and> path h' list' (sort_key (by_info h (key s')) ns) None \<and> (2 \<le> length ns \<longrightarrow> (\<forall>i \<in> set ns. known s' (info (h ! i))))"
  unfolding core_list_mergesort_def
  by (rule sort_loop_ok) (use assms in \<open>auto simp: blocks_known_one [simplified] sorted_blocks_one [simplified]\<close>)

end

text \<open>For the empty list the sort follows a null pointer, although a comment allows for it.\<close>

lemma mergesort_empty: "core_list_mergesort cmp None h s = None"
proof -
  have "merge_pass cmp 1 None 0 None None h s = Some (0, None, None, h, s)" by (subst merge_pass.simps) simp
  then show ?thesis unfolding core_list_mergesort_def by (subst sort_loop.simps) (simp add: set_next_def)
qed

end
