(* ===== verification/CoreListBench.thy ===== *)
theory CoreListBench
  imports CoreList CoreMatrix CoreState
begin

text \<open>
  The list benchmark of CoreMark, \<open>benchmarks/wasi/coremark/core_list_join.c\<close>: the items and their two orders,
  the calls of the other two kernels that compute and cache the value of an item, and \<open>core_bench_list\<close>.
\<close>

section \<open>The code\<close>

text \<open>[coremark/coremark.h 91-95 list_data_s]\<close>

record list_data =
  data16 :: s16
  idx :: s16

text \<open>[coremark/coremark.h 137-157 core_results] The fields that the kernels use; \<open>memblock3\<close> is \<open>memblock[3]\<close>.\<close>

record core_results =
  seed1 :: s16
  seed2 :: s16
  seed3 :: s16
  memblock3 :: "u8 list"
  res_size :: nat
  iterations :: nat
  res_list :: "nat option"
  mat :: mat_params
  crc :: u16
  crclist :: u16
  crcmatrix :: u16
  crcstate :: u16

text \<open>[coremark/core_list_join.c 81-108 calc_func] The switch on the type of the operation: the value, and the results.\<close>

definition operate :: "s16 \<Rightarrow> core_results \<Rightarrow> (s16 \<times> core_results) option" where
  "operate data res =
     (let flag = data AND 0x7;
          dtype = signed_drop_bit 3 data AND 0xf;
          dtype = dtype OR push_bit 4 dtype
      in if flag = 0
         then do { let dtype = (if dtype <s 0x22 then 0x22 else dtype);
                   (retval, blk) \<leftarrow> core_bench_state (res_size res) (memblock3 res) (seed1 res) (seed2 res) dtype (crc res);
                   Some (retval, res\<lparr>memblock3 := blk, crcstate := (if crcstate res = 0 then retval else crcstate res)\<rparr>) }
         else if flag = 1
         then do { (retval, m) \<leftarrow> core_bench_matrix (mat res) dtype (crc res);
                   Some (retval, res\<lparr>mat := m, crcmatrix := (if crcmatrix res = 0 then retval else crcmatrix res)\<rparr>) }
         else Some (data, res))"

text \<open>[coremark/core_list_join.c 69-114 calc_func] The value of the item \<open>a\<close>; it is computed once and then cached.\<close>

definition calc_func :: "nat \<Rightarrow> list_data list \<Rightarrow> core_results \<Rightarrow> (s16 \<times> list_data list \<times> core_results) option" where
  "calc_func a ds res =
     do { d \<leftarrow> aget ds a;
          let data = data16 d;
          if signed_drop_bit 7 data AND 1 \<noteq> 0 then Some (data AND 0x7f, ds, res)
          else do { (retval, res) \<leftarrow> operate data res;
                    let res = res\<lparr>crc := crcu16 retval (crc res)\<rparr>;
                    let retval = retval AND 0x7f;
                    ds \<leftarrow> aput ds a (d\<lparr>data16 := (data AND 0xff00) OR 0x80 OR retval\<rparr>);
                    Some (retval, ds, res) } }"

text \<open>[coremark/core_list_join.c 120-126 cmp_complex] The state is the items and \<open>res\<close>, which can be null.\<close>

definition cmp_complex :: "nat \<Rightarrow> nat \<Rightarrow> list_data list \<times> core_results option \<Rightarrow> (int \<times> list_data list \<times> core_results option) option" where
  "cmp_complex a b s =
     do { res \<leftarrow> snd s;
          (val1, ds, res) \<leftarrow> calc_func a (fst s) res;
          (val2, ds, res) \<leftarrow> calc_func b ds res;
          Some (sint val1 - sint val2, ds, Some res) }"

text \<open>[coremark/core_list_join.c 138-138 cmp_idx] Regenerate the data of an item.\<close>

definition regen :: "list_data \<Rightarrow> list_data" where
  "regen d = d\<lparr>data16 := (data16 d AND 0xff00) OR (0x00ff AND signed_drop_bit 8 (data16 d))\<rparr>"

text \<open>[coremark/core_list_join.c 133-142 cmp_idx]\<close>

definition cmp_idx :: "nat \<Rightarrow> nat \<Rightarrow> list_data list \<times> core_results option \<Rightarrow> (int \<times> list_data list \<times> core_results option) option" where
  "cmp_idx a b s =
     do { let (ds, res) = s;
          ds \<leftarrow> (if res = None
                 then do { d \<leftarrow> aget ds a; ds \<leftarrow> aput ds a (regen d); d \<leftarrow> aget ds b; aput ds b (regen d) }
                 else Some ds);
          x \<leftarrow> aget ds a;
          y \<leftarrow> aget ds b;
          Some (sint (idx x) - sint (idx y), ds, res) }"

text \<open>[coremark/core_list_join.c 439-440 core_list_find] The loop, for the two conditions.\<close>

partial_function (option) find_loop ::
    "(list_data \<Rightarrow> bool) \<Rightarrow> list_head list \<Rightarrow> list_data list \<Rightarrow> nat option \<Rightarrow> nat option option" where
  "find_loop differs h ds list =
     (if list = None then Some None
      else do { a \<leftarrow> get_info h list;
                d \<leftarrow> aget ds a;
                if differs d then do { list \<leftarrow> get_next h list; find_loop differs h ds list } else Some list })"

declare find_loop.simps [code]

text \<open>[coremark/core_list_join.c 434-449 core_list_find]\<close>

definition core_list_find :: "list_head list \<Rightarrow> list_data list \<Rightarrow> nat option \<Rightarrow> list_data \<Rightarrow> nat option option" where
  "core_list_find h ds list key =
     (if 0 \<le>s idx key then find_loop (\<lambda>d. idx d \<noteq> idx key) h ds list
      else find_loop (\<lambda>d. data16 d AND 0xff \<noteq> data16 key) h ds list)"

text \<open>
  [coremark/core_list_join.c 173-202 core_bench_list] A round of the first loop. The state is the heads, \<open>list\<close>,
  \<open>retval\<close>, \<open>found\<close>, \<open>missed\<close> and \<open>info\<close>.
\<close>

definition find_round :: "list_data list \<Rightarrow> nat \<Rightarrow> list_head list \<times> nat option \<times> u16 \<times> u16 \<times> u16 \<times> list_data
    \<Rightarrow> (list_head list \<times> nat option \<times> u16 \<times> u16 \<times> u16 \<times> list_data) option" where
  "find_round ds i = (\<lambda>(h, list, retval, found, missed, key).
     do { let key = key\<lparr>data16 := of_nat i AND 0xff\<rparr>;
          this_find \<leftarrow> core_list_find h ds list key;
          (h, list) \<leftarrow> core_list_reverse h list;
          (h, retval, found, missed) \<leftarrow>
            (if this_find = None
             then do { n \<leftarrow> get_next h list; a \<leftarrow> get_info h n; d \<leftarrow> aget ds a;
                       Some (h, retval + (signed_drop_bit 8 (data16 d) AND 1), found, missed + 1) }
             else do { a \<leftarrow> get_info h this_find; d \<leftarrow> aget ds a;
                       let retval = (if data16 d AND 1 \<noteq> 0 then retval + (signed_drop_bit 9 (data16 d) AND 1) else retval);
                       finder \<leftarrow> get_next h this_find;
                       h \<leftarrow> (if finder \<noteq> None
                             then do { n \<leftarrow> get_next h finder; h \<leftarrow> set_next h this_find n;
                                       n \<leftarrow> get_next h list; h \<leftarrow> set_next h finder n; set_next h list finder }
                             else Some h);
                       Some (h, retval, found + 1, missed) });
          Some (h, list, retval, found, missed, if 0 \<le>s idx key then key\<lparr>idx := idx key + 1\<rparr> else key) })"

text \<open>[coremark/core_list_join.c 213-217 core_bench_list] The CRC loops; they read the head of the list every time.\<close>

partial_function (option) crc_loop ::
    "list_head list \<Rightarrow> list_data list \<Rightarrow> nat option \<Rightarrow> nat option \<Rightarrow> u16 \<Rightarrow> u16 option" where
  "crc_loop h ds list finder retval =
     (if finder = None then Some retval
      else do { a \<leftarrow> get_info h list; d \<leftarrow> aget ds a;
                finder \<leftarrow> get_next h finder;
                crc_loop h ds list finder (crc16 (data16 d) retval) })"

declare crc_loop.simps [code]

text \<open>
  [coremark/core_list_join.c 158-235 core_bench_list] The heads and the items are the memory. The result is the
  value that is returned, and the memory and the results afterwards.
\<close>

definition core_bench_list :: "list_head list \<Rightarrow> list_data list \<Rightarrow> core_results \<Rightarrow> s16
    \<Rightarrow> (u16 \<times> list_head list \<times> list_data list \<times> core_results) option" where
  "core_bench_list h ds res finder_idx =
     do { (h, list, retval, found, missed, key) \<leftarrow>
            for_in [0..<nat (sint (seed3 res))] (find_round ds) (h, res_list res, 0, 0, 0, \<lparr>data16 = 0, idx = finder_idx\<rparr>);
          let retval = retval + (found * 4 - missed);
          (list, h, ds, res) \<leftarrow>
            (if 0 <s finder_idx
             then do { (list, h, ds, r) \<leftarrow> core_list_mergesort cmp_complex list h (ds, Some res); res \<leftarrow> r; Some (list, h, ds, res) }
             else Some (list, h, ds, res));
          n \<leftarrow> get_next h list;
          (h, remover) \<leftarrow> core_list_remove h n;
          finder \<leftarrow> core_list_find h ds list key;
          finder \<leftarrow> (if finder = None then get_next h list else Some finder);
          retval \<leftarrow> crc_loop h ds list finder retval;
          n \<leftarrow> get_next h list;
          (h, remover) \<leftarrow> core_list_undo_remove h remover n;
          (list, h, ds, _) \<leftarrow> core_list_mergesort cmp_idx list h (ds, None);
          finder \<leftarrow> get_next h list;
          retval \<leftarrow> crc_loop h ds list finder retval;
          Some (retval, h, ds, res) }"

section \<open>Words of 16 bits\<close>

lemma masks16: "(0x7f :: 16 word) = mask 7" "(0xff :: 16 word) = mask 8" "(0xff00 :: 16 word) = NOT (mask 8)"
  by (simp_all add: mask_eq_exp_minus_1 not_eq_complement)

lemma bit_80: "bit (0x80 :: 16 word) n \<longleftrightarrow> n = 7"
proof -
  have "(0x80 :: 16 word) = 2 ^ 7" by simp
  then show ?thesis by (simp only: bit_exp_iff) (auto simp: bit_simps)
qed

lemma bit_regen: "n < 16 \<Longrightarrow> bit (data16 (regen d)) n = bit (data16 d) (if n < 8 then n + 8 else n)"
  by (auto simp: regen_def masks16 bit_simps min_def ac_simps)

lemma regen_idem: "regen (regen d) = regen d"
proof -
  have "data16 (regen (regen d)) = data16 (regen d)"
    by (rule bit_word_eqI) (simp add: bit_regen)
  then show ?thesis by (simp add: regen_def)
qed

lemma regen_high: "data16 (regen d) AND 0xff00 = data16 d AND 0xff00"
  by (rule bit_word_eqI) (auto simp: bit_regen bit_simps masks16)

lemma idx_regen [simp]: "idx (regen d) = idx d"
  by (simp add: regen_def)

lemma regen_eq:
  assumes "data16 d AND 0xff00 = data16 e AND 0xff00" "idx d = idx e" "regen d = d" "regen e = e"
  shows "d = e"
proof -
  have high: "bit (data16 d) n = bit (data16 e) n" if "8 \<le> n" "n < 16" for n
    using assms(1) that by (auto simp: bit_eq_iff bit_simps masks16)
  have "bit (data16 (regen d)) n = bit (data16 (regen e)) n" if "n < 16" for n
    using that high [of n] high [of "n + 8"] by (auto simp: bit_regen)
  then have "data16 (regen d) = data16 (regen e)" by (intro bit_word_eqI) simp
  then show ?thesis using assms(2-4) by simp
qed

lemma bit_cached:
  "n < 16 \<Longrightarrow> bit ((x AND 0xff00) OR 0x80 OR (r AND 0x7f) :: 16 word) n \<longleftrightarrow> (if n < 7 then bit r n else n = 7 \<or> bit x n)"
  by (cases "n < 7"; cases "n = 7") (simp_all add: masks16 bit_80 bit_and_iff bit_or_iff bit_not_iff bit_mask_iff del: bit_numeral_word_iff)

lemma cached_bits:
  fixes x r :: "16 word"
  defines "y \<equiv> (x AND 0xff00) OR 0x80 OR (r AND 0x7f)"
  shows "bit y 7" "y AND 0xff00 = x AND 0xff00" "y AND 0x7f = r AND 0x7f"
proof -
  have bit: "n < 16 \<Longrightarrow> bit y n \<longleftrightarrow> (if n < 7 then bit r n else n = 7 \<or> bit x n)" for n
    unfolding y_def by (rule bit_cached)
  show "bit y 7" by (simp add: bit)
  show "y AND 0xff00 = x AND 0xff00"
    by (rule bit_word_eqI) (auto simp: bit masks16 bit_and_iff bit_not_iff bit_mask_iff)
  show "y AND 0x7f = r AND 0x7f"
    by (rule bit_word_eqI) (auto simp: bit masks16 bit_and_iff bit_mask_iff)
qed

lemma cached_test: "signed_drop_bit 7 (x :: 16 word) AND 1 \<noteq> 0 \<longleftrightarrow> bit x 7"
proof -
  have "signed_drop_bit 7 x AND 1 \<noteq> 0 \<longleftrightarrow> bit (signed_drop_bit 7 x) 0"
    by (simp add: and_one_eq bit_0 odd_iff_mod_2_eq_one)
  then show ?thesis by (simp add: bit_simps)
qed

section \<open>The two orders\<close>

text \<open>What both comparisons leave alone: the index and the upper byte of every item, and the items outside \<open>V\<close>.\<close>

definition tagged :: "nat set \<Rightarrow> list_data list \<Rightarrow> list_data list \<Rightarrow> bool" where
  "tagged V ds0 ds \<longleftrightarrow> V \<subseteq> {..<length ds0} \<and> length ds = length ds0
     \<and> (\<forall>i < length ds0. idx (ds ! i) = idx (ds0 ! i) \<and> data16 (ds ! i) AND 0xff00 = data16 (ds0 ! i) AND 0xff00
          \<and> (i \<notin> V \<longrightarrow> ds ! i = ds0 ! i))"

lemma tagged_refl: "V \<subseteq> {..<length ds} \<Longrightarrow> tagged V ds ds"
  by (simp add: tagged_def)

lemma tagged_bound: "tagged V ds0 ds \<Longrightarrow> a \<in> V \<Longrightarrow> a < length ds"
  by (auto simp: tagged_def)

lemma tagged_update:
  assumes "tagged V ds0 ds" "a \<in> V" "idx d = idx (ds ! a)" "data16 d AND 0xff00 = data16 (ds ! a) AND 0xff00"
  shows "tagged V ds0 (ds[a := d])"
  using assms by (auto simp: tagged_def nth_list_update)

lemma tagged_same:
  assumes "tagged V ds0 ds" "\<forall>a \<in> V. regen (ds ! a) = ds ! a" "\<forall>a \<in> V. regen (ds0 ! a) = ds0 ! a"
  shows "ds = ds0"
proof (rule nth_equalityI)
  show "length ds = length ds0" using assms(1) by (simp add: tagged_def)
  fix i assume "i < length ds"
  then show "ds ! i = ds0 ! i"
    using assms regen_eq [of "ds ! i" "ds0 ! i"] by (cases "i \<in> V") (auto simp: tagged_def)
qed

text \<open>The order by index, without results; the keys are known from the beginning, but the data are regenerated.\<close>

definition idx_ok :: "nat set \<Rightarrow> list_data list \<Rightarrow> list_data list \<times> core_results option \<Rightarrow> bool" where
  "idx_ok V ds0 s \<longleftrightarrow> tagged V ds0 (fst s) \<and> snd s = None"

definition regenerated :: "list_data list \<times> core_results option \<Rightarrow> nat \<Rightarrow> bool" where
  "regenerated s a \<longleftrightarrow> a < length (fst s) \<and> regen (fst s ! a) = fst s ! a"

definition by_idx :: "list_data list \<times> core_results option \<Rightarrow> nat \<Rightarrow> int" where
  "by_idx s a = sint (idx (fst s ! a))"

lemma cmp_idx_eq:
  assumes "idx_ok V ds0 s" "a \<in> V" "b \<in> V"
  shows "cmp_idx a b s = Some (by_idx s a - by_idx s b, (fst s)[a := regen (fst s ! a), b := regen (fst s ! b)], None)"
proof -
  have bound: "a < length (fst s)" "b < length (fst s)" using assms tagged_bound by (auto simp: idx_ok_def)
  have "regen ((fst s)[a := regen (fst s ! a)] ! b) = regen (fst s ! b)"
    using bound by (simp add: nth_list_update regen_idem)
  then show ?thesis using assms(1) bound
    by (simp add: cmp_idx_def idx_ok_def by_idx_def Let_def split_beta nth_list_update)
qed

interpretation idx_order: comparison cmp_idx "idx_ok V ds0" V regenerated by_idx for V ds0
proof
  fix s a b assume s: "idx_ok V ds0 s" "a \<in> V" "b \<in> V"
  let ?ds = "(fst s)[a := regen (fst s ! a), b := regen (fst s ! b)]"
  have t: "tagged V ds0 (fst s)" "snd s = None" using s(1) by (simp_all add: idx_ok_def)
  have bound: "a < length (fst s)" "b < length (fst s)" using s t tagged_bound by auto
  have "tagged V ds0 ((fst s)[a := regen (fst s ! a)])" using t(1) s(2) by (rule tagged_update) (simp_all add: regen_high)
  then have "tagged V ds0 ?ds" using s(3) by (rule tagged_update) (use bound in \<open>auto simp: regen_high nth_list_update\<close>)
  then show "\<exists>r s'. cmp_idx a b s = Some (r, s') \<and> idx_ok V ds0 s' \<and> regenerated s' a \<and> regenerated s' b \<and> (r \<le> 0 \<longleftrightarrow> by_idx s' a \<le> by_idx s' b)"
    using bound by (simp add: cmp_idx_eq [OF s] idx_ok_def regenerated_def by_idx_def nth_list_update regen_idem)
  fix r s' c assume "cmp_idx a b s = Some (r, s')" "regenerated s c"
  then show "regenerated s' c \<and> by_idx s' c = by_idx s c"
    using bound by (auto simp: cmp_idx_eq [OF s] regenerated_def by_idx_def nth_list_update regen_idem)
qed

text \<open>The order by value. The other kernels can be called again and again.\<close>

definition kernels_ready :: "core_results \<Rightarrow> bool" where
  "kernels_ready res \<longleftrightarrow> seed1 res = seed2 res \<and> harmless (seed1 res) \<and> input_block (res_size res) (memblock3 res) \<and> mat_wf (mat res)"

definition same_inputs :: "core_results \<Rightarrow> core_results \<Rightarrow> bool" where
  "same_inputs res0 res \<longleftrightarrow> seed1 res = seed1 res0 \<and> seed2 res = seed2 res0 \<and> seed3 res = seed3 res0 \<and> memblock3 res = memblock3 res0
     \<and> res_size res = res_size res0 \<and> iterations res = iterations res0 \<and> res_list res = res_list res0 \<and> mp_N (mat res) = mp_N (mat res0)
     \<and> mp_A (mat res) = mp_A (mat res0) \<and> mp_B (mat res) = mp_B (mat res0) \<and> mat_wf (mat res)"

lemma operate_ok:
  assumes "kernels_ready res0" "same_inputs res0 res"
  shows "\<exists>v res'. operate data res = Some (v, res') \<and> same_inputs res0 res'"
proof -
  let ?d = "signed_drop_bit 3 data AND 0xf"
  let ?e = "?d OR push_bit 4 ?d"
  have r: "seed1 res = seed2 res" "harmless (seed2 res)" "input_block (res_size res) (memblock3 res)" "mat_wf (mat res)"
    using assms by (auto simp: kernels_ready_def same_inputs_def)
  obtain c blk where blk: "core_bench_state (res_size res) (memblock3 res) (seed2 res) (seed2 res) (if ?e <s 0x22 then 0x22 else ?e) (crc res) = Some (c, blk)"
      "blk = memblock3 res"
  proof -
    let ?step = "if ?e <s 0x22 then 0x22 else ?e"
    have step: "2 \<le> sint ?step" "0 <s ?step" by (auto simp: word_sless_alt not_less)
    obtain c blk where c: "core_bench_state (res_size res) (memblock3 res) (seed2 res) (seed2 res) ?step (crc res) = Some (c, blk)"
      using core_bench_state_runs [OF r(3) step(1)] by blast
    have "blk = memblock3 res"
      using bench_state_block [OF c step(2)] harmless_repairable [OF r(3,2)] r(3) by (simp add: input_block_def)
    then show ?thesis using c that by blast
  qed
  obtain c' m where m: "core_bench_matrix (mat res) ?e (crc res) = Some (c', m)" "mat_wf m" "mp_A m = mp_A (mat res)"
      "mp_B m = mp_B (mat res)" "mp_N m = mp_N (mat res)"
    using core_bench_matrix_safe [OF r(4)] by blast
  show ?thesis
    using assms(2) blk m by (auto simp: operate_def Let_def r(1) same_inputs_def)
qed

definition cached :: "list_data list \<times> core_results option \<Rightarrow> nat \<Rightarrow> bool" where
  "cached s a \<longleftrightarrow> a < length (fst s) \<and> bit (data16 (fst s ! a)) 7"

definition by_value :: "list_data list \<times> core_results option \<Rightarrow> nat \<Rightarrow> int" where
  "by_value s a = uint (data16 (fst s ! a) AND 0x7f)"

definition complex_ok :: "nat set \<Rightarrow> list_data list \<Rightarrow> core_results \<Rightarrow> list_data list \<times> core_results option \<Rightarrow> bool" where
  "complex_ok V ds0 res0 s \<longleftrightarrow> tagged V ds0 (fst s) \<and> kernels_ready res0 \<and> (\<exists>res. snd s = Some res \<and> same_inputs res0 res)"

lemma sint_low: "sint (x AND 0x7f :: 16 word) = uint (x AND 0x7f)"
proof -
  have "x AND 0x7f = take_bit 7 x" by (simp add: masks16 take_bit_eq_mask)
  then have "uint (x AND 0x7f) = take_bit 7 (uint x)" by (simp add: unsigned_take_bit_eq)
  moreover have "take_bit 7 (uint x) < 2 ^ 7" by (rule take_bit_int_less_exp)
  ultimately have "uint (x AND 0x7f) < 2 ^ 15" by simp
  moreover have "- (2 ^ 15) \<le> uint (x AND 0x7f)" by (rule order_trans [OF _ uint_ge_0]) simp
  ultimately show ?thesis unfolding sint_uint by (intro signed_take_bit_int_eq_self) simp_all
qed

lemma calc_func_ok:
  assumes "tagged V ds0 ds" "kernels_ready res0" "same_inputs res0 res" "a \<in> V"
  shows "\<exists>v ds' res'. calc_func a ds res = Some (v, ds', res') \<and> tagged V ds0 ds' \<and> same_inputs res0 res' \<and> bit (data16 (ds' ! a)) 7
     \<and> v = data16 (ds' ! a) AND 0x7f \<and> (\<forall>c. c \<noteq> a \<or> bit (data16 (ds ! a)) 7 \<longrightarrow> ds' ! c = ds ! c)"
proof (cases "bit (data16 (ds ! a)) 7")
  case True
  then show ?thesis using assms tagged_bound [OF assms(1,4)] by (simp add: calc_func_def cached_test Let_def)
next
  case False
  obtain v res' where v: "operate (data16 (ds ! a)) res = Some (v, res')" "same_inputs res0 res'"
    using operate_ok [OF assms(2,3)] by blast
  have a: "a < length ds" using assms(1,4) by (rule tagged_bound)
  let ?d = "(ds ! a)\<lparr>data16 := (data16 (ds ! a) AND 0xff00) OR 0x80 OR (v AND 0x7f)\<rparr>"
  have "calc_func a ds res = Some (v AND 0x7f, ds[a := ?d], res'\<lparr>crc := crcu16 v (crc res')\<rparr>)"
    using False a v(1) by (simp add: calc_func_def cached_test Let_def)
  moreover have "tagged V ds0 (ds[a := ?d])"
    using assms(1,4) by (rule tagged_update) (simp_all add: cached_bits)
  moreover have "same_inputs res0 (res'\<lparr>crc := crcu16 v (crc res')\<rparr>)" using v(2) by (simp add: same_inputs_def)
  ultimately show ?thesis using False a by (auto simp: cached_bits)
qed

interpretation value_order: comparison cmp_complex "complex_ok V ds0 res0" V cached by_value for V ds0 res0
proof
  fix s a b assume s: "complex_ok V ds0 res0 s" "a \<in> V" "b \<in> V"
  obtain res where t: "tagged V ds0 (fst s)" "snd s = Some res" "kernels_ready res0" "same_inputs res0 res"
    using s(1) by (auto simp: complex_ok_def)
  obtain v ds1 r1 where u: "calc_func a (fst s) res = Some (v, ds1, r1)" "tagged V ds0 ds1" "same_inputs res0 r1" "bit (data16 (ds1 ! a)) 7"
     "v = data16 (ds1 ! a) AND 0x7f" "\<forall>c. c \<noteq> a \<or> bit (data16 (fst s ! a)) 7 \<longrightarrow> ds1 ! c = fst s ! c"
    using calc_func_ok [OF t(1,3,4) s(2)] by blast
  obtain w ds2 r2 where w: "calc_func b ds1 r1 = Some (w, ds2, r2)" "tagged V ds0 ds2" "same_inputs res0 r2" "bit (data16 (ds2 ! b)) 7"
     "w = data16 (ds2 ! b) AND 0x7f" "\<forall>c. c \<noteq> b \<or> bit (data16 (ds1 ! b)) 7 \<longrightarrow> ds2 ! c = ds1 ! c"
    using calc_func_ok [OF u(2) t(3) u(3) s(3)] by blast
  have cmp: "cmp_complex a b s = Some (sint v - sint w, ds2, Some r2)"
    using t(2) u(1) w(1) by (simp add: cmp_complex_def)
  have a: "ds2 ! a = ds1 ! a" using w(6) u(4) by (cases "a = b") auto
  have bound: "a < length ds2" "b < length ds2" using tagged_bound [OF w(2)] s by auto
  have "by_value (ds2, Some r2) a = sint v" "by_value (ds2, Some r2) b = sint w"
    by (simp_all add: by_value_def u(5) w(5) sint_low a)
  then show "\<exists>r s'. cmp_complex a b s = Some (r, s') \<and> complex_ok V ds0 res0 s' \<and> cached s' a \<and> cached s' b
      \<and> (r \<le> 0 \<longleftrightarrow> by_value s' a \<le> by_value s' b)"
    using cmp bound t(3) u(4) w(2-4) a by (simp add: complex_ok_def cached_def)
  fix r s' c assume c: "cmp_complex a b s = Some (r, s')" "cached s c"
  have "ds2 ! c = fst s ! c" using c(2) u(6) w(6) by (metis cached_def)
  then show "cached s' c \<and> by_value s' c = by_value s c"
    using c cmp t(1) w(2) by (auto simp: cached_def by_value_def tagged_def)
qed

section \<open>Parts of the benchmark\<close>

text \<open>A list whose items are all there.\<close>

definition items :: "list_head list \<Rightarrow> nat list \<Rightarrow> nat set" where
  "items h ns = (\<lambda>n. info (h ! n)) ` set ns"

lemma find_loop_ok:
  assumes "path h p ns None" "items h ns \<subseteq> {..<length ds}"
  shows "\<exists>q. find_loop differs h ds p = Some q \<and> (q = None \<or> (\<exists>pre bs. ns = pre @ bs \<and> path h p pre q \<and> path h q bs None \<and> bs \<noteq> []))"
  using assms
proof (induction ns arbitrary: p)
  case Nil
  then show ?case by (subst find_loop.simps) simp
next
  case (Cons n ns)
  have p: "p = Some n" "n < length h" "path h (nxt (h ! n)) ns None" using Cons.prems(1) by auto
  have d: "info (h ! n) < length ds" "items h ns \<subseteq> {..<length ds}" using Cons.prems(2) by (auto simp: items_def)
  show ?case
  proof (cases "differs (ds ! info (h ! n))")
    case True
    obtain q where q: "find_loop differs h ds (nxt (h ! n)) = Some q"
       "q = None \<or> (\<exists>pre bs. ns = pre @ bs \<and> path h (nxt (h ! n)) pre q \<and> path h q bs None \<and> bs \<noteq> [])"
      using Cons.IH [OF p(3) d(2)] by blast
    have "find_loop differs h ds p = Some q"
      using True p d(1) q(1) by (subst find_loop.simps) (simp add: get_info_def get_next_def)
    moreover have "\<exists>pre' bs. n # ns = pre' @ bs \<and> path h p pre' q \<and> path h q bs None \<and> bs \<noteq> []"
      if "ns = pre @ bs" "path h (nxt (h ! n)) pre q" "path h q bs None" "bs \<noteq> []" for pre bs
      using that p by (intro exI [of _ "n # pre"] exI [of _ bs]) simp
    ultimately show ?thesis using q(2) by blast
  next
    case False
    then have "find_loop differs h ds p = Some p"
      using p d(1) by (subst find_loop.simps) (simp add: get_info_def)
    moreover have "n # ns = [] @ n # ns \<and> path h p [] p \<and> path h p (n # ns) None \<and> n # ns \<noteq> []"
      using Cons.prems(1) by simp
    ultimately show ?thesis by blast
  qed
qed

lemma find_ok:
  assumes "path h p ns None" "items h ns \<subseteq> {..<length ds}"
  shows "\<exists>q. core_list_find h ds p key = Some q \<and> (q = None \<or> (\<exists>pre bs. ns = pre @ bs \<and> path h p pre q \<and> path h q bs None \<and> bs \<noteq> []))"
  unfolding core_list_find_def using find_loop_ok [OF assms] by (auto split: if_splits)

lemma crc_loop_ok:
  assumes "path h p ns None" "get_info h list = Some a" "a < length ds"
  shows "crc_loop h ds list p r = Some ((crc16 (data16 (ds ! a)) ^^ length ns) r)"
  using assms(1)
proof (induction ns arbitrary: p r)
  case Nil
  then show ?case by (subst crc_loop.simps) simp
next
  case (Cons n ns)
  then show ?case using assms(2,3) by (subst crc_loop.simps) (simp add: get_next_def funpow_swap1)
qed

text \<open>Removing an item and putting it back leaves no trace.\<close>

lemma remove_undo_ok:
  assumes "path h (Some a) (a # b # ns) None" "distinct (a # b # ns)"
  shows "\<exists>h'. core_list_remove h (Some a) = Some (h', Some b) \<and> path h' (Some a) (a # ns) None
     \<and> info (h' ! a) = info (h ! b) \<and> length h' = length h \<and> (\<forall>i. i \<noteq> a \<and> i \<noteq> b \<longrightarrow> h' ! i = h ! i)
     \<and> core_list_undo_remove h' (Some b) (Some a) = Some (h, Some b)"
proof -
  have p: "a < length h" "b < length h" "nxt (h ! a) = Some b" "path h (nxt (h ! b)) ns None" "a \<noteq> b" "a \<notin> set ns" "b \<notin> set ns"
    using assms by auto
  obtain na ia nb ib where e: "h ! a = \<lparr>nxt = na, info = ia\<rparr>" "h ! b = \<lparr>nxt = nb, info = ib\<rparr>"
    by (metis list_head.cases)
  let ?h = "h[a := \<lparr>nxt = nb, info = ib\<rparr>, b := \<lparr>nxt = None, info = ia\<rparr>]"
  have "core_list_remove h (Some a) = Some (?h, Some b)"
    using p e by (simp add: core_list_remove_def get_next_def get_info_def set_next_def set_info_def nth_list_update list_update_swap)
  moreover have "core_list_undo_remove ?h (Some b) (Some a) = Some (h, Some b)"
  proof -
    have "h[a := \<lparr>nxt = na, info = ia\<rparr>] = h" "h[b := \<lparr>nxt = nb, info = ib\<rparr>] = h"
      using e list_update_id [of h a] list_update_id [of h b] by simp_all
    then show ?thesis
      using p e by (simp add: core_list_undo_remove_def get_next_def get_info_def set_next_def set_info_def nth_list_update list_update_swap)
  qed
  moreover have "path ?h (Some a) (a # ns) None" using p e by simp
  ultimately show ?thesis using p e by (intro exI [of _ ?h]) simp
qed

text \<open>The item behind the one that was found is moved behind the head of the list.\<close>

lemma move_ok:
  assumes "path h list (ys @ x # f # cs) None" "distinct (ys @ x # f # cs)"
  shows "\<exists>h' ns. (do { n \<leftarrow> get_next h (Some f); h \<leftarrow> set_next h (Some x) n; n \<leftarrow> get_next h list; h \<leftarrow> set_next h (Some f) n; set_next h list (Some f) })
       = Some h' \<and> path h' list ns None \<and> mset ns = mset (ys @ x # f # cs) \<and> relinked (ys @ x # f # cs) h h'"
proof -
  let ?ns = "ys @ x # f # cs"
  have p: "x < length h" "f < length h" "x \<noteq> f" "path h (nxt (h ! f)) cs None"
    using assms by (auto simp: path_append)
  define h1 where "h1 = h[x := (h ! x)\<lparr>nxt := nxt (h ! f)\<rparr>]"
  have h1: "length h1 = length h" "relinked ?ns h h1" "h1 ! f = h ! f" "nxt (h1 ! x) = nxt (h ! f)"
    using p by (auto simp: h1_def intro: relinked_set_next)
  obtain y where y: "list = Some y" "y < length h" "y \<in> set ?ns"
    using assms(1) by (cases ys) auto
  define h2 where "h2 = h1[f := (h1 ! f)\<lparr>nxt := nxt (h1 ! y)\<rparr>]"
  define h3 where "h3 = h2[y := (h2 ! y)\<lparr>nxt := Some f\<rparr>]"
  have run: "(do { n \<leftarrow> get_next h (Some f); h \<leftarrow> set_next h (Some x) n; n \<leftarrow> get_next h list; h \<leftarrow> set_next h (Some f) n; set_next h list (Some f) })
       = Some h3"
    using p y h1(1) by (simp add: get_next_def set_next_at h1_def h2_def h3_def)
  have "relinked ?ns h1 h2" unfolding h2_def by (rule relinked_set_next) simp
  moreover have "relinked ?ns h2 h3" unfolding h3_def using y(3) by (rule relinked_set_next)
  ultimately have rel: "relinked ?ns h h3" using h1(2) relinked_trans by blast
  have len: "length h2 = length h" "length h3 = length h" by (simp_all add: h2_def h3_def h1(1))
  show ?thesis
  proof (cases ys)
    case Nil
    then have xy: "y = x" using assms(1) y(1) by simp
    have "path h3 list (x # f # cs) None"
    proof -
      have "f \<notin> set cs" "x \<notin> set cs" using assms(2) by auto
      then have "path h3 (nxt (h ! f)) cs None" using p(4) by (simp add: h3_def h2_def h1_def xy)
      moreover have "nxt (h3 ! x) = Some f" "nxt (h3 ! f) = nxt (h ! f)"
        using p h1 len by (simp_all add: h3_def h2_def xy)
      ultimately show ?thesis using p y xy len by simp
    qed
    then show ?thesis using run rel Nil by (intro exI [of _ h3] exI [of _ "x # f # cs"]) simp
  next
    case (Cons z zs)
    then have z: "z = y" using assms(1) y(1) by simp
    have d: "y \<noteq> x" "y \<noteq> f" "x \<notin> set zs" "f \<notin> set zs" "y \<notin> set zs" "x \<notin> set cs" "f \<notin> set cs" "y \<notin> set cs"
      using assms(2) Cons z by auto
    have zs: "path h (nxt (h ! y)) zs (Some x)" using assms(1) Cons z by (auto simp: path_append)
    have "nxt (h3 ! y) = Some f" "nxt (h3 ! f) = nxt (h ! y)" "nxt (h3 ! x) = nxt (h ! f)"
      using p h1 len d y by (simp_all add: h3_def h2_def h1_def)
    moreover have "path h3 (nxt (h ! y)) zs (Some x)" "path h3 (nxt (h ! f)) cs None"
      using zs p(4) d by (simp_all add: h3_def h2_def h1_def)
    ultimately have "path h3 list (y # f # zs @ x # cs) None"
      using p y len by (auto simp: path_append)
    then show ?thesis using run rel Cons z by (intro exI [of _ h3] exI [of _ "y # f # zs @ x # cs"]) simp
  qed
qed

lemma find_round_ok:
  assumes "path h list ns None" "distinct ns" "2 \<le> length ns" "items h ns \<subseteq> {..<length ds}"
  shows "\<exists>h' list' r f m key' ns'. find_round ds i (h, list, retval, found, missed, key) = Some (h', list', r, f, m, key')
     \<and> path h' list' ns' None \<and> mset ns' = mset ns \<and> relinked ns h h'"
proof -
  let ?key = "key\<lparr>data16 := of_nat i AND 0xff\<rparr>"
  obtain q where q: "core_list_find h ds list ?key = Some q"
     "q = None \<or> (\<exists>pre bs. ns = pre @ bs \<and> path h list pre q \<and> path h q bs None \<and> bs \<noteq> [])"
    using find_ok [OF assms(1,4)] by blast
  obtain h1 l1 where r: "core_list_reverse h list = Some (h1, l1)" "path h1 l1 (rev ns) None" "relinked ns h h1"
    using reverse_ok [OF assms(1,2)] by blast
  have infos: "info (h1 ! n) < length ds" if "n \<in> set ns" for n
    using relinked_info [OF r(3)] path_bound [OF assms(1) that] assms(4) that by (auto simp: items_def)
  show ?thesis
  proof (cases q)
    case None
    obtain a b ms where ab: "rev ns = a # b # ms" using assms(3) by (cases "rev ns" rule: remdups_adj.cases) auto
    then have "b \<in> set ns" by (metis list.set_intros set_rev)
    then have "find_round ds i (h, list, retval, found, missed, key) = Some (h1, l1,
        retval + (signed_drop_bit 8 (data16 (ds ! info (h1 ! b))) AND 1), found, missed + 1, if 0 \<le>s idx ?key then ?key\<lparr>idx := idx ?key + 1\<rparr> else ?key)"
      using q(1) r(1,2) ab None infos by (simp add: find_round_def Let_def get_next_def get_info_def)
    then show ?thesis using r(2,3) by auto
  next
    case (Some x)
    then obtain pre bs where ns: "ns = pre @ bs" "path h q bs None" "bs \<noteq> []" using q(2) by auto
    then obtain bs' where bs: "bs = x # bs'" using Some by (cases bs) auto
    have rev: "rev ns = rev bs' @ x # rev pre" using ns(1) bs by simp
    have x: "x \<in> set ns" "x < length h1" "get_next h1 (Some x) = Some (nxt (h1 ! x))"
      using ns(1) bs path_bound [OF r(2), of x] rev by (auto simp: get_next_def)
    define retval' where "retval' = (if data16 (ds ! info (h1 ! x)) AND 1 \<noteq> 0
        then retval + (signed_drop_bit 9 (data16 (ds ! info (h1 ! x))) AND 1) else retval)"
    define key' where "key' = (if 0 \<le>s idx ?key then ?key\<lparr>idx := idx ?key + 1\<rparr> else ?key)"
    have round: "find_round ds i (h, list, retval, found, missed, key) = Some (h', l1, retval', found + 1, missed, key')"
      if "(if nxt (h1 ! x) \<noteq> None
           then do { n \<leftarrow> get_next h1 (nxt (h1 ! x)); h \<leftarrow> set_next h1 (Some x) n; n \<leftarrow> get_next h l1; h \<leftarrow> set_next h (nxt (h1 ! x)) n; set_next h l1 (nxt (h1 ! x)) }
           else Some h1) = Some h'" for h'
      using q(1) r(1) Some infos [OF x(1)] x that
      by (simp add: find_round_def Let_def get_info_def retval'_def key'_def split del: if_split)
    show ?thesis
    proof (cases "rev pre")
      case Nil
      then have "nxt (h1 ! x) = None" using r(2) rev by (auto simp: path_append)
      then show ?thesis using round [of h1] r(2,3) by auto
    next
      case (Cons f cs)
      then have p: "path h1 l1 (rev bs' @ x # f # cs) None" "nxt (h1 ! x) = Some f" using r(2) rev by (auto simp: path_append)
      have "distinct (rev bs' @ x # f # cs)" using assms(2) rev Cons by (metis distinct_rev)
      from move_ok [OF p(1) this] obtain h' ms where m: "(do { n \<leftarrow> get_next h1 (Some f); h \<leftarrow> set_next h1 (Some x) n; n \<leftarrow> get_next h l1; h \<leftarrow> set_next h (Some f) n; set_next h l1 (Some f) })
         = Some h'" "path h' l1 ms None" "mset ms = mset (rev bs' @ x # f # cs)" "relinked (rev bs' @ x # f # cs) h1 h'" by blast
      have sets: "mset (rev bs' @ x # f # cs) = mset ns" using rev Cons by (metis mset_rev)
      then have "relinked ns h1 h'" using m(4) mset_eq_setD [OF sets] by (intro relinked_mono [OF m(4)]) simp
      then have "relinked ns h h'" using r(3) relinked_trans by blast
      moreover have "mset ms = mset ns" using m(3) sets by simp
      ultimately show ?thesis using round [of h'] m(1,2) p(2) by auto
    qed
  qed
qed

section \<open>The benchmark\<close>

text \<open>The list between two runs: three heads or more, the items in strict order by index, their data as generated.\<close>

definition benchmark_list :: "list_head list \<Rightarrow> list_data list \<Rightarrow> nat option \<Rightarrow> nat list \<Rightarrow> bool" where
  "benchmark_list h ds list ns \<longleftrightarrow> path h list ns None \<and> distinct ns \<and> 3 \<le> length ns \<and> items h ns \<subseteq> {..<length ds}
     \<and> (\<forall>a \<in> items h ns. regen (ds ! a) = ds ! a) \<and> sorted_wrt (<) (map (\<lambda>n. sint (idx (ds ! info (h ! n)))) ns)"

text \<open>The same heads, in another order.\<close>

definition shuffled :: "list_head list \<Rightarrow> nat list \<Rightarrow> list_head list \<Rightarrow> nat option \<Rightarrow> nat list \<Rightarrow> bool" where
  "shuffled h ns h' list' ns' \<longleftrightarrow> path h' list' ns' None \<and> mset ns' = mset ns \<and> relinked ns h h'"

lemma shuffled_same:
  assumes "shuffled h ns h' list' ns'" "path h list ns None" "distinct ns"
  shows "distinct ns'" "length ns' = length ns" "set ns' = set ns" "items h' ns' = items h ns" "\<forall>n \<in> set ns. info (h' ! n) = info (h ! n)"
proof -
  have m: "mset ns' = mset ns" "relinked ns h h'" using assms(1) by (simp_all add: shuffled_def)
  show "distinct ns'" using mset_eq_imp_distinct_iff [OF m(1)] assms(3) by simp
  show "length ns' = length ns" using mset_eq_length [OF m(1)] .
  show s: "set ns' = set ns" using mset_eq_setD [OF m(1)] .
  show i: "\<forall>n \<in> set ns. info (h' ! n) = info (h ! n)"
    using relinked_info [OF m(2)] path_bound [OF assms(2)] by blast
  show "items h' ns' = items h ns" unfolding items_def s using i by (intro image_cong) simp_all
qed

lemma shuffled_trans:
  assumes "shuffled h ns h' list' ns'" "path h'' list'' ns'' None" "mset ns'' = mset ns'" "relinked ns' h' h''"
  shows "shuffled h ns h'' list'' ns''"
proof -
  have m: "mset ns' = mset ns" "relinked ns h h'" using assms(1) by (simp_all add: shuffled_def)
  have "relinked ns h' h''" using assms(4) mset_eq_setD [OF m(1)] by (intro relinked_mono [OF assms(4)]) simp
  then show ?thesis using assms(2,3) m relinked_trans [OF m(2)] by (simp add: shuffled_def)
qed

lemma find_rounds_ok:
  assumes "path h list ns None" "distinct ns" "2 \<le> length ns" "items h ns \<subseteq> {..<length ds}"
  shows "\<exists>h' list' r f m key' ns'. for_in is (find_round ds) (h, list, retval, found, missed, key) = Some (h', list', r, f, m, key')
     \<and> shuffled h ns h' list' ns'"
proof -
  have "runs (for_in is (find_round ds) (h, list, retval, found, missed, key)) (\<lambda>(h', list', _). \<exists>ns'. shuffled h ns h' list' ns')"
  proof (rule runs_for_in)
    show "case (h, list, retval, found, missed, key) of (h', list', _) \<Rightarrow> \<exists>ns'. shuffled h ns h' list' ns'"
      using assms(1) by (auto simp: shuffled_def)
    fix i and t :: "list_head list \<times> nat option \<times> u16 \<times> u16 \<times> u16 \<times> list_data"
    assume "case t of (h', list', _) \<Rightarrow> \<exists>ns'. shuffled h ns h' list' ns'"
    then obtain h' list' r f m key' ns' where t: "t = (h', list', r, f, m, key')" "shuffled h ns h' list' ns'"
      by (cases t) auto
    note same = shuffled_same [OF t(2) assms(1,2)]
    have "path h' list' ns' None" using t(2) by (simp add: shuffled_def)
    from find_round_ok [OF this same(1), of ds i r f m key'] obtain h'' list'' r' f' m' key'' ns'' where
      u: "find_round ds i t = Some (h'', list'', r', f', m', key'')" "path h'' list'' ns'' None" "mset ns'' = mset ns'" "relinked ns' h' h''"
      using same assms(3,4) t(1) by auto
    then have "shuffled h ns h'' list'' ns''" by (intro shuffled_trans [OF t(2)])
    then show "runs (find_round ds i t) (\<lambda>(h', list', _). \<exists>ns'. shuffled h ns h' list' ns')" using u(1) by auto
  qed
  then show ?thesis by (auto simp: runs_iff_Some)
qed

lemma sort_unique:
  assumes "mset xs = mset ys" "sorted_wrt (<) (map k ys)" "\<forall>x \<in> set ys. f x = (k x :: int)"
  shows "sort_key f xs = ys"
proof -
  have map: "map f ys = map k ys" using assms(3) by simp
  have "sorted_wrt (<) (map f ys)" using assms(2) by (simp only: map)
  then have "sorted (map f ys)" "distinct (map f ys)" by (simp_all only: strict_sorted_iff)
  then show ?thesis
    using assms(1) mset_eq_setD [OF assms(1)] by (intro sort_key_inj_key_eq) (simp_all add: distinct_map)
qed

theorem bench_list_restores:
  assumes "benchmark_list h ds (res_list res) ns" "kernels_ready res"
  shows "\<exists>retval res'. core_bench_list h ds res finder_idx = Some (retval, h, ds, res') \<and> same_inputs res res'"
proof -
  let ?V = "items h ns" and ?key0 = "\<lparr>data16 = 0, idx = finder_idx\<rparr>"
  have b: "path h (res_list res) ns None" "distinct ns" "3 \<le> length ns" "?V \<subseteq> {..<length ds}" "\<forall>a \<in> ?V. regen (ds ! a) = ds ! a"
     "sorted_wrt (<) (map (\<lambda>n. sint (idx (ds ! info (h ! n)))) ns)"
    using assms(1) by (simp_all add: benchmark_list_def)
  obtain h1 l1 r f m key ns1 where t: "for_in [0..<nat (sint (seed3 res))] (find_round ds) (h, res_list res, 0, 0, 0, ?key0)
       = Some (h1, l1, r, f, m, key)" "shuffled h ns h1 l1 ns1"
    using find_rounds_ok [OF b(1,2) _ b(4)] b(3) by (metis Suc_leD numeral_2_eq_2 numeral_3_eq_3)
  note same1 = shuffled_same [OF t(2) b(1,2)]
  have valid: "\<forall>n \<in> set ns1. info (h1 ! n) \<in> ?V" using same1(4) by (auto simp: items_def)
  have "\<exists>l2 h2 ds2 res2 ns2. (if 0 <s finder_idx
        then do { (list, h, ds, r) \<leftarrow> core_list_mergesort cmp_complex l1 h1 (ds, Some res); res \<leftarrow> r; Some (list, h, ds, res) }
        else Some (l1, h1, ds, res)) = Some (l2, h2, ds2, res2) \<and> shuffled h ns h2 l2 ns2 \<and> tagged ?V ds ds2 \<and> same_inputs res res2"
  proof -
    have init: "tagged ?V ds ds" "same_inputs res res"
      using tagged_refl [OF b(4)] assms(2) by (simp_all add: same_inputs_def kernels_ready_def)
    then have "complex_ok ?V ds res (ds, Some res)" using assms(2) by (simp add: complex_ok_def)
    moreover have "path h1 l1 ns1 None" "ns1 \<noteq> []" using t(2) same1(2) b(3) by (auto simp: shuffled_def)
    ultimately obtain l2 h2 s2 where u: "core_list_mergesort cmp_complex l1 h1 (ds, Some res) = Some (l2, h2, s2)" "complex_ok ?V ds res s2"
       "relinked ns1 h1 h2" "path h2 l2 (sort_key (\<lambda>n. by_value s2 (info (h1 ! n))) ns1) None"
      using value_order.mergesort_ok [of h1 l1 ns1 ?V ds res "(ds, Some res)"] same1(1) valid by blast
    have "shuffled h ns h2 l2 (sort_key (\<lambda>n. by_value s2 (info (h1 ! n))) ns1)"
      by (rule shuffled_trans [OF t(2) u(4) _ u(3)]) simp
    moreover obtain ds2 res2 where "s2 = (ds2, Some res2)" "tagged ?V ds ds2" "same_inputs res res2"
      using u(2) by (cases s2) (auto simp: complex_ok_def)
    ultimately show ?thesis using u(1) init t(2) by (cases "0 <s finder_idx") auto
  qed
  then obtain l2 h2 ds2 res2 ns2 where u: "(if 0 <s finder_idx
        then do { (list, h, ds, r) \<leftarrow> core_list_mergesort cmp_complex l1 h1 (ds, Some res); res \<leftarrow> r; Some (list, h, ds, res) }
        else Some (l1, h1, ds, res)) = Some (l2, h2, ds2, res2)" "shuffled h ns h2 l2 ns2" "tagged ?V ds ds2" "same_inputs res res2" by blast
  note same2 = shuffled_same [OF u(2) b(1,2)]
  have len2: "length ds2 = length ds" using u(3) by (simp add: tagged_def)
  obtain l a c rest where ns2: "ns2 = l # a # c # rest"
    using same2(2) b(3) by (cases ns2 rule: remdups_adj.cases; cases "tl (tl ns2)") auto
  have path2: "path h2 l2 ns2 None" using u(2) by (simp add: shuffled_def)
  then have p2: "l2 = Some l" "l < length h2" "nxt (h2 ! l) = Some a" "path h2 (Some a) (a # c # rest) None"
    using ns2 by auto
  have d2: "distinct (a # c # rest)" "l \<noteq> a" "l \<noteq> c" using same2(1) ns2 by auto
  obtain h3 where rm: "core_list_remove h2 (Some a) = Some (h3, Some c)" "path h3 (Some a) (a # rest) None" "info (h3 ! a) = info (h2 ! c)"
     "length h3 = length h2" "\<forall>i. i \<noteq> a \<and> i \<noteq> c \<longrightarrow> h3 ! i = h2 ! i" "core_list_undo_remove h3 (Some c) (Some a) = Some (h2, Some c)"
    using remove_undo_ok [OF p2(4) d2(1)] by blast
  have l3: "h3 ! l = h2 ! l" "get_next h3 l2 = Some (Some a)" "get_info h3 l2 = Some (info (h2 ! l))"
    using rm(4,5) d2 p2 by (simp_all add: get_next_def get_info_def)
  have path3: "path h3 l2 (l # a # rest) None" using l3(1) p2 rm(2,4) by simp
  have valid2: "info (h2 ! n) < length ds2" if "n \<in> set ns2" for n
    using same2(4) b(4) len2 that by (auto simp: items_def)
  have rest3: "h3 ! x = h2 ! x" if "x \<in> set rest" for x
    using rm(5) d2(1) that by auto
  have "items h3 (l # a # rest) \<subseteq> {..<length ds2}"
    using valid2 l3(1) rm(3) ns2 by (auto simp: items_def rest3)
  from find_ok [OF path3 this, of key] obtain q where q: "core_list_find h3 ds2 l2 key = Some q"
     "q = None \<or> (\<exists>pre bs. l # a # rest = pre @ bs \<and> path h3 l2 pre q \<and> path h3 q bs None \<and> bs \<noteq> [])" by blast
  have info_l: "info (h2 ! l) < length ds2" using valid2 ns2 by simp
  obtain fd v where crc1: "(if q = None then get_next h3 l2 else Some q) = Some fd"
     "\<And>r. crc_loop h3 ds2 l2 fd r = Some (v r)"
  proof (cases q)
    case None
    then show ?thesis using that [of "Some a"] l3(2) crc_loop_ok [OF rm(2) l3(3) info_l] by simp
  next
    case (Some x)
    then obtain bs where "path h3 q bs None" using q(2) by auto
    then show ?thesis using that [of q] Some crc_loop_ok [OF _ l3(3) info_l] by simp
  qed
  have "idx_ok ?V ds (ds2, None)" using u(3) by (simp add: idx_ok_def)
  moreover have ne2: "ns2 \<noteq> []" and two2: "2 \<le> length ns2" and in2: "\<forall>i \<in> set ns2. info (h2 ! i) \<in> ?V"
    using ns2 same2(4) by (auto simp: items_def)
  ultimately obtain l4 h4 s4 where w: "core_list_mergesort cmp_idx l2 h2 (ds2, None) = Some (l4, h4, s4)" "idx_ok ?V ds s4" "relinked ns2 h2 h4"
     "path h4 l4 (sort_key (\<lambda>n. by_idx s4 (info (h2 ! n))) ns2) None" "\<forall>i \<in> set ns2. regenerated s4 (info (h2 ! i))"
    using idx_order.mergesort_ok [of h2 l2 ns2 ?V ds "(ds2, None)"] path2 same2(1) ne2 in2 two2 by blast
  have "fst s4 = ds"
  proof (rule tagged_same)
    show "tagged ?V ds (fst s4)" using w(2) by (simp add: idx_ok_def)
    show "\<forall>a \<in> ?V. regen (fst s4 ! a) = fst s4 ! a"
      unfolding same2(4) [symmetric] using w(5) by (auto simp: items_def regenerated_def)
  qed (rule b(5))
  then have s4: "s4 = (ds, None)" using w(2) by (cases s4) (simp add: idx_ok_def)
  have "sort_key (\<lambda>n. by_idx s4 (info (h2 ! n))) ns2 = ns"
    using u(2) same2(5) by (intro sort_unique [OF _ b(6)]) (auto simp: shuffled_def by_idx_def s4)
  moreover have mset2: "mset ns = mset ns2" using u(2) by (simp add: shuffled_def)
  ultimately have path4: "path h4 l4 ns None" "relinked ns h h4"
    using shuffled_trans [OF u(2) w(4) _ w(3)] w(4) mset2 by (simp_all add: shuffled_def)
  have l4: "l4 = res_list res" using path4(1) b(1,3) by (cases ns) auto
  then have h4: "h4 = h" using relinked_same [OF path4(2) b(1)] path4(1) by simp
  obtain n ns' where ns: "ns = n # ns'" using b(3) by (cases ns) auto
  then have fin: "get_next h l4 = Some (nxt (h ! n))" "get_info h l4 = Some (info (h ! n))" "path h (nxt (h ! n)) ns' None" "info (h ! n) < length ds"
    using b(1,4) l4 by (auto simp: get_next_def get_info_def items_def)
  have gn: "get_next h2 l2 = Some (Some a)" by (simp add: get_next_def p2(1-3))
  show ?thesis
    using t(1) u(1,4) gn rm(1,6) q(1) crc1 w(1) l3(2) crc_loop_ok [OF fin(3,2,4)] fin(1)
    by (simp add: core_bench_list_def Let_def s4 h4)
qed

end
