(* ===== verification/CoreListRun.thy ===== *)
theory CoreListRun
  imports CoreListBench
begin

text \<open>
  The initialisation of the list of CoreMark (\<open>core_list_init\<close>, \<open>core_list_insert_new\<close> of
  \<open>benchmarks/wasi/coremark/core_list_join.c\<close>) and the loop that calls the list benchmark (\<open>iterate\<close> of
  \<open>core_main.c\<close>).
\<close>

section \<open>The code\<close>










section \<open>The list that is built\<close>







section \<open>Iterating the benchmark\<close>








section \<open>Properties\<close>






end
