(* ===== verification/Fips180.thy ===== *)
theory Fips180
  imports Complex_Main CPrelude
begin

text \<open>
  SHA-256 as FIPS 180-4 defines it, on messages of bits and independently of any code: the
  constants are the fractional parts of the roots of the first primes (4.2.2, 5.3.3), the
  message is padded and parsed as a string of bits (5.1.1, 5.2.1), and the hash computation
  follows 6.2.2.
\<close>

section \<open>The constants\<close>

definition is_prime :: "int \<Rightarrow> bool" where
  "is_prime n \<longleftrightarrow> 2 \<le> n \<and> (\<forall>d \<in> {2..<n}. \<not> d dvd n)"

text \<open>The first 64 primes are those up to 311.\<close>

definition primes :: "int list" where
  "primes = filter is_prime [0..311]"

text \<open>A number below \<open>18\<^sup>2\<close> that is not a prime has a proper divisor among the primes below 18.\<close>

definition sieve :: "int \<Rightarrow> bool" where
  "sieve n \<longleftrightarrow> 2 \<le> n \<and> list_all (\<lambda>q. n \<le> q \<or> n mod q \<noteq> 0) [2, 3, 5, 7, 11, 13, 17]"

lemma small_factor:
  assumes "2 \<le> d" "d < (18 :: int)"
  shows "\<exists>q \<in> {2, 3, 5, 7, 11, 13, 17}. q \<le> d \<and> q dvd d"
proof -
  have "d = 2 \<or> d = 3 \<or> d = 4 \<or> d = 5 \<or> d = 6 \<or> d = 7 \<or> d = 8 \<or> d = 9 \<or> d = 10 \<or> d = 11 \<or> d = 12 \<or> d = 13
    \<or> d = 14 \<or> d = 15 \<or> d = 16 \<or> d = 17" using assms by arith
  then show ?thesis by (elim disjE) auto
qed

lemma is_prime_sieve:
  assumes "n < 324"
  shows "is_prime n \<longleftrightarrow> sieve n"
proof -
  have factor: "\<exists>q \<in> {2, 3, 5, 7, 11, 13, 17}. q < n \<and> q dvd n" if d: "2 \<le> d" "d < n" "d dvd n" for d
  proof -
    obtain e where e: "n = d * e" using d(3) by (elim dvdE)
    have pos: "0 < e" using d e by (metis le_less_trans less_trans zero_less_mult_pos zero_less_numeral not_le)
    moreover have "e \<noteq> 1" using e d(2) by auto
    ultimately have "2 \<le> e" by simp
    moreover have "1 * e < d * e" using d(1) pos by (intro mult_strict_right_mono) auto
    moreover have "d < 18 \<or> e < 18"
    proof (rule ccontr)
      assume "\<not> (d < 18 \<or> e < 18)"
      then have "18 * 18 \<le> d * e" by (intro mult_mono) auto
      then show False using e assms by simp
    qed
    ultimately obtain f where f: "2 \<le> f" "f < 18" "f < n" "f dvd n" using d e by auto
    then show ?thesis using small_factor [of f] by (meson dvd_trans le_less_trans)
  qed
  have sieve: "sieve n \<longleftrightarrow> 2 \<le> n \<and> (\<forall>q \<in> {2, 3, 5, 7, 11, 13, 17}. q < n \<longrightarrow> \<not> q dvd n)"
    by (simp add: sieve_def dvd_eq_mod_eq_0 not_less disj_commute imp_conv_disj)
  have small: "\<forall>q \<in> {2, 3, 5, 7, 11, 13, 17 :: int}. 2 \<le> q" by simp
  show ?thesis unfolding sieve is_prime_def
  proof (intro iffI conjI; elim conjE)
    assume prime: "\<forall>d \<in> {2..<n}. \<not> d dvd n"
    show "\<forall>q \<in> {2, 3, 5, 7, 11, 13, 17}. q < n \<longrightarrow> \<not> q dvd n"
    proof (intro ballI impI)
      fix q assume "q \<in> {2, 3, 5, 7, 11, 13, 17 :: int}" "q < n"
      then have "q \<in> {2..<n}" using small by (simp only: atLeastLessThan_iff)
      then show "\<not> q dvd n" using prime by blast
    qed
  next
    assume none: "\<forall>q \<in> {2, 3, 5, 7, 11, 13, 17}. q < n \<longrightarrow> \<not> q dvd n"
    show "\<forall>d \<in> {2..<n}. \<not> d dvd n"
    proof (intro ballI notI)
      fix d assume "d \<in> {2..<n}" "d dvd n"
      then have "2 \<le> d" "d < n" "d dvd n" by (simp_all only: atLeastLessThan_iff)
      from factor [OF this] obtain q where "q \<in> {2, 3, 5, 7, 11, 13, 17}" "q < n \<and> q dvd n" by (rule bexE)
      with none show False by (auto dest: bspec simp del: insert_iff)
    qed
  qed
qed

lemma primes_sieve: "primes = filter sieve [0..311]"
  unfolding primes_def by (rule filter_cong) (simp_all add: is_prime_sieve)

lemma primes_list: "primes =
  [2, 3, 5, 7, 11, 13, 17, 19, 23, 29, 31, 37, 41, 43, 47, 53, 59, 61, 67, 71, 73, 79, 83, 89, 97, 101, 103, 107,
   109, 113, 127, 131, 137, 139, 149, 151, 157, 163, 167, 173, 179, 181, 191, 193, 197, 199, 211, 223, 227, 229,
   233, 239, 241, 251, 257, 263, 269, 271, 277, 281, 283, 293, 307, 311]"
  unfolding primes_sieve by code_simp

text \<open>The first thirty-two bits of the fractional part of a number.\<close>

definition first_bits :: "real \<Rightarrow> u32" where
  "first_bits r = word_of_int \<lfloor>2 ^ 32 * frac r\<rfloor>"

definition fips_K :: "nat \<Rightarrow> u32" where
  "fips_K t = first_bits (root 3 (of_int (primes ! t)))"

definition fips_H0 :: "u32 list" where
  "fips_H0 = map (\<lambda>p. first_bits (root 2 (of_int p))) (take 8 primes)"

text \<open>Integer bounds of a root determine these bits.\<close>

lemma first_bits_root:
  assumes "0 < n" "0 \<le> k" "0 \<le> p" "k ^ n \<le> p * (2 ^ 32) ^ n" "p * (2 ^ 32) ^ n < (k + 1) ^ n"
  shows "first_bits (root n (of_int p)) = of_int k"
proof -
  let ?r = "root n (of_int p)"
  have "(2 ^ 32 * ?r) ^ n = of_int (p * (2 ^ 32) ^ n)"
    using assms(1,3) by (simp add: power_mult_distrib real_root_pow_pos2 mult.commute)
  then have "of_int (k ^ n) \<le> (2 ^ 32 * ?r) ^ n" "(2 ^ 32 * ?r) ^ n < of_int ((k + 1) ^ n)"
    using assms(4,5) by (simp_all only: of_int_le_iff of_int_less_iff)
  then have b: "of_int k ^ n \<le> (2 ^ 32 * ?r) ^ n" "(2 ^ 32 * ?r) ^ n < (of_int k + 1) ^ n"
    by simp_all
  have nonneg: "0 \<le> 2 ^ 32 * ?r" "(0 :: real) \<le> of_int k" "(0 :: real) \<le> of_int k + 1" using assms(2,3) by (simp_all add: real_root_ge_zero)
  have "of_int k \<le> 2 ^ 32 * ?r" using power_mono_iff [OF nonneg(2,1) assms(1)] b(1) by blast
  moreover have "2 ^ 32 * ?r < of_int k + 1" using b(2) nonneg(3) by (rule power_less_imp_less_base)
  ultimately have "\<lfloor>2 ^ 32 * ?r\<rfloor> = k" by (simp add: floor_eq_iff)
  moreover have "2 ^ 32 * frac ?r = 2 ^ 32 * ?r - of_int (2 ^ 32 * \<lfloor>?r\<rfloor>)" by (simp add: frac_def algebra_simps)
  then have "\<lfloor>2 ^ 32 * frac ?r\<rfloor> = \<lfloor>2 ^ 32 * ?r\<rfloor> - 2 ^ 32 * \<lfloor>?r\<rfloor>"
    by (simp only: floor_diff_of_int)
  ultimately have "first_bits ?r = of_int (k - 2 ^ 32 * \<lfloor>?r\<rfloor>)" by (simp only: first_bits_def)
  also have "\<dots> = of_int k - of_int (2 ^ 32) * of_int \<lfloor>?r\<rfloor>" by (simp only: of_int_diff of_int_mult)
  also have "(of_int (2 ^ 32) :: u32) = 0" by simp
  finally show ?thesis by simp
qed

text \<open>A check of a list of constants: \<open>a\<close> is the integer part of the root.\<close>

definition root_bits :: "nat \<Rightarrow> int \<Rightarrow> u32 \<Rightarrow> bool" where
  "root_bits n p w \<longleftrightarrow> 0 < n \<and> 0 \<le> p \<and> list_ex (\<lambda>a. let k = uint w + 2 ^ 32 * a
     in k ^ n \<le> p * (2 ^ 32) ^ n \<and> p * (2 ^ 32) ^ n < (k + 1) ^ n) [1..6]"

lemma root_bits_first:
  assumes "root_bits n p w"
  shows "first_bits (root n (of_int p)) = w"
proof -
  obtain a where a: "1 \<le> a" "(uint w + 2 ^ 32 * a) ^ n \<le> p * (2 ^ 32) ^ n" "p * (2 ^ 32) ^ n < (uint w + 2 ^ 32 * a + 1) ^ n"
    using assms by (auto simp: root_bits_def list_ex_iff Let_def)
  have "0 \<le> uint w + 2 ^ 32 * a" using a(1) by simp
  then have "first_bits (root n (of_int p)) = of_int (uint w + 2 ^ 32 * a)"
    using a assms by (intro first_bits_root) (simp_all add: root_bits_def)
  also have "\<dots> = of_int (uint w) + of_int (2 ^ 32) * of_int a" by (simp only: of_int_add of_int_mult)
  also have "(of_int (2 ^ 32) :: u32) = 0" by simp
  finally show ?thesis by simp
qed

section \<open>The functions\<close>

definition fips_Ch :: "u32 \<Rightarrow> u32 \<Rightarrow> u32 \<Rightarrow> u32" where
  "fips_Ch x y z = (x AND y) XOR (NOT x AND z)"

definition fips_Maj :: "u32 \<Rightarrow> u32 \<Rightarrow> u32 \<Rightarrow> u32" where
  "fips_Maj x y z = (x AND y) XOR (x AND z) XOR (y AND z)"

definition Sigma0 :: "u32 \<Rightarrow> u32" where
  "Sigma0 x = word_rotr 2 x XOR word_rotr 13 x XOR word_rotr 22 x"

definition Sigma1 :: "u32 \<Rightarrow> u32" where
  "Sigma1 x = word_rotr 6 x XOR word_rotr 11 x XOR word_rotr 25 x"

definition sigma0 :: "u32 \<Rightarrow> u32" where
  "sigma0 x = word_rotr 7 x XOR word_rotr 18 x XOR drop_bit 3 x"

definition sigma1 :: "u32 \<Rightarrow> u32" where
  "sigma1 x = word_rotr 17 x XOR word_rotr 19 x XOR drop_bit 10 x"

section \<open>The hash computation\<close>

text \<open>The message schedule of a block of sixteen words.\<close>

fun fips_W :: "(nat \<Rightarrow> u32) \<Rightarrow> nat \<Rightarrow> u32" where
  "fips_W M t =
     (if t < 16 then M t
      else sigma1 (fips_W M (t - 2)) + fips_W M (t - 7) + sigma0 (fips_W M (t - 15)) + fips_W M (t - 16))"

declare fips_W.simps [simp del]

lemma fips_W_first: "t < 16 \<Longrightarrow> fips_W M t = M t"
  by (simp add: fips_W.simps)

lemma fips_W_next:
  "16 \<le> t \<Longrightarrow> fips_W M t = sigma1 (fips_W M (t - 2)) + fips_W M (t - 7) + sigma0 (fips_W M (t - 15)) + fips_W M (t - 16)"
  by (simp add: fips_W.simps [of M t])

type_synonym sha_regs = "u32 \<times> u32 \<times> u32 \<times> u32 \<times> u32 \<times> u32 \<times> u32 \<times> u32"

lemma sha_regs_cases:
  fixes v :: sha_regs
  obtains a b c d e f g h where "v = (a, b, c, d, e, f, g, h)"
proof -
  obtain a b c d e f x where v: "v = (a, b, c, d, e, f, x)" by (cases v)
  obtain g h where "x = (g, h)" by (cases x)
  then show ?thesis using that v by simp
qed

definition fips_round :: "(nat \<Rightarrow> u32) \<Rightarrow> nat \<Rightarrow> sha_regs \<Rightarrow> sha_regs" where
  "fips_round M t = (\<lambda>(a, b, c, d, e, f, g, h).
     let T1 = h + Sigma1 e + fips_Ch e f g + fips_K t + fips_W M t;
         T2 = Sigma0 a + fips_Maj a b c
     in (T1 + T2, a, b, c, d + T1, e, f, g))"

primrec fips_rounds :: "(nat \<Rightarrow> u32) \<Rightarrow> nat \<Rightarrow> sha_regs \<Rightarrow> sha_regs" where
  "fips_rounds M 0 v = v"
| "fips_rounds M (Suc t) v = fips_round M t (fips_rounds M t v)"

definition fips_block :: "u32 list \<Rightarrow> (nat \<Rightarrow> u32) \<Rightarrow> u32 list" where
  "fips_block H M =
     (case fips_rounds M 64 (H ! 0, H ! 1, H ! 2, H ! 3, H ! 4, H ! 5, H ! 6, H ! 7) of
        (a, b, c, d, e, f, g, h) \<Rightarrow>
          [a + H ! 0, b + H ! 1, c + H ! 2, d + H ! 3, e + H ! 4, f + H ! 5, g + H ! 6, h + H ! 7])"

lemma length_fips_block [simp]: "length (fips_block H M) = 8"
  by (simp add: fips_block_def split: prod.split)

section \<open>The message\<close>

text \<open>A one, the least number of zeros that fills up to 448 modulo 512, and the length in 64 bits.\<close>

definition fips_pad :: "bool list \<Rightarrow> bool list" where
  "fips_pad m = m @ [True] @ replicate (LEAST k. (length m + 1 + k) mod 512 = 448) False
     @ bits_of 64 (of_nat (length m) :: u64)"

definition word_of_bits :: "bool list \<Rightarrow> u32" where
  "word_of_bits bs = horner_sum of_bool 2 (rev bs)"

text \<open>Word \<open>t\<close> of a block.\<close>

definition block_word :: "bool list \<Rightarrow> nat \<Rightarrow> u32" where
  "block_word b t = word_of_bits (take 32 (drop (32 * t) b))"

function blocks :: "bool list \<Rightarrow> bool list list" where
  "blocks bs = (if length bs < 512 then [] else take 512 bs # blocks (drop 512 bs))"
  by pat_completeness auto
termination
  by (relation "measure length") auto

declare blocks.simps [simp del]

text \<open>The message digest; the standard defines it for messages of less than \<open>2^64\<close> bits.\<close>

definition fips_sha256 :: "bool list \<Rightarrow> bool list" where
  "fips_sha256 m = concat (map (bits_of 32) (foldl (\<lambda>H b. fips_block H (block_word b)) fips_H0 (blocks (fips_pad m))))"

section \<open>Messages of bytes\<close>

definition byte_bits :: "u8 list \<Rightarrow> bool list" where
  "byte_bits xs = concat (map (bits_of 8) xs)"

lemma byte_bits_simps [simp]:
  "byte_bits [] = []"
  "byte_bits (x # xs) = bits_of 8 x @ byte_bits xs"
  "byte_bits (xs @ ys) = byte_bits xs @ byte_bits ys"
  by (simp_all add: byte_bits_def)

lemma length_byte_bits [simp]: "length (byte_bits xs) = 8 * length xs"
  by (induction xs) simp_all

lemma take_byte_bits: "take (8 * n) (byte_bits xs) = byte_bits (take n xs)"
proof (induction n arbitrary: xs)
  case (Suc n)
  then show ?case by (cases xs) (simp_all add: take_Cons')
qed simp

lemma drop_byte_bits: "drop (8 * n) (byte_bits xs) = byte_bits (drop n xs)"
proof (induction n arbitrary: xs)
  case (Suc n)
  then show ?case by (cases xs) simp_all
qed simp

lemma byte_bits_zeros: "byte_bits (replicate n 0) = replicate (8 * n) False"
proof -
  have "bits_of 8 (0 :: u8) = replicate 8 False" by (simp add: bits_of_def upt_rec numeral_eq_Suc)
  then show ?thesis by (induction n) (simp_all add: replicate_add [symmetric])
qed

text \<open>A word is its bytes, the most significant first.\<close>

lemma bits_of_split:
  "bits_of (m + n) (w :: 'a::len word) = bits_of m (drop_bit n w) @ bits_of n w"
proof -
  have "[0..<m + n] = [0..<n] @ map (\<lambda>i. i + n) [0..<m]"
    using upt_add_eq_append [of 0 n m] by (simp add: add.commute map_add_upt)
  then show ?thesis by (simp add: bits_of_def bit_drop_bit_eq rev_map add.commute)
qed

lemma bits_of_ucast: "n \<le> LENGTH('b) \<Longrightarrow> n \<le> LENGTH('a) \<Longrightarrow> bits_of n (ucast (w :: 'a::len word) :: 'b::len word) = bits_of n w"
  by (auto simp: bits_of_def bit_ucast_iff)

end
