(* ===== verification/Sha256.thy ===== *)
theory Sha256
  imports Fips180
begin

text \<open>
  The SHA-256 implementation of \<open>benchmarks/wasi/sha256/bench_sha256.c\<close>: the compression
  function, the streaming context, and a proof that it computes the digest of FIPS 180-4 (the
  theory \<open>Fips180\<close>) for every message and every way of cutting it into pieces. Every read
  of an array is checked; a cell of \<open>W\<close> that has not been written yet has no value.
\<close>

section \<open>A block function behind a byte buffer\<close>

text \<open>
  The interface between a block compression function and a streaming context: bytes are
  collected until a block is full, which is then compressed. The function computes a
  specified one on full blocks.
\<close>

locale block_stream =
  fixes compress :: "'s \<Rightarrow> 'b list \<Rightarrow> 's option" and spec :: "'s \<Rightarrow> 'b list \<Rightarrow> 's"
    and chain :: "'s \<Rightarrow> bool" and n :: nat
  assumes block_size: "0 < n"
    and compress_spec: "chain st \<Longrightarrow> length xs = n \<Longrightarrow> compress st xs = Some (spec st xs)"
    and chain_spec: "chain st \<Longrightarrow> length xs = n \<Longrightarrow> chain (spec st xs)"
begin

text \<open>The reference: cut the whole message into blocks and compress them in order.\<close>

function compress_all :: "'s \<Rightarrow> 'b list \<Rightarrow> 's" where
  "compress_all st xs = (if length xs < n then st else compress_all (spec st (take n xs)) (drop n xs))"
  by pat_completeness auto
termination
  using block_size by (relation "measure (\<lambda>(st, xs). length xs)") auto

declare compress_all.simps [simp del]

lemma compress_all_short [simp]: "length xs < n \<Longrightarrow> compress_all st xs = st"
  by (simp add: compress_all.simps)

lemma compress_all_block:
  "length ys = n \<Longrightarrow> compress_all st (ys @ xs) = compress_all (spec st ys) xs"
  by (subst compress_all.simps) simp

lemma compress_all_one: "length ys = n \<Longrightarrow> compress_all st ys = spec st ys"
  using compress_all_block [of ys st "[]"] block_size by simp

lemma chain_all: "chain st \<Longrightarrow> chain (compress_all st xs)"
proof (induction st xs rule: compress_all.induct)
  case (1 st xs)
  then show ?case by (cases "length xs < n") (simp_all add: compress_all.simps [of st xs] chain_spec)
qed

definition rest :: "'b list \<Rightarrow> 'b list" where
  "rest xs = drop (length xs div n * n) xs"

lemma length_rest: "length (rest xs) < n"
  using block_size by (simp add: rest_def minus_div_mult_eq_mod)

lemma rest_short [simp]: "length xs < n \<Longrightarrow> rest xs = xs"
  by (simp add: rest_def)

lemma rest_block: "length ys = n \<Longrightarrow> rest (ys @ xs) = rest xs"
  using block_size by (simp add: rest_def div_add_self1)

lemma compress_all_append:
  "compress_all st (xs @ ys) = compress_all (compress_all st xs) (rest xs @ ys)"
proof (induction st xs rule: compress_all.induct)
  case (1 st xs)
  show ?case
  proof (cases "length xs < n")
    case False
    then have b: "length (take n xs) = n" by simp
    have "compress_all st ((take n xs @ drop n xs) @ ys)
        = compress_all (compress_all (spec st (take n xs)) (drop n xs)) (rest (drop n xs) @ ys)"
      unfolding append_assoc compress_all_block [OF b] using 1 False by simp
    also have "\<dots> = compress_all (compress_all st (take n xs @ drop n xs)) (rest (take n xs @ drop n xs) @ ys)"
      unfolding compress_all_block [OF b] rest_block [OF b] ..
    finally show ?thesis by simp
  qed simp
qed

lemma rest_append: "rest (xs @ ys) = rest (rest xs @ ys)"
proof (induction "length xs" arbitrary: xs rule: less_induct)
  case less
  show ?case
  proof (cases "length xs < n")
    case False
    then have b: "length (take n xs) = n" by simp
    have "rest (take n xs @ drop n xs @ ys) = rest (rest (drop n xs) @ ys)"
      unfolding rest_block [OF b] using False block_size by (intro less) simp
    also have "rest (drop n xs) = rest (take n xs @ drop n xs)" unfolding rest_block [OF b] ..
    finally show ?thesis by (simp only: append_assoc [symmetric] append_take_drop_id)
  qed simp
qed

text \<open>What becomes of the chaining value and the rest with one byte more.\<close>

lemma absorb_step:
  "length (rest xs @ [x]) = n \<Longrightarrow> compress_all st (xs @ [x]) = spec (compress_all st xs) (rest xs @ [x]) \<and> rest (xs @ [x]) = []"
  "length (rest xs @ [x]) < n \<Longrightarrow> compress_all st (xs @ [x]) = compress_all st xs \<and> rest (xs @ [x]) = rest xs @ [x]"
  using rest_block [of "rest xs @ [x]" "[]"] block_size
  by (simp_all add: compress_all_append [of st xs "[x]"] compress_all_one rest_append [of xs "[x]"])

end

section \<open>The compression function\<close>

text \<open>[sha256/bench_sha256.c 15-32 K] The round constants.\<close>

definition K :: "u32 list" where
  "K = concat [
    [0x428a2f98, 0x71374491, 0xb5c0fbcf, 0xe9b5dba5],
    [0x3956c25b, 0x59f111f1, 0x923f82a4, 0xab1c5ed5],
    [0xd807aa98, 0x12835b01, 0x243185be, 0x550c7dc3],
    [0x72be5d74, 0x80deb1fe, 0x9bdc06a7, 0xc19bf174],
    [0xe49b69c1, 0xefbe4786, 0x0fc19dc6, 0x240ca1cc],
    [0x2de92c6f, 0x4a7484aa, 0x5cb0a9dc, 0x76f988da],
    [0x983e5152, 0xa831c66d, 0xb00327c8, 0xbf597fc7],
    [0xc6e00bf3, 0xd5a79147, 0x06ca6351, 0x14292967],
    [0x27b70a85, 0x2e1b2138, 0x4d2c6dfc, 0x53380d13],
    [0x650a7354, 0x766a0abb, 0x81c2c92e, 0x92722c85],
    [0xa2bfe8a1, 0xa81a664b, 0xc24b8b70, 0xc76c51a3],
    [0xd192e819, 0xd6990624, 0xf40e3585, 0x106aa070],
    [0x19a4c116, 0x1e376c08, 0x2748774c, 0x34b0bcb5],
    [0x391c0cb3, 0x4ed8aa4a, 0x5b9cca4f, 0x682e6ff3],
    [0x748f82ee, 0x78a5636f, 0x84c87814, 0x8cc70208],
    [0x90befffa, 0xa4506ceb, 0xbef9a3f7, 0xc67178f2]]"

text \<open>[sha256/bench_sha256.c 34-34 ROTR]\<close>

definition ROTR :: "u32 \<Rightarrow> nat \<Rightarrow> u32" where
  "ROTR x n = drop_bit n x OR push_bit (32 - n) x"

text \<open>[sha256/bench_sha256.c 35-35 CH]\<close>

definition CH :: "u32 \<Rightarrow> u32 \<Rightarrow> u32 \<Rightarrow> u32" where
  "CH x y z = (x AND y) XOR (NOT x AND z)"

text \<open>[sha256/bench_sha256.c 36-36 MAJ]\<close>

definition MAJ :: "u32 \<Rightarrow> u32 \<Rightarrow> u32 \<Rightarrow> u32" where
  "MAJ x y z = (x AND y) XOR (x AND z) XOR (y AND z)"

text \<open>[sha256/bench_sha256.c 37-37 EP0]\<close>

definition EP0 :: "u32 \<Rightarrow> u32" where
  "EP0 x = ROTR x 2 XOR ROTR x 13 XOR ROTR x 22"

text \<open>[sha256/bench_sha256.c 38-38 EP1]\<close>

definition EP1 :: "u32 \<Rightarrow> u32" where
  "EP1 x = ROTR x 6 XOR ROTR x 11 XOR ROTR x 25"

text \<open>[sha256/bench_sha256.c 39-39 SIG0]\<close>

definition SIG0 :: "u32 \<Rightarrow> u32" where
  "SIG0 x = ROTR x 7 XOR ROTR x 18 XOR drop_bit 3 x"

text \<open>[sha256/bench_sha256.c 40-40 SIG1]\<close>

definition SIG1 :: "u32 \<Rightarrow> u32" where
  "SIG1 x = ROTR x 17 XOR ROTR x 19 XOR drop_bit 10 x"

text \<open>[sha256/bench_sha256.c 42-47 sha256_ctx]\<close>

record sha256_ctx =
  state :: "u32 list"
  bitcount :: u64
  buffer :: "u8 list"
  buflen :: nat

text \<open>[sha256/bench_sha256.c 54-59 sha256_transform] Word i of a block, big-endian.\<close>

definition load_word :: "u8 list \<Rightarrow> nat \<Rightarrow> u32 option" where
  "load_word data i =
     do { b0 \<leftarrow> aget data (i * 4);
          b1 \<leftarrow> aget data (i * 4 + 1);
          b2 \<leftarrow> aget data (i * 4 + 2);
          b3 \<leftarrow> aget data (i * 4 + 3);
          Some (push_bit 24 (ucast b0) OR push_bit 16 (ucast b1) OR push_bit 8 (ucast b2) OR ucast b3) }"

text \<open>[sha256/bench_sha256.c 54-62 sha256_transform] The cells of \<open>W\<close> that have been written.\<close>

definition schedule :: "u8 list \<Rightarrow> u32 list option" where
  "schedule data =
     do { W \<leftarrow> for_in [0..<16] (\<lambda>i W. do { w \<leftarrow> load_word data i; Some (W @ [w]) }) [];
          for_in [16..<64] (\<lambda>i W.
            do { w2 \<leftarrow> aget W (i - 2);
                 w7 \<leftarrow> aget W (i - 7);
                 w15 \<leftarrow> aget W (i - 15);
                 w16 \<leftarrow> aget W (i - 16);
                 Some (W @ [SIG1 w2 + w7 + SIG0 w15 + w16]) }) W }"

text \<open>[sha256/bench_sha256.c 67-72 sha256_transform] One round.\<close>

definition sha_round :: "u32 list \<Rightarrow> nat \<Rightarrow> sha_regs \<Rightarrow> sha_regs option" where
  "sha_round W i = (\<lambda>(a, b, c, d, e, f, g, h).
     do { k \<leftarrow> aget K i;
          w \<leftarrow> aget W i;
          let t1 = h + EP1 e + CH e f g + k + w;
          let t2 = EP0 a + MAJ a b c;
          let h = g; let g = f; let f = e; let e = d + t1;
          let d = c; let c = b; let b = a; let a = t1 + t2;
          Some (a, b, c, d, e, f, g, h) })"

text \<open>[sha256/bench_sha256.c 75-75 sha256_transform] One of the eight additions.\<close>

definition add_to :: "nat \<Rightarrow> u32 \<Rightarrow> u32 list \<Rightarrow> u32 list option" where
  "add_to i x st = do { y \<leftarrow> aget st i; aput st i (y + x) }"

text \<open>[sha256/bench_sha256.c 49-76 sha256_transform] The new chaining value.\<close>

definition compress_block :: "u32 list \<Rightarrow> u8 list \<Rightarrow> u32 list option" where
  "compress_block st data =
     do { W \<leftarrow> schedule data;
          a \<leftarrow> aget st 0; b \<leftarrow> aget st 1; c \<leftarrow> aget st 2; d \<leftarrow> aget st 3;
          e \<leftarrow> aget st 4; f \<leftarrow> aget st 5; g \<leftarrow> aget st 6; h \<leftarrow> aget st 7;
          (a, b, c, d, e, f, g, h) \<leftarrow> for_in [0..<64] (sha_round W) (a, b, c, d, e, f, g, h);
          st \<leftarrow> add_to 0 a st; st \<leftarrow> add_to 1 b st; st \<leftarrow> add_to 2 c st; st \<leftarrow> add_to 3 d st;
          st \<leftarrow> add_to 4 e st; st \<leftarrow> add_to 5 f st; st \<leftarrow> add_to 6 g st; add_to 7 h st }"

text \<open>[sha256/bench_sha256.c 49-76 sha256_transform]\<close>

definition sha256_transform :: "sha256_ctx \<Rightarrow> u8 list \<Rightarrow> sha256_ctx option" where
  "sha256_transform ctx data = do { st \<leftarrow> compress_block (state ctx) data; Some (ctx\<lparr>state := st\<rparr>) }"

section \<open>The context operations\<close>

text \<open>[sha256/bench_sha256.c 79-82 sha256_init] The initial chaining value.\<close>

definition H0 :: "u32 list" where
  "H0 = [0x6a09e667, 0xbb67ae85, 0x3c6ef372, 0xa54ff53a,
         0x510e527f, 0x9b05688c, 0x1f83d9ab, 0x5be0cd19]"

text \<open>[sha256/bench_sha256.c 78-85 sha256_init] The buffer keeps its former contents.\<close>

definition sha256_init :: "sha256_ctx \<Rightarrow> sha256_ctx" where
  "sha256_init ctx = ctx\<lparr>state := H0, bitcount := 0, buflen := 0\<rparr>"

text \<open>[sha256/bench_sha256.c 88-95 sha256_update] One byte.\<close>

definition update_byte :: "u8 \<Rightarrow> sha256_ctx \<Rightarrow> sha256_ctx option" where
  "update_byte d ctx =
     do { buf \<leftarrow> aput (buffer ctx) (buflen ctx) d;
          let ctx = ctx\<lparr>buffer := buf, buflen := buflen ctx + 1\<rparr>;
          if buflen ctx = 64
          then do { ctx \<leftarrow> sha256_transform ctx (buffer ctx);
                    Some (ctx\<lparr>bitcount := bitcount ctx + 512, buflen := 0\<rparr>) }
          else Some ctx }"

text \<open>[sha256/bench_sha256.c 87-96 sha256_update]\<close>

definition sha256_update :: "sha256_ctx \<Rightarrow> u8 list \<Rightarrow> sha256_ctx option" where
  "sha256_update ctx data = for_in data update_byte ctx"

text \<open>[sha256/bench_sha256.c 101-105 sha256_final] Zeros in the cells \<open>i .. j - 1\<close>.\<close>

definition zero_fill :: "nat \<Rightarrow> nat \<Rightarrow> u8 list \<Rightarrow> u8 list option" where
  "zero_fill i j = for_in [i..<j] (\<lambda>k buf. aput buf k 0)"

text \<open>[sha256/bench_sha256.c 109-116 sha256_final] The eight length bytes.\<close>

definition store_length :: "u64 \<Rightarrow> u8 list \<Rightarrow> u8 list option" where
  "store_length w = for_in [0..<8] (\<lambda>j buf. aput buf (56 + j) (ucast (drop_bit (56 - 8 * j) w)))"

text \<open>[sha256/bench_sha256.c 119-124 sha256_final] The digest bytes, in order.\<close>

definition hash_bytes :: "u32 list \<Rightarrow> u8 list option" where
  "hash_bytes st =
     for_in [0..<8] (\<lambda>j hash.
       do { s \<leftarrow> aget st j;
            Some (hash @ [ucast (drop_bit 24 s), ucast (drop_bit 16 s), ucast (drop_bit 8 s), ucast s]) }) []"

text \<open>[sha256/bench_sha256.c 98-125 sha256_final] The context and the digest.\<close>

definition sha256_final :: "sha256_ctx \<Rightarrow> (sha256_ctx \<times> u8 list) option" where
  "sha256_final ctx =
     do { let i = buflen ctx;
          buf \<leftarrow> aput (buffer ctx) i 0x80;
          let i = i + 1;
          (ctx, i) \<leftarrow>
            (if i > 56
             then do { buf \<leftarrow> zero_fill i 64 buf;
                       ctx \<leftarrow> sha256_transform (ctx\<lparr>buffer := buf\<rparr>) buf;
                       Some (ctx, 0) }
             else Some (ctx\<lparr>buffer := buf\<rparr>, i));
          buf \<leftarrow> zero_fill i 56 (buffer ctx);
          let ctx = ctx\<lparr>bitcount := bitcount ctx + of_nat (buflen ctx) * 8\<rparr>;
          buf \<leftarrow> store_length (bitcount ctx) buf;
          ctx \<leftarrow> sha256_transform (ctx\<lparr>buffer := buf\<rparr>) buf;
          hash \<leftarrow> hash_bytes (state ctx);
          Some (ctx, hash) }"

text \<open>
  [sha256/bench_sha256.c 149-152 hash_batch] One hash: initialise a context with whatever
  the stack holds, feed the pieces, finish.
\<close>

definition sha256_hash :: "sha256_ctx \<Rightarrow> u8 list list \<Rightarrow> u8 list option" where
  "sha256_hash junk pieces =
     do { ctx \<leftarrow> for_in pieces (\<lambda>data ctx. sha256_update ctx data) (sha256_init junk);
          (ctx, hash) \<leftarrow> sha256_final ctx;
          Some hash }"

section \<open>The compression function is that of FIPS 180-4\<close>

lemma ROTR_rotr: "0 < n \<Longrightarrow> n < 32 \<Longrightarrow> ROTR x n = word_rotr n x"
proof (rule bit_word_eqI)
  fix m assume n: "0 < n" "n < 32" and "m < LENGTH(32)"
  then have m: "m < 32" by simp
  have "\<not> bit x k" if "32 \<le> k" for k using that by (auto dest: bit_imp_le_length)
  moreover have "(m + n) mod 32 = (if m + n < 32 then m + n else m + n - 32)" using n m by (simp add: mod_if)
  ultimately show "bit (ROTR x n) m = bit (word_rotr n x) m"
    using n m by (auto simp: ROTR_def bit_or_iff bit_drop_bit_eq bit_push_bit_iff bit_word_rotr_iff add.commute not_less)
qed

lemma sha_functions: "CH = fips_Ch" "MAJ = fips_Maj" "EP0 = Sigma0" "EP1 = Sigma1" "SIG0 = sigma0" "SIG1 = sigma1"
  by (simp_all add: fun_eq_iff CH_def fips_Ch_def MAJ_def fips_Maj_def EP0_def Sigma0_def EP1_def Sigma1_def
      SIG0_def sigma0_def SIG1_def sigma1_def ROTR_rotr)

lemma primes_64: "length primes = 64"
  by (simp add: primes_list)

lemma K_H0_bits: "list_all2 (root_bits 3) primes K" "list_all2 (root_bits 2) (take 8 primes) H0"
  unfolding primes_list by code_simp+

lemma K_fips: "length K = 64" "i < 64 \<Longrightarrow> K ! i = fips_K i"
proof -
  show "length K = 64" using list_all2_lengthD [OF K_H0_bits(1)] primes_64 by simp
  assume "i < 64"
  then have "root_bits 3 (primes ! i) (K ! i)" using list_all2_nthD [OF K_H0_bits(1)] primes_64 by simp
  then show "K ! i = fips_K i" unfolding fips_K_def by (rule root_bits_first [symmetric])
qed

lemma H0_fips: "H0 = fips_H0"
proof (rule nth_equalityI)
  show "length H0 = length fips_H0"
    using list_all2_lengthD [OF K_H0_bits(2)] by (simp add: fips_H0_def)
  fix i assume "i < length H0"
  then have "i < length (take 8 primes)" using list_all2_lengthD [OF K_H0_bits(2)] by simp
  then show "H0 ! i = fips_H0 ! i"
    using root_bits_first [OF list_all2_nthD [OF K_H0_bits(2)], of i] by (simp add: fips_H0_def)
qed

text \<open>The words of a block of bytes.\<close>

lemma word_of_bits_of: "word_of_bits (bits_of 32 w) = w"
proof (rule bit_word_eqI)
  fix n assume "n < LENGTH(32)"
  then show "bit (word_of_bits (bits_of 32 w)) n = bit w n"
    by (simp add: word_of_bits_def bit_horner_sum_bit_word_iff bits_of_def rev_map)
qed

lemma load_word_eq:
  assumes "length data = 64" "i < 16"
  shows "load_word data i = Some (block_word (byte_bits data) i)"
proof -
  let ?b = "\<lambda>j. data ! (i * 4 + j)"
  let ?w = "push_bit 24 (ucast (?b 0)) OR push_bit 16 (ucast (?b 1)) OR push_bit 8 (ucast (?b 2)) OR ucast (?b 3) :: u32"
  have "drop (4 * i) data = ?b 0 # ?b 1 # ?b 2 # ?b 3 # drop (4 * i + 4) data"
    using assms by (simp add: Cons_nth_drop_Suc mult.commute numeral_eq_Suc)
  then have "take 4 (drop (4 * i) data) = [?b 0, ?b 1, ?b 2, ?b 3]" by simp
  moreover have "take 32 (drop (32 * i) (byte_bits data)) = byte_bits (take 4 (drop (4 * i) data))"
    using take_byte_bits [of 4 "drop (4 * i) data"] drop_byte_bits [of "4 * i" data] by simp
  ultimately have bits: "take 32 (drop (32 * i) (byte_bits data)) = bits_of 8 (?b 0) @ bits_of 8 (?b 1) @ bits_of 8 (?b 2) @ bits_of 8 (?b 3)"
    by simp
  have short: "\<not> bit b n" if "8 \<le> n" for b :: u8 and n using that by (auto dest: bit_imp_le_length)
  have "bits_of 32 ?w = bits_of 8 (?b 0) @ bits_of 8 (?b 1) @ bits_of 8 (?b 2) @ bits_of 8 (?b 3)"
    by (simp add: bits_of_def upt_rec bit_or_iff bit_push_bit_iff bit_ucast_iff short)
  then have "block_word (byte_bits data) i = ?w"
    using word_of_bits_of [of ?w] by (simp add: block_word_def bits)
  then show ?thesis using assms by (simp add: load_word_def)
qed

lemma schedule_eq:
  assumes "length data = 64"
  shows "schedule data = Some (map (fips_W (block_word (byte_bits data))) [0..<64])"
proof -
  let ?M = "block_word (byte_bits data)"
  have "runs (for_in [0..<16] (\<lambda>i W. do { w \<leftarrow> load_word data i; Some (W @ [w]) }) []) (\<lambda>W. W = map (fips_W ?M) [0..<16])"
    by (rule runs_for_upt [where I = "\<lambda>i W. W = map (fips_W ?M) [0..<i]"])
      (simp_all add: load_word_eq [OF assms] fips_W_first del: upt_rec_numeral)
  moreover have "runs (for_in [16..<64] (\<lambda>i W.
            do { w2 \<leftarrow> aget W (i - 2); w7 \<leftarrow> aget W (i - 7); w15 \<leftarrow> aget W (i - 15); w16 \<leftarrow> aget W (i - 16);
                 Some (W @ [SIG1 w2 + w7 + SIG0 w15 + w16]) }) (map (fips_W ?M) [0..<16])) (\<lambda>W. W = map (fips_W ?M) [0..<64])"
    by (rule runs_for_upt [where I = "\<lambda>i W. W = map (fips_W ?M) [0..<i]"])
      (simp_all add: sha_functions fips_W_next del: upt_rec_numeral)
  ultimately show ?thesis by (simp add: schedule_def runs_iff_Some del: upt_rec_numeral)
qed

lemma rounds_eq:
  assumes "n \<le> 64"
  shows "for_in [0..<n] (sha_round (map (fips_W M) [0..<64])) v = Some (fips_rounds M n v)"
  using assms
proof (induction n)
  case (Suc n)
  obtain a b c d e f g h where v: "fips_rounds M n v = (a, b, c, d, e, f, g, h)" by (rule sha_regs_cases)
  then have "for_in [0..<n] (sha_round (map (fips_W M) [0..<64])) v = Some (a, b, c, d, e, f, g, h)" using Suc by simp
  moreover have "sha_round (map (fips_W M) [0..<64]) n (a, b, c, d, e, f, g, h) = Some (fips_round M n (a, b, c, d, e, f, g, h))"
    using Suc.prems by (simp add: sha_round_def fips_round_def Let_def sha_functions K_fips)
  ultimately show ?case using v by (simp add: for_in_append)
qed simp

lemma add_to_Some: "i < length st \<Longrightarrow> add_to i x st = Some (st[i := st ! i + x])"
  by (simp add: add_to_def)

lemma compress_block_eq:
  assumes "length st = 8" "length data = 64"
  shows "compress_block st data = Some (fips_block st (block_word (byte_bits data)))"
proof -
  obtain s0 s1 s2 s3 s4 s5 s6 s7 where st: "st = [s0, s1, s2, s3, s4, s5, s6, s7]"
    using assms(1) by (auto simp: length_Suc_conv numeral_eq_Suc)
  obtain a b c d e f g h where v: "fips_rounds (block_word (byte_bits data)) 64 (s0, s1, s2, s3, s4, s5, s6, s7) = (a, b, c, d, e, f, g, h)" by (rule sha_regs_cases)
  show ?thesis
    using rounds_eq [of 64 "block_word (byte_bits data)" "(s0, s1, s2, s3, s4, s5, s6, s7)"] v
    by (simp add: compress_block_def schedule_eq [OF assms(2)] st fips_block_def add_to_Some add.commute)
qed

interpretation sha: block_stream compress_block "\<lambda>st xs. fips_block st (block_word (byte_bits xs))" "\<lambda>st. length st = 8" 64
  by unfold_locales (simp_all add: compress_block_eq)

section \<open>Padding and digest, in bytes\<close>

definition be_bytes64 :: "u64 \<Rightarrow> u8 list" where
  "be_bytes64 w = map (\<lambda>j. ucast (drop_bit (56 - 8 * j) w)) [0..<8]"

definition pad :: "u8 list \<Rightarrow> u8 list" where
  "pad msg = msg @ 0x80 # replicate ((119 - length msg mod 64) mod 64) 0
     @ be_bytes64 (of_nat (8 * length msg))"

lemma length_be_bytes64 [simp]: "length (be_bytes64 w) = 8"
  by (simp add: be_bytes64_def)

lemma bits_of_bytes64: "byte_bits (be_bytes64 w) = bits_of 64 w"
  using bits_of_split [of 8 56 w] bits_of_split [of 8 48 w] bits_of_split [of 8 40 w] bits_of_split [of 8 32 w]
    bits_of_split [of 8 24 w] bits_of_split [of 8 16 w] bits_of_split [of 8 8 w]
  by (simp add: be_bytes64_def upt_rec bits_of_ucast)

lemma least_zeros:
  "(LEAST k :: nat. (8 * n + 1 + k) mod 512 = 448) = 7 + 8 * ((119 - n mod 64) mod 64)"
proof (rule Least_equality)
  define q m where "q = n div 64" and "m = n mod 64"
  have n: "n = 64 * q + m" and m: "m < 64" by (simp_all add: q_def m_def)
  let ?z = "(119 - n mod 64) mod 64"
  have z: "?z = (if m \<le> 55 then 55 - m else 119 - m)"
    unfolding m_def [symmetric] using m by (simp add: mod_if)
  have shift: "(8 * n + 1 + k) mod 512 = (8 * m + 1 + k) mod 512" for k
  proof -
    have "8 * n + 1 + k = (8 * m + 1 + k) + 512 * q" using n by simp
    then show ?thesis by (simp only: mod_mult_self2)
  qed
  have "8 * m + 1 + (7 + 8 * ?z) = (if m \<le> 55 then 448 else 448 + 512)"
    unfolding z using m by (cases "m \<le> 55") (simp_all add: diff_mult_distrib2)
  then show "(8 * n + 1 + (7 + 8 * ?z)) mod 512 = 448" unfolding shift by simp
  fix k assume "(8 * n + 1 + k) mod 512 = 448"
  then have k: "(8 * m + 1 + k) mod 512 = 448" unfolding shift .
  show "7 + 8 * ?z \<le> k"
  proof (cases "m \<le> 55")
    case True
    have "448 \<le> 8 * m + 1 + k" using k mod_less_eq_dividend [of "8 * m + 1 + k" 512] by simp
    then show ?thesis unfolding z using True by simp
  next
    case False
    have "8 * m + 1 + k = 448" if "8 * m + 1 + k < 512" using k that by (simp only: mod_less)
    then have "512 \<le> 8 * m + 1 + k" using False by linarith
    then have "(8 * m + 1 + k - 512) mod 512 = 448" using k by (simp add: le_mod_geq)
    then have "448 \<le> 8 * m + 1 + k - 512" using mod_less_eq_dividend [of "8 * m + 1 + k - 512" 512] by simp
    then show ?thesis unfolding z using False m by simp
  qed
qed

lemma pad_bits: "fips_pad (byte_bits msg) = byte_bits (pad msg)"
proof -
  have "bits_of 8 (0x80 :: u8) = True # replicate 7 False" by (simp add: bits_of_def upt_rec numeral_eq_Suc)
  then show ?thesis
    unfolding fips_pad_def pad_def length_byte_bits least_zeros
    by (simp add: byte_bits_zeros bits_of_bytes64 replicate_add)
qed

lemma fold_blocks:
  "foldl (\<lambda>H b. fips_block H (block_word b)) st (blocks (byte_bits xs)) = sha.compress_all st xs"
proof (induction st xs rule: sha.compress_all.induct)
  case (1 st xs)
  show ?case
  proof (cases "length xs < 64")
    case False
    have "take 512 (byte_bits xs) = byte_bits (take 64 xs)" "drop 512 (byte_bits xs) = byte_bits (drop 64 xs)"
      using take_byte_bits [of 64 xs] drop_byte_bits [of 64 xs] by simp_all
    then show ?thesis
      using 1 False by (subst blocks.simps, subst sha.compress_all.simps) simp
  qed (simp add: blocks.simps)
qed

lemma hash_bytes_eq:
  assumes "length st = 8"
  shows "\<exists>hash. hash_bytes st = Some hash \<and> length hash = 32 \<and> byte_bits hash = concat (map (bits_of 32) st)"
proof -
  define bytes :: "u32 \<Rightarrow> u8 list" where "bytes s = [ucast (drop_bit 24 s), ucast (drop_bit 16 s), ucast (drop_bit 8 s), ucast s]" for s
  have "runs (hash_bytes st) (\<lambda>hash. hash = concat (map bytes (take 8 st)))"
    unfolding hash_bytes_def
    by (rule runs_for_upt [where I = "\<lambda>i hash. hash = concat (map bytes (take i st))"])
      (use assms in \<open>simp_all add: take_Suc_conv_app_nth bytes_def\<close>)
  then have "hash_bytes st = Some (concat (map bytes st))" using assms by (auto simp: runs_iff_Some)
  moreover have "byte_bits (bytes s) = bits_of 32 s" for s
    using bits_of_split [of 8 24 s] bits_of_split [of 8 16 s] bits_of_split [of 8 8 s] by (simp add: bytes_def bits_of_ucast)
  then have "byte_bits (concat (map bytes st)) = concat (map (bits_of 32) st)" by (induction st) simp_all
  moreover have "8 * length hash = 8 * 32" if "byte_bits hash = concat (map (bits_of 32) st)" for hash
    using arg_cong [OF that, of length] assms by (simp add: length_concat comp_def sum_list_triv)
  ultimately show ?thesis by simp
qed

text \<open>The digest of a message of bytes.\<close>

lemma digest_bytes:
  "\<exists>hash. hash_bytes (sha.compress_all H0 (pad msg)) = Some hash \<and> length hash = 32
     \<and> byte_bits hash = fips_sha256 (byte_bits msg)"
proof -
  have "length (sha.compress_all H0 (pad msg)) = 8" by (rule sha.chain_all) (simp add: H0_def)
  from hash_bytes_eq [OF this] show ?thesis by (simp add: fips_sha256_def pad_bits fold_blocks H0_fips)
qed

section \<open>The context implements the reference\<close>

text \<open>What a context knows of the message \<open>msg\<close> absorbed so far.\<close>

definition absorbed :: "u8 list \<Rightarrow> sha256_ctx \<Rightarrow> bool" where
  "absorbed msg ctx \<longleftrightarrow>
     length (buffer ctx) = 64 \<and> buflen ctx = length msg mod 64 \<and>
     take (buflen ctx) (buffer ctx) = sha.rest msg \<and>
     state ctx = sha.compress_all H0 msg \<and>
     bitcount ctx = of_nat (512 * (length msg div 64))"

lemma absorbed_init: "length (buffer junk) = 64 \<Longrightarrow> absorbed [] (sha256_init junk)"
  by (simp add: absorbed_def sha256_init_def)

lemma length_sha_rest: "length (sha.rest msg) = length msg mod 64"
  by (simp add: sha.rest_def minus_div_mult_eq_mod)

lemma length_chain: "length (sha.compress_all H0 xs) = 8"
  by (rule sha.chain_all) (simp add: H0_def)

lemma transform_eq:
  assumes "state ctx = sha.compress_all H0 xs" "length data = 64"
  shows "sha256_transform ctx data = Some (ctx\<lparr>state := fips_block (state ctx) (block_word (byte_bits data))\<rparr>)"
  using sha.compress_spec [OF length_chain assms(2), of xs] assms(1) by (simp add: sha256_transform_def)

lemma update_byte_absorbed:
  assumes "absorbed msg ctx"
  shows "runs (update_byte d ctx) (absorbed (msg @ [d]))"
proof -
  let ?n = "buflen ctx"
  have n: "?n = length msg mod 64" "?n < 64" and buf: "length (buffer ctx) = 64"
    using assms by (auto simp: absorbed_def)
  have take: "take (Suc ?n) ((buffer ctx)[?n := d]) = sha.rest msg @ [d]"
    using assms n buf by (simp add: absorbed_def take_Suc_conv_app_nth)
  have len: "length (sha.rest msg @ [d]) = ?n + 1" using n by (simp add: length_sha_rest)
  show ?thesis
  proof (cases "?n + 1 = 64")
    case True
    then have full: "sha.rest msg @ [d] = (buffer ctx)[?n := d]"
      using take buf by simp
    have "sha.compress_all H0 (msg @ [d]) = fips_block (state ctx) (block_word (byte_bits ((buffer ctx)[?n := d])))"
        "sha.rest (msg @ [d]) = []"
      using sha.absorb_step(1) [of msg d H0] len True full assms by (simp_all add: absorbed_def)
    moreover have "length (msg @ [d]) mod 64 = 0" "length (msg @ [d]) div 64 = Suc (length msg div 64)"
      using True n by (simp_all add: mod_Suc div_Suc)
    moreover have "sha256_transform (ctx\<lparr>buffer := (buffer ctx)[?n := d], buflen := 64\<rparr>) ((buffer ctx)[?n := d])
        = Some (ctx\<lparr>buffer := (buffer ctx)[?n := d], buflen := 64, state := fips_block (state ctx) (block_word (byte_bits ((buffer ctx)[?n := d])))\<rparr>)"
      using assms buf by (subst transform_eq [of _ msg]) (simp_all add: absorbed_def)
    ultimately show ?thesis
      using True assms n buf
      by (simp add: update_byte_def absorbed_def Let_def)
  next
    case False
    then have "length (msg @ [d]) mod 64 = Suc ?n" "length (msg @ [d]) div 64 = length msg div 64"
      using n by (simp_all add: mod_Suc div_Suc)
    moreover have "sha.compress_all H0 (msg @ [d]) = sha.compress_all H0 msg" "sha.rest (msg @ [d]) = sha.rest msg @ [d]"
      using sha.absorb_step(2) [of msg d H0] len False n by simp_all
    ultimately show ?thesis
      using False assms n buf take
      by (simp add: update_byte_def absorbed_def Let_def)
  qed
qed

lemma sha256_update_absorbed:
  "absorbed msg ctx \<Longrightarrow> runs (sha256_update ctx data) (absorbed (msg @ data))"
proof (induction data arbitrary: msg ctx)
  case (Cons d data)
  have "runs (update_byte d ctx) (absorbed (msg @ [d]))"
    by (rule update_byte_absorbed [OF Cons.prems])
  then obtain ctx' where "update_byte d ctx = Some ctx'" "absorbed (msg @ [d]) ctx'"
    by (auto simp: runs_iff_Some)
  with Cons.IH [of "msg @ [d]" ctx'] show ?case
    by (simp add: sha256_update_def)
qed (simp add: sha256_update_def)

lemma zero_fill_eq:
  "i \<le> j \<Longrightarrow> j \<le> length buf \<Longrightarrow> zero_fill i j buf = Some (take i buf @ replicate (j - i) 0 @ drop j buf)"
  by (simp add: zero_fill_def for_in_aput_range map_replicate_const)

lemma zero_fill_tail:
  assumes "take i buf = xs" "i \<le> j" "j \<le> length buf"
  shows "zero_fill i j buf = Some (xs @ replicate (j - i) 0 @ drop j buf)"
  using zero_fill_eq [OF assms(2,3)] assms(1) by simp

lemma store_length_eq:
  assumes "length buf = 64"
  shows "store_length w buf = Some (take 56 buf @ be_bytes64 w)"
proof -
  have "[0..<8] = map (\<lambda>k. k - 56) [56..<64]" by (simp add: upt_rec)
  then have "store_length w buf
      = for_in [56..<64] (\<lambda>k buf. aput buf (56 + (k - 56)) (ucast (drop_bit (56 - 8 * (k - 56)) w))) buf"
    unfolding store_length_def by (simp only: for_in_map)
  also have "\<dots> = for_in [56..<64] (\<lambda>k buf. aput buf k (ucast (drop_bit (56 - 8 * (k - 56)) w))) buf"
    by (rule for_in_cong) auto
  also have "\<dots> = Some (take 56 buf @ be_bytes64 w)"
    using assms by (subst for_in_aput_range) (simp_all add: be_bytes64_def upt_rec)
  finally show ?thesis .
qed


lemma sha256_final_spec:
  assumes "absorbed msg ctx"
  shows "\<exists>ctx' hash. sha256_final ctx = Some (ctx', hash) \<and> length hash = 32 \<and> byte_bits hash = fips_sha256 (byte_bits msg)"
proof -
  obtain hash where hash: "hash_bytes (sha.compress_all H0 (pad msg)) = Some hash" "length hash = 32"
      "byte_bits hash = fips_sha256 (byte_bits msg)"
    using digest_bytes by blast
  let ?n = "buflen ctx" and ?w = "of_nat (8 * length msg) :: u64"
  have n: "?n = length msg mod 64" "?n < 64" and buf: "length (buffer ctx) = 64"
    and rest: "take ?n (buffer ctx) = sha.rest msg" "length (sha.rest msg) = ?n"
    and st: "state ctx = sha.compress_all H0 msg"
    using assms by (auto simp: absorbed_def length_sha_rest)
  have "512 * (length msg div 64) + length msg mod 64 * 8 = 8 * length msg"
    using div_mult_mod_eq [of "length msg" 64] by linarith
  moreover have "bitcount ctx + of_nat ?n * 8
      = of_nat (512 * (length msg div 64) + length msg mod 64 * 8)"
  proof -
    have "bitcount ctx = of_nat (512 * (length msg div 64))"
      using assms by (simp only: absorbed_def)
    then show ?thesis
      by (simp only: n(1) of_nat_add of_nat_mult of_nat_numeral)
  qed
  ultimately have w: "bitcount ctx + of_nat ?n * 8 = ?w"
    by (simp only:)
  have hd: "take (?n + 1) ((buffer ctx)[?n := 0x80]) = sha.rest msg @ [0x80]"
    using rest(1) n(2) buf by (simp add: take_Suc_conv_app_nth)
  have spec: "sha.compress_all H0 (pad msg) = sha.compress_all (state ctx)
      (sha.rest msg @ 0x80 # replicate ((119 - ?n) mod 64) 0 @ be_bytes64 ?w)"
    unfolding pad_def by (subst sha.compress_all_append) (simp only: st n(1))
  let ?f = "\<lambda>s b. fips_block s (block_word (byte_bits b))"
  have tr: "sha256_transform c b = Some (c\<lparr>state := ?f (state c) b\<rparr>)" if "length (state c) = 8" "length b = 64" for c b
    using that by (simp add: sha256_transform_def compress_block_eq)
  have st8: "length (state ctx) = 8" unfolding st by (rule length_chain)
  show ?thesis
  proof (cases "?n + 1 > 56")
    case True
    define b1 where "b1 = sha.rest msg @ 0x80 # replicate (63 - ?n) 0"
    define b2 where "b2 = replicate 56 0 @ be_bytes64 ?w"
    have len: "length b1 = 64" "length b2 = 64"
      using rest(2) n(2) by (simp_all add: b1_def b2_def)
    have "zero_fill (?n + 1) 64 ((buffer ctx)[?n := 0x80]) = Some b1"
      using n(2) buf by (subst zero_fill_tail [OF hd]) (simp_all add: b1_def)
    moreover have "zero_fill 0 56 b1 = Some (replicate 56 0 @ drop 56 b1)"
      using len by (simp add: zero_fill_eq)
    moreover have "store_length ?w (replicate 56 0 @ drop 56 b1) = Some b2"
      using len by (simp add: store_length_eq b2_def)
    moreover have "sha.compress_all (state ctx)
        (sha.rest msg @ 0x80 # replicate ((119 - ?n) mod 64) 0 @ be_bytes64 ?w)
        = ?f (?f (state ctx) b1) b2"
    proof -
      have "(119 - ?n) mod 64 = (63 - ?n) + 56" using True n(2) by simp
      then have "replicate ((119 - ?n) mod 64) (0 :: u8) = replicate (63 - ?n) 0 @ replicate 56 0"
        by (simp only: replicate_add)
      then have "sha.rest msg @ 0x80 # replicate ((119 - ?n) mod 64) 0 @ be_bytes64 ?w = b1 @ b2 @ []"
        by (simp only: b1_def b2_def append_assoc append_Cons append_Nil2)
      then show ?thesis
        by (simp only: sha.compress_all_block len) simp
    qed
    ultimately show ?thesis
      using True n(2) buf w spec hash st8 len
      by (simp add: sha256_final_def Let_def tr)
  next
    case False
    define b where "b = sha.rest msg @ 0x80 # replicate (55 - ?n) 0 @ be_bytes64 ?w"
    define z where "z = (sha.rest msg @ [0x80]) @ replicate (56 - (?n + 1)) 0 @ drop 56 ((buffer ctx)[?n := 0x80])"
    have len: "length b = 64" "length z = 64" and z: "take 56 z = sha.rest msg @ 0x80 # replicate (55 - ?n) 0"
      using rest(2) n(2) False buf by (simp_all add: b_def z_def take_Cons')
    have "zero_fill (?n + 1) 56 ((buffer ctx)[?n := 0x80]) = Some z"
      using n(2) False buf by (subst zero_fill_tail [OF hd]) (simp_all add: z_def)
    moreover have "store_length ?w z = Some b"
      using len z by (simp add: store_length_eq b_def)
    moreover have "sha.compress_all (state ctx)
        (sha.rest msg @ 0x80 # replicate ((119 - ?n) mod 64) 0 @ be_bytes64 ?w)
        = ?f (state ctx) b"
    proof -
      have "119 - ?n = (55 - ?n) + 64 * 1" using False n(2) by simp
      then have "(119 - ?n) mod 64 = 55 - ?n"
        using False n(2) by (simp only: mod_mult_self2) simp
      then have "sha.rest msg @ 0x80 # replicate ((119 - ?n) mod 64) 0 @ be_bytes64 ?w = b @ []"
        by (simp add: b_def)
      then show ?thesis
        by (simp only: sha.compress_all_block len) simp
    qed
    ultimately show ?thesis
      using False n(2) buf w spec hash st8 len
      by (simp add: sha256_final_def Let_def tr)
  qed
qed

lemma sha256_pieces_absorbed:
  "absorbed msg ctx \<Longrightarrow>
     runs (for_in pieces (\<lambda>data ctx. sha256_update ctx data) ctx) (absorbed (msg @ concat pieces))"
proof (induction pieces arbitrary: msg ctx)
  case (Cons data pieces)
  obtain ctx' where "sha256_update ctx data = Some ctx'" "absorbed (msg @ data) ctx'"
    using sha256_update_absorbed [OF Cons.prems, of data] by (auto simp: runs_iff_Some)
  with Cons.IH [of "msg @ data" ctx'] show ?case by simp
qed simp

section \<open>Properties\<close>

text \<open>
  C7: for every message and every way of cutting it into pieces handed to
  \<open>sha256_update\<close>, the context returns 32 bytes that are, bit by bit, the digest that
  FIPS 180-4 defines for the bits of the message, with the constants it derives from the
  roots of the primes and with its padding, whatever the memory of the context held before;
  no access leaves an array.
\<close>

theorem sha256_streaming_correct:
  assumes "length (buffer junk) = 64"
  shows "\<exists>hash. sha256_hash junk pieces = Some hash \<and> length hash = 32
     \<and> byte_bits hash = fips_sha256 (byte_bits (concat pieces))"
proof -
  obtain ctx where "for_in pieces (\<lambda>data ctx. sha256_update ctx data) (sha256_init junk) = Some ctx"
    and "absorbed (concat pieces) ctx"
    using sha256_pieces_absorbed [OF absorbed_init [OF assms], of pieces]
    by (auto simp: runs_iff_Some)
  then show ?thesis
    using sha256_final_spec by (fastforce simp: sha256_hash_def)
qed

text \<open>The first example of the standard: the message \<open>abc\<close>, in two pieces.\<close>

lemma sha256_streaming_correct_witness:
  "\<exists>hash. sha256_hash \<lparr>state = [], bitcount = 7, buffer = replicate 64 0xFF, buflen = 3\<rparr> [[0x61], [0x62, 0x63]] = Some hash
     \<and> length hash = 32 \<and> byte_bits hash = fips_sha256 (byte_bits [0x61, 0x62, 0x63])"
  using sha256_streaming_correct
    [of "\<lparr>state = [], bitcount = 7, buffer = replicate 64 0xFF, buflen = 3\<rparr>" "[[0x61], [0x62, 0x63]]"]
  by simp

end
