(* ===== verification/BzCrc.thy ===== *)
theory BzCrc
  imports CoreCrc
begin

text \<open>
  The tables and the macros of bzip2 that the compressor and the decompressor share: the
  32-bit block CRC (\<open>benchmarks/wasi/bzip2/crctable.c\<close> and the macros of
  \<open>bzlib_private.h\<close>), shown to be a CRC in the sense of \<open>crc_code\<close>, and the pseudo-random
  table of \<open>randtable.c\<close> that old encoders used on repetitive blocks.
\<close>

section \<open>The CRC\<close>

text \<open>[bzip2/crctable.c 31-99 BZ2_crc32Table]\<close>

definition BZ2_crc32Table :: "u32 list" where
  "BZ2_crc32Table = concat [
    [0x00000000, 0x04c11db7, 0x09823b6e, 0x0d4326d9],
    [0x130476dc, 0x17c56b6b, 0x1a864db2, 0x1e475005],
    [0x2608edb8, 0x22c9f00f, 0x2f8ad6d6, 0x2b4bcb61],
    [0x350c9b64, 0x31cd86d3, 0x3c8ea00a, 0x384fbdbd],
    [0x4c11db70, 0x48d0c6c7, 0x4593e01e, 0x4152fda9],
    [0x5f15adac, 0x5bd4b01b, 0x569796c2, 0x52568b75],
    [0x6a1936c8, 0x6ed82b7f, 0x639b0da6, 0x675a1011],
    [0x791d4014, 0x7ddc5da3, 0x709f7b7a, 0x745e66cd],
    [0x9823b6e0, 0x9ce2ab57, 0x91a18d8e, 0x95609039],
    [0x8b27c03c, 0x8fe6dd8b, 0x82a5fb52, 0x8664e6e5],
    [0xbe2b5b58, 0xbaea46ef, 0xb7a96036, 0xb3687d81],
    [0xad2f2d84, 0xa9ee3033, 0xa4ad16ea, 0xa06c0b5d],
    [0xd4326d90, 0xd0f37027, 0xddb056fe, 0xd9714b49],
    [0xc7361b4c, 0xc3f706fb, 0xceb42022, 0xca753d95],
    [0xf23a8028, 0xf6fb9d9f, 0xfbb8bb46, 0xff79a6f1],
    [0xe13ef6f4, 0xe5ffeb43, 0xe8bccd9a, 0xec7dd02d],
    [0x34867077, 0x30476dc0, 0x3d044b19, 0x39c556ae],
    [0x278206ab, 0x23431b1c, 0x2e003dc5, 0x2ac12072],
    [0x128e9dcf, 0x164f8078, 0x1b0ca6a1, 0x1fcdbb16],
    [0x018aeb13, 0x054bf6a4, 0x0808d07d, 0x0cc9cdca],
    [0x7897ab07, 0x7c56b6b0, 0x71159069, 0x75d48dde],
    [0x6b93dddb, 0x6f52c06c, 0x6211e6b5, 0x66d0fb02],
    [0x5e9f46bf, 0x5a5e5b08, 0x571d7dd1, 0x53dc6066],
    [0x4d9b3063, 0x495a2dd4, 0x44190b0d, 0x40d816ba],
    [0xaca5c697, 0xa864db20, 0xa527fdf9, 0xa1e6e04e],
    [0xbfa1b04b, 0xbb60adfc, 0xb6238b25, 0xb2e29692],
    [0x8aad2b2f, 0x8e6c3698, 0x832f1041, 0x87ee0df6],
    [0x99a95df3, 0x9d684044, 0x902b669d, 0x94ea7b2a],
    [0xe0b41de7, 0xe4750050, 0xe9362689, 0xedf73b3e],
    [0xf3b06b3b, 0xf771768c, 0xfa325055, 0xfef34de2],
    [0xc6bcf05f, 0xc27dede8, 0xcf3ecb31, 0xcbffd686],
    [0xd5b88683, 0xd1799b34, 0xdc3abded, 0xd8fba05a],
    [0x690ce0ee, 0x6dcdfd59, 0x608edb80, 0x644fc637],
    [0x7a089632, 0x7ec98b85, 0x738aad5c, 0x774bb0eb],
    [0x4f040d56, 0x4bc510e1, 0x46863638, 0x42472b8f],
    [0x5c007b8a, 0x58c1663d, 0x558240e4, 0x51435d53],
    [0x251d3b9e, 0x21dc2629, 0x2c9f00f0, 0x285e1d47],
    [0x36194d42, 0x32d850f5, 0x3f9b762c, 0x3b5a6b9b],
    [0x0315d626, 0x07d4cb91, 0x0a97ed48, 0x0e56f0ff],
    [0x1011a0fa, 0x14d0bd4d, 0x19939b94, 0x1d528623],
    [0xf12f560e, 0xf5ee4bb9, 0xf8ad6d60, 0xfc6c70d7],
    [0xe22b20d2, 0xe6ea3d65, 0xeba91bbc, 0xef68060b],
    [0xd727bbb6, 0xd3e6a601, 0xdea580d8, 0xda649d6f],
    [0xc423cd6a, 0xc0e2d0dd, 0xcda1f604, 0xc960ebb3],
    [0xbd3e8d7e, 0xb9ff90c9, 0xb4bcb610, 0xb07daba7],
    [0xae3afba2, 0xaafbe615, 0xa7b8c0cc, 0xa379dd7b],
    [0x9b3660c6, 0x9ff77d71, 0x92b45ba8, 0x9675461f],
    [0x8832161a, 0x8cf30bad, 0x81b02d74, 0x857130c3],
    [0x5d8a9099, 0x594b8d2e, 0x5408abf7, 0x50c9b640],
    [0x4e8ee645, 0x4a4ffbf2, 0x470cdd2b, 0x43cdc09c],
    [0x7b827d21, 0x7f436096, 0x7200464f, 0x76c15bf8],
    [0x68860bfd, 0x6c47164a, 0x61043093, 0x65c52d24],
    [0x119b4be9, 0x155a565e, 0x18197087, 0x1cd86d30],
    [0x029f3d35, 0x065e2082, 0x0b1d065b, 0x0fdc1bec],
    [0x3793a651, 0x3352bbe6, 0x3e119d3f, 0x3ad08088],
    [0x2497d08d, 0x2056cd3a, 0x2d15ebe3, 0x29d4f654],
    [0xc5a92679, 0xc1683bce, 0xcc2b1d17, 0xc8ea00a0],
    [0xd6ad50a5, 0xd26c4d12, 0xdf2f6bcb, 0xdbee767c],
    [0xe3a1cbc1, 0xe760d676, 0xea23f0af, 0xeee2ed18],
    [0xf0a5bd1d, 0xf464a0aa, 0xf9278673, 0xfde69bc4],
    [0x89b8fd09, 0x8d79e0be, 0x803ac667, 0x84fbdbd0],
    [0x9abc8bd5, 0x9e7d9662, 0x933eb0bb, 0x97ffad0c],
    [0xafb010b1, 0xab710d06, 0xa6322bdf, 0xa2f33668],
    [0xbcb4666d, 0xb8757bda, 0xb5365d03, 0xb1f740b4]]"

text \<open>[bzip2/bzlib_private.h 157-160 BZ_INITIALISE_CRC]\<close>

definition BZ_INITIALISE_CRC :: u32 where
  "BZ_INITIALISE_CRC = 0xffffffff"

text \<open>[bzip2/bzlib_private.h 162-165 BZ_FINALISE_CRC]\<close>

definition BZ_FINALISE_CRC :: "u32 \<Rightarrow> u32" where
  "BZ_FINALISE_CRC crcVar = NOT crcVar"

text \<open>[bzip2/bzlib_private.h 167-172 BZ_UPDATE_CRC] The index is below 256: the shifted register has 8 bits.\<close>

definition BZ_UPDATE_CRC :: "u8 \<Rightarrow> u32 \<Rightarrow> u32" where
  "BZ_UPDATE_CRC cha crcVar =
     push_bit 8 crcVar XOR BZ2_crc32Table ! unat (drop_bit 24 crcVar XOR ucast cha)"

section \<open>The register behind the table\<close>

text \<open>One clock of the shift register with generator 04C11DB7, most significant bit first.\<close>

definition msb_clock :: "u32 \<Rightarrow> u32" where
  "msb_clock c = push_bit 1 c XOR (if bit c 31 then 0x04c11db7 else 0)"

lemma length_crc32Table: "length BZ2_crc32Table = 256"
  by (simp add: BZ2_crc32Table_def)

text \<open>Entry \<open>2 i\<close> is entry \<open>i\<close> clocked once, entry \<open>2 i + 1\<close> has the generator added.\<close>

lemma table_doubling:
  "BZ2_crc32Table = concat (map (\<lambda>x. [msb_clock x, msb_clock x XOR 0x04c11db7]) (take 128 BZ2_crc32Table))"
  by (simp add: BZ2_crc32Table_def msb_clock_def)

lemma nth_pairs:
  "i < length xs \<Longrightarrow> concat (map (\<lambda>x. [f x, g x]) xs) ! (2 * i) = f (xs ! i)"
  "i < length xs \<Longrightarrow> concat (map (\<lambda>x. [f x, g x]) xs) ! Suc (2 * i) = g (xs ! i)"
proof (induction xs arbitrary: i)
  case (Cons x xs)
  { case 1 with Cons.IH(1) show ?case by (cases i) auto }
  { case 2 with Cons.IH(2) show ?case by (cases i) auto }
qed simp_all

lemma table_step:
  assumes "i < 128"
  shows "BZ2_crc32Table ! (2 * i) = msb_clock (BZ2_crc32Table ! i)"
    and "BZ2_crc32Table ! Suc (2 * i) = msb_clock (BZ2_crc32Table ! i) XOR 0x04c11db7"
  using assms nth_pairs [of i "take 128 BZ2_crc32Table" msb_clock "\<lambda>x. msb_clock x XOR 0x04c11db7"]
  by (simp_all add: table_doubling [symmetric] length_crc32Table)

lemma msb_clock_xor: "msb_clock (c XOR d) = msb_clock c XOR msb_clock d"
  by (rule bit_word_eqI) (auto simp: msb_clock_def bit_simps)

lemma msb_clocks_xor: "(msb_clock ^^ n) (c XOR d) = (msb_clock ^^ n) c XOR (msb_clock ^^ n) d"
  by (induction n) (simp_all add: msb_clock_xor)

lemma msb_clock_push: "\<not> bit c 31 \<Longrightarrow> msb_clock c = push_bit 1 c"
  by (simp add: msb_clock_def)

definition crc_entry :: "nat \<Rightarrow> u32" where
  "crc_entry n = (msb_clock ^^ 8) (push_bit 24 (of_nat n))"

lemma clocks_8: "(msb_clock ^^ 8) c
    = msb_clock (msb_clock (msb_clock (msb_clock (msb_clock (msb_clock (msb_clock (msb_clock c)))))))"
  by (simp add: numeral_eq_Suc)

lemma crc_entry_1: "crc_entry 1 = 0x04c11db7"
  by (simp add: crc_entry_def clocks_8 msb_clock_def)

lemma crc_entry_double:
  assumes "n < 128"
  shows "crc_entry (2 * n) = msb_clock (crc_entry n)"
    and "crc_entry (Suc (2 * n)) = msb_clock (crc_entry n) XOR 0x04c11db7"
proof -
  let ?p = "\<lambda>n. push_bit 24 (of_nat n) :: u32"
  have double: "?p (2 * n) = push_bit 1 (?p n)"
    by (simp add: push_bit_eq_mult)
  have "\<not> bit n 7" using assms by (simp add: bit_iff_odd)
  then have "\<not> bit (of_nat n :: u32) 7" by (simp add: bit_of_nat_iff)
  then have "\<not> bit (?p n) 31" by (simp add: bit_simps)
  then have "?p (2 * n) = msb_clock (?p n)"
    unfolding double by (simp add: msb_clock_def)
  then show *: "crc_entry (2 * n) = msb_clock (crc_entry n)"
    by (simp add: crc_entry_def funpow_swap1)
  have odd: "bit (Suc (2 * n)) k \<longleftrightarrow> k = 0 \<or> 0 < k \<and> bit n (k - 1)" for k
    by (cases k) (simp_all add: bit_0 bit_Suc)
  have "?p (Suc (2 * n)) = ?p (2 * n) XOR ?p 1"
  proof (rule bit_word_eqI)
    fix m
    show "bit (?p (Suc (2 * n))) m = bit (?p (2 * n) XOR ?p 1) m"
      by (cases "m = 24") (auto simp: bit_simps odd simp del: push_bit_Suc of_nat_Suc dest!: le_Suc_ex)
  qed
  then show "crc_entry (Suc (2 * n)) = msb_clock (crc_entry n) XOR 0x04c11db7"
    using * crc_entry_1 by (simp add: crc_entry_def msb_clocks_xor)
qed

lemma table_entry: "n < 256 \<Longrightarrow> BZ2_crc32Table ! n = crc_entry n"
proof (induction n rule: less_induct)
  case (less n)
  show ?case
  proof (cases "n = 0")
    case True
    then show ?thesis
      by (simp add: BZ2_crc32Table_def crc_entry_def clocks_8 msb_clock_def)
  next
    case False
    then have "n div 2 < n" "n div 2 < 128" using less.prems by simp_all
    moreover have "n = 2 * (n div 2) \<or> n = Suc (2 * (n div 2))" by presburger
    ultimately show ?thesis
      using less.IH [of "n div 2"] less.prems table_step [of "n div 2"] crc_entry_double [of "n div 2"]
      by auto
  qed
qed

lemma msb_clocks_push: "n \<le> 8 \<Longrightarrow> (msb_clock ^^ n) (take_bit 24 c) = push_bit n (take_bit 24 c)"
proof (induction n)
  case (Suc n)
  have "\<not> bit (push_bit n (take_bit 24 c)) 31" using Suc.prems by (auto simp: bit_simps)
  then show ?case using Suc by (simp add: msb_clock_push push_bit_push_bit)
qed simp

lemma BZ_UPDATE_CRC_clocks:
  "BZ_UPDATE_CRC d c = (msb_clock ^^ 8) (c XOR push_bit 24 (ucast d))"
proof -
  define t where "t = drop_bit 24 c XOR ucast d"
  have lt: "unat t < 256"
  proof -
    have "t = take_bit 8 t"
      unfolding t_def by (rule bit_word_eqI) (auto simp: bit_simps dest: bit_imp_le_length)
    then have "unat t = unat (take_bit 8 t)" by (rule arg_cong)
    also have "\<dots> = take_bit 8 (unat t)" by (rule unsigned_take_bit_eq)
    finally show ?thesis using take_bit_nat_less_exp [of 8 "unat t"] by simp
  qed
  have "c XOR push_bit 24 (ucast d) = take_bit 24 c XOR push_bit 24 t"
    unfolding t_def by (rule bit_word_eqI) (auto simp: bit_simps)
  moreover have "push_bit 8 (take_bit 24 c) = push_bit 8 c"
    by (rule bit_word_eqI) (auto simp: bit_simps)
  ultimately show ?thesis
    using lt by (simp add: BZ_UPDATE_CRC_def t_def [symmetric] msb_clocks_xor msb_clocks_push
        table_entry crc_entry_def)
qed

lemma msb_clock_eq_0: "msb_clock c = 0 \<longleftrightarrow> c = 0"
proof
  assume 0: "msb_clock c = 0"
  then have "\<not> bit (msb_clock c) 0" by simp
  then have top: "\<not> bit c 31" by (auto simp: msb_clock_def bit_simps simp del: push_bit_Suc split: if_splits)
  with 0 have z: "push_bit 1 c = 0" by (simp add: msb_clock_def)
  show "c = 0"
  proof (rule bit_word_eqI)
    fix n assume n: "n < LENGTH(32)"
    have "bit (push_bit 1 c) (Suc n) = bit c n \<or> n = 31"
      using n by (auto simp: bit_simps simp del: push_bit_Suc)
    then show "bit c n = bit 0 n" using z top by auto
  qed
qed (simp add: msb_clock_def)

lemma msb_clocks_eq_0: "(msb_clock ^^ n) c = 0 \<longleftrightarrow> c = 0"
  by (induction n) (simp_all add: msb_clock_eq_0)

lemma push_24_eq_0: "push_bit 24 (ucast (a :: u8) :: u32) = 0 \<longleftrightarrow> a = 0"
proof
  assume *: "push_bit 24 (ucast a :: u32) = 0"
  show "a = 0"
  proof (rule bit_word_eqI)
    fix n assume "n < LENGTH(8)"
    then have "bit (push_bit 24 (ucast a :: u32)) (24 + n) = bit a n" by (simp add: bit_simps)
    with * show "bit a n = bit 0 n" by simp
  qed
qed simp

interpretation bzcrc: crc_code BZ_UPDATE_CRC
proof
  have "push_bit 24 (ucast (a XOR b) :: u32) = push_bit 24 (ucast a) XOR push_bit 24 (ucast b)" for a b :: u8
    by (rule bit_word_eqI) (auto simp: bit_simps)
  then show "BZ_UPDATE_CRC (a XOR b) (c XOR d) = BZ_UPDATE_CRC a c XOR BZ_UPDATE_CRC b d" for a b c d
    by (simp add: BZ_UPDATE_CRC_clocks msb_clocks_xor [symmetric] ac_simps)
  show "a = 0" if "BZ_UPDATE_CRC a 0 = 0" for a
    using that by (simp add: BZ_UPDATE_CRC_clocks msb_clocks_eq_0 push_24_eq_0)
  show "c = 0" if "BZ_UPDATE_CRC 0 c = 0" for c
    using that by (simp add: BZ_UPDATE_CRC_clocks msb_clocks_eq_0)
qed

text \<open>A message bit enters the register at its top.\<close>

definition msb_in :: "bool \<Rightarrow> u32 \<Rightarrow> u32" where
  "msb_in b c = msb_clock (c XOR push_bit 31 (of_bool b))"

lemma msb_in_shift:
  "n < 32 \<Longrightarrow> msb_clock (c XOR push_bit (31 - n) w) = msb_in (bit w n) c XOR push_bit (32 - n) w"
proof -
  assume n: "n < 32"
  define low where "low = push_bit (31 - n) w XOR push_bit 31 (of_bool (bit w n))"
  have "\<not> bit low 31"
    using n by (auto simp: low_def bit_simps)
  then have "msb_clock low = push_bit 1 low" by (rule msb_clock_push)
  also have "\<dots> = push_bit (32 - n) w"
    unfolding low_def using n by (intro bit_word_eqI) (auto simp: bit_simps Suc_diff_le simp del: push_bit_Suc)
  finally have low: "msb_clock low = push_bit (32 - n) w" .
  have "c XOR push_bit (31 - n) w = (c XOR push_bit 31 (of_bool (bit w n))) XOR low"
    by (simp add: low_def ac_simps)
  then show ?thesis using low by (simp add: msb_in_def msb_clock_xor)
qed

lemma msb_bits: "n \<le> 32 \<Longrightarrow> fold msb_in (bits_of n w) c = (msb_clock ^^ n) (c XOR push_bit (32 - n) w)"
proof (induction n arbitrary: c)
  case (Suc n)
  then have "fold msb_in (bits_of (Suc n) w) c
      = (msb_clock ^^ n) (msb_in (bit w n) c XOR push_bit (32 - n) w)"
    by (simp add: bits_of_Suc)
  also have "msb_in (bit w n) c XOR push_bit (32 - n) w = msb_clock (c XOR push_bit (32 - Suc n) w)"
    using msb_in_shift [of n c w] Suc.prems by simp
  finally show ?case by (simp add: funpow_swap1)
qed simp

lemma bits_of_ucast_u8: "bits_of 8 (ucast (d :: u8) :: u32) = bits_of 8 d"
  by (auto simp: bits_of_def bit_simps)

lemma BZ_UPDATE_CRC_bits: "BZ_UPDATE_CRC d c = fold msb_in (bits_of 8 d) c"
  using msb_bits [of 8 "ucast d" c] by (simp add: BZ_UPDATE_CRC_clocks bits_of_ucast_u8)

section \<open>The random table\<close>

text \<open>[bzip2/randtable.c 26-79 BZ2_rNums]\<close>

definition BZ2_rNums :: "int list" where
  "BZ2_rNums = [
    619, 720, 127, 481, 931, 816, 813, 233, 566, 247,
    985, 724, 205, 454, 863, 491, 741, 242, 949, 214,
    733, 859, 335, 708, 621, 574, 73, 654, 730, 472,
    419, 436, 278, 496, 867, 210, 399, 680, 480, 51,
    878, 465, 811, 169, 869, 675, 611, 697, 867, 561,
    862, 687, 507, 283, 482, 129, 807, 591, 733, 623,
    150, 238, 59, 379, 684, 877, 625, 169, 643, 105,
    170, 607, 520, 932, 727, 476, 693, 425, 174, 647,
    73, 122, 335, 530, 442, 853, 695, 249, 445, 515,
    909, 545, 703, 919, 874, 474, 882, 500, 594, 612,
    641, 801, 220, 162, 819, 984, 589, 513, 495, 799,
    161, 604, 958, 533, 221, 400, 386, 867, 600, 782,
    382, 596, 414, 171, 516, 375, 682, 485, 911, 276,
    98, 553, 163, 354, 666, 933, 424, 341, 533, 870,
    227, 730, 475, 186, 263, 647, 537, 686, 600, 224,
    469, 68, 770, 919, 190, 373, 294, 822, 808, 206,
    184, 943, 795, 384, 383, 461, 404, 758, 839, 887,
    715, 67, 618, 276, 204, 918, 873, 777, 604, 560,
    951, 160, 578, 722, 79, 804, 96, 409, 713, 940,
    652, 934, 970, 447, 318, 353, 859, 672, 112, 785,
    645, 863, 803, 350, 139, 93, 354, 99, 820, 908,
    609, 772, 154, 274, 580, 184, 79, 626, 630, 742,
    653, 282, 762, 623, 680, 81, 927, 626, 789, 125,
    411, 521, 938, 300, 821, 78, 343, 175, 128, 250,
    170, 774, 972, 275, 999, 639, 495, 78, 352, 126,
    857, 956, 358, 619, 580, 124, 737, 594, 701, 612,
    669, 112, 134, 694, 363, 992, 809, 743, 168, 974,
    944, 375, 748, 52, 600, 747, 642, 182, 862, 81,
    344, 805, 988, 739, 511, 655, 814, 334, 249, 515,
    897, 955, 664, 981, 649, 113, 974, 459, 893, 228,
    433, 837, 553, 268, 926, 240, 102, 654, 459, 51,
    686, 754, 806, 760, 493, 403, 415, 394, 687, 700,
    946, 670, 656, 610, 738, 392, 760, 799, 887, 653,
    978, 321, 576, 617, 626, 502, 894, 679, 243, 440,
    680, 879, 194, 572, 640, 724, 926, 56, 204, 700,
    707, 151, 457, 449, 797, 195, 791, 558, 945, 679,
    297, 59, 87, 824, 713, 663, 412, 693, 342, 606,
    134, 108, 571, 364, 631, 212, 174, 643, 304, 329,
    343, 97, 430, 751, 497, 314, 983, 374, 822, 928,
    140, 206, 73, 263, 980, 736, 876, 478, 430, 305,
    170, 514, 364, 692, 829, 82, 855, 953, 676, 246,
    369, 970, 294, 750, 807, 827, 150, 790, 288, 923,
    804, 378, 215, 828, 592, 281, 565, 555, 710, 82,
    896, 831, 547, 261, 524, 462, 293, 465, 502, 56,
    661, 821, 976, 991, 658, 869, 905, 758, 745, 193,
    768, 550, 608, 933, 378, 286, 215, 979, 792, 961,
    61, 688, 793, 644, 986, 403, 106, 366, 905, 644,
    372, 567, 466, 434, 645, 210, 389, 550, 919, 135,
    780, 773, 635, 389, 707, 100, 626, 958, 165, 504,
    920, 176, 193, 713, 857, 265, 203, 50, 668, 108,
    645, 990, 626, 197, 510, 357, 358, 850, 858, 364,
    936, 638]"

text \<open>
  The generator state is the pair of \<open>rNToGo\<close> and \<open>rTPos\<close>.

  [bzip2/bzlib_private.h 137-139 BZ_RAND_INIT_MASK]
\<close>

definition BZ_RAND_INIT_MASK :: "int \<times> nat" where
  "BZ_RAND_INIT_MASK = (0, 0)"

text \<open>[bzip2/bzlib_private.h 141-141 BZ_RAND_MASK]\<close>

definition BZ_RAND_MASK :: "int \<times> nat \<Rightarrow> u8" where
  "BZ_RAND_MASK r = (if fst r = 1 then 1 else 0)"

text \<open>[bzip2/bzlib_private.h 143-149 BZ_RAND_UPD_MASK]\<close>

definition BZ_RAND_UPD_MASK :: "int \<times> nat \<Rightarrow> (int \<times> nat) option" where
  "BZ_RAND_UPD_MASK = (\<lambda>(rNToGo, rTPos).
     if rNToGo = 0
     then do { rNToGo \<leftarrow> aget BZ2_rNums rTPos;
               let rTPos = rTPos + 1;
               Some (rNToGo - 1, if rTPos = 512 then 0 else rTPos) }
     else Some (rNToGo - 1, rTPos))"

text \<open>The randomisation state stays within the table.\<close>

definition rand_ok :: "int \<times> nat \<Rightarrow> bool" where
  "rand_ok r \<longleftrightarrow> 0 \<le> fst r \<and> fst r < 1000 \<and> snd r < 512"

lemma rNums_range: "length BZ2_rNums = 512" "\<forall>r \<in> set BZ2_rNums. 1 < r \<and> r < 1000"
proof -
  show "length BZ2_rNums = 512" by (simp add: BZ2_rNums_def)
  have "list_all (\<lambda>r. 1 < r \<and> r < 1000) BZ2_rNums" by code_simp
  then show "\<forall>r \<in> set BZ2_rNums. 1 < r \<and> r < 1000" by (simp only: list_all_iff)
qed

lemma rand_init_ok [simp]: "rand_ok BZ_RAND_INIT_MASK"
  by (simp add: rand_ok_def BZ_RAND_INIT_MASK_def)

lemma rand_upd_ok: "rand_ok r \<Longrightarrow> runs (BZ_RAND_UPD_MASK r) rand_ok"
proof (cases r)
  case (Pair g p)
  assume ok: "rand_ok r"
  show ?thesis
  proof (cases "g = 0")
    case True
    then have "1 < BZ2_rNums ! p" "BZ2_rNums ! p < 1000"
      using ok rNums_range Pair by (simp_all add: rand_ok_def)
    then show ?thesis
      using True Pair ok rNums_range(1) by (simp add: rand_ok_def BZ_RAND_UPD_MASK_def Let_def)
  next
    case False
    then show ?thesis using Pair ok by (simp add: rand_ok_def BZ_RAND_UPD_MASK_def)
  qed
qed

section \<open>Properties\<close>

text \<open>
  C29: updating the block CRC with the table, byte by byte, is clocking all the bits of
  the bytes, most significant bit first, through the 32-bit register with the Ethernet
  generator 04C11DB7: the 256 table entries are the right ones and the update uses them
  the right way.
\<close>

theorem block_crc_shift_register:
  "fold BZ_UPDATE_CRC bs c = fold msb_in (concat (map (bits_of 8) bs)) c"
  by (induction bs arbitrary: c) (simp_all add: BZ_UPDATE_CRC_bits)

text \<open>
  C30: a corrupted byte of a block always changes the block's CRC, so the decompressor's
  comparison of the stored with the calculated CRC catches it.
\<close>

theorem block_crc_detects_byte_error:
  assumes "a \<noteq> b"
  shows "BZ_FINALISE_CRC (fold BZ_UPDATE_CRC (xs @ a # ys) BZ_INITIALISE_CRC)
       \<noteq> BZ_FINALISE_CRC (fold BZ_UPDATE_CRC (xs @ b # ys) BZ_INITIALISE_CRC)"
  using bzcrc.fold_detects_byte [OF assms, of xs ys BZ_INITIALISE_CRC]
  by (auto simp: BZ_FINALISE_CRC_def dest: arg_cong [of "NOT _" "NOT _" "(NOT)"])

lemma block_crc_detects_byte_error_witness:
  "BZ_FINALISE_CRC (fold BZ_UPDATE_CRC ([1] @ 2 # [3]) BZ_INITIALISE_CRC)
     \<noteq> BZ_FINALISE_CRC (fold BZ_UPDATE_CRC ([1] @ 4 # [3]) BZ_INITIALISE_CRC)"
  by (rule block_crc_detects_byte_error) simp

end
