(* ===== verification/BzHuffman.thy ===== *)
theory BzHuffman
  imports CPrelude
begin

text \<open>
  The Huffman coder of bzip2, \<open>benchmarks/wasi/bzip2/huffman.c\<close>, and the symbol decoder of
  \<open>decompress.c\<close> (the macro \<open>GET_MTF_VAL\<close>) that uses its tables. \<open>Int32\<close> values are
  integers: the bounds proved here keep them inside 32 bits. A local array starts as zeros;
  the code assigns every cell it reads.
\<close>

abbreviation BZ_MAX_ALPHA_SIZE :: nat where "BZ_MAX_ALPHA_SIZE \<equiv> 258"
abbreviation BZ_MAX_CODE_LEN :: nat where "BZ_MAX_CODE_LEN \<equiv> 23"

section \<open>Code lengths\<close>

text \<open>[bzip2/huffman.c 25-25 WEIGHTOF]\<close>

definition WEIGHTOF :: "int \<Rightarrow> int" where
  "WEIGHTOF zz0 = zz0 AND 0xffffff00"

text \<open>[bzip2/huffman.c 26-26 DEPTHOF]\<close>

definition DEPTHOF :: "int \<Rightarrow> int" where
  "DEPTHOF zz1 = zz1 AND 0x000000ff"

text \<open>[bzip2/huffman.c 29-31 ADDWEIGHTS]\<close>

definition ADDWEIGHTS :: "int \<Rightarrow> int \<Rightarrow> int" where
  "ADDWEIGHTS zw1 zw2 = (WEIGHTOF zw1 + WEIGHTOF zw2) OR (1 + max (DEPTHOF zw1) (DEPTHOF zw2))"

text \<open>
  [bzip2/huffman.c 33-42 UPHEAP] The loop, with \<open>tmp\<close> in hand. At position 0 the parent is
  the position itself, so a condition that holds there holds for ever: no result.
\<close>

fun up_heap :: "int list \<Rightarrow> nat \<Rightarrow> nat \<Rightarrow> nat list \<Rightarrow> nat list option" where
  "up_heap weight tmp zz heap =
     do { par \<leftarrow> aget heap (zz div 2);
          w \<leftarrow> aget weight tmp;
          wp \<leftarrow> aget weight par;
          if w < wp
          then if zz = 0 then None
               else do { heap \<leftarrow> aput heap zz par; up_heap weight tmp (zz div 2) heap }
          else aput heap zz tmp }"

declare up_heap.simps [simp del]

text \<open>[bzip2/huffman.c 33-42 UPHEAP]\<close>

definition UPHEAP :: "int list \<Rightarrow> nat \<Rightarrow> nat list \<Rightarrow> nat list option" where
  "UPHEAP weight z heap = do { tmp \<leftarrow> aget heap z; up_heap weight tmp z heap }"

text \<open>[bzip2/huffman.c 44-59 DOWNHEAP] The loop; position 0 is its own child.\<close>

function down_heap :: "int list \<Rightarrow> nat \<Rightarrow> nat \<Rightarrow> nat \<Rightarrow> nat list \<Rightarrow> nat list option" where
  "down_heap weight nHeap tmp zz heap =
     (let yy = 2 * zz
      in if yy > nHeap then aput heap zz tmp
         else do { hy \<leftarrow> aget heap yy;
                   yy \<leftarrow> (if yy < nHeap
                          then do { hy1 \<leftarrow> aget heap (yy + 1);
                                    w1 \<leftarrow> aget weight hy1;
                                    w0 \<leftarrow> aget weight hy;
                                    Some (if w1 < w0 then yy + 1 else yy) }
                          else Some yy);
                   w \<leftarrow> aget weight tmp;
                   hy \<leftarrow> aget heap yy;
                   wy \<leftarrow> aget weight hy;
                   if w < wy then aput heap zz tmp
                   else if zz = 0 then None
                   else do { heap \<leftarrow> aput heap zz hy; down_heap weight nHeap tmp yy heap } })"
  by pat_completeness auto
termination
  by (relation "measure (\<lambda>(_, nHeap, _, zz, _). Suc nHeap - zz)") (auto split: if_splits bind_splits)

declare down_heap.simps [simp del]

text \<open>[bzip2/huffman.c 44-59 DOWNHEAP]\<close>

definition DOWNHEAP :: "int list \<Rightarrow> nat \<Rightarrow> nat \<Rightarrow> nat list \<Rightarrow> nat list option" where
  "DOWNHEAP weight nHeap z heap = do { tmp \<leftarrow> aget heap z; down_heap weight nHeap tmp z heap }"

text \<open>[bzip2/huffman.c 79-80 BZ2_hbMakeCodeLengths] The initial weights.\<close>

definition init_weights :: "nat \<Rightarrow> int list \<Rightarrow> int list \<Rightarrow> int list option" where
  "init_weights alphaSize freq weight =
     for_in [0..<alphaSize] (\<lambda>i weight.
       do { f \<leftarrow> aget freq i;
            aput weight (i + 1) ((if f = 0 then 1 else f) * 2 ^ 8) }) weight"

text \<open>[bzip2/huffman.c 84-98 BZ2_hbMakeCodeLengths] One heap entry per symbol.\<close>

definition init_heap :: "nat \<Rightarrow> int list \<Rightarrow> nat list \<Rightarrow> int list \<Rightarrow> (nat list \<times> int list \<times> int list) option" where
  "init_heap alphaSize weight heap parent =
     do { heap \<leftarrow> aput heap 0 0;
          weight \<leftarrow> aput weight 0 0;
          parent \<leftarrow> aput parent 0 (- 2);
          (heap, parent) \<leftarrow> for_in [1..<alphaSize + 1] (\<lambda>i (heap, parent).
            do { parent \<leftarrow> aput parent i (- 1);
                 heap \<leftarrow> aput heap i i;
                 heap \<leftarrow> UPHEAP weight i heap;
                 Some (heap, parent) }) (heap, parent);
          guard (alphaSize < BZ_MAX_ALPHA_SIZE + 2);
          Some (heap, weight, parent) }"

text \<open>[bzip2/huffman.c 101-101 BZ2_hbMakeCodeLengths] Take the lightest node off the heap.\<close>

definition pop_heap :: "int list \<Rightarrow> nat \<Rightarrow> nat list \<Rightarrow> (nat \<times> nat list) option" where
  "pop_heap weight nHeap heap =
     do { n1 \<leftarrow> aget heap 1;
          h \<leftarrow> aget heap nHeap;
          heap \<leftarrow> aput heap 1 h;
          heap \<leftarrow> DOWNHEAP weight (nHeap - 1) 1 heap;
          Some (n1, heap) }"

text \<open>[bzip2/huffman.c 100-110 BZ2_hbMakeCodeLengths] Join the two lightest nodes until one is left.\<close>

fun join_nodes :: "nat \<Rightarrow> nat \<Rightarrow> nat list \<Rightarrow> int list \<Rightarrow> int list \<Rightarrow> (nat \<times> int list \<times> int list) option" where
  "join_nodes nHeap nNodes heap weight parent =
     (if nHeap > 1
      then do { (n1, heap) \<leftarrow> pop_heap weight nHeap heap;
                (n2, heap) \<leftarrow> pop_heap weight (nHeap - 1) heap;
                let nNodes = nNodes + 1;
                parent \<leftarrow> aput parent n2 (int nNodes);
                parent \<leftarrow> aput parent n1 (int nNodes);
                w1 \<leftarrow> aget weight n1;
                w2 \<leftarrow> aget weight n2;
                weight \<leftarrow> aput weight nNodes (ADDWEIGHTS w1 w2);
                parent \<leftarrow> aput parent nNodes (- 1);
                heap \<leftarrow> aput heap (nHeap - 1) nNodes;
                heap \<leftarrow> UPHEAP weight (nHeap - 1) heap;
                join_nodes (nHeap - 1) nNodes heap weight parent }
      else Some (nNodes, weight, parent))"

declare join_nodes.simps [simp del]

text \<open>[bzip2/huffman.c 118-118 BZ2_hbMakeCodeLengths] The way from a node to the root.\<close>

partial_function (option) node_depth :: "int list \<Rightarrow> nat \<Rightarrow> nat \<Rightarrow> nat option" where
  "node_depth parent k j =
     do { p \<leftarrow> aget parent k;
          if p \<ge> 0 then node_depth parent (nat p) (j + 1) else Some j }"

text \<open>[bzip2/huffman.c 114-121 BZ2_hbMakeCodeLengths] A length is stored in an unsigned byte.\<close>

definition code_depths :: "nat \<Rightarrow> nat \<Rightarrow> int list \<Rightarrow> nat list \<Rightarrow> (nat list \<times> bool) option" where
  "code_depths alphaSize maxLen parent len =
     for_in [1..<alphaSize + 1] (\<lambda>i (len, tooLong).
       do { j \<leftarrow> node_depth parent i 0;
            len \<leftarrow> aput len (i - 1) (j mod 256);
            Some (len, if j > maxLen then True else tooLong) }) (len, False)"

text \<open>[bzip2/huffman.c 142-146 BZ2_hbMakeCodeLengths] Halve the weights.\<close>

definition scale_weights :: "nat \<Rightarrow> int list \<Rightarrow> int list option" where
  "scale_weights alphaSize weight =
     for_in [1..<alphaSize + 1] (\<lambda>i weight.
       do { w \<leftarrow> aget weight i;
            let j = w div 2 ^ 8;
            let j = 1 + (j div 2);
            aput weight i (j * 2 ^ 8) }) weight"

text \<open>[bzip2/huffman.c 84-121 BZ2_hbMakeCodeLengths] One attempt: the weights, the lengths, too long?\<close>

definition try_lengths ::
    "nat \<Rightarrow> nat \<Rightarrow> nat list \<Rightarrow> int list \<Rightarrow> int list \<Rightarrow> nat list
       \<Rightarrow> (nat list \<times> int list \<times> int list \<times> nat list \<times> bool) option" where
  "try_lengths alphaSize maxLen heap weight parent len =
     do { (heap, weight, parent) \<leftarrow> init_heap alphaSize weight heap parent;
          (nNodes, weight, parent) \<leftarrow> join_nodes alphaSize alphaSize heap weight parent;
          guard (nNodes < BZ_MAX_ALPHA_SIZE * 2);
          (len, tooLong) \<leftarrow> code_depths alphaSize maxLen parent len;
          Some (heap, weight, parent, len, tooLong) }"

text \<open>[bzip2/huffman.c 82-147 BZ2_hbMakeCodeLengths] The loop over the attempts.\<close>

partial_function (option) lengths_loop ::
    "nat \<Rightarrow> nat \<Rightarrow> nat list \<Rightarrow> int list \<Rightarrow> int list \<Rightarrow> nat list \<Rightarrow> nat list option" where
  "lengths_loop alphaSize maxLen heap weight parent len =
     do { (heap, weight, parent, len, tooLong) \<leftarrow> try_lengths alphaSize maxLen heap weight parent len;
          if \<not> tooLong then Some len
          else do { weight \<leftarrow> scale_weights alphaSize weight;
                    lengths_loop alphaSize maxLen heap weight parent len } }"

text \<open>[bzip2/huffman.c 63-148 BZ2_hbMakeCodeLengths]\<close>

definition BZ2_hbMakeCodeLengths :: "nat list \<Rightarrow> int list \<Rightarrow> nat \<Rightarrow> nat \<Rightarrow> nat list option" where
  "BZ2_hbMakeCodeLengths len freq alphaSize maxLen =
     do { weight \<leftarrow> init_weights alphaSize freq (replicate (BZ_MAX_ALPHA_SIZE * 2) 0);
          lengths_loop alphaSize maxLen (replicate (BZ_MAX_ALPHA_SIZE + 2) 0) weight
            (replicate (BZ_MAX_ALPHA_SIZE * 2) 0) len }"

section \<open>Codes\<close>

text \<open>[bzip2/huffman.c 152-166 BZ2_hbAssignCodes]\<close>

definition BZ2_hbAssignCodes ::
    "int list \<Rightarrow> nat list \<Rightarrow> nat \<Rightarrow> nat \<Rightarrow> nat \<Rightarrow> int list option" where
  "BZ2_hbAssignCodes code len minLen maxLen alphaSize =
     do { (code, vec) \<leftarrow> for_in [minLen..<maxLen + 1] (\<lambda>n (code, vec).
            do { (code, vec) \<leftarrow> for_in [0..<alphaSize] (\<lambda>i (code, vec).
                   do { l \<leftarrow> aget len i;
                        if l = n then do { code \<leftarrow> aput code i vec; Some (code, vec + 1) }
                        else Some (code, vec) }) (code, vec);
                 Some (code, vec * 2) }) (code, 0);
          Some code }"

section \<open>Decoding tables\<close>

text \<open>[bzip2/huffman.c 180-183 BZ2_hbCreateDecodeTables]\<close>

definition decode_perm :: "int list \<Rightarrow> nat list \<Rightarrow> nat \<Rightarrow> nat \<Rightarrow> nat \<Rightarrow> int list option" where
  "decode_perm perm len minLen maxLen alphaSize =
     do { (perm, pp) \<leftarrow> for_in [minLen..<maxLen + 1] (\<lambda>i. for_in [0..<alphaSize] (\<lambda>j (perm, pp).
            do { l \<leftarrow> aget len j;
                 if l = i then do { perm \<leftarrow> aput perm pp (int j); Some (perm, pp + 1) }
                 else Some (perm, pp) })) (perm, 0);
          Some perm }"

text \<open>[bzip2/huffman.c 185-188 BZ2_hbCreateDecodeTables]\<close>

definition decode_base :: "int list \<Rightarrow> nat list \<Rightarrow> nat \<Rightarrow> int list option" where
  "decode_base base len alphaSize =
     do { base \<leftarrow> for_in [0..<BZ_MAX_CODE_LEN] (\<lambda>i base. aput base i 0) base;
          base \<leftarrow> for_in [0..<alphaSize] (\<lambda>i base.
            do { l \<leftarrow> aget len i; b \<leftarrow> aget base (l + 1); aput base (l + 1) (b + 1) }) base;
          for_in [1..<BZ_MAX_CODE_LEN] (\<lambda>i base.
            do { b \<leftarrow> aget base i; b' \<leftarrow> aget base (i - 1); aput base i (b + b') }) base }"

text \<open>[bzip2/huffman.c 190-197 BZ2_hbCreateDecodeTables]\<close>

definition decode_limit :: "int list \<Rightarrow> int list \<Rightarrow> nat \<Rightarrow> nat \<Rightarrow> int list option" where
  "decode_limit limit base minLen maxLen =
     do { limit \<leftarrow> for_in [0..<BZ_MAX_CODE_LEN] (\<lambda>i limit. aput limit i 0) limit;
          (limit, vec) \<leftarrow> for_in [minLen..<maxLen + 1] (\<lambda>i (limit, vec).
            do { b1 \<leftarrow> aget base (i + 1);
                 b \<leftarrow> aget base i;
                 let vec = vec + (b1 - b);
                 limit \<leftarrow> aput limit i (vec - 1);
                 Some (limit, vec * 2) }) (limit, 0);
          Some limit }"

text \<open>[bzip2/huffman.c 198-199 BZ2_hbCreateDecodeTables]\<close>

definition decode_offset :: "int list \<Rightarrow> int list \<Rightarrow> nat \<Rightarrow> nat \<Rightarrow> int list option" where
  "decode_offset base limit minLen maxLen =
     for_in [minLen + 1..<maxLen + 1] (\<lambda>i base.
       do { l \<leftarrow> aget limit (i - 1);
            b \<leftarrow> aget base i;
            aput base i ((l + 1) * 2 - b) }) base"

text \<open>[bzip2/huffman.c 170-200 BZ2_hbCreateDecodeTables] The arrays \<open>limit\<close>, \<open>base\<close> and \<open>perm\<close>.\<close>

definition BZ2_hbCreateDecodeTables ::
    "int list \<Rightarrow> int list \<Rightarrow> int list \<Rightarrow> nat list \<Rightarrow> nat \<Rightarrow> nat \<Rightarrow> nat
       \<Rightarrow> (int list \<times> int list \<times> int list) option" where
  "BZ2_hbCreateDecodeTables limit base perm len minLen maxLen alphaSize =
     do { perm \<leftarrow> decode_perm perm len minLen maxLen alphaSize;
          base \<leftarrow> decode_base base len alphaSize;
          limit \<leftarrow> decode_limit limit base minLen maxLen;
          base \<leftarrow> decode_offset base limit minLen maxLen;
          Some (limit, base, perm) }"

section \<open>The canonical code\<close>

text \<open>
  \<open>L\<close> is a list of code lengths, of which the first \<open>a\<close> count. The code words of one
  length are consecutive numbers; the first word of a length follows the last word of the
  length before it, with a zero appended.
\<close>

definition lcount :: "nat list \<Rightarrow> nat \<Rightarrow> nat \<Rightarrow> nat" where
  "lcount L n k = length (filter (\<lambda>j. L ! j = n) [0..<k])"

definition below :: "nat list \<Rightarrow> nat \<Rightarrow> nat \<Rightarrow> nat" where
  "below L a n = length (filter (\<lambda>j. L ! j < n) [0..<a])"

fun first_code :: "nat list \<Rightarrow> nat \<Rightarrow> nat \<Rightarrow> nat \<Rightarrow> nat" where
  "first_code L a m 0 = 0"
| "first_code L a m (Suc n) = (if Suc n \<le> m then 0 else 2 * (first_code L a m n + lcount L n a))"

definition code_of :: "nat list \<Rightarrow> nat \<Rightarrow> nat \<Rightarrow> nat \<Rightarrow> nat" where
  "code_of L a m i = first_code L a m (L ! i) + lcount L (L ! i) i"

lemma lcount_0 [simp]: "lcount L n 0 = 0"
  by (simp add: lcount_def)

lemma lcount_Suc: "lcount L n (Suc k) = lcount L n k + (if L ! k = n then 1 else 0)"
  by (simp add: lcount_def)

lemma lcount_mono: "i \<le> j \<Longrightarrow> lcount L n i \<le> lcount L n j"
  by (induction j) (auto simp: lcount_Suc le_Suc_eq)

lemma lcount_less: "i < k \<Longrightarrow> lcount L (L ! i) i < lcount L (L ! i) k"
  using lcount_mono [of "Suc i" k L "L ! i"] by (simp add: lcount_Suc)

lemma below_Suc: "below L a (Suc n) = below L a n + lcount L n a"
  by (induction a) (auto simp: below_def lcount_def)

lemma below_le: "below L a n \<le> a"
  unfolding below_def by (metis diff_zero length_filter_le length_upt)

lemma below_lcount_le: "below L a n + lcount L n a \<le> a"
  using below_le [of L a "Suc n"] by (simp add: below_Suc)

lemma below_0: "(\<And>i. i < a \<Longrightarrow> n \<le> L ! i) \<Longrightarrow> below L a n = 0"
  by (auto simp: below_def filter_empty_conv not_less)

lemma below_all: "(\<And>i. i < a \<Longrightarrow> L ! i < n) \<Longrightarrow> below L a n = a"
proof -
  assume "\<And>i. i < a \<Longrightarrow> L ! i < n"
  then have "filter (\<lambda>j. L ! j < n) [0..<a] = [0..<a]" by (auto simp: filter_id_conv)
  then show ?thesis by (simp add: below_def)
qed

lemma below_mono: "n \<le> n' \<Longrightarrow> below L a n \<le> below L a n'"
  by (induction n') (auto simp: below_Suc le_Suc_eq)

lemma first_code_le [simp]: "n \<le> m \<Longrightarrow> first_code L a m n = 0"
  by (cases n) simp_all

section \<open>What the tables hold\<close>

lemma runs_bind_mono: "runs m P \<Longrightarrow> (\<And>x. P x \<Longrightarrow> runs (f x) Q) \<Longrightarrow> runs (m \<bind> f) Q"
  by (auto elim: runs_mono)

text \<open>The arguments of the three table builders.\<close>

definition lengths_ok :: "nat list \<Rightarrow> nat \<Rightarrow> nat \<Rightarrow> nat \<Rightarrow> bool" where
  "lengths_ok L a m M \<longleftrightarrow> a \<le> length L \<and> 1 \<le> m \<and> m \<le> M \<and> M \<le> 20 \<and> (\<forall>i < a. m \<le> L ! i \<and> L ! i \<le> M)"

lemma assign_codes:
  assumes "lengths_ok L a m M" "a \<le> length code"
  shows "runs (BZ2_hbAssignCodes code L m M a) (\<lambda>code'. length code' = length code
     \<and> (\<forall>i < a. code' ! i = int (code_of L a m i)))"
proof -
  let ?I = "\<lambda>n (code', vec). length code' = length code \<and> vec = int (first_code L a m n)
      \<and> (\<forall>i < a. L ! i < n \<longrightarrow> code' ! i = int (code_of L a m i))"
  let ?J = "\<lambda>n k (code', vec). length code' = length code \<and> vec = int (first_code L a m n + lcount L n k)
      \<and> (\<forall>i < a. L ! i < n \<or> L ! i = n \<and> i < k \<longrightarrow> code' ! i = int (code_of L a m i))"
  have "runs (for_in [m..<M + 1] (\<lambda>n (code, vec).
            do { (code, vec) \<leftarrow> for_in [0..<a] (\<lambda>i (code, vec).
                   do { l \<leftarrow> aget L i;
                        if l = n then do { code \<leftarrow> aput code i vec; Some (code, vec + 1) }
                        else Some (code, vec) }) (code, vec);
                 Some (code, vec * 2) }) (code, 0)) (?I (M + 1))"
  proof (rule runs_for_upt [where I = ?I])
    show "?I m (code, 0)" using assms by (auto simp: lengths_ok_def)
    show "m \<le> M + 1" using assms by (simp add: lengths_ok_def)
    fix n st assume n: "m \<le> n" and st: "?I n st"
    obtain c v where [simp]: "st = (c, v)" by fastforce
    have "runs (for_in [0..<a] (\<lambda>i (code, vec).
                   do { l \<leftarrow> aget L i;
                        if l = n then do { code \<leftarrow> aput code i vec; Some (code, vec + 1) }
                        else Some (code, vec) }) (c, v)) (?J n a)"
    proof (rule runs_for_upt [where I = "?J n"])
      show "?J n 0 (c, v)" using st by auto
      fix k st assume "k < a" "?J n k st"
      then show "runs (case st of (code, vec) \<Rightarrow> do { l \<leftarrow> aget L k;
                        if l = n then do { code \<leftarrow> aput code k vec; Some (code, vec + 1) }
                        else Some (code, vec) }) (?J n (Suc k))"
        using assms by (auto simp: lengths_ok_def lcount_Suc code_of_def nth_list_update less_Suc_eq)
    qed simp
    then show "runs (case st of (code, vec) \<Rightarrow>
            do { (code, vec) \<leftarrow> for_in [0..<a] (\<lambda>i (code, vec).
                   do { l \<leftarrow> aget L i;
                        if l = n then do { code \<leftarrow> aput code i vec; Some (code, vec + 1) }
                        else Some (code, vec) }) (code, vec);
                 Some (code, vec * 2) }) (?I (Suc n))"
      using n by (auto elim!: runs_mono simp: less_Suc_eq)
  qed
  then show ?thesis
    using assms unfolding BZ2_hbAssignCodes_def
    by (auto elim!: runs_mono simp: lengths_ok_def less_Suc_eq_le)
qed

lemma perm_table:
  assumes "lengths_ok L a m M" "a \<le> length perm"
  shows "runs (decode_perm perm L m M a) (\<lambda>perm'. length perm' = length perm
     \<and> (\<forall>i < a. perm' ! (below L a (L ! i) + lcount L (L ! i) i) = int i))"
proof -
  let ?at = "\<lambda>i. below L a (L ! i) + lcount L (L ! i) i"
  let ?I = "\<lambda>n (perm', pp). length perm' = length perm \<and> pp = below L a n
      \<and> (\<forall>i < a. L ! i < n \<longrightarrow> ?at i < pp \<and> perm' ! ?at i = int i)"
  let ?J = "\<lambda>n k (perm', pp). length perm' = length perm \<and> pp = below L a n + lcount L n k
      \<and> (\<forall>i < a. L ! i < n \<or> L ! i = n \<and> i < k \<longrightarrow> ?at i < pp \<and> perm' ! ?at i = int i)"
  let ?body = "\<lambda>i j (perm, pp).
            do { l \<leftarrow> aget L j;
                 if l = i then do { perm \<leftarrow> aput perm pp (int j); Some (perm, pp + 1) }
                 else Some (perm, pp) }"
  have "runs (for_in [m..<M + 1] (\<lambda>i. for_in [0..<a] (?body i)) (perm, 0)) (?I (M + 1))"
  proof (rule runs_for_upt [where I = ?I])
    show "?I m (perm, 0)" using assms below_0 [of a m L] by (auto simp: lengths_ok_def)
    show "m \<le> M + 1" using assms by (simp add: lengths_ok_def)
    fix n st assume n: "m \<le> n" and st: "?I n st"
    have "runs (for_in [0..<a] (?body n) st) (?J n a)"
    proof (rule runs_for_upt [where I = "?J n"])
      show "?J n 0 st" using st by auto
      fix k st assume k: "k < a" and st: "?J n k st"
      obtain p pp where [simp]: "st = (p, pp)" by fastforce
      show "runs (?body n k st) (?J n (Suc k))"
      proof (cases "L ! k = n")
        case True
        then have "pp < length perm"
          using st k assms(2) lcount_less [of k a L] below_lcount_le [of L a n] by auto
        then show ?thesis
          using st k True assms by (auto simp: lengths_ok_def lcount_Suc less_Suc_eq nth_list_update)
      next
        case False
        then show ?thesis
          using st k assms by (auto simp: lengths_ok_def lcount_Suc less_Suc_eq)
      qed
    qed simp
    then show "runs (for_in [0..<a] (?body n) st) (?I (Suc n))"
      by (rule runs_mono) (use n in \<open>auto simp: less_Suc_eq below_Suc\<close>)
  qed
  then show ?thesis
    using assms unfolding decode_perm_def
    by (auto elim!: runs_mono simp: lengths_ok_def less_Suc_eq_le)
qed

lemma base_table:
  assumes "a \<le> length L" "\<forall>i < a. L ! i \<le> 20" "23 \<le> length base"
  shows "runs (decode_base base L a) (\<lambda>base'. length base' = length base
     \<and> (\<forall>n < 23. base' ! n = int (below L a n)))"
proof -
  let ?C = "\<lambda>k base'. length base' = length base
      \<and> (\<forall>n < 23. base' ! n = (if n = 0 then 0 else int (lcount L (n - 1) k)))"
  let ?S = "\<lambda>k base'. length base' = length base
      \<and> (\<forall>n < 23. base' ! n = (if n < k then int (below L a n) else int (lcount L (n - 1) a)))"
  have zero: "runs (for_in [0..<23] (\<lambda>i base. aput base i 0) base)
      (\<lambda>base'. length base' = length base \<and> (\<forall>n < 23. base' ! n = 0))"
    by (rule runs_mono [OF runs_for_upt [where I = "\<lambda>k base'. length base' = length base
          \<and> (\<forall>n < k. base' ! n = 0)"]])
      (use assms in \<open>auto simp: nth_list_update less_Suc_eq\<close>)
  have cnt: "runs (for_in [0..<a] (\<lambda>i base.
            do { l \<leftarrow> aget L i; b \<leftarrow> aget base (l + 1); aput base (l + 1) (b + 1) }) base') (?C a)"
    if "length base' = length base" "\<forall>n < 23. base' ! n = 0" for base'
  proof (rule runs_for_upt [where I = ?C])
    fix k b assume "k < a" "?C k b"
    moreover from this have "L ! k \<le> 20" "k < length L" using assms(1,2) by auto
    ultimately show "runs (do { l \<leftarrow> aget L k; b' \<leftarrow> aget b (l + 1); aput b (l + 1) (b' + 1) }) (?C (Suc k))"
      using assms(3) by (auto simp: lcount_Suc nth_list_update)
  qed (use that in auto)
  have sums: "runs (for_in [1..<23] (\<lambda>i base.
            do { b \<leftarrow> aget base i; b' \<leftarrow> aget base (i - 1); aput base i (b + b') }) base') (?S 23)"
    if "?C a base'" for base'
  proof (rule runs_for_upt [where I = ?S])
    show "?S 1 base'" using that by (auto simp: below_def)
    fix k b assume k: "1 \<le> k" "k < 23" and b: "?S k b"
    then have "below L a k = lcount L (k - 1) a + below L a (k - 1)"
      using below_Suc [of L a "k - 1"] by simp
    then show "runs (do { x \<leftarrow> aget b k; y \<leftarrow> aget b (k - 1); aput b k (x + y) }) (?S (Suc k))"
      using k b assms(3) by (auto simp: nth_list_update less_Suc_eq)
  qed simp
  show ?thesis
    unfolding decode_base_def
    apply (rule runs_bind_mono [OF zero])
    apply (rule runs_bind_mono [OF cnt])
      apply simp_all [2]
    apply (rule runs_mono [OF sums])
     apply auto
    done
qed

lemma limit_table:
  assumes "1 \<le> m" "m \<le> M" "M \<le> 20" "\<forall>i < a. m \<le> L ! i" "23 \<le> length limit" "23 \<le> length base"
    and "\<forall>n < 23. base ! n = int (below L a n)"
  shows "runs (decode_limit limit base m M) (\<lambda>limit'. length limit' = length limit
     \<and> (\<forall>n < 23. limit' ! n = (if m \<le> n \<and> n \<le> M then int (first_code L a m n + lcount L n a) - 1 else 0)))"
proof -
  have zero: "runs (for_in [0..<23] (\<lambda>i limit. aput limit i 0) limit)
      (\<lambda>limit'. length limit' = length limit \<and> (\<forall>n < 23. limit' ! n = 0))"
    by (rule runs_mono [OF runs_for_upt [where I = "\<lambda>k limit'. length limit' = length limit
          \<and> (\<forall>n < k. limit' ! n = 0)"]])
      (use assms in \<open>auto simp: nth_list_update less_Suc_eq\<close>)
  let ?I = "\<lambda>k (limit', vec). length limit' = length limit \<and> vec = int (first_code L a m k)
     \<and> (\<forall>n < 23. limit' ! n = (if m \<le> n \<and> n < k then int (first_code L a m n + lcount L n a) - 1 else 0))"
  have main: "runs (for_in [m..<M + 1] (\<lambda>i (limit, vec).
            do { b1 \<leftarrow> aget base (i + 1);
                 b \<leftarrow> aget base i;
                 let vec = vec + (b1 - b);
                 limit \<leftarrow> aput limit i (vec - 1);
                 Some (limit, vec * 2) }) (limit', 0)) (?I (M + 1))"
    if "length limit' = length limit" "\<forall>n < 23. limit' ! n = 0" for limit'
  proof (rule runs_for_upt [where I = ?I])
    fix k st assume k: "m \<le> k" "k < M + 1" and st: "?I k st"
    obtain l v where [simp]: "st = (l, v)" by fastforce
    have "base ! (k + 1) - base ! k = int (lcount L k a)"
      using assms(3,7) k by (simp add: below_Suc)
    then show "runs (case st of (limit, vec) \<Rightarrow>
            do { b1 \<leftarrow> aget base (k + 1);
                 b \<leftarrow> aget base k;
                 let vec = vec + (b1 - b);
                 limit \<leftarrow> aput limit k (vec - 1);
                 Some (limit, vec * 2) }) (?I (Suc k))"
      using k st assms(3,5,6) by (auto simp: nth_list_update less_Suc_eq)
  qed (use that assms in auto)
  show ?thesis
    unfolding decode_limit_def
    apply (rule runs_bind_mono [OF zero])
    apply (rule runs_bind_mono [OF main])
      apply simp_all [2]
    apply (auto simp: less_Suc_eq_le)
    done
qed

text \<open>
  Together: in the tables, the words of length n are the numbers up to \<open>limit ! n\<close>, and
  \<open>base ! n\<close> takes such a word to its place in \<open>perm\<close>.
\<close>

definition tables_ok ::
    "nat list \<Rightarrow> nat \<Rightarrow> nat \<Rightarrow> nat \<Rightarrow> int list \<Rightarrow> int list \<Rightarrow> int list \<Rightarrow> bool" where
  "tables_ok L a m M limit base perm \<longleftrightarrow> lengths_ok L a m M
     \<and> 23 \<le> length limit \<and> 23 \<le> length base \<and> a \<le> length perm
     \<and> (\<forall>n < 23. limit ! n = (if m \<le> n \<and> n \<le> M then int (first_code L a m n + lcount L n a) - 1 else 0))
     \<and> (\<forall>n < 23. base ! n = int (below L a n) \<or> m \<le> n \<and> n \<le> M)
     \<and> (\<forall>n. m \<le> n \<and> n \<le> M \<longrightarrow> base ! n = int (first_code L a m n) - int (below L a n))
     \<and> (\<forall>i < a. perm ! (below L a (L ! i) + lcount L (L ! i) i) = int i)"

lemma create_decode_tables:
  assumes "lengths_ok L a m M" "23 \<le> length limit" "23 \<le> length base" "a \<le> length perm"
  shows "runs (BZ2_hbCreateDecodeTables limit base perm L m M a) (\<lambda>(limit', base', perm').
     length limit' = length limit \<and> length base' = length base \<and> length perm' = length perm
     \<and> tables_ok L a m M limit' base' perm')"
proof -
  have L: "a \<le> length L" "\<forall>i < a. L ! i \<le> 20" "1 \<le> m" "m \<le> M" "M \<le> 20" "\<forall>i < a. m \<le> L ! i"
    using assms(1) by (auto simp: lengths_ok_def)
  obtain perm' where perm: "decode_perm perm L m M a = Some perm'" "length perm' = length perm"
      "\<forall>i < a. perm' ! (below L a (L ! i) + lcount L (L ! i) i) = int i"
    using perm_table [OF assms(1,4)] by (auto simp: runs_iff_Some)
  obtain base1 where base: "decode_base base L a = Some base1" "length base1 = length base"
      "\<forall>n < 23. base1 ! n = int (below L a n)"
    using base_table [OF L(1,2) assms(3)] by (auto simp: runs_iff_Some)
  have "23 \<le> length base1" using base(2) assms(3) by simp
  from limit_table [OF L(3-6) assms(2) this base(3)]
  obtain limit' where limit: "decode_limit limit base1 m M = Some limit'" "length limit' = length limit"
      "\<forall>n < 23. limit' ! n = (if m \<le> n \<and> n \<le> M then int (first_code L a m n + lcount L n a) - 1 else 0)"
    by (auto simp: runs_iff_Some)
  let ?new = "\<lambda>n. int (first_code L a m n) - int (below L a n)"
  have m0: "?new m = int (below L a m)" using below_0 [of a m L] L by simp
  have "runs (decode_offset base1 limit' m M) (\<lambda>base'. length base' = length base
      \<and> (\<forall>n < 23. base' ! n = (if m \<le> n \<and> n < M + 1 then ?new n else int (below L a n))))"
    unfolding decode_offset_def
  proof (rule runs_for_upt [where I = "\<lambda>k base'. length base' = length base
      \<and> (\<forall>n < 23. base' ! n = (if m \<le> n \<and> n < k then ?new n else int (below L a n)))"])
    show "length base1 = length base
       \<and> (\<forall>n < 23. base1 ! n = (if m \<le> n \<and> n < m + 1 then ?new n else int (below L a n)))"
      using base m0 by (auto simp: less_Suc_eq)
    fix k b assume k: "m + 1 \<le> k" "k < M + 1" and b: "length b = length base
       \<and> (\<forall>n < 23. b ! n = (if m \<le> n \<and> n < k then ?new n else int (below L a n)))"
    obtain j where j: "k = Suc j" "m \<le> j" using k(1) by (cases k) auto
    have "(limit' ! (k - 1) + 1) * 2 - b ! k = ?new k"
      using j k(2) b limit(3) L by simp
    then show "runs (do { l \<leftarrow> aget limit' (k - 1); x \<leftarrow> aget b k; aput b k ((l + 1) * 2 - x) })
      (\<lambda>base'. length base' = length base
      \<and> (\<forall>n < 23. base' ! n = (if m \<le> n \<and> n < Suc k then ?new n else int (below L a n))))"
      using k b assms(2,3) limit(2) L(5) by (auto simp: nth_list_update less_Suc_eq)
  qed (use L in auto)
  then obtain base' where base': "decode_offset base1 limit' m M = Some base'" "length base' = length base"
      "\<forall>n < 23. base' ! n = (if m \<le> n \<and> n < M + 1 then ?new n else int (below L a n))"
    by (auto simp: runs_iff_Some)
  have "tables_ok L a m M limit' base' perm'"
    unfolding tables_ok_def using assms L perm limit base' by auto
  then show ?thesis
    using perm base limit base' by (simp add: BZ2_hbCreateDecodeTables_def)
qed

section \<open>Decoding a symbol\<close>

text \<open>
  The search of \<open>GET_MTF_VAL\<close> over a list of bits: the word \<open>zvec\<close> of \<open>zn\<close> bits is
  extended until it is at most \<open>limit ! zn\<close>. The result is the place in \<open>perm\<close>, or the
  corruption that the macro reports.
\<close>

datatype 'a found = Found 'a "bool list" | Corrupt | More_bits

fun find_code :: "int list \<Rightarrow> int list \<Rightarrow> nat \<Rightarrow> int \<Rightarrow> bool list \<Rightarrow> int found" where
  "find_code limit base zn zvec bs =
     (if zn > 20 then Corrupt
      else if zvec \<le> limit ! zn
      then (if zvec - base ! zn < 0 \<or> zvec - base ! zn \<ge> 258 then Corrupt
            else Found (zvec - base ! zn) bs)
      else case bs of [] \<Rightarrow> More_bits
           | b # bs \<Rightarrow> find_code limit base (zn + 1) (2 * zvec + of_bool b) bs)"

declare find_code.simps [simp del]

text \<open>Every index it can find is the place of a symbol, so the cell of \<open>perm\<close> was assigned.\<close>

lemma place_is_symbol:
  assumes "p < a"
  shows "\<exists>i < a. p = below L a (L ! i) + lcount L (L ! i) i"
proof -
  have "\<exists>n. below L a n \<le> p \<and> p < below L a (Suc n)"
  proof -
    obtain N where N: "\<forall>i < a. L ! i < N"
    proof
      show "\<forall>i < a. L ! i < Suc (Max ((!) L ` {..<a}))"
        by (auto simp: less_Suc_eq_le)
    qed
    have "p < below L a N" using assms below_all [of a L N] N by simp
    moreover have "below L a 0 \<le> p" by (simp add: below_def)
    ultimately show ?thesis
    proof (induction N)
      case (Suc N)
      then show ?case by (cases "p < below L a N") (use not_less in blast)+
    qed simp
  qed
  then obtain n where n: "below L a n \<le> p" "p < below L a n + lcount L n a"
    by (auto simp: below_Suc)
  have "\<exists>i < k. L ! i = n \<and> lcount L n i = r" if "r < lcount L n k" for r k
    using that by (induction k) (auto simp: lcount_Suc less_Suc_eq split: if_splits)
  moreover have "p - below L a n < lcount L n a" using n by linarith
  ultimately obtain i where "i < a" "L ! i = n" "lcount L n i = p - below L a n" by blast
  with n show ?thesis by auto
qed

lemma index_of_symbol:
  assumes "tables_ok L a m M limit base perm" "0 \<le> zvec" "m \<le> n" "n \<le> 20"
    and "zvec \<le> limit ! n" "0 \<le> zvec - base ! n" "0 < a"
  shows "\<exists>i < a. zvec - base ! n = int (below L a (L ! i) + lcount L (L ! i) i)
     \<and> perm ! nat (zvec - base ! n) = int i"
proof -
  note tab = assms(1) [unfolded tables_ok_def lengths_ok_def]
  have "n \<le> M"
  proof (rule ccontr)
    assume "\<not> n \<le> M"
    then have "\<not> (m \<le> n \<and> n \<le> M)" "n < 23" "\<forall>i < a. L ! i < n" using tab assms(4) by auto
    moreover from this have "limit ! n = 0" "base ! n = int (below L a n)" using tab by metis+
    ultimately show False using below_all [of a L n] assms by auto
  qed
  then have "base ! n = int (first_code L a m n) - int (below L a n)"
      "limit ! n = int (first_code L a m n + lcount L n a) - 1"
    using tab assms(3,4) by auto
  then have "nat (zvec - base ! n) < a"
    using assms(5,6) below_lcount_le [of L a n] by linarith
  from place_is_symbol [OF this] obtain i where
    i: "i < a" "nat (zvec - base ! n) = below L a (L ! i) + lcount L (L ! i) i" by blast
  moreover have "perm ! (below L a (L ! i) + lcount L (L ! i) i) = int i" using tab i(1) by blast
  ultimately show ?thesis using assms(6) by (intro exI [of _ i]) (metis int_nat_eq)
qed

section \<open>Round trip\<close>

text \<open>The low \<open>n\<close> bits of a number, most significant first.\<close>

definition nbits :: "nat \<Rightarrow> nat \<Rightarrow> bool list" where
  "nbits n c = map (bit c) (rev [0..<n])"

lemma nbits_simps [simp]: "nbits 0 c = []" "nbits (Suc n) c = bit c n # nbits n c"
  by (simp_all add: nbits_def)

lemma first_code_step:
  "m \<le> n \<Longrightarrow> n < l \<Longrightarrow> (first_code L a m n + lcount L n a) * 2 ^ (l - n) \<le> first_code L a m l"
proof (induction "l - n" arbitrary: l)
  case (Suc d)
  then obtain k where l: "l = Suc k" by (cases l) auto
  show ?case
  proof (cases "n = k")
    case True
    then show ?thesis using Suc.prems l by simp
  next
    case False
    then have "(first_code L a m n + lcount L n a) * 2 ^ (k - n) \<le> first_code L a m k"
      using Suc l by auto
    moreover have "(2 :: nat) ^ (l - n) = 2 * 2 ^ (k - n)" using False Suc.prems l by (simp add: Suc_diff_le)
    moreover have "first_code L a m l = 2 * (first_code L a m k + lcount L k a)" using Suc.prems l by simp
    ultimately show ?thesis by (simp add: algebra_simps)
  qed
qed simp

lemma div_bit_step: "n < l \<Longrightarrow>
   2 * (int c div 2 ^ (l - n)) + of_bool (bit c (l - Suc n)) = int c div 2 ^ (l - Suc n)"
proof -
  assume n: "n < l"
  have "int c div 2 ^ (l - n) = int c div 2 ^ (l - Suc n) div 2"
    using n by (simp add: zdiv_zmult2_eq [symmetric] Suc_diff_Suc [symmetric] mult.commute del: Suc_diff_Suc)
  moreover have "int c div 2 ^ (l - Suc n) = int (c div 2 ^ (l - Suc n))"
    by (simp add: zdiv_int)
  then have "bit c (l - Suc n) \<longleftrightarrow> odd (int c div 2 ^ (l - Suc n))"
    by (simp add: bit_iff_odd)
  ultimately show ?thesis by (simp add: mult_div_mod_eq [symmetric] mod_2_eq_odd)
qed

lemma find_code_word:
  assumes "tables_ok L a m M limit base perm" "i < a" "m \<le> n" "n \<le> L ! i" "a \<le> 258"
  shows "find_code limit base n (int (code_of L a m i) div 2 ^ (L ! i - n))
       (nbits (L ! i - n) (code_of L a m i) @ bs)
     = Found (int (below L a (L ! i) + lcount L (L ! i) i)) bs"
  using assms(3,4)
proof (induction "L ! i - n" arbitrary: n)
  case 0
  note tab = assms(1) [unfolded tables_ok_def lengths_ok_def]
  let ?l = "L ! i" and ?c = "code_of L a m i"
  have l: "n = ?l" "?l \<le> 20" "?l \<le> M" using 0 tab assms(2) by auto
  have "int ?c \<le> limit ! ?l"
    using tab l 0 lcount_less [OF assms(2), of L] by (auto simp: code_of_def)
  moreover have base: "int ?c - base ! ?l = int (below L a ?l + lcount L ?l i)"
    using tab l 0 by (auto simp: code_of_def)
  moreover have "below L a ?l + lcount L ?l i < 258"
    using below_lcount_le [of L a ?l] lcount_less [OF assms(2), of L] assms(5) by linarith
  ultimately show ?case
    using l by (subst find_code.simps) auto
next
  case (Suc d)
  note tab = assms(1) [unfolded tables_ok_def lengths_ok_def]
  let ?l = "L ! i" and ?c = "code_of L a m i"
  have n: "n < ?l" "?l \<le> 20" "?l \<le> M" using Suc tab assms(2) by auto
  have "(first_code L a m n + lcount L n a) * 2 ^ (?l - n) \<le> ?c"
    using first_code_step [of m n ?l L a] Suc.prems n by (auto simp: code_of_def)
  then have "first_code L a m n + lcount L n a \<le> ?c div 2 ^ (?l - n)"
    by (simp add: less_eq_div_iff_mult_less_eq)
  then have "int (first_code L a m n + lcount L n a) \<le> int ?c div 2 ^ (?l - n)"
    by (metis of_nat_le_iff zdiv_int of_nat_power of_nat_numeral)
  moreover have "limit ! n = int (first_code L a m n + lcount L n a) - 1"
    using tab n Suc.prems by simp
  ultimately have above: "\<not> int ?c div 2 ^ (?l - n) \<le> limit ! n" by linarith
  have "nbits (?l - n) ?c = bit ?c (?l - Suc n) # nbits (?l - Suc n) ?c"
    using n by (simp add: Suc_diff_Suc [symmetric] del: Suc_diff_Suc)
  moreover have "find_code limit base (Suc n) (int ?c div 2 ^ (?l - Suc n)) (nbits (?l - Suc n) ?c @ bs)
      = Found (int (below L a ?l + lcount L ?l i)) bs"
    using Suc n by auto
  ultimately show ?case
    using above n div_bit_step [of n ?l ?c] by (subst find_code.simps) simp
qed

text \<open>The Kraft inequality, which the words of a code need to fit in their lengths.\<close>

definition kraft :: "nat list \<Rightarrow> nat \<Rightarrow> nat \<Rightarrow> bool" where
  "kraft L a M \<longleftrightarrow> (\<Sum>i<a. 2 ^ (M - L ! i)) \<le> (2 :: nat) ^ M"

lemma first_code_sum:
  assumes "lengths_ok L a m M" "m \<le> n" "n \<le> Suc M"
  shows "(\<Sum>i | i < a \<and> L ! i < n. 2 ^ (M - L ! i)) * 2 = first_code L a m n * 2 ^ (Suc M - n)"
  using assms(2,3)
proof (induction n)
  case (Suc n)
  have split: "{i. i < a \<and> L ! i < Suc n} = {i. i < a \<and> L ! i < n} \<union> {i. i < a \<and> L ! i = n}"
    by auto
  have card: "card {i. i < a \<and> L ! i = n} = lcount L n a"
  proof -
    have "set (filter (\<lambda>j. L ! j = n) [0..<a]) = {i. i < a \<and> L ! i = n}" by auto
    then show ?thesis unfolding lcount_def by (metis distinct_card distinct_filter distinct_upt)
  qed
  have sum: "(\<Sum>i | i < a \<and> L ! i < Suc n. (2 :: nat) ^ (M - L ! i))
      = (\<Sum>i | i < a \<and> L ! i < n. 2 ^ (M - L ! i)) + lcount L n a * 2 ^ (M - n)"
    unfolding split by (subst sum.union_disjoint) (auto simp: card [symmetric])
  show ?case
  proof (cases "Suc n \<le> m")
    case True
    then have "{i. i < a \<and> L ! i < Suc n} = {}" using assms(1) by (auto simp: lengths_ok_def)
    with True show ?thesis by simp
  next
    case False
    then have IH: "(\<Sum>i | i < a \<and> L ! i < n. 2 ^ (M - L ! i)) * 2 = first_code L a m n * 2 ^ (Suc M - n)"
      using Suc by simp
    have "(2 :: nat) ^ (Suc M - n) = 2 * 2 ^ (M - n)" using Suc.prems by (simp add: Suc_diff_le)
    then show ?thesis using sum IH False by (simp add: algebra_simps)
  qed
qed (use assms in \<open>auto simp: lengths_ok_def\<close>)

lemma code_fits:
  assumes "lengths_ok L a m M" "kraft L a M" "i < a"
  shows "code_of L a m i < 2 ^ (L ! i)"
proof -
  let ?l = "L ! i"
  have l: "m \<le> ?l" "?l \<le> M" using assms by (auto simp: lengths_ok_def)
  then have "first_code L a m (Suc ?l) * 2 ^ (M - ?l) = (\<Sum>i | i < a \<and> L ! i < Suc ?l. 2 ^ (M - L ! i)) * 2"
    using first_code_sum [OF assms(1), of "Suc ?l"] by simp
  also have "\<dots> \<le> (\<Sum>i<a. 2 ^ (M - L ! i)) * 2"
    by (intro mult_le_mono1 sum_mono2) auto
  also have "\<dots> \<le> 2 ^ M * 2" using assms(2) unfolding kraft_def by simp
  also have "(2 :: nat) ^ M = 2 ^ ?l * 2 ^ (M - ?l)" using l by (simp add: power_add [symmetric])
  finally have "first_code L a m (Suc ?l) \<le> 2 ^ ?l * 2" by simp
  moreover have "first_code L a m (Suc ?l) = 2 * (first_code L a m ?l + lcount L ?l a)"
    using l by simp
  ultimately show ?thesis
    using lcount_less [OF assms(3), of L] by (simp add: code_of_def)
qed

text \<open>The decoder from the first bit of a word on: \<open>m\<close> bits at once, then one at a time.\<close>

definition bits_val :: "bool list \<Rightarrow> int" where
  "bits_val bs = foldl (\<lambda>v b. 2 * v + of_bool b) 0 bs"

definition decode_symbol ::
    "int list \<Rightarrow> int list \<Rightarrow> int list \<Rightarrow> nat \<Rightarrow> bool list \<Rightarrow> int found" where
  "decode_symbol limit base perm m bs =
     (if length bs < m then More_bits
      else case find_code limit base m (bits_val (take m bs)) (drop m bs) of
             Found p bs \<Rightarrow> Found (perm ! nat p) bs
           | Corrupt \<Rightarrow> Corrupt
           | More_bits \<Rightarrow> More_bits)"

lemma bits_val_snoc [simp]: "bits_val [] = 0" "bits_val (bs @ [b]) = 2 * bits_val bs + of_bool b"
  by (simp_all add: bits_val_def)

lemma length_nbits [simp]: "length (nbits n c) = n"
  by (simp add: nbits_def)

lemma nbits_split: "m \<le> n \<Longrightarrow> nbits n c = nbits m (c div 2 ^ (n - m)) @ nbits (n - m) c"
proof (induction m arbitrary: n)
  case (Suc m)
  then obtain k where n: "n = Suc k" "m \<le> k" by (cases n) auto
  have "bit (c div 2 ^ (k - m)) m = bit c k"
    using n by (simp add: bit_iff_odd div_mult2_eq [symmetric] power_add [symmetric])
  then show ?case using Suc.IH [OF n(2)] n by simp
qed simp

lemma bits_val_nbits: "c < 2 ^ n \<Longrightarrow> bits_val (nbits n c) = int c"
proof (induction n arbitrary: c)
  case (Suc n)
  have "nbits (Suc n) c = nbits n (c div 2) @ [odd c]"
    using nbits_split [of n "Suc n" c] by (simp add: bit_iff_odd)
  moreover have "c div 2 < 2 ^ n" using Suc.prems by auto
  ultimately have "bits_val (nbits (Suc n) c) = 2 * int (c div 2) + of_bool (odd c)"
    using Suc.IH by simp
  then show ?case by (cases "odd c") (auto elim!: oddE evenE)
qed simp

lemma decode_word:
  assumes "tables_ok L a m M limit base perm" "kraft L a M" "i < a" "a \<le> 258"
  shows "decode_symbol limit base perm m (nbits (L ! i) (code_of L a m i) @ bs) = Found (int i) bs"
proof -
  note tab = assms(1) [unfolded tables_ok_def]
  let ?c = "code_of L a m i" and ?l = "L ! i"
  have l: "m \<le> ?l" using tab assms(3) by (simp add: lengths_ok_def)
  have c: "?c < 2 ^ ?l" using code_fits assms tab by blast
  then have "?c div 2 ^ (?l - m) < 2 ^ m"
    using l by (simp add: less_mult_imp_div_less power_add [symmetric])
  then have "bits_val (nbits m (?c div 2 ^ (?l - m))) = int ?c div 2 ^ (?l - m)"
    by (simp add: bits_val_nbits zdiv_int)
  moreover have "nbits ?l ?c = nbits m (?c div 2 ^ (?l - m)) @ nbits (?l - m) ?c"
    by (rule nbits_split [OF l])
  moreover have "perm ! (below L a ?l + lcount L ?l i) = int i" using tab assms(3) by blast
  ultimately show ?thesis
    using find_code_word [OF assms(1,3) _ l assms(4), of bs]
    by (simp add: decode_symbol_def flip: of_nat_add)
qed

section \<open>Properties\<close>

text \<open>
  C15: the Huffman codes round-trip: for every list of code lengths between 1 and 20 that
  satisfies the Kraft inequality, the code word that \<open>BZ2_hbAssignCodes\<close> gives a symbol
  fits in its length, and decoding its bits with the tables of
  \<open>BZ2_hbCreateDecodeTables\<close> gives the symbol back, whatever bits follow.
\<close>

theorem huffman_round_trip:
  assumes "lengths_ok L a m M" "kraft L a M" "a \<le> 258" "a \<le> length code"
    and "23 \<le> length limit" "23 \<le> length base" "a \<le> length perm"
  shows "\<exists>code' limit' base' perm'. BZ2_hbAssignCodes code L m M a = Some code'
     \<and> BZ2_hbCreateDecodeTables limit base perm L m M a = Some (limit', base', perm')
     \<and> (\<forall>i < a. 0 \<le> code' ! i \<and> code' ! i < 2 ^ (L ! i)
          \<and> (\<forall>bs. decode_symbol limit' base' perm' m (nbits (L ! i) (nat (code' ! i)) @ bs)
                  = Found (int i) bs))"
proof -
  obtain code' where "BZ2_hbAssignCodes code L m M a = Some code'"
      "\<forall>i < a. code' ! i = int (code_of L a m i)"
    using assign_codes [OF assms(1,4)] by (auto simp: runs_iff_Some)
  moreover obtain limit' base' perm' where
      "BZ2_hbCreateDecodeTables limit base perm L m M a = Some (limit', base', perm')"
      "tables_ok L a m M limit' base' perm'"
    using create_decode_tables [OF assms(1,5,6,7)] by (auto simp: runs_iff_Some)
  moreover have "\<forall>i < a. int (code_of L a m i) < 2 ^ (L ! i)"
    using code_fits [OF assms(1,2)] by (metis of_nat_less_iff of_nat_numeral of_nat_power)
  ultimately show ?thesis
    using decode_word assms(2,3) by (intro exI conjI) auto
qed

lemma huffman_round_trip_witness:
  "\<exists>code' limit' base' perm'. BZ2_hbAssignCodes (replicate 258 0) [2, 1, 3, 3] 1 3 4 = Some code'
     \<and> BZ2_hbCreateDecodeTables (replicate 258 0) (replicate 258 0) (replicate 258 0) [2, 1, 3, 3] 1 3 4
         = Some (limit', base', perm')
     \<and> (\<forall>i < 4. 0 \<le> code' ! i \<and> code' ! i < 2 ^ ([2, 1, 3, 3] ! i)
          \<and> (\<forall>bs. decode_symbol limit' base' perm' 1 (nbits ([2, 1, 3, 3] ! i) (nat (code' ! i)) @ bs)
                  = Found (int i) bs))"
  by (rule huffman_round_trip)
    (auto simp: lengths_ok_def kraft_def numeral_eq_Suc less_Suc_eq lessThan_Suc)

text \<open>
  The decoder never uses a cell of \<open>perm\<close> that was not assigned: whatever the code
  lengths are (each between 1 and 20, over- or undersubscribed), if \<open>BZ2_hbCreateDecodeTables\<close>
  has built the tables and the search accepts a word, the place it computes holds a symbol
  of the alphabet.
\<close>

theorem decoded_symbol_in_alphabet:
  assumes "lengths_ok L a m M" "0 < a" "23 \<le> length limit" "23 \<le> length base" "a \<le> length perm"
  shows "\<exists>limit' base' perm'. BZ2_hbCreateDecodeTables limit base perm L m M a = Some (limit', base', perm')
     \<and> (\<forall>n zvec. m \<le> n \<and> n \<le> 20 \<and> 0 \<le> zvec \<and> zvec \<le> limit' ! n \<and> 0 \<le> zvec - base' ! n \<longrightarrow>
          nat (zvec - base' ! n) < a \<and> 0 \<le> perm' ! nat (zvec - base' ! n)
          \<and> perm' ! nat (zvec - base' ! n) < int a)"
proof -
  obtain limit' base' perm' where tab:
      "BZ2_hbCreateDecodeTables limit base perm L m M a = Some (limit', base', perm')"
      "tables_ok L a m M limit' base' perm'"
    using create_decode_tables [OF assms(1,3,4,5)] by (auto simp: runs_iff_Some)
  have "nat (zvec - base' ! n) < a \<and> 0 \<le> perm' ! nat (zvec - base' ! n)
      \<and> perm' ! nat (zvec - base' ! n) < int a"
    if z: "m \<le> n" "n \<le> 20" "0 \<le> zvec" "zvec \<le> limit' ! n" "0 \<le> zvec - base' ! n" for n zvec
  proof -
    obtain i where i: "i < a" "zvec - base' ! n = int (below L a (L ! i) + lcount L (L ! i) i)"
        "perm' ! nat (zvec - base' ! n) = int i"
      using index_of_symbol [OF tab(2) z(3,1,2,4,5) assms(2)] by blast
    have "below L a (L ! i) + lcount L (L ! i) i < a"
      using below_lcount_le [of L a "L ! i"] lcount_less [OF i(1), of L] by linarith
    with i show ?thesis by simp
  qed
  with tab show ?thesis by blast
qed

lemma decoded_symbol_in_alphabet_witness:
  "\<exists>limit' base' perm'.
     BZ2_hbCreateDecodeTables (replicate 258 7) (replicate 258 7) (replicate 258 7) [1, 1, 1] 1 1 3
         = Some (limit', base', perm')
     \<and> (\<forall>n zvec. 1 \<le> n \<and> n \<le> 20 \<and> 0 \<le> zvec \<and> zvec \<le> limit' ! n \<and> 0 \<le> zvec - base' ! n \<longrightarrow>
          nat (zvec - base' ! n) < 3 \<and> 0 \<le> perm' ! nat (zvec - base' ! n)
          \<and> perm' ! nat (zvec - base' ! n) < int 3)"
  by (rule decoded_symbol_in_alphabet)
    (auto simp: lengths_ok_def numeral_eq_Suc less_Suc_eq)

end
