(* ===== verification/BzLengths.thy ===== *)
theory BzLengths
  imports BzHuffman
begin

text \<open>
  Total correctness of \<open>BZ2_hbMakeCodeLengths\<close> (\<open>benchmarks/wasi/bzip2/huffman.c\<close>): the
  heap operations keep the heap ordered, every attempt builds a binary tree whose leaves
  are the symbols, the depth of the tree is logarithmic in the weights, and the scaling of
  the weights makes the attempts end with lengths that are not too long.
\<close>

section \<open>The heap\<close>

definition ordered :: "int list \<Rightarrow> nat list \<Rightarrow> nat \<Rightarrow> bool" where
  "ordered w h n \<longleftrightarrow> (\<forall>i. 2 \<le> i \<and> i \<le> n \<longrightarrow> w ! (h ! (i div 2)) \<le> w ! (h ! i))"

text \<open>Ordered except for the node at \<open>z\<close>, which may be too light, or too heavy.\<close>

definition up_ord :: "int list \<Rightarrow> nat list \<Rightarrow> nat \<Rightarrow> nat \<Rightarrow> bool" where
  "up_ord w h n z \<longleftrightarrow> (\<forall>i. 2 \<le> i \<and> i \<le> n \<and> i \<noteq> z \<longrightarrow> w ! (h ! (i div 2)) \<le> w ! (h ! i))
     \<and> (\<forall>i. 2 \<le> i \<and> i \<le> n \<and> i div 2 = z \<and> 2 \<le> z \<longrightarrow> w ! (h ! (z div 2)) \<le> w ! (h ! i))"

definition down_ord :: "int list \<Rightarrow> nat list \<Rightarrow> nat \<Rightarrow> nat \<Rightarrow> bool" where
  "down_ord w h n z \<longleftrightarrow> (\<forall>i. 2 \<le> i \<and> i \<le> n \<and> i div 2 \<noteq> z \<longrightarrow> w ! (h ! (i div 2)) \<le> w ! (h ! i))
     \<and> (\<forall>i. 2 \<le> i \<and> i \<le> n \<and> i div 2 = z \<and> 2 \<le> z \<longrightarrow> w ! (h ! (z div 2)) \<le> w ! (h ! i))"

definition entries_ok :: "int list \<Rightarrow> nat list \<Rightarrow> nat \<Rightarrow> bool" where
  "entries_ok w h n \<longleftrightarrow> n < length h \<and> (\<forall>i \<le> n. h ! i < length w \<and> 0 \<le> w ! (h ! i))"

lemma up_ord_step:
  assumes "up_ord w h n z" "2 \<le> z" "z \<le> n" "n < length h" "w ! (h ! z) < w ! (h ! (z div 2))"
  shows "up_ord w (h[z := h ! (z div 2), z div 2 := h ! z]) n (z div 2)"
proof -
  let ?p = "z div 2" and ?h = "h[z := h ! (z div 2), z div 2 := h ! z]"
  have p: "?p < z" "?p < length h" "z < length h" using assms(2-4) by auto
  have nth: "?h ! i = (if i = ?p then h ! z else if i = z then h ! ?p else h ! i)" for i
    using p by (auto simp: nth_list_update)
  have a: "w ! (h ! (i div 2)) \<le> w ! (h ! i)" if "2 \<le> i" "i \<le> n" "i \<noteq> z" for i
    using assms(1) that by (auto simp: up_ord_def)
  have b: "w ! (h ! ?p) \<le> w ! (h ! i)" if "2 \<le> i" "i \<le> n" "i div 2 = z" for i
    using assms(1,2) that by (auto simp: up_ord_def)
  have sib: "w ! (h ! ?p) \<le> w ! (h ! i)" if "2 \<le> i" "i \<le> n" "i div 2 = ?p" "i \<noteq> z" for i
    using a [OF that(1,2,4)] that(3) by simp
  show ?thesis
    unfolding up_ord_def
  proof (intro conjI allI impI; elim conjE)
    fix i assume i: "2 \<le> i" "i \<le> n" "i \<noteq> ?p"
    have "i div 2 < i" using i by simp
    then show "w ! (?h ! (i div 2)) \<le> w ! (?h ! i)"
      using a [OF i(1,2)] b [OF i(1,2)] sib [OF i(1,2)] i assms(5) p
      unfolding nth by (cases "i = z"; cases "i div 2 = z"; cases "i div 2 = ?p") auto
  next
    fix i assume i: "2 \<le> i" "i \<le> n" "i div 2 = ?p" "2 \<le> ?p"
    have "?p div 2 < ?p" using i by simp
    moreover have "w ! (h ! (?p div 2)) \<le> w ! (h ! ?p)" using a [of ?p] i p assms(3) by auto
    ultimately show "w ! (?h ! (?p div 2)) \<le> w ! (?h ! i)"
      using a [OF i(1,2)] sib [OF i(1-3)] i p unfolding nth by (cases "i = z") auto
  qed
qed

lemma entries_ok_swap:
  "entries_ok w h n \<Longrightarrow> i \<le> n \<Longrightarrow> j \<le> n \<Longrightarrow> entries_ok w (h[i := h ! j, j := h ! i]) n"
  by (auto simp: entries_ok_def nth_list_update)

lemma up_heap_ok:
  assumes "h = heap[z := tmp]" "1 \<le> z" "z \<le> n" "entries_ok w h n" "h ! 0 = 0" "w ! 0 = 0"
    and "up_ord w h n z"
  shows "runs (up_heap w tmp z heap) (\<lambda>h'. length h' = length heap \<and> h' ! 0 = 0 \<and> mset h' = mset h
     \<and> (\<forall>i > n. h' ! i = heap ! i) \<and> ordered w h' n)"
  using assms
proof (induction z arbitrary: heap h rule: less_induct)
  case (less z)
  let ?p = "z div 2"
  have len: "z < length heap" "z < length h" "n < length heap" using less.prems(1,3,4) by (auto simp: entries_ok_def)
  have p: "?p < z" using less.prems(2) by simp
  have hp: "heap ! ?p = h ! ?p" "h ! z = tmp" using less.prems(1) p len by simp_all
  have ok: "h ! ?p < length w" "tmp < length w" "0 \<le> w ! tmp" "?p < length heap"
    using less.prems(3,4) hp(2) p len by (auto simp: entries_ok_def)
  show ?case
  proof (cases "w ! tmp < w ! (h ! ?p)")
    case True
    have z2: "2 \<le> z"
    proof (rule ccontr)
      assume "\<not> 2 \<le> z"
      then have "?p = 0" by simp
      with True less.prems(5,6) ok show False by simp
    qed
    let ?h = "h[z := h ! ?p, ?p := h ! z]" and ?heap = "heap[z := h ! ?p]"
    have "?h = ?heap[?p := tmp]" using less.prems(1) hp p by (simp add: list_update_swap)
    moreover have "up_ord w ?h n ?p"
      using up_ord_step [OF less.prems(7) z2 less.prems(3)] True hp(2) len less.prems(1) by simp
    moreover have "entries_ok w ?h n"
      using entries_ok_swap [OF less.prems(4,3), of ?p] p less.prems(3) by simp
    moreover have "?h ! 0 = 0" using less.prems(5) z2 p by (simp add: nth_list_update)
    ultimately have "runs (up_heap w tmp ?p ?heap) (\<lambda>h'. length h' = length ?heap \<and> h' ! 0 = 0
        \<and> mset h' = mset ?h \<and> (\<forall>i > n. h' ! i = ?heap ! i) \<and> ordered w h' n)"
      using less.IH [of ?p ?h ?heap] p z2 less.prems(3,6) by auto
    moreover have "mset ?h = mset h" using len p by (intro mset_swap) auto
    moreover have "\<forall>i > n. ?heap ! i = heap ! i" using less.prems(3) by simp
    ultimately show ?thesis
      using True ok hp len z2 by (subst up_heap.simps) (auto elim!: runs_mono)
  next
    case False
    have "ordered w h n"
      using less.prems(7) False hp(2) by (auto simp: ordered_def up_ord_def not_less)
    then show ?thesis
      using False ok hp len less.prems(1,3,5) by (subst up_heap.simps) simp
  qed
qed

lemma UPHEAP_ok:
  assumes "1 \<le> z" "entries_ok w h z" "h ! 0 = 0" "w ! 0 = 0" "ordered w h (z - 1)"
  shows "runs (UPHEAP w z h) (\<lambda>h'. length h' = length h \<and> h' ! 0 = 0 \<and> mset h' = mset h
     \<and> (\<forall>i > z. h' ! i = h ! i) \<and> ordered w h' z)"
proof -
  have "up_ord w h z z"
    using assms(5) unfolding up_ord_def ordered_def by auto
  moreover have "z < length h" using assms(2) by (simp add: entries_ok_def)
  ultimately show ?thesis
    using up_heap_ok [of h h z "h ! z" z w] assms by (simp add: UPHEAP_def)
qed

lemma down_ord_step:
  assumes "down_ord w h n z" "1 \<le> z" "y div 2 = z" "2 \<le> y" "y \<le> n" "n < length h"
    and "w ! (h ! y) \<le> w ! (h ! z)"
    and "\<And>i. 2 \<le> i \<Longrightarrow> i \<le> n \<Longrightarrow> i div 2 = z \<Longrightarrow> w ! (h ! y) \<le> w ! (h ! i)"
  shows "down_ord w (h[z := h ! y, y := h ! z]) n y"
proof -
  let ?h = "h[z := h ! y, y := h ! z]"
  have z: "z < y" "z < length h" "y < length h" using assms(3-6) by auto
  have nth: "?h ! i = (if i = y then h ! z else if i = z then h ! y else h ! i)" for i
    using z by (auto simp: nth_list_update)
  have a: "w ! (h ! (i div 2)) \<le> w ! (h ! i)" if "2 \<le> i" "i \<le> n" "i div 2 \<noteq> z" for i
    using assms(1) that by (auto simp: down_ord_def)
  have up: "w ! (h ! (z div 2)) \<le> w ! (h ! y)" if "2 \<le> z"
    using assms(1,3-5) that by (auto simp: down_ord_def)
  show ?thesis
    unfolding down_ord_def
  proof (intro conjI allI impI; elim conjE)
    fix i assume i: "2 \<le> i" "i \<le> n" "i div 2 \<noteq> y"
    have lt: "i div 2 < i" using i by simp
    show "w ! (?h ! (i div 2)) \<le> w ! (?h ! i)"
    proof (cases "i div 2 = z")
      case True
      then show ?thesis using assms(7,8) i z unfolding nth by auto
    next
      case False
      then have "i \<noteq> y" using assms(3) by auto
      then show ?thesis using False a [OF i(1,2)] up i lt z unfolding nth by auto
    qed
  next
    fix i assume i: "2 \<le> i" "i \<le> n" "i div 2 = y" "2 \<le> y"
    then have "y < i" by auto
    then show "w ! (?h ! (y div 2)) \<le> w ! (?h ! i)"
      using a [OF i(1,2)] i(3) z assms(3) unfolding nth by auto
  qed
qed

lemma down_heap_ok:
  assumes "h = heap[z := tmp]" "1 \<le> z" "z < length heap" "z \<le> n \<or> n < 2" "entries_ok w h n" "tmp < length w"
    and "down_ord w h n z"
  shows "runs (down_heap w n tmp z heap) (\<lambda>h'. length h' = length heap \<and> h' ! 0 = heap ! 0 \<and> mset h' = mset h
     \<and> (\<forall>i > n. h' ! i = h ! i) \<and> ordered w h' n)"
  using assms
proof (induction "n - z" arbitrary: z heap h rule: less_induct)
  case less
  have len: "z < length h" "n < length heap" "h ! z = tmp"
    using less.prems(1,3,5) by (auto simp: entries_ok_def)
  show ?case
  proof (cases "2 * z > n")
    case True
    then have "ordered w h n"
      using less.prems(7) unfolding ordered_def down_ord_def by (metis (no_types) div_times_less_eq_dividend le_trans mult.commute not_less)
    then show ?thesis using True len less.prems(1-3) by (subst down_heap.simps) simp
  next
    case False
    then have zn: "z \<le> n" "2 \<le> n" using less.prems(2) by auto
    define y where "y = (if 2 * z < n \<and> w ! (h ! (2 * z + 1)) < w ! (h ! (2 * z)) then 2 * z + 1 else 2 * z)"
    have y: "y div 2 = z" "2 \<le> y" "y \<le> n" "z < y" "y \<noteq> 0" "z \<noteq> 0"
      using False less.prems(2) by (auto simp: y_def)
    have hy: "heap ! i = h ! i" if "z < i" for i using that less.prems(1) by simp
    have ok: "h ! i < length w" if "i \<le> n" for i using that less.prems(5) by (simp add: entries_ok_def)
    have best: "w ! (h ! y) \<le> w ! (h ! i)" if "2 \<le> i" "i \<le> n" "i div 2 = z" for i
    proof -
      have "i = 2 * z \<or> i = 2 * z + 1" using that(3) by presburger
      then show ?thesis using that(2) by (auto simp: y_def)
    qed
    have step: "down_heap w n tmp z heap =
      (if w ! tmp < w ! (h ! y) then aput heap z tmp
       else do { heap \<leftarrow> aput heap z (h ! y); down_heap w n tmp y heap })"
    proof (cases "2 * z < n")
      case True
      then show ?thesis
        using False y hy ok [of "2 * z"] ok [of "2 * z + 1"] len(2) less.prems(6)
        by (subst down_heap.simps) (auto simp: y_def Let_def)
    next
      case False
      then show ?thesis
        using \<open>\<not> 2 * z > n\<close> y hy ok [of "2 * z"] len(2) less.prems(6)
        by (subst down_heap.simps) (auto simp: y_def Let_def)
    qed
    show ?thesis
    proof (cases "w ! tmp < w ! (h ! y)")
      case True
      have "ordered w h n"
        unfolding ordered_def
      proof (intro allI impI; elim conjE)
        fix i assume i: "2 \<le> i" "i \<le> n"
        show "w ! (h ! (i div 2)) \<le> w ! (h ! i)"
        proof (cases "i div 2 = z")
          case True
          then show ?thesis using best [OF i] \<open>w ! tmp < w ! (h ! y)\<close> len(3) by auto
        next
          case False
          then show ?thesis using less.prems(7) i by (simp add: down_ord_def)
        qed
      qed
      then show ?thesis
        unfolding step using True less.prems(1-3) by simp
    next
      case False
      let ?h = "h[z := h ! y, y := h ! z]" and ?heap = "heap[z := h ! y]"
      have "?h = ?heap[y := tmp]" using less.prems(1) y len by (simp add: list_update_swap)
      moreover have "down_ord w ?h n y"
        using down_ord_step [OF less.prems(7,2) y(1-3)] best False len(3) less.prems(5)
        by (simp add: entries_ok_def)
      moreover have "entries_ok w ?h n"
        using entries_ok_swap [OF less.prems(5), of z y] zn y by simp
      moreover have "n - y < n - z" "1 \<le> y" "y < length ?heap" using y zn len by auto
      ultimately have "runs (down_heap w n tmp y ?heap) (\<lambda>h'. length h' = length ?heap \<and> h' ! 0 = ?heap ! 0
          \<and> mset h' = mset ?h \<and> (\<forall>i > n. h' ! i = ?h ! i) \<and> ordered w h' n)"
        using less.hyps [of y ?h ?heap] y less.prems(6) by auto
      moreover have "mset ?h = mset h" using y zn len less.prems(1) by (intro mset_swap) auto
      moreover have "\<forall>i > n. ?h ! i = h ! i" using y zn by auto
      ultimately show ?thesis
        unfolding step using False less.prems(2,3) by (auto elim!: runs_mono)
    qed
  qed
qed

text \<open>The nodes on a heap of \<open>n\<close> entries.\<close>

definition nodes :: "nat list \<Rightarrow> nat \<Rightarrow> nat list" where
  "nodes h n = map ((!) h) [1..<Suc n]"

lemma set_nodes: "set (nodes h n) = {h ! i | i. 1 \<le> i \<and> i \<le> n}"
  by (auto simp: nodes_def)

lemma mset_nodes:
  assumes "length h' = length h" "h' ! 0 = h ! 0" "mset h' = mset h" "\<forall>i > n. h' ! i = h ! i" "n < length h"
  shows "mset (nodes h' n) = mset (nodes h n)"
proof -
  have split: "mset g = add_mset (g ! 0) (mset (nodes g n)) + mset (drop (Suc n) g)" if "n < length g" for g :: "nat list"
  proof -
    have "take (Suc n) g = map ((!) g) [0..<Suc n]"
      using that by (intro nth_equalityI) (auto simp del: upt_Suc)
    then have "take (Suc n) g = g ! 0 # nodes g n"
      unfolding nodes_def by (simp add: upt_conv_Cons del: upt_Suc)
    then show ?thesis by (metis append_take_drop_id mset_append mset.simps(2))
  qed
  have "drop (Suc n) h' = drop (Suc n) h"
    using assms(1,4) by (intro nth_equalityI) auto
  then show ?thesis
    using split [of h] split [of h'] assms by auto
qed

lemma entries_ok_nodes:
  "entries_ok w h n \<longleftrightarrow> n < length h \<and> h ! 0 < length w \<and> 0 \<le> w ! (h ! 0)
     \<and> (\<forall>x \<in> set (nodes h n). x < length w \<and> 0 \<le> w ! x)"
proof -
  have "(\<forall>i \<le> n. P (h ! i)) \<longleftrightarrow> P (h ! 0) \<and> (\<forall>x \<in> set (nodes h n). P x)" for P
    unfolding set_nodes by (auto simp: less_eq_Suc_le) (metis Suc_leI gr0I)
  from this [of "\<lambda>x. x < length w \<and> 0 \<le> w ! x"] show ?thesis by (auto simp: entries_ok_def)
qed

lemma root_least:
  assumes "ordered w h n" "1 \<le> i" "i \<le> n"
  shows "w ! (h ! 1) \<le> w ! (h ! i)"
  using assms(2,3)
proof (induction i rule: less_induct)
  case (less i)
  show ?case
  proof (cases "i = 1")
    case False
    then have i: "2 \<le> i" "i div 2 < i" "1 \<le> i div 2" "i div 2 \<le> n" using less.prems by auto
    have "w ! (h ! (i div 2)) \<le> w ! (h ! i)" using assms(1) i less.prems by (simp add: ordered_def)
    then show ?thesis using less.IH [OF i(2,3,4)] by linarith
  qed simp
qed

lemma pop_heap_ok:
  assumes "entries_ok w h n" "1 \<le> n" "ordered w h n" "h ! 0 = 0"
  shows "runs (pop_heap w n h) (\<lambda>(x, h'). length h' = length h \<and> h' ! 0 = 0 \<and> ordered w h' (n - 1)
     \<and> mset (nodes h n) = add_mset x (mset (nodes h' (n - 1))) \<and> (\<forall>y \<in> set (nodes h n). w ! x \<le> w ! y))"
proof -
  let ?g = "h[1 := h ! n]"
  have len: "n < length h" "1 < length h" using assms(1,2) by (auto simp: entries_ok_def)
  have g: "?g ! i = (if i = 1 then h ! n else h ! i)" for i using len by (simp add: nth_list_update)
  have "entries_ok w ?g (n - 1)"
    using assms(1,2) len unfolding entries_ok_def g by auto
  moreover have "down_ord w ?g (n - 1) 1"
    using assms(3) unfolding down_ord_def ordered_def g by auto
  moreover have "h ! n < length w" using assms(1) by (simp add: entries_ok_def)
  ultimately have run: "runs (down_heap w (n - 1) (h ! n) 1 ?g) (\<lambda>h'. length h' = length ?g \<and> h' ! 0 = ?g ! 0
      \<and> mset h' = mset ?g \<and> (\<forall>i > n - 1. h' ! i = ?g ! i) \<and> ordered w h' (n - 1))"
    using len assms(2) by (intro down_heap_ok) auto
  have nodes_g: "mset (nodes h n) = add_mset (h ! 1) (mset (nodes ?g (n - 1)))"
  proof (cases "n = 1")
    case False
    then have n: "2 \<le> n" using assms(2) by simp
    have u: "[1..<j] = 1 # [2..<j]" if "2 \<le> j" for j :: nat
      using that upt_conv_Cons [of 1 j] by (simp add: numeral_2_eq_2)
    have "nodes h n = h ! 1 # map ((!) h) [2..<n] @ [h ! n]"
      using u [of "Suc n"] n unfolding nodes_def by simp
    moreover have "nodes ?g (n - 1) = h ! n # map ((!) ?g) [2..<n]"
      using u [of n] n len unfolding nodes_def by simp
    moreover have "map ((!) ?g) [2..<n] = map ((!) h) [2..<n]" by (intro map_cong) auto
    ultimately obtain M where "nodes h n = h ! 1 # M @ [h ! n]" "nodes ?g (n - 1) = h ! n # M" by metis
    then show ?thesis by (simp only: mset.simps mset_append) simp
  qed (simp add: nodes_def)
  have least: "\<forall>y \<in> set (nodes h n). w ! (h ! 1) \<le> w ! y"
    using root_least [OF assms(3)] by (auto simp: set_nodes)
  have "mset (nodes h n) = add_mset (h ! 1) (mset (nodes h' (n - 1)))"
    if "length h' = length ?g" "h' ! 0 = ?g ! 0" "mset h' = mset ?g" "\<forall>i > n - 1. h' ! i = ?g ! i" for h'
    using mset_nodes [OF that] len nodes_g by simp
  then show ?thesis
    using run len least assms(4) unfolding pop_heap_def DOWNHEAP_def
    by (auto simp: g elim!: runs_mono)
qed

section \<open>The trees\<close>

text \<open>The tree below a node, which the array \<open>parent\<close> represents.\<close>

datatype htree = HLeaf nat | HNode nat htree htree

fun label :: "htree \<Rightarrow> nat" where
  "label (HLeaf i) = i"
| "label (HNode n l r) = n"

fun leaves :: "htree \<Rightarrow> nat list" where
  "leaves (HLeaf i) = [i]"
| "leaves (HNode n l r) = leaves l @ leaves r"

fun edges :: "htree \<Rightarrow> (nat \<times> nat) set" where
  "edges (HLeaf i) = {}"
| "edges (HNode n l r) = {(label l, n), (label r, n)} \<union> edges l \<union> edges r"

fun height :: "htree \<Rightarrow> nat" where
  "height (HLeaf i) = 0"
| "height (HNode n l r) = 1 + max (height l) (height r)"

fun depths :: "htree \<Rightarrow> nat \<Rightarrow> (nat \<times> nat) list" where
  "depths (HLeaf i) k = [(i, k)]"
| "depths (HNode n l r) k = depths l (Suc k) @ depths r (Suc k)"

text \<open>The total weight of the leaves.\<close>

definition tw :: "(nat \<Rightarrow> int) \<Rightarrow> htree \<Rightarrow> int" where
  "tw f t = (\<Sum>i\<leftarrow>leaves t. f i)"

lemma tw_simps [simp]: "tw f (HLeaf i) = f i" "tw f (HNode n l r) = tw f l + tw f r"
  by (simp_all add: tw_def)

lemma depths_leaves: "map fst (depths t k) = leaves t"
  by (induction t arbitrary: k) auto

lemma depths_range: "(i, d) \<in> set (depths t k) \<Longrightarrow> k \<le> d \<and> d \<le> k + height t"
  by (induction t arbitrary: k) force+

lemma depths_nonempty: "depths t k \<noteq> []"
  by (induction t arbitrary: k) auto

lemma depths_kraft:
  "\<forall>(i, d) \<in> set (depths t k). d \<le> M \<Longrightarrow> (\<Sum>(i, d)\<leftarrow>depths t k. 2 ^ (M - d)) = (2 :: nat) ^ (M - k)"
proof (induction t arbitrary: k)
  case (HNode n l r)
  obtain i d where "(i, d) \<in> set (depths l (Suc k))"
    using depths_nonempty [of l "Suc k"] by (metis list.set_intros(1) list.exhaust surj_pair)
  then have "Suc k \<le> d" "d \<le> M" using HNode.prems depths_range [of i d l "Suc k"] by auto
  then have "Suc k \<le> M" by simp
  then have "(2 :: nat) ^ (M - k) = 2 * 2 ^ (M - Suc k)" by (metis Suc_diff_le diff_Suc_Suc power_Suc)
  then show ?case using HNode by simp
qed simp

definition in_parent :: "int list \<Rightarrow> htree \<Rightarrow> bool" where
  "in_parent parent t \<longleftrightarrow> (\<forall>(k, p) \<in> edges t. k < length parent \<and> parent ! k = int p)"

lemma in_parent_simps [simp]:
  "in_parent parent (HLeaf i)"
  "in_parent parent (HNode n l r) \<longleftrightarrow> label l < length parent \<and> parent ! label l = int n
     \<and> label r < length parent \<and> parent ! label r = int n \<and> in_parent parent l \<and> in_parent parent r"
  by (auto simp: in_parent_def)

lemma node_depth_tree:
  "in_parent parent t \<Longrightarrow> (i, d) \<in> set (depths t k) \<Longrightarrow>
     node_depth parent i j = node_depth parent (label t) (j + (d - k))"
proof (induction t arbitrary: k)
  case (HNode n l r)
  have step: "node_depth parent (label c) x = node_depth parent n (x + 1)" if "c = l \<or> c = r" for c x
    using that HNode.prems(1) by (subst node_depth.simps) auto
  obtain c where c: "c = l \<or> c = r" "(i, d) \<in> set (depths c (Suc k))" using HNode.prems(2) by auto
  then have "node_depth parent i j = node_depth parent (label c) (j + (d - Suc k))"
    using HNode by auto
  also have "\<dots> = node_depth parent n (j + (d - Suc k) + 1)" by (rule step [OF c(1)])
  also have "j + (d - Suc k) + 1 = j + (d - k)" using depths_range [OF c(2)] by linarith
  finally show ?case by simp
qed simp

section \<open>The weights\<close>

lemma weightof_eq:
  assumes "0 \<le> h" "h < 256" "0 \<le> x" "256 * x + h < 2 ^ 32"
  shows "WEIGHTOF (256 * x + h) = 256 * x" "DEPTHOF (256 * x + h) = h"
proof -
  have "(0xffffff00 :: int) = push_bit 8 (mask 24)" "(0xff :: int) = mask 8"
    by (simp_all add: push_bit_eq_mult mask_eq_exp_minus_1)
  moreover have "y AND push_bit 8 (mask 24) = push_bit 8 (take_bit 24 (drop_bit 8 y))" for y :: int
    by (rule bit_eqI) (auto simp: bit_simps)
  moreover have "drop_bit 8 (256 * x + h) = x" "take_bit 8 (256 * x + h) = h" "take_bit 24 x = x"
    using assms by (simp_all add: drop_bit_eq_div take_bit_eq_mod)
  moreover have "y AND 0xff = take_bit 8 y" for y :: int
    by (simp add: take_bit_eq_mask mask_eq_exp_minus_1)
  ultimately show "WEIGHTOF (256 * x + h) = 256 * x" "DEPTHOF (256 * x + h) = h"
    by (simp_all add: WEIGHTOF_def DEPTHOF_def push_bit_eq_mult)
qed

lemma ADDWEIGHTS_eq:
  assumes "0 \<le> x" "0 \<le> y" "x + y < 2 ^ 23" "0 \<le> h" "h < 255" "0 \<le> k" "k < 255"
  shows "ADDWEIGHTS (256 * x + h) (256 * y + k) = 256 * (x + y) + (1 + max h k)"
proof -
  let ?m = "1 + max h k"
  have m: "0 \<le> ?m" "?m < 256" using assms by auto
  then have "?m = take_bit 8 ?m" by (simp add: take_bit_eq_mod)
  then have "bit ?m n \<Longrightarrow> n < 8" for n by (metis bit_take_bit_iff)
  then have "push_bit 8 (x + y) + ?m = push_bit 8 (x + y) OR ?m"
    by (intro disjunctive_add) (fastforce simp: bit_push_bit_iff)
  moreover have "WEIGHTOF (256 * x + h) = 256 * x" "DEPTHOF (256 * x + h) = h"
    by (rule weightof_eq; use assms in simp)+
  moreover have "WEIGHTOF (256 * y + k) = 256 * y" "DEPTHOF (256 * y + k) = k"
    by (rule weightof_eq; use assms in simp)+
  ultimately show ?thesis
    by (simp only: ADDWEIGHTS_def push_bit_eq_mult distrib_left) (simp add: mult.commute)
qed

fun fib :: "nat \<Rightarrow> int" where
  "fib 0 = 0"
| "fib (Suc 0) = 1"
| "fib (Suc (Suc n)) = fib (Suc n) + fib n"

lemma fib_pos: "0 \<le> fib n" "0 < n \<Longrightarrow> 1 \<le> fib n"
  by (induction n rule: fib.induct) (auto simp: le_less)

lemma fib_mono: "m \<le> n \<Longrightarrow> fib m \<le> fib n"
proof (induction n)
  case (Suc n)
  have "fib n \<le> fib (Suc n)" by (cases n) (use fib_pos in auto)
  with Suc show ?case by (cases "m = Suc n") auto
qed simp

text \<open>
  No child that was joined so far is heavier than \<open>m\<close>; and a tree is at least as heavy as
  the Fibonacci number of its height.
\<close>

fun grown :: "(nat \<Rightarrow> int) \<Rightarrow> int \<Rightarrow> htree \<Rightarrow> bool" where
  "grown f m (HLeaf i) \<longleftrightarrow> 1 \<le> f i"
| "grown f m (HNode n l r) \<longleftrightarrow> grown f m l \<and> grown f m r \<and> tw f l \<le> m \<and> tw f r \<le> m
     \<and> fib (height (HNode n l r) + 2) \<le> tw f l + tw f r"

lemma grown_fib: "grown f m t \<Longrightarrow> fib (height t + 2) \<le> tw f t"
  by (cases t) auto

lemma grown_mono: "grown f m t \<Longrightarrow> m \<le> m' \<Longrightarrow> grown f m' t"
  by (induction t) auto

lemma grown_child: "grown f m t \<Longrightarrow> height t = Suc h \<Longrightarrow> fib (h + 2) \<le> m"
proof (cases t)
  case (HNode n l r)
  assume t: "grown f m t" "height t = Suc h"
  then have "height l = h \<or> height r = h" using HNode by auto
  then show ?thesis using t HNode grown_fib [of f m l] grown_fib [of f m r] by auto
qed simp

lemma grown_join:
  assumes "grown f m l" "grown f m r" "m \<le> tw f l" "m \<le> tw f r" "tw f l \<le> m'" "tw f r \<le> m'"
  shows "grown f m' (HNode n l r)"
proof -
  have main: "fib (height c + 3) \<le> tw f c + tw f d"
    if "grown f m c" "grown f m d" "m \<le> tw f c" "m \<le> tw f d" for c d
  proof (cases "height c")
    case 0
    have "1 \<le> tw f c" "1 \<le> tw f d"
      using grown_fib [OF that(1)] grown_fib [OF that(2)] fib_pos(2) [of "height c + 2"] fib_pos(2) [of "height d + 2"]
      by auto
    then show ?thesis using 0 by (simp add: numeral_eq_Suc)
  next
    case (Suc h)
    have "fib (h + 2) \<le> tw f d" using grown_child [OF that(1) Suc] that(4) by simp
    moreover have "fib (Suc h + 2) \<le> tw f c" using grown_fib [OF that(1)] Suc by simp
    ultimately show ?thesis using Suc by (simp add: numeral_eq_Suc)
  qed
  have "height (HNode n l r) + 2 = height l + 3 \<or> height (HNode n l r) + 2 = height r + 3"
    by (auto simp: max_def)
  then have "fib (height (HNode n l r) + 2) \<le> tw f l + tw f r"
    using main [OF assms(1-4)] main [OF assms(2,1,4,3)] by (metis add.commute)
  moreover have "m \<le> m'" using assms by simp
  ultimately show ?thesis
    using assms grown_mono [of f m _ m'] by (simp only: grown.simps)
qed

lemma fib_power: "2 ^ k \<le> fib (2 * k + 1)"
proof (induction k)
  case (Suc k)
  have "fib (2 * k + 1) \<le> fib (2 * k + 2)" by (rule fib_mono) simp
  with Suc show ?case by simp
qed simp

lemma height_bound: "grown f m t \<Longrightarrow> tw f t < 2 ^ 23 \<Longrightarrow> height t < 45"
proof (rule ccontr)
  assume t: "grown f m t" "tw f t < 2 ^ 23" "\<not> height t < 45"
  have "fib 47 \<le> fib (height t + 2)" using t by (intro fib_mono) simp
  then show False using grown_fib [OF t(1)] t(2) fib_power [of 23] by simp
qed

section \<open>Joining the nodes\<close>

definition forest ::
    "(nat \<Rightarrow> int) \<Rightarrow> nat \<Rightarrow> int \<Rightarrow> htree multiset \<Rightarrow> int \<Rightarrow> nat \<Rightarrow> nat \<Rightarrow> nat list \<Rightarrow> int list \<Rightarrow> int list \<Rightarrow> bool" where
  "forest f a S T m n N heap w parent \<longleftrightarrow>
     n < length heap \<and> length w = 516 \<and> length parent = 516 \<and> heap ! 0 = 0 \<and> w ! 0 = 0
     \<and> ordered w heap n \<and> mset (nodes heap n) = image_mset label T \<and> distinct (nodes heap n)
     \<and> (\<forall>t \<in># T. 1 \<le> label t \<and> label t \<le> N \<and> in_parent parent t \<and> parent ! label t = - 1
          \<and> w ! label t = 256 * tw f t + int (height t) \<and> grown f m t \<and> m \<le> tw f t
          \<and> (\<forall>(k, p) \<in> edges t. k \<le> N))
     \<and> (\<Sum>t\<in>#T. tw f t) = S \<and> (\<Sum>t\<in>#T. mset (leaves t)) = mset [1..<Suc a]"

lemma tw_pos: "grown f m t \<Longrightarrow> 1 \<le> tw f t"
  using grown_fib [of f m t] fib_pos(2) [of "height t + 2"] by simp

lemma forest_tw_le:
  assumes "forest f a S T m n N heap w parent" "t \<in># T"
  shows "tw f t \<le> S"
proof -
  obtain T' where T: "T = add_mset t T'" using assms(2) by (metis insert_DiffM)
  have "0 \<le> (\<Sum>t\<in>#T'. tw f t)"
  proof -
    have "\<forall>t \<in># T'. 0 \<le> tw f t" using assms(1) T tw_pos by (fastforce simp: forest_def)
    then show ?thesis by (induction T') auto
  qed
  then show ?thesis using assms(1) T by (simp add: forest_def)
qed

lemma forest_entries:
  assumes "forest f a S T m n N heap w parent" "N < 516"
  shows "entries_ok w heap n"
proof -
  have "x < 516 \<and> 0 \<le> w ! x" if x: "x \<in> set (nodes heap n)" for x
  proof -
    have "set (nodes heap n) = label ` set_mset T"
      using assms(1) unfolding forest_def by (metis set_image_mset set_mset_mset)
    then obtain t where "t \<in># T" "x = label t" using x by auto
    then show ?thesis using assms tw_pos [of f m t] by (auto simp: forest_def)
  qed
  then show ?thesis
    unfolding entries_ok_nodes using assms(1) by (auto simp: forest_def)
qed

text \<open>Two pops take the roots of two trees, and no root that is left is lighter.\<close>

lemma pop_two:
  assumes "forest f a S T m n N heap w parent" "N < 516" "2 \<le> n"
  obtains l r T' h1 h2 where "T = add_mset l (add_mset r T')"
    "pop_heap w n heap = Some (label l, h1)" "pop_heap w (n - 1) h1 = Some (label r, h2)"
    "length h2 = length heap" "h2 ! 0 = 0" "ordered w h2 (n - 2)"
    "mset (nodes h2 (n - 2)) = image_mset label T'" "label l \<noteq> label r"
    "distinct (nodes h2 (n - 2))" "label l \<notin> set (nodes h2 (n - 2))" "label r \<notin> set (nodes h2 (n - 2))"
    "\<forall>t \<in># add_mset r T'. w ! label l \<le> w ! label t" "\<forall>t \<in># T'. w ! label r \<le> w ! label t"
    "entries_ok w h2 (n - 2)"
proof -
  note fo = assms(1) [unfolded forest_def]
  have e0: "entries_ok w heap n" by (rule forest_entries [OF assms(1,2)])
  obtain x h1 where x: "pop_heap w n heap = Some (x, h1)" "length h1 = length heap" "h1 ! 0 = 0"
      "ordered w h1 (n - 1)" "mset (nodes heap n) = add_mset x (mset (nodes h1 (n - 1)))"
      "\<forall>y \<in> set (nodes heap n). w ! x \<le> w ! y"
    using pop_heap_ok [OF e0] assms(3) fo by (auto simp: runs_iff_Some)
  have "set (nodes h1 (n - 1)) \<subseteq> set (nodes heap n)"
    using x(5) by (metis set_mset_mset set_mset_add_mset_insert subset_insertI)
  then have e1: "entries_ok w h1 (n - 1)"
    using e0 x fo unfolding entries_ok_nodes by auto
  have n1: "1 \<le> n - 1" "n - 1 - 1 = n - 2" using assms(3) by simp_all
  obtain y h2 where y: "pop_heap w (n - 1) h1 = Some (y, h2)" "length h2 = length heap" "h2 ! 0 = 0"
      "ordered w h2 (n - 2)" "mset (nodes h1 (n - 1)) = add_mset y (mset (nodes h2 (n - 2)))"
      "\<forall>z \<in> set (nodes h1 (n - 1)). w ! y \<le> w ! z"
    using pop_heap_ok [OF e1 n1(1) x(4,3), unfolded n1(2)] x(2) by (auto simp: runs_iff_Some)
  have "set (nodes h2 (n - 2)) \<subseteq> set (nodes h1 (n - 1))"
    using y(5) by (metis set_mset_mset set_mset_add_mset_insert subset_insertI)
  then have e2: "entries_ok w h2 (n - 2)"
    using e1 y x unfolding entries_ok_nodes by auto
  have "image_mset label T = add_mset x (add_mset y (mset (nodes h2 (n - 2))))"
    using fo x(5) y(5) by simp
  then obtain l T1 where l: "T = add_mset l T1" "label l = x"
      "image_mset label T1 = add_mset y (mset (nodes h2 (n - 2)))"
    by (metis msed_map_invR)
  then obtain r T' where r: "T1 = add_mset r T'" "label r = y" "image_mset label T' = mset (nodes h2 (n - 2))"
    by (metis msed_map_invR)
  have "mset (nodes heap n) = mset (x # y # nodes h2 (n - 2))" using x(5) y(5) by simp
  then have dist: "distinct (x # y # nodes h2 (n - 2))" using fo by (metis mset_eq_imp_distinct_iff)
  have in1: "label t \<in> set (nodes h2 (n - 2))" if "t \<in># T'" for t
    using that r(3) by (metis image_eqI set_image_mset set_mset_mset)
  have "set (nodes h1 (n - 1)) = insert y (set (nodes h2 (n - 2)))"
    using y(5) by (metis set_mset_mset set_mset_add_mset_insert)
  moreover have "set (nodes heap n) = insert x (set (nodes h1 (n - 1)))"
    using x(5) by (metis set_mset_mset set_mset_add_mset_insert)
  ultimately have "\<forall>t \<in># add_mset r T'. w ! label l \<le> w ! label t" "\<forall>t \<in># T'. w ! label r \<le> w ! label t"
    using x(6) y(6) in1 r(2) l(2) by auto
  with that [of l r T' h1 h2] show thesis using l r x y dist e2 by auto
qed

lemma weight_order:
  assumes "256 * x + int h \<le> 256 * y + int k" "k < 256"
  shows "x \<le> y"
proof (rule ccontr)
  assume "\<not> x \<le> y"
  then have "256 * (y + 1) \<le> 256 * x" by simp
  moreover have "int k < 256" "0 \<le> int h" using assms(2) by simp_all
  ultimately show False using assms(1) unfolding distrib_left by linarith
qed

lemma nodes_update [simp]: "n < i \<Longrightarrow> nodes (h[i := x]) n = nodes h n"
  by (auto simp: nodes_def)

lemma nodes_Suc: "nodes h (Suc n) = nodes h n @ [h ! Suc n]"
  by (simp add: nodes_def)

lemma in_parent_update:
  "in_parent parent t \<Longrightarrow> (\<And>p. (i, p) \<notin> edges t) \<Longrightarrow> in_parent (parent[i := v]) t"
  unfolding in_parent_def
proof
  fix e assume *: "\<forall>(k, p) \<in> edges t. k < length parent \<and> parent ! k = int p" "\<And>p. (i, p) \<notin> edges t"
    and e: "e \<in> edges t"
  obtain k p where [simp]: "e = (k, p)" by fastforce
  have "k \<noteq> i" using *(2) e by auto
  then show "case e of (k, p) \<Rightarrow> k < length (parent[i := v]) \<and> parent[i := v] ! k = int p"
    using *(1) e by auto
qed

lemma in_parent_root: "in_parent parent t \<Longrightarrow> parent ! i = - 1 \<Longrightarrow> (i, p) \<notin> edges t"
  by (auto simp: in_parent_def)

lemma push_ok:
  assumes "entries_ok w h k" "ordered w h k" "h ! 0 = 0" "w ! 0 = 0" "Suc k < length h"
    and "x \<notin> set (nodes h k)" "0 < x" "x < length w" "0 \<le> v"
  shows "runs (UPHEAP (w[x := v]) (Suc k) (h[Suc k := x])) (\<lambda>h'. length h' = length h \<and> h' ! 0 = 0
     \<and> ordered (w[x := v]) h' (Suc k) \<and> mset (nodes h' (Suc k)) = add_mset x (mset (nodes h k)))"
proof -
  let ?h = "h[Suc k := x]" and ?w = "w[x := v]"
  have nodes: "nodes ?h (Suc k) = nodes h k @ [x]" using assms(5) by (simp add: nodes_Suc)
  have ne: "h ! i \<noteq> x" if "i \<le> k" for i
    using assms(3,6,7) that by (cases i) (auto simp: set_nodes)
  have "entries_ok ?w ?h (Suc k)"
    using assms ne unfolding entries_ok_nodes nodes by (auto simp: nth_list_update)
  moreover have "ordered ?w ?h k"
    unfolding ordered_def
  proof (intro allI impI; elim conjE)
    fix i assume i: "2 \<le> i" "i \<le> k"
    then have "i div 2 \<le> k" by simp
    then show "?w ! (?h ! (i div 2)) \<le> ?w ! (?h ! i)"
      using assms(2) i ne [of i] ne [of "i div 2"] by (simp add: ordered_def nth_list_update)
  qed
  ultimately have "runs (UPHEAP ?w (Suc k) ?h) (\<lambda>h'. length h' = length ?h \<and> h' ! 0 = 0
      \<and> mset h' = mset ?h \<and> (\<forall>i > Suc k. h' ! i = ?h ! i) \<and> ordered ?w h' (Suc k))"
    using assms by (intro UPHEAP_ok) auto
  then show ?thesis
  proof (rule runs_mono)
    fix h' assume h': "length h' = length ?h \<and> h' ! 0 = 0 \<and> mset h' = mset ?h
        \<and> (\<forall>i > Suc k. h' ! i = ?h ! i) \<and> ordered ?w h' (Suc k)"
    then have "mset (nodes h' (Suc k)) = mset (nodes ?h (Suc k))"
      using assms(3,5) by (intro mset_nodes) auto
    then show "length h' = length h \<and> h' ! 0 = 0 \<and> ordered ?w h' (Suc k)
        \<and> mset (nodes h' (Suc k)) = add_mset x (mset (nodes h k))"
      using h' nodes by simp
  qed
qed

lemma join_step:
  assumes "forest f a S T m n N heap w parent" "2 \<le> n" "N + n = 2 * a" "a \<le> 258" "S < 2 ^ 23"
  shows "\<exists>x y h1 h2 h' w' parent' T' m'.
     pop_heap w n heap = Some (x, h1) \<and> pop_heap w (n - 1) h1 = Some (y, h2)
     \<and> x < 516 \<and> y < 516 \<and> N + 1 < 516 \<and> n - 1 < length h2
     \<and> parent' = (parent[y := int (N + 1)])[x := int (N + 1), N + 1 := - 1]
     \<and> w' = w[N + 1 := ADDWEIGHTS (w ! x) (w ! y)]
     \<and> UPHEAP w' (n - 1) (h2[n - 1 := N + 1]) = Some h'
     \<and> forest f a S T' m' (n - 1) (N + 1) h' w' parent'"
proof -
  note fo = assms(1) [unfolded forest_def]
  have N: "N < 515" using assms(2-4) by simp
  then have "N < 516" by simp
  from pop_two [OF assms(1) this assms(2)] obtain l r T' h1 h2 where
    T: "T = add_mset l (add_mset r T')" and
    pops: "pop_heap w n heap = Some (label l, h1)" "pop_heap w (n - 1) h1 = Some (label r, h2)" and
    h2: "length h2 = length heap" "h2 ! 0 = 0" "ordered w h2 (n - 2)" and
    nodes: "mset (nodes h2 (n - 2)) = image_mset label T'" "label l \<noteq> label r" "distinct (nodes h2 (n - 2))"
      "label l \<notin> set (nodes h2 (n - 2))" "label r \<notin> set (nodes h2 (n - 2))" and
    least: "\<forall>t \<in># add_mset r T'. w ! label l \<le> w ! label t" "\<forall>t \<in># T'. w ! label r \<le> w ! label t" and
    ok: "entries_ok w h2 (n - 2)" by metis
  obtain k where k: "n = Suc (Suc k)" using assms(2) by (metis add_2_eq_Suc le_Suc_ex)
  let ?new = "HNode (Suc N) l r" and ?v = "256 * (tw f l + tw f r) + (1 + max (int (height l)) (int (height r)))"
  have tree: "1 \<le> label t \<and> label t \<le> N \<and> in_parent parent t \<and> parent ! label t = - 1
      \<and> w ! label t = 256 * tw f t + int (height t) \<and> grown f m t \<and> m \<le> tw f t
      \<and> (\<forall>(k, p) \<in> edges t. k \<le> N) \<and> height t < 45 \<and> 1 \<le> tw f t" if "t \<in># T" for t
    using fo that forest_tw_le [OF assms(1) that] height_bound [of f m t] tw_pos [of f m t] assms(5) by auto
  note l = tree [of l] and r = tree [of r]
  have lr: "l \<in># T" "r \<in># T" using T by auto
  have "0 \<le> (\<Sum>t\<in>#T'. tw f t)"
  proof -
    have "\<forall>t \<in># T'. 0 \<le> tw f t" using tree T by fastforce
    then show ?thesis by (induction T') auto
  qed
  then have sum: "tw f l + tw f r \<le> S" using fo T by simp
  have add: "ADDWEIGHTS (w ! label l) (w ! label r) = ?v"
    using l r lr sum assms(5) by (simp add: ADDWEIGHTS_eq)
  have new_in: "Suc N \<notin> set (nodes h2 k)"
  proof -
    have "set (nodes h2 k) = label ` set_mset T'"
      using nodes(1) k by (metis set_image_mset set_mset_mset diff_Suc_Suc diff_zero numeral_2_eq_2)
    then show ?thesis using tree T by fastforce
  qed
  have "Suc k < length h2" using h2(1) fo k by simp
  then have "runs (UPHEAP (w[Suc N := ?v]) (Suc k) (h2[Suc k := Suc N])) (\<lambda>h'. length h' = length h2
      \<and> h' ! 0 = 0 \<and> ordered (w[Suc N := ?v]) h' (Suc k)
      \<and> mset (nodes h' (Suc k)) = add_mset (Suc N) (mset (nodes h2 k)))"
    using ok h2 k fo N new_in l r lr by (intro push_ok) (auto simp: numeral_2_eq_2)
  then obtain h' where h': "UPHEAP (w[Suc N := ?v]) (Suc k) (h2[Suc k := Suc N]) = Some h'"
      "length h' = length h2" "h' ! 0 = 0" "ordered (w[Suc N := ?v]) h' (Suc k)"
      "mset (nodes h' (Suc k)) = add_mset (Suc N) (mset (nodes h2 k))"
    by (auto simp: runs_iff_Some)
  let ?parent = "(parent[label r := int (N + 1)])[label l := int (N + 1), N + 1 := - 1]"
  have fresh: "(Suc N, p) \<notin> edges t" if "t \<in># T" for t p using tree [OF that] by auto
  have in_par: "in_parent ?parent t" if "t \<in># T" for t
    using tree [OF that] tree [OF lr(1)] tree [OF lr(2)] fresh [OF that] in_parent_root [of parent t]
    by (auto intro!: in_parent_update)
  have le: "tw f s \<le> tw f t" if "s \<in># T" "t \<in># T" "w ! label s \<le> w ! label t" for s t
    using tree [OF that(1)] tree [OF that(2)] that(3)
      weight_order [of "tw f s" "height s" "tw f t" "height t"] by simp
  have order: "tw f l \<le> tw f r" "\<forall>t \<in># T'. tw f r \<le> tw f t"
    using le least T by auto
  have len: "length w = 516" "length parent = 516" using fo by simp_all
  have new_ok: "in_parent ?parent ?new" "?parent ! Suc N = - 1" "w[Suc N := ?v] ! Suc N = 256 * tw f ?new + int (height ?new)"
      "grown f (tw f r) ?new" "tw f r \<le> tw f ?new" "\<forall>(k, p) \<in> edges ?new. k \<le> Suc N"
  proof -
    show "in_parent ?parent ?new"
      using l r lr in_par N len nodes(2) by (simp add: nth_list_update)
    show "?parent ! Suc N = - 1" using N len by simp
    show "w[Suc N := ?v] ! Suc N = 256 * tw f ?new + int (height ?new)"
      using N len by (simp add: of_nat_max)
    show "grown f (tw f r) ?new" using l r lr order by (intro grown_join [of f m]) auto
    show "tw f r \<le> tw f ?new" using l lr by simp
    show "\<forall>(k, p) \<in> edges ?new. k \<le> Suc N" using l r lr by auto
  qed
  have old_ok: "1 \<le> label t \<and> label t \<le> Suc N \<and> in_parent ?parent t \<and> ?parent ! label t = - 1
      \<and> w[Suc N := ?v] ! label t = 256 * tw f t + int (height t) \<and> grown f (tw f r) t \<and> tw f r \<le> tw f t
      \<and> (\<forall>(k, p) \<in> edges t. k \<le> Suc N)" if t: "t \<in># T'" for t
  proof -
    have T't: "t \<in># T" using t T by simp
    have "label t \<in> set (nodes h2 (n - 2))"
      using t nodes(1) by (metis image_eqI set_image_mset set_mset_mset)
    then have ne: "label t \<noteq> label l" "label t \<noteq> label r" "label t \<noteq> Suc N"
      using nodes(4,5) tree [OF T't] by auto
    have "grown f (tw f r) t" using tree [OF T't] r lr grown_mono by blast
    then show ?thesis using tree [OF T't] in_par [OF T't] order(2) t ne by fastforce
  qed
  have "distinct (nodes h' (Suc k))"
  proof -
    have "mset (nodes h' (Suc k)) = mset (Suc N # nodes h2 k)" using h'(5) by simp
    then show ?thesis using nodes(3) new_in k by (metis distinct.simps(2) mset_eq_imp_distinct_iff diff_Suc_Suc diff_zero numeral_2_eq_2)
  qed
  moreover have "mset (nodes h' (Suc k)) = image_mset label (add_mset ?new T')"
    using h'(5) nodes(1) k by (simp add: numeral_2_eq_2)
  moreover have "Suc k < length h'" using h'(2) \<open>Suc k < length h2\<close> by simp
  ultimately have "forest f a S (add_mset ?new T') (tw f r) (Suc k) (Suc N) h' (w[Suc N := ?v]) ?parent"
    unfolding forest_def using fo len h'(3,4) new_ok old_ok T
    by (simp add: add.assoc union_assoc)
  moreover have "label l < 516" "label r < 516" "N + 1 < 516" using l r lr N by auto
  moreover have "n - 1 = Suc k" "Suc N = N + 1" using k by simp_all
  ultimately show ?thesis
    using pops h'(1) add \<open>Suc k < length h2\<close> by metis
qed

text \<open>The tree the loop ends with.\<close>

definition code_tree :: "(nat \<Rightarrow> int) \<Rightarrow> nat \<Rightarrow> int \<Rightarrow> htree \<Rightarrow> int list \<Rightarrow> bool" where
  "code_tree f a S t parent \<longleftrightarrow> length parent = 516 \<and> label t < 516 \<and> in_parent parent t
     \<and> parent ! label t = - 1 \<and> mset (leaves t) = mset [1..<Suc a] \<and> tw f t = S \<and> (\<exists>m. grown f m t)"

lemma join_nodes_ok:
  assumes "forest f a S T m n N heap w parent" "1 \<le> n" "N + n = 2 * a" "a \<le> 258" "S < 2 ^ 23" "n \<le> a"
  shows "runs (join_nodes n N heap w parent) (\<lambda>(N', w', parent'). N' = 2 * a - 1 \<and> length w' = 516
     \<and> (\<forall>i \<le> a. w' ! i = w ! i) \<and> (\<exists>t. code_tree f a S t parent'))"
  using assms
proof (induction n arbitrary: N heap w parent T m)
  case (Suc n)
  show ?case
  proof (cases "n = 0")
    case True
    have "size T = size (mset (nodes heap (Suc n)))"
      using Suc.prems(1) by (metis forest_def size_image_mset)
    then have "size T = 1" using True by (simp add: nodes_def)
    then obtain t where "T = {#t#}" by (metis size_1_singleton_mset)
    then have "code_tree f a S t parent"
      using Suc.prems True by (auto simp: forest_def code_tree_def)
    moreover have "length w = 516" using Suc.prems(1) by (simp add: forest_def)
    ultimately show ?thesis
      using True Suc.prems(3) by (subst join_nodes.simps) auto
  next
    case False
    then have "2 \<le> Suc n" by simp
    from join_step [OF Suc.prems(1) this Suc.prems(3-5)] obtain x y h1 h2 h' w' parent' T' m' where
      j: "pop_heap w (Suc n) heap = Some (x, h1)" "pop_heap w n h1 = Some (y, h2)"
        "x < 516" "y < 516" "N + 1 < 516" "n < length h2"
        "parent' = (parent[y := int (N + 1)])[x := int (N + 1), N + 1 := - 1]"
        "w' = w[N + 1 := ADDWEIGHTS (w ! x) (w ! y)]"
        "UPHEAP w' n (h2[n := N + 1]) = Some h'"
        "forest f a S T' m' n (N + 1) h' w' parent'" by auto
    have len: "length w = 516" "length parent = 516" using Suc.prems(1) by (simp_all add: forest_def)
    have "runs (join_nodes n (N + 1) h' w' parent') (\<lambda>(N', w'', parent'). N' = 2 * a - 1 \<and> length w'' = 516
       \<and> (\<forall>i \<le> a. w'' ! i = w' ! i) \<and> (\<exists>t. code_tree f a S t parent'))"
      using Suc.IH [OF j(10)] False Suc.prems(3-6) by auto
    moreover have "\<forall>i \<le> a. w' ! i = w ! i"
      using Suc.prems(3,6) by (auto simp: j(8))
    moreover have "join_nodes (Suc n) N heap w parent = join_nodes n (N + 1) h' w' parent'"
      using False j len by (subst join_nodes.simps) simp
    ultimately show ?thesis by (auto elim!: runs_mono)
  qed
qed simp

lemma init_heap_ok:
  assumes "length heap = 260" "length w = 516" "length parent = 516" "a \<le> 258"
    and "\<forall>i. 1 \<le> i \<and> i \<le> a \<longrightarrow> w ! i = 256 * f i \<and> 1 \<le> f i"
  shows "runs (init_heap a w heap parent) (\<lambda>(heap', w', parent'). length heap' = 260 \<and> w' = w[0 := 0]
     \<and> (\<exists>T. forest f a (\<Sum>i\<leftarrow>[1..<Suc a]. f i) T 0 a a heap' w' parent'))"
proof -
  let ?w = "w[0 := 0]"
  let ?I = "\<lambda>i (heap', parent'). length heap' = 260
     \<and> (\<exists>T. forest f (i - 1) (\<Sum>j\<leftarrow>[1..<i]. f j) T 0 (i - 1) (i - 1) heap' ?w parent')"
  have "runs (for_in [1..<a + 1] (\<lambda>i (heap, parent).
            do { parent \<leftarrow> aput parent i (- 1);
                 heap \<leftarrow> aput heap i i;
                 heap \<leftarrow> UPHEAP ?w i heap;
                 Some (heap, parent) }) (heap[0 := 0], parent[0 := - 2])) (?I (a + 1))"
  proof (rule runs_for_upt [where I = ?I])
    show "?I 1 (heap[0 := 0], parent[0 := - 2])"
      using assms by (auto simp: forest_def ordered_def nodes_def intro!: exI [of _ "{#}"])
    fix i st assume i: "1 \<le> i" "i < a + 1" and st: "?I i st"
    obtain h p where [simp]: "st = (h, p)" by fastforce
    obtain T where fo: "forest f (i - 1) (\<Sum>j\<leftarrow>[1..<i]. f j) T 0 (i - 1) (i - 1) h ?w p"
      and "length h = 260" using st by auto
    note fo' = fo [unfolded forest_def]
    have old: "t \<in># T \<Longrightarrow> label t < i" for t using fo' i by fastforce
    have "set (nodes h (i - 1)) = label ` set_mset T"
      using fo' by (metis set_image_mset set_mset_mset)
    then have new: "i \<notin> set (nodes h (i - 1))" using old by auto
    have wi: "?w ! i = 256 * f i" "1 \<le> f i" using assms(5) i by auto
    have "entries_ok ?w h (i - 1)" using i assms(4) by (intro forest_entries [OF fo]) simp
    then have "runs (UPHEAP (?w[i := ?w ! i]) (Suc (i - 1)) (h[Suc (i - 1) := i])) (\<lambda>h'. length h' = length h
        \<and> h' ! 0 = 0 \<and> ordered (?w[i := ?w ! i]) h' (Suc (i - 1))
        \<and> mset (nodes h' (Suc (i - 1))) = add_mset i (mset (nodes h (i - 1))))"
      using fo' i assms(2,4) \<open>length h = 260\<close> new wi by (intro push_ok) auto
    then obtain h' where h': "UPHEAP ?w i (h[i := i]) = Some h'" "length h' = 260" "h' ! 0 = 0"
        "ordered ?w h' i" "mset (nodes h' i) = add_mset i (mset (nodes h (i - 1)))"
      using i \<open>length h = 260\<close> unfolding list_update_id by (auto simp: runs_iff_Some)
    have "mset (nodes h' i) = mset (i # nodes h (i - 1))" using h'(5) by simp
    then have dist: "distinct (nodes h' i)"
      using new fo' by (metis distinct.simps(2) mset_eq_imp_distinct_iff)
    have T: "t \<in># T \<Longrightarrow> 1 \<le> label t \<and> label t \<le> i \<and> in_parent (p[i := - 1]) t \<and> p[i := - 1] ! label t = - 1
      \<and> (\<forall>(k, q) \<in> edges t. k \<le> i)" for t
    proof -
      assume t: "t \<in># T"
      then have "\<forall>(k, q) \<in> edges t. k \<le> i - 1" using fo' by auto
      then have e: "\<forall>(k, q) \<in> edges t. k < i" using i(1) by auto
      then have "(i, q) \<notin> edges t" for q by auto
      then have "in_parent (p[i := - 1]) t" using fo' t by (auto intro: in_parent_update)
      then show ?thesis using fo' t old [OF t] e by fastforce
    qed
    have up: "[1..<Suc i] = [1..<i] @ [i]" using i(1) by simp
    have Suc_i: "Suc (i - 1) = i" using i(1) by simp
    have "forest f i (\<Sum>j\<leftarrow>[1..<Suc i]. f j) (add_mset (HLeaf i) T) 0 i i h' ?w (p[i := - 1])"
      unfolding forest_def using fo' h' dist T wi i assms(2,3,4) up
      by (simp del: upt_Suc add: Suc_i)
    then show "runs (case st of (heap, parent) \<Rightarrow> do { parent \<leftarrow> aput parent i (- 1);
                 heap \<leftarrow> aput heap i i;
                 heap \<leftarrow> UPHEAP ?w i heap;
                 Some (heap, parent) }) (?I (Suc i))"
      using h' i assms(4) \<open>length h = 260\<close> fo' by auto
  qed simp
  then show ?thesis
    using assms(1-4) unfolding init_heap_def
    by (auto simp: runs_iff_Some simp del: upt_Suc)
qed

section \<open>The lengths\<close>

lemma code_tree_depth:
  assumes "code_tree f a S t parent" "(i, d) \<in> set (depths t 0)"
  shows "node_depth parent i 0 = Some d" "i \<in> {1..a}"
proof -
  have "node_depth parent i 0 = node_depth parent (label t) d"
    using node_depth_tree [of parent t i d 0 0] assms by (simp add: code_tree_def)
  also have "\<dots> = Some d"
    using assms(1) by (subst node_depth.simps) (simp add: code_tree_def)
  finally show "node_depth parent i 0 = Some d" .
  have "i \<in> set (map fst (depths t 0))" using assms(2) by force
  then have "i \<in> set (leaves t)" by (simp only: depths_leaves)
  also have "set (leaves t) = {1..a}"
    using assms(1) by (metis code_tree_def set_mset_mset atLeastLessThanSuc_atLeastAtMost set_upt)
  finally show "i \<in> {1..a}" .
qed

lemma code_tree_leaf:
  assumes "code_tree f a S t parent" "i \<in> {1..a}"
  shows "\<exists>d. (i, d) \<in> set (depths t 0)"
proof -
  have "set (leaves t) = {1..a}"
    using assms(1) by (metis code_tree_def set_mset_mset atLeastLessThanSuc_atLeastAtMost set_upt)
  then have "i \<in> set (map fst (depths t 0))" using assms(2) by (simp only: depths_leaves)
  then show ?thesis by force
qed

lemma code_depths_ok:
  assumes "code_tree f a S t parent" "S < 2 ^ 23" "a \<le> length len"
  shows "runs (code_depths a maxLen parent len) (\<lambda>(len', tooLong). length len' = length len
     \<and> drop a len' = drop a len \<and> (\<forall>(i, d) \<in> set (depths t 0). len' ! (i - 1) = d)
     \<and> (tooLong \<longleftrightarrow> (\<exists>(i, d) \<in> set (depths t 0). d > maxLen)))"
proof -
  have "height t < 45" using assms(1,2) height_bound unfolding code_tree_def by blast
  then have small: "d < 256" if "(i, d) \<in> set (depths t 0)" for i d
    using depths_range [OF that] by simp
  let ?I = "\<lambda>k (len', tooLong). length len' = length len \<and> drop a len' = drop a len
     \<and> (\<forall>(i, d) \<in> set (depths t 0). i < k \<longrightarrow> len' ! (i - 1) = d)
     \<and> (tooLong \<longleftrightarrow> (\<exists>(i, d) \<in> set (depths t 0). i < k \<and> d > maxLen))"
  have "runs (code_depths a maxLen parent len) (?I (a + 1))"
    unfolding code_depths_def
  proof (rule runs_for_upt [where I = ?I])
    show "?I 1 (len, False)" using code_tree_depth(2) [OF assms(1)] by fastforce
    fix k st assume k: "1 \<le> k" "k < a + 1" and st: "?I k st"
    obtain l b where [simp]: "st = (l, b)" by fastforce
    obtain d where d: "(k, d) \<in> set (depths t 0)" using code_tree_leaf [OF assms(1), of k] k by auto
    have uniq: "e = d" if "(k, e) \<in> set (depths t 0)" for e
      using code_tree_depth(1) [OF assms(1) d] code_tree_depth(1) [OF assms(1) that] by simp
    have pos: "1 \<le> i" if "(i, e) \<in> set (depths t 0)" for i e
      using code_tree_depth(2) [OF assms(1) that] by simp
    have "?I (Suc k) (l[k - 1 := d], if d > maxLen then True else b)"
    proof -
      have "(\<forall>(i, e) \<in> set (depths t 0). i < Suc k \<longrightarrow> l[k - 1 := d] ! (i - 1) = e)"
      proof (intro ballI, clarify)
        fix i e assume i: "(i, e) \<in> set (depths t 0)" "i < Suc k"
        show "l[k - 1 := d] ! (i - 1) = e"
        proof (cases "i = k")
          case True
          then show ?thesis using uniq i st k assms(3) by auto
        next
          case False
          then show ?thesis using i pos [OF i(1)] st k by (auto simp: nth_list_update)
        qed
      qed
      moreover have "(d > maxLen \<or> b) \<longleftrightarrow> (\<exists>(i, e) \<in> set (depths t 0). i < Suc k \<and> e > maxLen)"
      proof
        assume "d > maxLen \<or> b"
        then show "\<exists>(i, e) \<in> set (depths t 0). i < Suc k \<and> e > maxLen"
        proof
          assume "d > maxLen"
          then show ?thesis using d by (intro bexI [of _ "(k, d)"]) auto
        next
          assume b
          then obtain i e where "(i, e) \<in> set (depths t 0)" "i < k" "e > maxLen" using st by auto
          then show ?thesis by (intro bexI [of _ "(i, e)"]) auto
        qed
      next
        assume "\<exists>(i, e) \<in> set (depths t 0). i < Suc k \<and> e > maxLen"
        then obtain i e where e: "(i, e) \<in> set (depths t 0)" "i < Suc k" "e > maxLen" by auto
        show "d > maxLen \<or> b"
        proof (cases "i = k")
          case True
          then show ?thesis using uniq [of e] e by simp
        next
          case False
          then have "i < k" using e(2) by simp
          then show ?thesis using st e by auto
        qed
      qed
      ultimately show ?thesis using st k by auto
    qed
    then show "runs (case st of (len, tooLong) \<Rightarrow> do { j \<leftarrow> node_depth parent k 0;
            len \<leftarrow> aput len (k - 1) (j mod 256);
            Some (len, if j > maxLen then True else tooLong) }) (?I (Suc k))"
      using code_tree_depth(1) [OF assms(1) d] small [OF d] st k assms(3) by auto
  qed simp
  then show ?thesis
    by (rule runs_mono) (use code_tree_depth(2) [OF assms(1)] in \<open>fastforce simp: less_Suc_eq_le\<close>)
qed

lemma lengths_kraft:
  assumes "code_tree f a S t parent" "\<forall>(i, d) \<in> set (depths t 0). len ! (i - 1) = d \<and> d \<le> M"
  shows "(\<Sum>i<a. 2 ^ (M - len ! i)) = (2 :: nat) ^ M"
proof -
  let ?g = "\<lambda>i. (2 :: nat) ^ (M - len ! (i - 1))"
  have "(2 :: nat) ^ M = (\<Sum>(i, d)\<leftarrow>depths t 0. 2 ^ (M - d))"
  proof -
    have "\<forall>(i, d) \<in> set (depths t 0). d \<le> M" using assms(2) by fastforce
    from depths_kraft [OF this] show ?thesis by simp
  qed
  also have "\<dots> = (\<Sum>p\<leftarrow>depths t 0. ?g (fst p))"
    using assms(2) by (intro arg_cong [where f = sum_list] map_cong) auto
  also have "\<dots> = (\<Sum>i\<leftarrow>leaves t. ?g i)"
    by (simp add: depths_leaves [of t 0, symmetric] o_def)
  also have "\<dots> = (\<Sum>i\<leftarrow>[1..<Suc a]. ?g i)"
  proof -
    have "mset (map ?g (leaves t)) = mset (map ?g [1..<Suc a])"
      using assms(1) unfolding code_tree_def mset_map by simp
    then show ?thesis by (metis sum_mset_sum_list)
  qed
  also have "\<dots> = (\<Sum>i\<in>{1..<Suc a}. ?g i)"
    by (simp only: interv_sum_list_conv_sum_set_nat set_upt)
  also have "\<dots> = (\<Sum>i<a. 2 ^ (M - len ! i))"
    by (rule sum.reindex_bij_witness [of _ Suc "\<lambda>i. i - 1"]) auto
  finally show ?thesis by simp
qed

section \<open>The attempts end\<close>

lemma init_weights_ok:
  assumes "a \<le> length freq" "a < length w"
  shows "runs (init_weights a freq w) (\<lambda>w'. length w' = length w
     \<and> (\<forall>i. 1 \<le> i \<and> i \<le> a \<longrightarrow> w' ! i = 256 * (if freq ! (i - 1) = 0 then 1 else freq ! (i - 1))))"
proof -
  let ?I = "\<lambda>k w'. length w' = length w
     \<and> (\<forall>i. 1 \<le> i \<and> i \<le> k \<longrightarrow> w' ! i = 256 * (if freq ! (i - 1) = 0 then 1 else freq ! (i - 1)))"
  show ?thesis
    unfolding init_weights_def
  proof (rule runs_for_upt [where I = ?I])
    fix k w' assume "k < a" "?I k w'"
    then show "runs (do { f \<leftarrow> aget freq k; aput w' (k + 1) ((if f = 0 then 1 else f) * 2 ^ 8) }) (?I (Suc k))"
      using assms by (auto simp: nth_list_update le_Suc_eq)
  qed auto
qed

lemma scale_weights_ok:
  assumes "a < length w" "\<forall>i. 1 \<le> i \<and> i \<le> a \<longrightarrow> w ! i = 256 * f i"
  shows "runs (scale_weights a w) (\<lambda>w'. length w' = length w
     \<and> (\<forall>i. 1 \<le> i \<and> i \<le> a \<longrightarrow> w' ! i = 256 * (1 + f i div 2)))"
proof -
  let ?I = "\<lambda>k w'. length w' = length w \<and> (\<forall>i. k \<le> i \<and> i \<le> a \<longrightarrow> w' ! i = w ! i)
     \<and> (\<forall>i. 1 \<le> i \<and> i < k \<longrightarrow> w' ! i = 256 * (1 + f i div 2))"
  have "runs (scale_weights a w) (?I (a + 1))"
    unfolding scale_weights_def
  proof (rule runs_for_upt [where I = ?I])
    fix k w' assume k: "1 \<le> k" "k < a + 1" and I: "?I k w'"
    then have "w' ! k = 256 * f k" using assms(2) by auto
    then show "runs (do { v \<leftarrow> aget w' k; let j = v div 2 ^ 8; let j = 1 + (j div 2); aput w' k (j * 2 ^ 8) })
        (?I (Suc k))"
      using k I assms(1) by (auto simp: nth_list_update less_Suc_eq)
  qed auto
  then show ?thesis by (auto elim!: runs_mono)
qed

text \<open>One attempt.\<close>

lemma try_lengths_ok:
  assumes "length heap = 260" "length w = 516" "length parent = 516" "1 \<le> a" "a \<le> 258" "a \<le> length len"
    and "\<forall>i. 1 \<le> i \<and> i \<le> a \<longrightarrow> w ! i = 256 * f i \<and> 1 \<le> f i" "(\<Sum>i\<leftarrow>[1..<Suc a]. f i) < 2 ^ 23"
  shows "runs (try_lengths a maxLen heap w parent len) (\<lambda>(heap', w', parent', len', tooLong).
     length heap' = 260 \<and> length w' = 516 \<and> length parent' = 516 \<and> length len' = length len
     \<and> drop a len' = drop a len \<and> (\<forall>i. 1 \<le> i \<and> i \<le> a \<longrightarrow> w' ! i = w ! i)
     \<and> (\<exists>t. code_tree f a (\<Sum>i\<leftarrow>[1..<Suc a]. f i) t parent' \<and> (\<forall>(i, d) \<in> set (depths t 0). len' ! (i - 1) = d)
          \<and> (tooLong \<longleftrightarrow> (\<exists>(i, d) \<in> set (depths t 0). d > maxLen))))"
proof -
  let ?S = "\<Sum>i\<leftarrow>[1..<Suc a]. f i"
  obtain heap1 parent1 T where h: "init_heap a w heap parent = Some (heap1, w[0 := 0], parent1)" "length heap1 = 260"
      "forest f a ?S T 0 a a heap1 (w[0 := 0]) parent1"
    using init_heap_ok [OF assms(1,2,3,5,7)] by (auto simp: runs_iff_Some simp del: upt_Suc)
  have "runs (join_nodes a a heap1 (w[0 := 0]) parent1) (\<lambda>(N', w', parent'). N' = 2 * a - 1 \<and> length w' = 516
     \<and> (\<forall>i \<le> a. w' ! i = w[0 := 0] ! i) \<and> (\<exists>t. code_tree f a ?S t parent'))"
    by (rule join_nodes_ok [OF h(3)]) (use assms in simp_all)
  then obtain w2 parent2 t where j: "join_nodes a a heap1 (w[0 := 0]) parent1 = Some (2 * a - 1, w2, parent2)"
      "length w2 = 516" "\<forall>i \<le> a. w2 ! i = w[0 := 0] ! i" "code_tree f a ?S t parent2"
    by (auto simp: runs_iff_Some simp del: upt_Suc)
  obtain len' tooLong where d: "code_depths a maxLen parent2 len = Some (len', tooLong)"
      "length len' = length len" "drop a len' = drop a len" "\<forall>(i, d) \<in> set (depths t 0). len' ! (i - 1) = d"
      "tooLong \<longleftrightarrow> (\<exists>(i, d) \<in> set (depths t 0). d > maxLen)"
    using code_depths_ok [OF j(4) assms(8,6), of maxLen] by (auto simp: runs_iff_Some simp del: upt_Suc)
  have "length parent2 = 516" using j(4) by (simp add: code_tree_def)
  then show ?thesis
    using h j d assms(4,5) by (auto simp: try_lengths_def simp del: upt_Suc)
qed

lemma fib_20: "516 < fib 20"
proof -
  have "fib 20 = fib 19 + fib 18" by (simp add: numeral_eq_Suc)
  moreover have "2 ^ 9 \<le> fib 19" using fib_power [of 9] by simp
  moreover have "2 ^ 8 \<le> fib 17" using fib_power [of 8] by simp
  moreover have "fib 17 \<le> fib 18" by (rule fib_mono) simp
  ultimately show ?thesis by simp
qed

text \<open>A code word of more than 17 bits needs a symbol of weight three or more.\<close>

lemma too_long_heavy:
  assumes "code_tree f a S t parent" "(i, d) \<in> set (depths t 0)" "17 < d" "a \<le> 258"
    and "S = (\<Sum>i\<leftarrow>[1..<Suc a]. f i)"
  shows "\<exists>i. 1 \<le> i \<and> i \<le> a \<and> 2 < f i"
proof (rule ccontr)
  assume light: "\<not> ?thesis"
  have "(\<Sum>i\<leftarrow>[1..<Suc k]. f i) \<le> 2 * int k" if "k \<le> a" for k
    using that
  proof (induction k)
    case (Suc k)
    have "f (Suc k) \<le> 2" using light Suc.prems by (metis le_add1 not_le plus_1_eq_Suc)
    with Suc show ?case by simp
  qed simp
  from this [of a] have "S \<le> 516" using assms(4,5) by simp
  moreover have "20 \<le> height t + 2" using depths_range [OF assms(2)] assms(3) by simp
  then have "fib 20 \<le> fib (height t + 2)" by (rule fib_mono)
  moreover have "fib (height t + 2) \<le> S"
    using assms(1) grown_fib unfolding code_tree_def by metis
  ultimately show False using fib_20 by simp
qed

lemma halved_sum:
  assumes "\<forall>i. 1 \<le> i \<and> i \<le> a \<longrightarrow> 1 \<le> (f :: nat \<Rightarrow> int) i"
  shows "(\<Sum>i\<leftarrow>[1..<Suc a]. 1 + f i div 2) \<le> (\<Sum>i\<leftarrow>[1..<Suc a]. f i)"
    and "\<exists>i. 1 \<le> i \<and> i \<le> a \<and> 2 < f i \<Longrightarrow>
      (\<Sum>i\<leftarrow>[1..<Suc a]. 1 + f i div 2) < (\<Sum>i\<leftarrow>[1..<Suc a]. f i)"
proof -
  have le: "1 + f i div 2 \<le> f i" if "i \<in> {1..<Suc a}" for i
    using assms that by (cases "f i = 1") auto
  have sets: "(\<Sum>i\<leftarrow>[1..<Suc a]. g i) = (\<Sum>i\<in>{1..<Suc a}. g i)" for g :: "nat \<Rightarrow> int"
    by (simp only: interv_sum_list_conv_sum_set_nat set_upt)
  show "(\<Sum>i\<leftarrow>[1..<Suc a]. 1 + f i div 2) \<le> (\<Sum>i\<leftarrow>[1..<Suc a]. f i)"
    unfolding sets using le by (intro sum_mono)
  assume "\<exists>i. 1 \<le> i \<and> i \<le> a \<and> 2 < f i"
  then have "\<exists>i \<in> {1..<Suc a}. 1 + f i div 2 < f i" by force
  then show "(\<Sum>i\<leftarrow>[1..<Suc a]. 1 + f i div 2) < (\<Sum>i\<leftarrow>[1..<Suc a]. f i)"
    unfolding sets using le by (intro sum_strict_mono_ex1) auto
qed

definition good_lengths :: "nat \<Rightarrow> nat \<Rightarrow> nat list \<Rightarrow> bool" where
  "good_lengths a maxLen len \<longleftrightarrow> (\<forall>i < a. 1 \<le> len ! i \<and> len ! i \<le> maxLen)
     \<and> (\<Sum>i<a. 2 ^ (maxLen - len ! i)) = (2 :: nat) ^ maxLen"

lemma tree_lengths:
  assumes "code_tree f a S t parent" "2 \<le> a" "\<forall>(i, d) \<in> set (depths t 0). len ! (i - 1) = d \<and> d \<le> maxLen"
  shows "good_lengths a maxLen len"
  unfolding good_lengths_def
proof (intro conjI allI impI)
  have "t \<noteq> HLeaf k" for k
  proof
    assume "t = HLeaf k"
    then have "length [1..<Suc a] = 1" using assms(1) by (metis code_tree_def leaves.simps(1) size_mset length_Cons list.size(3) One_nat_def)
    then show False using assms(2) by simp
  qed
  then obtain n l r where t: "t = HNode n l r" by (cases t) auto
  fix i assume "i < a"
  then obtain d where d: "(Suc i, d) \<in> set (depths t 0)" using code_tree_leaf [OF assms(1), of "Suc i"] by auto
  then have "len ! i = d" "d \<le> maxLen" using assms(3) by auto
  moreover have "1 \<le> d" using d depths_range [of "Suc i" d _ 1] t by auto
  ultimately show "1 \<le> len ! i" "len ! i \<le> maxLen" by simp_all
qed (rule lengths_kraft [OF assms(1,3)])

lemma lengths_loop_ok:
  assumes "length heap = 260" "length w = 516" "length parent = 516" "2 \<le> a" "a \<le> 258" "a \<le> length len"
    and "\<forall>i. 1 \<le> i \<and> i \<le> a \<longrightarrow> w ! i = 256 * f i \<and> 1 \<le> f i" "(\<Sum>i\<leftarrow>[1..<Suc a]. f i) < 2 ^ 23"
    and "17 \<le> maxLen"
  shows "\<exists>len'. lengths_loop a maxLen heap w parent len = Some len' \<and> length len' = length len
     \<and> drop a len' = drop a len \<and> good_lengths a maxLen len'"
  using assms(1-3,6-8)
proof (induction "nat (\<Sum>i\<leftarrow>[1..<Suc a]. f i)" arbitrary: f heap w parent len rule: less_induct)
  case less
  let ?S = "\<Sum>i\<leftarrow>[1..<Suc a]. f i"
  have "1 \<le> a" using assms(4) by simp
  from try_lengths_ok [OF less.prems(1-3) this assms(5) less.prems(4-6), of maxLen]
  obtain heap' w' parent' len' tooLong t where
    tr: "try_lengths a maxLen heap w parent len = Some (heap', w', parent', len', tooLong)"
      "length heap' = 260" "length w' = 516" "length parent' = 516" "length len' = length len"
      "drop a len' = drop a len" "\<forall>i. 1 \<le> i \<and> i \<le> a \<longrightarrow> w' ! i = w ! i"
      "code_tree f a ?S t parent'" "\<forall>(i, d) \<in> set (depths t 0). len' ! (i - 1) = d"
      "tooLong \<longleftrightarrow> (\<exists>(i, d) \<in> set (depths t 0). d > maxLen)"
    by (auto simp: runs_iff_Some simp del: upt_Suc)
  show ?case
  proof (cases tooLong)
    case False
    then have "good_lengths a maxLen len'"
      using tr(9,10) by (intro tree_lengths [OF tr(8) assms(4)]) fastforce
    then show ?thesis using tr(1,5,6) False by (subst lengths_loop.simps) simp
  next
    case True
    then obtain i d where "(i, d) \<in> set (depths t 0)" "17 < d" using tr(10) assms(9) by auto
    then have heavy: "\<exists>i. 1 \<le> i \<and> i \<le> a \<and> 2 < f i"
      using too_long_heavy [OF tr(8)] assms(5) by blast
    let ?f = "\<lambda>i. 1 + f i div 2"
    have f1: "\<forall>i. 1 \<le> i \<and> i \<le> a \<longrightarrow> 1 \<le> f i" using less.prems(5) by blast
    then have smaller: "(\<Sum>i\<leftarrow>[1..<Suc a]. ?f i) < ?S" by (rule halved_sum(2)) (rule heavy)
    have f1': "\<forall>i. 1 \<le> i \<and> i \<le> a \<longrightarrow> 1 \<le> ?f i" using f1 by force
    have "a < length w'" using tr(3) assms(5) by simp
    moreover have "\<forall>i. 1 \<le> i \<and> i \<le> a \<longrightarrow> w' ! i = 256 * f i" using tr(7) less.prems(5) by simp
    ultimately obtain w2 where w2: "scale_weights a w' = Some w2" "length w2 = 516"
        "\<forall>i. 1 \<le> i \<and> i \<le> a \<longrightarrow> w2 ! i = 256 * ?f i"
      using scale_weights_ok [of a w' f] tr(3) by (auto simp: runs_iff_Some)
    have "0 < ?S" using smaller f1' sum_list_nonneg [of "map ?f [1..<Suc a]"] by fastforce
    then have "\<exists>len2. lengths_loop a maxLen heap' w2 parent' len' = Some len2 \<and> length len2 = length len'
        \<and> drop a len2 = drop a len' \<and> good_lengths a maxLen len2"
      using smaller less.prems(4,6) w2 f1' tr(2,4,5) by (intro less.hyps [of ?f]) auto
    then show ?thesis using tr(1,5,6) w2(1) True by (subst lengths_loop.simps) auto
  qed
qed

lemma make_code_lengths_ok:
  assumes "2 \<le> a" "a \<le> 258" "a \<le> length len" "a \<le> length freq" "\<forall>i < a. 0 \<le> freq ! i"
    and "(\<Sum>i\<leftarrow>[0..<a]. max 1 (freq ! i)) < 2 ^ 23" "17 \<le> maxLen"
  shows "\<exists>len'. BZ2_hbMakeCodeLengths len freq a maxLen = Some len' \<and> length len' = length len
     \<and> drop a len' = drop a len \<and> (\<forall>i < a. 1 \<le> len' ! i \<and> len' ! i \<le> maxLen)
     \<and> (\<Sum>i<a. 2 ^ (maxLen - len' ! i)) = (2 :: nat) ^ maxLen"
proof -
  define f where "f = (\<lambda>i. if freq ! (i - 1) = 0 then 1 else freq ! (i - 1))"
  obtain w where w: "init_weights a freq (replicate 516 0) = Some w" "length w = 516"
      "\<forall>i. 1 \<le> i \<and> i \<le> a \<longrightarrow> w ! i = 256 * f i"
    using init_weights_ok [OF assms(4), of "replicate 516 0"] assms(2) by (auto simp: runs_iff_Some f_def)
  have f_max: "f (Suc i) = max 1 (freq ! i)" if "i < a" for i
  proof -
    have "0 \<le> freq ! i" using that assms(4,5) by simp
    then show ?thesis by (simp add: f_def)
  qed
  have "1 \<le> f i" if "1 \<le> i" "i \<le> a" for i
    using f_max [of "i - 1"] that by simp
  then have weights: "\<forall>i. 1 \<le> i \<and> i \<le> a \<longrightarrow> w ! i = 256 * f i \<and> 1 \<le> f i" using w(3) by blast
  have "(\<Sum>i\<leftarrow>[1..<Suc a]. f i) = (\<Sum>i\<leftarrow>[0..<a]. f (Suc i))"
    by (simp only: map_Suc_upt [symmetric] map_map o_def One_nat_def)
  also have "\<dots> = (\<Sum>i\<leftarrow>[0..<a]. max 1 (freq ! i))"
    using f_max by (intro arg_cong [where f = sum_list] map_cong) auto
  finally have "(\<Sum>i\<leftarrow>[1..<Suc a]. f i) < 2 ^ 23" using assms(6) by simp
  from lengths_loop_ok [OF _ w(2) _ assms(1,2,3) weights this assms(7), of "replicate 260 0" "replicate 516 0"]
  show ?thesis
    using w(1) by (simp add: BZ2_hbMakeCodeLengths_def good_lengths_def)
qed

section \<open>Properties\<close>

text \<open>
  C16: \<open>BZ2_hbMakeCodeLengths\<close> always returns: the heap operations and the walks to the
  root stay inside the arrays, the assertions 2001 and 2002 hold, and scaling the weights
  ends the outer loop. Every length is between 1 and the limit (17 in the compressor), and
  the lengths are those of a full binary tree: the Kraft sum is exactly one.
\<close>

theorem make_code_lengths_total:
  assumes "2 \<le> a" "a \<le> 258" "a \<le> length len" "a \<le> length freq" "\<forall>f \<in> set freq. 0 \<le> f"
    and "(\<Sum>i\<leftarrow>[0..<a]. max 1 (freq ! i)) < 2 ^ 23" "17 \<le> maxLen"
  shows "\<exists>len'. BZ2_hbMakeCodeLengths len freq a maxLen = Some len' \<and> length len' = length len
     \<and> drop a len' = drop a len \<and> (\<forall>i < a. 1 \<le> len' ! i \<and> len' ! i \<le> maxLen)
     \<and> (\<Sum>i<a. 2 ^ (maxLen - len' ! i)) = (2 :: nat) ^ maxLen"
  using make_code_lengths_ok [of a len freq maxLen] assms by auto

lemma make_code_lengths_total_witness:
  "\<exists>len'. BZ2_hbMakeCodeLengths [0, 0, 0] [10, 0, 3] 3 17 = Some len' \<and> length len' = length [0 :: nat, 0, 0]
     \<and> drop 3 len' = drop 3 [0, 0, 0] \<and> (\<forall>i < 3. 1 \<le> len' ! i \<and> len' ! i \<le> 17)
     \<and> (\<Sum>i<3. 2 ^ (17 - len' ! i)) = (2 :: nat) ^ 17"
  by (rule make_code_lengths_total) (simp_all add: numeral_eq_Suc)

end
