(* ===== verification/BzBits.thy ===== *)
theory BzBits
  imports BzCrc
begin

text \<open>
  The compression state of bzip2 (\<open>EState\<close> of \<open>benchmarks/wasi/bzip2/bzlib_private.h\<close>) and
  its bit writer (\<open>compress.c\<close>). The writer is the instance of the interface \<open>bit_sink\<close>:
  a put of n bits appends exactly those bits, most significant first, to what was written.

  Memory. \<open>arr1\<close> is a block of 32-bit words that the code also uses as the array \<open>mtfv\<close> of
  16-bit words: it is the map from the index of a 16-bit word to its contents, low half
  first, and \<open>ptr\<close> reads and writes two of them. \<open>arr2\<close> is the map from the index of a byte
  to its contents: \<open>block\<close> is its beginning, and the pointer \<open>zbits\<close> into it is the index of
  the byte it points to.
\<close>

section \<open>The interface of a bit writer\<close>

text \<open>
  \<open>room s\<close> is the number of bits that can still be written, \<open>frame s t\<close> says that \<open>t\<close> differs
  from \<open>s\<close> only in what the writer owns.
\<close>

locale bit_sink =
  fixes put :: "'st \<Rightarrow> nat \<Rightarrow> u32 \<Rightarrow> 'st option"
    and inv :: "'st \<Rightarrow> bool"
    and written :: "'st \<Rightarrow> bool list"
    and room :: "'st \<Rightarrow> nat"
    and frame :: "'st \<Rightarrow> 'st \<Rightarrow> bool"
  assumes put: "inv s \<Longrightarrow> 0 < n \<Longrightarrow> n \<le> 24 \<Longrightarrow> v < 2 ^ n \<Longrightarrow> n \<le> room s \<Longrightarrow>
       runs (put s n v) (\<lambda>s'. inv s' \<and> written s' = written s @ bits_of n v
         \<and> room s' = room s - n \<and> frame s s')"
    and frame_refl: "frame s s"
    and frame_trans: "frame s t \<Longrightarrow> frame t u \<Longrightarrow> frame s u"
begin

definition fits :: "nat \<times> u32 \<Rightarrow> bool" where
  "fits = (\<lambda>(n, v). 0 < n \<and> n \<le> 24 \<and> v < 2 ^ n)"

definition bits_of_list :: "(nat \<times> u32) list \<Rightarrow> bool list" where
  "bits_of_list ps = concat (map (\<lambda>(n, v). bits_of n v) ps)"

lemma put_list:
  assumes "inv s" "\<forall>p \<in> set ps. fits p" "length (bits_of_list ps) \<le> room s"
  shows "runs (for_in ps (\<lambda>(n, v) s. put s n v) s) (\<lambda>s'. inv s' \<and> written s' = written s @ bits_of_list ps
     \<and> room s' = room s - length (bits_of_list ps) \<and> frame s s')"
  using assms
proof (induction ps arbitrary: s)
  case Nil
  then show ?case by (simp add: bits_of_list_def frame_refl)
next
  case (Cons p ps)
  obtain n v where p: "p = (n, v)" by fastforce
  have "runs (put s n v) (\<lambda>s'. inv s' \<and> written s' = written s @ bits_of n v
      \<and> room s' = room s - n \<and> frame s s')"
    using Cons.prems p by (intro put) (auto simp: fits_def bits_of_list_def)
  then obtain t where t: "put s n v = Some t" "inv t" "written t = written s @ bits_of n v"
      "room t = room s - n" "frame s t"
    by (auto simp: runs_iff_Some)
  have "runs (for_in ps (\<lambda>(n, v) s. put s n v) t) (\<lambda>s'. inv s' \<and> written s' = written t @ bits_of_list ps
      \<and> room s' = room t - length (bits_of_list ps) \<and> frame t s')"
    using Cons.prems p t by (intro Cons.IH) (auto simp: bits_of_list_def)
  then show ?case
    using t p by (auto simp: bits_of_list_def elim!: runs_mono intro: frame_trans)
qed

end

section \<open>The state\<close>

text \<open>[bzip2/bzlib_private.h 186-189 BZ_N_OVERSHOOT] Sizes and limits.\<close>

definition BZ_N_OVERSHOOT :: nat where
  "BZ_N_OVERSHOOT = 2 + 12 + 18 + 2"

text \<open>[bzip2/bzlib_private.h 125-125 BZ_MAX_SELECTORS]\<close>

definition BZ_MAX_SELECTORS :: nat where
  "BZ_MAX_SELECTORS = 2 + (900000 div 50)"

text \<open>[bzip2/bzlib_private.h 178-181 BZ_M_IDLE]\<close>

datatype bz_mode = BZ_M_IDLE | BZ_M_RUNNING | BZ_M_FLUSHING | BZ_M_FINISHING

text \<open>[bzip2/bzlib_private.h 183-184 BZ_S_OUTPUT]\<close>

datatype bz_io = BZ_S_OUTPUT | BZ_S_INPUT

text \<open>
  [bzip2/bzlib_private.h 196-266 EState] The verbosity, which only guards printing, the
  randomisation state, which the compressor never uses, and \<open>len_pack\<close>, which is assigned
  and read within one function, are left out; \<open>ftab\<close> is scratch space of the sorter.
\<close>

record estate =
  mode :: bz_mode
  io_state :: bz_io
  avail_in_expect :: u32
  arr1 :: "nat \<Rightarrow> u16"
  arr2 :: "nat \<Rightarrow> u8"
  origPtr :: int
  workFactor :: int
  state_in_ch :: nat
  state_in_len :: nat
  zbits :: nat
  nblock :: nat
  nblockMAX :: nat
  numZ :: nat
  state_out_pos :: nat
  nInUse :: nat
  inUse :: "bool list"
  unseqToSeq :: "u8 list"
  bsBuff :: u32
  bsLive :: int
  blockCRC :: u32
  combinedCRC :: u32
  blockNo :: nat
  blockSize100k :: nat
  nMTF :: nat
  mtfFreq :: "int list"
  selector :: "nat list"
  selectorMtf :: "nat list"
  len :: "nat list list"
  code :: "int list list"
  rfreq :: "int list list"

text \<open>
  [bzip2/bzlib.c 176-178 BZ2_bzCompressInit] The number of bytes of the two blocks; the
  indices into \<open>arr1\<close> count 16-bit words.
\<close>

definition arr1_halfwords :: "'a estate_scheme \<Rightarrow> nat" where
  "arr1_halfwords s = 2 * (100000 * blockSize100k s)"

text \<open>[bzip2/bzlib.c 178-178 BZ2_bzCompressInit]\<close>

definition arr2_bytes :: "'a estate_scheme \<Rightarrow> nat" where
  "arr2_bytes s = 4 * (100000 * blockSize100k s + BZ_N_OVERSHOOT)"

text \<open>[bzip2/compress.c 49-49 bsFinishWrite] An assignment to a cell of \<open>zbits\<close>.\<close>

definition put_zbits :: "'a estate_scheme \<Rightarrow> nat \<Rightarrow> u8 \<Rightarrow> 'a estate_scheme option" where
  "put_zbits s i v = do { a \<leftarrow> fput (arr2_bytes s) (arr2 s) (zbits s + i) v; Some (s\<lparr>arr2 := a\<rparr>) }"

section \<open>The writer\<close>

text \<open>[bzip2/compress.c 37-41 BZ2_bsInitWrite]\<close>

definition BZ2_bsInitWrite :: "'a estate_scheme \<Rightarrow> 'a estate_scheme" where
  "BZ2_bsInitWrite s = s\<lparr>bsLive := 0, bsBuff := 0\<rparr>"

text \<open>[bzip2/compress.c 46-54 bsFinishWrite] \<open>bsLive\<close> can end below zero.\<close>

function bsFinishWrite :: "'a estate_scheme \<Rightarrow> 'a estate_scheme option" where
  "bsFinishWrite s =
     (if bsLive s > 0
      then do { s \<leftarrow> put_zbits s (numZ s) (ucast (drop_bit 24 (bsBuff s)));
                bsFinishWrite (s\<lparr>numZ := numZ s + 1, bsBuff := push_bit 8 (bsBuff s), bsLive := bsLive s - 8\<rparr>) }
      else Some s)"
  by pat_completeness auto
termination
  by (relation "measure (\<lambda>s. nat (bsLive s))") (auto simp: put_zbits_def split: bind_splits)

text \<open>[bzip2/compress.c 58-67 bsNEEDW]\<close>

function bsNEEDW :: "'a estate_scheme \<Rightarrow> 'a estate_scheme option" where
  "bsNEEDW s =
     (if bsLive s \<ge> 8
      then do { s \<leftarrow> put_zbits s (numZ s) (ucast (drop_bit 24 (bsBuff s)));
                bsNEEDW (s\<lparr>numZ := numZ s + 1, bsBuff := push_bit 8 (bsBuff s), bsLive := bsLive s - 8\<rparr>) }
      else Some s)"
  by pat_completeness auto
termination
  by (relation "measure (\<lambda>s. nat (bsLive s))") (auto simp: put_zbits_def split: bind_splits)

declare bsFinishWrite.simps [simp del] bsNEEDW.simps [simp del]

text \<open>[bzip2/compress.c 71-78 bsW] A shift by 32 or more, or by less than 0, is undefined.\<close>

definition bsW :: "'a estate_scheme \<Rightarrow> nat \<Rightarrow> u32 \<Rightarrow> 'a estate_scheme option" where
  "bsW s n v =
     do { s \<leftarrow> bsNEEDW s;
          let shift = 32 - bsLive s - int n;
          guard (0 \<le> shift \<and> shift < 32);
          Some (s\<lparr>bsBuff := bsBuff s OR push_bit (nat shift) v, bsLive := bsLive s + int n\<rparr>) }"

text \<open>[bzip2/compress.c 82-89 bsPutUInt32]\<close>

definition bsPutUInt32 :: "'a estate_scheme \<Rightarrow> u32 \<Rightarrow> 'a estate_scheme option" where
  "bsPutUInt32 s u =
     do { s \<leftarrow> bsW s 8 (drop_bit 24 u AND 0xff);
          s \<leftarrow> bsW s 8 (drop_bit 16 u AND 0xff);
          s \<leftarrow> bsW s 8 (drop_bit 8 u AND 0xff);
          bsW s 8 (u AND 0xff) }"

text \<open>[bzip2/compress.c 93-97 bsPutUChar]\<close>

definition bsPutUChar :: "'a estate_scheme \<Rightarrow> u8 \<Rightarrow> 'a estate_scheme option" where
  "bsPutUChar s c = bsW s 8 (ucast c)"

section \<open>What was written\<close>

definition zbytes :: "'a estate_scheme \<Rightarrow> u8 list" where
  "zbytes s = map (\<lambda>i. arr2 s (zbits s + i)) [0..<numZ s]"

definition bs_written :: "'a estate_scheme \<Rightarrow> bool list" where
  "bs_written s = concat (map (bits_of 8) (zbytes s)) @ take (nat (bsLive s)) (bits_of 32 (bsBuff s))"

text \<open>The bits of the buffer that are not live are zero.\<close>

definition bs_inv :: "'a estate_scheme \<Rightarrow> bool" where
  "bs_inv s \<longleftrightarrow> 0 \<le> bsLive s \<and> bsLive s \<le> 32
     \<and> (\<forall>k. int k < 32 - bsLive s \<longrightarrow> \<not> bit (bsBuff s) k)
     \<and> 8 * int (zbits s + numZ s) + bsLive s \<le> 8 * int (arr2_bytes s)"

definition bs_room :: "'a estate_scheme \<Rightarrow> nat" where
  "bs_room s = 8 * arr2_bytes s - (8 * (zbits s + numZ s) + nat (bsLive s))"

definition bs_frame :: "'a estate_scheme \<Rightarrow> 'a estate_scheme \<Rightarrow> bool" where
  "bs_frame s t \<longleftrightarrow> (\<exists>a z b l. t = s\<lparr>arr2 := a, numZ := z, bsBuff := b, bsLive := l\<rparr>
     \<and> (\<forall>i < zbits s. a i = arr2 s i))"

lemma bs_frame_refl [simp]: "bs_frame s s"
  unfolding bs_frame_def
  by (intro exI [of _ "arr2 s"] exI [of _ "numZ s"] exI [of _ "bsBuff s"] exI [of _ "bsLive s"]) simp

lemma bs_frame_trans: "bs_frame s t \<Longrightarrow> bs_frame t u \<Longrightarrow> bs_frame s u"
  unfolding bs_frame_def by fastforce

lemma bs_frameI:
  "(\<forall>i < zbits s. a i = arr2 s i) \<Longrightarrow> bs_frame s (s\<lparr>arr2 := a, numZ := z, bsBuff := b, bsLive := l\<rparr>)"
  unfolding bs_frame_def by blast

lemma arr2_bytes_update [simp]:
  "arr2_bytes (s\<lparr>arr2 := a\<rparr>) = arr2_bytes s" "arr2_bytes (s\<lparr>numZ := z\<rparr>) = arr2_bytes s"
  "arr2_bytes (s\<lparr>bsBuff := b\<rparr>) = arr2_bytes s" "arr2_bytes (s\<lparr>bsLive := l\<rparr>) = arr2_bytes s"
  by (simp_all add: arr2_bytes_def)

lemma take_bits_shift:
  fixes b :: u32
  assumes "8 \<le> l" "l \<le> 32"
  shows "bits_of 8 (ucast (drop_bit 24 b) :: u8) @ take (l - 8) (bits_of 32 (push_bit 8 b)) = take l (bits_of 32 b)"
  using assms by (intro nth_equalityI) (auto simp: nth_append nth_bits_of bit_simps)

text \<open>One byte goes from the buffer to \<open>zbits\<close>.\<close>

lemma flush_byte:
  assumes "bs_inv s" "8 \<le> bsLive s"
  obtains a where "put_zbits s (numZ s) (ucast (drop_bit 24 (bsBuff s))) = Some (s\<lparr>arr2 := a\<rparr>)"
    and "bs_inv (s\<lparr>arr2 := a, numZ := numZ s + 1, bsBuff := push_bit 8 (bsBuff s), bsLive := bsLive s - 8\<rparr>)"
    and "bs_written (s\<lparr>arr2 := a, numZ := numZ s + 1, bsBuff := push_bit 8 (bsBuff s), bsLive := bsLive s - 8\<rparr>)
       = bs_written s"
    and "\<forall>i < zbits s. a i = arr2 s i"
proof -
  let ?b = "ucast (drop_bit 24 (bsBuff s)) :: u8"
  let ?a = "(arr2 s)(zbits s + numZ s := ?b)"
  let ?t = "s\<lparr>arr2 := ?a, numZ := numZ s + 1, bsBuff := push_bit 8 (bsBuff s), bsLive := bsLive s - 8\<rparr>"
  have "put_zbits s (numZ s) ?b = Some (s\<lparr>arr2 := ?a\<rparr>)"
    using assms by (simp add: put_zbits_def bs_inv_def)
  moreover have "bs_inv ?t"
    using assms by (auto simp: bs_inv_def bit_simps)
  moreover have "zbytes ?t = zbytes s @ [?b]"
    by (simp add: zbytes_def)
  then have "bs_written ?t = bs_written s"
    using assms take_bits_shift [of "nat (bsLive s)" "bsBuff s"]
    by (auto simp: bs_written_def bs_inv_def nat_diff_distrib)
  moreover have "\<forall>i < zbits s. ?a i = arr2 s i" by simp
  ultimately show thesis using that by blast
qed

lemma bsNEEDW_ok:
  assumes "bs_inv s"
  shows "runs (bsNEEDW s) (\<lambda>t. bs_inv t \<and> bs_written t = bs_written s \<and> bsLive t < 8 \<and> bs_frame s t
     \<and> 8 * int (numZ t) + bsLive t = 8 * int (numZ s) + bsLive s)"
  using assms
proof (induction s rule: bsNEEDW.induct)
  case (1 s)
  show ?case
  proof (cases "bsLive s \<ge> 8")
    case False
    then show ?thesis using 1 by (subst bsNEEDW.simps) simp
  next
    case True
    obtain a where a: "put_zbits s (numZ s) (ucast (drop_bit 24 (bsBuff s))) = Some (s\<lparr>arr2 := a\<rparr>)"
      "bs_inv (s\<lparr>arr2 := a, numZ := numZ s + 1, bsBuff := push_bit 8 (bsBuff s), bsLive := bsLive s - 8\<rparr>)"
      "bs_written (s\<lparr>arr2 := a, numZ := numZ s + 1, bsBuff := push_bit 8 (bsBuff s), bsLive := bsLive s - 8\<rparr>)
         = bs_written s" "\<forall>i < zbits s. a i = arr2 s i"
      by (rule flush_byte [OF 1(2) True])
    let ?t = "s\<lparr>arr2 := a, numZ := numZ s + 1, bsBuff := push_bit 8 (bsBuff s), bsLive := bsLive s - 8\<rparr>"
    have "runs (bsNEEDW ?t) (\<lambda>t. bs_inv t \<and> bs_written t = bs_written ?t \<and> bsLive t < 8 \<and> bs_frame ?t t
       \<and> 8 * int (numZ t) + bsLive t = 8 * int (numZ ?t) + bsLive ?t)"
      using 1(1) [OF True a(1)] a(2) by simp
    moreover have "bs_frame s ?t" using a(4) by (rule bs_frameI)
    ultimately show ?thesis
      using True a by (subst bsNEEDW.simps) (auto elim!: runs_mono intro: bs_frame_trans)
  qed
qed

lemma bits_or:
  fixes b v :: u32
  assumes "\<forall>k < 32 - l. \<not> bit b k" "l + n \<le> 32" "v < 2 ^ n"
  shows "take (l + n) (bits_of 32 (b OR push_bit (32 - l - n) v)) = take l (bits_of 32 b) @ bits_of n v"
proof (intro nth_equalityI)
  have v: "bit v k \<Longrightarrow> k < n" for k using assms(3) by (rule word_bit_less)
  fix i assume "i < length (take (l + n) (bits_of 32 (b OR push_bit (32 - l - n) v)))"
  then have i: "i < l + n" "i < 32" using assms(2) by auto
  show "take (l + n) (bits_of 32 (b OR push_bit (32 - l - n) v)) ! i = (take l (bits_of 32 b) @ bits_of n v) ! i"
  proof (cases "i < l")
    case True
    then have "\<not> bit v (31 - i - (32 - l - n))" using v assms(2) by fastforce
    then show ?thesis using True i assms(2) by (auto simp: nth_append nth_bits_of bit_simps)
  next
    case False
    then have "\<not> bit b (31 - i)" "31 - i - (32 - l - n) = n - 1 - (i - l)" using assms(1,2) i by auto
    then show ?thesis using False i assms(2) by (auto simp: nth_append nth_bits_of bit_simps)
  qed
qed (use assms in auto)

lemma bsW_ok:
  assumes "bs_inv s" "0 < n" "n \<le> 24" "v < 2 ^ n" "n \<le> bs_room s"
  shows "runs (bsW s n v) (\<lambda>t. bs_inv t \<and> bs_written t = bs_written s @ bits_of n v
     \<and> bs_room t = bs_room s - n \<and> bs_frame s t)"
proof -
  obtain t where t: "bsNEEDW s = Some t" "bs_inv t" "bs_written t = bs_written s" "bsLive t < 8" "bs_frame s t"
      "8 * int (numZ t) + bsLive t = 8 * int (numZ s) + bsLive s"
    using bsNEEDW_ok [OF assms(1)] by (auto simp: runs_iff_Some)
  define l where "l = nat (bsLive t)"
  have l: "bsLive t = int l" "l < 8" using t(2,4) by (auto simp: l_def bs_inv_def)
  have same: "zbits t = zbits s" "arr2_bytes t = arr2_bytes s"
    using t(5) by (auto simp: bs_frame_def)
  let ?b = "bsBuff t OR push_bit (32 - l - n) v"
  let ?u = "t\<lparr>bsBuff := ?b, bsLive := int l + int n\<rparr>"
  have zero: "\<forall>k < 32 - l. \<not> bit (bsBuff t) k" using t(2) l by (auto simp: bs_inv_def)
  have "bs_inv ?u"
    using t(2,6) l assms same zero by (auto simp: bs_inv_def bs_room_def bit_simps)
  moreover have "bs_written ?u = bs_written s @ bits_of n v"
    using bits_or [OF zero, of n v] l assms t(3)
    by (simp add: bs_written_def zbytes_def nat_add_distrib)
  moreover have "bs_room ?u = bs_room s - n"
    using t(6) l same assms(1) by (auto simp: bs_room_def bs_inv_def)
  moreover have "bs_frame t ?u"
    using bs_frameI [of t "arr2 t", where z = "numZ t" and b = ?b and l = "int l + int n"] by simp
  moreover have "bsW s n v = Some ?u"
  proof -
    have "32 - bsLive t - int n = int (32 - l - n)" "32 - l - n < 32"
      "nat (32 - (int l + int n)) = 32 - (l + n)" using l assms by auto
    then show ?thesis using t(1) l(1) by (simp add: bsW_def Let_def)
  qed
  ultimately show ?thesis
    using t(5) by (auto intro: bs_frame_trans)
qed

interpretation bs: bit_sink bsW bs_inv bs_written bs_room bs_frame
  by unfold_locales (rule bsW_ok, assumption+, rule bs_frame_refl, rule bs_frame_trans)

lemma bits_of_append:
  fixes u :: u32
  assumes "m \<le> n" "n \<le> 32"
  shows "bits_of n u = bits_of (n - m) (drop_bit m u) @ bits_of m u"
  using assms by (intro nth_equalityI) (auto simp: nth_append nth_bits_of bit_simps)

lemma byte_and: "(u :: u32) AND 0xff = take_bit 8 u"
  by (simp add: take_bit_eq_mask mask_eq_exp_minus_1)

lemma bits_of_take: "n \<le> m \<Longrightarrow> bits_of n (take_bit m u) = bits_of n (u :: u32)"
  by (intro nth_equalityI) (auto simp: nth_bits_of bit_simps)

lemma bsPutUInt32_ok:
  assumes "bs_inv s" "32 \<le> bs_room s"
  shows "runs (bsPutUInt32 s u) (\<lambda>t. bs_inv t \<and> bs_written t = bs_written s @ bits_of 32 u
     \<and> bs_room t = bs_room s - 32 \<and> bs_frame s t)"
proof -
  define ps where "ps = [(8 :: nat, drop_bit 24 u AND 0xff), (8, drop_bit 16 u AND 0xff), (8, drop_bit 8 u AND 0xff), (8, u AND 0xff)]"
  have "bsPutUInt32 s u = for_in ps (\<lambda>(n, v) s. bsW s n v) s"
    by (simp add: bsPutUInt32_def ps_def for_in_Cons_fun)
  moreover have bits: "bs.bits_of_list ps = bits_of 32 u"
    using bits_of_append [of 24 32 u] bits_of_append [of 16 24 u] bits_of_append [of 8 16 u]
    unfolding bs.bits_of_list_def ps_def byte_and by (simp add: bits_of_take)
  moreover have "(take_bit 8 v :: u32) < 2 ^ 8" for v :: u32
    using take_bit_nat_less_exp [of 8 "unat v"] by (simp add: word_less_nat_alt unsigned_take_bit_eq)
  then have "\<forall>p \<in> set ps. bs.fits p"
    unfolding ps_def byte_and by (simp add: bs.fits_def)
  ultimately show ?thesis
    using bs.put_list [OF assms(1), of ps] assms(2) by simp
qed

lemma last_byte:
  fixes b :: u32
  assumes "\<forall>k < 32 - l. \<not> bit b k" "l \<le> 8"
  shows "bits_of 8 (ucast (drop_bit 24 b) :: u8) = take l (bits_of 32 b) @ replicate (8 - l) False"
  using assms by (intro nth_equalityI) (auto simp: nth_append nth_bits_of bit_simps)

lemma bsFinishWrite_ok:
  assumes "bs_inv s"
  shows "runs (bsFinishWrite s) (\<lambda>t. bsLive t \<le> 0 \<and> bs_frame s t
     \<and> (\<exists>k < 8. concat (map (bits_of 8) (zbytes t)) = bs_written s @ replicate k False))"
  using assms
proof (induction s rule: bsFinishWrite.induct)
  case (1 s)
  consider "bsLive s \<le> 0" | "0 < bsLive s" "bsLive s < 8" | "8 \<le> bsLive s" by linarith
  then show ?case
  proof cases
    case 1
    then show ?thesis
      using \<open>bs_inv s\<close> by (subst bsFinishWrite.simps) (auto simp: bs_written_def bs_inv_def intro!: exI [of _ 0])
  next
    case 2
    let ?b = "ucast (drop_bit 24 (bsBuff s)) :: u8"
    let ?a = "(arr2 s)(zbits s + numZ s := ?b)"
    let ?t = "s\<lparr>arr2 := ?a, numZ := numZ s + 1, bsBuff := push_bit 8 (bsBuff s), bsLive := bsLive s - 8\<rparr>"
    have "put_zbits s (numZ s) ?b = Some (s\<lparr>arr2 := ?a\<rparr>)"
      using 2 \<open>bs_inv s\<close> by (simp add: put_zbits_def bs_inv_def)
    then have "bsFinishWrite s = Some ?t"
      using 2 by (subst bsFinishWrite.simps) (simp, subst bsFinishWrite.simps, simp)
    moreover have "zbytes ?t = zbytes s @ [?b]" by (simp add: zbytes_def)
    moreover have "bits_of 8 ?b = take (nat (bsLive s)) (bits_of 32 (bsBuff s)) @ replicate (8 - nat (bsLive s)) False"
      using 2 \<open>bs_inv s\<close> by (intro last_byte) (auto simp: bs_inv_def)
    moreover have "bs_frame s ?t" by (rule bs_frameI) simp
    ultimately show ?thesis
      using 2 by (auto simp: bs_written_def intro!: exI [of _ "8 - nat (bsLive s)"])
  next
    case 3
    obtain a where a: "put_zbits s (numZ s) (ucast (drop_bit 24 (bsBuff s))) = Some (s\<lparr>arr2 := a\<rparr>)"
      "bs_inv (s\<lparr>arr2 := a, numZ := numZ s + 1, bsBuff := push_bit 8 (bsBuff s), bsLive := bsLive s - 8\<rparr>)"
      "bs_written (s\<lparr>arr2 := a, numZ := numZ s + 1, bsBuff := push_bit 8 (bsBuff s), bsLive := bsLive s - 8\<rparr>)
         = bs_written s" "\<forall>i < zbits s. a i = arr2 s i"
      by (rule flush_byte [OF \<open>bs_inv s\<close> 3])
    let ?t = "s\<lparr>arr2 := a, numZ := numZ s + 1, bsBuff := push_bit 8 (bsBuff s), bsLive := bsLive s - 8\<rparr>"
    have pos: "bsLive s > 0" using 3 by simp
    have "runs (bsFinishWrite ?t) (\<lambda>t. bsLive t \<le> 0 \<and> bs_frame ?t t
       \<and> (\<exists>k < 8. concat (map (bits_of 8) (zbytes t)) = bs_written ?t @ replicate k False))"
      using 1(1) [OF pos a(1)] a(2) by simp
    moreover have "bs_frame s ?t" using a(4) by (rule bs_frameI)
    ultimately show ?thesis
      using pos a by (subst bsFinishWrite.simps) (auto elim!: runs_mono intro: bs_frame_trans)
  qed
qed

section \<open>Properties\<close>

text \<open>
  C28: the bit writer: writing a list of fields of 1 to 24 bits with \<open>bsW\<close>, into a state
  whose buffer has room, and finishing with \<open>bsFinishWrite\<close> leaves in \<open>zbits\<close> what was
  written before, then the fields one after the other, most significant bit first, then
  fewer than eight zero bits; the bytes of the block in front of \<open>zbits\<close> are untouched.
\<close>

theorem bit_writer_correct:
  assumes "bs_inv s" "\<forall>(n, v) \<in> set ps. 0 < n \<and> n \<le> 24 \<and> v < 2 ^ n"
    and "length (concat (map (\<lambda>(n, v). bits_of n v) ps)) \<le> bs_room s"
  shows "\<exists>t t' k. for_in ps (\<lambda>(n, v) s. bsW s n v) s = Some t \<and> bsFinishWrite t = Some t' \<and> k < 8
     \<and> concat (map (bits_of 8) (zbytes t'))
         = bs_written s @ concat (map (\<lambda>(n, v). bits_of n v) ps) @ replicate k False
     \<and> (\<forall>i < zbits s. arr2 t' i = arr2 s i)"
proof -
  have fits: "\<forall>p \<in> set ps. bs.fits p" using assms(2) by (simp add: bs.fits_def)
  obtain t where t: "for_in ps (\<lambda>(n, v) s. bsW s n v) s = Some t" "bs_inv t"
      "bs_written t = bs_written s @ concat (map (\<lambda>(n, v). bits_of n v) ps)" "bs_frame s t"
    using bs.put_list [OF assms(1) fits] assms(3) by (auto simp: runs_iff_Some bs.bits_of_list_def)
  obtain t' k where t': "bsFinishWrite t = Some t'" "bs_frame t t'" "k < 8"
      "concat (map (bits_of 8) (zbytes t')) = bs_written t @ replicate k False"
    using bsFinishWrite_ok [OF t(2)] by (auto simp: runs_iff_Some)
  have "bs_frame s t'" using t(4) t'(2) by (rule bs_frame_trans)
  then have "\<forall>i < zbits s. arr2 t' i = arr2 s i" by (auto simp: bs_frame_def)
  with t t' show ?thesis by (intro exI conjI) auto
qed

text \<open>A state with nothing in it, whose blocks have the size for level 1.\<close>

definition empty_estate :: estate where
  "empty_estate = \<lparr>mode = BZ_M_RUNNING, io_state = BZ_S_INPUT, avail_in_expect = 0,
     arr1 = (\<lambda>_. 0), arr2 = (\<lambda>_. 0), origPtr = 0, workFactor = 30, state_in_ch = 256,
     state_in_len = 0, zbits = 0, nblock = 0, nblockMAX = 99981, numZ = 0, state_out_pos = 0, nInUse = 0,
     inUse = replicate 256 False, unseqToSeq = replicate 256 0, bsBuff = 0, bsLive = 0,
     blockCRC = 0, combinedCRC = 0, blockNo = 0, blockSize100k = 1, nMTF = 0,
     mtfFreq = replicate 258 0, selector = replicate 18002 0, selectorMtf = replicate 18002 0,
     len = replicate 6 (replicate 258 0), code = replicate 6 (replicate 258 0),
     rfreq = replicate 6 (replicate 258 0)\<rparr>"

lemma bit_writer_correct_witness:
  "\<exists>t t' k. for_in [(8, 0x42), (1, 1), (24, 0x123456)] (\<lambda>(n, v) s. bsW s n v) empty_estate = Some t
     \<and> bsFinishWrite t = Some t' \<and> k < 8
     \<and> concat (map (bits_of 8) (zbytes t'))
         = bs_written empty_estate @ concat (map (\<lambda>(n, v :: u32). bits_of n v) [(8, 0x42), (1, 1), (24, 0x123456)])
           @ replicate k False
     \<and> (\<forall>i < zbits empty_estate. arr2 t' i = arr2 empty_estate i)"
  by (rule bit_writer_correct)
    (simp_all add: empty_estate_def bs_inv_def bs_room_def arr2_bytes_def)

end
