(* ===== verification/BzMtf.thy ===== *)
theory BzMtf
  imports BzBits
begin

text \<open>
  Move-to-front and run-length coding: \<open>makeMaps_e\<close> and \<open>generateMTFValues\<close> of
  \<open>benchmarks/wasi/bzip2/compress.c\<close>, against an abstract coder on lists that is shown to
  be invertible. The values are written into the memory of the pointers they are computed
  from; the proof shows that a pointer is read before it is overwritten.
\<close>

section \<open>The abstract coder\<close>

text \<open>The place of an element, and the list with the element of a place moved to the front.\<close>

definition place :: "'a \<Rightarrow> 'a list \<Rightarrow> nat" where
  "place x ys = length (takeWhile (\<lambda>y. y \<noteq> x) ys)"

definition front :: "nat \<Rightarrow> 'a list \<Rightarrow> 'a list" where
  "front k ys = ys ! k # take k ys @ drop (Suc k) ys"

text \<open>The run codes: the digits 1 and 2 (RUNA is 0, RUNB is 1) to the base 2, lowest first.\<close>

fun run_codes :: "nat \<Rightarrow> nat list" where
  "run_codes 0 = []"
| "run_codes (Suc n) = (if odd n then 1 else 0) # run_codes (n div 2)"

definition run_value :: "nat list \<Rightarrow> nat" where
  "run_value ds = foldr (\<lambda>d v. d + 1 + 2 * v) ds 0"

text \<open>The codes of a sequence \<open>xs\<close>, with the list \<open>ys\<close> and \<open>z\<close> hits of the front pending.\<close>

fun mtf_codes :: "nat \<Rightarrow> 'a list \<Rightarrow> nat \<Rightarrow> 'a list \<Rightarrow> nat list" where
  "mtf_codes eob ys z [] = run_codes z @ [eob]"
| "mtf_codes eob ys z (x # xs) =
     (if ys ! 0 = x then mtf_codes eob ys (z + 1) xs
      else run_codes z @ (place x ys + 1) # mtf_codes eob (front (place x ys) ys) 0 xs)"

text \<open>The decoder: the run digits read so far (lowest first) and the rest of the codes.\<close>

fun mtf_decode :: "nat \<Rightarrow> 'a list \<Rightarrow> nat list \<Rightarrow> nat list \<Rightarrow> 'a list option" where
  "mtf_decode eob ys ds [] = None"
| "mtf_decode eob ys ds (c # cs) =
     (if c < 2 then mtf_decode eob ys (ds @ [c]) cs
      else let run = replicate (run_value ds) (ys ! 0)
           in if c = eob then (if cs = [] then Some run else None)
              else if c - 1 \<ge> length ys then None
              else map_option (\<lambda>xs. run @ ys ! (c - 1) # xs) (mtf_decode eob (front (c - 1) ys) [] cs))"

lemma run_value_codes: "run_value (run_codes n) = n"
proof (induction n rule: run_codes.induct)
  case (2 n)
  then show ?case by (auto simp: run_value_def elim!: oddE evenE)
qed (simp add: run_value_def)

lemma run_codes_less_2: "d \<in> set (run_codes n) \<Longrightarrow> d < 2"
  by (induction n rule: run_codes.induct) (auto split: if_splits)

lemma length_run_codes: "length (run_codes n) \<le> n"
  by (induction n rule: run_codes.induct) (auto intro: le_trans)

lemma mtf_decode_digits:
  "\<forall>d \<in> set ds'. d < 2 \<Longrightarrow> mtf_decode eob ys ds (ds' @ cs) = mtf_decode eob ys (ds @ ds') cs"
  by (induction ds' arbitrary: ds) auto

lemma place_less: "x \<in> set ys \<Longrightarrow> place x ys < length ys"
  by (induction ys) (auto simp: place_def)

lemma nth_place: "x \<in> set ys \<Longrightarrow> ys ! place x ys = x"
  by (induction ys) (auto simp: place_def)

lemma place_pos: "ys \<noteq> [] \<Longrightarrow> ys ! 0 \<noteq> x \<Longrightarrow> 0 < place x ys"
  by (cases ys) (auto simp: place_def)

lemma set_front: "k < length ys \<Longrightarrow> set (front k ys) = set ys"
proof -
  assume k: "k < length ys"
  have "set ys = set (take k ys @ ys ! k # drop (Suc k) ys)"
    using k by (simp add: Cons_nth_drop_Suc del: set_append)
  then show ?thesis by (auto simp: front_def)
qed

lemma length_front: "k < length ys \<Longrightarrow> length (front k ys) = length ys"
  by (simp add: front_def min_def)

text \<open>Decoding inverts coding.\<close>

lemma mtf_round_trip:
  assumes "set xs \<subseteq> set ys" "ys \<noteq> []" "length ys < eob"
  shows "mtf_decode eob ys [] (mtf_codes eob ys z xs) = Some (replicate z (ys ! 0) @ xs)"
  using assms
proof (induction eob ys z xs rule: mtf_codes.induct)
  case (1 eob ys z)
  then show ?case
    using mtf_decode_digits [of "run_codes z" eob ys "[]" "[eob]"] run_codes_less_2 [of _ z]
    by (cases ys) (auto simp: run_value_codes)
next
  case (2 eob ys z x xs)
  show ?case
  proof (cases "ys ! 0 = x")
    case True
    with 2 show ?thesis by (simp add: replicate_append_same)
  next
    case False
    let ?p = "place x ys"
    have p: "?p < length ys" "ys ! ?p = x" "0 < ?p"
      using 2(3,4) False place_less nth_place place_pos by (auto simp del: place_def)
    have "mtf_decode eob (front ?p ys) [] (mtf_codes eob (front ?p ys) 0 xs)
        = Some (replicate 0 (front ?p ys ! 0) @ xs)"
      using 2(2) [OF False] 2(3-5) p set_front [of ?p ys] length_front [of ?p ys] by (auto simp: front_def)
    then show ?thesis
      using False p 2(5) mtf_decode_digits [of "run_codes z" eob ys "[]"] run_codes_less_2 [of _ z]
      by (simp add: run_value_codes)
  qed
qed

section \<open>The encoder\<close>

text \<open>[bzip2/compress.c 106-115 makeMaps_e]\<close>

definition makeMaps_e :: "'a estate_scheme \<Rightarrow> 'a estate_scheme option" where
  "makeMaps_e s =
     for_in [0..<256] (\<lambda>i s.
       do { u \<leftarrow> aget (inUse s) i;
            if u then do { m \<leftarrow> aput (unseqToSeq s) i (of_nat (nInUse s));
                           Some (s\<lparr>unseqToSeq := m, nInUse := nInUse s + 1\<rparr>) }
            else Some s }) (s\<lparr>nInUse := 0\<rparr>)"

text \<open>[bzip2/bzlib.c 201-201 BZ2_bzCompressInit] A read through \<open>ptr\<close>: two 16-bit words.\<close>

definition get_ptr :: "'a estate_scheme \<Rightarrow> nat \<Rightarrow> u32 option" where
  "get_ptr s i =
     do { lo \<leftarrow> fget (arr1_halfwords s) (arr1 s) (2 * i);
          hi \<leftarrow> fget (arr1_halfwords s) (arr1 s) (2 * i + 1);
          Some (ucast lo OR push_bit 16 (ucast hi)) }"

text \<open>
  [bzip2/compress.c 178-182 generateMTFValues] Append one value (a 16-bit word of
  \<open>mtfv\<close>, which is \<open>arr1\<close>) and count it.
\<close>

definition put_value :: "nat \<Rightarrow> 'a estate_scheme \<times> nat \<Rightarrow> ('a estate_scheme \<times> nat) option" where
  "put_value v = (\<lambda>(s, wr).
     do { a \<leftarrow> fput (arr1_halfwords s) (arr1 s) wr (of_nat v);
          f \<leftarrow> aget (mtfFreq s) v;
          g \<leftarrow> aput (mtfFreq s) v (f + 1);
          Some (s\<lparr>arr1 := a, mtfFreq := g\<rparr>, wr + 1) })"

text \<open>[bzip2/compress.c 176-186 generateMTFValues] The loop over the pending hits, already less one.\<close>

fun put_runs :: "nat \<Rightarrow> 'a estate_scheme \<times> nat \<Rightarrow> ('a estate_scheme \<times> nat) option" where
  "put_runs zPend st =
     do { st \<leftarrow> put_value (if odd zPend then 1 else 0) st;
          if zPend < 2 then Some st else put_runs ((zPend - 2) div 2) st }"

declare put_runs.simps [simp del]

text \<open>[bzip2/compress.c 174-188 generateMTFValues] The pending hits, if any.\<close>

definition flush_runs :: "nat \<Rightarrow> 'a estate_scheme \<times> nat \<Rightarrow> ('a estate_scheme \<times> nat) option" where
  "flush_runs zPend st = (if zPend > 0 then put_runs (zPend - 1) st else Some st)"

text \<open>[bzip2/compress.c 197-203 generateMTFValues] The loop that looks for the byte, from place \<open>j\<close>.\<close>

function mtf_search :: "u8 \<Rightarrow> u8 \<Rightarrow> nat \<Rightarrow> u8 list \<Rightarrow> (u8 \<times> nat \<times> u8 list) option" where
  "mtf_search rll_i rtmp j yy =
     (if rll_i \<noteq> rtmp
      then do { t \<leftarrow> aget yy (j + 1);
                yy \<leftarrow> aput yy (j + 1) rtmp;
                mtf_search rll_i t (j + 1) yy }
      else Some (rtmp, j, yy))"
  by pat_completeness auto
termination
  by (relation "measure (\<lambda>(_, _, j, yy). length yy - j)") (auto simp: aget_def aput_def split: if_splits)

declare mtf_search.simps [simp del]

text \<open>[bzip2/compress.c 189-205 generateMTFValues] Move the byte to the front.\<close>

definition mtf_move :: "u8 \<Rightarrow> u8 list \<Rightarrow> (nat \<times> u8 list) option" where
  "mtf_move ll_i yy =
     do { rtmp \<leftarrow> aget yy 1;
          y0 \<leftarrow> aget yy 0;
          yy \<leftarrow> aput yy 1 y0;
          (rtmp, j, yy) \<leftarrow> mtf_search ll_i rtmp 1 yy;
          yy \<leftarrow> aput yy 0 rtmp;
          Some (j, yy) }"

text \<open>[bzip2/compress.c 163-210 generateMTFValues] One round of the loop over the pointers.\<close>

definition mtf_round ::
    "nat \<Rightarrow> ('a estate_scheme \<times> nat) \<times> nat \<times> u8 list \<Rightarrow> (('a estate_scheme \<times> nat) \<times> nat \<times> u8 list) option" where
  "mtf_round i = (\<lambda>((s, wr), zPend, yy).
     do { p \<leftarrow> get_ptr s i;
          let j = sint (p - 1);
          let j = (if j < 0 then j + int (nblock s) else j);
          guard (0 \<le> j);
          b \<leftarrow> fget (arr2_bytes s) (arr2 s) (nat j);
          ll_i \<leftarrow> aget (unseqToSeq s) (unat b);
          y0 \<leftarrow> aget yy 0;
          if y0 = ll_i then Some ((s, wr), zPend + 1, yy)
          else do { (s, wr) \<leftarrow> flush_runs zPend (s, wr);
                    (j, yy) \<leftarrow> mtf_move ll_i yy;
                    (s, wr) \<leftarrow> put_value (j + 1) (s, wr);
                    Some ((s, wr), 0, yy) } })"

text \<open>[bzip2/compress.c 120-231 generateMTFValues] \<open>yy\<close> is a local array of 256 bytes.\<close>

definition generateMTFValues :: "'a estate_scheme \<Rightarrow> 'a estate_scheme option" where
  "generateMTFValues s =
     do { s \<leftarrow> makeMaps_e s;
          let EOB = nInUse s + 1;
          f \<leftarrow> for_in [0..<EOB + 1] (\<lambda>i f. aput f i 0) (mtfFreq s);
          let s = s\<lparr>mtfFreq := f\<rparr>;
          yy \<leftarrow> for_in [0..<nInUse s] (\<lambda>i yy. aput yy i (of_nat i)) (replicate 256 0);
          ((s, wr), zPend, yy) \<leftarrow> for_in [0..<nblock s] mtf_round ((s, 0), 0, yy);
          (s, wr) \<leftarrow> flush_runs zPend (s, wr);
          (s, wr) \<leftarrow> put_value EOB (s, wr);
          Some (s\<lparr>nMTF := wr\<rparr>) }"

section \<open>The encoder computes the codes\<close>

lemma mtf_search_eq:
  "x \<in> set (r # rest) \<Longrightarrow> length pre = Suc j \<Longrightarrow>
     mtf_search x r j (pre @ rest)
       = Some (x, j + place x (r # rest), pre @ take (place x (r # rest)) (r # rest) @ drop (place x (r # rest)) rest)"
proof (induction rest arbitrary: r j pre)
  case Nil
  then show ?case by (subst mtf_search.simps) (simp add: place_def)
next
  case (Cons t rest)
  show ?case
  proof (cases "x = r")
    case True
    then show ?thesis by (subst mtf_search.simps) (simp add: place_def)
  next
    case False
    then have "place x (r # t # rest) = Suc (place x (t # rest))" by (simp add: place_def)
    moreover have "mtf_search x t (Suc j) ((pre @ [r]) @ rest)
        = Some (x, Suc j + place x (t # rest),
            (pre @ [r]) @ take (place x (t # rest)) (t # rest) @ drop (place x (t # rest)) rest)"
      using Cons False by (intro Cons.IH) auto
    moreover have "(pre @ t # rest) ! Suc j = t" "(pre @ t # rest)[Suc j := r] = pre @ r # rest"
      using Cons.prems(2) by (simp_all add: nth_append list_update_append)
    ultimately show ?thesis
      using False Cons.prems(2) by (subst mtf_search.simps) simp
  qed
qed

lemma mtf_move_eq:
  assumes "x \<in> set yy" "yy ! 0 \<noteq> x" "2 \<le> length yy"
  shows "mtf_move x yy = Some (place x yy, front (place x yy) yy)"
proof -
  obtain a b rest where yy: "yy = a # b # rest"
    using assms(3) by (metis Suc_le_length_iff numeral_2_eq_2)
  let ?k = "place x (b # rest)"
  have x: "x \<in> set (b # rest)" "x \<noteq> a" using assms yy by auto
  have "mtf_search x b 1 ([a, a] @ rest)
      = Some (x, 1 + ?k, [a, a] @ take ?k (b # rest) @ drop ?k rest)"
    using mtf_search_eq [OF x(1), of "[a, a]" 1] by simp
  moreover have "place x yy = Suc ?k" using x(2) by (simp add: yy place_def)
  moreover have "yy ! Suc ?k = x" using nth_place [OF x(1)] by (simp add: yy)
  ultimately show ?thesis
    by (simp add: mtf_move_def yy front_def)
qed

lemma put_runs_eq: "put_runs z st = for_in (run_codes (Suc z)) put_value st"
proof (induction z st rule: put_runs.induct)
  case (1 z st)
  show ?case
  proof (cases "z < 2")
    case True
    then have "z div 2 = 0" by simp
    then show ?thesis using True by (subst put_runs.simps) simp
  next
    case False
    then have "z div 2 = Suc ((z - 2) div 2)" by simp
    then show ?thesis using 1 False by (subst put_runs.simps) (auto intro!: Option.bind_cong [OF refl])
  qed
qed

lemma flush_runs_eq: "flush_runs z st = for_in (run_codes z) put_value st"
  by (cases z) (simp_all add: flush_runs_def put_runs_eq)

text \<open>The codes \<open>cs\<close> have been written since the state \<open>s\<close>, from the beginning of \<open>arr1\<close>.\<close>

definition values_out :: "'a estate_scheme \<Rightarrow> nat list \<Rightarrow> 'a estate_scheme \<times> nat \<Rightarrow> bool" where
  "values_out s cs st \<longleftrightarrow> (\<exists>a f. st = (s\<lparr>arr1 := a, mtfFreq := f\<rparr>, length cs)
     \<and> (\<forall>k < length cs. a k = of_nat (cs ! k)) \<and> (\<forall>k \<ge> length cs. a k = arr1 s k)
     \<and> length f = length (mtfFreq s) \<and> (\<forall>v < length f. f ! v = mtfFreq s ! v + int (count_list cs v)))"

lemma put_value_out:
  assumes "values_out s cs st" "v < length (mtfFreq s)" "length cs < arr1_halfwords s"
  shows "runs (put_value v st) (values_out s (cs @ [v]))"
proof -
  obtain a f where st: "st = (s\<lparr>arr1 := a, mtfFreq := f\<rparr>, length cs)"
      "\<forall>k < length cs. a k = of_nat (cs ! k)" "\<forall>k \<ge> length cs. a k = arr1 s k"
      "length f = length (mtfFreq s)" "\<forall>v < length f. f ! v = mtfFreq s ! v + int (count_list cs v)"
    using assms(1) by (auto simp: values_out_def)
  have "values_out s (cs @ [v]) (s\<lparr>arr1 := a(length cs := of_nat v), mtfFreq := f[v := f ! v + 1]\<rparr>, length cs + 1)"
    unfolding values_out_def using st assms(2)
    by (intro exI [of _ "a(length cs := of_nat v)"] exI [of _ "f[v := f ! v + 1]"] conjI)
      (auto simp: nth_append nth_list_update less_Suc_eq)
  then show ?thesis
    using assms st by (simp add: put_value_def arr1_halfwords_def)
qed

lemma put_values_out:
  assumes "values_out s cs st" "\<forall>v \<in> set vs. v < length (mtfFreq s)" "length cs + length vs \<le> arr1_halfwords s"
  shows "runs (for_in vs put_value st) (values_out s (cs @ vs))"
  using assms
proof (induction vs arbitrary: cs st)
  case (Cons v vs)
  have "runs (put_value v st) (values_out s (cs @ [v]))"
    using Cons.prems by (intro put_value_out) auto
  then obtain st' where "put_value v st = Some st'" "values_out s (cs @ [v]) st'"
    by (auto simp: runs_iff_Some)
  then show ?case using Cons.IH [of "cs @ [v]" st'] Cons.prems by simp
qed simp

text \<open>The index of the byte in front of the rotation that starts at \<open>p\<close>.\<close>

definition before :: "nat \<Rightarrow> nat \<Rightarrow> nat" where
  "before n p = (if p = 0 then n - 1 else p - 1)"

lemma before_less: "p < n \<Longrightarrow> before n p < n"
  by (auto simp: before_def)

text \<open>A pointer that is fetched from \<open>arr1\<close>.\<close>

definition ptr_at :: "'a estate_scheme \<Rightarrow> nat \<Rightarrow> nat" where
  "ptr_at s i = unat (ucast (arr1 s (2 * i)) OR push_bit 16 (ucast (arr1 s (2 * i + 1))) :: u32)"

lemma pointer_before:
  assumes "p = (of_nat q :: u32)" "q < n" "n < 2 ^ 31"
  shows "(let j = sint (p - 1) in if j < 0 then j + int n else j) = int (before n q)"
proof (cases "q = 0")
  case True
  then show ?thesis using assms by (simp add: before_def of_nat_diff)
next
  case False
  then have "p - 1 = of_nat (q - 1)" using assms(1) by (simp add: of_nat_diff)
  moreover have "sint (of_nat (q - 1) :: u32) = int (q - 1)"
    using assms(2,3) by (simp add: sint_uint uint_nat unat_of_nat signed_take_bit_int_eq_self)
  ultimately show ?thesis using False by (simp add: before_def)
qed

lemma front_take:
  assumes "k < m" "m \<le> length ys"
  shows "take m (front k ys) = front k (take m ys)"
  using assms by (cases m) (auto simp: front_def min_def drop_take le_less_Suc_eq)

lemma place_take:
  assumes "x \<in> set (take m ys)"
  shows "place x (take m ys) = place x ys"
  using assms
proof (induction ys arbitrary: m)
  case (Cons y ys)
  then show ?case by (cases m) (auto simp: place_def)
qed simp

text \<open>One round, seen from the state \<open>s\<close> before the first; \<open>xs\<close> is the sequence to be coded.\<close>

definition round_inv ::
    "'a estate_scheme \<Rightarrow> nat \<Rightarrow> u8 list \<Rightarrow> nat \<Rightarrow> ('a estate_scheme \<times> nat) \<times> nat \<times> u8 list \<Rightarrow> bool" where
  "round_inv s m xs i = (\<lambda>(st, z, yy). \<exists>cs. values_out s cs st \<and> length cs + z \<le> i
     \<and> length yy = 256 \<and> set (take m yy) = set (map of_nat [0..<m])
     \<and> cs @ mtf_codes (m + 1) (take m yy) z (drop i xs) = mtf_codes (m + 1) (map of_nat [0..<m]) 0 xs)"

lemma mtf_round_ok:
  assumes "round_inv s m xs i st" "i < nblock s" "length xs = nblock s" "nblock s \<le> 100000 * blockSize100k s"
    and "nblock s < 2 ^ 31" "0 < m" "m \<le> 256" "length (mtfFreq s) = 258" "length (unseqToSeq s) = 256"
    and "ptr_at s i < nblock s" "xs ! i = unseqToSeq s ! unat (arr2 s (before (nblock s) (ptr_at s i)))"
    and "xs ! i \<in> set (map of_nat [0..<m])"
  shows "runs (mtf_round i st) (round_inv s m xs (Suc i))"
proof -
  obtain t wr z yy where [simp]: "st = ((t, wr), z, yy)" by (metis surj_pair)
  obtain cs where cs: "values_out s cs (t, wr)" "length cs + z \<le> i" "length yy = 256"
      "set (take m yy) = set (map of_nat [0..<m])"
      "cs @ mtf_codes (m + 1) (take m yy) z (drop i xs) = mtf_codes (m + 1) (map of_nat [0..<m]) 0 xs"
    using assms(1) by (auto simp: round_inv_def)
  obtain a f where t: "t = s\<lparr>arr1 := a, mtfFreq := f\<rparr>" "\<forall>k \<ge> length cs. a k = arr1 s k"
    using cs(1) by (auto simp: values_out_def)
  let ?x = "xs ! i" and ?p = "ptr_at s i"
  have hw: "arr1_halfwords t = arr1_halfwords s" "2 * i + 1 < arr1_halfwords s"
    using t assms(2,4) by (simp_all add: arr1_halfwords_def)
  have fetched: "get_ptr t i = Some (of_nat ?p)"
    using hw t cs(2) by (simp add: get_ptr_def ptr_at_def)
  have b: "before (nblock s) ?p < nblock s" using assms(10) by (rule before_less)
  have "arr2_bytes t = arr2_bytes s" "nblock s \<le> arr2_bytes s"
    using t assms(4) by (simp_all add: arr2_bytes_def)
  then have byte: "fget (arr2_bytes t) (arr2 t) (before (nblock s) ?p) = Some (arr2 s (before (nblock s) ?p))"
    using b t by simp
  have seq: "aget (unseqToSeq t) (unat (arr2 s (before (nblock s) ?p))) = Some ?x"
    using t assms(9,11) by simp
  have "yy \<noteq> []" using cs(3) by auto
  have nb: "nblock t = nblock s" using t by simp
  have step: "mtf_round i st =
      (if yy ! 0 = ?x then Some ((t, wr), z + 1, yy)
       else do { (s, wr) \<leftarrow> flush_runs z (t, wr);
                 (j, yy) \<leftarrow> mtf_move ?x yy;
                 (s, wr) \<leftarrow> put_value (j + 1) (s, wr);
                 Some ((s, wr), 0, yy) })"
  proof -
    have "(if sint (of_nat ?p - 1 :: u32) < 0 then sint (of_nat ?p - 1 :: u32) + int (nblock t)
        else sint (of_nat ?p - 1 :: u32)) = int (before (nblock s) ?p)"
      using pointer_before [OF refl assms(10,5)] unfolding nb Let_def .
    then show ?thesis
      using fetched byte seq cs(3) by (simp add: mtf_round_def Let_def)
  qed
  have drop: "drop i xs = ?x # drop (Suc i) xs" using assms(2,3) by (simp add: Cons_nth_drop_Suc)
  have hd: "take m yy ! 0 = yy ! 0" using assms(6) by simp
  show ?thesis
  proof (cases "yy ! 0 = ?x")
    case True
    then have "round_inv s m xs (Suc i) ((t, wr), z + 1, yy)"
      using cs hd unfolding round_inv_def drop by auto
    then show ?thesis using True step by simp
  next
    case False
    have "\<forall>v \<in> set (run_codes z). v < length (mtfFreq s)"
      using run_codes_less_2 [of _ z] assms(8) by fastforce
    then have "runs (for_in (run_codes z) put_value (t, wr)) (values_out s (cs @ run_codes z))"
      using cs(2) hw(2) length_run_codes [of z] by (intro put_values_out [OF cs(1)]) auto
    then obtain t1 wr1 where flush: "flush_runs z (t, wr) = Some (t1, wr1)" "values_out s (cs @ run_codes z) (t1, wr1)"
      unfolding flush_runs_eq by (auto simp: runs_iff_Some)
    have x: "?x \<in> set (take m yy)" using assms(12) cs(4) by simp
    then have "?x \<in> set yy" by (meson in_set_takeD)
    then have move: "mtf_move ?x yy = Some (place ?x yy, front (place ?x yy) yy)"
      using mtf_move_eq [of ?x yy] False cs(3) by simp
    have place: "place ?x (take m yy) = place ?x yy" by (rule place_take [OF x])
    have pm: "place ?x yy < m" using place_less [OF x] place assms(7) cs(3) by simp
    have "length (cs @ run_codes z) < arr1_halfwords s"
      using cs(2) length_run_codes [of z] hw(2) by simp
    then obtain t2 wr2 where put: "put_value (place ?x yy + 1) (t1, wr1) = Some (t2, wr2)"
        "values_out s ((cs @ run_codes z) @ [place ?x yy + 1]) (t2, wr2)"
      using put_value_out [OF flush(2), of "place ?x yy + 1"] assms(7,8) pm by (auto simp: runs_iff_Some)
    have "round_inv s m xs (Suc i) ((t2, wr2), 0, front (place ?x yy) yy)"
    proof -
      have "length (front (place ?x yy) yy) = 256" using length_front [of "place ?x yy" yy] pm assms(7) cs(3) by simp
      moreover have fr: "take m (front (place ?x yy) yy) = front (place ?x yy) (take m yy)"
        using front_take [of "place ?x yy" m yy] pm assms(7) cs(3) by simp
      moreover have "set (front (place ?x yy) (take m yy)) = set (take m yy)"
        using set_front [of "place ?x yy" "take m yy"] pm assms(7) cs(3) by simp
      moreover have "length (cs @ run_codes z @ [place ?x yy + 1]) \<le> Suc i"
        using cs(2) length_run_codes [of z] by simp
      moreover have "(cs @ run_codes z @ [place ?x yy + 1])
          @ mtf_codes (m + 1) (front (place ?x yy) (take m yy)) 0 (drop (Suc i) xs)
          = mtf_codes (m + 1) (map of_nat [0..<m]) 0 xs"
        using cs(5) False hd place unfolding drop by simp
      ultimately show ?thesis
        using put(2) cs(4) unfolding round_inv_def by (auto intro!: exI [of _ "cs @ run_codes z @ [place ?x yy + 1]"])
    qed
    then show ?thesis
      using False step flush(1) move put(1) by simp
  qed
qed

text \<open>The maps of the bytes in use.\<close>

definition rank :: "bool list \<Rightarrow> nat \<Rightarrow> nat" where
  "rank us b = length (filter (\<lambda>i. us ! i) [0..<b])"

lemma rank_Suc [simp]: "rank us (Suc b) = rank us b + of_bool (us ! b)"
  by (simp add: rank_def)

lemma rank_0 [simp]: "rank us 0 = 0"
  by (simp add: rank_def)

lemma rank_mono: "b \<le> c \<Longrightarrow> rank us b \<le> rank us c"
  by (induction c) (auto simp: le_Suc_eq)

lemma rank_le: "rank us b \<le> b"
  by (induction b) auto

lemma rank_less: "us ! b \<Longrightarrow> b < c \<Longrightarrow> rank us b < rank us c"
  using rank_mono [of "Suc b" c us] by simp

lemma makeMaps_e_ok:
  assumes "length (inUse s) = 256" "length (unseqToSeq s) = 256"
  shows "\<exists>m. makeMaps_e s = Some (s\<lparr>unseqToSeq := m, nInUse := rank (inUse s) 256\<rparr>) \<and> length m = 256
     \<and> (\<forall>b < 256. inUse s ! b \<longrightarrow> m ! b = of_nat (rank (inUse s) b))"
proof -
  let ?I = "\<lambda>i t. \<exists>m. t = s\<lparr>unseqToSeq := m, nInUse := rank (inUse s) i\<rparr> \<and> length m = 256
     \<and> (\<forall>b < i. inUse s ! b \<longrightarrow> m ! b = of_nat (rank (inUse s) b))"
  have "runs (makeMaps_e s) (?I 256)"
    unfolding makeMaps_e_def
  proof (rule runs_for_upt [where I = ?I])
    show "?I 0 (s\<lparr>nInUse := 0\<rparr>)" using assms(2) by (intro exI [of _ "unseqToSeq s"]) simp
  next
    fix i t assume i: "i < 256" and "?I i t"
    then obtain m where [simp]: "t = s\<lparr>unseqToSeq := m, nInUse := rank (inUse s) i\<rparr>" and m: "length m = 256"
      "\<forall>b < i. inUse s ! b \<longrightarrow> m ! b = of_nat (rank (inUse s) b)" by auto
    show "runs (do { u \<leftarrow> aget (inUse t) i;
            if u then do { m \<leftarrow> aput (unseqToSeq t) i (of_nat (nInUse t));
                           Some (t\<lparr>unseqToSeq := m, nInUse := nInUse t + 1\<rparr>) }
            else Some t }) (?I (Suc i))"
    proof (cases "inUse s ! i")
      case True
      then show ?thesis
        using i m assms by (auto simp: less_Suc_eq nth_list_update
          intro!: exI [of _ "m[i := of_nat (rank (inUse s) i)]"])
    next
      case False
      then show ?thesis using i m assms by (auto simp: less_Suc_eq intro!: exI [of _ m])
    qed
  qed simp
  then show ?thesis by (auto simp: runs_iff_Some)
qed

text \<open>The bytes in use in ascending order, and the last column of the sorted rotations.\<close>

definition used_bytes :: "bool list \<Rightarrow> u8 list" where
  "used_bytes us = map of_nat (filter (\<lambda>i. us ! i) [0..<256])"

definition last_column :: "'a estate_scheme \<Rightarrow> u8 list" where
  "last_column s = map (\<lambda>i. arr2 s (before (nblock s) (ptr_at s i))) [0..<nblock s]"

text \<open>
  What the encoder needs: a block that fits, the sorted pointers, and a mark for every byte
  that occurs in the block.
\<close>

definition block_sorted :: "'a estate_scheme \<Rightarrow> bool" where
  "block_sorted s \<longleftrightarrow> 0 < nblock s \<and> nblock s \<le> 100000 * blockSize100k s \<and> blockSize100k s \<le> 9
     \<and> length (inUse s) = 256 \<and> length (unseqToSeq s) = 256 \<and> length (mtfFreq s) = 258
     \<and> (\<forall>i < nblock s. ptr_at s i < nblock s) \<and> (\<forall>i < nblock s. inUse s ! unat (arr2 s i))"

lemma rank_eq_iff:
  assumes "us ! b" "us ! c"
  shows "rank us b = rank us c \<longleftrightarrow> b = c"
  using rank_less [OF assms(1), of c] rank_less [OF assms(2), of b] by (metis linorder_neq_iff)

lemma ranks_used: "map (rank us) (filter (\<lambda>i. us ! i) [0..<n]) = [0..<rank us n]"
  by (induction n) auto

lemma place_map:
  "inj_on f (insert x (set ys)) \<Longrightarrow> place (f x) (map f ys) = place x ys"
proof (induction ys)
  case (Cons y ys)
  have "f y = f x \<longleftrightarrow> y = x" using Cons.prems by (auto simp: inj_on_def)
  moreover have "inj_on f (insert x (set ys))" using Cons.prems by (auto simp: inj_on_def)
  ultimately show ?case using Cons.IH by (simp add: place_def)
qed (simp add: place_def)

lemma front_map: "k < length ys \<Longrightarrow> front k (map f ys) = map f (front k ys)"
  by (simp add: front_def take_map drop_map)

text \<open>The codes do not depend on the names of the symbols.\<close>

lemma mtf_codes_map:
  assumes "inj_on f (set ys)" "set xs \<subseteq> set ys" "ys \<noteq> []"
  shows "mtf_codes eob (map f ys) z (map f xs) = mtf_codes eob ys z xs"
  using assms
proof (induction eob ys z xs rule: mtf_codes.induct)
  case (2 eob ys z x xs)
  have x: "x \<in> set ys" using 2(4) by simp
  then have ins: "insert x (set ys) = set ys" by auto
  have "f (ys ! 0) = f x \<longleftrightarrow> ys ! 0 = x" using 2(3,5) x by (auto simp: inj_on_def)
  moreover have "place (f x) (map f ys) = place x ys" using 2(3) ins by (intro place_map) simp
  moreover have "ys ! 0 \<noteq> x \<Longrightarrow> mtf_codes eob (map f (front (place x ys) ys)) 0 (map f xs)
      = mtf_codes eob (front (place x ys) ys) 0 xs"
  proof (rule 2(2))
    show "inj_on f (set (front (place x ys) ys))" "set xs \<subseteq> set (front (place x ys) ys)"
      using 2(3,4) unfolding set_front [OF place_less [OF x]] by auto
  qed (simp_all add: front_def)
  ultimately show ?case
    using 2 front_map [OF place_less [OF x], of f] by simp
qed simp

lemma mtf_codes_length: "length (mtf_codes eob ys z xs) \<le> z + length xs + 1"
proof (induction eob ys z xs rule: mtf_codes.induct)
  case (1 eob ys z)
  then show ?case using length_run_codes [of z] by simp
next
  case (2 eob ys z x xs)
  then show ?case using length_run_codes [of z] by (auto intro: le_trans)
qed

lemma mtf_codes_bound:
  assumes "set xs \<subseteq> set ys" "length ys < eob"
  shows "\<forall>c \<in> set (mtf_codes eob ys z xs). c < eob + 1"
  using assms
proof (induction eob ys z xs rule: mtf_codes.induct)
  case (1 eob ys z)
  then show ?case using run_codes_less_2 [of _ z] by fastforce
next
  case (2 eob ys z x xs)
  have x: "place x ys < length ys" using 2(3) place_less by auto
  have "\<forall>c \<in> set (mtf_codes eob (front (place x ys) ys) 0 xs). c < eob + 1" if "ys ! 0 \<noteq> x"
    using 2(2) [OF that] 2(3,4) set_front [OF x] length_front [OF x] by auto
  moreover have "\<forall>c \<in> set (run_codes z). c < eob + 1"
    using run_codes_less_2 [of _ z] x 2(4) by fastforce
  ultimately show ?case using 2 x by auto
qed

text \<open>The code is computed on the ranks of the bytes.\<close>

definition rank_byte :: "bool list \<Rightarrow> u8 \<Rightarrow> u8" where
  "rank_byte us b = of_nat (rank us (unat b))"

lemma of_nat_u8_eq_iff:
  assumes "a < 256" "b < 256"
  shows "(of_nat a :: u8) = of_nat b \<longleftrightarrow> a = b"
proof
  assume "(of_nat a :: u8) = of_nat b"
  then have "unat (of_nat a :: u8) = unat (of_nat b :: u8)" by (rule arg_cong)
  then show "a = b" using assms by (simp add: unat_of_nat)
qed simp

lemma set_used_bytes: "set (used_bytes us) = {b. us ! unat b}"
proof (intro equalityI subsetI)
  fix b :: u8 assume "b \<in> {b. us ! unat b}"
  then have "unat b \<in> set (filter (\<lambda>i. us ! i) [0..<256])" by simp
  then have "of_nat (unat b) \<in> set (used_bytes us)" unfolding used_bytes_def by (simp only: set_map) blast
  then show "b \<in> set (used_bytes us)" by simp
qed (auto simp: used_bytes_def unat_of_nat)

lemma rank_less_256: "us ! unat (b :: u8) \<Longrightarrow> rank us (unat b) < rank us 256"
  by (intro rank_less) auto

lemma inj_rank_byte: "inj_on (rank_byte us) (set (used_bytes us))"
proof (rule inj_onI)
  fix b c assume "b \<in> set (used_bytes us)" "c \<in> set (used_bytes us)" and eq: "rank_byte us b = rank_byte us c"
  then have u: "us ! unat b" "us ! unat c" by (auto simp: set_used_bytes)
  then have "rank us (unat b) < 256" "rank us (unat c) < 256"
    using rank_less_256 [of us b] rank_less_256 [of us c] rank_le [of us 256] by auto
  then have "rank us (unat b) = rank us (unat c)"
    using eq unfolding rank_byte_def by (simp add: of_nat_u8_eq_iff)
  then have "unat b = unat c" using rank_eq_iff [OF u] by simp
  then show "b = c" by (simp add: word_unat_eq_iff)
qed

lemma rank_used_bytes: "map (rank_byte us) (used_bytes us) = map of_nat [0..<rank us 256]"
proof -
  have "map (rank_byte us) (used_bytes us) = map of_nat (map (rank us) (filter (\<lambda>i. us ! i) [0..<256]))"
    by (simp add: used_bytes_def rank_byte_def unat_of_nat)
  then show ?thesis by (simp add: ranks_used)
qed

text \<open>The states between which the encoder works, as the frame of the whole function.\<close>

lemma generateMTFValues_ok:
  assumes "block_sorted s"
  defines "codes \<equiv> mtf_codes (rank (inUse s) 256 + 1) (used_bytes (inUse s)) 0 (last_column s)"
  shows "\<exists>m a f. generateMTFValues s = Some (s\<lparr>unseqToSeq := m, nInUse := rank (inUse s) 256,
        arr1 := a, mtfFreq := f, nMTF := length codes\<rparr>)
     \<and> length m = 256 \<and> (\<forall>k < length codes. a k = of_nat (codes ! k))
     \<and> length f = 258 \<and> (\<forall>v < rank (inUse s) 256 + 2. f ! v = int (count_list codes v))"
proof -
  let ?m = "rank (inUse s) 256" and ?n = "nblock s"
  note bs = assms(1) [unfolded block_sorted_def]
  obtain mp where maps: "makeMaps_e s = Some (s\<lparr>unseqToSeq := mp, nInUse := ?m\<rparr>)" "length mp = 256"
     "\<forall>b < 256. inUse s ! b \<longrightarrow> mp ! b = of_nat (rank (inUse s) b)"
    using makeMaps_e_ok [of s] bs by auto
  have m: "?m \<le> 256" by (rule rank_le)
  have "0 < ?m" using bs rank_less [of "inUse s" "unat (arr2 s 0)" 256] by auto
  define f0 where "f0 = replicate (?m + 2) (0 :: int) @ drop (?m + 2) (mtfFreq s)"
  have f0: "for_in [0..<?m + 2] (\<lambda>i f. aput f i 0) (mtfFreq s) = Some f0"
    using for_in_aput_range [of 0 "?m + 2" "mtfFreq s" "\<lambda>_. 0"] bs m by (simp add: f0_def map_replicate_const)
  define s1 where "s1 = s\<lparr>unseqToSeq := mp, nInUse := ?m, mtfFreq := f0\<rparr>"
  define xs where "xs = map (rank_byte (inUse s)) (last_column s)"
  define yy0 where "yy0 = map of_nat [0..<?m] @ replicate (256 - ?m) (0 :: u8)"
  have yy0: "for_in [0..<?m] (\<lambda>i yy. aput yy i (of_nat i)) (replicate 256 0) = Some yy0"
    using for_in_aput_range [of 0 ?m "replicate 256 0" "of_nat :: nat \<Rightarrow> u8"] m by (simp add: yy0_def)
  have take: "take ?m yy0 = map of_nat [0..<?m]" by (simp add: yy0_def)
  have f0nth: "v < ?m + 2 \<Longrightarrow> f0 ! v = 0" for v
    unfolding f0_def nth_append length_replicate by (simp only: nth_replicate if_True)
  have f0len: "length f0 = 258" using bs m by (simp add: f0_def)
  have start: "round_inv s1 ?m xs 0 ((s1, 0), 0, yy0)"
    unfolding round_inv_def prod.case take using m f0len
    by (intro exI [of _ "[]"]) (auto simp: values_out_def yy0_def s1_def
      intro!: exI [of _ "arr1 s"] exI [of _ f0])
  have col: "set (last_column s) \<subseteq> set (used_bytes (inUse s))"
    using bs before_less by (auto simp: last_column_def set_used_bytes)
  have "used_bytes (inUse s) \<noteq> []"
    using rank_used_bytes [of "inUse s"] \<open>0 < ?m\<close> by (auto simp: upt_conv_Cons)
  then have codes: "codes = mtf_codes (?m + 1) (map of_nat [0..<?m]) 0 xs"
    using mtf_codes_map [OF inj_rank_byte col] unfolding codes_def xs_def rank_used_bytes by simp
  have "runs (for_in [0..<?n] mtf_round ((s1, 0), 0, yy0)) (round_inv s1 ?m xs ?n)"
  proof (rule runs_for_upt [where I = "round_inv s1 ?m xs"])
    fix i st assume i: "0 \<le> i" "i < ?n" and inv: "round_inv s1 ?m xs i st"
    have p: "ptr_at s1 i = ptr_at s i" by (simp add: ptr_at_def s1_def)
    have b: "inUse s ! unat (last_column s ! i)"
      using col i by (metis (no_types, lifting) set_used_bytes last_column_def length_map length_upt
          mem_Collect_eq nth_mem subsetD diff_zero)
    have "xs ! i = mp ! unat (last_column s ! i)"
      using i b maps(3) by (simp add: xs_def last_column_def rank_byte_def)
    moreover have "xs ! i \<in> set (map of_nat [0..<?m])"
      using i rank_less_256 [OF b] by (auto simp: xs_def last_column_def rank_byte_def)
    ultimately show "runs (mtf_round i st) (round_inv s1 ?m xs (Suc i))"
      using bs i p m \<open>0 < ?m\<close> f0len maps(2)
      by (intro mtf_round_ok [OF inv]) (auto simp: s1_def xs_def last_column_def)
  qed (use start in simp_all)
  then obtain t wr z yy cs where loop: "for_in [0..<?n] mtf_round ((s1, 0), 0, yy0) = Some ((t, wr), z, yy)"
      "values_out s1 cs (t, wr)" "length cs + z \<le> ?n"
      "cs @ run_codes z @ [?m + 1] = codes"
    by (auto simp: runs_iff_Some round_inv_def xs_def last_column_def codes)
  have hw: "length cs + length (run_codes z) + 1 \<le> arr1_halfwords s1"
    using loop(3) length_run_codes [of z] bs by (simp add: arr1_halfwords_def s1_def)
  have "runs (for_in (run_codes z @ [?m + 1]) put_value (t, wr)) (values_out s1 (cs @ run_codes z @ [?m + 1]))"
    using hw m f0len run_codes_less_2 [of _ z]
    by (intro put_values_out [OF loop(2)]) (fastforce simp: s1_def)+
  then obtain a f where fin: "flush_runs z (t, wr) \<bind> put_value (?m + 1) = Some (s1\<lparr>arr1 := a, mtfFreq := f\<rparr>, length codes)"
      "\<forall>k < length codes. a k = of_nat (codes ! k)" "length f = 258"
      "\<forall>v < length f. f ! v = f0 ! v + int (count_list codes v)"
    unfolding for_in_append flush_runs_eq [symmetric] for_in_single loop(4)
    using f0len by (auto simp: runs_iff_Some values_out_def s1_def)
  have "f ! v = int (count_list codes v)" if "v < ?m + 2" for v
    using fin(3,4) that m f0nth by simp
  moreover have "generateMTFValues s = Some (s\<lparr>unseqToSeq := mp, nInUse := ?m,
        arr1 := a, mtfFreq := f, nMTF := length codes\<rparr>)"
    using maps f0 yy0 loop(1) fin(1)
    by (auto simp: generateMTFValues_def s1_def Let_def split: bind_splits prod.splits)
  ultimately show ?thesis using maps(2) fin by blast
qed

section \<open>Properties\<close>

text \<open>
  C17: the move-to-front coder works in place and loses nothing: on a block whose pointers
  are in range and whose bytes are marked in \<open>inUse\<close>, \<open>generateMTFValues\<close> reads every
  pointer before it overwrites it, stays inside its arrays, and leaves at most
  \<open>nblock + 1\<close> values whose frequencies it has counted and from which the inverse coder
  recovers the last column of the sorted rotations.
\<close>

theorem mtf_values_decode:
  assumes "block_sorted s"
  shows "\<exists>t. generateMTFValues s = Some t \<and> nMTF t \<le> nblock s + 1 \<and> nInUse t = length (used_bytes (inUse s))
     \<and> (\<forall>v < nInUse t + 2. mtfFreq t ! v = int (count_list (map (\<lambda>k. unat (arr1 t k)) [0..<nMTF t]) v))
     \<and> mtf_decode (nInUse t + 1) (used_bytes (inUse s)) [] (map (\<lambda>k. unat (arr1 t k)) [0..<nMTF t])
         = Some (last_column s)
     \<and> arr2 t = arr2 s"
proof -
  let ?m = "rank (inUse s) 256"
  let ?cs = "mtf_codes (?m + 1) (used_bytes (inUse s)) 0 (last_column s)"
  obtain m a f where g: "generateMTFValues s = Some (s\<lparr>unseqToSeq := m, nInUse := ?m,
        arr1 := a, mtfFreq := f, nMTF := length ?cs\<rparr>)"
     "\<forall>k < length ?cs. a k = of_nat (?cs ! k)" "\<forall>v < ?m + 2. f ! v = int (count_list ?cs v)"
    using generateMTFValues_ok [OF assms] by blast
  have len: "length (used_bytes (inUse s)) = ?m" by (simp add: used_bytes_def rank_def)
  have col: "set (last_column s) \<subseteq> set (used_bytes (inUse s))"
    using assms before_less by (auto simp: last_column_def set_used_bytes block_sorted_def)
  moreover have "last_column s \<noteq> []" using assms by (simp add: last_column_def block_sorted_def)
  ultimately have "used_bytes (inUse s) \<noteq> []" by auto
  then have dec: "mtf_decode (?m + 1) (used_bytes (inUse s)) [] ?cs = Some (last_column s)"
    using mtf_round_trip [OF col, of "?m + 1" 0] len by simp
  have "\<forall>c \<in> set ?cs. c < ?m + 2"
    using mtf_codes_bound [OF col] len by simp
  then have "?cs ! k < 65536" if "k < length ?cs" for k
    using that nth_mem [OF that] rank_le [of "inUse s" 256] by fastforce
  then have "map (\<lambda>k. unat (a k)) [0..<length ?cs] = ?cs"
    using g(2) by (intro nth_equalityI) (simp_all add: unat_of_nat)
  then show ?thesis
    using g dec len mtf_codes_length [of "?m + 1" "used_bytes (inUse s)" 0 "last_column s"]
    by (auto simp: last_column_def)
qed

text \<open>The block \<open>aba\<close>, whose sorted rotations start at 2, 0 and 1.\<close>

definition aba_estate :: estate where
  "aba_estate = empty_estate\<lparr>nblock := 3, inUse := (replicate 256 False)[97 := True, 98 := True],
     arr2 := (\<lambda>i. [97, 98, 97] ! i), arr1 := (\<lambda>i. [2, 0, 0, 0, 1, 0] ! i)\<rparr>"

lemma mtf_values_decode_witness:
  "\<exists>t. generateMTFValues aba_estate = Some t \<and> nMTF t \<le> nblock aba_estate + 1
     \<and> nInUse t = length (used_bytes (inUse aba_estate))
     \<and> (\<forall>v < nInUse t + 2. mtfFreq t ! v = int (count_list (map (\<lambda>k. unat (arr1 t k)) [0..<nMTF t]) v))
     \<and> mtf_decode (nInUse t + 1) (used_bytes (inUse aba_estate)) [] (map (\<lambda>k. unat (arr1 t k)) [0..<nMTF t])
         = Some (last_column aba_estate)
     \<and> arr2 t = arr2 aba_estate"
  by (rule mtf_values_decode)
    (auto simp: aba_estate_def empty_estate_def block_sorted_def ptr_at_def less_Suc_eq numeral_3_eq_3)

end
