(* ===== verification/BzCompress.thy ===== *)
theory BzCompress
  imports BzMtf BzLengths
begin

text \<open>
  The back end of the bzip2 compressor, \<open>sendMTFValues\<close> of
  \<open>benchmarks/wasi/bzip2/compress.c\<close>: the choice of the coding tables, and the transmission
  of the tables, the selectors and the data. Printing, which only happens with a verbosity
  of two or more, is left out.
\<close>

abbreviation BZ_N_GROUPS :: nat where "BZ_N_GROUPS \<equiv> 6"
abbreviation BZ_G_SIZE :: nat where "BZ_G_SIZE \<equiv> 50"
abbreviation BZ_N_ITERS :: nat where "BZ_N_ITERS \<equiv> 4"

text \<open>[bzip2/compress.c 235-236 BZ_LESSER_ICOST]\<close>

definition BZ_LESSER_ICOST :: nat where
  "BZ_LESSER_ICOST = 0"

text \<open>[bzip2/compress.c 235-236 BZ_GREATER_ICOST]\<close>

definition BZ_GREATER_ICOST :: nat where
  "BZ_GREATER_ICOST = 15"

section \<open>The choice of the coding tables\<close>

text \<open>[bzip2/compress.c 259-259 sendMTFValues] A read through \<open>mtfv\<close>.\<close>

definition get_mtfv :: "'a estate_scheme \<Rightarrow> nat \<Rightarrow> nat option" where
  "get_mtfv s i = do { v \<leftarrow> fget (arr1_halfwords s) (arr1 s) i; Some (unat v) }"

text \<open>[bzip2/compress.c 267-269 sendMTFValues]\<close>

definition reset_lens :: "nat \<Rightarrow> 'a estate_scheme \<Rightarrow> 'a estate_scheme option" where
  "reset_lens alphaSize s =
     do { l \<leftarrow> for_in [0..<BZ_N_GROUPS] (\<lambda>t. for_in [0..<alphaSize] (\<lambda>v l. aput2 l t v BZ_GREATER_ICOST)) (len s);
          Some (s\<lparr>len := l\<rparr>) }"

text \<open>[bzip2/compress.c 273-277 sendMTFValues]\<close>

definition choose_groups :: "nat \<Rightarrow> nat" where
  "choose_groups n =
     (if n < 200 then 2 else if n < 600 then 3 else if n < 1200 then 4 else if n < 2400 then 5 else 6)"

text \<open>[bzip2/compress.c 290-293 sendMTFValues] Take symbols until they are frequent enough.\<close>

function take_symbols :: "nat \<Rightarrow> int list \<Rightarrow> int \<Rightarrow> int \<Rightarrow> int \<Rightarrow> (int \<times> int) option" where
  "take_symbols alphaSize freq tFreq ge aFreq =
     (if aFreq < tFreq \<and> ge < int alphaSize - 1
      then do { let ge = ge + 1;
                guard (0 \<le> ge);
                f \<leftarrow> aget freq (nat ge);
                take_symbols alphaSize freq tFreq ge (aFreq + f) }
      else Some (ge, aFreq))"
  by pat_completeness auto
termination
  by (relation "measure (\<lambda>(alphaSize, _, _, ge, _). nat (int alphaSize - 1 - ge))") auto

declare take_symbols.simps [simp del]

text \<open>[bzip2/compress.c 287-311 sendMTFValues] One of the initial tables: its symbols cost nothing.\<close>

definition initial_table ::
    "nat \<Rightarrow> nat \<Rightarrow> nat \<Rightarrow> int \<times> int \<times> 'a estate_scheme \<Rightarrow> (int \<times> int \<times> 'a estate_scheme) option" where
  "initial_table alphaSize nGroups nPart = (\<lambda>(gs, remF, s).
     do { let tFreq = remF div int nPart;
          (ge, aFreq) \<leftarrow> take_symbols alphaSize (mtfFreq s) tFreq (gs - 1) 0;
          (ge, aFreq) \<leftarrow>
            (if ge > gs \<and> nPart \<noteq> nGroups \<and> nPart \<noteq> 1 \<and> (nGroups - nPart) mod 2 = 1
             then do { f \<leftarrow> aget (mtfFreq s) (nat ge); Some (ge - 1, aFreq - f) }
             else Some (ge, aFreq));
          l \<leftarrow> for_in [0..<alphaSize] (\<lambda>v l.
            aput2 l (nPart - 1) v (if int v \<ge> gs \<and> int v \<le> ge then BZ_LESSER_ICOST else BZ_GREATER_ICOST)) (len s);
          Some (ge + 1, remF - aFreq, s\<lparr>len := l\<rparr>) })"

text \<open>[bzip2/compress.c 280-317 sendMTFValues] \<open>nPart\<close> counts down.\<close>

definition initial_tables :: "nat \<Rightarrow> nat \<Rightarrow> 'a estate_scheme \<Rightarrow> 'a estate_scheme option" where
  "initial_tables alphaSize nGroups s =
     do { (gs, remF, s) \<leftarrow> for_in (rev [1..<nGroups + 1]) (initial_table alphaSize nGroups) (0, int (nMTF s), s);
          Some s }"

text \<open>[bzip2/compress.c 324-328 sendMTFValues]\<close>

definition reset_rfreq :: "nat \<Rightarrow> nat \<Rightarrow> 'a estate_scheme \<Rightarrow> 'a estate_scheme option" where
  "reset_rfreq alphaSize nGroups s =
     do { r \<leftarrow> for_in [0..<nGroups] (\<lambda>t. for_in [0..<alphaSize] (\<lambda>v r. aput2 r t v 0)) (rfreq s);
          Some (s\<lparr>rfreq := r\<rparr>) }"

text \<open>
  [bzip2/compress.c 334-340 sendMTFValues] One row of \<open>len_pack\<close>: the lengths of a symbol
  in the six tables, packed in pairs. The lengths are bytes promoted to \<open>int\<close>.
\<close>

definition pack_lens :: "nat list list \<Rightarrow> nat \<Rightarrow> (u32 \<times> u32 \<times> u32) option" where
  "pack_lens l v =
     do { l0 \<leftarrow> aget2 l 0 v; l1 \<leftarrow> aget2 l 1 v; l2 \<leftarrow> aget2 l 2 v;
          l3 \<leftarrow> aget2 l 3 v; l4 \<leftarrow> aget2 l 4 v; l5 \<leftarrow> aget2 l 5 v;
          Some (push_bit 16 (of_nat l1) OR of_nat l0,
                push_bit 16 (of_nat l3) OR of_nat l2,
                push_bit 16 (of_nat l5) OR of_nat l4) }"

text \<open>[bzip2/compress.c 334-340 sendMTFValues] The whole of \<open>len_pack\<close>.\<close>

definition make_len_pack :: "nat \<Rightarrow> 'a estate_scheme \<Rightarrow> (u32 \<times> u32 \<times> u32) list option" where
  "make_len_pack alphaSize s =
     for_in [0..<alphaSize] (\<lambda>v p. do { x \<leftarrow> pack_lens (len s) v; Some (p @ [x]) }) []"

text \<open>[bzip2/compress.c 360-385 sendMTFValues] The costs of a full group, two to a word.\<close>

definition packed_costs :: "(u32 \<times> u32 \<times> u32) list \<Rightarrow> 'a estate_scheme \<Rightarrow> nat \<Rightarrow> u16 list option" where
  "packed_costs pack s gs =
     do { (cost01, cost23, cost45) \<leftarrow> for_in [0..<50] (\<lambda>nn (cost01, cost23, cost45).
            do { icv \<leftarrow> get_mtfv s (gs + nn);
                 (p0, p1, p2) \<leftarrow> aget pack icv;
                 Some (cost01 + p0, cost23 + p1, cost45 + p2) }) (0, 0, 0);
          Some [ucast (cost01 AND 0xffff), ucast (drop_bit 16 cost01),
                ucast (cost23 AND 0xffff), ucast (drop_bit 16 cost23),
                ucast (cost45 AND 0xffff), ucast (drop_bit 16 cost45)] }"

text \<open>[bzip2/compress.c 389-392 sendMTFValues] The costs of any group.\<close>

definition slow_costs :: "nat \<Rightarrow> 'a estate_scheme \<Rightarrow> nat \<Rightarrow> nat \<Rightarrow> u16 list option" where
  "slow_costs nGroups s gs ge =
     for_in [gs..<ge + 1] (\<lambda>i cost.
       do { icv \<leftarrow> get_mtfv s i;
            for_in [0..<nGroups] (\<lambda>t cost.
              do { c \<leftarrow> aget cost t;
                   l \<leftarrow> aget2 (len s) t icv;
                   aput cost t (c + of_nat l) }) cost }) (replicate nGroups 0)"

text \<open>[bzip2/compress.c 356-393 sendMTFValues]\<close>

definition group_costs ::
    "nat \<Rightarrow> (u32 \<times> u32 \<times> u32) list \<Rightarrow> 'a estate_scheme \<Rightarrow> nat \<Rightarrow> nat \<Rightarrow> u16 list option" where
  "group_costs nGroups pack s gs ge =
     (if nGroups = 6 \<and> 50 = ge - gs + 1 then packed_costs pack s gs else slow_costs nGroups s gs ge)"

text \<open>[bzip2/compress.c 399-401 sendMTFValues] The cheapest table; none is \<open>- 1\<close>.\<close>

definition best_table :: "nat \<Rightarrow> u16 list \<Rightarrow> (int \<times> int) option" where
  "best_table nGroups cost =
     for_in [0..<nGroups] (\<lambda>t (bc, bt).
       do { c \<leftarrow> aget cost t;
            Some (if uint c < bc then (uint c, int t) else (bc, bt)) }) (999999999, - 1)"

text \<open>[bzip2/compress.c 413-413 sendMTFValues] \<open>BZ_ITUR\<close>\<close>

definition count_value :: "nat \<Rightarrow> nat \<Rightarrow> 'a estate_scheme \<Rightarrow> 'a estate_scheme option" where
  "count_value bt i s =
     do { icv \<leftarrow> get_mtfv s i;
          n \<leftarrow> aget2 (rfreq s) bt icv;
          r \<leftarrow> aput2 (rfreq s) bt icv (n + 1);
          Some (s\<lparr>rfreq := r\<rparr>) }"

text \<open>[bzip2/compress.c 407-432 sendMTFValues] The symbols of a group are counted for the table.\<close>

definition count_group :: "nat \<Rightarrow> nat \<Rightarrow> nat \<Rightarrow> nat \<Rightarrow> 'a estate_scheme \<Rightarrow> 'a estate_scheme option" where
  "count_group nGroups bt gs ge s =
     (if nGroups = 6 \<and> 50 = ge - gs + 1 then for_in [0..<50] (\<lambda>nn. count_value bt (gs + nn)) s
      else for_in [gs..<ge + 1] (count_value bt) s)"

lemma for_in_shift: "for_in [0..<n] (\<lambda>k. body (g + k)) s = for_in [g..<g + n] body s"
proof -
  have "[g..<g + n] = map (\<lambda>k. g + k) [0..<n]" by (simp add: map_add_upt add.commute [of g])
  then show ?thesis by (simp add: for_in_map)
qed

lemma count_group_eq: "count_group nGroups bt gs ge s = for_in [gs..<ge + 1] (count_value bt) s"
proof (cases "nGroups = 6 \<and> 50 = ge - gs + 1")
  case True
  then have "ge + 1 = gs + 50" by linarith
  then show ?thesis unfolding count_group_def for_in_shift by (simp only: if_cancel)
qed (simp only: count_group_def if_False)

lemma count_group_frame: "count_group nGroups bt gs ge s = Some t \<Longrightarrow> \<exists>r. t = s\<lparr>rfreq := r\<rparr>"
proof -
  assume t: "count_group nGroups bt gs ge s = Some t"
  have "for_in is (count_value bt) s = Some t \<Longrightarrow> \<exists>r. t = s\<lparr>rfreq := r\<rparr>" for "is"
  proof (induction "is" arbitrary: s)
    case Nil
    then show ?case by (intro exI [of _ "rfreq s"]) simp
  next
    case (Cons i "is")
    then show ?case by (force simp: count_value_def split: bind_splits)
  qed
  then show ?thesis using t by (simp add: count_group_eq)
qed

text \<open>
  [bzip2/compress.c 342-435 sendMTFValues] The groups from \<open>gs\<close> on, with the number of
  selectors so far. The counts \<open>fave\<close> and \<open>totc\<close> are only printed.
\<close>

function select_groups ::
    "nat \<Rightarrow> (u32 \<times> u32 \<times> u32) list \<Rightarrow> nat \<Rightarrow> nat \<Rightarrow> 'a estate_scheme \<Rightarrow> (nat \<times> 'a estate_scheme) option" where
  "select_groups nGroups pack gs nSelectors s =
     (if gs \<ge> nMTF s then Some (nSelectors, s)
      else do { let ge = (if gs + BZ_G_SIZE - 1 \<ge> nMTF s then nMTF s - 1 else gs + BZ_G_SIZE - 1);
                cost \<leftarrow> group_costs nGroups pack s gs ge;
                (bc, bt) \<leftarrow> best_table nGroups cost;
                guard (0 \<le> bt);
                sel \<leftarrow> aput (selector s) nSelectors (nat bt);
                s \<leftarrow> count_group nGroups (nat bt) gs ge (s\<lparr>selector := sel\<rparr>);
                select_groups nGroups pack (ge + 1) (nSelectors + 1) s })"
  by pat_completeness auto

termination
  by (relation "measure (\<lambda>(_, _, gs, _, s). nMTF s - gs)")
    (auto split: bind_splits if_splits dest!: count_group_frame)

declare select_groups.simps [simp del]

text \<open>[bzip2/compress.c 449-451 sendMTFValues]\<close>

definition recompute_lens :: "nat \<Rightarrow> nat \<Rightarrow> 'a estate_scheme \<Rightarrow> 'a estate_scheme option" where
  "recompute_lens alphaSize nGroups s =
     for_in [0..<nGroups] (\<lambda>t s.
       do { l \<leftarrow> aget (len s) t;
            r \<leftarrow> aget (rfreq s) t;
            l \<leftarrow> BZ2_hbMakeCodeLengths l r alphaSize 17;
            ls \<leftarrow> aput (len s) t l;
            Some (s\<lparr>len := ls\<rparr>) }) s"

text \<open>[bzip2/compress.c 323-452 sendMTFValues] One iteration; the selectors of the last one count.\<close>

definition improve_tables :: "nat \<Rightarrow> nat \<Rightarrow> 'a estate_scheme \<Rightarrow> (nat \<times> 'a estate_scheme) option" where
  "improve_tables alphaSize nGroups s =
     do { s \<leftarrow> reset_rfreq alphaSize nGroups s;
          pack \<leftarrow> (if nGroups = 6 then make_len_pack alphaSize s else Some []);
          (nSelectors, s) \<leftarrow> select_groups nGroups pack 0 0 s;
          s \<leftarrow> recompute_lens alphaSize nGroups s;
          Some (nSelectors, s) }"

text \<open>[bzip2/compress.c 266-458 sendMTFValues] The tables and the selectors.\<close>

definition choose_tables :: "'a estate_scheme \<Rightarrow> (nat \<times> nat \<times> nat \<times> 'a estate_scheme) option" where
  "choose_tables s =
     do { let alphaSize = nInUse s + 2;
          s \<leftarrow> reset_lens alphaSize s;
          guard (nMTF s > 0);
          let nGroups = choose_groups (nMTF s);
          s \<leftarrow> initial_tables alphaSize nGroups s;
          (nSelectors, s) \<leftarrow> for_in [0..<BZ_N_ITERS] (\<lambda>iter (_, s). improve_tables alphaSize nGroups s) (0, s);
          guard (nGroups < 8);
          guard (nSelectors < 32768 \<and> nSelectors \<le> BZ_MAX_SELECTORS);
          Some (alphaSize, nGroups, nSelectors, s) }"

section \<open>The selectors and the codes\<close>

text \<open>[bzip2/compress.c 467-474 sendMTFValues] The search for a selector, from place \<open>j\<close>.\<close>

function selector_search :: "nat \<Rightarrow> nat \<Rightarrow> nat \<Rightarrow> nat list \<Rightarrow> (nat \<times> nat \<times> nat list) option" where
  "selector_search ll_i tmp j pos =
     (if ll_i \<noteq> tmp
      then do { t \<leftarrow> aget pos (j + 1);
                pos \<leftarrow> aput pos (j + 1) tmp;
                selector_search ll_i t (j + 1) pos }
      else Some (tmp, j, pos))"
  by pat_completeness auto
termination
  by (relation "measure (\<lambda>(_, _, j, pos). length pos - j)") (auto simp: aget_def aput_def split: if_splits)

declare selector_search.simps [simp del]

text \<open>
  [bzip2/compress.c 462-478 sendMTFValues] Of the local array \<open>pos\<close> only the cells that are
  initialised are in the model: a read of another would be undefined.
\<close>

definition selector_mtf :: "nat \<Rightarrow> nat \<Rightarrow> 'a estate_scheme \<Rightarrow> 'a estate_scheme option" where
  "selector_mtf nGroups nSelectors s =
     do { pos \<leftarrow> for_in [0..<nGroups] (\<lambda>i pos. aput pos i i) (replicate nGroups 0);
          (pos, s) \<leftarrow> for_in [0..<nSelectors] (\<lambda>i (pos, s).
            do { ll_i \<leftarrow> aget (selector s) i;
                 tmp \<leftarrow> aget pos 0;
                 (tmp, j, pos) \<leftarrow> selector_search ll_i tmp 0 pos;
                 pos \<leftarrow> aput pos 0 tmp;
                 m \<leftarrow> aput (selectorMtf s) i j;
                 Some (pos, s\<lparr>selectorMtf := m\<rparr>) }) (pos, s);
          Some s }"

text \<open>[bzip2/compress.c 482-487 sendMTFValues] The least and the greatest length of a table.\<close>

definition min_max_len :: "nat \<Rightarrow> nat list \<Rightarrow> (nat \<times> nat) option" where
  "min_max_len alphaSize l =
     for_in [0..<alphaSize] (\<lambda>i (minLen, maxLen).
       do { x \<leftarrow> aget l i;
            let maxLen = (if x > maxLen then x else maxLen);
            let minLen = (if x < minLen then x else minLen);
            Some (minLen, maxLen) }) (32, 0)"

text \<open>[bzip2/compress.c 480-492 sendMTFValues]\<close>

definition assign_table_codes :: "nat \<Rightarrow> nat \<Rightarrow> 'a estate_scheme \<Rightarrow> 'a estate_scheme option" where
  "assign_table_codes alphaSize nGroups s =
     for_in [0..<nGroups] (\<lambda>t s.
       do { l \<leftarrow> aget (len s) t;
            (minLen, maxLen) \<leftarrow> min_max_len alphaSize l;
            guard (\<not> maxLen > 17);
            guard (\<not> minLen < 1);
            c \<leftarrow> aget (code s) t;
            c \<leftarrow> BZ2_hbAssignCodes c l minLen maxLen alphaSize;
            cs \<leftarrow> aput (code s) t c;
            Some (s\<lparr>code := cs\<rparr>) }) s"

section \<open>Transmission\<close>

text \<open>[bzip2/compress.c 505-505 sendMTFValues] One flag.\<close>

definition put_flag :: "bool \<Rightarrow> 'a estate_scheme \<Rightarrow> 'a estate_scheme option" where
  "put_flag b s = (if b then bsW s 1 1 else bsW s 1 0)"

text \<open>[bzip2/compress.c 495-511 sendMTFValues]\<close>

definition send_mapping :: "'a estate_scheme \<Rightarrow> 'a estate_scheme option" where
  "send_mapping s =
     do { inUse16 \<leftarrow> for_in [0..<16] (\<lambda>i inUse16.
            do { inUse16 \<leftarrow> aput inUse16 i False;
                 for_in [0..<16] (\<lambda>j inUse16.
                   do { u \<leftarrow> aget (inUse s) (i * 16 + j);
                        if u then aput inUse16 i True else Some inUse16 }) inUse16 }) (replicate 16 False);
          s \<leftarrow> for_in [0..<16] (\<lambda>i s. do { u \<leftarrow> aget inUse16 i; put_flag u s }) s;
          for_in [0..<16] (\<lambda>i s.
            do { u \<leftarrow> aget inUse16 i;
                 if u then for_in [0..<16] (\<lambda>j s. do { u \<leftarrow> aget (inUse s) (i * 16 + j); put_flag u s }) s
                 else Some s }) s }"

text \<open>[bzip2/compress.c 519-524 sendMTFValues]\<close>

definition send_selectors :: "nat \<Rightarrow> nat \<Rightarrow> 'a estate_scheme \<Rightarrow> 'a estate_scheme option" where
  "send_selectors nGroups nSelectors s =
     do { s \<leftarrow> bsW s 3 (of_nat nGroups);
          s \<leftarrow> bsW s 15 (of_nat nSelectors);
          for_in [0..<nSelectors] (\<lambda>i s.
            do { m \<leftarrow> aget (selectorMtf s) i;
                 s \<leftarrow> for_in [0..<m] (\<lambda>j s. bsW s 1 1) s;
                 bsW s 1 0 }) s }"

text \<open>[bzip2/compress.c 535-537 sendMTFValues] The step from one code length to the next.\<close>

function send_delta :: "nat \<Rightarrow> nat \<Rightarrow> 'a estate_scheme \<Rightarrow> (nat \<times> 'a estate_scheme) option" where
  "send_delta l cur s =
     (if cur < l then do { s \<leftarrow> bsW s 2 2; send_delta l (cur + 1) s }
      else if cur > l then do { s \<leftarrow> bsW s 2 3; send_delta l (cur - 1) s }
      else do { s \<leftarrow> bsW s 1 0; Some (cur, s) })"
  by pat_completeness auto
termination
  by (relation "measure (\<lambda>(l, cur, _). (l - cur) + (cur - l))") auto

declare send_delta.simps [simp del]

text \<open>[bzip2/compress.c 531-539 sendMTFValues]\<close>

definition send_tables :: "nat \<Rightarrow> nat \<Rightarrow> 'a estate_scheme \<Rightarrow> 'a estate_scheme option" where
  "send_tables alphaSize nGroups s =
     for_in [0..<nGroups] (\<lambda>t s.
       do { cur \<leftarrow> aget2 (len s) t 0;
            s \<leftarrow> bsW s 5 (of_nat cur);
            (cur, s) \<leftarrow> for_in [0..<alphaSize] (\<lambda>i (cur, s).
              do { l \<leftarrow> aget2 (len s) t i; send_delta l cur s }) (cur, s);
            Some s }) s"

text \<open>[bzip2/compress.c 561-564 sendMTFValues] \<open>BZ_ITAH\<close>: the code of one value.\<close>

definition send_value :: "nat \<Rightarrow> nat \<Rightarrow> 'a estate_scheme \<Rightarrow> 'a estate_scheme option" where
  "send_value sel i s =
     do { v \<leftarrow> get_mtfv s i;
          l \<leftarrow> aget2 (len s) sel v;
          c \<leftarrow> aget2 (code s) sel v;
          bsW s l (word_of_int c) }"

text \<open>[bzip2/compress.c 552-588 sendMTFValues] The values of one group.\<close>

definition send_group :: "nat \<Rightarrow> nat \<Rightarrow> nat \<Rightarrow> nat \<Rightarrow> 'a estate_scheme \<Rightarrow> 'a estate_scheme option" where
  "send_group nGroups sel gs ge s =
     (if nGroups = 6 \<and> 50 = ge - gs + 1 then for_in [0..<50] (\<lambda>nn. send_value sel (gs + nn)) s
      else for_in [gs..<ge + 1] (send_value sel) s)"

lemma send_group_eq: "send_group nGroups sel gs ge s = for_in [gs..<ge + 1] (send_value sel) s"
proof (cases "nGroups = 6 \<and> 50 = ge - gs + 1")
  case True
  then have "ge + 1 = gs + 50" by linarith
  then show ?thesis unfolding send_group_def for_in_shift by (simp only: if_cancel)
qed (simp only: send_group_def if_False)

text \<open>[bzip2/compress.c 546-593 sendMTFValues] The groups from \<open>gs\<close> on.\<close>

function send_data :: "nat \<Rightarrow> nat \<Rightarrow> nat \<Rightarrow> nat \<Rightarrow> 'a estate_scheme \<Rightarrow> (nat \<times> 'a estate_scheme) option" where
  "send_data nGroups n gs selCtr s =
     (if gs \<ge> n then Some (selCtr, s)
      else do { let ge = (if gs + BZ_G_SIZE - 1 \<ge> n then n - 1 else gs + BZ_G_SIZE - 1);
                sel \<leftarrow> aget (selector s) selCtr;
                guard (sel < nGroups);
                s \<leftarrow> send_group nGroups sel gs ge s;
                send_data nGroups n (ge + 1) (selCtr + 1) s })"
  by pat_completeness auto
termination
  by (relation "measure (\<lambda>(_, n, gs, _, _). n - gs)") (auto split: if_splits)

declare send_data.simps [simp del]

text \<open>[bzip2/compress.c 239-598 sendMTFValues]\<close>

definition sendMTFValues :: "'a estate_scheme \<Rightarrow> 'a estate_scheme option" where
  "sendMTFValues s =
     do { (alphaSize, nGroups, nSelectors, s) \<leftarrow> choose_tables s;
          s \<leftarrow> selector_mtf nGroups nSelectors s;
          s \<leftarrow> assign_table_codes alphaSize nGroups s;
          s \<leftarrow> send_mapping s;
          s \<leftarrow> send_selectors nGroups nSelectors s;
          s \<leftarrow> send_tables alphaSize nGroups s;
          (selCtr, s) \<leftarrow> send_data nGroups (nMTF s) 0 0 s;
          guard (selCtr = nSelectors);
          Some s }"

end
