(* ===== verification/BzTables.thy ===== *)
theory BzTables
  imports BzCompress
begin

text \<open>
  The choice of the coding tables in \<open>sendMTFValues\<close> returns: no access leaves an array,
  the assertions 3001 to 3003 hold, there is one selector for every fifty values, and the
  lengths of every table are those of a full binary tree of depth at most 17.
\<close>

section \<open>Shapes\<close>

definition rect :: "nat \<Rightarrow> nat \<Rightarrow> 'a list list \<Rightarrow> bool" where
  "rect n m xss \<longleftrightarrow> length xss = n \<and> (\<forall>i < n. length (xss ! i) = m)"

lemma rect_update [simp]: "rect n m xss \<Longrightarrow> length ys = m \<Longrightarrow> rect n m (xss[i := ys])"
  unfolding rect_def by (metis length_list_update nth_list_update_eq nth_list_update_neq)

lemma rect_length: "rect n m xss \<Longrightarrow> length xss = n"
  by (simp add: rect_def)

lemma rect_row: "rect n m xss \<Longrightarrow> i < n \<Longrightarrow> length (xss ! i) = m"
  by (simp add: rect_def)

lemma runs_rect_put:
  "rect n m xss \<Longrightarrow> i < n \<Longrightarrow> j < m \<Longrightarrow> runs (aput2 xss i j v) (rect n m)"
  by (simp add: rect_length rect_row)

text \<open>Filling the beginnings of the rows.\<close>

lemma runs_fill_row:
  assumes "rect n m xss" "t < n" "a \<le> m"
  shows "runs (for_in [0..<a] (\<lambda>v l. aput2 l t v (f v)) xss)
     (\<lambda>l. rect n m l \<and> (\<forall>i < n. i \<noteq> t \<longrightarrow> l ! i = xss ! i) \<and> (\<forall>v < a. l ! t ! v = f v))"
  by (rule runs_for_upt [where I = "\<lambda>k l. rect n m l \<and> (\<forall>i < n. i \<noteq> t \<longrightarrow> l ! i = xss ! i)
        \<and> (\<forall>v < k. l ! t ! v = f v)"])
    (use assms in \<open>auto simp: rect_length rect_row less_Suc_eq nth_list_update\<close>)

lemma runs_fill_rows:
  assumes "rect n m xss" "k \<le> n" "a \<le> m"
  shows "runs (for_in [0..<k] (\<lambda>t. for_in [0..<a] (\<lambda>v l. aput2 l t v c)) xss)
     (\<lambda>l. rect n m l \<and> (\<forall>t < k. \<forall>v < a. l ! t ! v = c))"
proof (rule runs_for_upt [where I = "\<lambda>k l. rect n m l \<and> (\<forall>t < k. \<forall>v < a. l ! t ! v = c)"])
  fix i l assume i: "i < k" and l: "rect n m l \<and> (\<forall>t < i. \<forall>v < a. l ! t ! v = c)"
  then show "runs (for_in [0..<a] (\<lambda>v l. aput2 l i v c) l) (\<lambda>l. rect n m l \<and> (\<forall>t < Suc i. \<forall>v < a. l ! t ! v = c))"
    using runs_fill_row [of n m l i a "\<lambda>_. c"] assms(2,3) by (auto elim!: runs_mono simp: less_Suc_eq)
qed (use assms in auto)

text \<open>The parts of the state that the choice reads, and those it writes.\<close>

definition tables_frame :: "'a estate_scheme \<Rightarrow> 'a estate_scheme \<Rightarrow> bool" where
  "tables_frame s t \<longleftrightarrow> t\<lparr>selector := selector s, len := len s, rfreq := rfreq s\<rparr> = s"

lemma tables_frame_refl [simp]: "tables_frame s s"
  by (simp add: tables_frame_def)

lemma tables_frame_update [simp]:
  "tables_frame s (t\<lparr>len := l\<rparr>) \<longleftrightarrow> tables_frame s t"
  "tables_frame s (t\<lparr>rfreq := r\<rparr>) \<longleftrightarrow> tables_frame s t"
  "tables_frame s (t\<lparr>selector := se\<rparr>) \<longleftrightarrow> tables_frame s t"
  by (simp_all add: tables_frame_def)

lemma tables_frame_fields:
  assumes "tables_frame s t"
  shows "t = s\<lparr>selector := selector t, len := len t, rfreq := rfreq t\<rparr>"
proof -
  have "s\<lparr>selector := selector t, len := len t, rfreq := rfreq t\<rparr>
      = t\<lparr>selector := selector s, len := len s, rfreq := rfreq s\<rparr>\<lparr>selector := selector t, len := len t, rfreq := rfreq t\<rparr>"
    using assms unfolding tables_frame_def by metis
  then show ?thesis by simp
qed

lemma tables_frameI: "t = s\<lparr>selector := se, len := l, rfreq := r\<rparr> \<Longrightarrow> tables_frame s t"
  by (simp add: tables_frame_def)

lemma tables_frame_trans:
  assumes "tables_frame s t" "tables_frame t u"
  shows "tables_frame s u"
proof (rule tables_frameI)
  have "u = t\<lparr>selector := selector u, len := len u, rfreq := rfreq u\<rparr>" by (rule tables_frame_fields [OF assms(2)])
  also have "t = s\<lparr>selector := selector t, len := len t, rfreq := rfreq t\<rparr>" by (rule tables_frame_fields [OF assms(1)])
  finally show "u = s\<lparr>selector := selector u, len := len u, rfreq := rfreq u\<rparr>" by simp
qed

lemma tables_frame_selector: "tables_frame (s\<lparr>selector := se\<rparr>) t \<Longrightarrow> tables_frame s t"
  by (rule tables_frame_trans [of _ "s\<lparr>selector := se\<rparr>"]) simp_all

definition tables_shape :: "'a estate_scheme \<Rightarrow> bool" where
  "tables_shape s \<longleftrightarrow> rect 6 258 (len s) \<and> rect 6 258 (rfreq s) \<and> length (selector s) = 18002
     \<and> length (mtfFreq s) = 258"

text \<open>The values that \<open>generateMTFValues\<close> has left.\<close>

definition has_values :: "nat list \<Rightarrow> nat \<Rightarrow> 'a estate_scheme \<Rightarrow> bool" where
  "has_values vs a s \<longleftrightarrow> a = nInUse s + 2 \<and> a \<le> 258 \<and> nMTF s = length vs \<and> 0 < length vs \<and> length vs \<le> 900001
     \<and> length vs \<le> arr1_halfwords s \<and> (\<forall>k < length vs. unat (arr1 s k) = vs ! k \<and> vs ! k < a)"

lemma has_values_frame: "has_values vs a s \<Longrightarrow> tables_frame s t \<Longrightarrow> has_values vs a t"
  by (subst tables_frame_fields) (auto simp: has_values_def arr1_halfwords_def)

lemma get_value: "has_values vs a s \<Longrightarrow> k < length vs \<Longrightarrow> get_mtfv s k = Some (vs ! k)"
  by (simp add: has_values_def get_mtfv_def)

lemma value_less: "has_values vs a s \<Longrightarrow> k < length vs \<Longrightarrow> vs ! k < a \<and> a \<le> 258"
  unfolding has_values_def by blast

section \<open>The initial tables\<close>

lemma take_symbols_ok:
  assumes "a \<le> length freq" "- 1 \<le> ge"
  shows "runs (take_symbols a freq tFreq ge aFreq) (\<lambda>(ge', _). ge \<le> ge' \<and> ge' \<le> max ge (int a - 1))"
  using assms
proof (induction a freq tFreq ge aFreq rule: take_symbols.induct)
  case (1 a freq tFreq ge aFreq)
  show ?case
  proof (cases "aFreq < tFreq \<and> ge < int a - 1")
    case True
    then have "nat (ge + 1) < length freq" using 1(2,3) by linarith
    moreover have "runs (take_symbols a freq tFreq (ge + 1) (aFreq + freq ! nat (ge + 1)))
        (\<lambda>(ge', _). ge + 1 \<le> ge' \<and> ge' \<le> max (ge + 1) (int a - 1))"
      using 1(1) [OF True refl] 1(2,3) True calculation by simp
    ultimately show ?thesis
      using True 1(3) by (subst take_symbols.simps) (auto elim!: runs_mono simp: Let_def)
  next
    case False
    then show ?thesis using 1(3) by (subst take_symbols.simps) auto
  qed
qed

lemma initial_tables_ok:
  assumes "tables_shape s" "a \<le> 258" "nGroups \<le> 6"
  shows "runs (initial_tables a nGroups s) (\<lambda>t. tables_shape t \<and> tables_frame s t)"
proof -
  let ?I = "\<lambda>(gs :: int, remF :: int, t). 0 \<le> gs \<and> tables_shape t \<and> tables_frame s t"
  have "runs (for_in (rev [1..<nGroups + 1]) (initial_table a nGroups) (0, int (nMTF s), s)) ?I"
  proof (rule runs_for_in [where I = ?I])
    show "?I (0, int (nMTF s), s)" using assms by simp
    fix nPart st assume "nPart \<in> set (rev [1..<nGroups + 1])" and I: "?I st"
    then have nPart: "1 \<le> nPart" "nPart \<le> 6" using assms(3) by auto
    obtain gs remF t where [simp]: "st = (gs, remF, t)" by (metis surj_pair)
    have t: "0 \<le> gs" "rect 6 258 (len t)" "rect 6 258 (rfreq t)" "length (selector t) = 18002"
        "length (mtfFreq t) = 258" "tables_frame s t"
      using I by (auto simp: tables_shape_def)
    have "runs (take_symbols a (mtfFreq t) (remF div int nPart) (gs - 1) 0)
        (\<lambda>(ge', _). gs - 1 \<le> ge' \<and> ge' \<le> max (gs - 1) (int a - 1))"
      using t assms(2) by (intro take_symbols_ok) auto
    then obtain ge aFreq where take: "take_symbols a (mtfFreq t) (remF div int nPart) (gs - 1) 0 = Some (ge, aFreq)"
        "gs - 1 \<le> ge" "ge \<le> max (gs - 1) (int a - 1)"
      by (auto simp: runs_iff_Some)
    obtain ge' aFreq' where bk: "(if ge > gs \<and> nPart \<noteq> nGroups \<and> nPart \<noteq> 1 \<and> (nGroups - nPart) mod 2 = 1
             then do { f \<leftarrow> aget (mtfFreq t) (nat ge); Some (ge - 1, aFreq - f) }
             else Some (ge, aFreq)) = Some (ge', aFreq')" "gs - 1 \<le> ge'"
    proof (cases "ge > gs \<and> nPart \<noteq> nGroups \<and> nPart \<noteq> 1 \<and> (nGroups - nPart) mod 2 = 1")
      case True
      then have "nat ge < length (mtfFreq t)" using take(3) t assms(2) by linarith
      then show thesis using that True by auto
    qed (use that take in auto)
    have "runs (for_in [0..<a] (\<lambda>v l. aput2 l (nPart - 1) v
          (if int v \<ge> gs \<and> int v \<le> ge' then BZ_LESSER_ICOST else BZ_GREATER_ICOST)) (len t)) (rect 6 258)"
      using nPart t(2) assms(2) by (intro runs_mono [OF runs_fill_row]) auto
    then show "runs (initial_table a nGroups nPart st) ?I"
      using take(1) bk t unfolding initial_table_def
      by (auto elim!: runs_mono simp: Let_def tables_shape_def)
  qed
  then show ?thesis by (auto simp: initial_tables_def elim!: runs_mono)
qed

lemma reset_lens_ok:
  assumes "tables_shape s" "a \<le> 258"
  shows "runs (reset_lens a s) (\<lambda>t. tables_shape t \<and> tables_frame s t)"
  using runs_fill_rows [of 6 258 "len s" 6 a BZ_GREATER_ICOST] assms
  by (auto simp: reset_lens_def tables_shape_def elim!: runs_mono)

section \<open>One pass over the groups\<close>

text \<open>The frequencies counted so far, of the first \<open>g\<close> values.\<close>

definition counted :: "nat \<Rightarrow> nat \<Rightarrow> nat \<Rightarrow> 'a estate_scheme \<Rightarrow> bool" where
  "counted nGroups a g s \<longleftrightarrow> (\<forall>t < nGroups. (\<forall>v < a. 0 \<le> rfreq s ! t ! v) \<and> (\<Sum>v<a. rfreq s ! t ! v) \<le> int g)"

lemma reset_rfreq_ok:
  assumes "tables_shape s" "a \<le> 258" "nGroups \<le> 6"
  shows "runs (reset_rfreq a nGroups s) (\<lambda>t. tables_shape t \<and> tables_frame s t \<and> counted nGroups a 0 t)"
  using runs_fill_rows [of 6 258 "rfreq s" nGroups a 0] assms
  by (auto simp: reset_rfreq_def tables_shape_def counted_def elim!: runs_mono)

lemma make_len_pack_ok:
  assumes "tables_shape s" "a \<le> 258"
  shows "runs (make_len_pack a s) (\<lambda>p. length p = a)"
  unfolding make_len_pack_def
  by (rule runs_for_upt [where I = "\<lambda>v p. length p = v"])
    (use assms in \<open>auto simp: pack_lens_def tables_shape_def rect_def\<close>)

lemma packed_costs_ok:
  assumes "has_values vs a s" "length pack = a" "gs + 50 \<le> length vs"
  shows "runs (packed_costs pack s gs) (\<lambda>cost. length cost = 6)"
proof -
  have "runs (for_in [0..<50] (\<lambda>nn (cost01, cost23, cost45).
            do { icv \<leftarrow> get_mtfv s (gs + nn);
                 (p0, p1, p2) \<leftarrow> aget pack icv;
                 Some (cost01 + p0, cost23 + p1, cost45 + p2) }) (0, 0, 0)) (\<lambda>_. True)"
  proof (rule runs_for_in)
    fix nn st assume "nn \<in> set [0..<50]"
    then have nn: "gs + nn < length vs" using assms(3) by simp
    then have "vs ! (gs + nn) < length pack" using value_less [OF assms(1) nn] assms(2) by simp
    then show "runs (case st of (cost01, cost23, cost45) \<Rightarrow>
            do { icv \<leftarrow> get_mtfv s (gs + nn);
                 (p0, p1, p2) \<leftarrow> aget pack icv;
                 Some (cost01 + p0, cost23 + p1, cost45 + p2) }) (\<lambda>_. True)"
      using get_value [OF assms(1) nn] by (simp split: prod.split)
  qed simp
  then show ?thesis by (auto simp: packed_costs_def elim!: runs_mono)
qed

lemma slow_costs_ok:
  assumes "has_values vs a s" "tables_shape s" "ge < length vs" "nGroups \<le> 6"
  shows "runs (slow_costs nGroups s gs ge) (\<lambda>cost. length cost = nGroups)"
  unfolding slow_costs_def
proof (rule runs_for_in)
  fix i cost assume "i \<in> set [gs..<ge + 1]" and cost: "length (cost :: u16 list) = nGroups"
  then have i: "i < length vs" using assms(3) by (auto split: if_splits)
  then have "vs ! i < 258" using value_less [OF assms(1) i] by simp
  then have "runs (for_in [0..<nGroups] (\<lambda>t cost.
              do { c \<leftarrow> aget cost t;
                   l \<leftarrow> aget2 (len s) t (vs ! i);
                   aput cost t (c + of_nat l) }) cost) (\<lambda>cost. length cost = nGroups)"
    using assms(2,4) cost by (intro runs_for_in) (auto simp: tables_shape_def rect_def)
  then show "runs (do { icv \<leftarrow> get_mtfv s i;
            for_in [0..<nGroups] (\<lambda>t cost.
              do { c \<leftarrow> aget cost t;
                   l \<leftarrow> aget2 (len s) t icv;
                   aput cost t (c + of_nat l) }) cost }) (\<lambda>cost. length cost = nGroups)"
    using get_value [OF assms(1) i] by simp
qed simp

lemma group_costs_ok:
  assumes "has_values vs a s" "tables_shape s" "gs \<le> ge" "ge < length vs" "nGroups \<le> 6"
    and "nGroups = 6 \<longrightarrow> length pack = a"
  shows "runs (group_costs nGroups pack s gs ge) (\<lambda>cost. length cost = nGroups)"
proof (cases "nGroups = 6 \<and> 50 = ge - gs + 1")
  case True
  then have "gs + 50 \<le> length vs" using assms(3,4) by linarith
  then show ?thesis using packed_costs_ok [OF assms(1), of pack gs] True assms(6) by (simp add: group_costs_def)
next
  case False
  then have "group_costs nGroups pack s gs ge = slow_costs nGroups s gs ge"
    unfolding group_costs_def by (rule if_not_P)
  then show ?thesis using slow_costs_ok [OF assms(1,2,4,5)] by simp
qed

lemma best_table_ok:
  assumes "length cost = nGroups" "0 < nGroups"
  shows "runs (best_table nGroups cost) (\<lambda>(bc, bt). 0 \<le> bt \<and> bt < int nGroups)"
proof -
  let ?I = "\<lambda>t (bc, bt). if t = 0 then bc = (999999999 :: int) \<and> bt = (- 1 :: int) else 0 \<le> bt \<and> bt < int t"
  have "runs (best_table nGroups cost) (?I nGroups)"
    unfolding best_table_def
  proof (rule runs_for_upt [where I = ?I])
    fix t st assume t: "t < nGroups" and st: "?I t st"
    have "uint (cost ! t) < 2 ^ LENGTH(16)" by (rule unsigned_less)
    then have "uint (cost ! t) < 999999999" by simp
    then show "runs (case st of (bc, bt) \<Rightarrow> do { c \<leftarrow> aget cost t;
            Some (if uint c < bc then (uint c, int t) else (bc, bt)) }) (?I (Suc t))"
      using t st assms(1) by (cases st) (auto split: if_splits)
  qed simp_all
  then show ?thesis using assms(2) by (auto elim!: runs_mono)
qed

lemma sum_increment:
  "w < a \<Longrightarrow> length xs \<ge> a \<Longrightarrow> (\<Sum>v<a. xs[w := xs ! w + 1] ! v) = (\<Sum>v<a. xs ! v) + (1 :: int)"
proof -
  assume w: "w < a" "length xs \<ge> a"
  have "(\<Sum>v<a. xs[w := xs ! w + 1] ! v) = (\<Sum>v<a. xs ! v + (if v = w then 1 else 0))"
    using w by (intro sum.cong) (auto simp: nth_list_update)
  then show ?thesis using w by (simp add: sum.distrib)
qed

lemma count_group_ok:
  assumes "has_values vs a s" "tables_shape s" "counted nGroups a gs s" "gs \<le> ge" "ge < length vs"
    and "bt < nGroups" "nGroups \<le> 6"
  shows "runs (count_group nGroups bt gs ge s) (\<lambda>t. tables_shape t \<and> tables_frame s t \<and> selector t = selector s
     \<and> counted nGroups a (ge + 1) t)"
proof -
  let ?I = "\<lambda>i t. tables_shape t \<and> tables_frame s t \<and> selector t = selector s \<and> counted nGroups a i t"
  have a: "a \<le> 258" using assms(1) by (simp add: has_values_def)
  show ?thesis
    unfolding count_group_eq
  proof (rule runs_for_upt [where I = ?I])
    show "?I gs s" using assms by simp
    fix i t assume i: "gs \<le> i" "i < ge + 1" and I: "?I i t"
    then have vi: "i < length vs" using assms(5) by simp
    have get: "get_mtfv t i = Some (vs ! i)" using has_values_frame [OF assms(1)] I vi get_value by blast
    have v: "vs ! i < a" using value_less [OF assms(1) vi] by simp
    let ?row = "rfreq t ! bt"
    have row: "length (rfreq t) = 6" "length ?row = 258"
      using I assms(6,7) by (auto simp: tables_shape_def rect_def)
    let ?u = "t\<lparr>rfreq := (rfreq t)[bt := ?row[vs ! i := ?row ! (vs ! i) + 1]]\<rparr>"
    have "counted nGroups a (Suc i) ?u"
      unfolding counted_def
    proof (intro allI impI)
      fix t' assume t': "t' < nGroups"
      have old: "\<forall>v < a. 0 \<le> rfreq t ! t' ! v" "(\<Sum>v<a. rfreq t ! t' ! v) \<le> int i"
        using I t' by (auto simp: counted_def)
      show "(\<forall>v < a. 0 \<le> rfreq ?u ! t' ! v) \<and> (\<Sum>v<a. rfreq ?u ! t' ! v) \<le> int (Suc i)"
      proof (cases "t' = bt")
        case True
        then have "rfreq ?u ! t' = ?row[vs ! i := ?row ! (vs ! i) + 1]" using row assms(6,7) by simp
        then show ?thesis
          using old v a row sum_increment [OF v, of ?row] True by (auto simp: nth_list_update)
      qed (use old in auto)
    qed
    moreover have "tables_shape ?u" using I row by (auto simp: tables_shape_def)
    ultimately show "runs (count_value bt i t) (?I (Suc i))"
      using get I row v a assms(6,7) by (simp add: count_value_def)
  qed (use assms(4) in simp)
qed

text \<open>One selector for every group that is done.\<close>

definition groups_done :: "nat \<Rightarrow> nat \<Rightarrow> nat \<Rightarrow> nat \<Rightarrow> nat list \<Rightarrow> bool" where
  "groups_done nGroups n gs k sel \<longleftrightarrow> gs \<le> n \<and> gs \<le> 50 * k \<and> 50 * k < gs + 50 \<and> (gs < n \<longrightarrow> gs = 50 * k)
     \<and> (\<forall>i < k. sel ! i < nGroups)"

lemma select_groups_ok:
  assumes "has_values vs a s" "tables_shape s" "counted nGroups a gs s" "0 < nGroups" "nGroups \<le> 6"
    and "nGroups = 6 \<longrightarrow> length pack = a" "groups_done nGroups (length vs) gs k (selector s)"
  shows "runs (select_groups nGroups pack gs k s) (\<lambda>(k', t). tables_shape t \<and> tables_frame s t
     \<and> counted nGroups a (length vs) t \<and> groups_done nGroups (length vs) (length vs) k' (selector t))"
  using assms
proof (induction nGroups pack gs k s rule: select_groups.induct)
  case (1 nGroups pack gs k s)
  have n: "nMTF s = length vs" "length vs \<le> 900001" using 1(2) by (auto simp: has_values_def)
  show ?case
  proof (cases "gs \<ge> length vs")
    case True
    then have "gs = length vs" using 1(8) by (simp add: groups_done_def)
    then show ?thesis using 1(2-8) n by (subst select_groups.simps) simp
  next
    case False
    define ge where "ge = (if gs + BZ_G_SIZE - 1 \<ge> nMTF s then nMTF s - 1 else gs + BZ_G_SIZE - 1)"
    have ge: "gs \<le> ge" "ge < length vs" using False n by (auto simp: ge_def)
    have k: "gs = 50 * k" using 1(8) False by (simp add: groups_done_def)
    obtain cost where cost: "group_costs nGroups pack s gs ge = Some cost" "length cost = nGroups"
      using group_costs_ok [OF 1(2,3) ge 1(6,7)] by (auto simp: runs_iff_Some)
    obtain bc bt where best: "best_table nGroups cost = Some (bc, bt)" "0 \<le> bt" "bt < int nGroups"
      using best_table_ok [OF cost(2) 1(5)] by (auto simp: runs_iff_Some)
    have "k < length (selector s)" using k False n 1(3) by (simp add: tables_shape_def)
    then obtain sel where sel: "aput (selector s) k (nat bt) = Some sel" "sel = (selector s)[k := nat bt]"
        "length sel = length (selector s)" by simp
    let ?s = "s\<lparr>selector := sel\<rparr>"
    have vals: "has_values vs a ?s" using has_values_frame [OF 1(2)] by simp
    have "runs (count_group nGroups (nat bt) gs ge ?s) (\<lambda>t. tables_shape t \<and> tables_frame ?s t \<and> selector t = selector ?s
         \<and> counted nGroups a (ge + 1) t)"
      using 1(3,4,6) sel(3) best by (intro count_group_ok [OF vals _ _ ge]) (auto simp: tables_shape_def counted_def)
    then obtain t where t: "count_group nGroups (nat bt) gs ge ?s = Some t" "tables_shape t" "tables_frame ?s t"
        "selector t = sel" "counted nGroups a (ge + 1) t" by (auto simp: runs_iff_Some)
    have fr: "tables_frame s t" using t(3) by (rule tables_frame_selector)
    have vals_t: "has_values vs a t" using has_values_frame [OF 1(2) fr] .
    have dn: "groups_done nGroups (length vs) (ge + 1) (k + 1) (selector t)"
    proof -
      have "ge + 1 \<le> gs + 50" "ge + 1 < length vs \<longrightarrow> ge + 1 = gs + 50" using n by (auto simp: ge_def)
      moreover have "\<forall>i < k. selector s ! i < nGroups" using 1(8) by (simp add: groups_done_def)
      then have "\<forall>i < k + 1. sel ! i < nGroups"
        using sel best \<open>k < length (selector s)\<close> by (auto simp: nth_list_update less_Suc_eq)
      ultimately show ?thesis using ge k t(4) by (simp add: groups_done_def)
    qed
    have "runs (select_groups nGroups pack (ge + 1) (k + 1) t) (\<lambda>(k', u). tables_shape u \<and> tables_frame t u
     \<and> counted nGroups a (length vs) u \<and> groups_done nGroups (length vs) (length vs) k' (selector u))"
      by (rule 1(1) [OF _ ge_def cost(1) best(1) refl _ sel(1) t(1) vals_t t(2,5) 1(5,6,7) dn])
        (use False n best in auto)
    moreover have "select_groups nGroups pack gs k s = select_groups nGroups pack (ge + 1) (k + 1) t"
      unfolding select_groups.simps [of nGroups pack gs k s] Let_def ge_def [symmetric]
      using False n(1) cost best sel(1) t(1) by simp
    moreover have "tables_frame t u \<Longrightarrow> tables_frame s u" for u
      using fr by (rule tables_frame_trans)
    ultimately show ?thesis by (auto elim!: runs_mono)
  qed
qed

section \<open>The new tables\<close>

text \<open>What a table has after a pass: lengths from 1 to 17 of a full binary tree.\<close>

definition full_table :: "nat \<Rightarrow> nat list \<Rightarrow> bool" where
  "full_table a l \<longleftrightarrow> (\<forall>i < a. 1 \<le> l ! i \<and> l ! i \<le> 17) \<and> (\<Sum>i<a. 2 ^ (17 - l ! i)) = (2 :: nat) ^ 17"

lemma recompute_lens_ok:
  assumes "tables_shape s" "counted nGroups a n s" "n \<le> 900001" "2 \<le> a" "a \<le> 258" "nGroups \<le> 6"
  shows "runs (recompute_lens a nGroups s) (\<lambda>t. tables_shape t \<and> tables_frame s t \<and> selector t = selector s
     \<and> (\<forall>i < nGroups. full_table a (len t ! i)))"
proof -
  let ?I = "\<lambda>k t. tables_shape t \<and> tables_frame s t \<and> selector t = selector s \<and> rfreq t = rfreq s
     \<and> (\<forall>i < k. full_table a (len t ! i))"
  have "runs (recompute_lens a nGroups s) (?I nGroups)"
    unfolding recompute_lens_def
  proof (rule runs_for_upt [where I = ?I])
    fix k t assume k: "k < nGroups" and I: "?I k t"
    have rows: "length (len t) = 6" "length (len t ! k) = 258" "length (rfreq t) = 6" "length (rfreq t ! k) = 258"
      using I k assms(6) by (auto simp: tables_shape_def rect_def)
    have f: "\<forall>v < a. 0 \<le> rfreq t ! k ! v" "(\<Sum>v<a. rfreq t ! k ! v) \<le> int n"
      using I k assms(2) by (auto simp: counted_def)
    have "(\<Sum>i\<leftarrow>[0..<a]. max 1 (rfreq t ! k ! i)) = (\<Sum>v<a. max 1 (rfreq t ! k ! v))"
      by (simp add: interv_sum_list_conv_sum_set_nat atLeast0LessThan)
    also have "\<dots> \<le> (\<Sum>v<a. 1 + rfreq t ! k ! v)" using f by (intro sum_mono) auto
    also have "\<dots> = int a + (\<Sum>v<a. rfreq t ! k ! v)" by (simp add: sum.distrib)
    also have "\<dots> < 2 ^ 23" using f(2) assms(3,5) by simp
    finally obtain l' where l': "BZ2_hbMakeCodeLengths (len t ! k) (rfreq t ! k) a 17 = Some l'" "length l' = 258"
        "full_table a l'"
      using make_code_lengths_ok [of a "len t ! k" "rfreq t ! k" 17] rows assms(4,5) f(1)
      by (auto simp: full_table_def)
    have "\<forall>i < Suc k. full_table a ((len t)[k := l'] ! i)"
      using I l'(3) rows k assms(6) by (auto simp: nth_list_update less_Suc_eq)
    then show "runs (do { l \<leftarrow> aget (len t) k;
            r \<leftarrow> aget (rfreq t) k;
            l \<leftarrow> BZ2_hbMakeCodeLengths l r a 17;
            ls \<leftarrow> aput (len t) k l;
            Some (t\<lparr>len := ls\<rparr>) }) (?I (Suc k))"
      using rows l' I k assms(6) by (auto simp: tables_shape_def)
  qed (use assms in simp_all)
  then show ?thesis by (auto elim!: runs_mono)
qed

definition tables_chosen :: "nat \<Rightarrow> nat \<Rightarrow> nat \<Rightarrow> nat \<Rightarrow> 'a estate_scheme \<Rightarrow> bool" where
  "tables_chosen nGroups a n k s \<longleftrightarrow> tables_shape s \<and> (\<forall>i < nGroups. full_table a (len s ! i))
     \<and> k = (n + 49) div 50 \<and> (\<forall>i < k. selector s ! i < nGroups)"

lemma improve_tables_ok:
  assumes "has_values vs a s" "tables_shape s" "0 < nGroups" "nGroups \<le> 6"
  shows "runs (improve_tables a nGroups s) (\<lambda>(k, t). tables_frame s t \<and> tables_chosen nGroups a (length vs) k t)"
proof -
  have a: "2 \<le> a" "a \<le> 258" and n: "length vs \<le> 900001" using assms(1) by (auto simp: has_values_def)
  obtain s1 where s1: "reset_rfreq a nGroups s = Some s1" "tables_shape s1" "tables_frame s s1" "counted nGroups a 0 s1"
    using reset_rfreq_ok [OF assms(2) a(2) assms(4)] by (auto simp: runs_iff_Some)
  obtain pack where pack: "(if nGroups = 6 then make_len_pack a s1 else Some []) = Some pack"
      "nGroups = 6 \<longrightarrow> length pack = a"
    using make_len_pack_ok [OF s1(2) a(2)] by (cases "nGroups = 6") (auto simp: runs_iff_Some)
  have v1: "has_values vs a s1" using has_values_frame [OF assms(1) s1(3)] .
  have "groups_done nGroups (length vs) 0 0 (selector s1)" by (simp add: groups_done_def)
  from select_groups_ok [OF v1 s1(2,4) assms(3,4) pack(2) this]
  obtain k s2 where s2: "select_groups nGroups pack 0 0 s1 = Some (k, s2)" "tables_shape s2" "tables_frame s1 s2"
      "counted nGroups a (length vs) s2" "groups_done nGroups (length vs) (length vs) k (selector s2)"
    by (auto simp: runs_iff_Some)
  obtain s3 where s3: "recompute_lens a nGroups s2 = Some s3" "tables_shape s3" "tables_frame s2 s3"
      "selector s3 = selector s2" "\<forall>i < nGroups. full_table a (len s3 ! i)"
    using recompute_lens_ok [OF s2(2,4) n a assms(4)] by (auto simp: runs_iff_Some)
  have "k = (length vs + 49) div 50" using s2(5) unfolding groups_done_def by linarith
  moreover have "tables_frame s s3" using s1(3) s2(3) s3(3) by (blast intro: tables_frame_trans)
  ultimately show ?thesis
    using s1(1) pack(1) s2(1,5) s3 by (simp add: improve_tables_def tables_chosen_def groups_done_def)
qed

lemma choose_tables_ok:
  assumes "has_values vs a s" "tables_shape s"
  shows "\<exists>nGroups k t. choose_tables s = Some (a, nGroups, k, t) \<and> 2 \<le> nGroups \<and> nGroups \<le> 6
     \<and> tables_frame s t \<and> tables_chosen nGroups a (length vs) k t"
proof -
  have n: "nMTF s = length vs" "0 < length vs" "length vs \<le> 900001" and a: "a = nInUse s + 2" "a \<le> 258"
    using assms(1) by (auto simp: has_values_def)
  define nGroups where "nGroups = choose_groups (length vs)"
  have g: "2 \<le> nGroups" "nGroups \<le> 6" by (auto simp: nGroups_def choose_groups_def)
  obtain s1 where s1: "reset_lens a s = Some s1" "tables_shape s1" "tables_frame s s1"
    using reset_lens_ok [OF assms(2) a(2)] by (auto simp: runs_iff_Some)
  have n1: "nMTF s1 = length vs" using has_values_frame [OF assms(1) s1(3)] by (simp add: has_values_def)
  obtain s2 where s2: "initial_tables a nGroups s1 = Some s2" "tables_shape s2" "tables_frame s1 s2"
    using initial_tables_ok [OF s1(2) a(2) g(2)] by (auto simp: runs_iff_Some)
  have f2: "tables_frame s s2" using s1(3) s2(3) by (rule tables_frame_trans)
  let ?I = "\<lambda>i :: nat. \<lambda>(k, t). tables_frame s t \<and> tables_shape t \<and> (0 < i \<longrightarrow> tables_chosen nGroups a (length vs) k t)"
  have "runs (for_in [0..<BZ_N_ITERS] (\<lambda>iter (_, s). improve_tables a nGroups s) (0, s2)) (?I BZ_N_ITERS)"
  proof (rule runs_for_upt [where I = ?I])
    fix i st assume I: "?I i st"
    obtain k t where [simp]: "st = (k, t)" by fastforce
    have "has_values vs a t" using has_values_frame [OF assms(1)] I by simp
    then show "runs (case st of (_, s) \<Rightarrow> improve_tables a nGroups s) (?I (Suc i))"
      using improve_tables_ok [of vs a t nGroups] I g
      by (auto simp: tables_chosen_def elim!: runs_mono intro: tables_frame_trans)
  qed (use f2 s2(2) in simp_all)
  then obtain k t where t: "for_in [0..<BZ_N_ITERS] (\<lambda>iter (_, s). improve_tables a nGroups s) (0, s2) = Some (k, t)"
      "tables_frame s t" "tables_chosen nGroups a (length vs) k t"
    by (auto simp: runs_iff_Some)
  have k: "k = (length vs + 49) div 50" using t(3) by (simp add: tables_chosen_def)
  then have "k \<le> 18001" using n(3) by simp
  then have "choose_tables s = Some (a, nGroups, k, t)"
    using s1(1) n1 n(2) s2(1) t(1) g unfolding choose_tables_def a(1) [symmetric]
    by (simp add: Let_def nGroups_def BZ_MAX_SELECTORS_def del: upt_rec_numeral)
  then show ?thesis using g t by blast
qed

section \<open>The costs of a full group\<close>

text \<open>Two halves of a word.\<close>

lemma pair_word: "l0 < 65536 \<Longrightarrow> push_bit 16 (of_nat l1 :: u32) OR of_nat l0 = of_nat (65536 * l1 + l0)"
proof -
  assume l: "l0 < 65536"
  have "push_bit 16 (of_nat l1 :: u32) OR of_nat l0 = push_bit 16 (of_nat l1) + of_nat l0"
  proof (rule disjunctive_add [symmetric])
    fix n 
    have "bit l0 n \<Longrightarrow> n < 16" using nat_bit_le [of l0 n] l power_increasing [of 16 n "2::nat"] by (cases "n < 16") auto
    then show "\<not> bit (push_bit 16 (of_nat l1) :: u32) n \<or> \<not> bit (of_nat l0 :: u32) n"
      by (auto simp: bit_simps)
  qed
  then show ?thesis by (simp add: push_bit_eq_mult)
qed

lemma low_half: "(ucast ((of_nat (65536 * c1 + c0) :: u32) AND 0xffff) :: u16) = of_nat c0"
proof -
  have ffff: "(0xffff :: u32) = mask 16" by (simp add: mask_eq_exp_minus_1)
  have "(ucast ((x :: u32) AND 0xffff) :: u16) = ucast x" for x
    unfolding ffff by (rule bit_word_eqI) (auto simp: bit_simps)
  moreover have "(ucast (of_nat n :: u32) :: u16) = of_nat n" for n
    by (rule bit_word_eqI) (auto simp: bit_simps)
  ultimately have "(ucast ((of_nat n :: u32) AND 0xffff) :: u16) = of_nat n" for n by (simp only:)
  moreover have "(of_nat (65536 * c1 + c0) :: u16) = of_nat c0"
  proof -
    have "(of_nat 65536 :: u16) = 0" by (rule word_unat_eq_iff [THEN iffD2]) (simp only: unsigned_of_nat, simp)
    then show ?thesis by (simp only: of_nat_add of_nat_mult mult_zero_left add_0)
  qed
  ultimately show ?thesis by metis
qed

lemma high_half: "c0 < 65536 \<Longrightarrow> c1 < 65536 \<Longrightarrow>
    (ucast (drop_bit 16 (of_nat (65536 * c1 + c0) :: u32)) :: u16) = of_nat c1"
proof -
  assume c: "c0 < 65536" "c1 < 65536"
  have "drop_bit 16 (of_nat n :: u32) = of_nat (n div 65536)" if "n < 2 ^ 32" for n
  proof (rule word_unat_eq_iff [THEN iffD2])
    have "unat (drop_bit 16 (of_nat n :: u32)) = drop_bit 16 (unat (of_nat n :: u32))"
      by (rule bit_eqI) (auto simp: bit_simps)
    then show "unat (drop_bit 16 (of_nat n :: u32)) = unat (of_nat (n div 65536) :: u32)"
      using that by (simp add: unsigned_of_nat drop_bit_eq_div take_bit_eq_mod)
  qed
  from this [of "65536 * c1 + c0"] have "drop_bit 16 (of_nat (65536 * c1 + c0) :: u32) = of_nat c1"
    using c by (simp del: of_nat_add of_nat_mult)
  moreover have "(ucast (of_nat n :: u32) :: u16) = of_nat n" for n
    by (rule bit_word_eqI) (auto simp: bit_simps)
  ultimately show ?thesis by simp
qed

text \<open>The cost of \<open>k\<close> values from place \<open>gs\<close> on, as coded by table \<open>t\<close>.\<close>

definition cost_sum :: "'a estate_scheme \<Rightarrow> nat list \<Rightarrow> nat \<Rightarrow> nat \<Rightarrow> nat \<Rightarrow> nat" where
  "cost_sum s vs gs t k = (\<Sum>i<k. len s ! t ! (vs ! (gs + i)))"

lemma cost_sum_le: "(\<And>i. i < k \<Longrightarrow> len s ! t ! (vs ! (gs + i)) \<le> m) \<Longrightarrow> cost_sum s vs gs t k \<le> m * k"
  unfolding cost_sum_def using sum_bounded_above [of "{..<k}" "\<lambda>i. len s ! t ! (vs ! (gs + i))" m] by (simp add: mult.commute)

lemma slow_costs_eq:
  assumes "has_values vs a s" "tables_shape s" "gs \<le> ge" "ge < length vs" "nGroups \<le> 6"
  shows "slow_costs nGroups s gs ge = Some (map (\<lambda>t. of_nat (cost_sum s vs gs t (ge + 1 - gs))) [0..<nGroups])"
proof -
  let ?I = "\<lambda>i cost. cost = map (\<lambda>t. of_nat (cost_sum s vs gs t (i - gs)) :: u16) [0..<nGroups]"
  have "runs (slow_costs nGroups s gs ge) (?I (ge + 1))"
    unfolding slow_costs_def
  proof (rule runs_for_upt [where I = ?I])
    fix i cost assume i: "gs \<le> i" "i < ge + 1" and cost: "?I i cost"
    then have vi: "i < length vs" using assms(4) by simp
    have v: "vs ! i < 258" using value_less [OF assms(1) vi] by simp
    have step: "cost_sum s vs gs t (Suc i - gs) = cost_sum s vs gs t (i - gs) + len s ! t ! (vs ! i)" for t
      using i by (simp add: cost_sum_def Suc_diff_le)
    have "for_in [0..<nGroups] (\<lambda>t cost.
              do { c \<leftarrow> aget cost t;
                   l \<leftarrow> aget2 (len s) t (vs ! i);
                   aput cost t (c + of_nat l) }) cost
        = Some (map (\<lambda>t. of_nat (cost_sum s vs gs t (Suc i - gs))) [0..<nGroups] @ drop nGroups cost)"
    proof (rule for_in_aput)
      fix k ys assume k: "k < nGroups" "length ys = length cost" "drop k ys = drop k cost"
      have "length cost = nGroups" using cost by simp
      moreover have "drop k ys ! 0 = drop k cost ! 0" using k(3) by (rule arg_cong)
      ultimately have "ys ! k = cost ! k" using k(1,2) by simp
      then show "do { c \<leftarrow> aget ys k; l \<leftarrow> aget2 (len s) k (vs ! i); aput ys k (c + of_nat l) }
          = Some (ys[k := of_nat (cost_sum s vs gs k (Suc i - gs))])"
        using k cost v assms(2,5) by (simp add: step tables_shape_def rect_def)
    qed (use cost in simp)
    moreover have "drop nGroups cost = []" using cost by simp
    ultimately have "for_in [0..<nGroups] (\<lambda>t cost.
              do { c \<leftarrow> aget cost t;
                   l \<leftarrow> aget2 (len s) t (vs ! i);
                   aput cost t (c + of_nat l) }) cost
        = Some (map (\<lambda>t. of_nat (cost_sum s vs gs t (Suc i - gs))) [0..<nGroups])" by (simp only: append_Nil2)
    then show "runs (do { icv \<leftarrow> get_mtfv s i;
            for_in [0..<nGroups] (\<lambda>t cost.
              do { c \<leftarrow> aget cost t;
                   l \<leftarrow> aget2 (len s) t icv;
                   aput cost t (c + of_nat l) }) cost }) (?I (Suc i))"
      by (simp only: get_value [OF assms(1) vi] Option.bind.bind_lunit runs_simps)
  qed (use assms(3) in \<open>simp_all add: cost_sum_def map_replicate_const\<close>)
  then show ?thesis by (auto simp: runs_iff_Some)
qed

lemma make_len_pack_eq:
  assumes "tables_shape s" "a \<le> 258"
  shows "make_len_pack a s = Some (map (\<lambda>v. the (pack_lens (len s) v)) [0..<a])"
proof -
  have "runs (make_len_pack a s) (\<lambda>p. p = map (\<lambda>v. the (pack_lens (len s) v)) [0..<a])"
    unfolding make_len_pack_def
    by (rule runs_for_upt [where I = "\<lambda>k p. p = map (\<lambda>v. the (pack_lens (len s) v)) [0..<k]"])
      (use assms in \<open>auto simp: pack_lens_def tables_shape_def rect_def\<close>)
  then show ?thesis by (auto simp: runs_iff_Some)
qed

lemma pack_lens_eq:
  assumes "rect 6 258 l" "v < 258" "\<forall>t < 6. l ! t ! v \<le> 20"
  shows "pack_lens l v = Some (of_nat (65536 * (l ! 1 ! v) + l ! 0 ! v), of_nat (65536 * (l ! 3 ! v) + l ! 2 ! v),
     of_nat (65536 * (l ! 5 ! v) + l ! 4 ! v))"
proof -
  have le: "l ! t ! v < 65536" if "t < 6" for t using assms(3) that by fastforce
  have "l ! 0 ! v < 65536" "l ! 2 ! v < 65536" "l ! 4 ! v < 65536" by (rule le; simp)+
  then show ?thesis
    using assms(1,2) by (simp add: pack_lens_def rect_def pair_word del: of_nat_add of_nat_mult)
qed

lemma packed_costs_eq:
  assumes "has_values vs a s" "tables_shape s" "gs + 50 \<le> length vs"
    and "\<forall>t < 6. \<forall>v < a. len s ! t ! v \<le> 20" "make_len_pack a s = Some pack"
  shows "packed_costs pack s gs = Some (map (\<lambda>t. of_nat (cost_sum s vs gs t 50)) [0..<6])"
proof -
  let ?C = "\<lambda>t k. cost_sum s vs gs t k"
  let ?I = "\<lambda>k st. st = (of_nat (65536 * ?C 1 k + ?C 0 k) :: u32, of_nat (65536 * ?C 3 k + ?C 2 k) :: u32,
     of_nat (65536 * ?C 5 k + ?C 4 k) :: u32)"
  have a: "a \<le> 258" using assms(1) by (simp add: has_values_def)
  have rows: "rect 6 258 (len s)" using assms(2) by (simp add: tables_shape_def)
  have pack: "length pack = a" "v < a \<Longrightarrow> pack ! v = the (pack_lens (len s) v)" for v
    using make_len_pack_eq [OF assms(2) a] assms(5) by auto
  have "runs (for_in [0..<50] (\<lambda>nn (cost01, cost23, cost45).
            do { icv \<leftarrow> get_mtfv s (gs + nn);
                 (p0, p1, p2) \<leftarrow> aget pack icv;
                 Some (cost01 + p0, cost23 + p1, cost45 + p2) }) (0, 0, 0)) (?I 50)"
  proof (rule runs_for_upt [where I = ?I])
    fix nn st assume nn: "0 \<le> nn" "nn < (50 :: nat)" and I: "?I nn st"
    let ?v = "vs ! (gs + nn)"
    have i: "gs + nn < length vs" using nn assms(3) by simp
    have v: "?v < a" using value_less [OF assms(1) i] by simp
    have p: "aget pack ?v = Some (of_nat (65536 * (len s ! 1 ! ?v) + len s ! 0 ! ?v),
       of_nat (65536 * (len s ! 3 ! ?v) + len s ! 2 ! ?v), of_nat (65536 * (len s ! 5 ! ?v) + len s ! 4 ! ?v))"
      using pack v pack_lens_eq [OF rows, of ?v] assms(4) a by simp
    have add: "(of_nat (65536 * x + y) :: u32) + of_nat (65536 * x' + y') = of_nat (65536 * (x + x') + (y + y'))" for x y x' y'
      by (simp add: algebra_simps)
    have step: "?C t (Suc nn) = ?C t nn + len s ! t ! ?v" for t by (simp add: cost_sum_def)
    show "runs (case st of (cost01, cost23, cost45) \<Rightarrow>
            do { icv \<leftarrow> get_mtfv s (gs + nn);
                 (p0, p1, p2) \<leftarrow> aget pack icv;
                 Some (cost01 + p0, cost23 + p1, cost45 + p2) }) (?I (Suc nn))"
      unfolding I prod.case get_value [OF assms(1) i] Option.bind.bind_lunit p runs_simps add step by simp
  qed (simp_all add: cost_sum_def)
  moreover have "?C t 50 < 65536" if "t < 6" for t
  proof -
    have "len s ! t ! (vs ! (gs + i)) \<le> 20" if "i < 50" for i
      using assms(3,4) value_less [OF assms(1), of "gs + i"] \<open>t < 6\<close> that by simp
    then have "?C t 50 \<le> 20 * 50" by (rule cost_sum_le)
    then show ?thesis by simp
  qed
  then have "?C 0 50 < 65536" "?C 1 50 < 65536" "?C 2 50 < 65536" "?C 3 50 < 65536" "?C 4 50 < 65536" "?C 5 50 < 65536"
    by simp_all
  moreover have "[0..<6] = [0, 1, 2, 3, 4, 5 :: nat]" by (simp add: upt_rec)
  ultimately show ?thesis
    unfolding packed_costs_def runs_iff_Some
    by (elim exE conjE) (simp only: Option.bind.bind_lunit prod.case low_half high_half list.map)
qed

section \<open>Properties\<close>

text \<open>
  C24: the choice of the tables returns, whatever the values are: no access leaves an array,
  the assertions 3001, 3002 and 3003 hold, there are two to six tables and one selector, the
  number of a table, for every fifty values, and the lengths in every table are 1 to 17 and
  those of a full binary tree.
\<close>

theorem choose_tables_safe:
  assumes "has_values vs a s" "tables_shape s"
  shows "\<exists>nGroups nSelectors t. choose_tables s = Some (a, nGroups, nSelectors, t) \<and> 2 \<le> nGroups \<and> nGroups \<le> 6
     \<and> 50 * nSelectors < length vs + 50 \<and> length vs \<le> 50 * nSelectors \<and> (\<forall>i < nSelectors. selector t ! i < nGroups)
     \<and> (\<forall>g < nGroups. (\<forall>v < a. 1 \<le> len t ! g ! v \<and> len t ! g ! v \<le> 17)
          \<and> (\<Sum>v<a. 2 ^ (17 - len t ! g ! v)) = (2 :: nat) ^ 17)"
proof -
  obtain nGroups k t where t: "choose_tables s = Some (a, nGroups, k, t)" "2 \<le> nGroups" "nGroups \<le> 6"
      "tables_chosen nGroups a (length vs) k t"
    using choose_tables_ok [OF assms] by blast
  have "50 * k < length vs + 50" "length vs \<le> 50 * k" using t(4) by (auto simp: tables_chosen_def)
  then show ?thesis using t by (intro exI [of _ nGroups] exI [of _ k] exI [of _ t]) (simp add: tables_chosen_def full_table_def)
qed

text \<open>The values of a block of one byte.\<close>

definition byte_estate :: estate where
  "byte_estate = empty_estate\<lparr>nInUse := 1, inUse := (replicate 256 False)[65 := True], nMTF := 2,
     arr1 := (\<lambda>_. 0)(1 := 2), mtfFreq := (replicate 258 0)[0 := 1, 2 := 1]\<rparr>"

lemma choose_tables_safe_witness:
  "\<exists>nGroups nSelectors t. choose_tables byte_estate = Some (3, nGroups, nSelectors, t) \<and> 2 \<le> nGroups \<and> nGroups \<le> 6
     \<and> 50 * nSelectors < length [0 :: nat, 2] + 50 \<and> length [0 :: nat, 2] \<le> 50 * nSelectors
     \<and> (\<forall>i < nSelectors. selector t ! i < nGroups)
     \<and> (\<forall>g < nGroups. (\<forall>v < 3. 1 \<le> len t ! g ! v \<and> len t ! g ! v \<le> 17)
          \<and> (\<Sum>v<3. 2 ^ (17 - len t ! g ! v)) = (2 :: nat) ^ 17)"
  by (rule choose_tables_safe)
    (auto simp: byte_estate_def empty_estate_def has_values_def tables_shape_def rect_def arr1_halfwords_def less_Suc_eq)

text \<open>
  C27: the fast track of the cost computation agrees with the slow version: with six tables
  whose lengths are at most 20, the sums of the packed lengths of a full group of fifty
  values, two 16-bit costs to a word, are the costs that the loop over the tables computes.
\<close>

theorem packed_costs_slow:
  assumes "has_values vs a s" "tables_shape s" "gs + 50 \<le> length vs"
    and "\<forall>t < 6. \<forall>v < a. len s ! t ! v \<le> 20" "make_len_pack a s = Some pack"
  shows "packed_costs pack s gs = slow_costs 6 s gs (gs + 49) \<and> packed_costs pack s gs \<noteq> None"
  using packed_costs_eq [OF assms] slow_costs_eq [OF assms(1,2), of gs "gs + 49" 6] assms(3) by simp

definition full_group_estate :: estate where
  "full_group_estate = empty_estate\<lparr>nMTF := 50, arr1 := (\<lambda>i. of_nat (i mod 2)), len := replicate 6 (replicate 258 17)\<rparr>"

lemma packed_costs_slow_witness:
  "packed_costs [(0x110011, 0x110011, 0x110011), (0x110011, 0x110011, 0x110011)] full_group_estate 0
     = slow_costs 6 full_group_estate 0 (0 + 49)
   \<and> packed_costs [(0x110011, 0x110011, 0x110011), (0x110011, 0x110011, 0x110011)] full_group_estate 0 \<noteq> None"
  by (rule packed_costs_slow [of "map (\<lambda>i. i mod 2) [0..<50]" 2])
    (simp_all add: full_group_estate_def empty_estate_def has_values_def tables_shape_def rect_def
      arr1_halfwords_def make_len_pack_def pack_lens_def upt_rec unat_of_nat less_Suc_eq)

end
