(* ===== verification/BzSend.thy ===== *)
theory BzSend
  imports BzTables
begin

text \<open>
  What \<open>sendMTFValues\<close> transmits: the bits that it appends to the output are those of an
  abstract description of the block (the bytes in use, the selectors, the code lengths of the
  tables, and the code word of every value), and they fit in the buffer.
\<close>

section \<open>Writers\<close>

text \<open>
  \<open>writes f s bs\<close>: from every state that differs from \<open>s\<close> only in what the writer owns,
  \<open>f\<close> appends the bits \<open>bs\<close>, if there is room; \<open>writes_val\<close> is the same for a computation
  with a result.
\<close>

context bit_sink
begin

definition writes_val :: "('st \<Rightarrow> ('r \<times> 'st) option) \<Rightarrow> 'st \<Rightarrow> 'r \<Rightarrow> bool list \<Rightarrow> bool" where
  "writes_val f s r bs \<longleftrightarrow> (\<forall>t. frame s t \<longrightarrow> inv t \<longrightarrow> length bs \<le> room t \<longrightarrow>
     runs (f t) (\<lambda>(x, u). x = r \<and> inv u \<and> written u = written t @ bs \<and> room u = room t - length bs \<and> frame t u))"

definition writes :: "('st \<Rightarrow> 'st option) \<Rightarrow> 'st \<Rightarrow> bool list \<Rightarrow> bool" where
  "writes f s bs \<longleftrightarrow> writes_val (\<lambda>t. do { u \<leftarrow> f t; Some ((), u) }) s () bs"

lemma writes_runs:
  "writes f s bs \<Longrightarrow> inv s \<Longrightarrow> length bs \<le> room s \<Longrightarrow>
     runs (f s) (\<lambda>u. inv u \<and> written u = written s @ bs \<and> room u = room s - length bs \<and> frame s u)"
  by (simp add: writes_def writes_val_def frame_refl)

lemma writes_put: "0 < n \<Longrightarrow> n \<le> 24 \<Longrightarrow> v < 2 ^ n \<Longrightarrow> writes (\<lambda>t. put t n v) s (bits_of n v)"
  unfolding writes_def writes_val_def by (simp add: put)

lemma writes_val_return: "writes_val (\<lambda>t. Some (r, t)) s r []"
  by (simp add: writes_val_def frame_refl)

lemma writes_return: "writes Some s []"
  by (simp add: writes_def writes_val_return)

lemma writes_val_bind:
  assumes "writes_val f s x bs" "writes_val (g x) s r bs'"
  shows "writes_val (\<lambda>t. f t \<bind> (\<lambda>(x, u). g x u)) s r (bs @ bs')"
  unfolding writes_val_def
proof (intro allI impI)
  fix t assume t: "frame s t" "inv t" "length (bs @ bs') \<le> room t"
  then have "runs (f t) (\<lambda>(y, u). y = x \<and> inv u \<and> written u = written t @ bs \<and> room u = room t - length bs \<and> frame t u)"
    using assms(1) by (simp add: writes_val_def)
  then obtain u where u: "f t = Some (x, u)" "inv u" "written u = written t @ bs" "room u = room t - length bs" "frame t u"
    by (auto simp: runs_iff_Some)
  moreover have "length bs' \<le> room u" using u(4) t(3) by simp
  ultimately have "runs (g x u) (\<lambda>(y, w). y = r \<and> inv w \<and> written w = written u @ bs' \<and> room w = room u - length bs' \<and> frame u w)"
    using assms(2) u(2) frame_trans [OF t(1) u(5)] unfolding writes_val_def by blast
  then obtain w where "g x u = Some (r, w)" "inv w" "written w = written u @ bs'" "room w = room u - length bs'" "frame u w"
    by (auto simp: runs_iff_Some)
  then show "runs (f t \<bind> (\<lambda>(x, u). g x u)) (\<lambda>(y, w). y = r \<and> inv w \<and> written w = written t @ bs @ bs'
      \<and> room w = room t - length (bs @ bs') \<and> frame t w)"
    using u by (auto intro: frame_trans)
qed

lemma writes_val_cong:
  assumes "writes_val g s r bs" "\<And>t. frame s t \<Longrightarrow> f t = g t"
  shows "writes_val f s r bs"
  using assms by (simp add: writes_val_def)

lemma writes_cong:
  assumes "writes g s bs" "\<And>t. frame s t \<Longrightarrow> f t = g t"
  shows "writes f s bs"
  unfolding writes_def
  by (rule writes_val_cong [OF assms(1) [unfolded writes_def]]) (simp add: assms(2))

lemma writes_then:
  assumes "writes f s bs" "writes_val g s r bs'"
  shows "writes_val (\<lambda>t. f t \<bind> g) s r (bs @ bs')"
  by (rule writes_val_cong [OF writes_val_bind [OF assms(1) [unfolded writes_def], of "\<lambda>_. g"]])
    (use assms(2) in simp_all)

lemma writes_bind:
  assumes "writes f s bs" "writes g s bs'"
  shows "writes (\<lambda>t. f t \<bind> g) s (bs @ bs')"
  unfolding writes_def
  by (rule writes_val_cong [OF writes_then [OF assms(1) assms(2) [unfolded writes_def]]]) simp

lemma writes_drop:
  assumes "writes_val f s x bs" "writes (g x) s bs'"
  shows "writes (\<lambda>t. f t \<bind> (\<lambda>(x, u). g x u)) s (bs @ bs')"
  unfolding writes_def
  by (rule writes_val_cong [OF writes_val_bind [OF assms(1), of "\<lambda>x u. do { u \<leftarrow> g x u; Some ((), u) }"]])
    (use assms(2) in \<open>auto simp: writes_def intro!: Option.bind_cong [OF refl]\<close>)

lemma writes_for:
  assumes "\<And>i. i \<in> set is \<Longrightarrow> writes (body i) s (b i)"
  shows "writes (for_in is body) s (concat (map b is))"
  using assms
proof (induction "is")
  case Nil
  then show ?case by (simp add: writes_return)
next
  case (Cons i "is")
  then show ?case
    unfolding for_in_Cons_fun by (simp add: writes_bind)
qed

end

section \<open>The bits of a block\<close>

definition row_used :: "bool list \<Rightarrow> nat \<Rightarrow> bool" where
  "row_used us i \<longleftrightarrow> (\<exists>j < 16. us ! (i * 16 + j))"

definition mapping_bits :: "bool list \<Rightarrow> bool list" where
  "mapping_bits us = map (row_used us) [0..<16]
     @ concat (map (\<lambda>i. if row_used us i then map (\<lambda>j. us ! (i * 16 + j)) [0..<16] else []) [0..<16])"

text \<open>The places of the selectors in the list of tables, the last one used in front.\<close>

fun places :: "'a list \<Rightarrow> 'a list \<Rightarrow> nat list" where
  "places ys [] = []"
| "places ys (x # xs) = place x ys # places (front (place x ys) ys) xs"

definition unary :: "nat \<Rightarrow> bool list" where
  "unary m = replicate m True @ [False]"

definition selector_bits :: "nat \<Rightarrow> nat list \<Rightarrow> bool list" where
  "selector_bits nGroups ms = nbits 3 nGroups @ nbits 15 (length ms) @ concat (map unary ms)"

text \<open>The way from one code length to the next: \<open>10\<close> is up, \<open>11\<close> is down, \<open>0\<close> is there.\<close>

definition delta_bits :: "nat \<Rightarrow> nat \<Rightarrow> bool list" where
  "delta_bits cur l = concat (replicate (l - cur) [True, False] @ replicate (cur - l) [True, True]) @ [False]"

fun lengths_bits :: "nat \<Rightarrow> nat list \<Rightarrow> bool list" where
  "lengths_bits cur [] = []"
| "lengths_bits cur (l # ls) = delta_bits cur l @ lengths_bits l ls"

definition table_bits :: "nat list \<Rightarrow> bool list" where
  "table_bits L = nbits 5 (L ! 0) @ lengths_bits (L ! 0) L"

text \<open>The code word of a symbol, in the canonical code of a list of lengths.\<close>

definition word_bits :: "nat list \<Rightarrow> nat \<Rightarrow> bool list" where
  "word_bits L v = nbits (L ! v) (code_of L (length L) (Min (set L)) v)"

text \<open>The values, the groups of fifty each with the table of its selector.\<close>

definition data_bits :: "nat list list \<Rightarrow> nat list \<Rightarrow> nat list \<Rightarrow> bool list" where
  "data_bits tables sels vs = concat (map (\<lambda>i. word_bits (tables ! (sels ! (i div 50))) (vs ! i)) [0..<length vs])"

definition block_bits :: "bool list \<Rightarrow> nat list list \<Rightarrow> nat list \<Rightarrow> nat list \<Rightarrow> bool list" where
  "block_bits us tables sels vs = mapping_bits us @ selector_bits (length tables) (places [0..<length tables] sels)
     @ concat (map table_bits tables) @ data_bits tables sels vs"

section \<open>The writers of the parts\<close>

lemma bs_frame_same:
  assumes "bs_frame s t"
  shows "arr1 t = arr1 s" "arr1_halfwords t = arr1_halfwords s" "inUse t = inUse s" "selector t = selector s"
    "selectorMtf t = selectorMtf s" "len t = len s" "code t = code s" "get_mtfv t i = get_mtfv s i" "nMTF t = nMTF s"
  using assms by (auto simp: bs_frame_def arr1_halfwords_def get_mtfv_def)

lemma bits_of_nat: "n \<le> 32 \<Longrightarrow> bits_of n (of_nat c :: u32) = nbits n c"
  by (intro nth_equalityI) (auto simp: nth_bits_of nbits_def rev_nth bit_simps)

lemma writes_number:
  assumes "0 < n" "n \<le> 24" "c < 2 ^ n"
  shows "bs.writes (\<lambda>t. bsW t n (of_nat c)) s (nbits n c)"
proof -
  have "c < 2 ^ 32" using assms power_increasing [of n 32 "2 :: nat"] by linarith
  then have "(of_nat c :: u32) < 2 ^ n"
    using assms by (simp add: word_less_nat_alt unat_2p unsigned_of_nat take_bit_nat_eq_self)
  then show ?thesis using bs.writes_put [of n "of_nat c" s] assms by (simp add: bits_of_nat)
qed

lemma writes_fixed:
  "bs.writes (\<lambda>t. bsW t 1 1) s [True]" "bs.writes (\<lambda>t. bsW t 1 0) s [False]"
  "bs.writes (\<lambda>t. bsW t 2 2) s [True, False]" "bs.writes (\<lambda>t. bsW t 2 3) s [True, True]"
proof -
  have "nbits 1 1 = [True]" "nbits 1 0 = [False]" "nbits 2 2 = [True, False]" "nbits 2 3 = [True, True]"
    by code_simp+
  then show "bs.writes (\<lambda>t. bsW t 1 1) s [True]" "bs.writes (\<lambda>t. bsW t 1 0) s [False]"
    "bs.writes (\<lambda>t. bsW t 2 2) s [True, False]" "bs.writes (\<lambda>t. bsW t 2 3) s [True, True]"
    using writes_number [of 1 1 s] writes_number [of 1 0 s] writes_number [of 2 2 s] writes_number [of 2 3 s]
    by simp_all
qed

lemma writes_flag: "bs.writes (put_flag b) s [b]"
  by (rule bs.writes_cong [of "\<lambda>t. if b then bsW t 1 1 else bsW t 1 0"])
    (cases b, simp_all add: writes_fixed put_flag_def del: One_nat_def)

lemma writes_unary: "bs.writes (\<lambda>t. do { s \<leftarrow> for_in [0..<m] (\<lambda>j s. bsW s 1 1) t; bsW s 1 0 }) s (unary m)"
proof -
  have "bs.writes (for_in [0..<m] (\<lambda>j s. bsW s 1 1)) s (concat (map (\<lambda>j. [True]) [0..<m]))"
    by (rule bs.writes_for) (rule writes_fixed)
  moreover have "concat (map (\<lambda>j. [True]) [0..<m]) = replicate m True" by (induction m) (simp_all add: replicate_append_same)
  ultimately show ?thesis
    unfolding unary_def using bs.writes_bind [OF _ writes_fixed(2)] by (simp del: One_nat_def)
qed

lemma row_used_loop:
  assumes "length us = 256" "i < 16" "length rows = 16"
  shows "(do { rows \<leftarrow> aput rows i False;
               for_in [0..<16] (\<lambda>j rows. do { u \<leftarrow> aget us (i * 16 + j);
                 if u then aput rows i True else Some rows }) rows }) = Some (rows[i := row_used us i])"
proof -
  have "runs (for_in [0..<16] (\<lambda>j rows. do { u \<leftarrow> aget us (i * 16 + j);
                 if u then aput rows i True else Some rows }) (rows[i := False]))
     (\<lambda>r. r = rows[i := \<exists>j < 16. us ! (i * 16 + j)])"
    by (rule runs_for_upt [where I = "\<lambda>k r. r = rows[i := \<exists>j < k. us ! (i * 16 + j)]"])
      (use assms in \<open>auto simp: less_Suc_eq intro!: arg_cong [where f = "list_update rows i"]\<close>)
  then show ?thesis using assms by (simp add: row_used_def runs_iff_Some)
qed

lemma rows_used_loop:
  assumes "length us = 256"
  shows "for_in [0..<16] (\<lambda>i rows. do { rows \<leftarrow> aput rows i False;
            for_in [0..<16] (\<lambda>j rows. do { u \<leftarrow> aget us (i * 16 + j);
               if u then aput rows i True else Some rows }) rows }) (replicate 16 False)
     = Some (map (row_used us) [0..<16])"
  using for_in_aput [of 16 "replicate 16 False" _ "row_used us"] row_used_loop [OF assms] by simp

lemma send_mapping_ok:
  assumes "length (inUse s) = 256"
  shows "bs.writes send_mapping s (mapping_bits (inUse s))"
proof -
  let ?us = "inUse s"
  have row: "bs.writes (for_in [0..<16] (\<lambda>j t. do { u \<leftarrow> aget (inUse t) (i * 16 + j); put_flag u t })) s
      (map (\<lambda>j. ?us ! (i * 16 + j)) [0..<16])" if "i < 16" for i
  proof -
    have "bs.writes (for_in [0..<16] (\<lambda>j t. do { u \<leftarrow> aget (inUse t) (i * 16 + j); put_flag u t })) s
        (concat (map (\<lambda>j. [?us ! (i * 16 + j)]) [0..<16]))"
    proof (rule bs.writes_for)
      fix j :: nat assume "j \<in> set [0..<16]"
      then have "i * 16 + j < 256" using that by simp
      then show "bs.writes (\<lambda>t. do { u \<leftarrow> aget (inUse t) (i * 16 + j); put_flag u t }) s [?us ! (i * 16 + j)]"
        using assms by (intro bs.writes_cong [OF writes_flag]) (simp add: bs_frame_same)
    qed
    then show ?thesis by simp
  qed
  let ?rows = "map (row_used ?us) [0..<16]"
  have "bs.writes (for_in [0..<16] (\<lambda>i t. do { u \<leftarrow> aget ?rows i; put_flag u t })) s
      (concat (map (\<lambda>i. [row_used ?us i]) [0..<16]))"
    by (rule bs.writes_for, rule bs.writes_cong [OF writes_flag]) simp
  moreover have "bs.writes (for_in [0..<16] (\<lambda>i t. do { u \<leftarrow> aget ?rows i;
        if u then for_in [0..<16] (\<lambda>j t. do { u \<leftarrow> aget (inUse t) (i * 16 + j); put_flag u t }) t
        else Some t })) s (concat (map (\<lambda>i. if row_used ?us i then map (\<lambda>j. ?us ! (i * 16 + j)) [0..<16] else []) [0..<16]))"
  proof (rule bs.writes_for)
    fix i :: nat assume "i \<in> set [0..<16]"
    then have i: "i < 16" by simp
    show "bs.writes (\<lambda>t. do { u \<leftarrow> aget ?rows i;
        if u then for_in [0..<16] (\<lambda>j t. do { u \<leftarrow> aget (inUse t) (i * 16 + j); put_flag u t }) t
        else Some t }) s (if row_used ?us i then map (\<lambda>j. ?us ! (i * 16 + j)) [0..<16] else [])"
      using row [OF i] bs.writes_return [of s] i by (cases "row_used ?us i") simp_all
  qed
  ultimately have "bs.writes (\<lambda>t. for_in [0..<16] (\<lambda>i t. do { u \<leftarrow> aget ?rows i; put_flag u t }) t \<bind>
      for_in [0..<16] (\<lambda>i t. do { u \<leftarrow> aget ?rows i;
        if u then for_in [0..<16] (\<lambda>j t. do { u \<leftarrow> aget (inUse t) (i * 16 + j); put_flag u t }) t
        else Some t })) s (mapping_bits ?us)"
    unfolding mapping_bits_def using bs.writes_bind by fastforce
  then show ?thesis
    by (rule bs.writes_cong) (simp only: send_mapping_def bs_frame_same rows_used_loop [OF assms] Option.bind.bind_lunit)
qed

lemma send_selectors_ok:
  assumes "nGroups < 8" "n < 32768" "n \<le> length (selectorMtf s)"
  shows "bs.writes (send_selectors nGroups n) s (selector_bits nGroups (take n (selectorMtf s)))"
proof -
  let ?ms = "take n (selectorMtf s)"
  have ms: "concat (map unary ?ms) = concat (map (\<lambda>i. unary (selectorMtf s ! i)) [0..<n])"
    using assms(3) by (intro arg_cong [where f = concat] nth_equalityI) simp_all
  have "bs.writes (for_in [0..<n] (\<lambda>i t. do { m \<leftarrow> aget (selectorMtf t) i;
      t \<leftarrow> for_in [0..<m] (\<lambda>j t. bsW t 1 1) t; bsW t 1 0 })) s (concat (map unary ?ms))"
    unfolding ms
    by (rule bs.writes_for, rule bs.writes_cong [OF writes_unary]) (use assms(3) in \<open>simp add: bs_frame_same\<close>)
  moreover have "bs.writes (\<lambda>t. bsW t 3 (of_nat nGroups)) s (nbits 3 nGroups)"
    using assms(1) by (intro writes_number) simp_all
  moreover have "bs.writes (\<lambda>t. bsW t 15 (of_nat n)) s (nbits 15 n)"
    using assms(2) by (intro writes_number) simp_all
  moreover have "length ?ms = n" using assms(3) by simp
  ultimately show ?thesis
    unfolding send_selectors_def [abs_def] selector_bits_def by (auto intro!: bs.writes_bind)
qed

lemma send_delta_ok: "bs.writes_val (send_delta l cur) s l (delta_bits cur l)"
proof (induction "(l - cur) + (cur - l)" arbitrary: cur)
  case 0
  then have cur: "cur = l" by simp
  have "bs.writes_val (\<lambda>t. do { t \<leftarrow> bsW t 1 0; Some (l, t) }) s l ([False] @ [])"
    by (rule bs.writes_then [OF writes_fixed(2) bs.writes_val_return])
  then have "bs.writes_val (send_delta l l) s l ([False] @ [])"
    by (rule bs.writes_val_cong) (simp add: send_delta.simps [of l l])
  then show ?case unfolding cur by (simp add: delta_bits_def)
next
  case (Suc d)
  show ?case
  proof (cases "cur < l")
    case True
    then have "bs.writes_val (\<lambda>t. do { t \<leftarrow> bsW t 2 2; send_delta l (cur + 1) t }) s l ([True, False] @ delta_bits (cur + 1) l)"
      using Suc by (intro bs.writes_then [OF writes_fixed(3)]) simp
    moreover have "l - cur = Suc (l - (cur + 1))" using True by simp
    then have "[True, False] @ delta_bits (cur + 1) l = delta_bits cur l" using True by (simp add: delta_bits_def)
    ultimately show ?thesis using True by (auto elim!: bs.writes_val_cong simp: send_delta.simps [of l cur])
  next
    case False
    then have "bs.writes_val (\<lambda>t. do { t \<leftarrow> bsW t 2 3; send_delta l (cur - 1) t }) s l ([True, True] @ delta_bits (cur - 1) l)"
      using Suc by (intro bs.writes_then [OF writes_fixed(4)]) simp
    moreover have "cur - l = Suc (cur - 1 - l)" using False Suc(2) by simp
    then have "[True, True] @ delta_bits (cur - 1) l = delta_bits cur l" using False by (simp add: delta_bits_def)
    ultimately show ?thesis using False Suc(2) by (auto elim!: bs.writes_val_cong simp: send_delta.simps [of l cur])
  qed
qed

lemma send_lengths_ok:
  assumes "g < length (len s)" "\<forall>i \<in> set is. i < length (len s ! g)"
  shows "bs.writes_val (\<lambda>t. for_in is (\<lambda>i (cur, t). do { l \<leftarrow> aget2 (len t) g i; send_delta l cur t }) (cur, t))
     s (last (cur # map (\<lambda>i. len s ! g ! i) is)) (lengths_bits cur (map (\<lambda>i. len s ! g ! i) is))"
  using assms(2)
proof (induction "is" arbitrary: cur)
  case Nil
  then show ?case by (simp add: bs.writes_val_return)
next
  case (Cons i "is")
  let ?l = "len s ! g ! i"
  let ?body = "\<lambda>i (cur, t). do { l \<leftarrow> aget2 (len t) g i; send_delta l cur t }"
  have "bs.writes_val (\<lambda>t. send_delta ?l cur t \<bind> (\<lambda>(cur, t). for_in is ?body (cur, t)))
      s (last (?l # map (\<lambda>i. len s ! g ! i) is)) (delta_bits cur ?l @ lengths_bits ?l (map (\<lambda>i. len s ! g ! i) is))"
    using Cons by (intro bs.writes_val_bind [OF send_delta_ok]) auto
  moreover have "(\<lambda>(cur, t). for_in is ?body (cur, t)) = for_in is ?body" by auto
  ultimately have "bs.writes_val (\<lambda>t. for_in (i # is) ?body (cur, t)) s (last (?l # map (\<lambda>i. len s ! g ! i) is))
      (delta_bits cur ?l @ lengths_bits ?l (map (\<lambda>i. len s ! g ! i) is))"
    using assms(1) Cons.prems by (elim bs.writes_val_cong) (simp_all add: bs_frame_same)
  then show ?case
    by (simp only: list.map last.simps [of cur] lengths_bits.simps list.distinct if_False)
qed

lemma map_nth_take: "n \<le> length xs \<Longrightarrow> map (\<lambda>i. xs ! i) [0..<n] = take n xs"
  by (intro nth_equalityI) simp_all

lemma send_tables_ok:
  assumes "rect 6 258 (len s)" "0 < a" "a \<le> 258" "nGroups \<le> 6" "\<forall>g < nGroups. len s ! g ! 0 < 32"
  shows "bs.writes (send_tables a nGroups) s (concat (map (\<lambda>g. table_bits (take a (len s ! g))) [0..<nGroups]))"
  unfolding send_tables_def [abs_def]
proof (rule bs.writes_for)
  fix g assume "g \<in> set [0..<nGroups]"
  then have g: "g < nGroups" "g < length (len s)" "length (len s ! g) = 258"
    using assms(1,4) by (auto simp: rect_def)
  let ?L = "take a (len s ! g)"
  let ?f = "\<lambda>t. for_in [0..<a] (\<lambda>i (cur, t). do { l \<leftarrow> aget2 (len t) g i; send_delta l cur t }) (?L ! 0, t)"
  have "bs.writes_val ?f s (last (?L ! 0 # ?L)) (lengths_bits (?L ! 0) ?L)"
    using send_lengths_ok [OF g(2), of "[0..<a]" "?L ! 0"] g(3) assms(2,3) by (simp add: map_nth_take)
  then have "bs.writes (\<lambda>t. do { (cur, t) \<leftarrow> ?f t; Some t }) s (lengths_bits (?L ! 0) ?L @ [])"
    by (rule bs.writes_drop) (rule bs.writes_return)
  moreover have "bs.writes (\<lambda>t. bsW t 5 (of_nat (?L ! 0))) s (nbits 5 (?L ! 0))"
    using assms(2,5) g by (intro writes_number) auto
  ultimately have "bs.writes (\<lambda>t. do { t \<leftarrow> bsW t 5 (of_nat (?L ! 0)); (cur, t) \<leftarrow> ?f t; Some t }) s
      (nbits 5 (?L ! 0) @ lengths_bits (?L ! 0) ?L)"
    using bs.writes_bind by fastforce
  then show "bs.writes (\<lambda>s. do { cur \<leftarrow> aget2 (len s) g 0;
            s \<leftarrow> bsW s 5 (of_nat cur);
            (cur, s) \<leftarrow> for_in [0..<a] (\<lambda>i (cur, s).
              do { l \<leftarrow> aget2 (len s) g i; send_delta l cur s }) (cur, s);
            Some s }) s (table_bits ?L)"
    unfolding table_bits_def using g assms(2,3)
    by (elim bs.writes_cong) (simp_all add: bs_frame_same)
qed

section \<open>The places of the selectors\<close>

lemma length_places [simp]: "length (places ys xs) = length xs"
  by (induction ys xs rule: places.induct) simp_all

lemma selector_search_eq:
  "x \<in> set (r # rest) \<Longrightarrow> length pre = Suc j \<Longrightarrow>
     selector_search x r j (pre @ rest)
       = Some (x, j + place x (r # rest), pre @ take (place x (r # rest)) (r # rest) @ drop (place x (r # rest)) rest)"
proof (induction rest arbitrary: r j pre)
  case Nil
  then show ?case by (subst selector_search.simps) (simp add: place_def)
next
  case (Cons t rest)
  show ?case
  proof (cases "x = r")
    case True
    then show ?thesis by (subst selector_search.simps) (simp add: place_def)
  next
    case False
    then have "place x (r # t # rest) = Suc (place x (t # rest))" by (simp add: place_def)
    moreover have "selector_search x t (Suc j) ((pre @ [r]) @ rest)
        = Some (x, Suc j + place x (t # rest),
            (pre @ [r]) @ take (place x (t # rest)) (t # rest) @ drop (place x (t # rest)) rest)"
      using Cons False by (intro Cons.IH) auto
    moreover have "(pre @ t # rest) ! Suc j = t" "(pre @ t # rest)[Suc j := r] = pre @ r # rest"
      using Cons.prems(2) by (simp_all add: nth_append list_update_append)
    ultimately show ?thesis
      using False Cons.prems(2) by (subst selector_search.simps) simp
  qed
qed

lemma selector_step:
  assumes "x \<in> set pos"
  shows "\<exists>pos'. selector_search x (pos ! 0) 0 pos = Some (x, place x pos, pos')
     \<and> aput pos' 0 x = Some (front (place x pos) pos) \<and> 0 < length pos"
proof -
  obtain r rest where pos: "pos = r # rest" using assms by (cases pos) auto
  have "selector_search x r 0 ([r] @ rest) = Some (x, place x pos, [r] @ take (place x pos) pos @ drop (place x pos) rest)"
    using selector_search_eq [of x r rest "[r]" 0] assms by (simp add: pos)
  then show ?thesis using nth_place [OF assms] by (simp add: pos front_def)
qed

lemma selector_mtf_ok:
  assumes "\<forall>i < n. selector s ! i < nGroups" "n \<le> length (selector s)" "n \<le> length (selectorMtf s)"
  shows "runs (selector_mtf nGroups n s) (\<lambda>t. t\<lparr>selectorMtf := selectorMtf s\<rparr> = s \<and> length (selectorMtf t) = length (selectorMtf s)
     \<and> take n (selectorMtf t) = places [0..<nGroups] (take n (selector s)))"
proof -
  let ?sel = "take n (selector s)"
  let ?I = "\<lambda>i (pos, t). t\<lparr>selectorMtf := selectorMtf s\<rparr> = s \<and> length (selectorMtf t) = length (selectorMtf s)
     \<and> set pos = {..<nGroups} \<and> take i (selectorMtf t) @ places pos (drop i ?sel) = places [0..<nGroups] ?sel"
  have "for_in [0..<nGroups] (\<lambda>i pos. aput pos i i) (replicate nGroups 0) = Some [0..<nGroups]"
    using for_in_aput [of nGroups "replicate nGroups 0" "\<lambda>i pos. aput pos i i" id] by simp
  moreover have "runs (for_in [0..<n] (\<lambda>i (pos, s).
            do { ll_i \<leftarrow> aget (selector s) i;
                 tmp \<leftarrow> aget pos 0;
                 (tmp, j, pos) \<leftarrow> selector_search ll_i tmp 0 pos;
                 pos \<leftarrow> aput pos 0 tmp;
                 m \<leftarrow> aput (selectorMtf s) i j;
                 Some (pos, s\<lparr>selectorMtf := m\<rparr>) }) ([0..<nGroups], s)) (?I n)"
  proof (rule runs_for_upt [where I = ?I])
    fix i st assume i: "i < n" and I: "?I i st"
    obtain pos t where st: "st = (pos, t)" by fastforce
    have same: "t\<lparr>selectorMtf := selectorMtf s\<rparr> = s" "length (selectorMtf t) = length (selectorMtf s)" "set pos = {..<nGroups}"
        "take i (selectorMtf t) @ places pos (drop i ?sel) = places [0..<nGroups] ?sel"
      using I st by auto
    have sel_t: "selector t = selector s" using same(1) by (metis estate.select_convs(26) estate.update_convs(27) estate.surjective)
    let ?x = "selector s ! i"
    have x: "?x \<in> set pos" using same(3) assms(1) i by simp
    have drop: "drop i ?sel = ?x # drop (Suc i) ?sel" using i assms(2) by (simp add: Cons_nth_drop_Suc [symmetric])
    let ?k = "place ?x pos" and ?u = "t\<lparr>selectorMtf := (selectorMtf t)[i := place ?x pos]\<rparr>"
    have I': "?I (Suc i) (front ?k pos, ?u)"
      using same set_front [OF place_less [OF x]] drop i assms(3)
      by (simp add: take_Suc_conv_app_nth)
    obtain pos' where p: "selector_search ?x (pos ! 0) 0 pos = Some (?x, ?k, pos')"
        "aput pos' 0 ?x = Some (front ?k pos)" "0 < length pos"
      using selector_step [OF x] by blast
    have "i < length (selector s)" "i < length (selectorMtf t)" using i assms(2,3) same(2) by auto
    then have "do { ll_i \<leftarrow> aget (selector t) i;
                 tmp \<leftarrow> aget pos 0;
                 (tmp, j, pos) \<leftarrow> selector_search ll_i tmp 0 pos;
                 pos \<leftarrow> aput pos 0 tmp;
                 m \<leftarrow> aput (selectorMtf t) i j;
                 Some (pos, t\<lparr>selectorMtf := m\<rparr>) } = Some (front ?k pos, ?u)"
      using p by (simp add: sel_t)
    then show "runs (case st of (pos, s) \<Rightarrow>
            do { ll_i \<leftarrow> aget (selector s) i;
                 tmp \<leftarrow> aget pos 0;
                 (tmp, j, pos) \<leftarrow> selector_search ll_i tmp 0 pos;
                 pos \<leftarrow> aput pos 0 tmp;
                 m \<leftarrow> aput (selectorMtf s) i j;
                 Some (pos, s\<lparr>selectorMtf := m\<rparr>) }) (?I (Suc i))"
      unfolding st prod.case runs_iff_Some using I' by blast
  qed (use assms in auto)
  ultimately obtain pos t where t: "selector_mtf nGroups n s = Some t" "?I n (pos, t)"
    unfolding selector_mtf_def runs_iff_Some by auto
  then have "take n (selectorMtf t) @ places pos (drop n ?sel) = places [0..<nGroups] ?sel" by blast
  moreover have "drop n ?sel = []" by simp
  ultimately show ?thesis using t by (simp only: places.simps append_Nil2 runs_simps prod.case)
qed

section \<open>The codes\<close>

lemma min_max_len_ok:
  assumes "0 < a" "a \<le> length l" "\<forall>i < a. l ! i \<le> 32"
  shows "min_max_len a l = Some (Min (set (take a l)), Max (set (take a l)))"
proof -
  let ?I = "\<lambda>i st. st = (if i = 0 then (32, 0) else (Min (set (take i l)), Max (set (take i l))))"
  have "runs (min_max_len a l) (?I a)"
    unfolding min_max_len_def
  proof (rule runs_for_upt [where I = ?I])
    fix i st assume i: "i < a" and I: "?I i st"
    have l: "i < length l" "l ! i \<le> 32" using i assms by auto
    have S: "set (take (Suc i) l) = insert (l ! i) (set (take i l))" using l(1) by (simp add: take_Suc_conv_app_nth)
    have mm: "Min (insert x A) = (if x < Min A then x else Min A)" "Max (insert x A) = (if x > Max A then x else Max A)"
      if "finite A" "A \<noteq> {}" for x and A :: "nat set"
      unfolding Min_insert [OF that] Max_insert [OF that] min_def max_def by auto
    have step: "(let maxLen = (if l ! i > snd st then l ! i else snd st);
        minLen = (if l ! i < fst st then l ! i else fst st) in (minLen, maxLen))
      = (Min (set (take (Suc i) l)), Max (set (take (Suc i) l)))"
    proof (cases "i = 0")
      case True
      then show ?thesis using I l(2) unfolding S by (cases "l ! 0 = 32") auto
    next
      case False
      then have "set (take i l) \<noteq> {}" using l(1) by auto
      then show ?thesis using I False unfolding S Let_def by (simp add: mm del: Min_insert Max_insert)
    qed
    then show "runs (case st of (minLen, maxLen) \<Rightarrow> do { x \<leftarrow> aget l i;
            let maxLen = (if x > maxLen then x else maxLen);
            let minLen = (if x < minLen then x else minLen);
            Some (minLen, maxLen) }) (?I (Suc i))"
      using l(1) unfolding case_prod_beta Let_def by simp
  qed (use assms in simp_all)
  then show ?thesis using assms(1) by (simp add: runs_iff_Some)
qed

lemma code_of_take:
  assumes "i < a" "a \<le> length L"
  shows "code_of (take a L) a m i = code_of L a m i"
proof -
  have lcount: "k \<le> a \<Longrightarrow> lcount (take a L) n k = lcount L n k" for n k
    unfolding lcount_def by (intro arg_cong [where f = size] filter_cong) auto
  have "first_code (take a L) a m n = first_code L a m n" for n
    by (induction n) (simp_all add: lcount)
  then show ?thesis using assms lcount by (simp add: code_of_def)
qed

lemma full_table_lengths:
  assumes "full_table a L" "0 < a" "a \<le> length L"
  shows "lengths_ok L a (Min (set (take a L))) (Max (set (take a L)))" "kraft L a (Max (set (take a L)))"
    "1 \<le> Min (set (take a L))" "Max (set (take a L)) \<le> 17"
proof -
  let ?S = "set (take a L)"
  have S: "?S \<noteq> {}" "finite ?S" using assms(2,3) by auto
  have el: "L ! i \<in> ?S" if "i < a" for i using that assms(3) by (force simp: set_conv_nth)
  have all: "1 \<le> x \<and> x \<le> 17" if "x \<in> ?S" for x
    using that assms(1,3) by (auto simp: set_conv_nth full_table_def)
  have between: "Min ?S \<le> L ! i" "L ! i \<le> Max ?S" if "i < a" for i using el [OF that] S by auto
  show min: "1 \<le> Min ?S" using all Min_in [OF S(2,1)] by blast
  show max: "Max ?S \<le> 17" using all Max_in [OF S(2,1)] by blast
  show "lengths_ok L a (Min ?S) (Max ?S)"
    using between [OF assms(2)] between assms(3) min max by (auto simp: lengths_ok_def intro: le_trans)
  have pw: "(2 :: nat) ^ (17 - L ! i) = 2 ^ (Max ?S - L ! i) * 2 ^ (17 - Max ?S)" if "i < a" for i
    using between [OF that] max by (simp add: power_add [symmetric])
  have "(\<Sum>i<a. 2 ^ (Max ?S - L ! i)) * 2 ^ (17 - Max ?S) = (\<Sum>i<a. (2 :: nat) ^ (17 - L ! i))"
    unfolding sum_distrib_right by (intro sum.cong) (simp_all add: pw)
  also have "\<dots> = 2 ^ 17" using assms(1) by (simp only: full_table_def)
  also have "\<dots> = 2 ^ Max ?S * 2 ^ (17 - Max ?S)" using max by (simp only: power_add [symmetric] le_add_diff_inverse)
  finally show "kraft L a (Max ?S)" unfolding kraft_def by simp
qed

lemma assign_table_codes_ok:
  assumes "rect 6 258 (len s)" "rect 6 258 (code s)" "0 < a" "a \<le> 258" "nGroups \<le> 6"
    and "\<forall>g < nGroups. full_table a (len s ! g)"
  shows "runs (assign_table_codes a nGroups s) (\<lambda>t. t\<lparr>code := code s\<rparr> = s \<and> rect 6 258 (code t)
     \<and> (\<forall>g < nGroups. \<forall>v < a. code t ! g ! v = int (code_of (len s ! g) a (Min (set (take a (len s ! g)))) v)))"
proof -
  let ?c = "\<lambda>g v. int (code_of (len s ! g) a (Min (set (take a (len s ! g)))) v)"
  let ?I = "\<lambda>k t. t\<lparr>code := code s\<rparr> = s \<and> rect 6 258 (code t) \<and> (\<forall>g < k. \<forall>v < a. code t ! g ! v = ?c g v)"
  show ?thesis
    unfolding assign_table_codes_def
  proof (rule runs_for_upt [where I = ?I])
    fix g t assume g: "g < nGroups" and I: "?I g t"
    have len_t: "len t = len s" using I by (metis estate.select_convs(28) estate.update_convs(29) estate.surjective)
    have row: "g < 6" "length (len s ! g) = 258" "g < length (len s)" "length (code t ! g) = 258" "length (code t) = 6"
      using g assms(1,5) I by (auto simp: rect_def)
    have full: "full_table a (len s ! g)" using assms(6) g by blast
    note tab = full_table_lengths [OF full assms(3), unfolded row(2), OF assms(4)]
    have "min_max_len a (len s ! g) = Some (Min (set (take a (len s ! g))), Max (set (take a (len s ! g))))"
      using full row(2) assms(3,4) by (intro min_max_len_ok) (auto simp: full_table_def intro: le_trans)
    moreover obtain c where "BZ2_hbAssignCodes (code t ! g) (len s ! g) (Min (set (take a (len s ! g))))
          (Max (set (take a (len s ! g)))) a = Some c" "length c = 258" "\<forall>v < a. c ! v = ?c g v"
      using assign_codes [OF tab(1), of "code t ! g"] row assms(4) by (auto simp: runs_iff_Some)
    ultimately show "runs (do { l \<leftarrow> aget (len t) g;
            (minLen, maxLen) \<leftarrow> min_max_len a l;
            guard (\<not> maxLen > 17);
            guard (\<not> minLen < 1);
            c \<leftarrow> aget (code t) g;
            c \<leftarrow> BZ2_hbAssignCodes c l minLen maxLen a;
            cs \<leftarrow> aput (code t) g c;
            Some (t\<lparr>code := cs\<rparr>) }) (?I (Suc g))"
      using row tab(3,4) I by (simp add: len_t less_Suc_eq nth_list_update not_less)
  qed (use assms(2) in simp_all)
qed

section \<open>The values\<close>

text \<open>The tables, as far as the alphabet goes, and the state once the codes are assigned.\<close>

definition tables_of :: "nat \<Rightarrow> nat \<Rightarrow> 'a estate_scheme \<Rightarrow> nat list list" where
  "tables_of nGroups a s = map (\<lambda>g. take a (len s ! g)) [0..<nGroups]"

definition coded :: "nat \<Rightarrow> nat \<Rightarrow> 'a estate_scheme \<Rightarrow> bool" where
  "coded nGroups a s \<longleftrightarrow> rect 6 258 (len s) \<and> rect 6 258 (code s) \<and> 0 < a \<and> a \<le> 258 \<and> nGroups \<le> 6
     \<and> (\<forall>g < nGroups. full_table a (len s ! g)
          \<and> (\<forall>v < a. code s ! g ! v = int (code_of (len s ! g) a (Min (set (take a (len s ! g)))) v)))"

lemma send_value_ok:
  assumes "coded nGroups a s" "has_values vs a s" "g < nGroups" "i < length vs"
  shows "bs.writes (send_value g i) s (word_bits (tables_of nGroups a s ! g) (vs ! i))"
proof -
  let ?L = "len s ! g" and ?v = "vs ! i"
  let ?m = "Min (set (take a ?L))" and ?M = "Max (set (take a ?L))"
  have v: "?v < a" "a \<le> 258" using value_less [OF assms(2,4)] by auto
  have row: "g < length (len s)" "length ?L = 258" "g < length (code s)" "length (code s ! g) = 258"
    using assms(1,3) by (auto simp: coded_def rect_def)
  have full: "full_table a ?L" and c: "code s ! g ! ?v = int (code_of ?L a ?m ?v)" and a: "0 < a"
    using assms(1,3) v by (auto simp: coded_def)
  note tab = full_table_lengths [OF full a, unfolded row(2), OF v(2)]
  have l: "0 < ?L ! ?v" "?L ! ?v \<le> 24" using full v(1) by (auto simp: full_table_def Suc_le_eq intro: le_trans)
  have "bs.writes (\<lambda>t. bsW t (?L ! ?v) (of_nat (code_of ?L a ?m ?v))) s (nbits (?L ! ?v) (code_of ?L a ?m ?v))"
    by (rule writes_number [OF l code_fits [OF tab(1,2) v(1)]])
  then have "bs.writes (send_value g i) s (nbits (?L ! ?v) (code_of ?L a ?m ?v))"
    by (rule bs.writes_cong) (use row v c get_value [OF assms(2,4)] in \<open>simp add: send_value_def bs_frame_same\<close>)
  moreover have "word_bits (tables_of nGroups a s ! g) ?v = nbits (?L ! ?v) (code_of ?L a ?m ?v)"
    using v row assms(3) by (simp add: word_bits_def tables_of_def code_of_take min_absorb2)
  ultimately show ?thesis by simp
qed

lemma send_data_ok:
  assumes "coded nGroups a s" "has_values vs a s" "\<forall>i < (length vs + 49) div 50. selector s ! i < nGroups"
    and "(length vs + 49) div 50 \<le> length (selector s)" "gs = 50 * k \<or> gs = length vs \<and> k = (length vs + 49) div 50"
    and "gs \<le> length vs"
  shows "bs.writes_val (send_data nGroups (length vs) gs k) s ((length vs + 49) div 50)
     (concat (map (\<lambda>i. word_bits (tables_of nGroups a s ! (selector s ! (i div 50))) (vs ! i)) [gs..<length vs]))"
  using assms(5,6)
proof (induction "length vs - gs" arbitrary: gs k rule: less_induct)
  case less
  let ?n = "length vs"
  let ?W = "\<lambda>i. word_bits (tables_of nGroups a s ! (selector s ! (i div 50))) (vs ! i)"
  show ?case
  proof (cases "gs \<ge> ?n")
    case True
    then have "k = (?n + 49) div 50" using less(2,3) by auto
    moreover have "bs.writes_val (send_data nGroups ?n gs k) s k []"
      by (rule bs.writes_val_cong [OF bs.writes_val_return]) (subst send_data.simps, simp add: True)
    ultimately show ?thesis using True by simp
  next
    case False
    define ge where "ge = (if gs + BZ_G_SIZE - 1 \<ge> ?n then ?n - 1 else gs + BZ_G_SIZE - 1)"
    have ge: "gs \<le> ge" "ge < ?n" "gs = 50 * k" using False less(2) by (auto simp: ge_def)
    have dv: "i div 50 = k" if "gs \<le> i" "i \<le> ge" for i using that ge(3) by (auto simp: ge_def split: if_splits)
    have k: "k < (?n + 49) div 50" using ge by linarith
    then have sel: "k < length (selector s)" "selector s ! k < nGroups" using assms(3,4) by auto
    have group: "bs.writes (send_group nGroups (selector s ! k) gs ge) s (concat (map ?W [gs..<ge + 1]))"
      unfolding send_group_eq [abs_def]
    proof (rule bs.writes_for)
      fix i assume "i \<in> set [gs..<ge + 1]"
      then have "gs \<le> i" "i \<le> ge" by auto
      then show "bs.writes (send_value (selector s ! k) i) s (?W i)"
        using send_value_ok [OF assms(1,2) sel(2), of i] dv [of i] ge(2) by simp
    qed
    have "ge + 1 = 50 * (k + 1) \<or> ge + 1 = ?n \<and> k + 1 = (?n + 49) div 50"
      using ge by (auto simp: ge_def split: if_splits)
    then have "bs.writes_val (send_data nGroups ?n (ge + 1) (k + 1)) s ((?n + 49) div 50) (concat (map ?W [ge + 1..<?n]))"
      using ge by (intro less(1)) auto
    then have "bs.writes_val (\<lambda>t. send_group nGroups (selector s ! k) gs ge t \<bind> send_data nGroups ?n (ge + 1) (k + 1)) s
        ((?n + 49) div 50) (concat (map ?W [gs..<ge + 1]) @ concat (map ?W [ge + 1..<?n]))"
      by (rule bs.writes_then [OF group])
    moreover have "[gs..<?n] = [gs..<ge + 1] @ [ge + 1..<?n]"
    proof -
      have "?n = ge + 1 + (?n - (ge + 1))" "gs \<le> ge + 1" using ge by linarith+
      then show ?thesis using upt_add_eq_append [of gs "ge + 1" "?n - (ge + 1)"] by (simp only:)
    qed
    then have "concat (map ?W [gs..<ge + 1]) @ concat (map ?W [ge + 1..<?n]) = concat (map ?W [gs..<?n])" by simp
    moreover have "send_data nGroups ?n gs k t
        = (send_group nGroups (selector s ! k) gs ge t \<bind> send_data nGroups ?n (ge + 1) (k + 1))" if "bs_frame s t" for t
      unfolding send_data.simps [of nGroups ?n gs k t] Let_def ge_def [symmetric] bs_frame_same [OF that]
        if_not_P [OF False] aget_Some [OF sel(1)] Option.bind.bind_lunit
      by (simp only: sel(2) guard_simps Option.bind.bind_lunit)
    ultimately show ?thesis using bs.writes_val_cong by fastforce
  qed
qed

section \<open>The size of a block\<close>

lemma sum_list_bound: "(\<And>x. x \<in> set xs \<Longrightarrow> f x \<le> (m :: nat)) \<Longrightarrow> sum_list (map f xs) \<le> m * length xs"
  by (induction xs) (simp_all add: add_mono)

lemma length_mapping: "length (mapping_bits us) \<le> 272"
proof -
  have "sum_list (map (\<lambda>i. length (if row_used us i then map (\<lambda>j. us ! (i * 16 + j)) [0..<16] else [])) [0..<16]) \<le> 16 * length [0 :: nat..<16]"
    by (rule sum_list_bound) simp
  then show ?thesis by (simp add: mapping_bits_def length_concat comp_def del: upt_rec_numeral)
qed

lemma places_less: "set xs \<subseteq> set ys \<Longrightarrow> p \<in> set (places ys xs) \<Longrightarrow> p < length ys"
proof (induction ys xs rule: places.induct)
  case (2 ys x xs)
  then have "place x ys < length ys" by (intro place_less) simp
  then show ?case using 2 set_front [of "place x ys" ys] length_front [of "place x ys" ys] by auto
qed simp

lemma length_selectors:
  assumes "set sels \<subseteq> {..<nGroups}" "nGroups \<le> 6"
  shows "length (selector_bits nGroups (places [0..<nGroups] sels)) \<le> 18 + 6 * length sels"
proof -
  have "length (unary p) \<le> 6" if "p \<in> set (places [0..<nGroups] sels)" for p
    using places_less [OF _ that] assms by (auto simp: unary_def lessThan_atLeast0)
  then have "sum_list (map (\<lambda>p. length (unary p)) (places [0..<nGroups] sels)) \<le> 6 * length (places [0..<nGroups] sels)"
    by (rule sum_list_bound)
  then show ?thesis by (simp add: selector_bits_def length_concat comp_def)
qed

lemma length_delta: "1 \<le> cur \<Longrightarrow> cur \<le> 17 \<Longrightarrow> 1 \<le> l \<Longrightarrow> l \<le> 17 \<Longrightarrow> length (delta_bits cur l) \<le> 33"
  by (simp add: delta_bits_def length_concat sum_list_replicate)

lemma length_lengths:
  "1 \<le> cur \<Longrightarrow> cur \<le> 17 \<Longrightarrow> \<forall>l \<in> set ls. 1 \<le> l \<and> l \<le> 17 \<Longrightarrow> length (lengths_bits cur ls) \<le> 33 * length ls"
  by (induction cur ls rule: lengths_bits.induct) (use length_delta in \<open>force+\<close>)

lemma length_table:
  assumes "\<forall>l \<in> set L. 1 \<le> l \<and> l \<le> 17" "L \<noteq> []" "length L \<le> 258"
  shows "length (table_bits L) \<le> 8519"
  using length_lengths [of "L ! 0" L] assms by (simp add: table_bits_def)

lemma length_data:
  assumes "\<forall>L \<in> set tables. \<forall>v < a. L ! v \<le> 17" "\<forall>v \<in> set vs. v < a" "\<forall>i < length vs. sels ! (i div 50) < length tables"
  shows "length (data_bits tables sels vs) \<le> 17 * length vs"
proof -
  have "length (word_bits (tables ! (sels ! (i div 50))) (vs ! i)) \<le> 17" if "i \<in> set [0..<length vs]" for i
    using assms that by (simp add: word_bits_def)
  then have "sum_list (map (\<lambda>i. length (word_bits (tables ! (sels ! (i div 50))) (vs ! i))) [0..<length vs]) \<le> 17 * length [0..<length vs]"
    by (rule sum_list_bound)
  then show ?thesis by (simp add: data_bits_def length_concat comp_def)
qed

text \<open>What the compressor promises of the tables and the selectors of a block of \<open>n\<close> values.\<close>

definition plan_ok :: "nat \<Rightarrow> nat \<Rightarrow> nat list list \<Rightarrow> nat list \<Rightarrow> bool" where
  "plan_ok a n tables sels \<longleftrightarrow> 2 \<le> length tables \<and> length tables \<le> 6 \<and> length sels = (n + 49) div 50
     \<and> set sels \<subseteq> {..<length tables} \<and> (\<forall>L \<in> set tables. length L = a \<and> full_table a L)"

lemma length_block:
  assumes "plan_ok a (length vs) tables sels" "\<forall>v \<in> set vs. v < a" "0 < a" "a \<le> 258"
  shows "length (block_bits us tables sels vs) \<le> 18 * length vs + 51410"
proof -
  have t: "length tables \<le> 6" "length sels = (length vs + 49) div 50" "set sels \<subseteq> {..<length tables}"
      "\<forall>L \<in> set tables. length L = a \<and> (\<forall>v < a. 1 \<le> L ! v \<and> L ! v \<le> 17)"
    using assms(1) by (auto simp: plan_ok_def full_table_def)
  have "\<forall>l \<in> set L. 1 \<le> l \<and> l \<le> 17" if "L \<in> set tables" for L
    using t(4) that by (fastforce simp: set_conv_nth)
  then have "length (table_bits L) \<le> 8519" if "L \<in> set tables" for L
    using length_table [of L] t(4) assms(3,4) that by auto
  then have "sum_list (map (\<lambda>L. length (table_bits L)) tables) \<le> 8519 * length tables"
    by (rule sum_list_bound)
  then have "length (concat (map table_bits tables)) \<le> 51114"
    using t(1) by (simp add: length_concat comp_def)
  moreover have "i div 50 < length sels" if "i < length vs" for i using that t(2) by linarith
  then have "\<forall>i < length vs. sels ! (i div 50) < length tables" using t(3) by (meson lessThan_iff nth_mem subsetD)
  then have "length (data_bits tables sels vs) \<le> 17 * length vs"
    using t(4) assms(2) by (intro length_data) auto
  moreover have "6 * length sels \<le> length vs + 6" using t(2) by linarith
  ultimately show ?thesis
    using length_mapping [of us] length_selectors [OF t(3,1)] by (simp add: block_bits_def)
qed

section \<open>The whole block\<close>

text \<open>The fields that the choice of the tables changes, before anything is written.\<close>

definition plan_frame :: "'a estate_scheme \<Rightarrow> 'a estate_scheme \<Rightarrow> bool" where
  "plan_frame s t \<longleftrightarrow> t\<lparr>selector := selector s, len := len s, rfreq := rfreq s, selectorMtf := selectorMtf s,
     code := code s\<rparr> = s"

lemma plan_frame_fields:
  assumes "plan_frame s t"
  shows "arr1 t = arr1 s" "arr2 t = arr2 s" "zbits t = zbits s" "numZ t = numZ s" "bsBuff t = bsBuff s"
    "bsLive t = bsLive s" "blockSize100k t = blockSize100k s" "inUse t = inUse s" "nInUse t = nInUse s" "nMTF t = nMTF s"
proof -
  define u where "u = t\<lparr>selector := selector s, len := len s, rfreq := rfreq s, selectorMtf := selectorMtf s, code := code s\<rparr>"
  have "u = s" using assms by (simp add: plan_frame_def u_def)
  moreover have "arr1 u = arr1 t" "arr2 u = arr2 t" "zbits u = zbits t" "numZ u = numZ t" "bsBuff u = bsBuff t"
    "bsLive u = bsLive t" "blockSize100k u = blockSize100k t" "inUse u = inUse t" "nInUse u = nInUse t" "nMTF u = nMTF t"
    by (simp_all add: u_def)
  ultimately show "arr1 t = arr1 s" "arr2 t = arr2 s" "zbits t = zbits s" "numZ t = numZ s" "bsBuff t = bsBuff s"
    "bsLive t = bsLive s" "blockSize100k t = blockSize100k s" "inUse t = inUse s" "nInUse t = nInUse s" "nMTF t = nMTF s"
    by simp_all
qed

lemma plan_frame_writer:
  assumes "plan_frame s t"
  shows "bs_inv t = bs_inv s" "bs_written t = bs_written s" "bs_room t = bs_room s"
  by (simp_all add: bs_inv_def bs_written_def bs_room_def zbytes_def arr2_bytes_def plan_frame_fields [OF assms])

text \<open>What the back end of the compressor changes, and the sizes of its arrays.\<close>

definition back_frame :: "'a estate_scheme \<Rightarrow> 'a estate_scheme \<Rightarrow> bool" where
  "back_frame s t \<longleftrightarrow> t\<lparr>arr1 := arr1 s, arr2 := arr2 s, numZ := numZ s, nInUse := nInUse s, unseqToSeq := unseqToSeq s,
     bsBuff := bsBuff s, bsLive := bsLive s, nMTF := nMTF s, mtfFreq := mtfFreq s, selector := selector s,
     selectorMtf := selectorMtf s, len := len s, code := code s, rfreq := rfreq s\<rparr> = s"

definition back_shape :: "'a estate_scheme \<Rightarrow> bool" where
  "back_shape s \<longleftrightarrow> tables_shape s \<and> rect 6 258 (code s) \<and> length (selectorMtf s) = 18002"

lemma back_frame_refl [simp]: "back_frame s s"
  by (simp add: back_frame_def)

lemma back_frame_trans: "back_frame s t \<Longrightarrow> back_frame t u \<Longrightarrow> back_frame s u"
proof -
  assume st: "back_frame s t" and tu: "back_frame t u"
  let ?undo = "\<lambda>s t. t\<lparr>arr1 := arr1 s, arr2 := arr2 s, numZ := numZ s, nInUse := nInUse s, unseqToSeq := unseqToSeq s,
     bsBuff := bsBuff s, bsLive := bsLive s, nMTF := nMTF s, mtfFreq := mtfFreq s, selector := selector s,
     selectorMtf := selectorMtf s, len := len s, code := code s, rfreq := rfreq s\<rparr>"
  have "?undo s u = ?undo s (?undo t u)" by simp
  then show ?thesis using st tu unfolding back_frame_def by metis
qed

lemma back_frame_writer: "bs_frame s t \<Longrightarrow> back_frame s t"
  by (auto simp: bs_frame_def back_frame_def)

lemma plan_frame_update:
  assumes "plan_frame s t"
  shows "t = s\<lparr>selector := selector t, len := len t, rfreq := rfreq t, selectorMtf := selectorMtf t, code := code t\<rparr>"
proof -
  define u where "u = t\<lparr>selector := selector s, len := len s, rfreq := rfreq s, selectorMtf := selectorMtf s, code := code s\<rparr>"
  have "t = u\<lparr>selector := selector t, len := len t, rfreq := rfreq t, selectorMtf := selectorMtf t, code := code t\<rparr>"
    by (simp add: u_def)
  moreover have "u = s" using assms by (simp add: plan_frame_def u_def)
  ultimately show ?thesis by simp
qed

lemma back_frame_plan: "plan_frame s t \<Longrightarrow> back_frame s t"
  unfolding back_frame_def by (subst plan_frame_update [of s t]) simp_all

lemma plan_frame_unseq: "plan_frame s t \<Longrightarrow> unseqToSeq t = unseqToSeq s"
  by (subst plan_frame_update [of s t]) simp_all

lemma back_shape_writer: "bs_frame s t \<Longrightarrow> back_shape t = back_shape s \<and> unseqToSeq t = unseqToSeq s"
  by (auto simp: bs_frame_def back_shape_def tables_shape_def)

lemma plan_frame_values: "plan_frame s t \<Longrightarrow> has_values vs a t = has_values vs a s"
  by (simp add: has_values_def arr1_halfwords_def plan_frame_fields)

text \<open>What \<open>sendMTFValues\<close> needs: the values, room for the arrays, and room for the bits.\<close>

definition ready_to_send :: "nat list \<Rightarrow> nat \<Rightarrow> 'a estate_scheme \<Rightarrow> bool" where
  "ready_to_send vs a s \<longleftrightarrow> has_values vs a s \<and> tables_shape s \<and> rect 6 258 (code s)
     \<and> length (selectorMtf s) = 18002 \<and> length (inUse s) = 256 \<and> bs_inv s \<and> 18 * length vs + 51410 \<le> bs_room s"

lemma sendMTFValues_ok:
  assumes "ready_to_send vs a s"
  shows "\<exists>tables sels t u. sendMTFValues s = Some u \<and> plan_ok a (length vs) tables sels
     \<and> bs_inv u \<and> bs_written u = bs_written s @ block_bits (inUse s) tables sels vs
     \<and> plan_frame s t \<and> bs_frame t u \<and> back_shape t"
proof -
  let ?n = "length vs"
  have s: "has_values vs a s" "tables_shape s" "rect 6 258 (code s)" "length (selectorMtf s) = 18002"
      "length (inUse s) = 256" "bs_inv s" "18 * ?n + 51410 \<le> bs_room s"
    using assms by (simp_all add: ready_to_send_def)
  have a: "0 < a" "a \<le> 258" and n: "0 < ?n" "?n \<le> 900001" "nMTF s = ?n" using s(1) by (auto simp: has_values_def)
  obtain nGroups k s1 where s1: "choose_tables s = Some (a, nGroups, k, s1)" "2 \<le> nGroups" "nGroups \<le> 6"
      "tables_frame s s1" "tables_chosen nGroups a ?n k s1"
    using choose_tables_ok [OF s(1,2)] by blast
  have k: "k = (?n + 49) div 50" "k \<le> 18001" using s1(5) n(2) by (auto simp: tables_chosen_def)
  have shape1: "rect 6 258 (len s1)" "length (selector s1) = 18002"
    and sel: "\<forall>i < k. selector s1 ! i < nGroups" and full: "\<forall>g < nGroups. full_table a (len s1 ! g)"
    using s1(5) by (auto simp: tables_chosen_def tables_shape_def)
  have same1: "selectorMtf s1 = selectorMtf s" "code s1 = code s"
    by (subst tables_frame_fields [OF s1(4)], simp)+
  have "runs (selector_mtf nGroups k s1) (\<lambda>t. t\<lparr>selectorMtf := selectorMtf s1\<rparr> = s1
      \<and> length (selectorMtf t) = length (selectorMtf s1) \<and> take k (selectorMtf t) = places [0..<nGroups] (take k (selector s1)))"
    using sel shape1(2) k(2) s(4) same1(1) by (intro selector_mtf_ok) simp_all
  then obtain s2 where s2: "selector_mtf nGroups k s1 = Some s2" "s2\<lparr>selectorMtf := selectorMtf s1\<rparr> = s1"
      "length (selectorMtf s2) = 18002" "take k (selectorMtf s2) = places [0..<nGroups] (take k (selector s1))"
    unfolding runs_iff_Some using s(4) same1(1) by metis
  define w where "w = s2\<lparr>selectorMtf := selectorMtf s1\<rparr>"
  have "len w = len s2" "code w = code s2" "selector w = selector s2" by (simp_all add: w_def)
  then have same2: "len s2 = len s1" "code s2 = code s1" "selector s2 = selector s1" using s2(2) w_def by simp_all
  have "runs (assign_table_codes a nGroups s2) (\<lambda>t. t\<lparr>code := code s2\<rparr> = s2 \<and> rect 6 258 (code t)
     \<and> (\<forall>g < nGroups. \<forall>v < a. code t ! g ! v = int (code_of (len s2 ! g) a (Min (set (take a (len s2 ! g)))) v)))"
    using shape1(1) s(3) a s1(3) full by (intro assign_table_codes_ok) (simp_all only: same1 same2)
  then obtain s3 where s3: "assign_table_codes a nGroups s2 = Some s3" "s3\<lparr>code := code s2\<rparr> = s2" "rect 6 258 (code s3)"
      "\<forall>g < nGroups. \<forall>v < a. code s3 ! g ! v = int (code_of (len s2 ! g) a (Min (set (take a (len s2 ! g)))) v)"
    unfolding runs_iff_Some by blast
  define w' where "w' = s3\<lparr>code := code s2\<rparr>"
  have "len w' = len s3" "selectorMtf w' = selectorMtf s3" "selector w' = selector s3" by (simp_all add: w'_def)
  then have same3: "len s3 = len s1" "selectorMtf s3 = selectorMtf s2" "selector s3 = selector s1"
    using s3(2) [folded w'_def] same2 by metis+
  have "s3\<lparr>selector := selector s, len := len s, rfreq := rfreq s, selectorMtf := selectorMtf s, code := code s\<rparr>
      = s3\<lparr>code := code s2\<rparr>\<lparr>selectorMtf := selectorMtf s1\<rparr>\<lparr>selector := selector s, len := len s, rfreq := rfreq s\<rparr>"
    by (rule estate.equality) (simp_all add: same1 same2)
  then have frame: "plan_frame s s3"
    using s1(4) unfolding plan_frame_def tables_frame_def s3(2) s2(2) by (rule trans)
  have coded: "coded nGroups a s3"
    using s3(3,4) shape1(1) a s1(3) full unfolding coded_def same2 same3 by blast
  have vals: "has_values vs a s3" using s(1) by (simp only: plan_frame_values [OF frame])
  let ?tables = "tables_of nGroups a s1" and ?sels = "take k (selector s1)"
  have tab: "tables_of nGroups a s3 = ?tables" by (simp add: tables_of_def same3)
  have plan: "plan_ok a ?n ?tables ?sels"
    using s1(2,3) k shape1 sel full a
    by (auto simp: plan_ok_def tables_of_def rect_def set_conv_nth full_table_def)
  let ?bits = "block_bits (inUse s) ?tables ?sels vs"
  have bits: "?bits = mapping_bits (inUse s3) @ selector_bits nGroups (take k (selectorMtf s3))
      @ concat (map (\<lambda>g. table_bits (take a (len s3 ! g))) [0..<nGroups])
      @ concat (map (\<lambda>i. word_bits (tables_of nGroups a s3 ! (selector s3 ! (i div 50))) (vs ! i)) [0..<?n])"
  proof -
    have "i div 50 < k" if "i < ?n" for i using that k(1) by linarith
    then have "data_bits ?tables ?sels vs
        = concat (map (\<lambda>i. word_bits (tables_of nGroups a s3 ! (selector s3 ! (i div 50))) (vs ! i)) [0..<?n])"
      unfolding data_bits_def tab same3 by (intro arg_cong [where f = concat] map_cong) simp_all
    moreover have "length ?tables = nGroups" "map table_bits ?tables = map (\<lambda>g. table_bits (take a (len s3 ! g))) [0..<nGroups]"
      by (simp_all add: tables_of_def same3)
    ultimately show ?thesis
      by (simp only: block_bits_def same3 s2(4) plan_frame_fields [OF frame])
  qed
  have "bs.writes_val (send_data nGroups ?n 0 0) s3 k
      (concat (map (\<lambda>i. word_bits (tables_of nGroups a s3 ! (selector s3 ! (i div 50))) (vs ! i)) [0..<?n]))"
    unfolding k(1) by (rule send_data_ok [OF coded vals]) (use sel k shape1 same3 in simp_all)
  then have "bs.writes (\<lambda>t. do { (selCtr, u) \<leftarrow> send_data nGroups ?n 0 0 t; guard (selCtr = k); Some u }) s3
      (concat (map (\<lambda>i. word_bits (tables_of nGroups a s3 ! (selector s3 ! (i div 50))) (vs ! i)) [0..<?n]) @ [])"
    by (rule bs.writes_drop) (simp add: bs.writes_return)
  then have "bs.writes (\<lambda>t. do { (selCtr, u) \<leftarrow> send_data nGroups (nMTF t) 0 0 t; guard (selCtr = k); Some u }) s3
      (concat (map (\<lambda>i. word_bits (tables_of nGroups a s3 ! (selector s3 ! (i div 50))) (vs ! i)) [0..<?n]) @ [])"
    by (rule bs.writes_cong) (simp add: bs_frame_same plan_frame_fields [OF frame] n(3))
  moreover have "len s3 ! g ! 0 < 32" if "g < nGroups" for g
  proof -
    have "len s1 ! g ! 0 \<le> 17" using full a(1) that by (simp add: full_table_def)
    then show ?thesis by (simp add: same3)
  qed
  then have "bs.writes (send_tables a nGroups) s3 (concat (map (\<lambda>g. table_bits (take a (len s3 ! g))) [0..<nGroups]))"
    using shape1(1) a s1(3) by (intro send_tables_ok) (simp_all add: same3)
  moreover have "bs.writes (send_selectors nGroups k) s3 (selector_bits nGroups (take k (selectorMtf s3)))"
    using s1(3) k(2) s2(3) by (intro send_selectors_ok) (simp_all add: same3)
  moreover have "bs.writes send_mapping s3 (mapping_bits (inUse s3))"
    using s(5) by (intro send_mapping_ok) (simp add: plan_frame_fields [OF frame])
  ultimately have writes: "bs.writes (\<lambda>t. do { t \<leftarrow> send_mapping t; t \<leftarrow> send_selectors nGroups k t; t \<leftarrow> send_tables a nGroups t;
       (selCtr, u) \<leftarrow> send_data nGroups (nMTF t) 0 0 t; guard (selCtr = k); Some u }) s3 ?bits"
    unfolding bits append_Nil2 by (intro bs.writes_bind)
  have "\<forall>v \<in> set vs. v < a" using s(1) by (auto simp: has_values_def set_conv_nth)
  then have "length ?bits \<le> bs_room s3"
    using length_block [OF plan _ a, of "inUse s"] s(7) plan_frame_writer [OF frame] by simp
  from bs.writes_runs [OF writes _ this] obtain u where u:
      "do { t \<leftarrow> send_mapping s3; t \<leftarrow> send_selectors nGroups k t; t \<leftarrow> send_tables a nGroups t;
       (selCtr, u) \<leftarrow> send_data nGroups (nMTF t) 0 0 t; guard (selCtr = k); Some u } = Some u"
      "bs_inv u" "bs_written u = bs_written s @ ?bits" "bs_frame s3 u"
    using s(6) plan_frame_writer [OF frame] by (auto simp: runs_iff_Some)
  have "sendMTFValues s = Some u"
    unfolding sendMTFValues_def s1(1) s2(1) s3(1) Option.bind.bind_lunit prod.case by (rule u(1))
  moreover have "back_shape s3"
  proof -
    have "rfreq s2 = rfreq w" "rfreq s3 = rfreq w'" "mtfFreq s2 = mtfFreq w" "mtfFreq s3 = mtfFreq w'"
      by (simp_all add: w_def w'_def)
    then have "rfreq s3 = rfreq s1" "mtfFreq s3 = mtfFreq s1" using s2(2) s3(2) by (simp_all add: w_def [symmetric] w'_def [symmetric])
    then show ?thesis using s1(5) s2(3) s3(3) same3 by (simp add: back_shape_def tables_chosen_def tables_shape_def)
  qed
  ultimately show ?thesis using plan u(2,3,4) frame by blast
qed

section \<open>Properties\<close>

text \<open>
  C23: \<open>sendMTFValues\<close> implements the abstract format of a block: for every sequence of values
  and a buffer with 18 bits for a value and 51410 more, it returns (the assertions 3001 to
  3007 hold, no access leaves an array), and what it has appended to the output is the
  encoding, by two to six complete code tables with lengths up to 17 and one selector for
  every fifty values, of the bytes in use and of the values; it is no longer than that bound,
  and the block in front of the output is untouched.
\<close>

theorem sendMTFValues_refines:
  assumes "ready_to_send vs a s"
  shows "\<exists>tables sels u. sendMTFValues s = Some u \<and> bs_inv u
     \<and> bs_written u = bs_written s @ block_bits (inUse s) tables sels vs
     \<and> 2 \<le> length tables \<and> length tables \<le> 6 \<and> length sels = (length vs + 49) div 50 \<and> set sels \<subseteq> {..<length tables}
     \<and> (\<forall>L \<in> set tables. length L = a \<and> full_table a L)
     \<and> length (block_bits (inUse s) tables sels vs) \<le> 18 * length vs + 51410
     \<and> (\<forall>i < zbits s. arr2 u i = arr2 s i)"
proof -
  obtain tables sels t u where u: "sendMTFValues s = Some u" "plan_ok a (length vs) tables sels" "bs_inv u"
      "bs_written u = bs_written s @ block_bits (inUse s) tables sels vs" "plan_frame s t" "bs_frame t u"
    using sendMTFValues_ok [OF assms] by blast
  have vals: "\<forall>v \<in> set vs. v < a" "0 < a" "a \<le> 258"
    using assms by (auto simp: ready_to_send_def has_values_def set_conv_nth)
  have "\<forall>i < zbits s. arr2 u i = arr2 s i"
    using u(6) by (auto simp: bs_frame_def plan_frame_fields [OF u(5)])
  with u vals length_block [OF u(2) vals] show ?thesis
    by (intro exI [of _ tables] exI [of _ sels] exI [of _ u]) (simp add: plan_ok_def)
qed

lemma sendMTFValues_refines_witness:
  "\<exists>tables sels u. sendMTFValues byte_estate = Some u \<and> bs_inv u
     \<and> bs_written u = bs_written byte_estate @ block_bits (inUse byte_estate) tables sels [0, 2]
     \<and> 2 \<le> length tables \<and> length tables \<le> 6 \<and> length sels = (length [0 :: nat, 2] + 49) div 50
     \<and> set sels \<subseteq> {..<length tables}
     \<and> (\<forall>L \<in> set tables. length L = 3 \<and> full_table 3 L)
     \<and> length (block_bits (inUse byte_estate) tables sels [0, 2]) \<le> 18 * length [0 :: nat, 2] + 51410
     \<and> (\<forall>i < zbits byte_estate. arr2 u i = arr2 byte_estate i)"
  by (rule sendMTFValues_refines)
    (auto simp: byte_estate_def empty_estate_def ready_to_send_def has_values_def tables_shape_def rect_def
      arr1_halfwords_def less_Suc_eq bs_inv_def bs_room_def arr2_bytes_def)

end
