(* ===== verification/BzReader.thy ===== *)
theory BzReader
  imports BzSend
begin

text \<open>
  The decompression state of bzip2 (\<open>DState\<close> of \<open>benchmarks/wasi/bzip2/bzlib_private.h\<close>),
  its bit reader (\<open>decompress.c\<close>), and what it means that a part of \<open>BZ2_decompress\<close> reads what
  an abstract parser of bits reads.

  \<open>BZ2_decompress\<close> returns with \<open>BZ_OK\<close> when the input runs out, and goes on at the same
  place, with its local variables restored from the state, when it is called with more input.
  In the model all the input is in \<open>d_next_in\<close> at once: \<open>Stop BZ_OK\<close> is the result on an
  input that ends early. The labels that are the values of \<open>state\<close>, and the save area of the
  local variables, are what makes the code go on; they are not in the model.
\<close>

section \<open>The state\<close>

text \<open>[bzip2/bzlib.h 33-46 BZ_OK] The return codes; those of the wrappers around files are left out.\<close>

datatype bz_ret = BZ_OK | BZ_RUN_OK | BZ_FLUSH_OK | BZ_FINISH_OK | BZ_STREAM_END | BZ_SEQUENCE_ERROR | BZ_PARAM_ERROR
  | BZ_MEM_ERROR | BZ_DATA_ERROR | BZ_DATA_ERROR_MAGIC | BZ_UNEXPECTED_EOF | BZ_OUTBUFF_FULL

text \<open>[bzip2/bzlib_private.h 348-408 DState]\<close>

record dstate =
  d_next_in :: "u8 list"
  d_total_in_lo32 :: u32
  d_total_in_hi32 :: u32
  d_next_out :: "u8 list"
  d_avail_out :: nat
  d_total_out_lo32 :: u32
  d_total_out_hi32 :: u32
  d_bsBuff :: u32
  d_bsLive :: int
  d_blockSize100k :: nat
  d_smallDecompress :: bool
  d_state_out_ch :: u8
  d_state_out_len :: int
  d_blockRandomised :: bool
  d_rand :: "int \<times> nat"
  d_origPtr :: int
  d_tPos :: u32
  d_k0 :: u8
  d_nblock_used :: int
  d_cftab :: "int list"
  d_calculatedBlockCRC :: u32
  d_storedBlockCRC :: u32
  d_storedCombinedCRC :: u32
  d_calculatedCombinedCRC :: u32
  d_save_nblock :: nat
  d_unzftab :: "int list"
  d_tt :: "nat \<Rightarrow> u32"
  d_ll16 :: "nat \<Rightarrow> u16"
  d_nInUse :: nat
  d_inUse :: "bool list"
  d_inUse16 :: "bool list"
  d_seqToUnseq :: "u8 list"
  d_mtfa :: "u8 list"
  d_mtfbase :: "int list"
  d_selector :: "nat list"
  d_selectorMtf :: "nat list"
  d_len :: "nat list list"
  d_limit :: "int list list"
  d_base :: "int list list"
  d_perm :: "int list list"
  d_minLens :: "nat list"

section \<open>Computations that can return\<close>

text \<open>A step goes on with a result, or \<open>BZ2_decompress\<close> returns.\<close>

datatype 'r out = Go 'r dstate | Stop bz_ret dstate

definition andthen :: "'r out option \<Rightarrow> ('r \<Rightarrow> dstate \<Rightarrow> 'q out option) \<Rightarrow> 'q out option" where
  "andthen m f = (case m of None \<Rightarrow> None | Some (Stop c s) \<Rightarrow> Some (Stop c s) | Some (Go x s) \<Rightarrow> f x s)"

lemma andthen_simps [simp]:
  "andthen None f = None"
  "andthen (Some (Stop c s)) f = Some (Stop c s)"
  "andthen (Some (Go x s)) f = f x s"
  by (simp_all add: andthen_def)

lemma andthen_cong [fundef_cong]:
  "m = m' \<Longrightarrow> (\<And>x s. m' = Some (Go x s) \<Longrightarrow> f x s = g x s) \<Longrightarrow> andthen m f = andthen m' g"
  by (auto simp: andthen_def split: option.split out.split)

fun for_out :: "'i list \<Rightarrow> ('i \<Rightarrow> 'r \<Rightarrow> dstate \<Rightarrow> 'r out option) \<Rightarrow> 'r \<Rightarrow> dstate \<Rightarrow> 'r out option" where
  "for_out [] body x s = Some (Go x s)"
| "for_out (i # is) body x s = andthen (body i x s) (for_out is body)"

section \<open>The bit reader\<close>

text \<open>
  [bzip2/decompress.c 43-65 GET_BITS] A shift by 32 or more, or by less than 0, is undefined.
\<close>

function get_bits :: "nat \<Rightarrow> dstate \<Rightarrow> nat out option" where
  "get_bits n s =
     (if d_bsLive s \<ge> int n
      then do { let shift = d_bsLive s - int n;
                guard (shift < 32);
                let v = drop_bit (nat shift) (d_bsBuff s) AND (push_bit n 1 - 1);
                Some (Go (unat v) (s\<lparr>d_bsLive := d_bsLive s - int n\<rparr>)) }
      else case d_next_in s of
             [] \<Rightarrow> Some (Stop BZ_OK s)
           | b # rest \<Rightarrow>
               (let lo = d_total_in_lo32 s + 1
                in get_bits n (s\<lparr>d_bsBuff := push_bit 8 (d_bsBuff s) OR ucast b, d_bsLive := d_bsLive s + 8,
                     d_next_in := rest, d_total_in_lo32 := lo,
                     d_total_in_hi32 := (if lo = 0 then d_total_in_hi32 s + 1 else d_total_in_hi32 s)\<rparr>)))"
  by pat_completeness auto
termination
  by (relation "measure (\<lambda>(_, s). length (d_next_in s))") auto

declare get_bits.simps [simp del]

text \<open>[bzip2/decompress.c 70-71 GET_BIT]\<close>

definition get_bit :: "dstate \<Rightarrow> nat out option" where
  "get_bit s = get_bits 1 s"

text \<open>What is left of the input, and how much it is.\<close>

definition bits_left :: "dstate \<Rightarrow> nat" where
  "bits_left s = nat (d_bsLive s) + 8 * length (d_next_in s)"

lemma get_bits_decreases: "get_bits n s = Some (Go v t) \<Longrightarrow> 0 < n \<Longrightarrow> bits_left t < bits_left s"
proof (induction n s rule: get_bits.induct)
  case (1 n s)
  show ?case
  proof (cases "d_bsLive s \<ge> int n")
    case True
    then show ?thesis
      using 1(2,3) by (subst (asm) get_bits.simps) (auto simp: Let_def bits_left_def split: bind_splits)
  next
    case False
    then obtain b rest where b: "d_next_in s = b # rest"
      using 1(2) by (subst (asm) get_bits.simps) (auto split: list.splits)
    define u where "u = s\<lparr>d_bsBuff := push_bit 8 (d_bsBuff s) OR ucast b, d_bsLive := d_bsLive s + 8,
      d_next_in := rest, d_total_in_lo32 := d_total_in_lo32 s + 1,
      d_total_in_hi32 := (if d_total_in_lo32 s + 1 = 0 then d_total_in_hi32 s + 1 else d_total_in_hi32 s)\<rparr>"
    have "get_bits n s = get_bits n u"
      using False by (subst get_bits.simps) (simp add: b u_def Let_def)
    then have "bits_left t < bits_left u"
      using 1(1) [OF False b refl] 1(2,3) by (simp add: u_def)
    also have "bits_left u \<le> bits_left s" by (simp add: bits_left_def u_def b)
    finally show ?thesis .
  qed
qed

section \<open>What is read\<close>

text \<open>
  The abstract side: a parser takes bits and gives a value with the bits that follow, finds
  the data corrupt, or needs more bits.
\<close>

fun pbind :: "'a found \<Rightarrow> ('a \<Rightarrow> bool list \<Rightarrow> 'b found) \<Rightarrow> 'b found" where
  "pbind (Found x bs) f = f x bs"
| "pbind Corrupt f = Corrupt"
| "pbind More_bits f = More_bits"

definition pget :: "nat \<Rightarrow> bool list \<Rightarrow> nat found" where
  "pget n bs = (if length bs < n then More_bits else Found (nat (bits_val (take n bs))) (drop n bs))"

fun pfor :: "'i list \<Rightarrow> ('i \<Rightarrow> 'r \<Rightarrow> bool list \<Rightarrow> 'r found) \<Rightarrow> 'r \<Rightarrow> bool list \<Rightarrow> 'r found" where
  "pfor [] body x bs = Found x bs"
| "pfor (i # is) body x bs = pbind (body i x bs) (pfor is body)"

text \<open>The bits that are still to be read.\<close>

definition pending :: "dstate \<Rightarrow> bool list" where
  "pending s = bits_of (nat (d_bsLive s)) (d_bsBuff s) @ concat (map (bits_of 8) (d_next_in s))"

definition rd_inv :: "dstate \<Rightarrow> bool" where
  "rd_inv s \<longleftrightarrow> 0 \<le> d_bsLive s \<and> d_bsLive s < 8"

text \<open>The reader owns the input, the counts of what was read, and the buffer.\<close>

definition rd_frame :: "dstate \<Rightarrow> dstate \<Rightarrow> bool" where
  "rd_frame s t \<longleftrightarrow> t\<lparr>d_next_in := d_next_in s, d_total_in_lo32 := d_total_in_lo32 s, d_total_in_hi32 := d_total_in_hi32 s,
     d_bsBuff := d_bsBuff s, d_bsLive := d_bsLive s\<rparr> = s"

text \<open>The code does what the parser does; \<open>Q\<close> relates what they have found and the new state.\<close>

definition refines :: "'r out option \<Rightarrow> 'a found \<Rightarrow> ('a \<Rightarrow> 'r \<Rightarrow> dstate \<Rightarrow> bool) \<Rightarrow> bool" where
  "refines m p Q = (case p of
       Found y bs \<Rightarrow> \<exists>x t. m = Some (Go x t) \<and> rd_inv t \<and> pending t = bs \<and> Q y x t
     | Corrupt \<Rightarrow> \<exists>t. m = Some (Stop BZ_DATA_ERROR t)
     | More_bits \<Rightarrow> \<exists>t. m = Some (Stop BZ_OK t))"

lemma refines_simps [simp]:
  "refines m Corrupt Q = (\<exists>t. m = Some (Stop BZ_DATA_ERROR t))"
  "refines m More_bits Q = (\<exists>t. m = Some (Stop BZ_OK t))"
  "refines m (Found y bs) Q = (\<exists>x t. m = Some (Go x t) \<and> rd_inv t \<and> pending t = bs \<and> Q y x t)"
  by (simp_all add: refines_def)

lemma refines_bind:
  assumes "refines m p Q" "\<And>y x t. Q y x t \<Longrightarrow> rd_inv t \<Longrightarrow> refines (f x t) (q y (pending t)) R"
  shows "refines (andthen m f) (pbind p q) R"
  using assms by (cases p) auto

lemma refines_mono: "refines m p Q \<Longrightarrow> (\<And>y x t. Q y x t \<Longrightarrow> R y x t) \<Longrightarrow> refines m p R"
  by (cases p) auto

lemma refines_for:
  assumes "I a y x s" "a \<le> b" "rd_inv s"
    and "\<And>i y x s. a \<le> i \<Longrightarrow> i < b \<Longrightarrow> I i y x s \<Longrightarrow> rd_inv s \<Longrightarrow> refines (body i x s) (pbody i y (pending s)) (I (Suc i))"
  shows "refines (for_out [a..<b] body x s) (pfor [a..<b] pbody y (pending s)) (I b)"
  using assms
proof (induction "b - a" arbitrary: a y x s)
  case 0
  then show ?case by simp
next
  case (Suc d)
  then have ab: "[a..<b] = a # [Suc a..<b]" "a < b" by (auto simp: upt_conv_Cons)
  have "refines (for_out [Suc a..<b] body z t) (pfor [Suc a..<b] pbody y (pending t)) (I b)"
    if "I (Suc a) y z t" "rd_inv t" for y z t
    using that Suc ab(2) by (intro Suc(1)) auto
  moreover have "refines (body a x s) (pbody a y (pending s)) (I (Suc a))" using Suc.prems ab(2) by simp
  ultimately show ?case
    unfolding ab(1) for_out.simps pfor.simps by (blast intro: refines_bind)
qed

section \<open>The bit reader reads the bits\<close>

lemma rd_frame_refl [simp]: "rd_frame s s"
  by (simp add: rd_frame_def)

lemma rd_frame_trans: "rd_frame s t \<Longrightarrow> rd_frame t u \<Longrightarrow> rd_frame s u"
proof -
  assume st: "rd_frame s t" and tu: "rd_frame t u"
  let ?undo = "\<lambda>r u. u\<lparr>d_next_in := d_next_in r, d_total_in_lo32 := d_total_in_lo32 r, d_total_in_hi32 := d_total_in_hi32 r,
     d_bsBuff := d_bsBuff r, d_bsLive := d_bsLive r\<rparr>"
  have "?undo s u = ?undo s (?undo t u)" by simp
  then show ?thesis using st tu unfolding rd_frame_def by metis
qed

lemma rd_frame_step [simp]:
  "rd_frame s (s\<lparr>d_bsLive := l\<rparr>)"
  "rd_frame s (s\<lparr>d_bsBuff := b, d_bsLive := l, d_next_in := r, d_total_in_lo32 := lo, d_total_in_hi32 := hi\<rparr>)"
  by (simp_all add: rd_frame_def)

lemma bits_of_nbits: "n \<le> LENGTH('a) \<Longrightarrow> bits_of n (w :: 'a::len word) = nbits n (unat (take_bit n w))"
  by (intro nth_equalityI) (auto simp: nth_bits_of nbits_def rev_nth bit_simps)

lemma bits_val_word: "n < LENGTH('a) \<Longrightarrow> nat (bits_val (bits_of n (w :: 'a::len word))) = unat (take_bit n w)"
proof -
  assume n: "n < LENGTH('a)"
  have "unat (take_bit n w) = take_bit n (unat w)" using n by (simp add: unsigned_take_bit_eq)
  then have "unat (take_bit n w) < 2 ^ n" by simp
  then show ?thesis using n by (simp add: bits_of_nbits bits_val_nbits)
qed

lemma bits_of_push: "l + 8 \<le> 32 \<Longrightarrow> bits_of (l + 8) (push_bit 8 (w :: u32) OR ucast (b :: u8)) = bits_of l w @ bits_of 8 b"
  by (intro nth_equalityI) (auto simp: nth_append nth_bits_of bit_simps dest: bit_imp_le_length)

lemma get_bits_ok:
  assumes "0 \<le> d_bsLive s" "d_bsLive s < int n + 8" "n \<le> 24"
  shows "refines (get_bits n s) (pget n (pending s)) (\<lambda>y x t. x = y \<and> rd_frame s t)"
  using assms
proof (induction n s rule: get_bits.induct)
  case (1 n s)
  define l where "l = nat (d_bsLive s)"
  have l: "d_bsLive s = int l" "l < n + 8" "nat (d_bsLive s) = l" using 1(2,3) by (auto simp: l_def)
  show ?case
  proof (cases "n \<le> l")
    case True
    let ?w = "drop_bit (l - n) (d_bsBuff s)"
    have "?w AND (push_bit n 1 - 1) = take_bit n ?w"
      by (simp add: take_bit_eq_mask mask_eq_decr_exp push_bit_of_1)
    then have "get_bits n s = Some (Go (unat (take_bit n ?w)) (s\<lparr>d_bsLive := int (l - n)\<rparr>))"
      using True l 1(4) by (subst get_bits.simps) (simp add: Let_def of_nat_diff nat_diff_distrib)
    moreover have bits: "bits_of l (d_bsBuff s) = bits_of n ?w @ bits_of (l - n) (d_bsBuff s)"
      using True l 1(4) bits_of_append [of "l - n" l "d_bsBuff s"] by simp
    have n: "n < LENGTH(32)" using 1(4) by simp
    moreover have "pget n (pending s) = Found (unat (take_bit n ?w)) (pending (s\<lparr>d_bsLive := int (l - n)\<rparr>))"
      unfolding pget_def pending_def l(3) bits using bits_val_word [OF n, of ?w] by simp
    ultimately show ?thesis using True l by (simp add: rd_inv_def)
  next
    case False
    show ?thesis
    proof (cases "d_next_in s")
      case Nil
      then show ?thesis using False l by (subst get_bits.simps) (simp add: pget_def pending_def)
    next
      case (Cons b rest)
      define u where "u = s\<lparr>d_bsBuff := push_bit 8 (d_bsBuff s) OR ucast b, d_bsLive := d_bsLive s + 8,
        d_next_in := rest, d_total_in_lo32 := d_total_in_lo32 s + 1,
        d_total_in_hi32 := (if d_total_in_lo32 s + 1 = 0 then d_total_in_hi32 s + 1 else d_total_in_hi32 s)\<rparr>"
      have "get_bits n s = get_bits n u"
        using False l by (subst get_bits.simps) (simp add: Cons u_def Let_def)
      moreover have "rd_frame s u" unfolding u_def by (rule rd_frame_step)
      moreover have "nat (d_bsLive u) = l + 8" "d_bsBuff u = push_bit 8 (d_bsBuff s) OR ucast b" "d_next_in u = rest"
        using l by (simp_all add: u_def)
      then have "pending u = pending s"
        using False 1(4) bits_of_push [of l "d_bsBuff s" b] by (simp add: pending_def l(3) Cons)
      moreover have "refines (get_bits n u) (pget n (pending u)) (\<lambda>y x t. x = y \<and> rd_frame u t)"
        using 1(1) [OF _ Cons refl] False l 1(4) by (simp add: u_def)
      ultimately show ?thesis by (auto elim!: refines_mono intro: rd_frame_trans)
    qed
  qed
qed

lemma get_bits_refines: "rd_inv s \<Longrightarrow> n \<le> 24 \<Longrightarrow> refines (get_bits n s) (pget n (pending s)) (\<lambda>y x t. x = y \<and> rd_frame s t)"
  by (rule get_bits_ok) (auto simp: rd_inv_def)

lemma get_bit_refines: "rd_inv s \<Longrightarrow> refines (get_bit s) (pget 1 (pending s)) (\<lambda>y x t. x = y \<and> rd_frame s t)"
  unfolding get_bit_def by (rule get_bits_refines) simp_all

lemma rd_frame_same:
  assumes "rd_frame s t"
  shows "d_inUse16 t = d_inUse16 s" "d_inUse t = d_inUse s" "d_selectorMtf t = d_selectorMtf s" "d_selector t = d_selector s"
    "d_len t = d_len s" "d_limit t = d_limit s" "d_base t = d_base s" "d_perm t = d_perm s" "d_minLens t = d_minLens s"
    "d_nInUse t = d_nInUse s" "d_seqToUnseq t = d_seqToUnseq s" "d_mtfa t = d_mtfa s" "d_mtfbase t = d_mtfbase s"
    "d_unzftab t = d_unzftab s" "d_tt t = d_tt s" "d_ll16 t = d_ll16 s" "d_blockSize100k t = d_blockSize100k s"
    "d_smallDecompress t = d_smallDecompress s" "d_state_out_ch t = d_state_out_ch s" "d_state_out_len t = d_state_out_len s"
    "d_blockRandomised t = d_blockRandomised s" "d_rand t = d_rand s" "d_origPtr t = d_origPtr s" "d_tPos t = d_tPos s"
    "d_k0 t = d_k0 s" "d_nblock_used t = d_nblock_used s" "d_cftab t = d_cftab s"
    "d_calculatedBlockCRC t = d_calculatedBlockCRC s" "d_save_nblock t = d_save_nblock s"
    "d_storedBlockCRC t = d_storedBlockCRC s" "d_storedCombinedCRC t = d_storedCombinedCRC s"
    "d_calculatedCombinedCRC t = d_calculatedCombinedCRC s"
    "d_next_out t = d_next_out s" "d_avail_out t = d_avail_out s" "d_total_out_lo32 t = d_total_out_lo32 s"
    "d_total_out_hi32 t = d_total_out_hi32 s"
proof -
  define u where "u = t\<lparr>d_next_in := d_next_in s, d_total_in_lo32 := d_total_in_lo32 s, d_total_in_hi32 := d_total_in_hi32 s,
     d_bsBuff := d_bsBuff s, d_bsLive := d_bsLive s\<rparr>"
  have s: "u = s" using assms by (simp add: rd_frame_def u_def)
  show "d_inUse16 t = d_inUse16 s" "d_inUse t = d_inUse s" "d_selectorMtf t = d_selectorMtf s" "d_selector t = d_selector s"
    "d_len t = d_len s" "d_limit t = d_limit s" "d_base t = d_base s" "d_perm t = d_perm s" "d_minLens t = d_minLens s"
    "d_nInUse t = d_nInUse s" "d_seqToUnseq t = d_seqToUnseq s" "d_mtfa t = d_mtfa s" "d_mtfbase t = d_mtfbase s"
    "d_unzftab t = d_unzftab s" "d_tt t = d_tt s" "d_ll16 t = d_ll16 s" "d_blockSize100k t = d_blockSize100k s"
    "d_smallDecompress t = d_smallDecompress s" "d_state_out_ch t = d_state_out_ch s" "d_state_out_len t = d_state_out_len s"
    "d_blockRandomised t = d_blockRandomised s" "d_rand t = d_rand s" "d_origPtr t = d_origPtr s" "d_tPos t = d_tPos s"
    "d_k0 t = d_k0 s" "d_nblock_used t = d_nblock_used s" "d_cftab t = d_cftab s"
    "d_calculatedBlockCRC t = d_calculatedBlockCRC s" "d_save_nblock t = d_save_nblock s"
    "d_storedBlockCRC t = d_storedBlockCRC s" "d_storedCombinedCRC t = d_storedCombinedCRC s"
    "d_calculatedCombinedCRC t = d_calculatedCombinedCRC s"
    "d_next_out t = d_next_out s" "d_avail_out t = d_avail_out s" "d_total_out_lo32 t = d_total_out_lo32 s"
    "d_total_out_hi32 t = d_total_out_hi32 s"
    by (simp_all add: s [symmetric]) (simp_all add: u_def)
qed

lemma rd_frame_put:
  assumes "rd_frame s t"
  shows "rd_frame (s\<lparr>d_inUse16 := x0\<rparr>) (t\<lparr>d_inUse16 := x0\<rparr>)"
    "rd_frame (s\<lparr>d_inUse := x1\<rparr>) (t\<lparr>d_inUse := x1\<rparr>)"
    "rd_frame (s\<lparr>d_nInUse := x2\<rparr>) (t\<lparr>d_nInUse := x2\<rparr>)"
    "rd_frame (s\<lparr>d_seqToUnseq := x3\<rparr>) (t\<lparr>d_seqToUnseq := x3\<rparr>)"
    "rd_frame (s\<lparr>d_selectorMtf := x4\<rparr>) (t\<lparr>d_selectorMtf := x4\<rparr>)"
    "rd_frame (s\<lparr>d_selector := x5\<rparr>) (t\<lparr>d_selector := x5\<rparr>)"
    "rd_frame (s\<lparr>d_len := x6\<rparr>) (t\<lparr>d_len := x6\<rparr>)"
    "rd_frame (s\<lparr>d_limit := x7\<rparr>) (t\<lparr>d_limit := x7\<rparr>)"
    "rd_frame (s\<lparr>d_base := x8\<rparr>) (t\<lparr>d_base := x8\<rparr>)"
    "rd_frame (s\<lparr>d_perm := x9\<rparr>) (t\<lparr>d_perm := x9\<rparr>)"
    "rd_frame (s\<lparr>d_minLens := x10\<rparr>) (t\<lparr>d_minLens := x10\<rparr>)"
    "rd_frame (s\<lparr>d_mtfa := x11\<rparr>) (t\<lparr>d_mtfa := x11\<rparr>)"
    "rd_frame (s\<lparr>d_mtfbase := x12\<rparr>) (t\<lparr>d_mtfbase := x12\<rparr>)"
    "rd_frame (s\<lparr>d_unzftab := x13\<rparr>) (t\<lparr>d_unzftab := x13\<rparr>)"
    "rd_frame (s\<lparr>d_tt := x14\<rparr>) (t\<lparr>d_tt := x14\<rparr>)"
    "rd_frame (s\<lparr>d_ll16 := x15\<rparr>) (t\<lparr>d_ll16 := x15\<rparr>)"
  by (simp_all add: rd_frame_def) (rule dstate.equality; simp add: rd_frame_same [OF assms])+

lemma reader_update [simp]:
    "rd_inv (t\<lparr>d_inUse16 := x0\<rparr>) = rd_inv t" "pending (t\<lparr>d_inUse16 := x0\<rparr>) = pending t"
    "rd_inv (t\<lparr>d_inUse := x1\<rparr>) = rd_inv t" "pending (t\<lparr>d_inUse := x1\<rparr>) = pending t"
    "rd_inv (t\<lparr>d_nInUse := x2\<rparr>) = rd_inv t" "pending (t\<lparr>d_nInUse := x2\<rparr>) = pending t"
    "rd_inv (t\<lparr>d_seqToUnseq := x3\<rparr>) = rd_inv t" "pending (t\<lparr>d_seqToUnseq := x3\<rparr>) = pending t"
    "rd_inv (t\<lparr>d_selectorMtf := x4\<rparr>) = rd_inv t" "pending (t\<lparr>d_selectorMtf := x4\<rparr>) = pending t"
    "rd_inv (t\<lparr>d_selector := x5\<rparr>) = rd_inv t" "pending (t\<lparr>d_selector := x5\<rparr>) = pending t"
    "rd_inv (t\<lparr>d_len := x6\<rparr>) = rd_inv t" "pending (t\<lparr>d_len := x6\<rparr>) = pending t"
    "rd_inv (t\<lparr>d_limit := x7\<rparr>) = rd_inv t" "pending (t\<lparr>d_limit := x7\<rparr>) = pending t"
    "rd_inv (t\<lparr>d_base := x8\<rparr>) = rd_inv t" "pending (t\<lparr>d_base := x8\<rparr>) = pending t"
    "rd_inv (t\<lparr>d_perm := x9\<rparr>) = rd_inv t" "pending (t\<lparr>d_perm := x9\<rparr>) = pending t"
    "rd_inv (t\<lparr>d_minLens := x10\<rparr>) = rd_inv t" "pending (t\<lparr>d_minLens := x10\<rparr>) = pending t"
    "rd_inv (t\<lparr>d_mtfa := x11\<rparr>) = rd_inv t" "pending (t\<lparr>d_mtfa := x11\<rparr>) = pending t"
    "rd_inv (t\<lparr>d_mtfbase := x12\<rparr>) = rd_inv t" "pending (t\<lparr>d_mtfbase := x12\<rparr>) = pending t"
    "rd_inv (t\<lparr>d_unzftab := x13\<rparr>) = rd_inv t" "pending (t\<lparr>d_unzftab := x13\<rparr>) = pending t"
    "rd_inv (t\<lparr>d_tt := x14\<rparr>) = rd_inv t" "pending (t\<lparr>d_tt := x14\<rparr>) = pending t"
    "rd_inv (t\<lparr>d_ll16 := x15\<rparr>) = rd_inv t" "pending (t\<lparr>d_ll16 := x15\<rparr>) = pending t"
  by (simp_all add: rd_inv_def pending_def)

lemma rd_frame_set:
    "rd_frame (s\<lparr>d_inUse16 := y0\<rparr>) t \<Longrightarrow> rd_frame (s\<lparr>d_inUse16 := x0\<rparr>) (t\<lparr>d_inUse16 := x0\<rparr>)"
    "rd_frame (s\<lparr>d_inUse := y1\<rparr>) t \<Longrightarrow> rd_frame (s\<lparr>d_inUse := x1\<rparr>) (t\<lparr>d_inUse := x1\<rparr>)"
    "rd_frame (s\<lparr>d_nInUse := y2\<rparr>) t \<Longrightarrow> rd_frame (s\<lparr>d_nInUse := x2\<rparr>) (t\<lparr>d_nInUse := x2\<rparr>)"
    "rd_frame (s\<lparr>d_seqToUnseq := y3\<rparr>) t \<Longrightarrow> rd_frame (s\<lparr>d_seqToUnseq := x3\<rparr>) (t\<lparr>d_seqToUnseq := x3\<rparr>)"
    "rd_frame (s\<lparr>d_selectorMtf := y4\<rparr>) t \<Longrightarrow> rd_frame (s\<lparr>d_selectorMtf := x4\<rparr>) (t\<lparr>d_selectorMtf := x4\<rparr>)"
    "rd_frame (s\<lparr>d_selector := y5\<rparr>) t \<Longrightarrow> rd_frame (s\<lparr>d_selector := x5\<rparr>) (t\<lparr>d_selector := x5\<rparr>)"
    "rd_frame (s\<lparr>d_len := y6\<rparr>) t \<Longrightarrow> rd_frame (s\<lparr>d_len := x6\<rparr>) (t\<lparr>d_len := x6\<rparr>)"
    "rd_frame (s\<lparr>d_limit := y7\<rparr>) t \<Longrightarrow> rd_frame (s\<lparr>d_limit := x7\<rparr>) (t\<lparr>d_limit := x7\<rparr>)"
    "rd_frame (s\<lparr>d_base := y8\<rparr>) t \<Longrightarrow> rd_frame (s\<lparr>d_base := x8\<rparr>) (t\<lparr>d_base := x8\<rparr>)"
    "rd_frame (s\<lparr>d_perm := y9\<rparr>) t \<Longrightarrow> rd_frame (s\<lparr>d_perm := x9\<rparr>) (t\<lparr>d_perm := x9\<rparr>)"
    "rd_frame (s\<lparr>d_minLens := y10\<rparr>) t \<Longrightarrow> rd_frame (s\<lparr>d_minLens := x10\<rparr>) (t\<lparr>d_minLens := x10\<rparr>)"
    "rd_frame (s\<lparr>d_mtfa := y11\<rparr>) t \<Longrightarrow> rd_frame (s\<lparr>d_mtfa := x11\<rparr>) (t\<lparr>d_mtfa := x11\<rparr>)"
    "rd_frame (s\<lparr>d_mtfbase := y12\<rparr>) t \<Longrightarrow> rd_frame (s\<lparr>d_mtfbase := x12\<rparr>) (t\<lparr>d_mtfbase := x12\<rparr>)"
    "rd_frame (s\<lparr>d_unzftab := y13\<rparr>) t \<Longrightarrow> rd_frame (s\<lparr>d_unzftab := x13\<rparr>) (t\<lparr>d_unzftab := x13\<rparr>)"
    "rd_frame (s\<lparr>d_tt := y14\<rparr>) t \<Longrightarrow> rd_frame (s\<lparr>d_tt := x14\<rparr>) (t\<lparr>d_tt := x14\<rparr>)"
    "rd_frame (s\<lparr>d_ll16 := y15\<rparr>) t \<Longrightarrow> rd_frame (s\<lparr>d_ll16 := x15\<rparr>) (t\<lparr>d_ll16 := x15\<rparr>)"
  by (drule rd_frame_put, simp)+

end
