(* ===== verification/BzReceive.thy ===== *)
theory BzReceive
  imports BzReader
begin

text \<open>
  The part of \<open>BZ2_decompress\<close> (\<open>benchmarks/wasi/bzip2/decompress.c\<close>) that receives a block up
  to its coding tables, and the abstract parsers that it implements.
\<close>

section \<open>The mapping table\<close>

text \<open>[bzip2/decompress.c 26-36 makeMaps_d]\<close>

definition makeMaps_d :: "dstate \<Rightarrow> dstate option" where
  "makeMaps_d s =
     for_in [0..<256] (\<lambda>i s.
       do { u \<leftarrow> aget (d_inUse s) i;
            if u then do { q \<leftarrow> aput (d_seqToUnseq s) (d_nInUse s) (of_nat i);
                           Some (s\<lparr>d_seqToUnseq := q, d_nInUse := d_nInUse s + 1\<rparr>) }
            else Some s }) (s\<lparr>d_nInUse := 0\<rparr>)"

text \<open>[bzip2/decompress.c 267-272 BZ2_decompress]\<close>

definition receive_inUse16 :: "dstate \<Rightarrow> unit out option" where
  "receive_inUse16 s =
     for_out [0..<16] (\<lambda>i _ s. andthen (get_bit s) (\<lambda>uc s.
       do { us \<leftarrow> aput (d_inUse16 s) i (uc = 1); Some (Go () (s\<lparr>d_inUse16 := us\<rparr>)) })) () s"

text \<open>[bzip2/decompress.c 276-281 BZ2_decompress]\<close>

definition receive_inUse :: "dstate \<Rightarrow> unit out option" where
  "receive_inUse s =
     for_out [0..<16] (\<lambda>i _ s.
       do { used \<leftarrow> aget (d_inUse16 s) i;
            if used
            then for_out [0..<16] (\<lambda>j _ s. andthen (get_bit s) (\<lambda>uc s.
                   if uc = 1 then do { us \<leftarrow> aput (d_inUse s) (i * 16 + j) True; Some (Go () (s\<lparr>d_inUse := us\<rparr>)) }
                   else Some (Go () s))) () s
            else Some (Go () s) }) () s"

text \<open>[bzip2/decompress.c 267-284 BZ2_decompress] The result is the size of the alphabet.\<close>

definition receive_mapping :: "dstate \<Rightarrow> nat out option" where
  "receive_mapping s =
     andthen (receive_inUse16 s) (\<lambda>_ s.
     do { us \<leftarrow> for_in [0..<256] (\<lambda>i us. aput us i False) (d_inUse s);
          andthen (receive_inUse (s\<lparr>d_inUse := us\<rparr>)) (\<lambda>_ s.
          do { s \<leftarrow> makeMaps_d s;
               Some (if d_nInUse s = 0 then Stop BZ_DATA_ERROR s else Go (d_nInUse s + 2) s) }) })"

section \<open>The selectors\<close>

text \<open>[bzip2/decompress.c 292-298 BZ2_decompress] A number in unary, less than \<open>nGroups\<close>.\<close>

function receive_unary :: "nat \<Rightarrow> nat \<Rightarrow> dstate \<Rightarrow> nat out option" where
  "receive_unary nGroups j s =
     andthen (get_bit s) (\<lambda>uc s.
       if uc = 0 then Some (Go j s)
       else if j + 1 \<ge> nGroups then Some (Stop BZ_DATA_ERROR s)
       else receive_unary nGroups (j + 1) s)"
  by pat_completeness auto
termination
  by (relation "measure (\<lambda>(nGroups, j, _). nGroups - j)") auto

declare receive_unary.simps [simp del]

text \<open>[bzip2/decompress.c 291-304 BZ2_decompress] Selectors that do not fit are read and ignored.\<close>

definition receive_selectorMtf :: "nat \<Rightarrow> nat \<Rightarrow> dstate \<Rightarrow> unit out option" where
  "receive_selectorMtf nGroups nSelectors s =
     for_out [0..<nSelectors] (\<lambda>i _ s. andthen (receive_unary nGroups 0 s) (\<lambda>j s.
       if i < BZ_MAX_SELECTORS
       then do { m \<leftarrow> aput (d_selectorMtf s) i j; Some (Go () (s\<lparr>d_selectorMtf := m\<rparr>)) }
       else Some (Go () s))) () s"

text \<open>[bzip2/decompress.c 316-316 BZ2_decompress] The tables in front of one move up.\<close>

fun shift_up :: "nat \<Rightarrow> 'a list \<Rightarrow> 'a list option" where
  "shift_up 0 pos = Some pos"
| "shift_up (Suc v) pos = do { x \<leftarrow> aget pos v; pos \<leftarrow> aput pos (Suc v) x; shift_up v pos }"

text \<open>
  [bzip2/decompress.c 309-320 BZ2_decompress] Of the local array \<open>pos\<close> only the cells that
  are initialised are in the model: a read of another would be undefined.
\<close>

definition undo_selectorMtf :: "nat \<Rightarrow> nat \<Rightarrow> dstate \<Rightarrow> dstate option" where
  "undo_selectorMtf nGroups nSelectors s =
     do { pos \<leftarrow> for_in [0..<nGroups] (\<lambda>v pos. aput pos v v) (replicate nGroups 0);
          (pos, s) \<leftarrow> for_in [0..<nSelectors] (\<lambda>i (pos, s).
            do { v \<leftarrow> aget (d_selectorMtf s) i;
                 tmp \<leftarrow> aget pos v;
                 pos \<leftarrow> shift_up v pos;
                 pos \<leftarrow> aput pos 0 tmp;
                 sel \<leftarrow> aput (d_selector s) i tmp;
                 Some (pos, s\<lparr>d_selector := sel\<rparr>) }) (pos, s);
          Some s }"

text \<open>[bzip2/decompress.c 287-320 BZ2_decompress] The numbers of tables and of selectors.\<close>

definition receive_selectors :: "dstate \<Rightarrow> (nat \<times> nat) out option" where
  "receive_selectors s =
     andthen (get_bits 3 s) (\<lambda>nGroups s.
     if nGroups < 2 \<or> nGroups > BZ_N_GROUPS then Some (Stop BZ_DATA_ERROR s)
     else andthen (get_bits 15 s) (\<lambda>nSelectors s.
       if nSelectors < 1 then Some (Stop BZ_DATA_ERROR s)
       else andthen (receive_selectorMtf nGroups nSelectors s) (\<lambda>_ s.
         do { let nSelectors = (if nSelectors > BZ_MAX_SELECTORS then BZ_MAX_SELECTORS else nSelectors);
              s \<leftarrow> undo_selectorMtf nGroups nSelectors s;
              Some (Go (nGroups, nSelectors) s) })))"

section \<open>The coding tables\<close>

text \<open>[bzip2/decompress.c 326-332 BZ2_decompress] From one code length to the next.\<close>

function receive_length :: "int \<Rightarrow> dstate \<Rightarrow> int out option" where
  "receive_length cur s =
     (if cur < 1 \<or> cur > 20 then Some (Stop BZ_DATA_ERROR s)
      else andthen (get_bit s) (\<lambda>uc s.
        if uc = 0 then Some (Go cur s)
        else andthen (get_bit s) (\<lambda>uc s.
          receive_length (if uc = 0 then cur + 1 else cur - 1) s)))"
  by pat_completeness auto
termination
  by (relation "measure (\<lambda>(_, s). bits_left s)") (auto simp: get_bit_def dest!: get_bits_decreases)

declare receive_length.simps [simp del]

text \<open>[bzip2/decompress.c 323-335 BZ2_decompress]\<close>

definition receive_tables :: "nat \<Rightarrow> nat \<Rightarrow> dstate \<Rightarrow> unit out option" where
  "receive_tables alphaSize nGroups s =
     for_out [0..<nGroups] (\<lambda>t _ s. andthen (get_bits 5 s) (\<lambda>cur s.
       andthen (for_out [0..<alphaSize] (\<lambda>i cur s. andthen (receive_length cur s) (\<lambda>cur s.
           do { l \<leftarrow> aput2 (d_len s) t i (nat cur); Some (Go cur (s\<lparr>d_len := l\<rparr>)) })) (int cur) s)
         (\<lambda>_ s. Some (Go () s)))) () s"

text \<open>
  [bzip2/decompress.c 338-353 BZ2_decompress] The decoding tables; the loop for the least and
  the greatest length is that of the compressor.
\<close>

definition create_tables :: "nat \<Rightarrow> nat \<Rightarrow> dstate \<Rightarrow> dstate option" where
  "create_tables alphaSize nGroups s =
     for_in [0..<nGroups] (\<lambda>t s.
       do { l \<leftarrow> aget (d_len s) t;
            (minLen, maxLen) \<leftarrow> min_max_len alphaSize l;
            li \<leftarrow> aget (d_limit s) t;
            ba \<leftarrow> aget (d_base s) t;
            pe \<leftarrow> aget (d_perm s) t;
            (li, ba, pe) \<leftarrow> BZ2_hbCreateDecodeTables li ba pe l minLen maxLen alphaSize;
            lis \<leftarrow> aput (d_limit s) t li;
            bas \<leftarrow> aput (d_base s) t ba;
            pes \<leftarrow> aput (d_perm s) t pe;
            mi \<leftarrow> aput (d_minLens s) t minLen;
            Some (s\<lparr>d_limit := lis, d_base := bas, d_perm := pes, d_minLens := mi\<rparr>) }) s"

section \<open>The mapping table is received\<close>

definition parse_flags :: "nat \<Rightarrow> bool list \<Rightarrow> bool list found" where
  "parse_flags n = pfor [0..<n] (\<lambda>_ fs bs. pbind (pget 1 bs) (\<lambda>b. Found (fs @ [b = 1]))) []"

definition parse_rows :: "bool list \<Rightarrow> bool list \<Rightarrow> bool list found" where
  "parse_rows used = pfor [0..<16] (\<lambda>i us bs. if used ! i then pbind (parse_flags 16 bs) (\<lambda>fs. Found (us @ fs))
     else Found (us @ replicate 16 False) bs) []"

definition parse_mapping :: "bool list \<Rightarrow> bool list found" where
  "parse_mapping bs = pbind (parse_flags 16 bs) (\<lambda>used bs. pbind (parse_rows used bs) (\<lambda>us bs.
     if True \<in> set us then Found us bs else Corrupt))"

lemma receive_inUse16_refines:
  assumes "rd_inv s" "length (d_inUse16 s) = 16"
  shows "refines (receive_inUse16 s) (parse_flags 16 (pending s))
     (\<lambda>used _ t. length used = 16 \<and> rd_frame (s\<lparr>d_inUse16 := used\<rparr>) t)"
proof -
  let ?I = "\<lambda>i fs _ t. length fs = i \<and> rd_frame (s\<lparr>d_inUse16 := fs @ drop i (d_inUse16 s)\<rparr>) t"
  have "refines (receive_inUse16 s) (parse_flags 16 (pending s)) (?I 16)"
    unfolding receive_inUse16_def parse_flags_def
  proof (rule refines_for [where I = ?I])
    fix i fs x t assume i: "i < (16 :: nat)" and I: "?I i fs x t" and t: "rd_inv t"
    note same = rd_frame_same [OF conjunct2 [OF I]]
    show "refines (andthen (get_bit t) (\<lambda>uc s. do { us \<leftarrow> aput (d_inUse16 s) i (uc = 1); Some (Go () (s\<lparr>d_inUse16 := us\<rparr>)) }))
        (pbind (pget 1 (pending t)) (\<lambda>b. Found (fs @ [b = 1]))) (?I (Suc i))"
    proof (rule refines_bind [OF get_bit_refines [OF t]])
      fix y z :: nat and u assume u: "z = y \<and> rd_frame t u" "rd_inv u"
      let ?us = "fs @ (y = 1) # drop (Suc i) (d_inUse16 s)"
      have "d_inUse16 u = fs @ drop i (d_inUse16 s)" by (simp add: rd_frame_same [OF conjunct2 [OF u(1)]] same)
      then have "aput (d_inUse16 u) i (z = 1) = Some ?us"
        using I i assms(2) u(1) by (simp add: list_update_append Cons_nth_drop_Suc [symmetric])
      moreover have "rd_frame (s\<lparr>d_inUse16 := ?us\<rparr>) (u\<lparr>d_inUse16 := ?us\<rparr>)"
        using rd_frame_put(1) [OF rd_frame_trans [OF conjunct2 [OF I] conjunct2 [OF u(1)]], of ?us] by simp
      ultimately show "refines (do { us \<leftarrow> aput (d_inUse16 u) i (z = 1); Some (Go () (u\<lparr>d_inUse16 := us\<rparr>)) })
          (Found (fs @ [y = 1]) (pending u)) (?I (Suc i))"
        using I u(2) by (simp add: rd_inv_def pending_def)
    qed
  qed (use assms in simp_all)
  then show ?thesis by (rule refines_mono) (use assms(2) in simp)
qed

lemma refines_Go: "rd_inv t \<Longrightarrow> Q y x t \<Longrightarrow> refines (Some (Go x t)) (Found y (pending t)) Q"
  by simp

lemma refines_map:
  "refines m p Q \<Longrightarrow> (\<And>y x t. Q y x t \<Longrightarrow> R (f y) x t) \<Longrightarrow> refines m (pbind p (\<lambda>y. Found (f y))) R"
  by (cases p) auto

lemma receive_row_refines:
  assumes "rd_inv s" "i < 16" "length us = i * 16" "d_inUse s = us @ replicate (256 - i * 16) False"
  shows "refines (for_out [0..<16] (\<lambda>j _ s. andthen (get_bit s) (\<lambda>uc s.
        if uc = 1 then do { us \<leftarrow> aput (d_inUse s) (i * 16 + j) True; Some (Go () (s\<lparr>d_inUse := us\<rparr>)) }
        else Some (Go () s))) () s) (parse_flags 16 (pending s))
     (\<lambda>fs _ t. length fs = 16 \<and> rd_frame (s\<lparr>d_inUse := us @ fs @ replicate (256 - (i + 1) * 16) False\<rparr>) t)"
proof -
  let ?X = "\<lambda>fs. us @ fs @ replicate (256 - i * 16 - length fs) False"
  let ?I = "\<lambda>j fs _ t. length fs = j \<and> rd_frame (s\<lparr>d_inUse := ?X fs\<rparr>) t"
  have "s\<lparr>d_inUse := us @ replicate (256 - i * 16) False\<rparr> = s" unfolding assms(4) [symmetric] by simp
  then have start: "rd_frame (s\<lparr>d_inUse := ?X []\<rparr>) s" by simp
  have "refines (for_out [0..<16] (\<lambda>j _ s. andthen (get_bit s) (\<lambda>uc s.
        if uc = 1 then do { us \<leftarrow> aput (d_inUse s) (i * 16 + j) True; Some (Go () (s\<lparr>d_inUse := us\<rparr>)) }
        else Some (Go () s))) () s) (parse_flags 16 (pending s)) (?I 16)"
    unfolding parse_flags_def
  proof (rule refines_for [where I = ?I])
    fix j fs x t assume j: "j < (16 :: nat)" and I: "?I j fs x t" and t: "rd_inv t"
    show "refines (andthen (get_bit t) (\<lambda>uc s.
        if uc = 1 then do { us \<leftarrow> aput (d_inUse s) (i * 16 + j) True; Some (Go () (s\<lparr>d_inUse := us\<rparr>)) }
        else Some (Go () s))) (pbind (pget 1 (pending t)) (\<lambda>b. Found (fs @ [b = 1]))) (?I (Suc j))"
    proof (rule refines_bind [OF get_bit_refines [OF t]])
      fix y z :: nat and u assume u: "z = y \<and> rd_frame t u" "rd_inv u"
      have fr: "rd_frame (s\<lparr>d_inUse := ?X fs\<rparr>) u" using I u(1) by (blast intro: rd_frame_trans)
      have X: "d_inUse u = ?X fs" by (simp add: rd_frame_same [OF fr])
      have "256 - i * 16 - length fs = Suc (256 - i * 16 - length (fs @ [y = 1]))" using I j assms(2) by simp
      then have rep: "replicate (256 - i * 16 - length fs) False = False # replicate (256 - i * 16 - length (fs @ [y = 1])) False"
        by simp
      show "refines (if z = 1 then do { us \<leftarrow> aput (d_inUse u) (i * 16 + j) True; Some (Go () (u\<lparr>d_inUse := us\<rparr>)) }
          else Some (Go () u)) (Found (fs @ [y = 1]) (pending u)) (?I (Suc j))"
      proof (cases "y = 1")
        case True
        then have "(d_inUse u)[i * 16 + j := True] = ?X (fs @ [y = 1])" "i * 16 + j < length (d_inUse u)"
          using I assms(3) unfolding X rep by (simp_all add: list_update_append)
        then show ?thesis using True I u rd_frame_set(2) [OF fr, of "?X (fs @ [y = 1])"] by simp
      next
        case False
        then have "?X fs = ?X (fs @ [y = 1])" unfolding rep by simp
        then show ?thesis using False I u fr by simp
      qed
    qed
  qed (use start in \<open>simp_all add: assms(1)\<close>)
  then show ?thesis
    by (rule refines_mono) (use assms(2) in \<open>auto simp: algebra_simps\<close>)
qed

lemma receive_inUse_refines:
  assumes "rd_inv s" "length (d_inUse16 s) = 16" "d_inUse s = replicate 256 False"
  shows "refines (receive_inUse s) (parse_rows (d_inUse16 s) (pending s))
     (\<lambda>us _ t. length us = 256 \<and> rd_frame (s\<lparr>d_inUse := us\<rparr>) t)"
proof -
  let ?X = "\<lambda>us. us @ replicate (256 - length us) False"
  let ?I = "\<lambda>i us _ t. length us = i * 16 \<and> rd_frame (s\<lparr>d_inUse := ?X us\<rparr>) t"
  have "s\<lparr>d_inUse := replicate 256 False\<rparr> = s" unfolding assms(3) [symmetric] by simp
  then have start: "rd_frame (s\<lparr>d_inUse := ?X []\<rparr>) s" by simp
  have "refines (receive_inUse s) (parse_rows (d_inUse16 s) (pending s)) (?I 16)"
    unfolding receive_inUse_def parse_rows_def
  proof (rule refines_for [where I = ?I])
    fix i us x t assume i: "i < (16 :: nat)" and I: "?I i us x t" and t: "rd_inv t"
    note fr = conjunct2 [OF I]
    note same = rd_frame_same [OF fr]
    let ?body = "\<lambda>j _ s. andthen (get_bit s) (\<lambda>uc s.
        if uc = 1 then do { us \<leftarrow> aput (d_inUse s) (i * 16 + j) True; Some (Go () (s\<lparr>d_inUse := us\<rparr>)) }
        else Some (Go () s))"
    have "refines (for_out [0..<16] ?body () t) (pbind (parse_flags 16 (pending t)) (\<lambda>fs. Found (us @ fs))) (?I (Suc i))"
    proof -
      have "refines (for_out [0..<16] ?body () t) (parse_flags 16 (pending t))
         (\<lambda>fs _ u. length fs = 16 \<and> rd_frame (t\<lparr>d_inUse := us @ fs @ replicate (256 - (i + 1) * 16) False\<rparr>) u)"
        using I i t same by (intro receive_row_refines) simp_all
      moreover have "rd_frame (s\<lparr>d_inUse := ?X (us @ fs)\<rparr>) u"
        if "length fs = 16" "rd_frame (t\<lparr>d_inUse := us @ fs @ replicate (256 - (i + 1) * 16) False\<rparr>) u" for fs u
      proof -
        have "us @ fs @ replicate (256 - (i + 1) * 16) False = ?X (us @ fs)" using I that(1) by simp
        then show ?thesis using rd_frame_trans [OF rd_frame_set(2) [OF fr] that(2)] by simp
      qed
      ultimately show ?thesis
        using I by (cases "parse_flags 16 (pending t)") auto
    qed
    have "us @ replicate 16 False @ replicate (256 - (length us + 16)) False = ?X us"
      using I i by (simp add: replicate_add [symmetric])
    then have "?I (Suc i) (us @ replicate 16 False) () t" using conjunct1 [OF I] fr by simp
    have "aget (d_inUse16 t) i = Some (d_inUse16 s ! i)" using i assms(2) by (simp add: same(1))
    show "refines (do { used \<leftarrow> aget (d_inUse16 t) i; if used then for_out [0..<16] ?body () t else Some (Go () t) })
        (if d_inUse16 s ! i then pbind (parse_flags 16 (pending t)) (\<lambda>fs. Found (us @ fs))
         else Found (us @ replicate 16 False) (pending t)) (?I (Suc i))"
    proof (cases "d_inUse16 s ! i")
      case True
      then show ?thesis
        using \<open>refines (for_out _ _ _ _) _ _\<close> \<open>aget _ _ = _\<close> by (simp only: Option.bind.bind_lunit if_True)
    next
      case False
      have "refines (Some (Go () t)) (Found (us @ replicate 16 False) (pending t)) (?I (Suc i))"
        by (rule refines_Go [OF t]) (rule \<open>?I (Suc i) _ () t\<close>)
      then show ?thesis
        unfolding \<open>aget _ _ = _\<close> Option.bind.bind_lunit using False by (simp only: if_False)
    qed
  qed (use start in \<open>simp_all add: assms(1)\<close>)
  then show ?thesis by (rule refines_mono) (elim conjE, simp)
qed

lemma makeMaps_d_ok:
  assumes "length (d_inUse s) = 256" "length (d_seqToUnseq s) = 256"
  shows "runs (makeMaps_d s) (\<lambda>t. \<exists>q. t = s\<lparr>d_seqToUnseq := q, d_nInUse := rank (d_inUse s) 256\<rparr>
     \<and> length q = 256 \<and> take (rank (d_inUse s) 256) q = used_bytes (d_inUse s))"
proof -
  let ?us = "d_inUse s"
  let ?I = "\<lambda>i t. \<exists>q. t = s\<lparr>d_seqToUnseq := q, d_nInUse := rank ?us i\<rparr> \<and> length q = 256
     \<and> take (rank ?us i) q = map of_nat (filter (\<lambda>i. ?us ! i) [0..<i])"
  have "runs (makeMaps_d s) (?I 256)"
    unfolding makeMaps_d_def
  proof (rule runs_for_upt [where I = ?I])
    show "?I 0 (s\<lparr>d_nInUse := 0\<rparr>)" using assms(2) by (intro exI [of _ "d_seqToUnseq s"]) simp
    fix i t assume i: "i < (256 :: nat)" and "?I i t"
    then obtain q where q: "t = s\<lparr>d_seqToUnseq := q, d_nInUse := rank ?us i\<rparr>" "length q = 256"
        "take (rank ?us i) q = map of_nat (filter (\<lambda>i. ?us ! i) [0..<i])" by blast
    have r: "rank ?us i < 256" using rank_le [of ?us i] i by simp
    show "runs (do { u \<leftarrow> aget (d_inUse t) i;
            if u then do { q \<leftarrow> aput (d_seqToUnseq t) (d_nInUse t) (of_nat i);
                           Some (t\<lparr>d_seqToUnseq := q, d_nInUse := d_nInUse t + 1\<rparr>) }
            else Some t }) (?I (Suc i))"
      using q r i assms(1)
    proof (cases "?us ! i")
      case True
      then show ?thesis
        using q r i assms(1) by (auto simp: take_Suc_conv_app_nth intro!: exI [of _ "q[rank ?us i := of_nat i]"])
    next
      case False
      then show ?thesis using q i assms(1) by (auto intro!: exI [of _ q])
    qed
  qed simp
  then show ?thesis by (elim runs_mono) (simp add: used_bytes_def)
qed

lemma rank_0_iff: "length us = 256 \<Longrightarrow> rank us 256 = 0 \<longleftrightarrow> True \<notin> set us"
  by (auto simp: rank_def filter_empty_conv in_set_conv_nth)

text \<open>What the parts of the state are that the stages change, one after the other.\<close>

definition same_map :: "dstate \<Rightarrow> dstate \<Rightarrow> bool" where
  "same_map s t \<longleftrightarrow> d_inUse t = d_inUse s \<and> d_inUse16 t = d_inUse16 s \<and> d_nInUse t = d_nInUse s
     \<and> d_seqToUnseq t = d_seqToUnseq s"

definition same_selectors :: "dstate \<Rightarrow> dstate \<Rightarrow> bool" where
  "same_selectors s t \<longleftrightarrow> d_selector t = d_selector s \<and> d_selectorMtf t = d_selectorMtf s"

definition same_tables :: "dstate \<Rightarrow> dstate \<Rightarrow> bool" where
  "same_tables s t \<longleftrightarrow> d_len t = d_len s \<and> d_limit t = d_limit s \<and> d_base t = d_base s \<and> d_perm t = d_perm s
     \<and> d_minLens t = d_minLens s"

definition same_head :: "dstate \<Rightarrow> dstate \<Rightarrow> bool" where
  "same_head s t \<longleftrightarrow> d_origPtr t = d_origPtr s \<and> d_blockRandomised t = d_blockRandomised s \<and> d_cftab t = d_cftab s
     \<and> d_storedBlockCRC t = d_storedBlockCRC s \<and> d_storedCombinedCRC t = d_storedCombinedCRC s
     \<and> d_calculatedCombinedCRC t = d_calculatedCombinedCRC s \<and> d_next_out t = d_next_out s \<and> d_avail_out t = d_avail_out s
     \<and> d_total_out_lo32 t = d_total_out_lo32 s \<and> d_total_out_hi32 t = d_total_out_hi32 s"

definition same_values :: "dstate \<Rightarrow> dstate \<Rightarrow> bool" where
  "same_values s t \<longleftrightarrow> d_unzftab t = d_unzftab s \<and> d_mtfa t = d_mtfa s \<and> d_mtfbase t = d_mtfbase s
     \<and> d_tt t = d_tt s \<and> d_ll16 t = d_ll16 s \<and> d_blockSize100k t = d_blockSize100k s
     \<and> d_smallDecompress t = d_smallDecompress s \<and> same_head s t"

lemmas same_defs = same_map_def same_selectors_def same_tables_def same_values_def same_head_def

lemma rd_frame_groups:
  "rd_frame s t \<Longrightarrow> same_map s t" "rd_frame s t \<Longrightarrow> same_selectors s t" "rd_frame s t \<Longrightarrow> same_tables s t"
  "rd_frame s t \<Longrightarrow> same_values s t"
  by (simp_all add: same_defs rd_frame_same)

text \<open>The arrays of the state have their sizes.\<close>

definition map_shape :: "dstate \<Rightarrow> bool" where
  "map_shape s \<longleftrightarrow> length (d_inUse s) = 256 \<and> length (d_inUse16 s) = 16 \<and> length (d_seqToUnseq s) = 256"

lemma receive_mapping_refines:
  assumes "rd_inv s" "map_shape s"
  shows "refines (receive_mapping s) (parse_mapping (pending s)) (\<lambda>us alphaSize t.
     alphaSize = rank us 256 + 2 \<and> length us = 256 \<and> 0 < rank us 256
     \<and> d_inUse t = us \<and> d_nInUse t = rank us 256 \<and> take (rank us 256) (d_seqToUnseq t) = used_bytes us
     \<and> map_shape t \<and> same_selectors s t \<and> same_tables s t \<and> same_values s t)"
  unfolding receive_mapping_def parse_mapping_def
proof (rule refines_bind [OF receive_inUse16_refines])
  show "rd_inv s" "length (d_inUse16 s) = 16" using assms by (simp_all add: map_shape_def)
next
  fix used x t assume t: "length used = 16 \<and> rd_frame (s\<lparr>d_inUse16 := used\<rparr>) t" "rd_inv t"
  note same_t = rd_frame_same [OF conjunct2 [OF t(1)]]
  have clear: "for_in [0..<256] (\<lambda>i us. aput us i False) (d_inUse t) = Some (replicate 256 False)"
    using for_in_aput_range [of 0 256 "d_inUse t" "\<lambda>_. False"] assms(2) same_t
    by (simp add: map_shape_def map_replicate_const)
  let ?t = "t\<lparr>d_inUse := replicate 256 False\<rparr>"
  have "refines (receive_inUse ?t) (parse_rows (d_inUse16 ?t) (pending ?t))
     (\<lambda>us _ u. length us = 256 \<and> rd_frame (?t\<lparr>d_inUse := us\<rparr>) u)"
    using t same_t by (intro receive_inUse_refines) simp_all
  then have rows: "refines (receive_inUse ?t) (parse_rows used (pending t))
     (\<lambda>us _ u. length us = 256 \<and> rd_frame (t\<lparr>d_inUse := us\<rparr>) u)"
    using same_t by simp
  show "refines (for_in [0..<256] (\<lambda>i us. aput us i False) (d_inUse t) \<bind> (\<lambda>us.
         andthen (receive_inUse (t\<lparr>d_inUse := us\<rparr>)) (\<lambda>_ s. makeMaps_d s \<bind> (\<lambda>s.
           Some (if d_nInUse s = 0 then Stop BZ_DATA_ERROR s else Go (d_nInUse s + 2) s)))))
      (pbind (parse_rows used (pending t)) (\<lambda>us bs. if True \<in> set us then Found us bs else Corrupt))
      (\<lambda>us alphaSize t. alphaSize = rank us 256 + 2 \<and> length us = 256 \<and> 0 < rank us 256
     \<and> d_inUse t = us \<and> d_nInUse t = rank us 256 \<and> take (rank us 256) (d_seqToUnseq t) = used_bytes us
     \<and> map_shape t \<and> same_selectors s t \<and> same_tables s t \<and> same_values s t)"
    unfolding clear Option.bind.bind_lunit
  proof (rule refines_bind [OF rows])
    fix us x u assume u: "length us = 256 \<and> rd_frame (t\<lparr>d_inUse := us\<rparr>) u" "rd_inv u"
    note same_u = rd_frame_same [OF conjunct2 [OF u(1)], simplified]
    obtain q where q: "makeMaps_d u = Some (u\<lparr>d_seqToUnseq := q, d_nInUse := rank us 256\<rparr>)" "length q = 256"
        "take (rank us 256) q = used_bytes us"
      using makeMaps_d_ok [of u] u(1) same_u same_t assms(2) by (auto simp: runs_iff_Some map_shape_def)
    show "refines (makeMaps_d u \<bind> (\<lambda>s. Some (if d_nInUse s = 0 then Stop BZ_DATA_ERROR s else Go (d_nInUse s + 2) s)))
        (if True \<in> set us then Found us (pending u) else Corrupt)
      (\<lambda>us alphaSize t. alphaSize = rank us 256 + 2 \<and> length us = 256 \<and> 0 < rank us 256
     \<and> d_inUse t = us \<and> d_nInUse t = rank us 256 \<and> take (rank us 256) (d_seqToUnseq t) = used_bytes us
     \<and> map_shape t \<and> same_selectors s t \<and> same_tables s t \<and> same_values s t)"
      using q u same_u same_t assms(2) rank_0_iff [of us] conjunct1 [OF t(1)]
      by (cases "rank us 256 = 0") (auto simp: map_shape_def same_defs)
  qed
qed

section \<open>The selectors are received\<close>

function parse_unary :: "nat \<Rightarrow> nat \<Rightarrow> bool list \<Rightarrow> nat found" where
  "parse_unary g j bs = pbind (pget 1 bs) (\<lambda>b bs.
     if b = 0 then Found j bs else if j + 1 \<ge> g then Corrupt else parse_unary g (j + 1) bs)"
  by pat_completeness auto
termination
  by (relation "measure (\<lambda>(g, j, _). g - j)") auto

declare parse_unary.simps [simp del]

text \<open>The tables at given places, the last one used in front.\<close>

fun unplaces :: "'a list \<Rightarrow> nat list \<Rightarrow> 'a list" where
  "unplaces ys [] = []"
| "unplaces ys (m # ms) = ys ! m # unplaces (front m ys) ms"

definition parse_places :: "nat \<Rightarrow> nat \<Rightarrow> bool list \<Rightarrow> nat list found" where
  "parse_places g n = pfor [0..<n] (\<lambda>_ ms bs. pbind (parse_unary g 0 bs) (\<lambda>m. Found (ms @ [m]))) []"

definition parse_selectors :: "bool list \<Rightarrow> (nat \<times> nat list) found" where
  "parse_selectors bs = pbind (pget 3 bs) (\<lambda>g bs.
     if g < 2 \<or> g > 6 then Corrupt
     else pbind (pget 15 bs) (\<lambda>n bs.
       if n < 1 then Corrupt
       else pbind (parse_places g n bs) (\<lambda>ms. Found (g, unplaces [0..<g] (take BZ_MAX_SELECTORS ms)))))"

definition selectors_shape :: "dstate \<Rightarrow> bool" where
  "selectors_shape s \<longleftrightarrow> length (d_selector s) = BZ_MAX_SELECTORS \<and> length (d_selectorMtf s) = BZ_MAX_SELECTORS"

lemma length_unplaces [simp]: "length (unplaces ys ms) = length ms"
  by (induction ys ms rule: unplaces.induct) simp_all

lemma unplaces_snoc:
  "unplaces ys (ms @ [m]) = unplaces ys ms @ [foldl (\<lambda>ys m. front m ys) ys ms ! m]"
  by (induction ys ms rule: unplaces.induct) simp_all

lemma receive_unary_refines:
  "rd_inv s \<Longrightarrow> j < g \<Longrightarrow> refines (receive_unary g j s) (parse_unary g j (pending s))
     (\<lambda>y x t. x = y \<and> y < g \<and> rd_frame s t)"
proof (induction "g - j" arbitrary: j s)
  case (Suc d)
  show ?case
    unfolding receive_unary.simps [of g j] parse_unary.simps [of g j]
  proof (rule refines_bind [OF get_bit_refines [OF Suc(3)]])
    fix y x :: nat and t assume t: "x = y \<and> rd_frame s t" "rd_inv t"
    show "refines (if x = 0 then Some (Go j t) else if j + 1 \<ge> g then Some (Stop BZ_DATA_ERROR t) else receive_unary g (j + 1) t)
        (if y = 0 then Found j (pending t) else if j + 1 \<ge> g then Corrupt else parse_unary g (j + 1) (pending t))
        (\<lambda>y x t. x = y \<and> y < g \<and> rd_frame s t)"
    proof (cases "y \<noteq> 0 \<and> j + 1 < g")
      case True
      then have "refines (receive_unary g (j + 1) t) (parse_unary g (j + 1) (pending t)) (\<lambda>y x u. x = y \<and> y < g \<and> rd_frame t u)"
        using Suc(2) t(2) by (intro Suc(1)) simp_all
      then show ?thesis using True t by (auto elim!: refines_mono intro: rd_frame_trans)
    next
      case False
      then show ?thesis using t Suc(4) by auto
    qed
  qed
qed simp

lemma shift_up_eq: "v < length pos \<Longrightarrow> shift_up v pos = Some (pos ! 0 # take v pos @ drop (Suc v) pos)"
proof (induction v arbitrary: pos)
  case 0
  then show ?case by (cases pos) simp_all
next
  case (Suc v)
  then have "shift_up (Suc v) pos = Some (pos[Suc v := pos ! v] ! 0 # take v (pos[Suc v := pos ! v]) @ drop (Suc v) (pos[Suc v := pos ! v]))"
    by simp
  moreover have "drop (Suc v) (pos[Suc v := pos ! v]) = pos ! v # drop (Suc (Suc v)) pos"
    using Suc.prems by (simp add: Cons_nth_drop_Suc [symmetric])
  moreover have "take (Suc v) pos = take v pos @ [pos ! v]" using Suc.prems by (simp add: take_Suc_conv_app_nth)
  ultimately show ?case by simp
qed

lemma receive_selectorMtf_refines:
  assumes "rd_inv s" "selectors_shape s" "0 < g"
  shows "refines (receive_selectorMtf g n s) (parse_places g n (pending s)) (\<lambda>ms _ t.
     length ms = n \<and> (\<forall>m \<in> set ms. m < g) \<and> take (min n BZ_MAX_SELECTORS) (d_selectorMtf t) = take BZ_MAX_SELECTORS ms
     \<and> selectors_shape t \<and> same_map s t \<and> same_tables s t \<and> same_values s t)"
proof -
  let ?I = "\<lambda>i ms _ t. length ms = i \<and> (\<forall>m \<in> set ms. m < g)
     \<and> take (min i BZ_MAX_SELECTORS) (d_selectorMtf t) = take BZ_MAX_SELECTORS ms
     \<and> selectors_shape t \<and> same_map s t \<and> same_tables s t \<and> same_values s t"
  show ?thesis
    unfolding receive_selectorMtf_def parse_places_def
  proof (rule refines_for [where I = ?I])
    show "?I 0 [] () s" using assms by (simp add: same_defs)
    fix i ms x t assume i: "i < n" and I: "?I i ms x t" and t: "rd_inv t"
    show "refines (andthen (receive_unary g 0 t) (\<lambda>j s. if i < BZ_MAX_SELECTORS
         then do { m \<leftarrow> aput (d_selectorMtf s) i j; Some (Go () (s\<lparr>d_selectorMtf := m\<rparr>)) } else Some (Go () s)))
      (pbind (parse_unary g 0 (pending t)) (\<lambda>m. Found (ms @ [m]))) (?I (Suc i))"
    proof (rule refines_bind [OF receive_unary_refines [OF t assms(3)]])
      fix y z u assume u: "z = y \<and> y < g \<and> rd_frame t u" "rd_inv u"
      have fr: "rd_frame t u" using u by simp
      note same = rd_frame_same [OF fr]
      show "refines (if i < BZ_MAX_SELECTORS
         then do { m \<leftarrow> aput (d_selectorMtf u) i z; Some (Go () (u\<lparr>d_selectorMtf := m\<rparr>)) } else Some (Go () u))
         (Found (ms @ [y]) (pending u)) (?I (Suc i))"
      proof (cases "i < BZ_MAX_SELECTORS")
        case True
        then have "min i BZ_MAX_SELECTORS = i" "min (Suc i) BZ_MAX_SELECTORS = Suc i" by simp_all
        moreover have "i < length (d_selectorMtf u)" using I True same by (simp add: selectors_shape_def)
        ultimately show ?thesis
          using I u True same by (auto simp: take_Suc_conv_app_nth selectors_shape_def same_defs)
      next
        case False
        then have "min i BZ_MAX_SELECTORS = BZ_MAX_SELECTORS" "min (Suc i) BZ_MAX_SELECTORS = BZ_MAX_SELECTORS" by simp_all
        then show ?thesis
          using I u False same by (auto simp: selectors_shape_def same_defs)
      qed
    qed
  qed (use assms in simp_all)
qed

lemma unplaces_in:
  "ys \<noteq> [] \<Longrightarrow> \<forall>m \<in> set ms. m < length ys \<Longrightarrow> set (unplaces ys ms) \<subseteq> set ys"
proof (induction ys ms rule: unplaces.induct)
  case (2 ys m ms)
  then have "m < length ys" by simp
  then have "length (front m ys) = length ys" "set (front m ys) = set ys" by (auto simp: length_front set_front)
  moreover from this 2(2) have "front m ys \<noteq> []" by auto
  ultimately show ?case using 2 by auto
qed simp

lemma undo_selectorMtf_ok:
  assumes "selectors_shape s" "\<forall>m \<in> set ms. m < g" "0 < g" "take n (d_selectorMtf s) = ms" "length ms = n"
  shows "runs (undo_selectorMtf g n s) (\<lambda>t. t\<lparr>d_selector := d_selector s\<rparr> = s \<and> selectors_shape t
     \<and> take n (d_selector t) = unplaces [0..<g] ms)"
proof -
  have n: "n \<le> BZ_MAX_SELECTORS" using assms(1,4,5) by (auto simp: selectors_shape_def)
  let ?pos = "\<lambda>i. foldl (\<lambda>ys m. front m ys) [0..<g] (take i ms)"
  let ?I = "\<lambda>i (pos, t). t\<lparr>d_selector := d_selector s\<rparr> = s \<and> selectors_shape t
     \<and> pos = ?pos i \<and> length pos = g \<and> take i (d_selector t) = unplaces [0..<g] (take i ms)"
  have init: "for_in [0..<g] (\<lambda>v pos. aput pos v v) (replicate g 0) = Some [0..<g]"
    using for_in_aput [of g "replicate g 0" "\<lambda>v pos. aput pos v v" id] by simp
  have "runs (for_in [0..<n] (\<lambda>i (pos, s).
            do { v \<leftarrow> aget (d_selectorMtf s) i;
                 tmp \<leftarrow> aget pos v;
                 pos \<leftarrow> shift_up v pos;
                 pos \<leftarrow> aput pos 0 tmp;
                 sel \<leftarrow> aput (d_selector s) i tmp;
                 Some (pos, s\<lparr>d_selector := sel\<rparr>) }) ([0..<g], s)) (?I n)"
  proof (rule runs_for_upt [where I = ?I])
    fix i st assume i: "i < n" and I: "?I i st"
    obtain pos t where st: "st = (pos, t)" by fastforce
    have t: "t\<lparr>d_selector := d_selector s\<rparr> = s" "selectors_shape t" "pos = ?pos i" "length pos = g"
        "take i (d_selector t) = unplaces [0..<g] (take i ms)"
      using I st by auto
    define w where "w = t\<lparr>d_selector := d_selector s\<rparr>"
    have "d_selectorMtf w = d_selectorMtf t" by (simp add: w_def)
    then have mtf: "d_selectorMtf t = d_selectorMtf s" using t(1) by (simp add: w_def)
    have len: "i < length (d_selectorMtf s)" "i < length (d_selector t)"
      using i n t(2) assms(1) by (auto simp: selectors_shape_def)
    have m: "d_selectorMtf s ! i = ms ! i" using i by (simp add: assms(4) [symmetric])
    have mg: "ms ! i < length pos" using assms(2,5) i t(4) by simp
    have snoc: "take (Suc i) ms = take i ms @ [ms ! i]" using i assms(5) by (simp add: take_Suc_conv_app_nth)
    have shift: "shift_up (ms ! i) pos = Some (pos ! 0 # take (ms ! i) pos @ drop (Suc (ms ! i)) pos)"
      by (rule shift_up_eq [OF mg])
    have I': "?I (Suc i) (front (ms ! i) pos, t\<lparr>d_selector := (d_selector t)[i := pos ! (ms ! i)]\<rparr>)"
      using t mg len(2) by (simp add: snoc unplaces_snoc length_front selectors_shape_def take_Suc_conv_app_nth)
    have "do { v \<leftarrow> aget (d_selectorMtf t) i;
                 tmp \<leftarrow> aget pos v;
                 pos \<leftarrow> shift_up v pos;
                 pos \<leftarrow> aput pos 0 tmp;
                 sel \<leftarrow> aput (d_selector t) i tmp;
                 Some (pos, t\<lparr>d_selector := sel\<rparr>) }
        = Some (front (ms ! i) pos, t\<lparr>d_selector := (d_selector t)[i := pos ! (ms ! i)]\<rparr>)"
      using len mg by (simp add: mtf m shift front_def)
    then show "runs (case st of (pos, s) \<Rightarrow>
            do { v \<leftarrow> aget (d_selectorMtf s) i;
                 tmp \<leftarrow> aget pos v;
                 pos \<leftarrow> shift_up v pos;
                 pos \<leftarrow> aput pos 0 tmp;
                 sel \<leftarrow> aput (d_selector s) i tmp;
                 Some (pos, s\<lparr>d_selector := sel\<rparr>) }) (?I (Suc i))"
      unfolding st prod.case runs_iff_Some using I' by blast
  qed (use assms in simp_all)
  then show ?thesis
    unfolding undo_selectorMtf_def init Option.bind.bind_lunit
    using assms(5) by (auto elim!: runs_mono)
qed

lemma receive_selectors_refines:
  assumes "rd_inv s" "selectors_shape s"
  shows "refines (receive_selectors s) (parse_selectors (pending s)) (\<lambda>(g, sels) (g', n) t.
     g' = g \<and> 2 \<le> g \<and> g \<le> 6 \<and> n = length sels \<and> 0 < n \<and> n \<le> BZ_MAX_SELECTORS \<and> set sels \<subseteq> {..<g}
     \<and> take n (d_selector t) = sels
     \<and> selectors_shape t \<and> same_map s t \<and> same_tables s t \<and> same_values s t)"
  unfolding receive_selectors_def parse_selectors_def
proof (rule refines_bind [OF get_bits_refines [OF assms(1)]])
  let ?Q = "\<lambda>(g, sels) (g', n) t. g' = g \<and> 2 \<le> g \<and> g \<le> 6 \<and> n = length sels \<and> 0 < n \<and> n \<le> BZ_MAX_SELECTORS
     \<and> set sels \<subseteq> {..<g} \<and> take n (d_selector t) = sels
     \<and> selectors_shape t \<and> same_map s t \<and> same_tables s t \<and> same_values s t"
  fix g g' :: nat and t assume t: "g' = g \<and> rd_frame s t" "rd_inv t"
  have gg: "g' = g" using t by simp
  show "refines (if g' < 2 \<or> g' > BZ_N_GROUPS then Some (Stop BZ_DATA_ERROR t)
     else andthen (get_bits 15 t) (\<lambda>nSelectors s.
       if nSelectors < 1 then Some (Stop BZ_DATA_ERROR s)
       else andthen (receive_selectorMtf g' nSelectors s) (\<lambda>_ s.
         do { let nSelectors = (if nSelectors > BZ_MAX_SELECTORS then BZ_MAX_SELECTORS else nSelectors);
              s \<leftarrow> undo_selectorMtf g' nSelectors s;
              Some (Go (g', nSelectors) s) })))
     (if g < 2 \<or> g > 6 then Corrupt
     else pbind (pget 15 (pending t)) (\<lambda>n bs.
       if n < 1 then Corrupt
       else pbind (parse_places g n bs) (\<lambda>ms. Found (g, unplaces [0..<g] (take BZ_MAX_SELECTORS ms))))) ?Q"
  proof (cases "g < 2 \<or> g > 6")
    case False
    have g: "2 \<le> g" "g \<le> 6" "0 < g" using False by auto
    show ?thesis
      unfolding gg if_not_P [OF False]
    proof (rule refines_bind [OF get_bits_refines [OF t(2)]])
      fix n n' :: nat and u assume u: "n' = n \<and> rd_frame t u" "rd_inv u"
      have nn: "n' = n" using u by simp
      have fr: "rd_frame s u" using t(1) u(1) by (blast intro: rd_frame_trans)
      have shape_u: "selectors_shape u" using assms(2) by (simp add: selectors_shape_def rd_frame_same [OF fr])
      show "refines (if n' < 1 then Some (Stop BZ_DATA_ERROR u)
       else andthen (receive_selectorMtf g n' u) (\<lambda>_ s.
         do { let nSelectors = (if n' > BZ_MAX_SELECTORS then BZ_MAX_SELECTORS else n');
              s \<leftarrow> undo_selectorMtf g nSelectors s;
              Some (Go (g, nSelectors) s) }))
         (if n < 1 then Corrupt
          else pbind (parse_places g n (pending u)) (\<lambda>ms. Found (g, unplaces [0..<g] (take BZ_MAX_SELECTORS ms)))) ?Q"
      proof (cases "n < 1")
        case n: False
        show ?thesis
          unfolding nn if_not_P [OF n]
        proof (rule refines_bind [OF receive_selectorMtf_refines [OF u(2) shape_u g(3)]])
          fix ms x w assume w: "length ms = n \<and> (\<forall>m \<in> set ms. m < g)
             \<and> take (min n BZ_MAX_SELECTORS) (d_selectorMtf w) = take BZ_MAX_SELECTORS ms
             \<and> selectors_shape w \<and> same_map u w \<and> same_tables u w \<and> same_values u w" "rd_inv w"
          let ?n = "min n BZ_MAX_SELECTORS" and ?ms = "take BZ_MAX_SELECTORS ms"
          have len: "length ?ms = ?n" using w(1) by simp
          have ms: "\<forall>m \<in> set ?ms. m < g" using w(1) by (meson in_set_takeD)
          have "runs (undo_selectorMtf g ?n w) (\<lambda>t. t\<lparr>d_selector := d_selector w\<rparr> = w \<and> selectors_shape t
             \<and> take ?n (d_selector t) = unplaces [0..<g] ?ms)"
            using w(1) by (intro undo_selectorMtf_ok ms g(3) len) simp_all
          then obtain v where v: "undo_selectorMtf g ?n w = Some v" "v\<lparr>d_selector := d_selector w\<rparr> = w" "selectors_shape v"
              "take ?n (d_selector v) = unplaces [0..<g] ?ms"
            by (auto simp: runs_iff_Some)
          define z where "z = v\<lparr>d_selector := d_selector w\<rparr>"
          have "rd_inv z = rd_inv v" "pending z = pending v" "same_map z v" "same_tables z v" "same_values z v"
            by (simp_all add: z_def same_defs)
          then have same: "rd_inv v" "pending v = pending w" "same_map w v" "same_tables w v" "same_values w v"
            using v(2) w(2) by (simp_all add: z_def)
          have "set (unplaces [0..<g] ?ms) \<subseteq> {..<g}"
            using unplaces_in [of "[0..<g]" ?ms] ms g(3) by (simp add: lessThan_atLeast0)
          then have "?Q (g, unplaces [0..<g] ?ms) (g, ?n) v"
            using g v(3,4) n len same w(1) rd_frame_groups [OF fr] by (auto simp: same_defs BZ_MAX_SELECTORS_def)
          moreover have "(if n > BZ_MAX_SELECTORS then BZ_MAX_SELECTORS else n) = ?n" by simp
          ultimately show "refines (do { let nSelectors = (if n > BZ_MAX_SELECTORS then BZ_MAX_SELECTORS else n);
              s \<leftarrow> undo_selectorMtf g nSelectors w;
              Some (Go (g, nSelectors) s) }) (Found (g, unplaces [0..<g] ?ms) (pending w)) ?Q"
            using v(1) same(1) unfolding Let_def same(2) [symmetric] by (auto intro!: refines_Go)
        qed
      qed (simp add: nn)
    qed simp
  qed (simp add: gg)
qed simp

section \<open>The coding tables are received\<close>

fun parse_length :: "int \<Rightarrow> bool list \<Rightarrow> int found" where
  "parse_length cur bs =
     (if cur < 1 \<or> cur > 20 then Corrupt
      else case bs of
             [] \<Rightarrow> More_bits
           | b # bs \<Rightarrow>
               if \<not> b then Found cur bs
               else case bs of [] \<Rightarrow> More_bits | b # bs \<Rightarrow> parse_length (if b then cur - 1 else cur + 1) bs)"

declare parse_length.simps [simp del]

definition parse_table :: "nat \<Rightarrow> bool list \<Rightarrow> nat list found" where
  "parse_table a bs = pbind (pget 5 bs) (\<lambda>cur bs.
     pbind (pfor [0..<a] (\<lambda>_ (cur, ls) bs. pbind (parse_length cur bs) (\<lambda>l. Found (l, ls @ [nat l]))) (int cur, []) bs)
       (\<lambda>(_, ls). Found ls))"

definition parse_tables :: "nat \<Rightarrow> nat \<Rightarrow> bool list \<Rightarrow> nat list list found" where
  "parse_tables a g = pfor [0..<g] (\<lambda>_ ts bs. pbind (parse_table a bs) (\<lambda>L. Found (ts @ [L]))) []"

definition tables_d_shape :: "dstate \<Rightarrow> bool" where
  "tables_d_shape s \<longleftrightarrow> rect 6 258 (d_len s) \<and> rect 6 258 (d_limit s) \<and> rect 6 258 (d_base s) \<and> rect 6 258 (d_perm s)
     \<and> length (d_minLens s) = 6"

lemma pget_1: "pget 1 bs = (case bs of [] \<Rightarrow> More_bits | b # bs \<Rightarrow> Found (of_bool b) bs)"
  by (cases bs) (simp_all add: pget_def bits_val_def)

lemma parse_length_step:
  "parse_length cur bs = (if cur < 1 \<or> cur > 20 then Corrupt
     else pbind (pget 1 bs) (\<lambda>uc bs. if uc = 0 then Found cur bs
       else pbind (pget 1 bs) (\<lambda>uc. parse_length (if uc = 0 then cur + 1 else cur - 1))))"
  unfolding pget_1 by (subst parse_length.simps) (auto split: list.split)

lemma get_bit_refines_short:
  "rd_inv s \<Longrightarrow> refines (get_bit s) (pget 1 (pending s))
     (\<lambda>y x t. x = y \<and> rd_frame s t \<and> length (pending t) < length (pending s))"
  using get_bit_refines [of s] unfolding pget_1 by (cases "pending s") auto

lemma receive_length_refines:
  "rd_inv s \<Longrightarrow> refines (receive_length cur s) (parse_length cur (pending s))
     (\<lambda>y x t. x = y \<and> 1 \<le> y \<and> y \<le> 20 \<and> rd_frame s t)"
proof (induction "length (pending s)" arbitrary: cur s rule: less_induct)
  case less
  show ?case
  proof (cases "cur < 1 \<or> cur > 20")
    case False
    show ?thesis
      unfolding receive_length.simps [of cur] parse_length_step [of cur] if_not_P [OF False]
    proof (rule refines_bind [OF get_bit_refines_short [OF less(2)]])
      fix y x :: nat and t assume t: "x = y \<and> rd_frame s t \<and> length (pending t) < length (pending s)" "rd_inv t"
      show "refines (if x = 0 then Some (Go cur t) else andthen (get_bit t) (\<lambda>uc.
            receive_length (if uc = 0 then cur + 1 else cur - 1)))
          (if y = 0 then Found cur (pending t) else pbind (pget 1 (pending t)) (\<lambda>uc.
            parse_length (if uc = 0 then cur + 1 else cur - 1)))
          (\<lambda>y x t. x = y \<and> 1 \<le> y \<and> y \<le> 20 \<and> rd_frame s t)"
      proof (cases "y = 0")
        case True
        then show ?thesis using t False by simp
      next
        case y: False
        have "refines (andthen (get_bit t) (\<lambda>uc. receive_length (if uc = 0 then cur + 1 else cur - 1)))
            (pbind (pget 1 (pending t)) (\<lambda>uc. parse_length (if uc = 0 then cur + 1 else cur - 1)))
            (\<lambda>y x t. x = y \<and> 1 \<le> y \<and> y \<le> 20 \<and> rd_frame s t)"
        proof (rule refines_bind [OF get_bit_refines_short [OF t(2)]])
          fix y x :: nat and u assume u: "x = y \<and> rd_frame t u \<and> length (pending u) < length (pending t)" "rd_inv u"
          then have "refines (receive_length (if y = 0 then cur + 1 else cur - 1) u)
              (parse_length (if y = 0 then cur + 1 else cur - 1) (pending u))
              (\<lambda>y x t. x = y \<and> 1 \<le> y \<and> y \<le> 20 \<and> rd_frame u t)"
            using t(1) by (intro less(1)) auto
          moreover have fr: "rd_frame s u" and xy: "x = y" using t(1) u(1) by (auto intro: rd_frame_trans)
          ultimately show "refines (receive_length (if x = 0 then cur + 1 else cur - 1) u)
              (parse_length (if y = 0 then cur + 1 else cur - 1) (pending u))
              (\<lambda>y x t. x = y \<and> 1 \<le> y \<and> y \<le> 20 \<and> rd_frame s t)"
            unfolding xy by (elim refines_mono) (auto intro: rd_frame_trans)
        qed
        then show ?thesis using y t(1) by simp
      qed
    qed
  qed (simp add: receive_length.simps [of cur] parse_length.simps [of cur])
qed

text \<open>The code lengths of a table are in its row.\<close>

definition row_is :: "nat \<Rightarrow> nat list \<Rightarrow> nat list \<Rightarrow> bool" where
  "row_is a row L \<longleftrightarrow> length L = a \<and> take a row = L \<and> (\<forall>l \<in> set L. 1 \<le> l \<and> l \<le> 20)"

definition got_tables :: "dstate \<Rightarrow> dstate \<Rightarrow> bool" where
  "got_tables s t \<longleftrightarrow> tables_d_shape t \<and> same_map s t \<and> same_selectors s t \<and> same_values s t"

lemma got_tables_rd: "got_tables s t \<Longrightarrow> rd_frame t u \<Longrightarrow> got_tables s u"
  using rd_frame_groups [of t u] by (simp add: got_tables_def tables_d_shape_def same_defs)

lemma receive_row_lengths:
  assumes "rd_inv s" "got_tables r s" "g < 6" "a \<le> 258"
  shows "refines (for_out [0..<a] (\<lambda>i cur s. andthen (receive_length cur s) (\<lambda>cur s.
           do { l \<leftarrow> aput2 (d_len s) g i (nat cur); Some (Go cur (s\<lparr>d_len := l\<rparr>)) })) cur s)
     (pfor [0..<a] (\<lambda>_ (cur, ls) bs. pbind (parse_length cur bs) (\<lambda>l. Found (l, ls @ [nat l]))) (cur, []) (pending s))
     (\<lambda>(_, L) _ t. got_tables r t \<and> row_is a (d_len t ! g) L \<and> (\<forall>h < 6. h \<noteq> g \<longrightarrow> d_len t ! h = d_len s ! h))"
proof -
  let ?I = "\<lambda>i (y, L) x t. y = x \<and> got_tables r t \<and> row_is i (d_len t ! g) L \<and> (\<forall>h < 6. h \<noteq> g \<longrightarrow> d_len t ! h = d_len s ! h)"
  have "refines (for_out [0..<a] (\<lambda>i cur s. andthen (receive_length cur s) (\<lambda>cur s.
           do { l \<leftarrow> aput2 (d_len s) g i (nat cur); Some (Go cur (s\<lparr>d_len := l\<rparr>)) })) cur s)
     (pfor [0..<a] (\<lambda>_ (cur, ls) bs. pbind (parse_length cur bs) (\<lambda>l. Found (l, ls @ [nat l]))) (cur, []) (pending s)) (?I a)"
  proof (rule refines_for [where I = ?I])
    fix i yL and x :: int and t assume i: "i < a" and I: "?I i yL x t" and t: "rd_inv t"
    obtain L where yL: "yL = (x, L)" using I by (cases yL) auto
    show "refines (andthen (receive_length x t) (\<lambda>cur s.
           do { l \<leftarrow> aput2 (d_len s) g i (nat cur); Some (Go cur (s\<lparr>d_len := l\<rparr>)) }))
        ((case yL of (cur, ls) \<Rightarrow> \<lambda>bs. pbind (parse_length cur bs) (\<lambda>l. Found (l, ls @ [nat l]))) (pending t)) (?I (Suc i))"
      unfolding yL prod.case
    proof (rule refines_bind [OF receive_length_refines [OF t]])
      fix y x' :: int and u assume u: "x' = y \<and> 1 \<le> y \<and> y \<le> 20 \<and> rd_frame t u" "rd_inv u"
      have fr: "rd_frame t u" using u by simp
      have got: "got_tables r u" using got_tables_rd [OF _ fr] I yL by simp
      have len: "length (d_len u) = 6" "length (d_len u ! g) = 258"
        using got assms(3) by (auto simp: got_tables_def tables_d_shape_def rect_def)
      let ?l = "(d_len u)[g := (d_len u ! g)[i := nat y]]"
      have "got_tables r (u\<lparr>d_len := ?l\<rparr>)"
        using got len by (simp add: got_tables_def tables_d_shape_def same_defs)
      moreover have "row_is (Suc i) (?l ! g) (L @ [nat y])"
        using I yL u i assms(3,4) len rd_frame_same(5) [OF fr] by (auto simp: row_is_def take_Suc_conv_app_nth)
      moreover have "\<forall>h < 6. h \<noteq> g \<longrightarrow> ?l ! h = d_len s ! h"
        using I yL rd_frame_same(5) [OF fr] by simp
      ultimately show "refines (do { l \<leftarrow> aput2 (d_len u) g i (nat x'); Some (Go x' (u\<lparr>d_len := l\<rparr>)) })
          (Found (y, L @ [nat y]) (pending u)) (?I (Suc i))"
        using u len i assms(3,4) by simp
    qed
  qed (use assms in \<open>simp_all add: row_is_def\<close>)
  then show ?thesis by (rule refines_mono) auto
qed

lemma receive_tables_refines:
  assumes "rd_inv s" "tables_d_shape s" "a \<le> 258" "g \<le> 6"
  shows "refines (receive_tables a g s) (parse_tables a g (pending s))
     (\<lambda>tables _ t. got_tables s t \<and> length tables = g \<and> (\<forall>k < g. row_is a (d_len t ! k) (tables ! k)))"
proof -
  let ?I = "\<lambda>i tables _ t. got_tables s t \<and> length tables = i \<and> (\<forall>k < i. row_is a (d_len t ! k) (tables ! k))"
  show ?thesis
    unfolding receive_tables_def parse_tables_def
  proof (rule refines_for [where I = ?I])
    show "?I 0 [] () s" using assms(2) by (simp add: got_tables_def same_defs)
    fix i tables x t assume i: "i < g" and I: "?I i tables x t" and t: "rd_inv t"
    show "refines (andthen (get_bits 5 t) (\<lambda>cur s.
       andthen (for_out [0..<a] (\<lambda>j cur s. andthen (receive_length cur s) (\<lambda>cur s.
           do { l \<leftarrow> aput2 (d_len s) i j (nat cur); Some (Go cur (s\<lparr>d_len := l\<rparr>)) })) (int cur) s)
         (\<lambda>_ s. Some (Go () s)))) (pbind (parse_table a (pending t)) (\<lambda>L. Found (tables @ [L]))) (?I (Suc i))"
    proof -
      let ?Q = "\<lambda>L _ u. got_tables s u \<and> row_is a (d_len u ! i) L \<and> (\<forall>h < 6. h \<noteq> i \<longrightarrow> d_len u ! h = d_len t ! h)"
      have "refines (andthen (get_bits 5 t) (\<lambda>cur s.
       andthen (for_out [0..<a] (\<lambda>j cur s. andthen (receive_length cur s) (\<lambda>cur s.
           do { l \<leftarrow> aput2 (d_len s) i j (nat cur); Some (Go cur (s\<lparr>d_len := l\<rparr>)) })) (int cur) s)
         (\<lambda>_ s. Some (Go () s)))) (pbind (pget 5 (pending t)) (\<lambda>cur bs.
           pbind (pfor [0..<a] (\<lambda>_ (cur, ls) bs. pbind (parse_length cur bs) (\<lambda>l. Found (l, ls @ [nat l]))) (int cur, []) bs)
             (\<lambda>(_, ls). Found ls))) ?Q"
      proof (rule refines_bind [OF get_bits_refines [OF t]])
        fix y x' :: nat and u assume u: "x' = y \<and> rd_frame t u" "rd_inv u"
        have fr: "rd_frame t u" and xy: "x' = y" using u by simp_all
        have got: "got_tables s u" using got_tables_rd [OF _ fr] I by simp
        show "refines (andthen (for_out [0..<a] (\<lambda>j cur s. andthen (receive_length cur s) (\<lambda>cur s.
             do { l \<leftarrow> aput2 (d_len s) i j (nat cur); Some (Go cur (s\<lparr>d_len := l\<rparr>)) })) (int x') u)
           (\<lambda>_ s. Some (Go () s)))
          (pbind (pfor [0..<a] (\<lambda>_ (cur, ls) bs. pbind (parse_length cur bs) (\<lambda>l. Found (l, ls @ [nat l]))) (int y, []) (pending u))
             (\<lambda>(_, ls). Found ls)) ?Q"
          unfolding xy
          by (rule refines_bind [OF receive_row_lengths [OF u(2) got]])
            (use i assms(3,4) rd_frame_same(5) [OF fr] in auto)
      qed simp
      then show ?thesis
        unfolding parse_table_def
        by (rule refines_map) (use I i assms(4) in \<open>auto simp: nth_append less_Suc_eq\<close>)
    qed
  qed (use assms in simp_all)
qed

section \<open>The decoding tables\<close>

lemma lengths_ok_range:
  assumes "0 < a" "a \<le> length L" "\<forall>i < a. 1 \<le> L ! i \<and> L ! i \<le> 20"
  shows "lengths_ok L a (Min (set (take a L))) (Max (set (take a L)))"
proof -
  let ?S = "set (take a L)"
  have S: "?S \<noteq> {}" "finite ?S" using assms(1,2) by auto
  have el: "L ! i \<in> ?S" if "i < a" for i using that assms(2) by (force simp: set_conv_nth)
  have all: "1 \<le> x \<and> x \<le> 20" if "x \<in> ?S" for x using that assms(2,3) by (auto simp: set_conv_nth)
  have "1 \<le> Min ?S" "Max ?S \<le> 20" using all Min_in [OF S(2,1)] Max_in [OF S(2,1)] by blast+
  moreover have "Min ?S \<le> L ! i \<and> L ! i \<le> Max ?S" if "i < a" for i using el [OF that] S by auto
  moreover have "Min ?S \<le> Max ?S" using S by simp
  ultimately show ?thesis using assms(2) by (simp add: lengths_ok_def)
qed

text \<open>The table of a list of code lengths is built.\<close>

definition table_built :: "nat \<Rightarrow> dstate \<Rightarrow> nat \<Rightarrow> bool" where
  "table_built a s k \<longleftrightarrow> tables_ok (d_len s ! k) a (Min (set (take a (d_len s ! k)))) (Max (set (take a (d_len s ! k))))
       (d_limit s ! k) (d_base s ! k) (d_perm s ! k)
     \<and> d_minLens s ! k = Min (set (take a (d_len s ! k)))"

lemma create_tables_ok:
  assumes "tables_d_shape s" "0 < a" "a \<le> 258" "g \<le> 6" "\<forall>k < g. \<forall>i < a. 1 \<le> d_len s ! k ! i \<and> d_len s ! k ! i \<le> 20"
  shows "runs (create_tables a g s) (\<lambda>t. got_tables s t \<and> d_len t = d_len s \<and> rd_inv t = rd_inv s
     \<and> pending t = pending s \<and> (\<forall>k < g. table_built a t k))"
proof -
  let ?I = "\<lambda>i t. got_tables s t \<and> d_len t = d_len s \<and> rd_inv t = rd_inv s \<and> pending t = pending s
     \<and> (\<forall>k < i. table_built a t k)"
  show ?thesis
    unfolding create_tables_def
  proof (rule runs_for_upt [where I = ?I])
    show "?I 0 s" using assms(1) by (simp add: got_tables_def same_defs)
    fix k t assume k: "k < g" and I: "?I k t"
    let ?L = "d_len s ! k"
    have len: "length (d_len s) = 6" "length ?L = 258" "length (d_limit t) = 6" "length (d_limit t ! k) = 258"
        "length (d_base t) = 6" "length (d_base t ! k) = 258" "length (d_perm t) = 6" "length (d_perm t ! k) = 258"
        "length (d_minLens t) = 6"
      using I assms(1,4) k by (auto simp: got_tables_def tables_d_shape_def rect_def)
    have L: "\<forall>i < a. 1 \<le> ?L ! i \<and> ?L ! i \<le> 20" using assms(5) k by blast
    have ok: "lengths_ok ?L a (Min (set (take a ?L))) (Max (set (take a ?L)))"
      using L assms(2,3) len(2) by (intro lengths_ok_range) simp_all
    have mm: "min_max_len a ?L = Some (Min (set (take a ?L)), Max (set (take a ?L)))"
      using L assms(2,3) len(2) by (intro min_max_len_ok) (auto intro: le_trans)
    obtain li ba pe where tab: "BZ2_hbCreateDecodeTables (d_limit t ! k) (d_base t ! k) (d_perm t ! k) ?L
          (Min (set (take a ?L))) (Max (set (take a ?L))) a = Some (li, ba, pe)"
        "length li = 258" "length ba = 258" "length pe = 258"
        "tables_ok ?L a (Min (set (take a ?L))) (Max (set (take a ?L))) li ba pe"
      using create_decode_tables [OF ok, of "d_limit t ! k" "d_base t ! k" "d_perm t ! k"] len assms(3)
      by (auto simp: runs_iff_Some)
    let ?u = "t\<lparr>d_limit := (d_limit t)[k := li], d_base := (d_base t)[k := ba], d_perm := (d_perm t)[k := pe],
      d_minLens := (d_minLens t)[k := Min (set (take a ?L))]\<rparr>"
    have "got_tables s ?u" using I tab(2-4) len by (auto simp: got_tables_def tables_d_shape_def same_defs)
    moreover have "\<forall>j < Suc k. table_built a ?u j"
      using I tab(5) len k assms(4) by (auto simp: table_built_def less_Suc_eq nth_list_update)
    ultimately have "?I (Suc k) ?u" using I by (simp add: rd_inv_def pending_def)
    then show "runs (do { l \<leftarrow> aget (d_len t) k;
            (minLen, maxLen) \<leftarrow> min_max_len a l;
            li \<leftarrow> aget (d_limit t) k;
            ba \<leftarrow> aget (d_base t) k;
            pe \<leftarrow> aget (d_perm t) k;
            (li, ba, pe) \<leftarrow> BZ2_hbCreateDecodeTables li ba pe l minLen maxLen a;
            lis \<leftarrow> aput (d_limit t) k li;
            bas \<leftarrow> aput (d_base t) k ba;
            pes \<leftarrow> aput (d_perm t) k pe;
            mi \<leftarrow> aput (d_minLens t) k minLen;
            Some (t\<lparr>d_limit := lis, d_base := bas, d_perm := pes, d_minLens := mi\<rparr>) }) (?I (Suc k))"
      using I len k assms(4) mm tab(1) by simp
  qed simp
qed

end
