(* ===== verification/BzUnmtf.thy ===== *)
theory BzUnmtf
  imports BzReceive
begin

text \<open>
  The move-to-front list of the decompressor (\<open>benchmarks/wasi/bzip2/decompress.c\<close>): 256
  bytes in sixteen rows of sixteen, which lie with gaps between them in an array of 4096
  cells. To move a byte to the front, its row is shifted, and every row before it passes its
  last byte on to the next and grows by one cell to the left. When the first row has reached
  the beginning of the array, the rows are laid out anew at the end of it.
\<close>

abbreviation MTFA_SIZE :: nat where "MTFA_SIZE \<equiv> 4096"
abbreviation MTFL_SIZE :: nat where "MTFL_SIZE \<equiv> 16"

section \<open>The code\<close>

text \<open>Array accesses with an index of type \<open>Int32\<close>.\<close>

definition iget :: "'a list \<Rightarrow> int \<Rightarrow> 'a option" where
  "iget xs i = (if 0 \<le> i then aget xs (nat i) else None)"

definition iput :: "'a list \<Rightarrow> int \<Rightarrow> 'a \<Rightarrow> 'a list option" where
  "iput xs i v = (if 0 \<le> i then aput xs (nat i) v else None)"

text \<open>[bzip2/decompress.c 364-376 BZ2_decompress] The result is \<open>mtfa\<close>, \<open>mtfbase\<close> and \<open>kk\<close>.\<close>

definition mtf_init :: "u8 list \<Rightarrow> int list \<Rightarrow> (u8 list \<times> int list) option" where
  "mtf_init mtfa mtfbase =
     do { (mtfa, mtfbase, kk) \<leftarrow> for_in (rev [0..<256 div MTFL_SIZE]) (\<lambda>ii (mtfa, mtfbase, kk).
            do { (mtfa, kk) \<leftarrow> for_in (rev [0..<MTFL_SIZE]) (\<lambda>jj (mtfa, kk).
                   do { mtfa \<leftarrow> iput mtfa kk (of_nat (ii * MTFL_SIZE + jj));
                        Some (mtfa, kk - 1) }) (mtfa, kk);
                 mtfbase \<leftarrow> aput mtfbase ii (kk + 1);
                 Some (mtfa, mtfbase, kk) }) (mtfa, mtfbase, int MTFA_SIZE - 1);
          Some (mtfa, mtfbase) }"

text \<open>[bzip2/decompress.c 447-449 BZ2_decompress]\<close>

fun shift_cells :: "int \<Rightarrow> nat \<Rightarrow> u8 list \<Rightarrow> u8 list option" where
  "shift_cells pp 0 mtfa = Some mtfa"
| "shift_cells pp (Suc nn) mtfa =
     do { x \<leftarrow> iget mtfa (pp + int (Suc nn) - 1);
          mtfa \<leftarrow> iput mtfa (pp + int (Suc nn)) x;
          shift_cells pp nn mtfa }"

text \<open>[bzip2/decompress.c 439-449 BZ2_decompress] Four cells at a time, then one at a time.\<close>

function shift_fast :: "int \<Rightarrow> nat \<Rightarrow> u8 list \<Rightarrow> u8 list option" where
  "shift_fast pp nn mtfa =
     (if nn > 3
      then do { let z = pp + int nn;
                x \<leftarrow> iget mtfa (z - 1); mtfa \<leftarrow> iput mtfa z x;
                x \<leftarrow> iget mtfa (z - 2); mtfa \<leftarrow> iput mtfa (z - 1) x;
                x \<leftarrow> iget mtfa (z - 3); mtfa \<leftarrow> iput mtfa (z - 2) x;
                x \<leftarrow> iget mtfa (z - 4); mtfa \<leftarrow> iput mtfa (z - 3) x;
                shift_fast pp (nn - 4) mtfa }
      else shift_cells pp nn mtfa)"
  by pat_completeness auto
termination
  by (relation "measure (\<lambda>(_, nn, _). nn)") auto

declare shift_fast.simps [simp del]

text \<open>[bzip2/decompress.c 436-450 BZ2_decompress] A byte of the first row.\<close>

definition move_near :: "nat \<Rightarrow> u8 list \<Rightarrow> int list \<Rightarrow> (u8 \<times> u8 list) option" where
  "move_near nn mtfa mtfbase =
     do { pp \<leftarrow> aget mtfbase 0;
          uc \<leftarrow> iget mtfa (pp + int nn);
          mtfa \<leftarrow> shift_fast pp nn mtfa;
          mtfa \<leftarrow> iput mtfa pp uc;
          Some (uc, mtfa) }"

text \<open>[bzip2/decompress.c 457-459 BZ2_decompress]\<close>

function shift_row :: "int \<Rightarrow> int \<Rightarrow> u8 list \<Rightarrow> u8 list option" where
  "shift_row b pp mtfa =
     (if pp > b
      then do { x \<leftarrow> iget mtfa (pp - 1); mtfa \<leftarrow> iput mtfa pp x; shift_row b (pp - 1) mtfa }
      else Some mtfa)"
  by pat_completeness auto
termination
  by (relation "measure (\<lambda>(b, pp, _). nat (pp - b))") auto

declare shift_row.simps [simp del]

text \<open>[bzip2/decompress.c 461-466 BZ2_decompress] Every row gets the last byte of the one before.\<close>

fun pass_on :: "nat \<Rightarrow> u8 list \<Rightarrow> int list \<Rightarrow> (u8 list \<times> int list) option" where
  "pass_on 0 mtfa mtfbase = Some (mtfa, mtfbase)"
| "pass_on (Suc l) mtfa mtfbase =
     do { b \<leftarrow> aget mtfbase (Suc l);
          mtfbase \<leftarrow> aput mtfbase (Suc l) (b - 1);
          b' \<leftarrow> aget mtfbase l;
          x \<leftarrow> iget mtfa (b' + int MTFL_SIZE - 1);
          mtfa \<leftarrow> iput mtfa (b - 1) x;
          pass_on l mtfa mtfbase }"

text \<open>[bzip2/decompress.c 470-477 BZ2_decompress]\<close>

definition lay_out :: "u8 list \<Rightarrow> int list \<Rightarrow> (u8 list \<times> int list) option" where
  "lay_out mtfa mtfbase =
     do { (mtfa, mtfbase, kk) \<leftarrow> for_in (rev [0..<256 div MTFL_SIZE]) (\<lambda>ii (mtfa, mtfbase, kk).
            do { (mtfa, kk) \<leftarrow> for_in (rev [0..<MTFL_SIZE]) (\<lambda>jj (mtfa, kk).
                   do { b \<leftarrow> aget mtfbase ii;
                        x \<leftarrow> iget mtfa (b + int jj);
                        mtfa \<leftarrow> iput mtfa kk x;
                        Some (mtfa, kk - 1) }) (mtfa, kk);
                 mtfbase \<leftarrow> aput mtfbase ii (kk + 1);
                 Some (mtfa, mtfbase, kk) }) (mtfa, mtfbase, int MTFA_SIZE - 1);
          Some (mtfa, mtfbase) }"

text \<open>[bzip2/decompress.c 452-478 BZ2_decompress] A byte of another row.\<close>

definition move_far :: "nat \<Rightarrow> u8 list \<Rightarrow> int list \<Rightarrow> (u8 \<times> u8 list \<times> int list) option" where
  "move_far nn mtfa mtfbase =
     do { let lno = nn div MTFL_SIZE;
          let off = nn mod MTFL_SIZE;
          b \<leftarrow> aget mtfbase lno;
          let pp = b + int off;
          uc \<leftarrow> iget mtfa pp;
          mtfa \<leftarrow> shift_row b pp mtfa;
          mtfbase \<leftarrow> aput mtfbase lno (b + 1);
          (mtfa, mtfbase) \<leftarrow> pass_on lno mtfa mtfbase;
          b \<leftarrow> aget mtfbase 0;
          mtfbase \<leftarrow> aput mtfbase 0 (b - 1);
          mtfa \<leftarrow> iput mtfa (b - 1) uc;
          (mtfa, mtfbase) \<leftarrow> (if b - 1 = 0 then lay_out mtfa mtfbase else Some (mtfa, mtfbase));
          Some (uc, mtfa, mtfbase) }"

text \<open>[bzip2/decompress.c 435-479 BZ2_decompress] The byte at place \<open>nn\<close> moves to the front.\<close>

definition unmtf :: "nat \<Rightarrow> u8 list \<Rightarrow> int list \<Rightarrow> (u8 \<times> u8 list \<times> int list) option" where
  "unmtf nn mtfa mtfbase =
     (if nn < MTFL_SIZE
      then do { (uc, mtfa) \<leftarrow> move_near nn mtfa mtfbase; Some (uc, mtfa, mtfbase) }
      else move_far nn mtfa mtfbase)"

section \<open>The list\<close>

text \<open>The list that the arrays stand for, and the rows in their places.\<close>

definition mtf_list :: "u8 list \<Rightarrow> int list \<Rightarrow> u8 list" where
  "mtf_list mtfa mtfbase = map (\<lambda>n. mtfa ! nat (mtfbase ! (n div 16) + int (n mod 16))) [0..<256]"

definition rows_ok :: "u8 list \<Rightarrow> int list \<Rightarrow> bool" where
  "rows_ok mtfa mtfbase \<longleftrightarrow> length mtfa = 4096 \<and> length mtfbase = 16 \<and> 1 \<le> mtfbase ! 0 \<and> mtfbase ! 15 \<le> 4080
     \<and> (\<forall>i < 15. mtfbase ! i + 16 \<le> mtfbase ! Suc i)"

lemma iget_Some [simp]: "0 \<le> i \<Longrightarrow> i < int (length xs) \<Longrightarrow> iget xs i = Some (xs ! nat i)"
  by (simp add: iget_def)

lemma iput_Some [simp]: "0 \<le> i \<Longrightarrow> i < int (length xs) \<Longrightarrow> iput xs i v = Some (xs[nat i := v])"
  by (simp add: iput_def)

lemma shift_cells_eq:
  "0 \<le> pp \<Longrightarrow> pp + int nn < int (length xs) \<Longrightarrow>
     \<exists>ys. shift_cells pp nn xs = Some ys \<and> length ys = length xs
       \<and> (\<forall>k < length xs. ys ! k = (if nat pp < k \<and> k \<le> nat pp + nn then xs ! (k - 1) else xs ! k))"
proof (induction nn arbitrary: xs)
  case (Suc nn)
  let ?z = "pp + int (Suc nn)"
  let ?xs = "xs[nat ?z := xs ! nat (?z - 1)]"
  have z: "nat ?z = nat pp + Suc nn" "nat (?z - 1) = nat pp + nn" "nat pp + Suc nn < length xs" using Suc.prems by auto
  obtain ys where ys: "shift_cells pp nn ?xs = Some ys" "length ys = length ?xs"
      "\<forall>k < length ?xs. ys ! k = (if nat pp < k \<and> k \<le> nat pp + nn then ?xs ! (k - 1) else ?xs ! k)"
    using Suc.IH [of ?xs] Suc.prems by auto
  have "shift_cells pp (Suc nn) xs = Some ys" using Suc.prems ys(1) by simp
  moreover have "ys ! k = (if nat pp < k \<and> k \<le> nat pp + Suc nn then xs ! (k - 1) else xs ! k)" if "k < length xs" for k
    using ys(3) that z by (auto simp: nth_list_update)
  ultimately show ?case using ys(2) by auto
qed auto

lemma shift_cells_Suc: "shift_cells pp (Suc nn) = (\<lambda>mtfa.
     do { x \<leftarrow> iget mtfa (pp + int (Suc nn) - 1);
          mtfa \<leftarrow> iput mtfa (pp + int (Suc nn)) x;
          shift_cells pp nn mtfa })"
  by (rule ext) simp

lemma shift_fast_eq: "shift_fast pp nn xs = shift_cells pp nn xs"
proof (induction nn arbitrary: xs rule: less_induct)
  case (less nn)
  show ?case
  proof (cases "nn > 3")
    case False
    then show ?thesis by (subst shift_fast.simps) simp
  next
    case True
    define m where "m = nn - 4"
    have m: "nn = Suc (Suc (Suc (Suc m)))" using True by (simp add: m_def)
    have IH: "shift_fast pp m = shift_cells pp m" by (rule ext, rule less) (simp add: m)
    have z: "pp + int nn - 1 = pp + int (Suc (Suc (Suc m)))" "pp + int nn - 2 = pp + int (Suc (Suc m))"
      "pp + int nn - 3 = pp + int (Suc m)" "pp + int nn - 4 = pp + int (Suc m) - 1" by (simp_all add: m)
    have "shift_cells pp nn xs = do {
                x \<leftarrow> iget xs (pp + int nn - 1); mtfa \<leftarrow> iput xs (pp + int nn) x;
                x \<leftarrow> iget mtfa (pp + int nn - 2); mtfa \<leftarrow> iput mtfa (pp + int nn - 1) x;
                x \<leftarrow> iget mtfa (pp + int nn - 3); mtfa \<leftarrow> iput mtfa (pp + int nn - 2) x;
                x \<leftarrow> iget mtfa (pp + int nn - 4); mtfa \<leftarrow> iput mtfa (pp + int nn - 3) x;
                shift_cells pp m mtfa }"
      unfolding z by (simp add: m shift_cells_Suc algebra_simps)
    then show ?thesis using True IH by (subst shift_fast.simps) (simp add: Let_def m_def)
  qed
qed

lemma runs_for_rev:
  assumes "I n s" "\<And>i s. i < n \<Longrightarrow> I (Suc i) s \<Longrightarrow> runs (body i s) (I i)"
  shows "runs (for_in (rev [0..<n]) body s) (I 0)"
  using assms
proof (induction n arbitrary: s)
  case (Suc n)
  have "runs (body n s) (I n)" using Suc.prems by simp
  moreover have "runs (for_in (rev [0..<n]) body t) (I 0)" if "I n t" for t using that Suc by simp
  ultimately show ?case by (auto elim: runs_mono)
qed simp

text \<open>The cell of a place; \<open>spaced\<close>: the rows do not overlap and fit in the array.\<close>

definition cell :: "int list \<Rightarrow> nat \<Rightarrow> nat" where
  "cell mtfbase n = nat (mtfbase ! (n div 16) + int (n mod 16))"

definition spaced :: "int list \<Rightarrow> bool" where
  "spaced mtfbase \<longleftrightarrow> length mtfbase = 16 \<and> 0 \<le> mtfbase ! 0 \<and> mtfbase ! 15 \<le> 4080
     \<and> (\<forall>i < 15. mtfbase ! i + 16 \<le> mtfbase ! Suc i)"

lemma spaced_le: "spaced b \<Longrightarrow> i \<le> j \<Longrightarrow> j < 16 \<Longrightarrow> b ! i + 16 * int (j - i) \<le> b ! j"
proof (induction j)
  case (Suc j)
  show ?case
  proof (cases "i = Suc j")
    case False
    then have "b ! i + 16 * int (j - i) \<le> b ! j" "b ! j + 16 \<le> b ! Suc j"
      using Suc by (auto simp: spaced_def)
    then show ?thesis using False Suc.prems by (simp add: Suc_diff_le)
  qed simp
qed simp

lemma spaced_range: "spaced b \<Longrightarrow> i < 16 \<Longrightarrow> 16 * int i \<le> b ! i \<and> b ! i \<le> 3840 + 16 * int i"
  using spaced_le [of b 0 i] spaced_le [of b i 15] by (auto simp: spaced_def)

lemma cell_less: "spaced b \<Longrightarrow> n < m \<Longrightarrow> m < 256 \<Longrightarrow> cell b n < cell b m"
proof -
  assume b: "spaced b" "n < m" "m < 256"
  let ?i = "n div 16" and ?j = "m div 16"
  have ij: "?i \<le> ?j" "?j < 16" using b by (auto intro: div_le_mono)
  have m: "0 \<le> b ! ?i" "0 \<le> b ! ?j"
    using spaced_range [OF b(1), of ?i] spaced_range [OF b(1), of ?j] ij by linarith+
  show ?thesis
  proof (cases "?i = ?j")
    case True
    have "n = 16 * ?i + n mod 16" "m = 16 * ?j + m mod 16" by simp_all
    then have "n mod 16 < m mod 16" using True b(2) by linarith
    then show ?thesis using True m by (simp add: cell_def)
  next
    case False
    then have "b ! ?i + 16 \<le> b ! ?j" using spaced_le [OF b(1) ij] ij by auto
    moreover have "n mod 16 < 16" by simp
    ultimately show ?thesis using m by (simp add: cell_def nat_less_iff)
  qed
qed

lemma cell_le: "spaced b \<Longrightarrow> n < 256 \<Longrightarrow> cell b n \<le> 3840 + n"
proof -
  assume b: "spaced b" "n < 256"
  then have "b ! (n div 16) \<le> 3840 + 16 * int (n div 16)" using spaced_range [of b "n div 16"] by simp
  then have "b ! (n div 16) + int (n mod 16) \<le> 3840 + int (16 * (n div 16) + n mod 16)" by linarith
  then show ?thesis by (simp add: cell_def)
qed

lemma cell_bound: "spaced b \<Longrightarrow> n < 256 \<Longrightarrow> cell b n < 4096"
  using cell_le [of b n] by simp

lemma mtf_list_cell: "mtf_list a b = map (\<lambda>n. a ! cell b n) [0..<256]"
  by (simp add: mtf_list_def cell_def)

lemma length_mtf_list [simp]: "length (mtf_list a b) = 256"
  by (simp add: mtf_list_def)

lemma nth_front: "k < length ys \<Longrightarrow> n < length ys \<Longrightarrow>
   front k ys ! n = (if n = 0 then ys ! k else if n \<le> k then ys ! (n - 1) else ys ! n)"
  by (cases n) (auto simp: front_def nth_append)

lemma mtf_list_front:
  assumes "nn < 256" "\<And>n. n < 256 \<Longrightarrow> a' ! cell b' n
     = a ! cell b (if n = 0 then nn else if n \<le> nn then n - 1 else n)"
  shows "mtf_list a' b' = front nn (mtf_list a b)"
  using assms length_front [of nn "mtf_list a b"]
  by (intro nth_equalityI) (auto simp: nth_front mtf_list_cell)

lemma rows_ok_spaced: "rows_ok a b \<Longrightarrow> spaced b \<and> length a = 4096 \<and> 1 \<le> b ! 0"
  by (simp add: rows_ok_def spaced_def)

lemma move_near_ok:
  assumes "rows_ok mtfa mtfbase" "nn < 16"
  shows "runs (move_near nn mtfa mtfbase) (\<lambda>(uc, a). uc = mtf_list mtfa mtfbase ! nn \<and> rows_ok a mtfbase
     \<and> mtf_list a mtfbase = front nn (mtf_list mtfa mtfbase))"
proof -
  have b: "spaced mtfbase" "length mtfa = 4096" "1 \<le> mtfbase ! 0" using rows_ok_spaced [OF assms(1)] by auto
  define p where "p = nat (mtfbase ! 0)"
  have p: "mtfbase ! 0 = int p" using b(3) by (simp add: p_def)
  have row0: "cell mtfbase n = p + n" if "n < 16" for n using that by (simp add: cell_def p)
  have pn: "p + nn < 4096" using cell_bound [OF b(1), of nn] row0 assms(2) by simp
  obtain ys where ys: "shift_cells (int p) nn mtfa = Some ys" "length ys = length mtfa"
      "\<forall>k < length mtfa. ys ! k = (if p < k \<and> k \<le> p + nn then mtfa ! (k - 1) else mtfa ! k)"
    using shift_cells_eq [of "int p" nn mtfa] pn b(2) by auto
  let ?a = "ys[p := mtfa ! (p + nn)]"
  have run: "move_near nn mtfa mtfbase = Some (mtfa ! (p + nn), ?a)"
    using b(2) ys(1,2) pn assms(1)
    by (simp add: move_near_def p shift_fast_eq rows_ok_def nat_add_distrib)
  have "mtf_list ?a mtfbase = front nn (mtf_list mtfa mtfbase)"
  proof (rule mtf_list_front)
    fix n :: nat assume n: "n < 256"
    show "?a ! cell mtfbase n = mtfa ! cell mtfbase (if n = 0 then nn else if n \<le> nn then n - 1 else n)"
    proof (cases "n < 16")
      case True
      then have "p + n < 4096" using cell_bound [OF b(1) n] row0 by simp
      then show ?thesis using True ys(2,3) b(2) row0 assms(2) by auto
    next
      case False
      then have "cell mtfbase 15 < cell mtfbase n" using n by (intro cell_less [OF b(1)]) auto
      then have "p + 15 < cell mtfbase n" by (simp add: row0)
      then show ?thesis using False ys(2,3) b(2) cell_bound [OF b(1) n] assms(2) by auto
    qed
  qed (use assms(2) in simp)
  moreover have "mtfa ! (p + nn) = mtf_list mtfa mtfbase ! nn" using assms(2) row0 by (simp add: mtf_list_cell)
  moreover have "rows_ok ?a mtfbase" using assms(1) ys(2) by (simp add: rows_ok_def)
  ultimately show ?thesis by (simp add: run)
qed

lemma shift_row_eq:
  "0 \<le> b \<Longrightarrow> b + int k < int (length xs) \<Longrightarrow> shift_row b (b + int k) xs = shift_cells b k xs"
proof (induction k arbitrary: xs)
  case (Suc k)
  have "b + int (Suc k) - 1 = b + int k" by simp
  then show ?case using Suc by (subst shift_row.simps) simp
qed (subst shift_row.simps, simp)

lemma pass_on_ok:
  assumes "l < length bs" "0 \<le> bs ! 0" "\<And>i j. i < j \<Longrightarrow> j \<le> l \<Longrightarrow> bs ! i + 16 \<le> bs ! j" "bs ! l \<le> int (length xs)"
  shows "\<exists>ys bs'. pass_on l xs bs = Some (ys, bs') \<and> length ys = length xs \<and> length bs' = length bs
     \<and> (\<forall>i < length bs. bs' ! i = (if 1 \<le> i \<and> i \<le> l then bs ! i - 1 else bs ! i))
     \<and> (\<forall>i. 1 \<le> i \<and> i \<le> l \<longrightarrow> ys ! nat (bs ! i - 1) = xs ! nat (bs ! (i - 1) + 15))
     \<and> (\<forall>k. (\<forall>i. 1 \<le> i \<and> i \<le> l \<longrightarrow> k \<noteq> nat (bs ! i - 1)) \<longrightarrow> ys ! k = xs ! k)"
  using assms
proof (induction l arbitrary: xs bs)
  case (Suc l)
  let ?xs = "xs[nat (bs ! Suc l - 1) := xs ! nat (bs ! l + 15)]" and ?bs = "bs[Suc l := bs ! Suc l - 1]"
  have pos: "0 \<le> bs ! i" if "i \<le> Suc l" for i using Suc.prems(2) Suc.prems(3) [of 0 i] that by (cases i) auto
  have gap: "bs ! l + 16 \<le> bs ! Suc l" using Suc.prems(3) [of l "Suc l"] by simp
  have "bs ! l \<le> int (length ?xs)" using gap Suc.prems(4) by simp
  then obtain ys bs' where ys: "pass_on l ?xs ?bs = Some (ys, bs')" "length ys = length ?xs" "length bs' = length ?bs"
      "\<forall>i < length ?bs. bs' ! i = (if 1 \<le> i \<and> i \<le> l then ?bs ! i - 1 else ?bs ! i)"
      "\<forall>i. 1 \<le> i \<and> i \<le> l \<longrightarrow> ys ! nat (?bs ! i - 1) = ?xs ! nat (?bs ! (i - 1) + 15)"
      "\<forall>k. (\<forall>i. 1 \<le> i \<and> i \<le> l \<longrightarrow> k \<noteq> nat (?bs ! i - 1)) \<longrightarrow> ys ! k = ?xs ! k"
    using Suc.IH [of ?bs ?xs] Suc.prems(1-3) by auto
  have "15 + bs ! l < int (length xs)" "0 \<le> 15 + bs ! l" "0 \<le> bs ! Suc l - 1" "bs ! Suc l - 1 < int (length xs)"
    using gap pos [of l] Suc.prems(4) by linarith+
  then have "pass_on (Suc l) xs bs = Some (ys, bs')"
    using Suc.prems(1) ys(1) by (simp add: add.commute)
  moreover have "bs' ! i = (if 1 \<le> i \<and> i \<le> Suc l then bs ! i - 1 else bs ! i)" if "i < length bs" for i
    using ys(4) Suc.prems(1) that by (cases "i = Suc l") auto
  moreover have "ys ! nat (bs ! i - 1) = xs ! nat (bs ! (i - 1) + 15)" if i: "1 \<le> i" "i \<le> Suc l" for i
  proof (cases "i = Suc l")
    case True
    have "nat (bs ! Suc l - 1) \<noteq> nat (?bs ! j - 1)" if "1 \<le> j \<and> j \<le> l" for j
      using Suc.prems(3) [of j "Suc l"] pos [of j] that by simp
    then have "ys ! nat (bs ! Suc l - 1) = ?xs ! nat (bs ! Suc l - 1)" using ys(6) by blast
    then show ?thesis using True Suc.prems(4) gap pos [of l] by simp
  next
    case False
    then have "bs ! i + 16 \<le> bs ! Suc l" "bs ! (i - 1) + 16 \<le> bs ! i" "0 \<le> bs ! (i - 1)"
      using Suc.prems(3) [of i "Suc l"] Suc.prems(3) [of "i - 1" i] pos [of "i - 1"] i by simp_all
    then have "nat (bs ! Suc l - 1) \<noteq> nat (bs ! (i - 1) + 15)" by simp
    moreover have "?bs ! i = bs ! i" "?bs ! (i - 1) = bs ! (i - 1)" "1 \<le> i \<and> i \<le> l" using False i by auto
    ultimately show ?thesis using ys(5) by (metis nth_list_update_neq)
  qed
  moreover have "ys ! k = xs ! k" if k: "\<forall>i. 1 \<le> i \<and> i \<le> Suc l \<longrightarrow> k \<noteq> nat (bs ! i - 1)" for k
  proof -
    have "\<forall>i. 1 \<le> i \<and> i \<le> l \<longrightarrow> k \<noteq> nat (?bs ! i - 1)" using k by simp
    then have "ys ! k = ?xs ! k" using ys(6) by blast
    moreover have "k \<noteq> nat (bs ! Suc l - 1)" using k by auto
    ultimately show ?thesis by simp
  qed
  ultimately show ?case using ys(2,3) by auto
qed auto

text \<open>The rows at the end of the array.\<close>

lemma cell_last: "\<forall>k < 16. y ! k = 3840 + 16 * int k \<Longrightarrow> n < 256 \<Longrightarrow> cell y n = 3840 + n"
proof -
  assume "\<forall>k < 16. y ! k = 3840 + 16 * int k" "n < 256"
  then have "y ! (n div 16) = 3840 + 16 * int (n div 16)" by auto
  moreover have "n = 16 * (n div 16) + n mod 16" by simp
  ultimately have "y ! (n div 16) + int (n mod 16) = int (3840 + n)" by linarith
  then show ?thesis by (simp add: cell_def del: of_nat_add)
qed

text \<open>The rows are laid out anew: no byte is overwritten before it is read.\<close>

lemma lay_out_ok:
  assumes b: "spaced b" and a: "length a = 4096"
  shows "runs (lay_out a b) (\<lambda>(a', b'). rows_ok a' b' \<and> mtf_list a' b' = mtf_list a b)"
proof -
  let ?A = "\<lambda>m x kk. length x = 4096 \<and> kk = 3840 + int m - 1
     \<and> (\<forall>n < 256. if m \<le> n then x ! (3840 + n) = a ! cell b n else x ! cell b n = a ! cell b n)"
  let ?B = "\<lambda>i y. length y = 16 \<and> (\<forall>k < 16. y ! k = (if k < i then b ! k else 3840 + 16 * int k))"
  let ?I = "\<lambda>i (x, y, kk). ?A (16 * i) x kk \<and> ?B i y"
  have step: "?A m (x[3840 + m := a ! cell b m]) (kk - 1)" if m: "m < 256" and x: "?A (Suc m) x kk" for m x and kk :: int
  proof -
    have "x[3840 + m := a ! cell b m] ! cell b n = a ! cell b n" if n: "n < m" for n
      using cell_less [OF b n m] cell_le [OF b m] x n m by auto
    then show ?thesis using x m by (auto simp: nth_list_update)
  qed
  have "runs (for_in (rev [0..<16]) (\<lambda>ii (mtfa, mtfbase, kk).
            do { (mtfa, kk) \<leftarrow> for_in (rev [0..<MTFL_SIZE]) (\<lambda>jj (mtfa, kk).
                   do { b \<leftarrow> aget mtfbase ii;
                        x \<leftarrow> iget mtfa (b + int jj);
                        mtfa \<leftarrow> iput mtfa kk x;
                        Some (mtfa, kk - 1) }) (mtfa, kk);
                 mtfbase \<leftarrow> aput mtfbase ii (kk + 1);
                 Some (mtfa, mtfbase, kk) }) (a, b, int MTFA_SIZE - 1)) (?I 0)"
  proof (rule runs_for_rev [where I = ?I])
    show "?I 16 (a, b, int MTFA_SIZE - 1)" using a b by (simp add: spaced_def)
    fix i st assume i: "i < (16 :: nat)" and I: "?I (Suc i) st"
    obtain x y kk where st: "st = (x, y, kk)" by (cases st) auto
    have y: "?B (Suc i) y" "y ! i = b ! i" using I i by (auto simp: st)
    have "runs (for_in (rev [0..<MTFL_SIZE]) (\<lambda>jj (mtfa, kk).
                   do { b \<leftarrow> aget y i;
                        x \<leftarrow> iget mtfa (b + int jj);
                        mtfa \<leftarrow> iput mtfa kk x;
                        Some (mtfa, kk - 1) }) (x, kk)) (\<lambda>(x, kk). ?A (16 * i + 0) x kk)"
    proof (rule runs_for_rev [where I = "\<lambda>j (x, kk). ?A (16 * i + j) x kk"])
      have "16 * i + 16 = 16 * Suc i" by simp
      then show "case (x, kk) of (x, kk) \<Rightarrow> ?A (16 * i + MTFL_SIZE) x kk" using I unfolding st prod.case by metis
      fix j xk assume j: "j < MTFL_SIZE" and J: "case xk of (x, kk) \<Rightarrow> ?A (16 * i + Suc j) x kk"
      obtain x kk where xk: "xk = (x, kk)" by (cases xk) auto
      let ?m = "16 * i + j"
      have m: "?m < 256" "?m div 16 = i" "j mod 16 = j" using i j by auto
      have c: "b ! i + int j = int (cell b ?m)" "cell b ?m < 4096"
        using spaced_range [OF b i] cell_bound [OF b m(1)] by (simp_all add: cell_def m del: mod_mult_self3)
      have x: "?A (Suc ?m) x kk" using J by (simp add: xk)
      then have "x ! cell b ?m = a ! cell b ?m" "kk = int (3840 + ?m)" "length x = 4096" using m(1) by simp_all
      then have "do { b \<leftarrow> aget y i; x' \<leftarrow> iget x (b + int j); x' \<leftarrow> iput x kk x'; Some (x', kk - 1) }
          = Some (x[3840 + ?m := a ! cell b ?m], kk - 1)"
        using y i m(1) c by (simp del: of_nat_add add: nat_int)
      then show "runs (case xk of (mtfa, kk) \<Rightarrow> do { b \<leftarrow> aget y i; x \<leftarrow> iget mtfa (b + int j); mtfa \<leftarrow> iput mtfa kk x;
                        Some (mtfa, kk - 1) }) (\<lambda>(x, kk). ?A ?m x kk)"
        unfolding xk prod.case runs_iff_Some using step [OF m(1) x] by blast
    qed
    then obtain x' kk' where x': "for_in (rev [0..<MTFL_SIZE]) (\<lambda>jj (mtfa, kk).
                   do { b \<leftarrow> aget y i;
                        x \<leftarrow> iget mtfa (b + int jj);
                        mtfa \<leftarrow> iput mtfa kk x;
                        Some (mtfa, kk - 1) }) (x, kk) = Some (x', kk')" "?A (16 * i) x' kk'"
      by (auto simp: runs_iff_Some)
    have "?B i (y[i := kk' + 1])" using y(1) x'(2) i by (auto simp: nth_list_update)
    then show "runs (case st of (mtfa, mtfbase, kk) \<Rightarrow> do { (mtfa, kk) \<leftarrow> for_in (rev [0..<MTFL_SIZE]) (\<lambda>jj (mtfa, kk).
                   do { b \<leftarrow> aget mtfbase i;
                        x \<leftarrow> iget mtfa (b + int jj);
                        mtfa \<leftarrow> iput mtfa kk x;
                        Some (mtfa, kk - 1) }) (mtfa, kk);
                 mtfbase \<leftarrow> aput mtfbase i (kk + 1);
                 Some (mtfa, mtfbase, kk) }) (?I i)"
      using x' y(1) i by (simp add: st)
  qed
  then obtain x y kk where run: "for_in (rev [0..<16]) (\<lambda>ii (mtfa, mtfbase, kk).
            do { (mtfa, kk) \<leftarrow> for_in (rev [0..<MTFL_SIZE]) (\<lambda>jj (mtfa, kk).
                   do { b \<leftarrow> aget mtfbase ii;
                        x \<leftarrow> iget mtfa (b + int jj);
                        mtfa \<leftarrow> iput mtfa kk x;
                        Some (mtfa, kk - 1) }) (mtfa, kk);
                 mtfbase \<leftarrow> aput mtfbase ii (kk + 1);
                 Some (mtfa, mtfbase, kk) }) (a, b, int MTFA_SIZE - 1) = Some (x, y, kk)" "?A 0 x kk" "?B 0 y"
    by (auto simp: runs_iff_Some)
  have "cell y n = 3840 + n" if "n < 256" for n using run(3) that by (intro cell_last) auto
  then have "mtf_list x y = mtf_list a b" using run(2) by (simp add: mtf_list_cell)
  moreover have "rows_ok x y" using run(2,3) by (simp add: rows_ok_def)
  ultimately show ?thesis using run(1) by (simp add: lay_out_def)
qed

text \<open>
  The move without the final layout: the byte is put in front of the first row, and of the rows
  up to its own all cells go one place to the left, except that its own row is shifted instead.
\<close>

lemma rows_moved:
  assumes b: "spaced b" and nn: "nn < 256" "16 \<le> nn" and b': "length b' = 16"
    "\<And>i. i < 16 \<Longrightarrow> b' ! i = (if i < nn div 16 then b ! i - 1 else b ! i)"
  shows "1 \<le> n \<Longrightarrow> n < 16 * (nn div 16) \<Longrightarrow> n mod 16 \<noteq> 0 \<Longrightarrow> cell b' n = cell b (n - 1)"
    and "16 * (nn div 16) \<le> n \<Longrightarrow> n < 256 \<Longrightarrow> cell b' n = cell b n"
proof -
  assume n: "1 \<le> n" "n < 16 * (nn div 16)" "n mod 16 \<noteq> 0"
  have q: "n div 16 < nn div 16" "nn div 16 < 16" using n(2) nn(1) by auto
  have p: "(n - 1) div 16 = n div 16" "int ((n - 1) mod 16) = int (n mod 16) - 1"
    using n(1,3) by (cases n; simp add: mod_Suc div_Suc split: if_splits)+
  have "b' ! (n div 16) = b ! (n div 16) - 1" using b'(2) [of "n div 16"] q by simp
  then have "b' ! (n div 16) + int (n mod 16) = b ! ((n - 1) div 16) + int ((n - 1) mod 16)"
    unfolding p by linarith
  then show "cell b' n = cell b (n - 1)" by (simp only: cell_def)
next
  assume n: "16 * (nn div 16) \<le> n" "n < 256"
  then have "n div 16 < 16" "\<not> n div 16 < nn div 16" by auto
  then show "cell b' n = cell b n" using b'(2) [of "n div 16"] by (simp add: cell_def)
qed

lemma move_far_rows:
  assumes b: "spaced b" "1 \<le> b ! 0" and a: "length a = 4096" and nn: "nn < 256" "16 \<le> nn"
  shows "\<exists>a1 a2 b1 b2. shift_row (b ! (nn div 16)) (b ! (nn div 16) + int (nn mod 16)) a = Some a1
     \<and> b1 = b[nn div 16 := b ! (nn div 16) + 1] \<and> pass_on (nn div 16) a1 b1 = Some (a2, b2)
     \<and> length a2 = 4096 \<and> length b2 = 16 \<and> (\<forall>i < 16. b2 ! i = (if 1 \<le> i \<and> i < nn div 16 then b ! i - 1 else b ! i))
     \<and> (\<forall>n. 1 \<le> n \<and> n < 256 \<longrightarrow> a2 ! cell (b2[0 := b ! 0 - 1]) n = a ! cell b (if n \<le> nn then n - 1 else n))"
proof -
  define l where "l = nn div 16"
  define f where "f = nn mod 16"
  have lf: "1 \<le> l" "l < 16" "f < 16" "nn = 16 * l + f" "nn div 16 = l" "nn mod 16 = f" using nn by (auto simp: l_def f_def)
  have len: "length b = 16" using b(1) by (simp add: spaced_def)
  have gap: "b ! i + 16 \<le> b ! j" if "i < j" "j < 16" for i j using spaced_le [OF b(1), of i j] that by simp
  have pos: "1 \<le> b ! i" if "i < 16" for i using gap [of 0 i] b(2) that by (cases i) auto
  have cl: "b ! l + int k = int (cell b (16 * l + k))" "cell b (16 * l + k) < 4096" if "k < 16" for k
    using pos [OF lf(2)] cell_bound [OF b(1), of "16 * l + k"] that lf(2) by (simp_all add: cell_def)
  define c where "c = cell b (16 * l)"
  have c: "b ! l = int c" "c < 4096" using cl [of 0] by (simp_all add: c_def)
  have ck: "cell b (16 * l + k) = c + k" if "k < 16" for k using cl(1) [OF that] c(1) by simp
  obtain a1 where a1: "shift_cells (int c) f a = Some a1" "length a1 = length a"
      "\<forall>k < length a. a1 ! k = (if c < k \<and> k \<le> c + f then a ! (k - 1) else a ! k)"
    using shift_cells_eq [of "int c" f a] cl(2) [OF lf(3)] ck [OF lf(3)] a by auto
  have s: "shift_row (b ! l) (b ! l + int f) a = Some a1"
    using a1(1) shift_row_eq [of "int c" f a] cl(2) [OF lf(3)] ck [OF lf(3)] a by (simp add: c(1))
  let ?b = "b[l := b ! l + 1]"
  have gap': "?b ! i + 16 \<le> ?b ! j" if "i < j" "j \<le> l" for i j
    using gap [of i j] that lf(2) len by (cases "j = l") auto
  obtain a2 b2 where p: "pass_on l a1 ?b = Some (a2, b2)" "length a2 = length a1" "length b2 = length ?b"
      "\<forall>i < length ?b. b2 ! i = (if 1 \<le> i \<and> i \<le> l then ?b ! i - 1 else ?b ! i)"
      "\<forall>i. 1 \<le> i \<and> i \<le> l \<longrightarrow> a2 ! nat (?b ! i - 1) = a1 ! nat (?b ! (i - 1) + 15)"
      "\<forall>k. (\<forall>i. 1 \<le> i \<and> i \<le> l \<longrightarrow> k \<noteq> nat (?b ! i - 1)) \<longrightarrow> a2 ! k = a1 ! k"
    using pass_on_ok [of l ?b a1] gap' lf(1,2) len b(2) c a1(2) a by auto
  have b2: "b2 ! i = (if 1 \<le> i \<and> i < l then b ! i - 1 else b ! i)" if "i < 16" for i
    using p(4) that lf(1,2) len by (cases "i = l") auto
  have "a2 ! cell (b2[0 := b ! 0 - 1]) n = a ! cell b (if n \<le> nn then n - 1 else n)" if n: "1 \<le> n" "n < 256" for n
  proof -
    let ?B = "b2[0 := b ! 0 - 1]"
    have B: "?B ! i = (if i < nn div 16 then b ! i - 1 else b ! i)" if "i < 16" for i
      using b2 [OF that] that lf(1,5) p(3) len by (cases i) auto
    have lB: "length ?B = 16" using p(3) len by simp
    have below: "a1 ! cell b m = a ! cell b m" if "m < 16 * l" for m
    proof -
      have "cell b m < c" using cell_less [OF b(1) that] lf(2) by (simp add: c_def)
      then show ?thesis using c(2) a1(3) a by simp
    qed
    have row: "cell b (16 * i) = nat (b ! i)" for i by (simp add: cell_def)
    consider "16 * l < n" | i where "n = 16 * i" "1 \<le> i" "i \<le> l" | "n < 16 * l" "n mod 16 \<noteq> 0"
    proof (cases "16 * l < n")
      case False
      have "n = 16 * (n div 16)" if "n mod 16 = 0" using that by auto
      then show ?thesis using that False n(1) by (cases "n mod 16 = 0") (metis less_eq_Suc_le le_antisym mult_le_cancel1 not_less le_neq_implies_less mult_0_right not_gr0 One_nat_def, force)
    qed (rule that(1))
    then show ?thesis
    proof cases
      case 1
      then have k: "cell ?B n = cell b n" "c < cell b n"
        using rows_moved(2) [OF b(1) nn lB B, of n] cell_less [OF b(1) 1 n(2)] n(2) lf(5) by (simp_all add: c_def)
      have "cell b n \<noteq> nat (?b ! i - 1)" if "1 \<le> i \<and> i \<le> l" for i
        using that gap [of i l] pos [of i] lf(2) len k(2) c(1) by (cases "i = l") auto
      then have "a2 ! cell ?B n = a1 ! cell b n" using p(6) k(1) by simp
      also have "\<dots> = a ! cell b (if n \<le> nn then n - 1 else n)"
      proof (cases "n \<le> nn")
        case True
        define k where "k = n - 16 * l"
        have "n = 16 * l + k" "n - 1 = 16 * l + (k - 1)" "1 \<le> k" "k \<le> f" using 1 True lf(4) by (simp_all add: k_def)
        then show ?thesis using a1(3) a ck [of k] ck [of "k - 1"] cl(2) [of k] lf(3) True by simp
      next
        case False
        then have "c + f < cell b n" using cell_less [OF b(1), of nn n] n(2) ck [OF lf(3)] lf(4) by simp
        then show ?thesis using False a1(3) a cell_bound [OF b(1) n(2)] by simp
      qed
      finally show ?thesis .
    next
      case (2 i)
      have i: "i - 1 < l" "i < 16" "(n - 1) div 16 = i - 1" "(n - 1) mod 16 = 15" using 2 lf(2) by (cases i; auto)+
      have "cell ?B n = nat (?b ! i - 1)" using B [OF i(2)] 2 lf(2,5) len by (cases "i = l") (simp_all add: cell_def)
      moreover have "a2 ! nat (?b ! i - 1) = a1 ! nat (?b ! (i - 1) + 15)" using p(5) 2 by blast
      moreover have "nat (?b ! (i - 1) + 15) = cell b (n - 1)" using i by (simp add: cell_def)
      moreover have "n - 1 < 16 * l" "n \<le> nn" using 2 n(1) lf(4) by auto
      ultimately show ?thesis using below by simp
    next
      case 3
      have k: "cell ?B n = cell b (n - 1)"
        using rows_moved(1) [OF b(1) nn lB B, of n] n(1) 3 lf(5) by simp
      have q: "n div 16 < 16" using 3 lf(2) by auto
      have p1: "(n - 1) div 16 = n div 16" "int ((n - 1) mod 16) = int (n mod 16) - 1"
        using n(1) 3(2) by (cases n; simp add: mod_Suc div_Suc split: if_splits)+
      have k': "cell b n = Suc (cell b (n - 1))"
        unfolding cell_def p1 using pos [OF q] by (subst Suc_nat_eq_nat_zadd1) (auto simp: algebra_simps)
      have "cell b (n - 1) \<noteq> nat (?b ! i - 1)" if i: "1 \<le> i \<and> i \<le> l" for i
      proof (cases "i = l")
        case True
        have "n - 1 < 16 * l" "16 * l < 256" using 3(1) lf(2) by linarith+
        then have "cell b (n - 1) < c" unfolding c_def by (rule cell_less [OF b(1)])
        then show ?thesis using True lf(2) len c by simp
      next
        case False
        have ne: "n \<noteq> 16 * i" "16 * i < 256" using 3(2) i lf(2) by auto
        then consider "n < 16 * i" | "16 * i < n" by linarith
        then have "cell b n \<noteq> cell b (16 * i)"
          using cell_less [OF b(1) _ ne(2), of n] cell_less [OF b(1) _ n(2), of "16 * i"] by cases auto
        then show ?thesis using False k' pos [of i] i lf(2) by (simp add: row)
      qed
      then have "a2 ! cell ?B n = a1 ! cell b (n - 1)" using p(6) k by simp
      then show ?thesis using below [of "n - 1"] 3 lf(4) by simp
    qed
  qed
  then show ?thesis using s p(1-3) a1(2) a len b2 by (auto simp: lf(5,6))
qed

lemma move_far_ok:
  assumes r: "rows_ok a b" and nn: "nn < 256" "16 \<le> nn"
  shows "runs (move_far nn a b) (\<lambda>(uc, a', b'). uc = mtf_list a b ! nn \<and> rows_ok a' b'
     \<and> mtf_list a' b' = front nn (mtf_list a b))"
proof -
  let ?l = "nn div 16" and ?f = "nn mod 16"
  have b: "spaced b" "1 \<le> b ! 0" and a: "length a = 4096" using rows_ok_spaced [OF r] by auto
  have len: "length b = 16" using b(1) by (simp add: spaced_def)
  have l: "?l < 16" "1 \<le> ?l" using nn by auto
  obtain a1 a2 b2 where m: "shift_row (b ! ?l) (b ! ?l + int ?f) a = Some a1"
      "pass_on ?l a1 (b[?l := b ! ?l + 1]) = Some (a2, b2)" "length a2 = 4096" "length b2 = 16"
      "\<forall>i < 16. b2 ! i = (if 1 \<le> i \<and> i < ?l then b ! i - 1 else b ! i)"
      "\<forall>n. 1 \<le> n \<and> n < 256 \<longrightarrow> a2 ! cell (b2[0 := b ! 0 - 1]) n = a ! cell b (if n \<le> nn then n - 1 else n)"
    using move_far_rows [OF b a nn] by blast
  let ?B = "b2[0 := b ! 0 - 1]" and ?uc = "a ! cell b nn"
  let ?A = "a2[nat (b ! 0 - 1) := ?uc]"
  have B: "?B ! i = (if i < ?l then b ! i - 1 else b ! i)" if "i < 16" for i
    using m(4,5) that l(2) by (cases i) auto
  have step: "?B ! i + 16 \<le> ?B ! Suc i" if "i < 15" for i
    using B [of i] B [of "Suc i"] spaced_le [OF b(1), of i "Suc i"] that by auto
  have top: "?B ! 15 \<le> 4080" "?B ! 0 = b ! 0 - 1" using B [of 15] b(1) B [of 0] l(2) by (auto simp: spaced_def)
  then have sB: "spaced ?B" using step m(4) b(2) by (simp add: spaced_def)
  have c0: "cell ?B 0 = nat (b ! 0 - 1)" using top(2) by (simp add: cell_def)
  have "?A ! cell ?B n = a ! cell b (if n = 0 then nn else if n \<le> nn then n - 1 else n)" if n: "n < 256" for n
  proof (cases "n = 0")
    case True
    then show ?thesis using c0 cell_bound [OF sB, of 0] m(3) by simp
  next
    case False
    then have "cell ?B n \<noteq> nat (b ! 0 - 1)" using cell_less [OF sB, of 0 n] n c0 by simp
    then show ?thesis using m(6) n False by simp
  qed
  then have list: "mtf_list ?A ?B = front nn (mtf_list a b)" using nn(1) by (intro mtf_list_front) auto
  have c: "b ! ?l + int ?f = int (cell b nn)" "cell b nn < 4096"
    using spaced_range [OF b(1) l(1)] cell_bound [OF b(1) nn(1)] by (simp_all add: cell_def)
  have b0: "b2 ! 0 = b ! 0" "b ! 0 - 1 < 4096" using m(5) spaced_range [OF b(1), of 0] by auto
  have run: "move_far nn a b = do { (mtfa, mtfbase) \<leftarrow> (if b ! 0 - 1 = 0 then lay_out ?A ?B else Some (?A, ?B));
       Some (?uc, mtfa, mtfbase) }"
    using m(1,2) c a m(3,4) len l b0 b(2) by (simp add: move_far_def Let_def)
  have uc: "?uc = mtf_list a b ! nn" using nn(1) by (simp add: mtf_list_cell)
  show ?thesis
  proof (cases "b ! 0 - 1 = 0")
    case True
    have "runs (lay_out ?A ?B) (\<lambda>(x, y). rows_ok x y \<and> mtf_list x y = mtf_list ?A ?B)"
      using sB m(3) by (intro lay_out_ok) simp_all
    then show ?thesis using True list uc by (auto simp: run runs_iff_Some)
  next
    case False
    then have "rows_ok ?A ?B" using sB m(3) b(2) top by (simp add: rows_ok_def spaced_def)
    then show ?thesis using False list uc by (simp add: run)
  qed
qed

lemma unmtf_ok:
  "rows_ok a b \<Longrightarrow> nn < 256 \<Longrightarrow> runs (unmtf nn a b) (\<lambda>(uc, a', b'). uc = mtf_list a b ! nn \<and> rows_ok a' b'
     \<and> mtf_list a' b' = front nn (mtf_list a b))"
  using move_near_ok [of a b nn] move_far_ok [of a b nn] by (auto simp: unmtf_def runs_iff_Some)

section \<open>The list at the beginning\<close>

lemma mtf_init_ok:
  assumes "length a = 4096" "length b = 16"
  shows "runs (mtf_init a b) (\<lambda>(a', b'). rows_ok a' b' \<and> mtf_list a' b' = map of_nat [0..<256])"
proof -
  let ?A = "\<lambda>m x kk. length x = 4096 \<and> kk = 3840 + int m - 1 \<and> (\<forall>n < 256. m \<le> n \<longrightarrow> x ! (3840 + n) = (of_nat n :: u8))"
  let ?B = "\<lambda>i y. length y = 16 \<and> (\<forall>k < 16. i \<le> k \<longrightarrow> y ! k = 3840 + 16 * int k)"
  let ?I = "\<lambda>i (x, y, kk). ?A (16 * i) x kk \<and> ?B i y"
  let ?inner = "\<lambda>i. for_in (rev [0..<MTFL_SIZE]) (\<lambda>jj (mtfa, kk).
                   do { mtfa \<leftarrow> iput mtfa kk (of_nat (i * MTFL_SIZE + jj));
                        Some (mtfa, kk - 1) })"
  have "runs (for_in (rev [0..<16]) (\<lambda>ii (mtfa, mtfbase, kk).
            do { (mtfa, kk) \<leftarrow> ?inner ii (mtfa, kk);
                 mtfbase \<leftarrow> aput mtfbase ii (kk + 1);
                 Some (mtfa, mtfbase, kk) }) (a, b, int MTFA_SIZE - 1)) (?I 0)"
  proof (rule runs_for_rev [where I = ?I])
    show "?I 16 (a, b, int MTFA_SIZE - 1)" using assms by simp
    fix i st assume i: "i < (16 :: nat)" and I: "?I (Suc i) st"
    obtain x y kk where st: "st = (x, y, kk)" by (cases st) auto
    have "runs (?inner i (x, kk)) (\<lambda>(x, kk). ?A (16 * i + 0) x kk)"
    proof (rule runs_for_rev [where I = "\<lambda>j (x, kk). ?A (16 * i + j) x kk"])
      have "16 * i + 16 = 16 * Suc i" by simp
      then show "case (x, kk) of (x, kk) \<Rightarrow> ?A (16 * i + MTFL_SIZE) x kk" using I unfolding st prod.case by metis
      fix j xk assume j: "j < MTFL_SIZE" and J: "case xk of (x, kk) \<Rightarrow> ?A (16 * i + Suc j) x kk"
      obtain x kk where xk: "xk = (x, kk)" by (cases xk) auto
      let ?m = "16 * i + j"
      have m: "?m < 256" "i * 16 + j = ?m" using i j by auto
      have x: "?A (Suc ?m) x kk" using J by (simp add: xk)
      then have kk: "kk = int (3840 + ?m)" by simp
      have "?A ?m (x[3840 + ?m := of_nat ?m]) (kk - 1)" using x by (auto simp: nth_list_update)
      moreover have "do { x \<leftarrow> iput x kk (of_nat (i * MTFL_SIZE + j)); Some (x, kk - 1) }
          = Some (x[3840 + ?m := of_nat ?m], kk - 1)"
        using x m(1) unfolding m(2) kk by (simp del: of_nat_add add: nat_int)
      ultimately show "runs (case xk of (mtfa, kk) \<Rightarrow> do { mtfa \<leftarrow> iput mtfa kk (of_nat (i * MTFL_SIZE + j));
                        Some (mtfa, kk - 1) }) (\<lambda>(x, kk). ?A ?m x kk)"
        unfolding xk prod.case runs_iff_Some by blast
    qed
    then obtain x' kk' where x': "?inner i (x, kk) = Some (x', kk')" "?A (16 * i) x' kk'"
      by (auto simp: runs_iff_Some)
    have "?B i (y[i := kk' + 1])" using I x'(2) i by (auto simp: st nth_list_update)
    then show "runs (case st of (mtfa, mtfbase, kk) \<Rightarrow> do { (mtfa, kk) \<leftarrow> ?inner i (mtfa, kk);
                 mtfbase \<leftarrow> aput mtfbase i (kk + 1);
                 Some (mtfa, mtfbase, kk) }) (?I i)"
      using x' I i by (simp add: st)
  qed
  then obtain x y kk where run: "for_in (rev [0..<16]) (\<lambda>ii (mtfa, mtfbase, kk).
            do { (mtfa, kk) \<leftarrow> ?inner ii (mtfa, kk);
                 mtfbase \<leftarrow> aput mtfbase ii (kk + 1);
                 Some (mtfa, mtfbase, kk) }) (a, b, int MTFA_SIZE - 1) = Some (x, y, kk)" "?A 0 x kk" "?B 0 y"
    by (auto simp: runs_iff_Some)
  have "cell y n = 3840 + n" if "n < 256" for n using run(3) that by (intro cell_last) auto
  then have "mtf_list x y = map of_nat [0..<256]" using run(2) by (simp add: mtf_list_cell)
  moreover have "rows_ok x y" using run(2,3) by (simp add: rows_ok_def)
  ultimately show ?thesis using run(1) by (simp add: mtf_init_def)
qed

section \<open>Properties\<close>

text \<open>
  C25: the two-level move-to-front list of the decompressor is a plain list: for every state of
  the arrays in which the rows lie in order, and every place below 256, the code finds the byte
  of that place, leaves every access inside the arrays, and moves the byte to the front, also
  when a row reaches the beginning of the array and all rows are laid out anew.
\<close>

theorem unmtf_moves_to_front:
  assumes "rows_ok mtfa mtfbase" "nn < 256"
  shows "\<exists>mtfa' mtfbase'. unmtf nn mtfa mtfbase = Some (mtf_list mtfa mtfbase ! nn, mtfa', mtfbase')
     \<and> rows_ok mtfa' mtfbase' \<and> mtf_list mtfa' mtfbase' = front nn (mtf_list mtfa mtfbase)"
  using unmtf_ok [OF assms] by (auto simp: runs_iff_Some)

text \<open>Place 17 of the list at the beginning.\<close>

lemma unmtf_moves_to_front_witness:
  "\<exists>mtfa mtfbase mtfa' mtfbase'. mtf_init (replicate 4096 0) (replicate 16 0) = Some (mtfa, mtfbase)
     \<and> unmtf 17 mtfa mtfbase = Some (17, mtfa', mtfbase')
     \<and> rows_ok mtfa' mtfbase' \<and> mtf_list mtfa' mtfbase' = front 17 (map of_nat [0..<256])"
proof -
  obtain a b where ab: "mtf_init (replicate 4096 0) (replicate 16 0) = Some (a, b)" "rows_ok a b" "mtf_list a b = map of_nat [0..<256]"
    using mtf_init_ok [of "replicate 4096 0" "replicate 16 0"] by (auto simp: runs_iff_Some)
  then have "mtf_list a b ! 17 = 17" by simp
  then show ?thesis using unmtf_moves_to_front [OF ab(2), of 17] ab by auto
qed

end
