(* ===== verification/BzSymbol.thy ===== *)
theory BzSymbol
  imports BzUnmtf
begin

text \<open>
  The symbols of a block in \<open>BZ2_decompress\<close> (\<open>benchmarks/wasi/bzip2/decompress.c\<close>): the macro
  \<open>GET_MTF_VAL\<close>, which reads a code word with the table of the current group of fifty, and
  the abstract reader of symbols that it implements for every input.
\<close>


section \<open>The code\<close>

text \<open>
  The position in the data: \<open>groupNo\<close>, \<open>groupPos\<close> and \<open>gSel\<close>. The pointers \<open>gLimit\<close>,
  \<open>gBase\<close> and \<open>gPerm\<close> are to the tables of \<open>gSel\<close> in the state.
\<close>

type_synonym vpos = "int \<times> nat \<times> nat"

text \<open>[bzip2/decompress.c 76-86 GET_MTF_VAL]\<close>

definition next_group :: "nat \<Rightarrow> vpos \<Rightarrow> dstate \<Rightarrow> vpos out option" where
  "next_group nSelectors = (\<lambda>(groupNo, groupPos, gSel) s.
     if groupPos = 0
     then (let groupNo = groupNo + 1
           in if groupNo \<ge> int nSelectors then Some (Stop BZ_DATA_ERROR s)
              else do { gSel \<leftarrow> iget (d_selector s) groupNo; Some (Go (groupNo, BZ_G_SIZE, gSel) s) })
     else Some (Go (groupNo, groupPos, gSel) s))"

text \<open>[bzip2/decompress.c 90-97 GET_MTF_VAL] From \<open>zn\<close> bits in \<open>zvec\<close> to a word of the code.\<close>

function receive_code :: "int list \<Rightarrow> nat \<Rightarrow> int \<Rightarrow> dstate \<Rightarrow> (nat \<times> int) out option" where
  "receive_code limit zn zvec s =
     (if zn > 20 then Some (Stop BZ_DATA_ERROR s)
      else do { l \<leftarrow> aget limit zn;
                if zvec \<le> l then Some (Go (zn, zvec) s)
                else andthen (get_bit s) (\<lambda>zj s. receive_code limit (zn + 1) (push_bit 1 zvec OR int zj) s) })"
  by pat_completeness auto
termination
  by (relation "measure (\<lambda>(_, zn, _). 21 - zn)") auto

declare receive_code.simps [simp del]

text \<open>[bzip2/decompress.c 98-101 GET_MTF_VAL]\<close>

definition take_symbol :: "int list \<Rightarrow> int list \<Rightarrow> nat \<Rightarrow> int \<Rightarrow> dstate \<Rightarrow> int out option" where
  "take_symbol gBase gPerm zn zvec s =
     do { b \<leftarrow> aget gBase zn;
          if zvec - b < 0 \<or> zvec - b \<ge> int BZ_MAX_ALPHA_SIZE then Some (Stop BZ_DATA_ERROR s)
          else do { lval \<leftarrow> iget gPerm (zvec - b); Some (Go lval s) } }"

text \<open>[bzip2/decompress.c 82-101 GET_MTF_VAL] A symbol, with the table \<open>gSel\<close>.\<close>

definition receive_symbol :: "nat \<Rightarrow> dstate \<Rightarrow> int out option" where
  "receive_symbol gSel s =
     do { gMinlen \<leftarrow> aget (d_minLens s) gSel;
          gLimit \<leftarrow> aget (d_limit s) gSel;
          gPerm \<leftarrow> aget (d_perm s) gSel;
          gBase \<leftarrow> aget (d_base s) gSel;
          andthen (get_bits gMinlen s) (\<lambda>zvec s.
          andthen (receive_code gLimit gMinlen (int zvec) s) (\<lambda>(zn, zvec) s.
          take_symbol gBase gPerm zn zvec s)) }"

text \<open>[bzip2/decompress.c 74-102 GET_MTF_VAL]\<close>

definition get_mtf_val :: "nat \<Rightarrow> vpos \<Rightarrow> dstate \<Rightarrow> (int \<times> vpos) out option" where
  "get_mtf_val nSelectors p s =
     andthen (next_group nSelectors p s) (\<lambda>(groupNo, groupPos, gSel) s.
     andthen (receive_symbol gSel s) (\<lambda>lval s. Some (Go (lval, groupNo, groupPos - 1, gSel) s)))"

section \<open>The reader of symbols\<close>

text \<open>
  The symbol of a place, when the symbols are ordered by the lengths of their words, and the
  search for a word in the canonical code of the lengths \<open>L\<close>, from a word \<open>v\<close> of \<open>n\<close> bits on.
\<close>

definition symbol_at :: "nat list \<Rightarrow> nat \<Rightarrow> nat" where
  "symbol_at L p = hd (filter (\<lambda>i. below L (length L) (L ! i) + lcount L (L ! i) i = p) [0..<length L])"

function find_symbol :: "nat list \<Rightarrow> nat \<Rightarrow> nat \<Rightarrow> bool list \<Rightarrow> nat found" where
  "find_symbol L n v bs =
     (if n > 20 then Corrupt
      else if n \<le> Max (set L) \<and> v < first_code L (length L) (Min (set L)) n + lcount L n (length L)
      then Found (symbol_at L (v - first_code L (length L) (Min (set L)) n + below L (length L) n)) bs
      else if n > Max (set L) \<and> v = 0 then Corrupt
      else pbind (pget 1 bs) (\<lambda>b. find_symbol L (n + 1) (2 * v + b)))"
  by pat_completeness auto
termination
  by (relation "measure (\<lambda>(_, n, _). 21 - n)") auto

declare find_symbol.simps [simp del]

definition parse_symbol :: "nat list \<Rightarrow> bool list \<Rightarrow> nat found" where
  "parse_symbol L bs = pbind (pget (Min (set L)) bs) (find_symbol L (Min (set L)))"

text \<open>The symbol number \<open>k\<close> of a block.\<close>

definition parse_kth :: "nat list list \<Rightarrow> nat list \<Rightarrow> nat \<Rightarrow> bool list \<Rightarrow> nat found" where
  "parse_kth tables sels k bs =
     (if k div 50 < length sels then parse_symbol (tables ! (sels ! (k div 50))) bs else Corrupt)"

lemma andthen_assoc: "andthen (andthen m f) g = andthen m (\<lambda>x s. andthen (f x s) g)"
  by (cases m; cases "the m") auto

lemma symbol_at_place:
  assumes "i < length L"
  shows "symbol_at L (below L (length L) (L ! i) + lcount L (L ! i) i) = i"
proof -
  let ?p = "\<lambda>i. below L (length L) (L ! i) + lcount L (L ! i) i"
  have less: "?p j < ?p k \<or> L ! j = L ! k \<and> j = k \<or> ?p k < ?p j" if "j < length L" "k < length L" for j k
  proof (cases "L ! j" "L ! k" rule: linorder_cases)
    case less
    have "lcount L (L ! j) j < lcount L (L ! j) (length L)" using lcount_less [OF that(1), of L] .
    then have "?p j < below L (length L) (Suc (L ! j))" by (simp add: below_Suc)
    also have "\<dots> \<le> below L (length L) (L ! k)" using less by (intro below_mono) simp
    finally show ?thesis by simp
  next
    case equal
    then show ?thesis using lcount_less [of j k L] lcount_less [of k j L] by (cases j k rule: linorder_cases) auto
  next
    case greater
    have "lcount L (L ! k) k < lcount L (L ! k) (length L)" using lcount_less [OF that(2), of L] .
    then have "?p k < below L (length L) (Suc (L ! k))" by (simp add: below_Suc)
    also have "\<dots> \<le> below L (length L) (L ! j)" using greater by (intro below_mono) simp
    finally show ?thesis by simp
  qed
  have "?p j = ?p i \<longleftrightarrow> j = i" if "j < length L" for j using less [OF that assms] by auto
  then have "filter (\<lambda>j. ?p j = ?p i) [0..<length L] = filter (\<lambda>j. j = i) [0..<length L]"
    by (intro filter_cong refl) simp
  moreover have "set (filter (\<lambda>j. j = i) [0..<length L]) = {i}" using assms by auto
  moreover have "hd xs = i" if "set xs = {i}" for xs using that by (cases xs) auto
  ultimately show ?thesis unfolding symbol_at_def by simp
qed

lemma tables_ok_take:
  assumes "tables_ok L a m M limit base perm"
  shows "tables_ok (take a L) a m M limit base perm"
proof -
  have a: "a \<le> length L" using assms by (simp add: tables_ok_def lengths_ok_def)
  have lcount: "k \<le> a \<Longrightarrow> lcount (take a L) n k = lcount L n k" for n k
    unfolding lcount_def by (intro arg_cong [where f = size] filter_cong) auto
  moreover have "first_code (take a L) a m n = first_code L a m n" for n
    by (induction n) (simp_all add: lcount)
  moreover have "below (take a L) a n = below L a n" for n
    unfolding below_def by (intro arg_cong [where f = size] filter_cong) auto
  ultimately show ?thesis using assms a by (simp add: tables_ok_def lengths_ok_def)
qed

text \<open>The tables of the lengths \<open>L\<close>.\<close>

definition decodes :: "nat list \<Rightarrow> nat \<Rightarrow> int list \<Rightarrow> int list \<Rightarrow> int list \<Rightarrow> bool" where
  "decodes L m limit base perm \<longleftrightarrow> L \<noteq> [] \<and> length L \<le> 258 \<and> m = Min (set L)
     \<and> tables_ok L (length L) m (Max (set L)) limit base perm"

lemma take_symbol_ok:
  assumes d: "decodes L m limit base perm" and v: "m \<le> n" "n \<le> Max (set L)" "first_code L (length L) m n \<le> v"
    "v < first_code L (length L) m n + lcount L n (length L)"
  shows "symbol_at L (v - first_code L (length L) m n + below L (length L) n) < length L
     \<and> take_symbol base perm n (int v) s
         = Some (Go (int (symbol_at L (v - first_code L (length L) m n + below L (length L) n))) s)"
proof -
  let ?a = "length L" and ?p = "v - first_code L (length L) m n + below L (length L) n"
  note tab = d [unfolded decodes_def tables_ok_def lengths_ok_def]
  have p: "?p < ?a" using below_lcount_le [of L ?a n] v(3,4) by linarith
  have n: "n < 23" "n < length base" using tab v(2) by auto
  have "base ! n = int (first_code L ?a m n) - int (below L ?a n)" using tab v(1,2) by blast
  then have b: "int v - base ! n = int ?p" using v(3) by simp
  obtain i where i: "i < ?a" "?p = below L ?a (L ! i) + lcount L (L ! i) i" using place_is_symbol [OF p] by blast
  then have "symbol_at L ?p = i" by (simp add: symbol_at_place)
  moreover have "perm ! ?p = int i" "?p < length perm" "?p < 258" using tab i p by auto
  moreover have "take_symbol base perm n (int v) s = (if int v - base ! n < 0 \<or> int v - base ! n \<ge> int BZ_MAX_ALPHA_SIZE
      then Some (Stop BZ_DATA_ERROR s) else do { lval \<leftarrow> iget perm (int v - base ! n); Some (Go lval s) })"
    by (simp only: take_symbol_def aget_Some [OF n(2)] Option.bind.bind_lunit)
  ultimately show ?thesis using i(1) unfolding b by (simp del: of_nat_add)
qed

lemma push_bit_OR: "zj < 2 \<Longrightarrow> push_bit 1 (int v) OR int zj = int (2 * v + zj)"
proof -
  assume "zj < 2"
  then have "zj = 0 \<or> zj = 1" by auto
  moreover have "push_bit 1 (int v) = 2 * int v" by (simp add: push_bit_eq_mult)
  moreover have "2 * int v OR 1 = 2 * int v + 1" by (simp add: or_one_eq)
  ultimately show ?thesis by (elim disjE) (simp_all del: One_nat_def add: mult.commute)
qed

lemma pget_1_less: "pget 1 bs = Found b cs \<Longrightarrow> b < 2"
  unfolding pget_1 by (auto split: list.splits)

lemma get_bit_refines_less: "rd_inv s \<Longrightarrow> refines (get_bit s) (pget 1 (pending s)) (\<lambda>y x t. x = y \<and> y < 2 \<and> rd_frame s t)"
  using get_bit_refines [of s] pget_1_less [of "pending s"] by (cases "pget 1 (pending s)") auto

lemma receive_code_refines:
  assumes d: "decodes L m limit base perm"
  shows "m \<le> n \<Longrightarrow> (n \<le> Max (set L) \<Longrightarrow> first_code L (length L) m n \<le> v) \<Longrightarrow> rd_inv s \<Longrightarrow>
     refines (andthen (receive_code limit n (int v) s) (\<lambda>(zn, zvec) s. take_symbol base perm zn zvec s))
       (find_symbol L n v (pending s)) (\<lambda>y x t. x = int y \<and> y < length L \<and> rd_frame s t)"
proof (induction "21 - n" arbitrary: n v s)
  case 0
  then have "n > 20" by simp
  then show ?case by (simp add: receive_code.simps [of limit n] find_symbol.simps [of L n])
next
  case (Suc k)
  let ?a = "length L" and ?M = "Max (set L)"
  note tab = d [unfolded decodes_def tables_ok_def lengths_ok_def]
  have n: "\<not> n > 20" "n < length limit" "n < length base" "n < 23" using Suc(2) tab by auto
  have m: "m = Min (set L)" using tab by blast
  show ?case
  proof (cases "n \<le> ?M \<and> v < first_code L ?a m n + lcount L n ?a")
    case True
    then have "int v \<le> limit ! n" using tab n(4) Suc(3) by auto
    moreover have v: "first_code L ?a m n \<le> v" using Suc(4) True by blast
    ultimately show ?thesis
      using True n Suc(3,5) take_symbol_ok [OF d Suc(3) _ v, of s]
      by (simp add: receive_code.simps [of limit n] find_symbol.simps [of L n] m)
  next
    case above: False
    show ?thesis
    proof (cases "n > ?M \<and> v = 0")
      case True
      then have "\<not> (m \<le> n \<and> n \<le> ?M)" by simp
      then have "limit ! n = 0" "base ! n = int (below L ?a n)" using tab n(4) by metis+
      moreover have "below L ?a n = ?a" using True tab by (intro below_all) fastforce
      moreover have "0 < ?a" using tab by simp
      moreover have "\<not> n \<le> ?M" using True by linarith
      ultimately show ?thesis
        using True n by (simp add: receive_code.simps [of limit n] find_symbol.simps [of L n] take_symbol_def del: Max_less_iff)
    next
      case False
      have lim: "\<not> int v \<le> limit ! n"
      proof (cases "n \<le> ?M")
        case True
        then have "limit ! n = int (first_code L ?a m n + lcount L n ?a) - 1" using tab n(4) Suc(3) by auto
        then show ?thesis using above True by linarith
      next
        case nM: False
        then have "limit ! n = 0" using tab n(4) by auto
        then show ?thesis using False nM by simp
      qed
      have step: "receive_code limit n (int v) s
          = andthen (get_bit s) (\<lambda>zj s. receive_code limit (n + 1) (push_bit 1 (int v) OR int zj) s)"
        using n lim by (simp add: receive_code.simps [of limit n])
      have pstep: "find_symbol L n v (pending s) = pbind (pget 1 (pending s)) (\<lambda>b. find_symbol L (n + 1) (2 * v + b))"
        using n(1) above False by (subst find_symbol.simps) (auto simp: m)
      show ?thesis
        unfolding step pstep andthen_assoc
      proof (rule refines_bind [OF get_bit_refines_less [OF Suc(5)]])
        fix y zj :: nat and t assume t: "zj = y \<and> y < 2 \<and> rd_frame s t" "rd_inv t"
        have "first_code L ?a m (n + 1) \<le> 2 * v + y" if "n + 1 \<le> ?M" using above that Suc(3) by simp
        then have "refines (andthen (receive_code limit (n + 1) (int (2 * v + y)) t) (\<lambda>(zn, zvec) s. take_symbol base perm zn zvec s))
          (find_symbol L (n + 1) (2 * v + y) (pending t)) (\<lambda>y x u. x = int y \<and> y < length L \<and> rd_frame t u)"
          using Suc(2,3) t(2) by (intro Suc(1)) auto
        then show "refines (andthen (receive_code limit (n + 1) (push_bit 1 (int v) OR int zj) t)
             (\<lambda>(zn, zvec) s. take_symbol base perm zn zvec s))
          (find_symbol L (n + 1) (2 * v + y) (pending t)) (\<lambda>y x u. x = int y \<and> y < length L \<and> rd_frame s u)"
          using t(1) push_bit_OR [of zj v] by (auto simp del: of_nat_add push_bit_of_nat push_bit_of_int elim!: refines_mono intro: rd_frame_trans)
      qed
    qed
  qed
qed

section \<open>The symbol number \<open>k\<close>\<close>

text \<open>The coding tables are ready: the decoding tables are those of the code lengths.\<close>

definition tables_ready :: "nat \<Rightarrow> nat list list \<Rightarrow> nat list \<Rightarrow> dstate \<Rightarrow> bool" where
  "tables_ready a tables sels s \<longleftrightarrow> length tables \<le> length (d_minLens s) \<and> length tables \<le> length (d_limit s)
     \<and> length tables \<le> length (d_base s) \<and> length tables \<le> length (d_perm s)
     \<and> (\<forall>t < length tables. length (tables ! t) = a
          \<and> decodes (tables ! t) (d_minLens s ! t) (d_limit s ! t) (d_base s ! t) (d_perm s ! t))
     \<and> set sels \<subseteq> {..<length tables} \<and> take (length sels) (d_selector s) = sels"

lemma tables_ready_frame:
  "tables_ready a tables sels s \<Longrightarrow> same_tables s t \<Longrightarrow> same_selectors s t \<Longrightarrow> tables_ready a tables sels t"
  by (simp add: tables_ready_def same_defs)

text \<open>The position after \<open>k\<close> symbols.\<close>

definition pos_ok :: "nat list \<Rightarrow> nat \<Rightarrow> vpos \<Rightarrow> bool" where
  "pos_ok sels k = (\<lambda>(groupNo, groupPos, gSel). k \<le> 50 * length sels \<and> groupNo = int ((k + 49) div 50) - 1
     \<and> groupPos = (50 - k mod 50) mod 50 \<and> (k mod 50 \<noteq> 0 \<longrightarrow> gSel = sels ! (k div 50)))"

lemma receive_symbol_refines:
  assumes "decodes L (d_minLens s ! g) (d_limit s ! g) (d_base s ! g) (d_perm s ! g)" "rd_inv s"
    "g < length (d_minLens s)" "g < length (d_limit s)" "g < length (d_base s)" "g < length (d_perm s)"
  shows "refines (receive_symbol g s) (parse_symbol L (pending s)) (\<lambda>y x t. x = int y \<and> y < length L \<and> rd_frame s t)"
proof -
  note d = assms(1)
  note tab = d [unfolded decodes_def tables_ok_def lengths_ok_def]
  have m: "d_minLens s ! g = Min (set L)" "Min (set L) \<le> 24" using tab by auto
  have "refines (andthen (get_bits (Min (set L)) s) (\<lambda>zvec t.
      andthen (receive_code (d_limit s ! g) (Min (set L)) (int zvec) t) (\<lambda>(zn, zvec) t.
      take_symbol (d_base s ! g) (d_perm s ! g) zn zvec t)))
    (pbind (pget (Min (set L)) (pending s)) (find_symbol L (Min (set L))))
    (\<lambda>y x t. x = int y \<and> y < length L \<and> rd_frame s t)"
  proof (rule refines_bind [OF get_bits_refines [OF assms(2) m(2)]])
    fix y x :: nat and t assume t: "x = y \<and> rd_frame s t" "rd_inv t"
    have "refines (andthen (receive_code (d_limit s ! g) (Min (set L)) (int y) t) (\<lambda>(zn, zvec) t.
        take_symbol (d_base s ! g) (d_perm s ! g) zn zvec t))
      (find_symbol L (Min (set L)) y (pending t)) (\<lambda>y x u. x = int y \<and> y < length L \<and> rd_frame t u)"
      by (rule receive_code_refines [OF d [unfolded m(1)]]) (use t(2) in simp_all)
    then show "refines (andthen (receive_code (d_limit s ! g) (Min (set L)) (int x) t) (\<lambda>(zn, zvec) t.
        take_symbol (d_base s ! g) (d_perm s ! g) zn zvec t))
      (find_symbol L (Min (set L)) y (pending t)) (\<lambda>y x u. x = int y \<and> y < length L \<and> rd_frame s u)"
      using t(1) by (auto elim!: refines_mono intro: rd_frame_trans)
  qed
  then show ?thesis using assms(3-6) m(1) by (simp add: receive_symbol_def parse_symbol_def)
qed

lemma pos_ok_step:
  assumes "pos_ok sels k (groupNo, groupPos, gSel)" "k mod 50 \<noteq> 0"
  shows "k div 50 < length sels" "gSel = sels ! (k div 50)" "groupPos \<noteq> 0" "pos_ok sels (k + 1) (groupNo, groupPos - 1, gSel)"
proof -
  obtain q r where k: "k = 50 * q + r" "r < 50" 
    using that [of "k div 50" "k mod 50"] by simp
  have r: "k mod 50 = r" "k div 50 = q" "0 < r" using k assms(2) by auto
  have p: "k \<le> 50 * length sels" "groupNo = int ((k + 49) div 50) - 1" "groupPos = 50 - r" "gSel = sels ! q"
    using assms r by (auto simp: pos_ok_def)
  have "(k + 49) div 50 = q + 1" "(k + 50) div 50 = q + 1" using k r(3) by auto
  moreover show "k div 50 < length sels" "gSel = sels ! (k div 50)" "groupPos \<noteq> 0" using p k r by auto
  moreover have "(k + 1) mod 50 = (if r = 49 then 0 else r + 1)" using k by auto
  moreover have "(k + 1) div 50 = q" if "r \<noteq> 49" using k that by (intro div_nat_eqI) auto
  moreover have "k + 1 \<le> 50 * length sels"
  proof -
    have "q < length sels" using p(1) k(1) r(3) by linarith
    then have "50 * q + 50 \<le> 50 * length sels" by simp
    then show ?thesis using k by linarith
  qed
  ultimately show "pos_ok sels (k + 1) (groupNo, groupPos - 1, gSel)"
    using p k r by (auto simp: pos_ok_def split: if_splits)
qed

lemma get_mtf_val_refines:
  assumes "tables_ready a tables sels s" "pos_ok sels k p" "rd_inv s"
  shows "refines (get_mtf_val (length sels) p s) (parse_kth tables sels k (pending s))
     (\<lambda>y (x, p') t. x = int y \<and> y < a \<and> pos_ok sels (k + 1) p' \<and> rd_frame s t)"
proof -
  obtain groupNo groupPos gSel where p: "p = (groupNo, groupPos, gSel)" by (cases p) auto
  let ?q = "k div 50"
  have sym: "refines (andthen (receive_symbol (sels ! ?q) s) (\<lambda>lval s. Some (Go (lval, r) s)))
      (parse_symbol (tables ! (sels ! ?q)) (pending s))
      (\<lambda>y (x, p') t. x = int y \<and> y < a \<and> pos_ok sels (k + 1) p' \<and> rd_frame s t)"
    if q: "?q < length sels" and r: "pos_ok sels (k + 1) r" for r :: vpos
  proof -
    have "sels ! ?q \<in> set sels" using q by simp
    then have "sels ! ?q < length tables" using assms(1) unfolding tables_ready_def by blast
    then have "refines (receive_symbol (sels ! ?q) s) (parse_symbol (tables ! (sels ! ?q)) (pending s))
        (\<lambda>y x t. x = int y \<and> y < length (tables ! (sels ! ?q)) \<and> rd_frame s t)"
      using assms(1,3) by (intro receive_symbol_refines) (simp_all add: tables_ready_def)
    moreover have "length (tables ! (sels ! ?q)) = a" using \<open>_ < length tables\<close> assms(1) by (simp add: tables_ready_def)
    ultimately have "refines (receive_symbol (sels ! ?q) s) (parse_symbol (tables ! (sels ! ?q)) (pending s))
        (\<lambda>y x t. x = int y \<and> y < a \<and> rd_frame s t)" by simp
    then show ?thesis using r
      by (cases r; cases "parse_symbol (tables ! (sels ! ?q)) (pending s)") auto
  qed
  show ?thesis
  proof (cases "k mod 50 = 0")
    case False
    note step = pos_ok_step [OF assms(2) [unfolded p] False]
    then have "get_mtf_val (length sels) p s
        = andthen (receive_symbol (sels ! ?q) s) (\<lambda>lval s. Some (Go (lval, groupNo, groupPos - 1, gSel) s))"
      by (simp add: get_mtf_val_def next_group_def p)
    then show ?thesis
      using sym [OF step(1,4)] step(1) by (simp add: parse_kth_def)
  next
    case True
    then have k: "k = 50 * ?q" by auto
    have g: "groupNo = int ?q - 1" "groupPos = 0" "k \<le> 50 * length sels"
      using assms(2) True by (subst (asm) k, auto simp: pos_ok_def p)+
    show ?thesis
    proof (cases "?q < length sels")
      case q: True
      have "d_selector s ! ?q = sels ! ?q" "?q < length (d_selector s)"
        using assms(1) q nth_take [of ?q "length sels" "d_selector s"] by (auto simp: tables_ready_def dest: arg_cong [where f = length])
      then have "get_mtf_val (length sels) p s
          = andthen (receive_symbol (sels ! ?q) s) (\<lambda>lval s. Some (Go (lval, int ?q, 49, sels ! ?q) s))"
        using q g by (simp add: get_mtf_val_def next_group_def p Let_def)
      moreover have "pos_ok sels (k + 1) (int ?q, 49, sels ! ?q)"
      proof -
        have "(k + 1) div 50 = ?q" "(k + 50) div 50 = ?q + 1" "(k + 1) mod 50 = 1" "k + 1 \<le> 50 * length sels"
          using k q by (auto intro!: div_nat_eqI simp: mod_Suc True)
        then show ?thesis by (simp add: pos_ok_def)
      qed
      ultimately show ?thesis using sym [OF q] q by (simp add: parse_kth_def)
    next
      case q: False
      then show ?thesis using g by (simp add: get_mtf_val_def next_group_def p parse_kth_def)
    qed
  qed
qed

section \<open>The words of the code are read\<close>

lemma find_symbol_word:
  assumes ok: "lengths_ok L (length L) (Min (set L)) (Max (set L))" and i: "i < length L"
  defines "c \<equiv> code_of L (length L) (Min (set L)) i"
  shows "Min (set L) \<le> n \<Longrightarrow> n \<le> L ! i \<Longrightarrow>
     find_symbol L n (c div 2 ^ (L ! i - n)) (nbits (L ! i - n) c @ bs) = Found i bs"
proof (induction "L ! i - n" arbitrary: n)
  case 0
  let ?a = "length L" and ?l = "L ! i" and ?m = "Min (set L)"
  have "?l \<le> Max (set L)" "Max (set L) \<le> 20" using ok i by (simp_all add: lengths_ok_def)
  then have l: "n = ?l" "?l \<le> 20" "?l \<le> Max (set L)" using 0 by linarith+
  have c: "c = first_code L ?a ?m ?l + lcount L ?l i" using i by (simp add: c_def code_of_def)
  have "find_symbol L ?l c bs = Found (symbol_at L (c - first_code L ?a ?m ?l + below L ?a ?l)) bs"
    using l lcount_less [OF i, of L] by (subst find_symbol.simps) (simp add: c)
  moreover have "c - first_code L ?a ?m ?l + below L ?a ?l = below L ?a ?l + lcount L ?l i" by (simp add: c)
  ultimately show ?case using l(1) symbol_at_place [OF i] by simp
next
  case (Suc d)
  let ?a = "length L" and ?l = "L ! i" and ?m = "Min (set L)"
  have "?l \<le> Max (set L)" "Max (set L) \<le> 20" using ok i by (simp_all add: lengths_ok_def)
  then have n: "n < ?l" "?l \<le> 20" "?l \<le> Max (set L)" using Suc by linarith+
  have "(first_code L ?a ?m n + lcount L n ?a) * 2 ^ (?l - n) \<le> c"
    using first_code_step [of ?m n ?l L ?a] Suc.prems n by (auto simp: code_of_def c_def)
  then have above: "\<not> c div 2 ^ (?l - n) < first_code L ?a ?m n + lcount L n ?a"
    by (simp add: less_eq_div_iff_mult_less_eq not_less)
  have bits: "nbits (?l - n) c = bit c (?l - Suc n) # nbits (?l - Suc n) c"
    using n by (simp add: Suc_diff_Suc [symmetric] del: Suc_diff_Suc)
  have "int (2 * (c div 2 ^ (?l - n)) + of_bool (bit c (?l - Suc n))) = int (c div 2 ^ (?l - Suc n))"
    using div_bit_step [of n ?l c] n by (simp add: zdiv_int)
  then have step: "2 * (c div 2 ^ (?l - n)) + of_bool (bit c (?l - Suc n)) = c div 2 ^ (?l - Suc n)"
    by (simp only: of_nat_eq_iff)
  have "find_symbol L (Suc n) (c div 2 ^ (?l - Suc n)) (nbits (?l - Suc n) c @ bs) = Found i bs"
    using Suc n by auto
  then show ?case
    using above n by (subst find_symbol.simps) (simp add: bits pget_1 [unfolded One_nat_def] step [symmetric] del: Max_less_iff)
qed

lemma parse_symbol_word:
  assumes "lengths_ok L (length L) (Min (set L)) (Max (set L))" "kraft L (length L) (Max (set L))" "i < length L"
  shows "parse_symbol L (word_bits L i @ bs) = Found i bs"
proof -
  let ?m = "Min (set L)" and ?l = "L ! i"
  let ?c = "code_of L (length L) ?m i"
  have l: "?m \<le> ?l" using assms(1,3) by (simp add: lengths_ok_def)
  have "?c < 2 ^ ?l" using code_fits assms by blast
  then have "?c div 2 ^ (?l - ?m) < 2 ^ ?m" using l by (simp add: less_mult_imp_div_less power_add [symmetric])
  then have "nat (bits_val (nbits ?m (?c div 2 ^ (?l - ?m)))) = ?c div 2 ^ (?l - ?m)" by (simp add: bits_val_nbits)
  moreover have "nbits ?l ?c = nbits ?m (?c div 2 ^ (?l - ?m)) @ nbits (?l - ?m) ?c" by (rule nbits_split [OF l])
  ultimately show ?thesis
    using find_symbol_word [OF assms(1,3) _ l, of bs] by (simp add: parse_symbol_def word_bits_def pget_def)
qed

end
