(* ===== verification/BzValues.thy ===== *)
theory BzValues
  imports BzSymbol
begin

text \<open>
  The values of a block in \<open>BZ2_decompress\<close> (\<open>benchmarks/wasi/bzip2/decompress.c\<close>): runs of the
  byte in front of the move-to-front list, and bytes from the other places, are decoded into
  \<open>tt\<close> or \<open>ll16\<close> and counted in \<open>unzftab\<close>.
\<close>

section \<open>The code\<close>

text \<open>The result of signed arithmetic, which is undefined when it does not fit in \<open>Int32\<close>.\<close>

definition int32 :: "int \<Rightarrow> int option" where
  "int32 x = (if - (2 ^ 31) \<le> x \<and> x < 2 ^ 31 then Some x else None)"

text \<open>[bzip2/bzlib_private.h 118-118 BZ_RUNA]\<close>

definition BZ_RUNA :: int where
  "BZ_RUNA = 0"

text \<open>[bzip2/bzlib_private.h 119-119 BZ_RUNB]\<close>

definition BZ_RUNB :: int where
  "BZ_RUNB = 1"

text \<open>Loops over a state that can end with a return are defined by recursion on their results.\<close>

lemma andthen_bind:
  "andthen m f = Option.bind m (\<lambda>r. case r of Go x s \<Rightarrow> f x s | Stop c s \<Rightarrow> Some (Stop c s))"
  by (cases m; cases "the m") auto

lemma andthen_mono [partial_function_mono]:
  assumes "mono_option B" "\<And>x s. mono_option (\<lambda>f. C x s f)"
  shows "mono_option (\<lambda>f. andthen (B f) (\<lambda>x s. C x s f))"
  unfolding andthen_bind
proof (rule bind_mono [OF assms(1)])
  fix r
  show "mono_option (\<lambda>f. case r of Go x s \<Rightarrow> C x s f | Stop c s \<Rightarrow> Some (Stop c s))"
    using assms(2) by (cases r) (simp_all add: option.const_mono)
qed

text \<open>[bzip2/decompress.c 389-402 BZ2_decompress] The loop over the digits of a run.\<close>

partial_function (option) read_run ::
    "nat \<Rightarrow> int \<Rightarrow> int \<Rightarrow> int \<Rightarrow> vpos \<Rightarrow> dstate \<Rightarrow> (int \<times> int \<times> vpos) out option" where
  "read_run nSelectors es N nextSym p s =
     (if N \<ge> 2 * 1024 * 1024 then Some (Stop BZ_DATA_ERROR s)
      else do { es \<leftarrow> int32 (if nextSym = BZ_RUNA then es + (0 + 1) * N
                              else if nextSym = BZ_RUNB then es + (1 + 1) * N else es);
                N \<leftarrow> int32 (N * 2);
                andthen (get_mtf_val nSelectors p s) (\<lambda>(nextSym, p) s.
                  if nextSym = BZ_RUNA \<or> nextSym = BZ_RUNB then read_run nSelectors es N nextSym p s
                  else Some (Go (es, nextSym, p) s)) })"

text \<open>[bzip2/decompress.c 484-486 BZ2_decompress] A byte is stored.\<close>

definition put_byte :: "u8 \<Rightarrow> nat \<Rightarrow> dstate \<Rightarrow> dstate option" where
  "put_byte uc nblk s =
     (if d_smallDecompress s
      then do { a \<leftarrow> fput (100000 * d_blockSize100k s) (d_ll16 s) nblk (ucast uc); Some (s\<lparr>d_ll16 := a\<rparr>) }
      else do { a \<leftarrow> fput (100000 * d_blockSize100k s) (d_tt s) nblk (ucast uc); Some (s\<lparr>d_tt := a\<rparr>) })"

text \<open>[bzip2/decompress.c 408-421 BZ2_decompress] A run is stored.\<close>

fun put_run :: "u8 \<Rightarrow> nat \<Rightarrow> nat \<Rightarrow> nat \<Rightarrow> dstate \<Rightarrow> nat out option" where
  "put_run uc blkMAX 0 nblk s = Some (Go nblk s)"
| "put_run uc blkMAX (Suc es) nblk s =
     (if nblk \<ge> blkMAX then Some (Stop BZ_DATA_ERROR s)
      else do { s \<leftarrow> put_byte uc nblk s; put_run uc blkMAX es (nblk + 1) s })"

text \<open>[bzip2/decompress.c 406-406 BZ2_decompress] Bytes are counted, \<open>es\<close> or one at a time.\<close>

definition count_bytes :: "u8 \<Rightarrow> int \<Rightarrow> dstate \<Rightarrow> dstate option" where
  "count_bytes uc es s =
     do { n \<leftarrow> aget (d_unzftab s) (unat uc);
          n \<leftarrow> int32 (n + es);
          z \<leftarrow> aput (d_unzftab s) (unat uc) n;
          Some (s\<lparr>d_unzftab := z\<rparr>) }"

text \<open>[bzip2/decompress.c 404-421 BZ2_decompress] After the digits of a run.\<close>

definition take_run :: "nat \<Rightarrow> int \<Rightarrow> nat \<Rightarrow> dstate \<Rightarrow> nat out option" where
  "take_run blkMAX es nblk s =
     do { es \<leftarrow> int32 (es + 1);
          b \<leftarrow> aget (d_mtfbase s) 0;
          y \<leftarrow> iget (d_mtfa s) b;
          uc \<leftarrow> aget (d_seqToUnseq s) (unat y);
          s \<leftarrow> count_bytes uc es s;
          put_run uc blkMAX (nat es) nblk s }"

text \<open>[bzip2/decompress.c 427-487 BZ2_decompress] A byte that is not in front.\<close>

definition take_byte :: "nat \<Rightarrow> int \<Rightarrow> nat \<Rightarrow> dstate \<Rightarrow> nat out option" where
  "take_byte blkMAX nextSym nblk s =
     (if nblk \<ge> blkMAX then Some (Stop BZ_DATA_ERROR s)
      else do { (uc, mtfa, mtfbase) \<leftarrow> unmtf (unat (word_of_int (nextSym - 1) :: u32)) (d_mtfa s) (d_mtfbase s);
                let s = s\<lparr>d_mtfa := mtfa, d_mtfbase := mtfbase\<rparr>;
                c \<leftarrow> aget (d_seqToUnseq s) (unat uc);
                s \<leftarrow> count_bytes c 1 s;
                s \<leftarrow> put_byte c nblk s;
                Some (Go (nblk + 1) s) })"

text \<open>[bzip2/decompress.c 381-492 BZ2_decompress] The loop over the symbols.\<close>

partial_function (option) values_loop ::
    "int \<Rightarrow> nat \<Rightarrow> nat \<Rightarrow> int \<Rightarrow> vpos \<Rightarrow> nat \<Rightarrow> dstate \<Rightarrow> nat out option" where
  "values_loop EOB blkMAX nSelectors nextSym p nblk s =
     (if nextSym = EOB then Some (Go nblk s)
      else if nextSym = BZ_RUNA \<or> nextSym = BZ_RUNB
      then andthen (read_run nSelectors (-1) 1 nextSym p s) (\<lambda>(es, nextSym, p) s.
           andthen (take_run blkMAX es nblk s) (\<lambda>nblk s.
           values_loop EOB blkMAX nSelectors nextSym p nblk s))
      else andthen (take_byte blkMAX nextSym nblk s) (\<lambda>nblk s.
           andthen (get_mtf_val nSelectors p s) (\<lambda>(nextSym, p) s.
           values_loop EOB blkMAX nSelectors nextSym p nblk s)))"

text \<open>[bzip2/decompress.c 357-492 BZ2_decompress] The result is \<open>nblock\<close>.\<close>

definition receive_values :: "nat \<Rightarrow> dstate \<Rightarrow> nat out option" where
  "receive_values nSelectors s =
     do { let EOB = int (d_nInUse s) + 1;
          let blkMAX = 100000 * d_blockSize100k s;
          z \<leftarrow> for_in [0..<256] (\<lambda>i z. aput z i 0) (d_unzftab s);
          (mtfa, mtfbase) \<leftarrow> mtf_init (d_mtfa s) (d_mtfbase s);
          andthen (get_mtf_val nSelectors (-1, 0, 0) (s\<lparr>d_unzftab := z, d_mtfa := mtfa, d_mtfbase := mtfbase\<rparr>))
            (\<lambda>(nextSym, p) s. values_loop EOB blkMAX nSelectors nextSym p 0 s) }"

section \<open>The abstract decoder\<close>

text \<open>
  The symbols that \<open>rd\<close> reads: the digits of a run with the symbol that follows, and the
  bytes, where \<open>ys\<close> is the move-to-front list and at most \<open>nmax\<close> bytes are decoded.
\<close>

type_synonym symbols = "nat \<Rightarrow> bool list \<Rightarrow> nat found"

function parse_run :: "symbols \<Rightarrow> nat \<Rightarrow> nat list \<Rightarrow> bool list \<Rightarrow> (nat list \<times> nat \<times> nat) found" where
  "parse_run rd k ds bs = pbind (rd k bs) (\<lambda>v bs.
     if v < 2 then if length ds \<ge> 21 then Corrupt else parse_run rd (k + 1) (ds @ [v]) bs
     else Found (ds, k + 1, v) bs)"
  by pat_completeness auto
termination
  by (relation "measure (\<lambda>(rd, k, ds, bs). 21 - length ds)") auto

declare parse_run.simps [simp del]

text \<open>One symbol \<open>v\<close>, the last of \<open>k\<close>: the bytes it stands for, with the digits that follow.\<close>

definition parse_step :: "symbols \<Rightarrow> nat \<Rightarrow> nat \<Rightarrow> nat \<Rightarrow> u8 list \<Rightarrow> u8 list \<Rightarrow> bool list \<Rightarrow> (nat \<times> nat \<times> u8 list \<times> u8 list) found" where
  "parse_step rd nmax k v ys xs bs =
     (if v < 2
      then pbind (parse_run rd k [v] bs) (\<lambda>(ds, k, v) bs.
             if length xs + run_value ds > nmax then Corrupt
             else Found (k, v, ys, xs @ replicate (run_value ds) (ys ! 0)) bs)
      else if length xs \<ge> nmax then Corrupt
      else pbind (rd k bs) (\<lambda>w. Found (k + 1, w, front (v - 1) ys, xs @ [ys ! (v - 1)])))"

text \<open>Every step adds a byte, so \<open>nmax + 1\<close> steps are enough: \<open>n\<close> bounds what is left.\<close>

fun parse_loop :: "symbols \<Rightarrow> nat \<Rightarrow> nat \<Rightarrow> nat \<Rightarrow> nat \<Rightarrow> nat \<Rightarrow> u8 list \<Rightarrow> u8 list \<Rightarrow> bool list \<Rightarrow> u8 list found" where
  "parse_loop rd eob nmax 0 k v ys xs bs = (if v = eob then Found xs bs else Corrupt)"
| "parse_loop rd eob nmax (Suc n) k v ys xs bs =
     (if v = eob then Found xs bs
      else pbind (parse_step rd nmax k v ys xs bs) (\<lambda>(k, v, ys, xs). parse_loop rd eob nmax n k v ys xs))"

definition parse_values :: "symbols \<Rightarrow> nat \<Rightarrow> u8 list \<Rightarrow> bool list \<Rightarrow> u8 list found" where
  "parse_values rd nmax ys bs = pbind (rd 0 bs) (\<lambda>v. parse_loop rd (length ys + 1) nmax (nmax + 1) 1 v ys [])"

section \<open>A run is read\<close>

lemma run_value_snoc: "run_value (ds @ [v]) = run_value ds + (v + 1) * 2 ^ length ds"
  by (induction ds) (simp_all add: run_value_def algebra_simps)

lemma run_value_le: "\<forall>d \<in> set ds. d < 2 \<Longrightarrow> run_value ds + 2 \<le> 2 * 2 ^ length ds"
  by (induction ds) (auto simp: run_value_def)

lemma run_value_ge: "2 ^ length ds \<le> run_value ds + 1"
  by (induction ds) (auto simp: run_value_def)

lemma run_value_pos: "ds \<noteq> [] \<Longrightarrow> 0 < run_value ds"
  by (cases ds) (simp_all add: run_value_def)

lemma int32_Some [simp]: "- 2147483648 \<le> x \<Longrightarrow> x < 2147483648 \<Longrightarrow> int32 x = Some x"
  by (simp add: int32_def)

lemma tables_ready_rd: "tables_ready a tables sels s \<Longrightarrow> rd_frame s t \<Longrightarrow> tables_ready a tables sels t"
  by (erule tables_ready_frame) (rule rd_frame_groups, assumption)+

lemma read_run_refines:
  assumes "tables_ready a tables sels s" "pos_ok sels k p" "rd_inv s" "\<forall>d \<in> set ds. d < 2" "length ds \<le> 20" "v < 2"
  shows "refines (read_run (length sels) (int (run_value ds) - 1) (2 ^ length ds) (int v) p s)
     (parse_run (parse_kth tables sels) k (ds @ [v]) (pending s))
     (\<lambda>(ds', k', w) (es, x, p') t. es = int (run_value ds') - 1 \<and> x = int w \<and> 2 \<le> w \<and> w < a \<and> ds' \<noteq> [] \<and> length ds' \<le> 21
        \<and> (\<forall>d \<in> set ds'. d < 2) \<and> pos_ok sels k' p' \<and> rd_frame s t)"
  using assms
proof (induction "21 - length ds" arbitrary: k p s ds v rule: less_induct)
  case less
  let ?Q = "\<lambda>s (ds', k', w) (es, x, p') t. es = int (run_value ds') - 1 \<and> x = int w \<and> 2 \<le> w \<and> w < a \<and> ds' \<noteq> [] \<and> length ds' \<le> 21
        \<and> (\<forall>d \<in> set ds'. d < 2) \<and> pos_ok sels k' p' \<and> rd_frame s t"
  define es where "es = int (run_value (ds @ [v])) - 1"
  define N where "N = (2 :: int) ^ length (ds @ [v])"
  have dsv: "\<forall>d \<in> set (ds @ [v]). d < 2" using less.prems(4,6) by auto
  have N: "(2 :: int) ^ length ds \<le> 2 ^ 20" "N \<le> 2 ^ 21" "N = 2 ^ length ds * 2" "0 < N"
    using less.prems(5) power_increasing [of "length ds" 20 "2 :: int"] by (simp_all add: N_def)
  have "int (run_value (ds @ [v]) + 2) \<le> int (2 * 2 ^ length (ds @ [v]))"
    using run_value_le [OF dsv] by (simp only: of_nat_le_iff)
  then have "es < 2 * N" by (simp add: es_def N_def)
  then have es: "- 2147483648 \<le> es" "es < 2147483648" using N(2) by (simp_all add: es_def)
  have add: "(if int v = BZ_RUNA then int (run_value ds) - 1 + (0 + 1) * 2 ^ length ds
      else if int v = BZ_RUNB then int (run_value ds) - 1 + (1 + 1) * 2 ^ length ds else int (run_value ds) - 1) = es"
    using less.prems(6) by (auto simp: es_def run_value_snoc BZ_RUNA_def BZ_RUNB_def less_2_cases_iff)
  have N32: "int32 (2 ^ length ds * 2) = Some N" using N(2,4) unfolding N(3) [symmetric] by simp
  have step: "read_run (length sels) (int (run_value ds) - 1) (2 ^ length ds) (int v) p s
      = andthen (get_mtf_val (length sels) p s) (\<lambda>(nextSym, p) s.
          if nextSym = BZ_RUNA \<or> nextSym = BZ_RUNB then read_run (length sels) es N nextSym p s
          else Some (Go (es, nextSym, p) s))"
    using N(1) es N32 unfolding N(3) by (subst read_run.simps) (simp add: add)
  show ?case
    unfolding step parse_run.simps [of _ k]
  proof (rule refines_bind [OF get_mtf_val_refines [OF less.prems(1-3)]])
    fix y xp t assume t: "(case xp of (x, p') \<Rightarrow> \<lambda>t. x = int y \<and> y < a \<and> pos_ok sels (k + 1) p' \<and> rd_frame s t) t" "rd_inv t"
    obtain p' where xp: "xp = (int y, p')" and y: "y < a" "pos_ok sels (k + 1) p'" "rd_frame s t"
      using t(1) by (cases xp) auto
    have run: "int y = BZ_RUNA \<or> int y = BZ_RUNB \<longleftrightarrow> y < 2" by (auto simp: BZ_RUNA_def BZ_RUNB_def)
    show "refines ((case xp of (nextSym, p) \<Rightarrow> \<lambda>s. if nextSym = BZ_RUNA \<or> nextSym = BZ_RUNB
            then read_run (length sels) es N nextSym p s else Some (Go (es, nextSym, p) s)) t)
        (if y < 2 then if length (ds @ [v]) \<ge> 21 then Corrupt
           else parse_run (parse_kth tables sels) (k + 1) ((ds @ [v]) @ [y]) (pending t)
         else Found (ds @ [v], k + 1, y) (pending t)) (?Q s)"
    proof (cases "y < 2")
      case False
      then show ?thesis using y t(2) dsv less.prems(5) by (simp add: xp run es_def)
    next
      case True
      show ?thesis
      proof (cases "length (ds @ [v]) \<ge> 21")
        case 21: True
        then have "length (ds @ [v]) = 21" using less.prems(5) by simp
        then have "N = 2 ^ 21" by (simp only: N_def)
        then show ?thesis using True 21 by (subst read_run.simps) (simp add: xp run)
      next
        case False
        have "refines (read_run (length sels) (int (run_value (ds @ [v])) - 1) (2 ^ length (ds @ [v])) (int y) p' t)
            (parse_run (parse_kth tables sels) (k + 1) ((ds @ [v]) @ [y]) (pending t)) (?Q t)"
          using False y t(2) dsv True tables_ready_rd [OF less.prems(1) y(3)] by (intro less.hyps) auto
        then have "refines (read_run (length sels) es N (int y) p' t)
            (parse_run (parse_kth tables sels) (k + 1) ((ds @ [v]) @ [y]) (pending t)) (?Q s)"
          unfolding es_def N_def by (rule refines_mono) (auto intro: rd_frame_trans [OF y(3)])
        then show ?thesis using True False by (simp add: xp run)
      qed
    qed
  qed
qed

section \<open>Bytes are stored\<close>

text \<open>What the loop does not change.\<close>

definition values_frame :: "dstate \<Rightarrow> dstate \<Rightarrow> bool" where
  "values_frame s t \<longleftrightarrow> same_map s t \<and> same_selectors s t \<and> same_tables s t
     \<and> d_blockSize100k t = d_blockSize100k s \<and> d_smallDecompress t = d_smallDecompress s
     \<and> same_head s t"

lemma values_frame_refl [simp]: "values_frame s s"
  by (simp add: values_frame_def same_defs)

lemma values_frame_trans: "values_frame r s \<Longrightarrow> values_frame s t \<Longrightarrow> values_frame r t"
  by (simp add: values_frame_def same_defs)

lemma values_frame_rd: "rd_frame s t \<Longrightarrow> values_frame s t"
  using rd_frame_groups [of s t] by (simp add: values_frame_def same_values_def)

text \<open>The bytes \<open>xs\<close> are decoded: they are in \<open>tt\<close> or \<open>ll16\<close> and counted.\<close>

definition stored :: "u8 list \<Rightarrow> dstate \<Rightarrow> bool" where
  "stored xs s \<longleftrightarrow> (\<forall>i < length xs. if d_smallDecompress s then d_ll16 s i = ucast (xs ! i) else d_tt s i = ucast (xs ! i))"

definition has_counts :: "u8 list \<Rightarrow> dstate \<Rightarrow> bool" where
  "has_counts xs s \<longleftrightarrow> length (d_unzftab s) = 256 \<and> (\<forall>b. d_unzftab s ! unat b = int (count_list xs b))"

definition store_frame :: "dstate \<Rightarrow> dstate \<Rightarrow> bool" where
  "store_frame s t \<longleftrightarrow> values_frame s t \<and> d_unzftab t = d_unzftab s \<and> d_mtfa t = d_mtfa s \<and> d_mtfbase t = d_mtfbase s
     \<and> rd_inv t = rd_inv s \<and> pending t = pending s"

lemma store_frame_trans: "store_frame r s \<Longrightarrow> store_frame s t \<Longrightarrow> store_frame r t"
  using values_frame_trans [of r s t] by (simp add: store_frame_def)

lemma put_byte_ok:
  assumes "stored xs s" "length xs < 100000 * d_blockSize100k s"
  shows "runs (put_byte c (length xs) s) (\<lambda>t. stored (xs @ [c]) t \<and> store_frame s t)"
  using assms by (auto simp: put_byte_def stored_def store_frame_def values_frame_def same_defs rd_inv_def pending_def
      nth_append less_Suc_eq)

lemma put_run_ok:
  assumes "stored xs s" "length xs \<le> 100000 * d_blockSize100k s"
  shows "if length xs + es > 100000 * d_blockSize100k s
     then \<exists>t. put_run c (100000 * d_blockSize100k s) es (length xs) s = Some (Stop BZ_DATA_ERROR t)
     else \<exists>t. put_run c (100000 * d_blockSize100k s) es (length xs) s = Some (Go (length xs + es) t)
       \<and> stored (xs @ replicate es c) t \<and> store_frame s t"
  using assms
proof (induction es arbitrary: xs s)
  case 0
  then show ?case by (simp add: store_frame_def)
next
  case (Suc es)
  let ?m = "100000 * d_blockSize100k s"
  show ?case
  proof (cases "length xs < ?m")
    case True
    obtain t where t: "put_byte c (length xs) s = Some t" "stored (xs @ [c]) t" "store_frame s t"
      using put_byte_ok [OF Suc.prems(1) True, of c] by (auto simp: runs_iff_Some)
    have m: "d_blockSize100k t = d_blockSize100k s" using t(3) by (simp add: store_frame_def values_frame_def)
    show ?thesis
      using Suc.IH [OF t(2)] True t(1) store_frame_trans [OF t(3)]
      by (simp add: m replicate_app_Cons_same split: if_splits) blast
  qed (use Suc.prems(2) in simp)
qed

text \<open>The front of the list stands for the bytes in use.\<close>

definition has_front :: "bool list \<Rightarrow> u8 list \<Rightarrow> dstate \<Rightarrow> bool" where
  "has_front us ys s \<longleftrightarrow> rows_ok (d_mtfa s) (d_mtfbase s)
     \<and> (\<forall>x \<in> set (take (rank us 256) (mtf_list (d_mtfa s) (d_mtfbase s))). unat x < rank us 256)
     \<and> ys = map (\<lambda>x. used_bytes us ! unat x) (take (rank us 256) (mtf_list (d_mtfa s) (d_mtfbase s)))"

definition map_ready :: "bool list \<Rightarrow> dstate \<Rightarrow> bool" where
  "map_ready us s \<longleftrightarrow> 0 < rank us 256 \<and> d_nInUse s = rank us 256 \<and> length (d_seqToUnseq s) = 256
     \<and> take (rank us 256) (d_seqToUnseq s) = used_bytes us"

lemma map_ready_frame: "map_ready us s \<Longrightarrow> values_frame s t \<Longrightarrow> map_ready us t"
  by (simp add: map_ready_def values_frame_def same_map_def)

lemma unseq: "map_ready us s \<Longrightarrow> k < rank us 256 \<Longrightarrow> k < 256 \<and> d_seqToUnseq s ! k = used_bytes us ! k"
  using nth_take [of k "rank us 256" "d_seqToUnseq s"] rank_le [of us 256] by (simp add: map_ready_def)

lemma count_bytes_ok:
  assumes "has_counts xs s" "length xs \<le> 900000" "n < 2 ^ 23"
  shows "runs (count_bytes c (int n) s) (\<lambda>t. has_counts (xs @ replicate n c) t \<and> t = s\<lparr>d_unzftab := d_unzftab t\<rparr>)"
proof -
  have len: "length (d_unzftab s) = 256" using assms(1) by (simp add: has_counts_def)
  have inj: "unat c = unat b \<longleftrightarrow> c = b" for b by (simp add: word_unat_eq_iff)
  have "count_list xs c \<le> 900000" using count_le_length [of xs c] assms(2) by simp
  then have "int32 (d_unzftab s ! unat c + int n) = Some (int (count_list xs c + n))"
    using assms(1,3) by (simp add: has_counts_def)
  moreover have "count_list (replicate n c) b = (if b = c then n else 0)" for b
    by (induction n) auto
  ultimately show ?thesis
    using assms(1) len by (auto simp: count_bytes_def has_counts_def nth_list_update inj)
qed

text \<open>Between two symbols: what has been decoded, and the list.\<close>

definition decoded :: "bool list \<Rightarrow> u8 list \<Rightarrow> u8 list \<Rightarrow> dstate \<Rightarrow> bool" where
  "decoded us ys xs s \<longleftrightarrow> map_ready us s \<and> has_front us ys s \<and> stored xs s \<and> has_counts xs s
     \<and> length xs \<le> 100000 * d_blockSize100k s \<and> d_blockSize100k s \<le> 9"

lemma decoded_rd: "decoded us ys xs s \<Longrightarrow> rd_frame s t \<Longrightarrow> decoded us ys xs t"
  using rd_frame_same [of s t] by (simp add: decoded_def map_ready_def has_front_def stored_def has_counts_def)

lemma has_front_nth:
  assumes "has_front us ys s" "k < rank us 256"
  shows "ys ! k = used_bytes us ! unat (mtf_list (d_mtfa s) (d_mtfbase s) ! k)"
    "unat (mtf_list (d_mtfa s) (d_mtfbase s) ! k) < rank us 256"
proof -
  let ?L = "mtf_list (d_mtfa s) (d_mtfbase s)"
  have k: "k < length (take (rank us 256) ?L)" using assms(2) rank_le [of us 256] by simp
  have "take (rank us 256) ?L ! k \<in> set (take (rank us 256) ?L)" by (rule nth_mem [OF k])
  then show "unat (?L ! k) < rank us 256" using assms by (simp add: has_front_def)
  show "ys ! k = used_bytes us ! unat (?L ! k)" using assms k by (simp add: has_front_def)
qed

lemma take_run_ok:
  assumes d: "decoded us ys xs s" and n: "0 < n" "n < 2 ^ 23"
  shows "if length xs + n > 100000 * d_blockSize100k s
     then \<exists>t. take_run (100000 * d_blockSize100k s) (int n - 1) (length xs) s = Some (Stop BZ_DATA_ERROR t)
     else \<exists>t. take_run (100000 * d_blockSize100k s) (int n - 1) (length xs) s = Some (Go (length xs + n) t)
       \<and> decoded us ys (xs @ replicate n (ys ! 0)) t \<and> values_frame s t \<and> rd_inv t = rd_inv s \<and> pending t = pending s"
proof -
  let ?m = "100000 * d_blockSize100k s" and ?L = "mtf_list (d_mtfa s) (d_mtfbase s)"
  have r: "rows_ok (d_mtfa s) (d_mtfbase s)" "0 < rank us 256" using d by (simp_all add: decoded_def has_front_def map_ready_def)
  have b: "spaced (d_mtfbase s)" "length (d_mtfa s) = 4096" "1 \<le> d_mtfbase s ! 0" using rows_ok_spaced [OF r(1)] by auto
  have c: "cell (d_mtfbase s) 0 = nat (d_mtfbase s ! 0)" by (simp add: cell_def)
  have "d_mtfa s ! nat (d_mtfbase s ! 0) = ?L ! 0" by (simp add: mtf_list_cell c)
  moreover have "d_mtfbase s ! 0 < 4096" using cell_bound [OF b(1), of 0] c b(3) by simp
  ultimately have y: "iget (d_mtfa s) (d_mtfbase s ! 0) = Some (?L ! 0)" using b by simp
  have front: "has_front us ys s" "map_ready us s" using d by (simp_all add: decoded_def)
  have "d_seqToUnseq s ! unat (?L ! 0) = ys ! 0" "unat (?L ! 0) < 256" "length (d_seqToUnseq s) = 256"
    using unseq [OF front(2)] has_front_nth [OF front(1) r(2)] front(2) by (simp_all add: map_ready_def)
  moreover obtain t where t: "count_bytes (ys ! 0) (int n) s = Some t" "has_counts (xs @ replicate n (ys ! 0)) t"
      "t = s\<lparr>d_unzftab := d_unzftab t\<rparr>"
    using count_bytes_ok [of xs s n "ys ! 0"] d n by (auto simp: decoded_def runs_iff_Some)
  ultimately have run: "take_run ?m (int n - 1) (length xs) s = put_run (ys ! 0) ?m n (length xs) t"
    using n y b(1) by (simp add: take_run_def spaced_def)
  define u where "u = s\<lparr>d_unzftab := d_unzftab t\<rparr>"
  have u: "u = t" using t(3) by (simp add: u_def)
  have "stored xs u" "d_blockSize100k u = d_blockSize100k s" "values_frame s u" "rd_inv u = rd_inv s" "pending u = pending s"
      "d_mtfa u = d_mtfa s" "d_mtfbase u = d_mtfbase s"
    using d by (simp_all add: u_def decoded_def stored_def values_frame_def same_defs)
  note u' = this [unfolded u]
  have max: "length xs \<le> ?m" "d_blockSize100k s \<le> 9" using d by (simp_all add: decoded_def)
  have goal_ok: "decoded us ys (xs @ replicate n (ys ! 0)) v \<and> values_frame s v \<and> rd_inv v = rd_inv s \<and> pending v = pending s"
    if v: "stored (xs @ replicate n (ys ! 0)) v" "store_frame t v" and le: "length xs + n \<le> ?m" for v
  proof -
    have f: "values_frame s v" using values_frame_trans [OF u'(3)] v(2) by (simp add: store_frame_def)
    moreover have "map_ready us v" by (rule map_ready_frame [OF front(2) f])
    moreover have "has_front us ys v" "has_counts (xs @ replicate n (ys ! 0)) v" "rd_inv v = rd_inv s" "pending v = pending s"
      using v(2) front(1) u' t(2) by (simp_all add: store_frame_def has_front_def has_counts_def)
    moreover have "d_blockSize100k v = d_blockSize100k s" using f by (simp add: values_frame_def)
    ultimately show ?thesis using v(1) le max by (simp add: decoded_def)
  qed
  show ?thesis
    unfolding run using put_run_ok [OF u'(1), of n "ys ! 0"] max goal_ok by (auto simp: u'(2) split: if_splits)
qed

lemma take_front: "k < m \<Longrightarrow> m \<le> length ys \<Longrightarrow> take m (front k ys) = front k (take m ys)"
  by (rule nth_equalityI) (auto simp: length_front nth_front min_absorb1 min_absorb2)

lemma take_byte_ok:
  assumes d: "decoded us ys xs s" and v: "2 \<le> v" "v \<le> rank us 256"
  shows "if length xs \<ge> 100000 * d_blockSize100k s
     then \<exists>t. take_byte (100000 * d_blockSize100k s) (int v) (length xs) s = Some (Stop BZ_DATA_ERROR t)
     else \<exists>t. take_byte (100000 * d_blockSize100k s) (int v) (length xs) s = Some (Go (length xs + 1) t)
       \<and> decoded us (front (v - 1) ys) (xs @ [ys ! (v - 1)]) t \<and> values_frame s t \<and> rd_inv t = rd_inv s \<and> pending t = pending s"
proof (cases "length xs \<ge> 100000 * d_blockSize100k s")
  case True
  then show ?thesis by (simp add: take_byte_def)
next
  case False
  let ?m = "100000 * d_blockSize100k s" and ?L = "mtf_list (d_mtfa s) (d_mtfbase s)" and ?n = "rank us 256"
  have front: "has_front us ys s" "map_ready us s" and max: "length xs < ?m" "d_blockSize100k s \<le> 9"
    using d False by (simp_all add: decoded_def)
  have n: "v - 1 < ?n" "v - 1 < 256" "?n \<le> 256" using v rank_le [of us 256] by linarith+
  have nn: "unat (word_of_int (int v - 1) :: u32) = v - 1"
  proof -
    have "(word_of_int (int v - 1) :: u32) = of_nat (v - 1)" using v(1) by (simp add: of_nat_diff)
    then show ?thesis using n(2) by (simp add: unat_of_nat)
  qed
  obtain a b where mt: "unmtf (v - 1) (d_mtfa s) (d_mtfbase s) = Some (?L ! (v - 1), a, b)" "rows_ok a b"
      "mtf_list a b = front (v - 1) ?L"
    using unmtf_ok [of "d_mtfa s" "d_mtfbase s" "v - 1"] front(1) n(2) by (auto simp: has_front_def runs_iff_Some)
  let ?c = "ys ! (v - 1)"
  define u where "u = s\<lparr>d_mtfa := a, d_mtfbase := b\<rparr>"
  have c: "d_seqToUnseq s ! unat (?L ! (v - 1)) = ?c" "length (d_seqToUnseq s) = 256"
    using unseq [OF front(2)] has_front_nth [OF front(1) n(1)] front(2) by (simp_all add: map_ready_def)
  have "has_counts xs u" using d by (simp add: u_def decoded_def has_counts_def)
  then obtain t where t: "count_bytes ?c 1 u = Some t" "has_counts (xs @ [?c]) t" "t = u\<lparr>d_unzftab := d_unzftab t\<rparr>"
    using count_bytes_ok [of xs u 1 ?c] max by (auto simp: runs_iff_Some)
  define w where "w = u\<lparr>d_unzftab := d_unzftab t\<rparr>"
  have w: "w = t" using t(3) by (simp add: w_def)
  have "stored xs w" "d_blockSize100k w = d_blockSize100k s" "values_frame s w" "rd_inv w = rd_inv s" "pending w = pending s"
      "d_mtfa w = a" "d_mtfbase w = b"
    using d by (simp_all add: w_def u_def decoded_def stored_def values_frame_def same_defs)
  note t' = this [unfolded w]
  obtain x where x: "put_byte ?c (length xs) t = Some x" "stored (xs @ [?c]) x" "store_frame t x"
    using put_byte_ok [OF t'(1), of ?c] max(1) t'(2) by (auto simp: runs_iff_Some)
  have run: "take_byte ?m (int v) (length xs) s = Some (Go (length xs + 1) x)"
    using False mt(1) nn c t(1) x(1) by (simp add: take_byte_def Let_def flip: u_def)
  have f: "values_frame s x" using values_frame_trans [OF t'(3)] x(3) by (simp add: store_frame_def)
  have "has_front us (front (v - 1) ys) x"
  proof -
    have len: "length ?L = 256" by simp
    have "take ?n (mtf_list a b) = front (v - 1) (take ?n ?L)" using n len by (simp add: mt(3) take_front)
    moreover have "set (front (v - 1) (take ?n ?L)) = set (take ?n ?L)" using n len by (intro set_front) simp
    moreover have "front (v - 1) ys = map (\<lambda>x. used_bytes us ! unat x) (front (v - 1) (take ?n ?L))"
      using front(1) n len by (simp add: has_front_def front_map)
    ultimately show ?thesis using front(1) mt(2) x(3) t' by (simp add: has_front_def store_frame_def)
  qed
  moreover have "map_ready us x" by (rule map_ready_frame [OF front(2) f])
  moreover have "has_counts (xs @ [?c]) x" "rd_inv x = rd_inv s" "pending x = pending s" "d_blockSize100k x = d_blockSize100k s"
    using x(3) t(2) t' f by (simp_all add: store_frame_def has_counts_def values_frame_def)
  ultimately show ?thesis using False run x(2) f max by (simp add: decoded_def)
qed

section \<open>The loop\<close>

lemma parse_loop_run: "v \<noteq> eob \<Longrightarrow> v < 2 \<Longrightarrow> parse_loop rd eob nmax (Suc n) k v ys xs bs =
     pbind (parse_run rd k [v] bs) (\<lambda>(ds, k, v) bs.
        if length xs + run_value ds > nmax then Corrupt
        else parse_loop rd eob nmax n k v ys (xs @ replicate (run_value ds) (ys ! 0)) bs)"
  by (cases "parse_run rd k [v] bs") (auto simp: parse_step_def)

lemma parse_loop_byte: "v \<noteq> eob \<Longrightarrow> 2 \<le> v \<Longrightarrow> parse_loop rd eob nmax (Suc n) k v ys xs bs =
     (if length xs \<ge> nmax then Corrupt
      else pbind (rd k bs) (\<lambda>w. parse_loop rd eob nmax n (k + 1) w (front (v - 1) ys) (xs @ [ys ! (v - 1)])))"
  by (cases "rd k bs") (auto simp: parse_step_def)

lemma values_run_refines:
  assumes "tables_ready a tables sels s" "decoded us ys xs s" "pos_ok sels k p" "rd_inv s" "v < 2" "nmax = 100000 * d_blockSize100k s"
    and F: "\<And>k v xs' p t. decoded us ys xs' t \<Longrightarrow> length xs < length xs' \<Longrightarrow> values_frame s t \<Longrightarrow> rd_inv t \<Longrightarrow> pos_ok sels k p \<Longrightarrow> v < a
         \<Longrightarrow> refines (F (int v) p (length xs') t) (G k v ys xs' (pending t)) Q"
  shows "refines (andthen (read_run (length sels) (-1) 1 (int v) p s) (\<lambda>(es, nextSym, p) s.
           andthen (take_run nmax es (length xs) s) (\<lambda>nblk s. F nextSym p nblk s)))
     (pbind (parse_run (parse_kth tables sels) k [v] (pending s)) (\<lambda>(ds, k, v) bs.
        if length xs + run_value ds > nmax then Corrupt
        else G k v ys (xs @ replicate (run_value ds) (ys ! 0)) bs)) Q"
proof (rule refines_bind)
  show "refines (read_run (length sels) (-1) 1 (int v) p s) (parse_run (parse_kth tables sels) k [v] (pending s))
     (\<lambda>(ds', k', w) (es, x, p') t. es = int (run_value ds') - 1 \<and> x = int w \<and> 2 \<le> w \<and> w < a \<and> ds' \<noteq> [] \<and> length ds' \<le> 21
        \<and> (\<forall>d \<in> set ds'. d < 2) \<and> pos_ok sels k' p' \<and> rd_frame s t)"
    using read_run_refines [OF assms(1,3,4) _ _ assms(5), of "[]"] by (simp add: run_value_def)
  fix d e t
  assume t: "(case d of (ds', k', w) \<Rightarrow> \<lambda>(es, x, p') t. es = int (run_value ds') - 1 \<and> x = int w \<and> 2 \<le> w \<and> w < a \<and> ds' \<noteq> []
      \<and> length ds' \<le> 21 \<and> (\<forall>d \<in> set ds'. d < 2) \<and> pos_ok sels k' p' \<and> rd_frame s t) e t" "rd_inv t"
  obtain ds k' w where d: "d = (ds, k', w)" by (cases d) auto
  obtain p' where e: "e = (int (run_value ds) - 1, int w, p')" and w: "w < a" "ds \<noteq> []" "length ds \<le> 21" "\<forall>d \<in> set ds. d < 2"
      "pos_ok sels k' p'" "rd_frame s t"
    using t(1) by (cases e) (auto simp: d)
  have dec: "decoded us ys xs t" by (rule decoded_rd [OF assms(2) w(6)])
  have "run_value ds + 2 \<le> 2 * 2 ^ 21"
    using run_value_le [OF w(4)] power_increasing [OF w(3), of "2 :: nat"] by linarith
  then have n: "0 < run_value ds" "run_value ds < 2 ^ 23" using run_value_pos [OF w(2)] by simp_all
  have m: "100000 * d_blockSize100k t = nmax" using assms(6) rd_frame_same(17) [OF w(6)] by simp
  let ?xs = "xs @ replicate (run_value ds) (ys ! 0)"
  show "refines ((case e of (es, nextSym, p) \<Rightarrow> \<lambda>s. andthen (take_run nmax es (length xs) s) (\<lambda>nblk s. F nextSym p nblk s)) t)
     ((case d of (ds, k, v) \<Rightarrow> \<lambda>bs. if length xs + run_value ds > nmax then Corrupt
        else G k v ys (xs @ replicate (run_value ds) (ys ! 0)) bs) (pending t)) Q"
  proof (cases "length xs + run_value ds > nmax")
    case True
    then show ?thesis using take_run_ok [OF dec n] by (auto simp: d e m)
  next
    case False
    then obtain u where u: "take_run nmax (int (run_value ds) - 1) (length xs) t = Some (Go (length xs + run_value ds) u)"
        "decoded us ys ?xs u" "values_frame t u" "rd_inv u = rd_inv t" "pending u = pending t"
      using take_run_ok [OF dec n] unfolding m by auto
    have "refines (F (int w) p' (length ?xs) u) (G k' w ys ?xs (pending u)) Q"
      using u n w t(2) values_frame_trans [OF values_frame_rd [OF w(6)] u(3)] by (intro F) simp_all
    then show ?thesis using False u by (simp add: d e)
  qed
qed

lemma values_byte_refines:
  assumes "tables_ready a tables sels s" "decoded us ys xs s" "pos_ok sels k p" "rd_inv s" "2 \<le> v" "v \<le> rank us 256"
    and "nmax = 100000 * d_blockSize100k s"
    and F: "\<And>v ys' xs' p t. decoded us ys' xs' t \<Longrightarrow> length xs < length xs' \<Longrightarrow> values_frame s t \<Longrightarrow> rd_inv t \<Longrightarrow> pos_ok sels (k + 1) p
         \<Longrightarrow> v < a \<Longrightarrow> refines (F (int v) p (length xs') t) (G (k + 1) v ys' xs' (pending t)) Q"
  shows "refines (andthen (take_byte nmax (int v) (length xs) s) (\<lambda>nblk s.
           andthen (get_mtf_val (length sels) p s) (\<lambda>(nextSym, p) s. F nextSym p nblk s)))
     (if length xs \<ge> nmax then Corrupt
      else pbind (parse_kth tables sels k (pending s)) (\<lambda>w. G (k + 1) w (front (v - 1) ys) (xs @ [ys ! (v - 1)]))) Q"
proof (cases "length xs \<ge> nmax")
  case True
  then show ?thesis using take_byte_ok [OF assms(2,5,6)] by (auto simp: assms(7))
next
  case False
  let ?xs = "xs @ [ys ! (v - 1)]" and ?ys = "front (v - 1) ys"
  obtain t where t: "take_byte nmax (int v) (length xs) s = Some (Go (length ?xs) t)" "decoded us ?ys ?xs t"
      "values_frame s t" "rd_inv t = rd_inv s" "pending t = pending s"
    using False take_byte_ok [OF assms(2,5,6)] by (auto simp: assms(7))
  have ready: "tables_ready a tables sels t" using tables_ready_frame [OF assms(1)] t(3) by (simp add: values_frame_def)
  have inv: "rd_inv t" using t(4) assms(4) by simp
  have "refines (andthen (get_mtf_val (length sels) p t) (\<lambda>(nextSym, p) s. F nextSym p (length ?xs) s))
     (pbind (parse_kth tables sels k (pending t)) (\<lambda>w. G (k + 1) w ?ys ?xs)) Q"
  proof (rule refines_bind [OF get_mtf_val_refines [OF ready assms(3) inv]])
    fix y xp u assume u: "(case xp of (x, p') \<Rightarrow> \<lambda>u. x = int y \<and> y < a \<and> pos_ok sels (k + 1) p' \<and> rd_frame t u) u" "rd_inv u"
    obtain p' where xp: "xp = (int y, p')" and y: "y < a" "pos_ok sels (k + 1) p'" "rd_frame t u"
      using u(1) by (cases xp) auto
    have "refines (F (int y) p' (length ?xs) u) (G (k + 1) y ?ys ?xs (pending u)) Q"
      using decoded_rd [OF t(2) y(3)] values_frame_trans [OF t(3) values_frame_rd [OF y(3)]] u(2) y by (intro F) simp_all
    then show "refines ((case xp of (nextSym, p) \<Rightarrow> \<lambda>s. F nextSym p (length ?xs) s) u) (G (k + 1) y ?ys ?xs (pending u)) Q"
      by (simp add: xp)
  qed
  then show ?thesis using False t by simp
qed

lemma values_loop_refines:
  assumes "tables_ready (rank us 256 + 2) tables sels s" "decoded us ys xs s" "pos_ok sels k p" "rd_inv s" "v < rank us 256 + 2"
    and "nmax = 100000 * d_blockSize100k s" "nmax + 1 \<le> n + length xs"
  shows "refines (values_loop (int (rank us 256) + 1) nmax (length sels) (int v) p (length xs) s)
     (parse_loop (parse_kth tables sels) (rank us 256 + 1) nmax n k v ys xs (pending s))
     (\<lambda>out nb t. nb = length out \<and> (\<exists>ys. decoded us ys out t) \<and> values_frame s t)"
  using assms
proof (induction n arbitrary: s ys xs k p v)
  case 0
  then show ?case by (simp add: decoded_def)
next
  case (Suc n)
  let ?Q = "\<lambda>s out nb t. nb = length out \<and> (\<exists>ys. decoded us ys out t) \<and> values_frame s t"
  let ?F = "\<lambda>nextSym p nblk t. values_loop (int (rank us 256) + 1) nmax (length sels) nextSym p nblk t"
  let ?G = "\<lambda>k v ys xs. parse_loop (parse_kth tables sels) (rank us 256 + 1) nmax n k v ys xs"
  have rest: "refines (?F (int w) p' (length xs') t) (?G k' w ys' xs' (pending t)) (?Q s)"
    if t: "decoded us ys' xs' t" "length xs < length xs'" "values_frame s t" "rd_inv t" "pos_ok sels k' p'" "w < rank us 256 + 2"
    for k' w ys' xs' p' t
  proof -
    have "tables_ready (rank us 256 + 2) tables sels t"
      using tables_ready_frame [OF Suc.prems(1)] t(3) by (simp add: values_frame_def)
    moreover have "nmax = 100000 * d_blockSize100k t" using t(3) Suc.prems(6) by (simp add: values_frame_def)
    ultimately have "refines (?F (int w) p' (length xs') t) (?G k' w ys' xs' (pending t)) (?Q t)"
      using t Suc.prems(7) by (intro Suc.IH) simp_all
    then show ?thesis by (rule refines_mono) (use values_frame_trans [OF t(3)] in blast)
  qed
  consider "v = rank us 256 + 1" | "v < 2" "v \<noteq> rank us 256 + 1" | "2 \<le> v" "v \<le> rank us 256" using Suc.prems(5) by linarith
  then show ?case
  proof cases
    case 1
    then show ?thesis using Suc.prems by (subst values_loop.simps) (auto intro!: exI [of _ ys])
  next
    case 2
    then have run: "int v = BZ_RUNA \<or> int v = BZ_RUNB" "int v \<noteq> int (rank us 256) + 1" by (auto simp: BZ_RUNA_def BZ_RUNB_def)
    show ?thesis
      unfolding parse_loop_run [OF 2(2,1)] values_loop.simps [of _ nmax _ "int v"] if_P [OF run(1)] if_not_P [OF run(2)]
      by (rule values_run_refines [OF Suc.prems(1-4) 2(1) Suc.prems(6)]) (rule rest)
  next
    case 3
    then have byte: "\<not> (int v = BZ_RUNA \<or> int v = BZ_RUNB)" "int v \<noteq> int (rank us 256) + 1" "v \<noteq> rank us 256 + 1"
      by (auto simp: BZ_RUNA_def BZ_RUNB_def)
    show ?thesis
      unfolding parse_loop_byte [OF byte(3) 3(1)] values_loop.simps [of _ nmax _ "int v"] if_not_P [OF byte(1)] if_not_P [OF byte(2)]
      by (rule values_byte_refines [OF Suc.prems(1-4) 3 Suc.prems(6)]) (rule rest)
  qed
qed

section \<open>All values\<close>

definition values_shape :: "dstate \<Rightarrow> bool" where
  "values_shape s \<longleftrightarrow> length (d_unzftab s) = 256 \<and> length (d_mtfa s) = 4096 \<and> length (d_mtfbase s) = 16
     \<and> d_blockSize100k s \<le> 9"

lemma reset_counts: "length z = 256 \<Longrightarrow> runs (for_in [0..<256] (\<lambda>i z. aput z i (0 :: int)) z) (\<lambda>z. z = replicate 256 0)"
proof -
  assume z: "length z = 256"
  have "runs (for_in [0..<256] (\<lambda>i z. aput z i (0 :: int)) z) (\<lambda>z. length z = 256 \<and> (\<forall>k < 256. z ! k = 0))"
    by (rule runs_for_upt [where I = "\<lambda>i z. length z = 256 \<and> (\<forall>k < i. z ! k = 0)"]) (use z in \<open>auto simp: nth_list_update less_Suc_eq\<close>)
  then show ?thesis by (rule runs_mono) (auto intro: nth_equalityI)
qed

lemma first_front:
  assumes "rows_ok a b" "mtf_list a b = map of_nat [0..<256]" "d_mtfa s = a" "d_mtfbase s = b"
  shows "has_front us (used_bytes us) s"
proof -
  have m: "rank us 256 \<le> 256" by (rule rank_le)
  then have t: "take (rank us 256) (mtf_list a b) = map of_nat [0..<rank us 256]" by (simp add: assms(2) take_map)
  have len: "length (used_bytes us) = rank us 256" by (simp add: used_bytes_def rank_def)
  have "used_bytes us = map (\<lambda>x. used_bytes us ! unat x) (map of_nat [0..<rank us 256] :: u8 list)"
    using len m by (intro nth_equalityI) (simp_all add: unat_of_nat)
  moreover have "\<forall>x \<in> set (map of_nat [0..<rank us 256] :: u8 list). unat x < rank us 256"
    using m by (auto simp: unat_of_nat)
  ultimately show ?thesis using assms t by (simp add: has_front_def)
qed

lemma receive_values_refines:
  assumes ready: "tables_ready (rank us 256 + 2) tables sels s" and map: "map_ready us s" and shape: "values_shape s" and inv: "rd_inv s"
  shows "refines (receive_values (length sels) s)
     (parse_values (parse_kth tables sels) (100000 * d_blockSize100k s) (used_bytes us) (pending s))
     (\<lambda>out nb t. nb = length out \<and> (\<exists>ys. decoded us ys out t) \<and> values_frame s t)"
proof -
  let ?m = "100000 * d_blockSize100k s"
  obtain a b where ab: "mtf_init (d_mtfa s) (d_mtfbase s) = Some (a, b)" "rows_ok a b" "mtf_list a b = map of_nat [0..<256]"
    using mtf_init_ok [of "d_mtfa s" "d_mtfbase s"] shape by (auto simp: values_shape_def runs_iff_Some)
  have z: "for_in [0..<256] (\<lambda>i z. aput z i 0) (d_unzftab s) = Some (replicate 256 0)"
    using reset_counts [of "d_unzftab s"] shape by (simp add: values_shape_def runs_iff_Some)
  define u where "u = s\<lparr>d_unzftab := replicate 256 0, d_mtfa := a, d_mtfbase := b\<rparr>"
  have u: "values_frame s u" "rd_inv u" "pending u = pending s" "d_blockSize100k u = d_blockSize100k s"
    using inv by (simp_all add: u_def values_frame_def same_defs)
  have dec: "decoded us (used_bytes us) [] u"
    using map_ready_frame [OF map u(1)] first_front [OF ab(2,3), of u] shape
    by (simp add: u_def decoded_def stored_def has_counts_def values_shape_def)
  have ready': "tables_ready (rank us 256 + 2) tables sels u"
    using tables_ready_frame [OF ready] u(1) by (simp add: values_frame_def)
  have run: "receive_values (length sels) s = andthen (get_mtf_val (length sels) (-1, 0, 0) u)
      (\<lambda>(nextSym, p) s. values_loop (int (rank us 256) + 1) ?m (length sels) nextSym p 0 s)"
    using map z ab(1) by (simp add: receive_values_def Let_def map_ready_def u_def)
  have len: "length (used_bytes us) = rank us 256" by (simp add: used_bytes_def rank_def)
  have pos: "pos_ok sels 0 (-1, 0, 0)" by (simp add: pos_ok_def)
  show ?thesis
    unfolding run parse_values_def u(3) [symmetric] len
  proof (rule refines_bind [OF get_mtf_val_refines [OF ready' pos u(2)]])
    fix y xp t
    assume t: "(case xp of (x, p') \<Rightarrow> \<lambda>t. x = int y \<and> y < rank us 256 + 2 \<and> pos_ok sels (0 + 1) p' \<and> rd_frame u t) t" "rd_inv t"
    obtain p' where xp: "xp = (int y, p')" and y: "y < rank us 256 + 2" "pos_ok sels 1 p'" "rd_frame u t"
      using t(1) by (cases xp) auto
    have f: "values_frame s t" using values_frame_trans [OF u(1) values_frame_rd [OF y(3)]] .
    have "refines (values_loop (int (rank us 256) + 1) ?m (length sels) (int y) p' (length ([] :: u8 list)) t)
       (parse_loop (parse_kth tables sels) (rank us 256 + 1) ?m (?m + 1) 1 y (used_bytes us) [] (pending t))
       (\<lambda>out nb v. nb = length out \<and> (\<exists>ys. decoded us ys out v) \<and> values_frame t v)"
      using f y t(2) tables_ready_rd [OF ready' y(3)] decoded_rd [OF dec y(3)]
      by (intro values_loop_refines) (simp_all add: values_frame_def)
    then show "refines ((case xp of (nextSym, p) \<Rightarrow> \<lambda>s. values_loop (int (rank us 256) + 1) ?m (length sels) nextSym p 0 s) t)
       (parse_loop (parse_kth tables sels) (rank us 256 + 1) ?m (?m + 1) 1 y (used_bytes us) [] (pending t))
       (\<lambda>out nb v. nb = length out \<and> (\<exists>ys. decoded us ys out v) \<and> values_frame s v)"
      unfolding xp prod.case list.size by (rule refines_mono) (use values_frame_trans [OF f] in blast)
  qed
qed

end
