(* ===== verification/BzBlock.thy ===== *)
theory BzBlock
  imports BzValues
begin

text \<open>
  A block is received: the parts of \<open>BZ2_decompress\<close> (\<open>benchmarks/wasi/bzip2/decompress.c\<close>) from
  the mapping table to the values, one after the other, against an abstract parser of blocks;
  and the parser reads what the compressor writes.
\<close>

section \<open>The code\<close>

text \<open>[bzip2/decompress.c 267-492 BZ2_decompress] From the mapping table to the values.\<close>

definition receive_block :: "dstate \<Rightarrow> nat out option" where
  "receive_block s =
     andthen (receive_mapping s) (\<lambda>alphaSize s.
     andthen (receive_selectors s) (\<lambda>(nGroups, nSelectors) s.
     andthen (receive_tables alphaSize nGroups s) (\<lambda>_ s.
     do { s \<leftarrow> create_tables alphaSize nGroups s;
          receive_values nSelectors s })))"

section \<open>The parser\<close>

definition parse_block :: "nat \<Rightarrow> bool list \<Rightarrow> u8 list found" where
  "parse_block nmax bs =
     pbind (parse_mapping bs) (\<lambda>us bs.
     pbind (parse_selectors bs) (\<lambda>(g, sels) bs.
     pbind (parse_tables (rank us 256 + 2) g bs) (\<lambda>tables.
     parse_values (parse_kth tables sels) nmax (used_bytes us))))"

text \<open>The arrays of the decompressor have their sizes, and less than a byte is in the buffer.\<close>

definition d_ready :: "dstate \<Rightarrow> bool" where
  "d_ready s \<longleftrightarrow> rd_inv s \<and> map_shape s \<and> selectors_shape s \<and> tables_d_shape s \<and> values_shape s"

lemma built_ready:
  assumes t: "tables_d_shape t" "length tables = g" "g \<le> 6" "0 < a" "a \<le> 258"
    and rows: "\<forall>k < g. row_is a (d_len t ! k) (tables ! k)" "\<forall>k < g. table_built a t k"
    and sels: "set sels \<subseteq> {..<g}" "take (length sels) (d_selector t) = sels"
  shows "tables_ready a tables sels t"
proof -
  have "decodes (tables ! k) (d_minLens t ! k) (d_limit t ! k) (d_base t ! k) (d_perm t ! k)" "length (tables ! k) = a"
    if k: "k < g" for k
  proof -
    have L: "length (tables ! k) = a" "take a (d_len t ! k) = tables ! k" using rows(1) k by (auto simp: row_is_def)
    have "table_built a t k" using rows(2) k by blast
    then have "tables_ok (tables ! k) a (Min (set (tables ! k))) (Max (set (tables ! k))) (d_limit t ! k) (d_base t ! k) (d_perm t ! k)"
        "d_minLens t ! k = Min (set (tables ! k))"
      unfolding table_built_def L(2) using tables_ok_take [of "d_len t ! k" a] by (auto simp: L(2))
    then show "decodes (tables ! k) (d_minLens t ! k) (d_limit t ! k) (d_base t ! k) (d_perm t ! k)" "length (tables ! k) = a"
      using L(1) t(4,5) by (auto simp: decodes_def)
  qed
  then show ?thesis using t sels by (simp add: tables_ready_def tables_d_shape_def rect_def)
qed

lemma final_ready:
  assumes "decoded us ys out t" "values_frame w t" "rd_inv t" "map_shape w" "selectors_shape w" "tables_d_shape w"
  shows "d_ready t"
proof -
  have "rows_ok (d_mtfa t) (d_mtfbase t)" using assms(1) by (simp add: decoded_def has_front_def)
  then have "length (d_mtfa t) = 4096" "length (d_mtfbase t) = 16" by (simp_all add: rows_ok_def)
  then have "values_shape t" using assms(1) by (simp add: decoded_def has_counts_def values_shape_def)
  then show ?thesis
    using assms(2-6) by (simp add: d_ready_def values_frame_def map_shape_def selectors_shape_def tables_d_shape_def same_defs)
qed

text \<open>The code does what the parser does, and the state stays ready.\<close>

lemma receive_block_refines:
  assumes "d_ready s"
  shows "refines (receive_block s) (parse_block (100000 * d_blockSize100k s) (pending s))
     (\<lambda>out nb t. nb = length out \<and> stored out t \<and> has_counts out t \<and> length out \<le> 100000 * d_blockSize100k s
        \<and> d_blockSize100k t = d_blockSize100k s \<and> d_smallDecompress t = d_smallDecompress s
        \<and> same_head s t \<and> d_ready t)"
  unfolding receive_block_def parse_block_def
proof (rule refines_bind [OF receive_mapping_refines])
  let ?m = "100000 * d_blockSize100k s"
  let ?Q = "\<lambda>out nb t. nb = length out \<and> stored out t \<and> has_counts out t \<and> length out \<le> 100000 * d_blockSize100k s
        \<and> d_blockSize100k t = d_blockSize100k s \<and> d_smallDecompress t = d_smallDecompress s 
        \<and> same_head s t \<and> d_ready t"
  show "rd_inv s" "map_shape s" using assms by (simp_all add: d_ready_def)
  fix us a t
  assume t: "a = rank us 256 + 2 \<and> length us = 256 \<and> 0 < rank us 256
     \<and> d_inUse t = us \<and> d_nInUse t = rank us 256 \<and> take (rank us 256) (d_seqToUnseq t) = used_bytes us
     \<and> map_shape t \<and> same_selectors s t \<and> same_tables s t \<and> same_values s t" "rd_inv t"
  have a: "a = rank us 256 + 2" "0 < a" "a \<le> 258" using t(1) rank_le [of us 256] by simp_all
  have map: "map_ready us t" using t(1) by (simp add: map_ready_def map_shape_def)
  have shape: "selectors_shape t" using t(1) assms by (simp add: d_ready_def selectors_shape_def same_selectors_def)
  show "refines (andthen (receive_selectors t) (\<lambda>(nGroups, nSelectors) s.
     andthen (receive_tables a nGroups s) (\<lambda>_ s. do { s \<leftarrow> create_tables a nGroups s; receive_values nSelectors s })))
    (pbind (parse_selectors (pending t)) (\<lambda>(g, sels) bs.
     pbind (parse_tables (rank us 256 + 2) g bs) (\<lambda>tables.
     parse_values (parse_kth tables sels) ?m (used_bytes us)))) ?Q"
  proof (rule refines_bind [OF receive_selectors_refines [OF t(2) shape]])
    fix gs gn u
    assume u: "(case gs of (g, sels) \<Rightarrow> \<lambda>(g', n) u.
       g' = g \<and> 2 \<le> g \<and> g \<le> 6 \<and> n = length sels \<and> 0 < n \<and> n \<le> BZ_MAX_SELECTORS \<and> set sels \<subseteq> {..<g}
     \<and> take n (d_selector u) = sels
     \<and> selectors_shape u \<and> same_map t u \<and> same_tables t u \<and> same_values t u) gn u" "rd_inv u"
    obtain g sels where gs: "gs = (g, sels)" by (cases gs) auto
    have gn: "gn = (g, length sels)" and g: "g \<le> 6" "set sels \<subseteq> {..<g}" "take (length sels) (d_selector u) = sels"
        "same_map t u" "same_tables t u" "same_values t u"
      using u(1) by (cases gn; auto simp: gs)+
    have shape_u: "tables_d_shape u" using t(1) g(5) assms by (simp add: d_ready_def tables_d_shape_def same_tables_def)
    have "refines (andthen (receive_tables a g u) (\<lambda>_ s. do { s \<leftarrow> create_tables a g s; receive_values (length sels) s }))
      (pbind (parse_tables a g (pending u)) (\<lambda>tables. parse_values (parse_kth tables sels) ?m (used_bytes us))) ?Q"
    proof (rule refines_bind [OF receive_tables_refines [OF u(2) shape_u a(3) g(1)]])
      fix tables x v
      assume v: "got_tables u v \<and> length tables = g \<and> (\<forall>k < g. row_is a (d_len v ! k) (tables ! k))" "rd_inv v"
      have v_shape: "tables_d_shape v" "\<forall>k < g. row_is a (d_len v ! k) (tables ! k)" using v(1) by (simp_all add: got_tables_def)
      have "1 \<le> d_len v ! k ! i \<and> d_len v ! k ! i \<le> 20" if "k < g" "i < a" for k i
      proof -
        have L: "length (tables ! k) = a" "take a (d_len v ! k) = tables ! k" "\<forall>l \<in> set (tables ! k). 1 \<le> l \<and> l \<le> 20"
          using v_shape(2) that(1) by (auto simp: row_is_def)
        then have "d_len v ! k ! i = tables ! k ! i" using that(2) nth_take [of i a "d_len v ! k"] by simp
        then show ?thesis using L that(2) by auto
      qed
      then obtain w where w: "create_tables a g v = Some w" "got_tables v w" "d_len w = d_len v" "rd_inv w" "pending w = pending v"
          "\<forall>k < g. table_built a w k"
        using create_tables_ok [OF v_shape(1) a(2,3) g(1)] v(2) by (auto simp: runs_iff_Some)
      have same: "same_map t w" "same_selectors u w" "same_values s w" "tables_d_shape w"
        using v(1) w(2) g(4,6) t(1) by (auto simp: got_tables_def same_defs)
      have ready: "tables_ready (rank us 256 + 2) tables sels w"
        unfolding a(1) [symmetric]
        using same(2,4) v(1) g w(3,6) a(2,3) by (intro built_ready) (simp_all add: same_selectors_def)
      have "map_ready us w" using map same(1) by (simp add: map_ready_def same_map_def)
      moreover have "values_shape w" using same(3) assms by (simp add: d_ready_def values_shape_def same_values_def)
      ultimately have "refines (receive_values (length sels) w)
         (parse_values (parse_kth tables sels) (100000 * d_blockSize100k w) (used_bytes us) (pending w))
         (\<lambda>out nb t. nb = length out \<and> (\<exists>ys. decoded us ys out t) \<and> values_frame w t)"
        by (intro receive_values_refines ready w(4))
      moreover have "d_blockSize100k w = d_blockSize100k s" "d_smallDecompress w = d_smallDecompress s"
          "same_head s w"
        using same(3) by (simp_all add: same_values_def)
      moreover have "d_ready x" if "decoded us ys out x" "values_frame w x" "rd_inv x" for ys out x
        using that same w(2) t(1) u(1) by (intro final_ready [of us ys out x w]) (auto simp: gs gn map_shape_def selectors_shape_def got_tables_def same_defs)
      ultimately have "refines (receive_values (length sels) w)
         (parse_values (parse_kth tables sels) ?m (used_bytes us) (pending v)) ?Q"
        unfolding w(5) by (cases "parse_values (parse_kth tables sels) ?m (used_bytes us) (pending v)")
          (auto simp: decoded_def values_frame_def same_head_def)
      then show "refines (do { s \<leftarrow> create_tables a g v; receive_values (length sels) s })
         (parse_values (parse_kth tables sels) ?m (used_bytes us) (pending v)) ?Q"
        by (simp add: w(1))
    qed
    then show "refines ((case gn of (nGroups, nSelectors) \<Rightarrow> \<lambda>s. andthen (receive_tables a nGroups s)
          (\<lambda>_ s. do { s \<leftarrow> create_tables a nGroups s; receive_values nSelectors s })) u)
      ((case gs of (g, sels) \<Rightarrow> \<lambda>bs. pbind (parse_tables (rank us 256 + 2) g bs) (\<lambda>tables.
          parse_values (parse_kth tables sels) ?m (used_bytes us))) (pending u)) ?Q"
      by (simp add: gs gn a(1))
  qed
qed

section \<open>The parser reads what is written\<close>

lemma pget_nbits: "c < 2 ^ n \<Longrightarrow> pget n (nbits n c @ bs) = Found c bs"
  by (simp add: pget_def bits_val_nbits)

lemma pfor_words:
  "(\<And>i x bs. i \<in> set is \<Longrightarrow> body i x (w i @ bs) = Found (x @ v i) bs) \<Longrightarrow>
     pfor is body x (concat (map w is) @ bs) = Found (x @ concat (map v is)) bs"
  by (induction "is" arbitrary: x) simp_all

lemma parse_flags_bits: "length fs = n \<Longrightarrow> parse_flags n (fs @ bs) = Found fs bs"
proof -
  assume n: "length fs = n"
  have cat: "concat (map (\<lambda>i. [fs ! i]) [0..<n]) = fs" using n by (auto simp: concat_map_singleton intro: nth_equalityI)
  have "pfor [0..<n] (\<lambda>_ fs bs. pbind (pget 1 bs) (\<lambda>b. Found (fs @ [b = 1]))) [] (concat (map (\<lambda>i. [fs ! i]) [0..<n]) @ bs)
      = Found ([] @ concat (map (\<lambda>i. [fs ! i]) [0..<n])) bs"
    by (rule pfor_words) (simp add: pget_1 del: One_nat_def)
  then show ?thesis unfolding parse_flags_def cat by simp
qed

lemma concat_rows: "length us = n * 16 \<Longrightarrow> concat (map (\<lambda>i. map (\<lambda>j. us ! (i * 16 + j)) [0..<16]) [0..<n]) = us"
proof (induction n arbitrary: us)
  case (Suc n)
  have "concat (map (\<lambda>i. map (\<lambda>j. take (n * 16) us ! (i * 16 + j)) [0..<16]) [0..<n]) = take (n * 16) us"
    using Suc by simp
  moreover have "map (\<lambda>i. map (\<lambda>j. take (n * 16) us ! (i * 16 + j)) [0..<16]) [0..<n]
      = map (\<lambda>i. map (\<lambda>j. us ! (i * 16 + j)) [0..<16]) [0..<n]"
    by (intro map_cong refl nth_take) auto
  moreover have "map (\<lambda>j. us ! (n * 16 + j)) [0..<16] = drop (n * 16) us"
    using Suc.prems by (intro nth_equalityI) simp_all
  ultimately show ?case by simp
qed simp

lemma parse_mapping_bits:
  assumes "length us = 256" "True \<in> set us"
  shows "parse_mapping (mapping_bits us @ bs) = Found us bs"
proof -
  let ?row = "\<lambda>i. map (\<lambda>j. us ! (i * 16 + j)) [0..<16]"
  let ?used = "map (row_used us) [0..<16]"
  let ?w = "\<lambda>i. if row_used us i then ?row i else []"
  have "parse_rows ?used (concat (map ?w [0..<16]) @ bs) = Found ([] @ concat (map ?row [0..<16])) bs"
    unfolding parse_rows_def
  proof (rule pfor_words)
    fix i x cs assume i: "i \<in> set [0..<16 :: nat]"
    show "(if ?used ! i then pbind (parse_flags 16 (?w i @ cs)) (\<lambda>fs. Found (x @ fs)) else Found (x @ replicate 16 False) (?w i @ cs))
        = Found (x @ ?row i) cs"
    proof (cases "row_used us i")
      case True
      then show ?thesis using i by (simp add: parse_flags_bits)
    next
      case False
      then have "?row i = replicate 16 False" by (intro nth_equalityI) (auto simp: row_used_def)
      then show ?thesis using False i by simp
    qed
  qed
  moreover have "concat (map ?row [0..<16]) = us" by (rule concat_rows) (simp add: assms(1))
  ultimately show ?thesis
    using assms(2) by (simp add: parse_mapping_def mapping_bits_def parse_flags_bits)
qed

lemma parse_unary_bits: "j + m < g \<Longrightarrow> parse_unary g j (unary m @ bs) = Found (j + m) bs"
proof (induction m arbitrary: j)
  case 0
  then show ?case by (subst parse_unary.simps) (simp add: unary_def pget_1 del: One_nat_def)
next
  case (Suc m)
  have "parse_unary g (j + 1) (unary m @ bs) = Found (j + Suc m) bs" using Suc.IH [of "j + 1"] Suc.prems by simp
  then show ?case using Suc.prems by (subst parse_unary.simps) (simp add: unary_def pget_1 del: One_nat_def)
qed

lemma unplaces_places: "set xs \<subseteq> set ys \<Longrightarrow> unplaces ys (places ys xs) = xs"
proof (induction ys xs rule: places.induct)
  case (2 ys x xs)
  then have p: "place x ys < length ys" "ys ! place x ys = x" by (simp_all add: place_less nth_place)
  have "set xs \<subseteq> set (front (place x ys) ys)" using 2(2) set_front [OF p(1)] by simp
  then show ?case using 2(1) p(2) by simp
qed simp

lemma parse_selectors_bits:
  assumes "2 \<le> g" "g \<le> 6" "set sels \<subseteq> {..<g}" "0 < length sels" "length sels \<le> BZ_MAX_SELECTORS"
  shows "parse_selectors (selector_bits g (places [0..<g] sels) @ bs) = Found (g, sels) bs"
proof -
  let ?ms = "places [0..<g] sels"
  have sub: "set sels \<subseteq> set [0..<g]" using assms(3) by auto
  have less: "m < g" if "m \<in> set ?ms" for m using places_less [OF sub that] by simp
  have max: "length sels < 32768" "take BZ_MAX_SELECTORS ?ms = ?ms" using assms(5) by (simp_all add: BZ_MAX_SELECTORS_def)
  have cat: "concat (map (\<lambda>i. unary (?ms ! i)) [0..<length ?ms]) = concat (map unary ?ms)"
    by (intro arg_cong [where f = concat] nth_equalityI) simp_all
  have "pfor [0..<length ?ms] (\<lambda>_ ms bs. pbind (parse_unary g 0 bs) (\<lambda>m. Found (ms @ [m]))) []
      (concat (map (\<lambda>i. unary (?ms ! i)) [0..<length ?ms]) @ bs)
      = Found ([] @ concat (map (\<lambda>i. [?ms ! i]) [0..<length ?ms])) bs"
    by (rule pfor_words) (use less in \<open>simp add: parse_unary_bits\<close>)
  then have places: "parse_places g (length sels) (concat (map unary ?ms) @ bs) = Found ?ms bs"
    unfolding parse_places_def cat by (simp add: map_nth [of ?ms, simplified])
  have "g < 2 ^ 3" "length sels < 2 ^ 15" using assms(2) max by simp_all
  note pg = pget_nbits [OF this(1)] pget_nbits [OF this(2)]
  have "\<not> (g < 2 \<or> g > 6)" "\<not> length sels < 1" using assms by auto
  then show ?thesis
    using places unplaces_places [OF sub] by (simp add: parse_selectors_def selector_bits_def pg max(2) del: One_nat_def)
qed

lemma parse_length_up:
  "1 \<le> cur \<Longrightarrow> cur + int n \<le> 20 \<Longrightarrow> parse_length cur (concat (replicate n [True, False]) @ False # bs) = Found (cur + int n) bs"
proof (induction n arbitrary: cur)
  case (Suc n)
  then show ?case using Suc.IH [of "cur + 1"] by (subst parse_length.simps) simp
qed (subst parse_length.simps, simp)

lemma parse_length_down:
  "1 \<le> cur - int n \<Longrightarrow> cur \<le> 20 \<Longrightarrow> parse_length cur (concat (replicate n [True, True]) @ False # bs) = Found (cur - int n) bs"
proof (induction n arbitrary: cur)
  case (Suc n)
  then show ?case using Suc.IH [of "cur - 1"] by (subst parse_length.simps) simp
qed (subst parse_length.simps, simp)

lemma parse_length_bits:
  assumes "1 \<le> c" "c \<le> 20" "1 \<le> l" "l \<le> 20"
  shows "parse_length (int c) (delta_bits c l @ bs) = Found (int l) bs"
proof (cases "c \<le> l")
  case True
  then show ?thesis using assms parse_length_up [of "int c" "l - c" bs] by (simp add: delta_bits_def)
next
  case False
  then show ?thesis using assms parse_length_down [of "int c" "c - l" bs] by (simp add: delta_bits_def)
qed

lemma parse_lengths_bits:
  "1 \<le> c \<Longrightarrow> c \<le> 20 \<Longrightarrow> \<forall>l \<in> set ls. 1 \<le> l \<and> l \<le> 20 \<Longrightarrow> length is = length ls \<Longrightarrow>
     \<exists>d. pfor is (\<lambda>_ (cur, ls) bs. pbind (parse_length cur bs) (\<lambda>l. Found (l, ls @ [nat l]))) (int c, rs) (lengths_bits c ls @ bs)
       = Found (d, rs @ ls) bs"
proof (induction ls arbitrary: c rs "is")
  case (Cons l ls)
  then obtain i is' where is': "is = i # is'" "length is' = length ls" by (cases "is") auto
  then show ?case using Cons.IH [of l is' "rs @ [l]"] Cons.prems by (simp add: parse_length_bits)
qed simp

lemma parse_table_bits:
  assumes "length L = a" "0 < a" "\<forall>l \<in> set L. 1 \<le> l \<and> l \<le> 20"
  shows "parse_table a (table_bits L @ bs) = Found L bs"
proof -
  have "L ! 0 \<in> set L" using assms(1,2) by simp
  then have l: "1 \<le> L ! 0" "L ! 0 \<le> 20" using assms(3) by blast+
  then have "L ! 0 < 2 ^ 5" by simp
  moreover obtain d where "pfor [0..<a] (\<lambda>_ (cur, ls) bs. pbind (parse_length cur bs) (\<lambda>l. Found (l, ls @ [nat l]))) (int (L ! 0), [])
      (lengths_bits (L ! 0) L @ bs) = Found (d, [] @ L) bs"
    using parse_lengths_bits [OF l assms(3), of "[0..<a]" "[]" bs] assms(1) by auto
  ultimately show ?thesis by (simp add: parse_table_def table_bits_def pget_nbits)
qed

lemma parse_tables_bits:
  assumes "\<forall>L \<in> set tables. length L = a \<and> (\<forall>l \<in> set L. 1 \<le> l \<and> l \<le> 20)" "0 < a"
  shows "parse_tables a (length tables) (concat (map table_bits tables) @ bs) = Found tables bs"
proof -
  have cat: "concat (map (\<lambda>i. table_bits (tables ! i)) [0..<length tables]) = concat (map table_bits tables)"
    by (intro arg_cong [where f = concat] nth_equalityI) simp_all
  have table: "parse_table a (table_bits (tables ! i) @ bs) = Found (tables ! i) bs" if "i < length tables" for i bs
    using assms that by (intro parse_table_bits) auto
  have tab: "concat (map (\<lambda>i. [tables ! i]) [0..<length tables]) = tables"
    by (auto simp: concat_map_singleton intro: nth_equalityI)
  have "pfor [0..<length tables] (\<lambda>_ ts bs. pbind (parse_table a bs) (\<lambda>L. Found (ts @ [L]))) []
      (concat (map (\<lambda>i. table_bits (tables ! i)) [0..<length tables]) @ bs)
      = Found ([] @ concat (map (\<lambda>i. [tables ! i]) [0..<length tables])) bs"
    by (rule pfor_words) (simp add: table)
  then show ?thesis unfolding parse_tables_def cat tab by simp
qed

section \<open>The values are read\<close>

text \<open>The symbols \<open>cs\<close>, from number \<open>k\<close> on, are read from \<open>b\<close>, and \<open>bs\<close> is left.\<close>

fun reads :: "symbols \<Rightarrow> nat \<Rightarrow> nat list \<Rightarrow> bool list \<Rightarrow> bool list \<Rightarrow> bool" where
  "reads rd k [] b bs \<longleftrightarrow> b = bs"
| "reads rd k (c # cs) b bs \<longleftrightarrow> (\<exists>b'. rd k b = Found c b' \<and> reads rd (k + 1) cs b' bs)"

lemma parse_run_reads:
  "reads rd k (ds' @ w # cs) b bs \<Longrightarrow> \<forall>d \<in> set ds'. d < 2 \<Longrightarrow> 2 \<le> w \<Longrightarrow> length (ds @ ds') \<le> 21 \<Longrightarrow>
     \<exists>b'. parse_run rd k ds b = Found (ds @ ds', k + length ds' + 1, w) b' \<and> reads rd (k + length ds' + 1) cs b' bs"
proof (induction ds' arbitrary: k ds b)
  case Nil
  then show ?case by (subst parse_run.simps) auto
next
  case (Cons d ds')
  then obtain b' where b': "rd k b = Found d b'" "reads rd (k + 1) (ds' @ w # cs) b' bs" by auto
  from Cons.IH [OF b'(2), of "ds @ [d]"] Cons.prems
  obtain b'' where "parse_run rd (k + 1) (ds @ [d]) b' = Found (ds @ d # ds', k + length (d # ds') + 1, w) b''"
      "reads rd (k + length (d # ds') + 1) cs b'' bs" by auto
  then show ?case using b'(1) Cons.prems by (subst parse_run.simps) simp
qed

lemma mtf_decode_no_end: "\<forall>d \<in> set ds'. d < 2 \<Longrightarrow> mtf_decode eob ys ds ds' = None"
  by (induction ds' arbitrary: ds) simp_all

lemma parse_loop_reads:
  assumes "reads rd k cs b bs" "mtf_decode eob ys [] (v # cs) = Some out" "length xs + length out \<le> nmax" "nmax \<le> 900000"
    "nmax + 1 \<le> n + length xs" "2 \<le> eob"
  shows "parse_loop rd eob nmax n k v ys xs b = Found (xs @ out) bs"
  using assms
proof (induction "length cs" arbitrary: cs k b ys v out xs n rule: less_induct)
  case less
  obtain m where n: "n = Suc m" using less.prems(3,5) by (cases n) auto
  consider "v = eob" | "v < 2" "v \<noteq> eob" | "2 \<le> v" "v \<noteq> eob" by linarith
  then show ?case
  proof cases
    case 1
    then show ?thesis using less.prems(1,2,6) by (auto simp: n run_value_def Let_def split: if_splits)
  next
    case 2
    define ds where "ds = v # takeWhile (\<lambda>d. d < 2) cs"
    have ds: "\<forall>d \<in> set ds. d < 2" "ds \<noteq> []" using 2(1) by (auto simp: ds_def dest: set_takeWhileD)
    obtain w cs' where cs: "cs = takeWhile (\<lambda>d. d < 2) cs @ w # cs'" "2 \<le> w"
    proof (cases "dropWhile (\<lambda>d. d < 2) cs")
      case Nil
      then have "\<forall>d \<in> set (v # cs). d < 2" using 2(1) by (simp add: dropWhile_eq_Nil_conv)
      then show ?thesis using mtf_decode_no_end [of "v # cs" eob ys "[]"] less.prems(2) by simp
    next
      case (Cons w cs')
      then have "\<not> w < 2" using hd_dropWhile [of "\<lambda>d. d < 2" cs] by auto
      then show ?thesis using that [of w cs'] Cons takeWhile_dropWhile_id [of "\<lambda>d. d < 2" cs] by simp
    qed
    have vcs: "v # cs = ds @ w # cs'" using cs(1) by (simp add: ds_def)
    let ?run = "replicate (run_value ds) (ys ! 0)"
    have "mtf_decode eob ys ds (w # cs') = Some out"
      using less.prems(2) mtf_decode_digits [OF ds(1), of eob ys "[]" "w # cs'"] unfolding vcs by simp
    then obtain out' where out: "out = ?run @ out'" "mtf_decode eob ys [] (w # cs') = Some out'"
      using cs(2) by (auto simp: run_value_def Let_def split: if_splits)
    have le: "length xs + run_value ds + length out' \<le> nmax" using less.prems(3) out(1) by simp
    have "2 ^ length ds \<le> (900001 :: nat)" using run_value_ge [of ds] le less.prems(4) by linarith
    also have "\<dots> < 2 ^ 20" by simp
    finally have len: "length ds < 20" by (simp only: power_strict_increasing_iff)
    let ?ds = "takeWhile (\<lambda>d. d < 2) cs"
    have "reads rd k (?ds @ w # cs') b bs" using less.prems(1) by (subst (asm) cs(1))
    moreover have "\<forall>d \<in> set ?ds. d < 2" "length ([v] @ ?ds) \<le> 21" "[v] @ ?ds = ds" using ds(1) len by (simp_all add: ds_def)
    ultimately obtain b' where run: "parse_run rd k [v] b = Found (ds, k + length ?ds + 1, w) b'"
        "reads rd (k + length ?ds + 1) cs' b' bs"
      using parse_run_reads [of rd k ?ds w cs' b bs "[v]"] cs(2) by metis
    define k' where "k' = k + length ?ds + 1"
    note run = run [folded k'_def]
    have "length cs' < length cs" using arg_cong [OF cs(1), of length] by simp
    then have "parse_loop rd eob nmax m k' w ys (xs @ ?run) b' = Found ((xs @ ?run) @ out') bs"
      using run(2) out(2) le less.prems(4,5,6) run_value_pos [OF ds(2)] by (intro less.hyps) (simp_all add: n)
    then show ?thesis using le by (simp only: n parse_loop_run [OF 2(2,1)] run(1)) (simp add: out(1))
  next
    case 3
    then obtain out' where out: "out = ys ! (v - 1) # out'" "mtf_decode eob (front (v - 1) ys) [] cs = Some out'"
      using less.prems(2) by (auto simp: run_value_def Let_def split: if_splits)
    then obtain w cs' where cs: "cs = w # cs'" by (cases cs) auto
    obtain b' where b': "rd k b = Found w b'" "reads rd (k + 1) cs' b' bs" using less.prems(1) by (auto simp: cs)
    have "parse_loop rd eob nmax m (k + 1) w (front (v - 1) ys) (xs @ [ys ! (v - 1)]) b' = Found ((xs @ [ys ! (v - 1)]) @ out') bs"
      using b'(2) out less.prems(3-6) by (intro less.hyps) (simp_all add: cs n)
    moreover have "\<not> length xs \<ge> nmax" using less.prems(3) out(1) by simp
    ultimately show ?thesis by (simp only: n parse_loop_byte [OF 3(2,1)] b'(1)) (simp add: out(1))
  qed
qed

lemma reads_words:
  "(\<And>i bs. k \<le> i \<Longrightarrow> i < length vs \<Longrightarrow> rd i (w i @ bs) = Found (vs ! i) bs) \<Longrightarrow>
     reads rd k (drop k vs) (concat (map w [k..<length vs]) @ bs) bs"
proof (induction "length vs - k" arbitrary: k)
  case (Suc n)
  then have k: "k < length vs" by simp
  have "reads rd (Suc k) (drop (Suc k) vs) (concat (map w [Suc k..<length vs]) @ bs) bs" using Suc by simp
  then show ?case using Suc.prems k by (simp add: upt_conv_Cons Cons_nth_drop_Suc [symmetric])
qed simp

lemma plan_table:
  assumes "plan_ok a n tables sels" "0 < a" "L \<in> set tables"
  shows "length L = a" "lengths_ok L a (Min (set L)) (Max (set L))" "kraft L a (Max (set L))" "\<forall>l \<in> set L. 1 \<le> l \<and> l \<le> 20"
proof -
  show a: "length L = a" using assms by (simp add: plan_ok_def)
  then have L: "full_table a L" "take a L = L" "a \<le> length L" using assms by (simp_all add: plan_ok_def)
  from full_table_lengths [OF L(1) assms(2) L(3)]
  show ok: "lengths_ok L a (Min (set L)) (Max (set L))" "kraft L a (Max (set L))" by (simp_all add: L(2))
  show "\<forall>l \<in> set L. 1 \<le> l \<and> l \<le> 20" using L(1) a by (force simp: full_table_def set_conv_nth)
qed

text \<open>The parser reads the block that the compressor has written.\<close>

lemma parse_block_bits:
  assumes us: "length us = 256" "True \<in> set us" and plan: "plan_ok (rank us 256 + 2) (length vs) tables sels"
    and vs: "\<forall>v \<in> set vs. v < rank us 256 + 2" "length vs \<le> 900001"
    and dec: "mtf_decode (rank us 256 + 1) (used_bytes us) [] vs = Some out" "length out \<le> nmax" "nmax \<le> 900000"
  shows "parse_block nmax (block_bits us tables sels vs @ bs) = Found out bs"
proof -
  let ?a = "rank us 256 + 2"
  have tab: "length tables = g \<Longrightarrow> 2 \<le> g \<and> g \<le> 6" "length sels = (length vs + 49) div 50" "set sels \<subseteq> {..<length tables}" for g
    using plan by (auto simp: plan_ok_def)
  have vs0: "0 < length vs" using dec(1) by (cases vs) auto
  then have sels: "0 < length sels" "length sels \<le> BZ_MAX_SELECTORS"
    using vs(2) vs0 unfolding tab(2) BZ_MAX_SELECTORS_def by (cases vs; simp add: div_greater_zero_iff)+
  have rank: "rank us 256 \<noteq> 0" using rank_0_iff [OF us(1)] us(2) by blast
  have len: "length (used_bytes us) = rank us 256" by (simp add: used_bytes_def rank_def)
  let ?rd = "parse_kth tables sels"
  have word: "?rd i (word_bits (tables ! (sels ! (i div 50))) (vs ! i) @ bs) = Found (vs ! i) bs" if i: "i < length vs" for i bs
  proof -
    have q: "i div 50 < length sels" unfolding tab(2) using div_le_mono [of "i + 50" "length vs + 49" 50] i by simp
    then have "sels ! (i div 50) < length tables" using tab(3) nth_mem by blast
    then have L: "tables ! (sels ! (i div 50)) \<in> set tables" by simp
    have "vs ! i < ?a" using vs(1) i by simp
    then show ?thesis
      using plan_table [OF plan _ L] q by (simp add: parse_kth_def parse_symbol_word)
  qed
  have "reads ?rd 0 (drop 0 vs) (concat (map (\<lambda>i. word_bits (tables ! (sels ! (i div 50))) (vs ! i)) [0..<length vs]) @ bs) bs"
    by (rule reads_words) (rule word)
  then have reads: "reads ?rd 0 vs (data_bits tables sels vs @ bs) bs" by (simp add: data_bits_def)
  then obtain v cs b' where v: "vs = v # cs" "?rd 0 (data_bits tables sels vs @ bs) = Found v b'" "reads ?rd 1 cs b' bs"
    using vs0 by (cases vs) auto
  have "parse_loop ?rd (rank us 256 + 1) nmax (nmax + 1) 1 v (used_bytes us) [] b' = Found ([] @ out) bs"
    using dec v(1) rank by (intro parse_loop_reads [OF v(3)]) simp_all
  then have vals: "parse_values ?rd nmax (used_bytes us) (data_bits tables sels vs @ bs) = Found out bs"
    using v(2) by (simp add: parse_values_def len)
  have tables: "parse_tables ?a (length tables) (concat (map table_bits tables) @ bs) = Found tables bs" for bs
    by (rule parse_tables_bits) (use plan_table [OF plan] in auto)
  have "parse_selectors (selector_bits (length tables) (places [0..<length tables] sels) @ bs) = Found (length tables, sels) bs" for bs
    using tab(1) [OF refl] tab(3) sels by (intro parse_selectors_bits) auto
  then show ?thesis
    using tables vals by (simp add: parse_block_def block_bits_def parse_mapping_bits [OF us] del: upt_Suc)
qed

text \<open>What is sent for a block is parsed to the last column of its sorted rotations.\<close>

definition e_ready :: "'a estate_scheme \<Rightarrow> bool" where
  "e_ready s \<longleftrightarrow> block_sorted s \<and> tables_shape s \<and> rect 6 258 (code s) \<and> length (selectorMtf s) = 18002 \<and> bs_inv s
     \<and> 18 * (nblock s + 1) + 51410 \<le> bs_room s"

lemma sent_block_parsed:
  assumes "e_ready s"
  shows "\<exists>t u bits. generateMTFValues s = Some t \<and> sendMTFValues t = Some u \<and> bs_inv u \<and> bs_written u = bs_written s @ bits
     \<and> (\<forall>nmax rest. nblock s \<le> nmax \<and> nmax \<le> 900000 \<longrightarrow> parse_block nmax (bits @ rest) = Found (last_column s) rest)
     \<and> back_frame s u \<and> back_shape u \<and> length (unseqToSeq u) = 256 \<and> length bits \<le> 18 * (nblock s + 1) + 51410"
proof -
  let ?r = "rank (inUse s) 256" and ?out = "last_column s"
  have sorted: "block_sorted s" using assms by (simp add: e_ready_def)
  define vs where "vs = mtf_codes (?r + 1) (used_bytes (inUse s)) 0 ?out"
  obtain m a f where g: "generateMTFValues s = Some (s\<lparr>unseqToSeq := m, nInUse := ?r, arr1 := a, mtfFreq := f, nMTF := length vs\<rparr>)"
     "\<forall>k < length vs. a k = of_nat (vs ! k)" "length f = 258" "length m = 256"
    using generateMTFValues_ok [OF sorted] unfolding vs_def by blast
  define t where "t = s\<lparr>unseqToSeq := m, nInUse := ?r, arr1 := a, mtfFreq := f, nMTF := length vs\<rparr>"
  have s: "0 < nblock s" "nblock s \<le> 900000" "length (inUse s) = 256" "length ?out = nblock s"
    using sorted by (auto simp: block_sorted_def last_column_def)
  have col: "set ?out \<subseteq> set (used_bytes (inUse s))"
    using sorted before_less by (auto simp: last_column_def set_used_bytes block_sorted_def)
  have len: "length (used_bytes (inUse s)) = ?r" by (simp add: used_bytes_def rank_def)
  have used: "used_bytes (inUse s) \<noteq> []" using col s(1,4) by auto
  then have r: "0 < ?r" "?r \<le> 256" using len rank_le [of "inUse s" 256] by (cases "used_bytes (inUse s)"; simp)+
  have True: "True \<in> set (inUse s)" using r(1) rank_0_iff [OF s(3)] by auto
  have dec: "mtf_decode (?r + 1) (used_bytes (inUse s)) [] vs = Some ?out"
    using mtf_round_trip [OF col used, of "?r + 1" 0] len unfolding vs_def by simp
  have vs: "length vs \<le> nblock s + 1" "\<forall>v \<in> set vs. v < ?r + 2" "0 < length vs"
    using mtf_codes_length [of "?r + 1" "used_bytes (inUse s)" 0 ?out] mtf_codes_bound [OF col] len s(4) dec
    by (auto simp: vs_def)
  have "unat (a k) = vs ! k \<and> vs ! k < ?r + 2" if "k < length vs" for k
  proof -
    have "vs ! k < ?r + 2" using vs(2) that by simp
    then show ?thesis using g(2) that r(2) by (simp add: unat_of_nat)
  qed
  then have "has_values vs (?r + 2) t"
    using vs r s sorted by (auto simp: has_values_def t_def arr1_halfwords_def block_sorted_def)
  then have ready: "ready_to_send vs (?r + 2) t"
    using assms g(3) vs(1) s(3)
    by (simp add: e_ready_def ready_to_send_def t_def tables_shape_def bs_inv_def bs_room_def arr2_bytes_def)
  have inUse: "inUse t = inUse s" "bs_written t = bs_written s" by (simp_all add: t_def bs_written_def zbytes_def)
  obtain tables sels p u where u: "sendMTFValues t = Some u" "plan_ok (?r + 2) (length vs) tables sels" "bs_inv u"
      "bs_written u = bs_written s @ block_bits (inUse s) tables sels vs" "plan_frame t p" "bs_frame p u" "back_shape p"
    using sendMTFValues_ok [OF ready] unfolding inUse by blast
  have "back_frame s t" by (simp add: t_def back_frame_def)
  then have frame: "back_frame s u" using back_frame_plan [OF u(5)] back_frame_writer [OF u(6)] back_frame_trans by blast
  have shape: "back_shape u" "length (unseqToSeq u) = 256"
    using back_shape_writer [OF u(6)] plan_frame_unseq [OF u(5)] u(7) g(4) by (simp_all add: t_def)
  moreover have "parse_block nmax (block_bits (inUse s) tables sels vs @ rest) = Found ?out rest"
    if "nblock s \<le> nmax" "nmax \<le> 900000" for nmax rest
    using s vs True u(2) dec that by (intro parse_block_bits) simp_all
  moreover have "length (block_bits (inUse s) tables sels vs) \<le> 18 * (nblock s + 1) + 51410"
    using length_block [OF u(2) vs(2), of "inUse s"] vs(1) r(2) by simp
  ultimately show ?thesis using g(1) u frame shape unfolding t_def [symmetric]
    by (intro exI [of _ t] exI [of _ u] exI [of _ "block_bits (inUse s) tables sels vs"]) blast
qed

lemma length_last_column [simp]: "length (last_column s) = nblock s"
  by (simp add: last_column_def)

lemma ready_max: "d_ready d \<Longrightarrow> 100000 * d_blockSize100k d \<le> 900000"
  by (simp add: d_ready_def values_shape_def)

section \<open>Properties\<close>

text \<open>
  C22: receiving a block implements the abstract parser on every input: on a state whose
  arrays have their sizes, \<open>BZ2_decompress\<close> from the mapping table to the values makes no
  access outside an array, no undefined shift and no signed overflow, and it ends. If the parser finds a
  block, exactly its bytes are stored and counted, no more than the size of a block, and the
  bits behind it are left; if the parser finds the data corrupt, the result is
  \<open>BZ_DATA_ERROR\<close>, and if the bits end early, \<open>BZ_OK\<close>.
\<close>

theorem receive_block_implements_parser:
  assumes "d_ready s"
  shows "case parse_block (100000 * d_blockSize100k s) (pending s) of
       Found out rest \<Rightarrow> \<exists>t. receive_block s = Some (Go (length out) t) \<and> pending t = rest
         \<and> length out \<le> 100000 * d_blockSize100k s
         \<and> (\<forall>i < length out. if d_smallDecompress s then d_ll16 t i = ucast (out ! i) else d_tt t i = ucast (out ! i))
         \<and> (\<forall>b. d_unzftab t ! unat b = int (count_list out b))
     | Corrupt \<Rightarrow> \<exists>t. receive_block s = Some (Stop BZ_DATA_ERROR t)
     | More_bits \<Rightarrow> \<exists>t. receive_block s = Some (Stop BZ_OK t)"
  using receive_block_refines [OF assms]
  by (cases "parse_block (100000 * d_blockSize100k s) (pending s)") (auto simp: stored_def has_counts_def)

text \<open>A decompressor with a block size of 100000 at the beginning of a block, and its input.\<close>

definition start_dstate :: "u8 list \<Rightarrow> dstate" where
  "start_dstate bytes = \<lparr>d_next_in = bytes, d_total_in_lo32 = 0, d_total_in_hi32 = 0,
     d_next_out = [], d_avail_out = 0, d_total_out_lo32 = 0, d_total_out_hi32 = 0, d_bsBuff = 0, d_bsLive = 0,
     d_blockSize100k = 1, d_smallDecompress = False, d_state_out_ch = 0, d_state_out_len = 0, d_blockRandomised = False,
     d_rand = (0, 0), d_origPtr = 0, d_tPos = 0, d_k0 = 0, d_nblock_used = 0, d_cftab = replicate 257 0,
     d_calculatedBlockCRC = 0, d_storedBlockCRC = 0, d_storedCombinedCRC = 0, d_calculatedCombinedCRC = 0, d_save_nblock = 0, d_unzftab = replicate 256 0, d_tt = (\<lambda>_. 0), d_ll16 = (\<lambda>_. 0),
     d_nInUse = 0, d_inUse = replicate 256 False, d_inUse16 = replicate 16 False, d_seqToUnseq = replicate 256 0,
     d_mtfa = replicate 4096 0, d_mtfbase = replicate 16 0, d_selector = replicate 18002 0,
     d_selectorMtf = replicate 18002 0, d_len = replicate 6 (replicate 258 0), d_limit = replicate 6 (replicate 258 0),
     d_base = replicate 6 (replicate 258 0), d_perm = replicate 6 (replicate 258 0), d_minLens = replicate 6 0\<rparr>"

lemma start_dstate_ready: "d_ready (start_dstate bytes)"
  by (simp add: start_dstate_def d_ready_def rd_inv_def map_shape_def selectors_shape_def tables_d_shape_def rect_def
      values_shape_def BZ_MAX_SELECTORS_def)

lemma start_dstate_simps:
  "pending (start_dstate bytes) = concat (map (bits_of 8) bytes)" "d_blockSize100k (start_dstate bytes) = 1"
  "d_smallDecompress (start_dstate bytes) = False"
  by (simp_all add: start_dstate_def pending_def)

lemma receive_block_implements_parser_witness:
  "\<exists>t u. receive_block (start_dstate []) = Some (Stop BZ_OK t) \<and> receive_block (start_dstate [0, 0]) = Some (Stop BZ_DATA_ERROR u)"
proof -
  have "parse_block 100000 [] = More_bits"
    by (simp add: parse_block_def parse_mapping_def parse_flags_def pget_1 upt_conv_Cons del: One_nat_def)
  moreover have "parse_block 100000 (concat (map (bits_of 8) [0 :: u8, 0])) = Corrupt"
  proof -
    have "bits_of 8 (0 :: u8) = replicate 8 False" by (intro nth_equalityI) (simp_all add: nth_bits_of)
    then have "concat (map (bits_of 8) [0 :: u8, 0]) = replicate 16 False" by (simp add: replicate_add [symmetric])
    moreover have "parse_flags 16 (replicate 16 False) = Found (replicate 16 False) []"
      using parse_flags_bits [of "replicate 16 False" 16 "[]"] by simp
    moreover have "parse_rows (replicate 16 False) [] = Found (replicate 256 False) []"
      by (simp add: parse_rows_def upt_rec numeral_eq_Suc)
    ultimately show ?thesis by (simp add: parse_block_def parse_mapping_def)
  qed
  ultimately show ?thesis
    using receive_block_implements_parser [OF start_dstate_ready, of "[]"]
      receive_block_implements_parser [OF start_dstate_ready, of "[0, 0]"]
    by (simp add: start_dstate_simps)
qed

text \<open>
  C26: a block that is received leaves the decompressor well-formed: all arrays keep their
  sizes, less than a byte of input is in the buffer, and the block size is unchanged, so that
  the next block can be received.
\<close>

theorem receive_block_keeps_ready:
  assumes "d_ready s" "receive_block s = Some (Go n t)"
  shows "d_ready t \<and> d_blockSize100k t = d_blockSize100k s \<and> d_smallDecompress t = d_smallDecompress s
     \<and> n \<le> 100000 * d_blockSize100k t"
  using receive_block_refines [OF assms(1)] assms(2)
  by (cases "parse_block (100000 * d_blockSize100k s) (pending s)") auto

text \<open>Bits are packed into bytes, with some bits to fill the last.\<close>

lemma byte_of_bits: "length l = 8 \<Longrightarrow> \<exists>b :: u8. bits_of 8 b = l"
proof (intro exI)
  assume l: "length l = 8"
  show "bits_of 8 (horner_sum of_bool 2 (rev l) :: u8) = l"
    using l by (intro nth_equalityI) (auto simp: nth_bits_of bit_horner_sum_bit_iff rev_nth)
qed

lemma bytes_of_bits: "\<exists>(bytes :: u8 list) pad. concat (map (bits_of 8) bytes) = bs @ pad"
proof (induction "length bs" arbitrary: bs rule: less_induct)
  case less
  show ?case
  proof (cases "bs = []")
    case False
    obtain b :: u8 where b: "bits_of 8 b = take 8 bs @ replicate (8 - length bs) False"
    proof -
      have "length (take 8 bs @ replicate (8 - length bs) False) = 8" by (cases "length bs \<le> 8") simp_all
      then show ?thesis using byte_of_bits that by blast
    qed
    obtain bytes :: "u8 list" and pad where bytes: "concat (map (bits_of 8) bytes) = drop 8 bs @ pad"
      using less [of "drop 8 bs"] False by auto
    show ?thesis
    proof (cases "length bs \<le> 8")
      case True
      then show ?thesis using b by (intro exI [of _ "[b]"] exI [of _ "replicate (8 - length bs) False"]) simp
    next
      case False
      then show ?thesis using b bytes by (intro exI [of _ "b # bytes"] exI [of _ pad]) simp
    qed
  qed (intro exI [of _ "[]"], simp)
qed

text \<open>The block \<open>aba\<close>, and a decompressor that gets what is sent for it.\<close>

lemma aba_ready: "e_ready aba_estate" "nblock aba_estate = 3"
  by (auto simp: aba_estate_def empty_estate_def e_ready_def block_sorted_def ptr_at_def less_Suc_eq numeral_3_eq_3 tables_shape_def
      rect_def bs_inv_def bs_room_def arr2_bytes_def)

lemma receive_block_keeps_ready_witness:
  "\<exists>bytes t. receive_block (start_dstate bytes) = Some (Go 3 t)
     \<and> d_ready t \<and> d_blockSize100k t = d_blockSize100k (start_dstate bytes)
     \<and> d_smallDecompress t = d_smallDecompress (start_dstate bytes) \<and> 3 \<le> 100000 * d_blockSize100k t"
proof -
  obtain bits where bits: "\<And>rest. parse_block 100000 (bits @ rest) = Found (last_column aba_estate) rest"
  proof -
    have "nblock aba_estate \<le> 100000 \<and> 100000 \<le> (900000 :: nat)" by (simp add: aba_ready(2))
    then show ?thesis using sent_block_parsed [OF aba_ready(1)] that by blast
  qed
  obtain bytes :: "u8 list" and rest where b: "concat (map (bits_of 8) bytes) = bits @ rest" using bytes_of_bits by blast
  obtain t where t: "receive_block (start_dstate bytes) = Some (Go 3 t)"
    using receive_block_refines [OF start_dstate_ready, of bytes] by (auto simp: start_dstate_simps b bits aba_ready(2))
  from receive_block_keeps_ready [OF start_dstate_ready t] t show ?thesis by blast
qed

text \<open>
  C21: the decompressor gets back what the compressor sends: for every block whose rotations
  are sorted, \<open>generateMTFValues\<close> and \<open>sendMTFValues\<close> return, and append to the output a
  sequence of bits from which \<open>BZ2_decompress\<close>, in any state whose block size is large
  enough and with anything behind these bits, stores exactly the last column of the sorted
  rotations, counts its bytes, and goes on with the bits behind.
\<close>

theorem block_round_trip:
  assumes "e_ready s"
  shows "\<exists>t u bits. generateMTFValues s = Some t \<and> sendMTFValues t = Some u \<and> bs_inv u \<and> bs_written u = bs_written s @ bits
     \<and> (\<forall>d rest. d_ready d \<and> nblock s \<le> 100000 * d_blockSize100k d \<and> pending d = bits @ rest \<longrightarrow>
          (\<exists>e. receive_block d = Some (Go (nblock s) e) \<and> pending e = rest
             \<and> (\<forall>i < nblock s. if d_smallDecompress d then d_ll16 e i = ucast (last_column s ! i)
                  else d_tt e i = ucast (last_column s ! i))
             \<and> (\<forall>b. d_unzftab e ! unat b = int (count_list (last_column s) b))))"
proof -
  obtain t u bits where t: "generateMTFValues s = Some t" "sendMTFValues t = Some u" "bs_inv u" "bs_written u = bs_written s @ bits"
    and parse: "\<And>nmax rest. nblock s \<le> nmax \<and> nmax \<le> 900000 \<Longrightarrow> parse_block nmax (bits @ rest) = Found (last_column s) rest"
    using sent_block_parsed [OF assms] by blast
  have "\<exists>e. receive_block d = Some (Go (nblock s) e) \<and> pending e = rest
             \<and> (\<forall>i < nblock s. if d_smallDecompress d then d_ll16 e i = ucast (last_column s ! i)
                  else d_tt e i = ucast (last_column s ! i))
             \<and> (\<forall>b. d_unzftab e ! unat b = int (count_list (last_column s) b))"
    if d: "d_ready d \<and> nblock s \<le> 100000 * d_blockSize100k d \<and> pending d = bits @ rest" for d rest
    using receive_block_refines [of d] parse [of "100000 * d_blockSize100k d" rest] d ready_max [of d]
    by (auto simp: stored_def has_counts_def)
  with t show ?thesis by (intro exI [of _ t] exI [of _ u] exI [of _ bits]) blast
qed

lemma block_round_trip_witness:
  "\<exists>t u bits bytes rest e. generateMTFValues aba_estate = Some t \<and> sendMTFValues t = Some u
     \<and> bs_written u = bs_written aba_estate @ bits
     \<and> d_ready (start_dstate bytes) \<and> pending (start_dstate bytes) = bits @ rest
     \<and> receive_block (start_dstate bytes) = Some (Go 3 e) \<and> pending e = rest
     \<and> (\<forall>i < 3. d_tt e i = ucast (last_column aba_estate ! i))
     \<and> (\<forall>b. d_unzftab e ! unat b = int (count_list (last_column aba_estate) b))"
proof -
  obtain t u bits where t: "generateMTFValues aba_estate = Some t" "sendMTFValues t = Some u"
      "bs_written u = bs_written aba_estate @ bits"
    and rec: "\<And>d rest. d_ready d \<and> nblock aba_estate \<le> 100000 * d_blockSize100k d \<and> pending d = bits @ rest \<Longrightarrow>
          \<exists>e. receive_block d = Some (Go (nblock aba_estate) e) \<and> pending e = rest
             \<and> (\<forall>i < nblock aba_estate. if d_smallDecompress d then d_ll16 e i = ucast (last_column aba_estate ! i)
                  else d_tt e i = ucast (last_column aba_estate ! i))
             \<and> (\<forall>b. d_unzftab e ! unat b = int (count_list (last_column aba_estate) b))"
    using block_round_trip [OF aba_ready(1)] by blast
  obtain bytes :: "u8 list" and rest where b: "concat (map (bits_of 8) bytes) = bits @ rest" using bytes_of_bits by blast
  have "d_ready (start_dstate bytes) \<and> nblock aba_estate \<le> 100000 * d_blockSize100k (start_dstate bytes)
      \<and> pending (start_dstate bytes) = bits @ rest"
    using b start_dstate_ready by (simp add: start_dstate_simps aba_ready(2))
  from rec [OF this] this t show ?thesis by (auto simp: start_dstate_simps aba_ready(2))
qed

end
