(* ===== verification/BzUnsort.thy ===== *)
theory BzUnsort
  imports BzBlock "HOL-Library.List_Lexorder"
begin

text \<open>
  The inverse of the block sorting: what \<open>BZ2_decompress\<close> (\<open>benchmarks/wasi/bzip2/decompress.c\<close>)
  does with the bytes of a block that it has received, when \<open>smallDecompress\<close> is not set. From
  the counts of the bytes the vector \<open>tt\<close> of successors is built, and following it gives the
  block, because the rotation that comes one step later starts at the place of the stable order of
  the last column.
\<close>

section \<open>The code\<close>

text \<open>Accesses to an allocated array with an index of type \<open>Int32\<close>.\<close>

definition ifget :: "nat \<Rightarrow> (nat \<Rightarrow> 'a) \<Rightarrow> int \<Rightarrow> 'a option" where
  "ifget n a i = (if 0 \<le> i then fget n a (nat i) else None)"

definition ifput :: "nat \<Rightarrow> (nat \<Rightarrow> 'a) \<Rightarrow> int \<Rightarrow> 'a \<Rightarrow> (nat \<Rightarrow> 'a) option" where
  "ifput n a i v = (if 0 \<le> i then fput n a (nat i) v else None)"

text \<open>The words of \<open>tt\<close>.\<close>

abbreviation tt_words :: "dstate \<Rightarrow> nat" where
  "tt_words s \<equiv> 100000 * d_blockSize100k s"

text \<open>[bzip2/decompress.c 497-505 BZ2_decompress] The pointer and the counts are in range.\<close>

definition check_counts :: "nat \<Rightarrow> dstate \<Rightarrow> unit out option" where
  "check_counts nblk s =
     (if d_origPtr s < 0 \<or> d_origPtr s \<ge> int nblk then Some (Stop BZ_DATA_ERROR s)
      else for_out [0..<256] (\<lambda>i _ s.
        do { z \<leftarrow> aget (d_unzftab s) i;
             Some (if z < 0 \<or> z > int nblk then Stop BZ_DATA_ERROR s else Go () s) }) () s)"

text \<open>[bzip2/decompress.c 507-509 BZ2_decompress]\<close>

definition fill_cftab :: "dstate \<Rightarrow> dstate option" where
  "fill_cftab s =
     do { c \<leftarrow> aput (d_cftab s) 0 0;
          c \<leftarrow> for_in [1..<257] (\<lambda>i c. do { z \<leftarrow> aget (d_unzftab s) (i - 1); aput c i z }) c;
          c \<leftarrow> for_in [1..<257] (\<lambda>i c.
            do { x \<leftarrow> aget c i; y \<leftarrow> aget c (i - 1); z \<leftarrow> int32 (x + y); aput c i z }) c;
          Some (s\<lparr>d_cftab := c\<rparr>) }"

text \<open>[bzip2/decompress.c 511-522 BZ2_decompress]\<close>

definition check_cftab :: "nat \<Rightarrow> dstate \<Rightarrow> unit out option" where
  "check_cftab nblk s =
     andthen (for_out [0..<257] (\<lambda>i _ s.
       do { z \<leftarrow> aget (d_cftab s) i;
            Some (if z < 0 \<or> z > int nblk then Stop BZ_DATA_ERROR s else Go () s) }) () s) (\<lambda>_ s.
     for_out [1..<257] (\<lambda>i _ s.
       do { x \<leftarrow> aget (d_cftab s) (i - 1);
            y \<leftarrow> aget (d_cftab s) i;
            Some (if x > y then Stop BZ_DATA_ERROR s else Go () s) }) () s)"

text \<open>[bzip2/decompress.c 566-570 BZ2_decompress]\<close>

definition build_tt :: "nat \<Rightarrow> dstate \<Rightarrow> dstate option" where
  "build_tt nblk s =
     for_in [0..<nblk] (\<lambda>i s.
       do { w \<leftarrow> fget (tt_words s) (d_tt s) i;
            let uc = (ucast (w AND 0xff) :: u8);
            c \<leftarrow> aget (d_cftab s) (unat uc);
            x \<leftarrow> ifget (tt_words s) (d_tt s) c;
            a \<leftarrow> ifput (tt_words s) (d_tt s) c (x OR push_bit 8 (of_nat i));
            t \<leftarrow> aput (d_cftab s) (unat uc) (c + 1);
            Some (s\<lparr>d_tt := a, d_cftab := t\<rparr>) }) s"

text \<open>
  [bzip2/bzlib_private.h 444-449 BZ_GET_FAST] The macro returns \<open>True\<close> from the function it is
  used in; in \<open>BZ2_decompress\<close> that is the code \<open>BZ_RUN_OK\<close>.
\<close>

definition BZ_GET_FAST :: "dstate \<Rightarrow> u8 out option" where
  "BZ_GET_FAST s =
     (if d_tPos s \<ge> 100000 * of_nat (d_blockSize100k s) then Some (Stop BZ_RUN_OK s)
      else do { w \<leftarrow> fget (tt_words s) (d_tt s) (unat (d_tPos s));
                Some (Go (ucast (w AND 0xff)) (s\<lparr>d_tPos := drop_bit 8 w\<rparr>)) })"

text \<open>[bzip2/decompress.c 572-580 BZ2_decompress] The first byte, which may be randomised.\<close>

definition first_byte :: "dstate \<Rightarrow> unit out option" where
  "first_byte s =
     do { w \<leftarrow> ifget (tt_words s) (d_tt s) (d_origPtr s);
          let s = s\<lparr>d_tPos := drop_bit 8 w, d_nblock_used := 0\<rparr>;
          if d_blockRandomised s
          then andthen (BZ_GET_FAST (s\<lparr>d_rand := BZ_RAND_INIT_MASK\<rparr>)) (\<lambda>k0 s.
                 do { r \<leftarrow> BZ_RAND_UPD_MASK (d_rand s);
                      Some (Go () (s\<lparr>d_nblock_used := d_nblock_used s + 1, d_rand := r, d_k0 := k0 XOR BZ_RAND_MASK r\<rparr>)) })
          else andthen (BZ_GET_FAST s) (\<lambda>k0 s.
                 Some (Go () (s\<lparr>d_nblock_used := d_nblock_used s + 1, d_k0 := k0\<rparr>))) }"

text \<open>[bzip2/decompress.c 497-584 BZ2_decompress] From the bytes that are received to the first that can be output.\<close>

definition unsort_fast :: "nat \<Rightarrow> dstate \<Rightarrow> unit out option" where
  "unsort_fast nblk s =
     andthen (check_counts nblk s) (\<lambda>_ s.
     do { s \<leftarrow> fill_cftab s;
          andthen (check_cftab nblk s) (\<lambda>_ s.
          do { s \<leftarrow> build_tt nblk (s\<lparr>d_state_out_len := 0, d_state_out_ch := 0, d_calculatedBlockCRC := 0xffffffff\<rparr>);
               andthen (first_byte s) (\<lambda>_ s. Some (Go () (s\<lparr>d_save_nblock := nblk\<rparr>))) }) })"

section \<open>The sorted rotations\<close>

text \<open>The rotations of a block in ascending order, and their last bytes.\<close>

definition sorted_rows :: "'a::linorder list \<Rightarrow> 'a list list" where
  "sorted_rows xs = sort (map (\<lambda>i. rotate i xs) [0..<length xs])"

definition bwt :: "'a::linorder list \<Rightarrow> 'a list" where
  "bwt xs = map last (sorted_rows xs)"

text \<open>The place of entry \<open>i\<close> of a list in its stable order, and the entry of a place.\<close>

definition stable_place :: "nat list \<Rightarrow> nat \<Rightarrow> nat" where
  "stable_place L i = below L (length L) (L ! i) + lcount L (L ! i) i"

lemma stable_place_less:
  assumes "i < length L" "j < length L" "L ! i < L ! j \<or> L ! i = L ! j \<and> i < j"
  shows "stable_place L i < stable_place L j"
proof (cases "L ! i = L ! j")
  case True
  then show ?thesis using assms lcount_less [of i j L] by (simp add: stable_place_def)
next
  case False
  then have less: "L ! i < L ! j" using assms by simp
  have "lcount L (L ! i) i < lcount L (L ! i) (length L)" using lcount_less [OF assms(1), of L] .
  then have "stable_place L i < below L (length L) (Suc (L ! i))" by (simp add: stable_place_def below_Suc)
  also have "\<dots> \<le> below L (length L) (L ! j)" using less by (intro below_mono) simp
  finally show ?thesis by (simp add: stable_place_def)
qed

lemma stable_place_bound: "i < length L \<Longrightarrow> stable_place L i < length L"
  using below_lcount_le [of L "length L" "L ! i"] lcount_less [of i "length L" L] by (simp add: stable_place_def)

lemma stable_place_inj: "i < length L \<Longrightarrow> j < length L \<Longrightarrow> stable_place L i = stable_place L j \<longleftrightarrow> i = j"
  using stable_place_less [of i L j] stable_place_less [of j L i] by (metis less_irrefl linorder_neqE_nat)

definition entry_at :: "nat list \<Rightarrow> nat \<Rightarrow> nat" where
  "entry_at L p = symbol_at L p"

lemma entry_at_place: "i < length L \<Longrightarrow> entry_at L (stable_place L i) = i"
  by (simp add: entry_at_def stable_place_def symbol_at_place)

lemma place_entry: "p < length L \<Longrightarrow> entry_at L p < length L \<and> stable_place L (entry_at L p) = p"
  using place_is_symbol [of p "length L" L] entry_at_place by (auto simp: stable_place_def [symmetric])

lemma mset_entries: "mset (map (entry_at L) [0..<length L]) = mset [0..<length L]"
proof -
  have inj: "inj_on (entry_at L) {0..<length L}"
    by (rule inj_on_inverseI [where g = "stable_place L"]) (simp add: place_entry)
  have "entry_at L ` {0..<length L} = {0..<length L}"
  proof
    show "entry_at L ` {0..<length L} \<subseteq> {0..<length L}" using place_entry by auto
    show "{0..<length L} \<subseteq> entry_at L ` {0..<length L}"
    proof
      fix i assume "i \<in> {0..<length L}"
      then show "i \<in> entry_at L ` {0..<length L}"
        using entry_at_place [of i L] stable_place_bound [of i L] by (intro image_eqI [where x = "stable_place L i"]) auto
    qed
  qed
  then have "image_mset (entry_at L) (mset_set {0..<length L}) = mset_set {0..<length L}"
    using image_mset_mset_set [OF inj] by simp
  then show ?thesis by (simp add: mset_upt)
qed

text \<open>The rows with their last entry in front, in the stable order of these entries, are the rows.\<close>

definition last_first :: "'a list \<Rightarrow> 'a list" where
  "last_first xs = last xs # butlast xs"

lemma rotate1_last_first: "xs \<noteq> [] \<Longrightarrow> rotate1 (last_first xs) = xs"
  by (simp add: last_first_def)

lemma butlast_le: "length xs = length ys \<Longrightarrow> xs \<le> ys \<Longrightarrow> butlast xs \<le> butlast (ys :: 'a::linorder list)"
  by (induction xs ys rule: list_induct2) auto

lemma mset_rotations:
  "xs \<noteq> [] \<Longrightarrow> mset (map last_first (map (\<lambda>i. rotate i xs) [0..<length xs])) = mset (map (\<lambda>i. rotate i xs) [0..<length xs])"
proof -
  assume ne: "xs \<noteq> []"
  then obtain n where n: "length xs = Suc n" by (cases xs) auto
  have step: "last_first (rotate (Suc i) xs) = rotate i xs" for i
  proof -
    obtain y ys where y: "rotate i xs = y # ys" using ne by (cases "rotate i xs") auto
    then show ?thesis by (simp add: last_first_def)
  qed
  have 0: "last_first (rotate 0 xs) = rotate n xs"
    using step [of n] n rotate_length01 [of xs] by (metis id_apply rotate0 rotate_id mod_self n)
  have "map last_first (map (\<lambda>i. rotate i xs) [0..<length xs])
      = last_first (rotate 0 xs) # map (\<lambda>i. last_first (rotate (Suc i) xs)) [0..<n]"
    unfolding n by (simp only: upt_conv_Cons zero_less_Suc list.map map_Suc_upt [symmetric] map_map comp_def)
  then show ?thesis by (simp add: 0 [simplified] step [simplified] n)
qed

lemma sorted_rows_facts:
  "length (sorted_rows xs) = length xs" "sorted (sorted_rows xs)"
  "r \<in> set (sorted_rows xs) \<Longrightarrow> length r = length xs"
  by (auto simp: sorted_rows_def)

lemma rows_by_last:
  assumes "i < length xs" "L = map unat (bwt (xs :: 'a::len word list))"
  shows "last_first (sorted_rows xs ! i) = sorted_rows xs ! stable_place L i"
proof -
  let ?S = "sorted_rows xs" and ?n = "length xs"
  let ?P = "map (\<lambda>p. last_first (?S ! entry_at L p)) [0..<?n]"
  have ne: "xs \<noteq> []" using assms(1) by auto
  have len: "length L = ?n" "length ?S = ?n" by (simp_all add: assms(2) bwt_def sorted_rows_facts)
  have row: "length (?S ! j) = ?n" "?S ! j \<noteq> []" "last (?S ! j) = bwt xs ! j" "L ! j = unat (bwt xs ! j)" if "j < ?n" for j
  proof -
    have "?S ! j \<in> set ?S" using that len by simp
    then show l: "length (?S ! j) = ?n" by (rule sorted_rows_facts(3))
    then show "?S ! j \<noteq> []" using ne by auto
    show "last (?S ! j) = bwt xs ! j" "L ! j = unat (bwt xs ! j)" using that len by (simp_all add: bwt_def assms(2))
  qed
  have "?P ! p \<le> ?P ! q" if "p < q" "q < ?n" for p q
  proof -
    let ?i = "entry_at L p" and ?j = "entry_at L q"
    have p: "?i < ?n" "stable_place L ?i = p" "?j < ?n" "stable_place L ?j = q"
      using place_entry [of p L] place_entry [of q L] that len(1) by auto
    have "L ! ?i < L ! ?j \<or> L ! ?i = L ! ?j \<and> ?i < ?j"
    proof (rule ccontr)
      assume "\<not> (L ! ?i < L ! ?j \<or> L ! ?i = L ! ?j \<and> ?i < ?j)"
      then consider "?i = ?j" | "L ! ?j < L ! ?i \<or> L ! ?j = L ! ?i \<and> ?j < ?i" by linarith
      then show False
      proof cases
        case 1
        then show False using p(2,4) that(1) by (metis less_irrefl)
      next
        case 2
        then have "stable_place L ?j < stable_place L ?i" using p(1,3) len(1) by (intro stable_place_less) simp_all
        then show False unfolding p(2,4) using that(1) by simp
      qed
    qed
    then have "last (?S ! ?i) < last (?S ! ?j) \<or> last (?S ! ?i) = last (?S ! ?j) \<and> ?i < ?j"
      using row(3,4) p(1,3) by (simp add: word_less_nat_alt word_unat_eq_iff)
    moreover have "butlast (?S ! ?i) \<le> butlast (?S ! ?j)" if "?i < ?j"
      using butlast_le [of "?S ! ?i" "?S ! ?j"] row(1) p sorted_nth_mono [OF sorted_rows_facts(2), of ?i ?j xs] that len by simp
    ultimately have "last_first (?S ! ?i) \<le> last_first (?S ! ?j)" by (auto simp: last_first_def)
    then show ?thesis using that by simp
  qed
  then have "sorted ?P" by (auto simp: sorted_iff_nth_mono_less)
  moreover have "mset ?P = mset ?S"
  proof -
    have "mset ?P = image_mset (\<lambda>i. last_first (?S ! i)) (mset (map (entry_at L) [0..<length L]))" by (simp add: len multiset.map_comp comp_def)
    also have "\<dots> = mset (map (\<lambda>i. last_first (?S ! i)) [0..<length L])" unfolding mset_entries by simp
    also have "\<dots> = mset (map last_first ?S)"
      using len by (intro arg_cong [where f = mset] nth_equalityI) simp_all
    also have "\<dots> = image_mset last_first (mset (map (\<lambda>i. rotate i xs) [0..<?n]))" by (simp add: sorted_rows_def)
    also have "\<dots> = mset (map (\<lambda>i. rotate i xs) [0..<?n])" using mset_rotations [OF ne] by (simp only: mset_map)
    also have "\<dots> = mset ?S" by (simp add: sorted_rows_def)
    finally show ?thesis .
  qed
  ultimately have "?P = ?S"
    using sorted_rows_facts(2) [of xs] by (metis properties_for_sort sorted_sort_id)
  then have "?S ! stable_place L i = ?P ! stable_place L i" by simp
  then show ?thesis using assms(1) len(1) stable_place_bound [of i L] entry_at_place [of i L] by simp
qed

section \<open>The table of the first places\<close>

abbreviation vals :: "u8 list \<Rightarrow> nat list" where
  "vals xs \<equiv> map unat xs"

lemma for_out_same: "(\<And>i. i \<in> set is \<Longrightarrow> body i () s = Some (Go () s)) \<Longrightarrow> for_out is body () s = Some (Go () s)"
  by (induction "is") simp_all

lemma lcount_vals: "c < 256 \<Longrightarrow> k \<le> length xs \<Longrightarrow> lcount (vals xs) c k = count_list (take k xs) (of_nat c)"
proof (induction k)
  case (Suc k)
  have "unat (xs ! k) = c \<longleftrightarrow> xs ! k = of_nat c" using Suc.prems(1) by (auto simp: unat_of_nat)
  then show ?case using Suc by (simp add: lcount_Suc take_Suc_conv_app_nth)
qed simp

lemma counts_lcount: "has_counts xs s \<Longrightarrow> c < 256 \<Longrightarrow> d_unzftab s ! c = int (lcount (vals xs) c (length xs))"
proof -
  assume h: "has_counts xs s" "c < 256"
  then have "unat (of_nat c :: u8) = c" by (simp add: unat_of_nat)
  then have "d_unzftab s ! c = int (count_list xs (of_nat c))" using h(1) unfolding has_counts_def by metis
  then show ?thesis using lcount_vals [OF h(2), of "length xs" xs] by simp
qed

lemma lcount_le: "lcount L c k \<le> k"
  by (induction k) (auto simp: lcount_Suc)

lemma check_counts_ok:
  assumes "has_counts xs s" "0 \<le> d_origPtr s" "d_origPtr s < int (length xs)"
  shows "check_counts (length xs) s = Some (Go () s)"
proof -
  have "length (d_unzftab s) = 256" using assms(1) by (simp add: has_counts_def)
  then have "for_out [0..<256] (\<lambda>i _ s.
        do { z \<leftarrow> aget (d_unzftab s) i;
             Some (if z < 0 \<or> z > int (length xs) then Stop BZ_DATA_ERROR s else Go () s) }) () s = Some (Go () s)"
    using counts_lcount [OF assms(1)] by (intro for_out_same) (simp add: not_less lcount_le)
  then show ?thesis using assms(2,3) by (simp add: check_counts_def)
qed

lemma below_0' [simp]: "below L a 0 = 0"
  by (simp add: below_def)

lemma fill_cftab_ok:
  assumes h: "has_counts xs s" "length xs \<le> 900000" and c: "length (d_cftab s) = 257"
  shows "\<exists>c. fill_cftab s = Some (s\<lparr>d_cftab := c\<rparr>) \<and> length c = 257 \<and> (\<forall>i \<le> 256. c ! i = int (below (vals xs) (length xs) i))"
proof -
  let ?n = "length xs" and ?L = "vals xs"
  have len: "length (d_unzftab s) = 256" using h(1) by (simp add: has_counts_def)
  have "runs (for_in [1..<257] (\<lambda>i c. do { z \<leftarrow> aget (d_unzftab s) (i - 1); aput c i z }) ((d_cftab s)[0 := 0]))
     (\<lambda>c. length c = 257 \<and> c ! 0 = 0 \<and> (\<forall>j. 1 \<le> j \<and> j < 257 \<longrightarrow> c ! j = int (lcount ?L (j - 1) ?n)))"
  proof (rule runs_for_upt [where I = "\<lambda>i c. length c = 257 \<and> c ! 0 = 0 \<and> (\<forall>j. 1 \<le> j \<and> j < i \<longrightarrow> c ! j = int (lcount ?L (j - 1) ?n))"])
    fix i d assume i: "1 \<le> i" "i < (257 :: nat)"
      and d: "length d = 257 \<and> d ! 0 = 0 \<and> (\<forall>j. 1 \<le> j \<and> j < i \<longrightarrow> d ! j = int (lcount ?L (j - 1) ?n))"
    have "d_unzftab s ! (i - 1) = int (lcount ?L (i - 1) ?n)" using counts_lcount [OF h(1), of "i - 1"] i by simp
    then show "runs (do { z \<leftarrow> aget (d_unzftab s) (i - 1); aput d i z })
       (\<lambda>c. length c = 257 \<and> c ! 0 = 0 \<and> (\<forall>j. 1 \<le> j \<and> j < Suc i \<longrightarrow> c ! j = int (lcount ?L (j - 1) ?n)))"
      using i d len by (auto simp: nth_list_update less_Suc_eq)
  qed (use c in simp_all)
  then obtain c1 where c1: "for_in [1..<257] (\<lambda>i c. do { z \<leftarrow> aget (d_unzftab s) (i - 1); aput c i z }) ((d_cftab s)[0 := 0]) = Some c1"
      "length c1 = 257" "c1 ! 0 = 0" "\<forall>j. 1 \<le> j \<and> j < 257 \<longrightarrow> c1 ! j = int (lcount ?L (j - 1) ?n)"
    by (auto simp: runs_iff_Some)
  let ?I = "\<lambda>i c. length c = 257 \<and> (\<forall>j < 257. c ! j = (if j < i then int (below ?L ?n j) else int (lcount ?L (j - 1) ?n)))"
  have "runs (for_in [1..<257] (\<lambda>i c. do { x \<leftarrow> aget c i; y \<leftarrow> aget c (i - 1); z \<leftarrow> int32 (x + y); aput c i z }) c1) (?I 257)"
  proof (rule runs_for_upt [where I = ?I])
    fix i d assume i: "1 \<le> i" "i < (257 :: nat)" and d: "?I i d"
    obtain j where j: "i = Suc j" using i(1) by (cases i) auto
    have b: "below ?L ?n i = below ?L ?n j + lcount ?L j ?n" by (simp add: j below_Suc)
    have "d ! i + d ! (i - 1) = int (below ?L ?n i)" using i d by (simp add: b) (simp add: j)
    moreover have "int32 (int (below ?L ?n i)) = Some (int (below ?L ?n i))"
      using below_le [of ?L ?n i] h(2) by simp
    ultimately show "runs (do { x \<leftarrow> aget d i; y \<leftarrow> aget d (i - 1); z \<leftarrow> int32 (x + y); aput d i z }) (?I (Suc i))"
      using i d by (auto simp: nth_list_update less_Suc_eq)
  qed (use c1 in \<open>auto simp: less_Suc_eq\<close>)
  then obtain c2 where c2: "for_in [1..<257] (\<lambda>i c. do { x \<leftarrow> aget c i; y \<leftarrow> aget c (i - 1); z \<leftarrow> int32 (x + y); aput c i z }) c1 = Some c2"
      "?I 257 c2" by (auto simp: runs_iff_Some)
  have "fill_cftab s = Some (s\<lparr>d_cftab := c2\<rparr>)" using c1(1) c2(1) c by (simp add: fill_cftab_def)
  then show ?thesis using c2(2) by auto
qed

lemma check_cftab_ok:
  assumes "length (d_cftab s) = 257" "\<forall>i \<le> 256. d_cftab s ! i = int (below L n i)"
  shows "check_cftab n s = Some (Go () s)"
proof -
  have "for_out [0..<257] (\<lambda>i _ s. do { z \<leftarrow> aget (d_cftab s) i;
            Some (if z < 0 \<or> z > int n then Stop BZ_DATA_ERROR s else Go () s) }) () s = Some (Go () s)"
    using assms by (intro for_out_same) (simp add: not_less below_le)
  moreover have "for_out [1..<257] (\<lambda>i _ s. do { x \<leftarrow> aget (d_cftab s) (i - 1); y \<leftarrow> aget (d_cftab s) i;
            Some (if x > y then Stop BZ_DATA_ERROR s else Go () s) }) () s = Some (Go () s)"
  proof (rule for_out_same)
    fix i assume i: "i \<in> set [1..<257 :: nat]"
    then have le: "i - 1 \<le> 256" "i \<le> 256" by auto
    then have "d_cftab s ! (i - 1) = int (below L n (i - 1))" "d_cftab s ! i = int (below L n i)" using assms(2) by blast+
    moreover have "below L n (i - 1) \<le> below L n i" by (rule below_mono) simp
    ultimately show "do { x \<leftarrow> aget (d_cftab s) (i - 1); y \<leftarrow> aget (d_cftab s) i;
        Some (if x > y then Stop BZ_DATA_ERROR s else Go () s) } = Some (Go () s)"
      using le assms(1) by (simp add: aget_def)
  qed
  ultimately show ?thesis by (simp add: check_cftab_def)
qed

section \<open>The vector of successors\<close>

text \<open>A word of \<open>tt\<close> is a byte with a successor.\<close>

lemma low_byte [simp]: "(ucast (((ucast (b :: u8) :: u32) OR push_bit 8 y) AND 0xff) :: u8) = b"
proof -
  have mask: "(0xff :: u32) = mask 8" by (simp add: mask_eq_exp_minus_1)
  show ?thesis
    unfolding mask take_bit_eq_mask [symmetric] by (rule bit_word_eqI) (auto simp: bit_simps dest: bit_imp_le_length)
qed

lemma high_part [simp]: "e < 2 ^ 24 \<Longrightarrow> drop_bit 8 ((ucast (b :: u8) :: u32) OR push_bit 8 (of_nat e)) = of_nat e"
proof -
  assume e: "e < 2 ^ 24"
  show ?thesis
  proof (rule bit_word_eqI)
    fix k assume k: "k < LENGTH(32)"
    have "\<not> bit e k" if "24 \<le> k"
    proof -
      have "e < 2 ^ k" using e power_increasing [OF that, of "2 :: nat"] by linarith
      then show ?thesis by (simp add: bit_iff_odd)
    qed
    then show "bit (drop_bit 8 ((ucast b :: u32) OR push_bit 8 (of_nat e))) k = bit (of_nat e :: u32) k"
      using k by (auto simp: bit_simps dest: bit_imp_le_length)
  qed
qed

definition linked :: "u8 list \<Rightarrow> dstate \<Rightarrow> bool" where
  "linked xs s \<longleftrightarrow> length xs \<le> tt_words s \<and> d_blockSize100k s \<le> 9
     \<and> (\<forall>p < length xs. d_tt s p = ucast (xs ! p) OR push_bit 8 (of_nat (entry_at (vals xs) p)))"

lemma build_tt_ok:
  assumes tt: "\<forall>p < length xs. d_tt s p = ucast (xs ! p)" and n: "length xs \<le> tt_words s" "d_blockSize100k s \<le> 9"
    and c: "length (d_cftab s) = 257" "\<forall>c < 256. d_cftab s ! c = int (below (vals xs) (length xs) c)"
  shows "\<exists>a c. build_tt (length xs) s = Some (s\<lparr>d_tt := a, d_cftab := c\<rparr>) \<and> length c = 257 \<and> linked xs (s\<lparr>d_tt := a, d_cftab := c\<rparr>)"
proof -
  let ?n = "length xs" and ?L = "vals xs"
  let ?T = "\<lambda>i a. \<forall>p < ?n. a p = ucast (xs ! p) OR (if entry_at ?L p < i then push_bit 8 (of_nat (entry_at ?L p)) else 0)"
  let ?C = "\<lambda>i c. length c = 257 \<and> (\<forall>k < 256. c ! k = int (below ?L ?n k + lcount ?L k i))"
  let ?I = "\<lambda>i t. \<exists>a c. t = s\<lparr>d_tt := a, d_cftab := c\<rparr> \<and> ?T i a \<and> ?C i c"
  have "runs (build_tt ?n s) (?I ?n)"
    unfolding build_tt_def
  proof (rule runs_for_upt [where I = ?I])
    show "?I 0 s" using tt c by (intro exI [of _ "d_tt s"] exI [of _ "d_cftab s"]) simp
    fix i t assume i: "i < ?n" and "?I i t"
    then obtain a c where t: "t = s\<lparr>d_tt := a, d_cftab := c\<rparr>" and a: "?T i a" and c: "?C i c" by blast
    define u where "u = unat (xs ! i)"
    define q where "q = stable_place ?L i"
    have u: "u < 256" "?L ! i = u" using i by (simp_all add: u_def)
    have q: "q < ?n" "entry_at ?L q = i" using stable_place_bound [of i ?L] entry_at_place [of i ?L] i by (simp_all add: q_def)
    have cu: "c ! u = int q" using c u by (simp add: q_def stable_place_def)
    have ai: "(ucast (a i AND 0xff) :: u8) = xs ! i"
      using a i low_byte [of "xs ! i" 0] low_byte [of "xs ! i" "of_nat (entry_at ?L i)"] by (auto simp del: low_byte)
    let ?a = "a(q := a q OR push_bit 8 (of_nat i))" and ?c = "c[u := int q + 1]"
    have "?T (Suc i) ?a"
    proof (intro allI impI)
      fix p assume p: "p < ?n"
      have "entry_at ?L p = i \<longleftrightarrow> p = q" using place_entry [of p ?L] p q by (auto simp: q_def)
      then show "?a p = ucast (xs ! p) OR (if entry_at ?L p < Suc i then push_bit 8 (of_nat (entry_at ?L p)) else 0)"
        using a p q by (auto simp: less_Suc_eq)
    qed
    moreover have "?C (Suc i) ?c" using c cu u by (auto simp: lcount_Suc nth_list_update)
    ultimately have "?I (Suc i) (s\<lparr>d_tt := ?a, d_cftab := ?c\<rparr>)" by blast
    moreover have "do { w \<leftarrow> fget (tt_words t) (d_tt t) i;
            let uc = (ucast (w AND 0xff) :: u8);
            c \<leftarrow> aget (d_cftab t) (unat uc);
            x \<leftarrow> ifget (tt_words t) (d_tt t) c;
            a \<leftarrow> ifput (tt_words t) (d_tt t) c (x OR push_bit 8 (of_nat i));
            y \<leftarrow> aput (d_cftab t) (unat uc) (c + 1);
            Some (t\<lparr>d_tt := a, d_cftab := y\<rparr>) } = Some (s\<lparr>d_tt := ?a, d_cftab := ?c\<rparr>)"
      using i n(1) ai c cu q(1) u by (simp add: t Let_def ifget_def ifput_def u_def [symmetric])
    ultimately show "runs (do { w \<leftarrow> fget (tt_words t) (d_tt t) i;
            let uc = (ucast (w AND 0xff) :: u8);
            c \<leftarrow> aget (d_cftab t) (unat uc);
            x \<leftarrow> ifget (tt_words t) (d_tt t) c;
            a \<leftarrow> ifput (tt_words t) (d_tt t) c (x OR push_bit 8 (of_nat i));
            y \<leftarrow> aput (d_cftab t) (unat uc) (c + 1);
            Some (t\<lparr>d_tt := a, d_cftab := y\<rparr>) }) (?I (Suc i))"
      by (simp only: runs_simps)
  qed simp
  then obtain a c where "build_tt ?n s = Some (s\<lparr>d_tt := a, d_cftab := c\<rparr>)" "?T ?n a" "?C ?n c" by (auto simp: runs_iff_Some)
  moreover have "entry_at ?L p < ?n" if "p < ?n" for p using place_entry [of p ?L] that by simp
  ultimately show ?thesis using n by (intro exI [of _ a] exI [of _ c]) (simp add: linked_def)
qed

section \<open>Following the successors\<close>

text \<open>The next byte is number \<open>k\<close> of the block \<open>xs\<close>.\<close>

definition at_byte :: "u8 list \<Rightarrow> nat \<Rightarrow> dstate \<Rightarrow> bool" where
  "at_byte xs k s \<longleftrightarrow> linked (bwt xs) s \<and> (\<exists>p < length xs. d_tPos s = of_nat p \<and> sorted_rows xs ! p = rotate (Suc k) xs)"

lemma length_bwt [simp]: "length (bwt xs) = length xs"
  by (simp add: bwt_def sorted_rows_facts)

lemma last_rotate: "xs \<noteq> [] \<Longrightarrow> last (rotate (Suc k) xs) = xs ! (k mod length xs)"
proof -
  assume xs: "xs \<noteq> []"
  let ?r = "rotate (Suc k) xs"
  have "last ?r = ?r ! (length xs - 1)" using xs by (simp add: last_conv_nth del: rotate_Suc)
  also have "\<dots> = xs ! ((Suc k + (length xs - 1)) mod length xs)" using xs by (intro nth_rotate) simp
  also have "Suc k + (length xs - 1) = k + length xs" using xs by (cases xs) simp_all
  finally show ?thesis by simp
qed

lemma successor:
  assumes "p < length xs" "sorted_rows xs ! p = rotate k (xs :: u8 list)"
  shows "entry_at (vals (bwt xs)) p < length xs" "sorted_rows xs ! entry_at (vals (bwt xs)) p = rotate (Suc k) xs"
proof -
  let ?L = "vals (bwt xs)"
  have e: "entry_at ?L p < length xs" "stable_place ?L (entry_at ?L p) = p" using place_entry [of p ?L] assms(1) by simp_all
  then show "entry_at ?L p < length xs" by simp
  let ?r = "sorted_rows xs ! entry_at ?L p"
  have "?r \<in> set (sorted_rows xs)" using e(1) by (simp add: sorted_rows_facts)
  then have "length ?r = length xs" by (rule sorted_rows_facts(3))
  then have "?r \<noteq> []" using assms(1) by auto
  then have "?r = rotate1 (last_first ?r)" by (simp add: rotate1_last_first)
  also have "last_first ?r = sorted_rows xs ! p" using rows_by_last [OF e(1) refl] e(2) by simp
  finally show "?r = rotate (Suc k) xs" using assms(2) by simp
qed

lemma BZ_GET_FAST_ok:
  assumes "at_byte xs k s"
  shows "\<exists>q. BZ_GET_FAST s = Some (Go (xs ! (k mod length xs)) (s\<lparr>d_tPos := q\<rparr>)) \<and> at_byte xs (Suc k) (s\<lparr>d_tPos := q\<rparr>)"
proof -
  obtain p where p: "p < length xs" "d_tPos s = of_nat p" "sorted_rows xs ! p = rotate (Suc k) xs"
    and l: "linked (bwt xs) s" using assms by (auto simp: at_byte_def)
  let ?e = "entry_at (vals (bwt xs)) p"
  have n: "length xs \<le> tt_words s" "d_blockSize100k s \<le> 9" using l by (simp_all add: linked_def)
  then have le: "tt_words s \<le> 900000" by simp
  have e: "?e < length xs" "sorted_rows xs ! ?e = rotate (Suc (Suc k)) xs" using successor [OF p(1,3)] by simp_all
  have tt: "d_tt s p = ucast (bwt xs ! p) OR push_bit 8 (of_nat ?e)" using l p(1) by (simp add: linked_def)
  have "bwt xs ! p = last (rotate (Suc k) xs)" using p by (simp add: bwt_def sorted_rows_facts)
  also have "\<dots> = xs ! (k mod length xs)" using p(1) by (intro last_rotate) auto
  finally have c: "(ucast (d_tt s p AND 0xff) :: u8) = xs ! (k mod length xs)" by (simp add: tt)
  have "?e < 2 ^ 24" using e(1) n(1) le by simp
  then have d: "drop_bit 8 (d_tt s p) = of_nat ?e" unfolding tt by (rule high_part)
  have u: "unat (of_nat p :: u32) = p" using p(1) n(1) le by (simp add: unat_of_nat)
  have "(of_nat (tt_words s) :: u32) = 100000 * of_nat (d_blockSize100k s)" by simp
  moreover have "(of_nat p :: u32) < of_nat (tt_words s)"
    using p(1) n(1) le by (simp add: word_less_nat_alt unat_of_nat del: of_nat_mult)
  ultimately have "\<not> d_tPos s \<ge> 100000 * of_nat (d_blockSize100k s)" by (simp add: p(2) not_le)
  then have "BZ_GET_FAST s = Some (Go (xs ! (k mod length xs)) (s\<lparr>d_tPos := of_nat ?e\<rparr>))"
    using p(1) n(1) by (simp add: BZ_GET_FAST_def p(2) u c d)
  moreover have "at_byte xs (Suc k) (s\<lparr>d_tPos := of_nat ?e\<rparr>)" using l e by (auto simp: at_byte_def linked_def)
  ultimately show ?thesis by blast
qed

text \<open>What is known of the decompressor when a block with the bytes \<open>bwt xs\<close> has been received.\<close>

definition received :: "u8 list \<Rightarrow> nat \<Rightarrow> dstate \<Rightarrow> bool" where
  "received xs orig s \<longleftrightarrow> orig < length xs \<and> sorted_rows xs ! orig = xs \<and> d_origPtr s = int orig \<and> \<not> d_blockRandomised s
     \<and> stored (bwt xs) s \<and> \<not> d_smallDecompress s \<and> has_counts (bwt xs) s
     \<and> length xs \<le> tt_words s \<and> d_blockSize100k s \<le> 9 \<and> length (d_cftab s) = 257"

text \<open>The inverse of the sorting and the output own a part of the state; the sizes of the arrays stay.\<close>

definition out_frame :: "dstate \<Rightarrow> dstate \<Rightarrow> bool" where
  "out_frame s t \<longleftrightarrow> t\<lparr>d_tt := d_tt s, d_cftab := d_cftab s, d_tPos := d_tPos s, d_k0 := d_k0 s, d_rand := d_rand s,
     d_nblock_used := d_nblock_used s, d_save_nblock := d_save_nblock s, d_state_out_len := d_state_out_len s,
     d_state_out_ch := d_state_out_ch s, d_calculatedBlockCRC := d_calculatedBlockCRC s, d_next_out := d_next_out s,
     d_avail_out := d_avail_out s, d_total_out_lo32 := d_total_out_lo32 s, d_total_out_hi32 := d_total_out_hi32 s\<rparr> = s
     \<and> length (d_cftab t) = length (d_cftab s)"

lemma out_frame_refl [simp]: "out_frame s s"
  by (simp add: out_frame_def)

lemma out_frame_trans:
  assumes "out_frame s t" "out_frame t u"
  shows "out_frame s u"
proof -
  let ?undo = "\<lambda>s t. t\<lparr>d_tt := d_tt s, d_cftab := d_cftab s, d_tPos := d_tPos s, d_k0 := d_k0 s, d_rand := d_rand s,
     d_nblock_used := d_nblock_used s, d_save_nblock := d_save_nblock s, d_state_out_len := d_state_out_len s,
     d_state_out_ch := d_state_out_ch s, d_calculatedBlockCRC := d_calculatedBlockCRC s, d_next_out := d_next_out s,
     d_avail_out := d_avail_out s, d_total_out_lo32 := d_total_out_lo32 s, d_total_out_hi32 := d_total_out_hi32 s\<rparr>"
  have "?undo s u = ?undo s (?undo t u)" by simp
  then show ?thesis using assms unfolding out_frame_def by metis
qed

lemma unsort_fast_ok:
  assumes "received xs orig s"
  shows "\<exists>t. unsort_fast (length xs) s = Some (Go () t) \<and> at_byte xs 1 t \<and> d_k0 t = xs ! 0 \<and> d_nblock_used t = 1
     \<and> d_save_nblock t = length xs \<and> d_state_out_len t = 0 \<and> d_calculatedBlockCRC t = 0xffffffff
     \<and> \<not> d_blockRandomised t \<and> out_frame s t \<and> d_next_out t = d_next_out s \<and> d_avail_out t = d_avail_out s"
proof -
  let ?n = "length xs" and ?L = "vals (bwt xs)"
  note r = assms [unfolded received_def]
  have ne: "xs \<noteq> []" using r by auto
  have n: "?n \<le> 900000" using r by linarith
  have check: "check_counts ?n s = Some (Go () s)" using check_counts_ok [of "bwt xs" s] r by simp
  obtain c where c: "fill_cftab s = Some (s\<lparr>d_cftab := c\<rparr>)" "length c = 257" "\<forall>i \<le> 256. c ! i = int (below ?L ?n i)"
    using fill_cftab_ok [of "bwt xs" s] r n by auto
  define s1 where "s1 = s\<lparr>d_cftab := c\<rparr>"
  have check1: "check_cftab ?n s1 = Some (Go () s1)"
    by (rule check_cftab_ok [of _ ?L]) (use c in \<open>simp_all add: s1_def\<close>)
  define s2 where "s2 = s1\<lparr>d_state_out_len := 0, d_state_out_ch := 0, d_calculatedBlockCRC := 0xffffffff\<rparr>"
  have "\<forall>p < length (bwt xs). d_tt s2 p = ucast (bwt xs ! p)" using r by (simp add: stored_def s1_def s2_def)
  moreover have "length (bwt xs) \<le> tt_words s2" "d_blockSize100k s2 \<le> 9" "length (d_cftab s2) = 257"
      "\<forall>c < 256. d_cftab s2 ! c = int (below ?L (length (bwt xs)) c)"
    using r c by (simp_all add: s1_def s2_def)
  ultimately obtain a e where a: "build_tt ?n s2 = Some (s2\<lparr>d_tt := a, d_cftab := e\<rparr>)" "linked (bwt xs) (s2\<lparr>d_tt := a, d_cftab := e\<rparr>)"
      "length e = 257"
    using build_tt_ok [of "bwt xs" s2] by auto
  define s3 where "s3 = s2\<lparr>d_tt := a, d_cftab := e\<rparr>"
  have same: "d_origPtr s3 = int orig" "\<not> d_blockRandomised s3" "tt_words s3 = tt_words s" "d_state_out_len s3 = 0"
      "d_calculatedBlockCRC s3 = 0xffffffff" "out_frame s s3" "d_next_out s3 = d_next_out s" "d_avail_out s3 = d_avail_out s"
    using r a(3) by (simp_all add: s1_def s2_def s3_def out_frame_def)
  let ?e = "entry_at ?L orig"
  have "sorted_rows xs ! orig = rotate 0 xs" using r by simp
  note suc = successor [of orig xs, OF _ this]
  have e: "?e < ?n" "sorted_rows xs ! ?e = rotate (Suc 0) xs" using suc r by simp_all
  have "d_tt s3 orig = ucast (bwt xs ! orig) OR push_bit 8 (of_nat ?e)" using a(2) r by (simp add: linked_def s3_def)
  moreover have "?e < 2 ^ 24" using e(1) n by simp
  ultimately have w: "drop_bit 8 (d_tt s3 orig) = of_nat ?e" by (simp only: high_part)
  define s4 where "s4 = s3\<lparr>d_tPos := of_nat ?e, d_nblock_used := 0\<rparr>"
  have "at_byte xs 0 s4" using a(2) e by (auto simp: at_byte_def linked_def s4_def s3_def)
  from BZ_GET_FAST_ok [OF this] obtain q where q: "BZ_GET_FAST s4 = Some (Go (xs ! 0) (s4\<lparr>d_tPos := q\<rparr>))" "at_byte xs 1 (s4\<lparr>d_tPos := q\<rparr>)"
    using ne by auto
  let ?t = "s4\<lparr>d_tPos := q, d_nblock_used := 1, d_k0 := xs ! 0\<rparr>"
  have "first_byte s3 = Some (Go () ?t)"
    using same w r q(1) by (simp add: first_byte_def ifget_def Let_def s4_def)
  then have "unsort_fast ?n s = Some (Go () (?t\<lparr>d_save_nblock := ?n\<rparr>))"
    using check c(1) check1 a(1) by (simp add: unsort_fast_def s1_def s2_def s3_def)
  moreover have "at_byte xs 1 (?t\<lparr>d_save_nblock := ?n\<rparr>)" using q(2) by (simp add: at_byte_def linked_def)
  moreover have "out_frame s (?t\<lparr>d_save_nblock := ?n\<rparr>)" using same(6) by (simp add: out_frame_def s4_def)
  ultimately show ?thesis using same by (intro exI [of _ "?t\<lparr>d_save_nblock := ?n\<rparr>"]) (simp add: s4_def)
qed

end
