(* ===== verification/BzRle.thy ===== *)
theory BzRle
  imports BzBits
begin

text \<open>
  The input of the compressor (\<open>benchmarks/wasi/bzip2/bzlib.c\<close>): runs of equal bytes are
  collected and written into the block, from four bytes on with a count of the further ones;
  the bytes in the block are marked in \<open>inUse\<close>, and the CRC of the input is computed.
\<close>

section \<open>What the runs mean\<close>

text \<open>The input that a block stands for; a block that ends where a count is missing stands for none.\<close>

fun unrle :: "u8 list \<Rightarrow> u8 list option" where
  "unrle (a # b # c # d # n # xs) =
     (if a = b \<and> b = c \<and> c = d then map_option (\<lambda>ys. replicate (4 + unat n) a @ ys) (unrle xs)
      else map_option (Cons a) (unrle (b # c # d # n # xs)))"
| "unrle [a, b, c, d] = (if a = b \<and> b = c \<and> c = d then None else Some [a, b, c, d])"
| "unrle xs = Some xs"

lemma unrle_differ: "a \<noteq> b \<Longrightarrow> unrle (a # b # xs) = map_option (Cons a) (unrle (b # xs))"
  by (cases "a # b # xs" rule: unrle.cases) auto

lemma unrle_differ2: "a \<noteq> b \<Longrightarrow> unrle (a # a # b # xs) = map_option (\<lambda>ys. a # a # ys) (unrle (b # xs))"
proof -
  assume ab: "a \<noteq> b"
  have "unrle (a # a # b # xs) = map_option (Cons a) (unrle (a # b # xs))"
    using ab by (cases "a # a # b # xs" rule: unrle.cases) auto
  then show ?thesis using unrle_differ [OF ab] by (simp add: option.map_comp comp_def)
qed

lemma unrle_differ3: "a \<noteq> b \<Longrightarrow> unrle (a # a # a # b # xs) = map_option (\<lambda>ys. a # a # a # ys) (unrle (b # xs))"
proof -
  assume ab: "a \<noteq> b"
  have "unrle (a # a # a # b # xs) = map_option (Cons a) (unrle (a # a # b # xs))"
    using ab by (cases "a # a # a # b # xs" rule: unrle.cases) auto
  then show ?thesis using unrle_differ2 [OF ab] by (simp add: option.map_comp comp_def)
qed

lemma unrle_short: "0 < m \<Longrightarrow> m < 4 \<Longrightarrow> unrle (replicate m a) = Some (replicate m a)"
  by (auto simp: less_Suc_eq numeral_eq_Suc)

lemma unrle_ends: "0 < m \<Longrightarrow> m < 4 \<Longrightarrow> a \<noteq> b \<Longrightarrow> unrle (replicate m a @ b # r) = map_option ((@) (replicate m a)) (unrle (b # r))"
  using unrle_differ [of a b r] unrle_differ2 [of a b r] unrle_differ3 [of a b r]
  by (auto simp: less_Suc_eq numeral_eq_Suc intro!: option.map_cong)

lemma unrle_nonempty: "unrle xs = Some ys \<Longrightarrow> ys = [] \<longleftrightarrow> xs = []"
  by (cases xs rule: unrle.cases) (auto split: if_splits)

lemma replicate_run [simp]:
  "replicate 2 a @ r = a # a # r" "replicate 3 a @ r = a # a # a # r" "replicate 4 a @ r = a # a # a # a # r"
  by (simp_all add: numeral_eq_Suc)

section \<open>The code\<close>

text \<open>[bzip2/bzlib.h 48-66 bz_stream] The input of the stream and the count of what was read.\<close>

record cstate = estate +
  next_in :: "u8 list"
  total_in_lo32 :: u32
  total_in_hi32 :: u32

text \<open>[bzip2/bzlib.c 117-126 prepare_new_block]\<close>

definition prepare_new_block :: "'a estate_scheme \<Rightarrow> 'a estate_scheme option" where
  "prepare_new_block s =
     do { let s = s\<lparr>nblock := 0, numZ := 0, state_out_pos := 0, blockCRC := BZ_INITIALISE_CRC\<rparr>;
          u \<leftarrow> for_in [0..<256] (\<lambda>i u. aput u i False) (inUse s);
          Some (s\<lparr>inUse := u, blockNo := blockNo s + 1\<rparr>) }"

text \<open>[bzip2/bzlib.c 131-135 init_RL]\<close>

definition init_RL :: "'a estate_scheme \<Rightarrow> 'a estate_scheme" where
  "init_RL s = s\<lparr>state_in_ch := 256, state_in_len := 0\<rparr>"

text \<open>[bzip2/bzlib.c 139-144 isempty_RL]\<close>

definition isempty_RL :: "'a estate_scheme \<Rightarrow> bool" where
  "isempty_RL s \<longleftrightarrow> \<not> (state_in_ch s < 256 \<and> state_in_len s > 0)"

text \<open>[bzip2/bzlib.c 226-226 add_pair_to_block] A byte of the block, which is in \<open>arr2\<close>.\<close>

definition put_block :: "u8 \<Rightarrow> 'a estate_scheme \<Rightarrow> 'a estate_scheme option" where
  "put_block c s = do { a \<leftarrow> fput (arr2_bytes s) (arr2 s) (nblock s) c; Some (s\<lparr>arr2 := a, nblock := nblock s + 1\<rparr>) }"

text \<open>[bzip2/bzlib.c 223-223 add_pair_to_block]\<close>

definition mark_used :: "nat \<Rightarrow> 'a estate_scheme \<Rightarrow> 'a estate_scheme option" where
  "mark_used i s = do { u \<leftarrow> aput (inUse s) i True; Some (s\<lparr>inUse := u\<rparr>) }"

text \<open>[bzip2/bzlib.c 216-247 add_pair_to_block] With a length below four in the last case the index is negative.\<close>

definition add_pair_to_block :: "'a estate_scheme \<Rightarrow> 'a estate_scheme option" where
  "add_pair_to_block s =
     do { let ch = (of_nat (state_in_ch s) :: u8);
          let n = state_in_len s;
          s \<leftarrow> mark_used (state_in_ch s) (s\<lparr>blockCRC := (BZ_UPDATE_CRC ch ^^ n) (blockCRC s)\<rparr>);
          if n = 1 then put_block ch s
          else if n = 2 then do { s \<leftarrow> put_block ch s; put_block ch s }
          else if n = 3 then do { s \<leftarrow> put_block ch s; s \<leftarrow> put_block ch s; put_block ch s }
          else do { guard (4 \<le> n);
                    s \<leftarrow> mark_used (n - 4) s;
                    s \<leftarrow> put_block ch s; s \<leftarrow> put_block ch s; s \<leftarrow> put_block ch s; s \<leftarrow> put_block ch s;
                    put_block (of_nat (n - 4)) s } }"

text \<open>[bzip2/bzlib.c 252-256 flush_RL]\<close>

definition flush_RL :: "'a estate_scheme \<Rightarrow> 'a estate_scheme option" where
  "flush_RL s = do { s \<leftarrow> if state_in_ch s < 256 then add_pair_to_block s else Some s; Some (init_RL s) }"

text \<open>[bzip2/bzlib.c 260-284 ADD_CHAR_TO_BLOCK]\<close>

definition ADD_CHAR_TO_BLOCK :: "u8 \<Rightarrow> 'a estate_scheme \<Rightarrow> 'a estate_scheme option" where
  "ADD_CHAR_TO_BLOCK c s =
     (let zchh = unat c in
      if zchh \<noteq> state_in_ch s \<and> state_in_len s = 1
      then do { let ch = (of_nat (state_in_ch s) :: u8);
                s \<leftarrow> mark_used (state_in_ch s) (s\<lparr>blockCRC := BZ_UPDATE_CRC ch (blockCRC s)\<rparr>);
                s \<leftarrow> put_block ch s;
                Some (s\<lparr>state_in_ch := zchh\<rparr>) }
      else if zchh \<noteq> state_in_ch s \<or> state_in_len s = 255
      then do { s \<leftarrow> if state_in_ch s < 256 then add_pair_to_block s else Some s;
                Some (s\<lparr>state_in_ch := zchh, state_in_len := 1\<rparr>) }
      else Some (s\<lparr>state_in_len := state_in_len s + 1\<rparr>))"

text \<open>
  [bzip2/bzlib.c 289-329 copy_input_until_stop] The result tells whether input was read. The bytes of
  \<open>next_in\<close> are \<open>avail_in\<close> many.
\<close>

fun copy_input :: "u8 list \<Rightarrow> bool \<Rightarrow> 'a cstate_scheme \<Rightarrow> (bool \<times> 'a cstate_scheme) option" where
  "copy_input avail progress_in s =
     (if nblock s \<ge> nblockMAX s then Some (progress_in, s\<lparr>next_in := avail\<rparr>)
      else case avail of
             [] \<Rightarrow> Some (progress_in, s\<lparr>next_in := avail\<rparr>)
           | c # rest \<Rightarrow>
               if mode s \<noteq> BZ_M_RUNNING \<and> avail_in_expect s = 0 then Some (progress_in, s\<lparr>next_in := avail\<rparr>)
               else do { s \<leftarrow> ADD_CHAR_TO_BLOCK c s;
                         let lo = total_in_lo32 s + 1;
                         let s = s\<lparr>total_in_lo32 := lo, total_in_hi32 := (if lo = 0 then total_in_hi32 s + 1 else total_in_hi32 s)\<rparr>;
                         copy_input rest True
                           (if mode s = BZ_M_RUNNING then s else s\<lparr>avail_in_expect := avail_in_expect s - 1\<rparr>) })"

declare copy_input.simps [simp del]

definition copy_input_until_stop :: "'a cstate_scheme \<Rightarrow> (bool \<times> 'a cstate_scheme) option" where
  "copy_input_until_stop s = copy_input (next_in s) False s"


section \<open>The runs in the block\<close>

definition block_of :: "'a estate_scheme \<Rightarrow> u8 list" where
  "block_of s = map (arr2 s) [0..<nblock s]"

definition enc_run :: "u8 \<Rightarrow> nat \<Rightarrow> u8 list" where
  "enc_run c m = replicate (min m 4) c @ (if 4 \<le> m then [of_nat (m - 4)] else [])"

text \<open>The bytes \<open>xs\<close> stand for \<open>ys\<close> whatever follows them, but not byte \<open>b\<close>.\<close>

definition closed_runs :: "u8 list \<Rightarrow> u8 list \<Rightarrow> u8 option \<Rightarrow> bool" where
  "closed_runs xs ys b \<longleftrightarrow> (\<forall>r. r = [] \<or> b \<noteq> Some (hd r) \<longrightarrow> unrle (xs @ r) = map_option ((@) ys) (unrle r))"

lemma closed_runs_Nil: "closed_runs [] [] b"
proof -
  have "(@) [] = (id :: u8 list \<Rightarrow> u8 list)" by (rule ext) simp
  then show ?thesis by (simp add: closed_runs_def option.map_id)
qed

lemma closed_runs_unrle: "closed_runs xs ys b \<Longrightarrow> unrle xs = Some ys"
  unfolding closed_runs_def by (drule spec [of _ "[]"]) simp

lemma enc_run_less: "m < 4 \<Longrightarrow> enc_run c m = replicate m c"
  by (simp add: enc_run_def)

lemma enc_run_more: "4 \<le> m \<Longrightarrow> enc_run c m = [c, c, c, c, of_nat (m - 4)]"
  by (simp add: enc_run_def)

lemma closed_runs_run:
  assumes "closed_runs xs ys b" "b \<noteq> Some c" "1 \<le> m" "m \<le> 255"
  shows "closed_runs (xs @ enc_run c m) (ys @ replicate m c) (if m < 4 then Some c else None)"
  unfolding closed_runs_def
proof (intro allI impI)
  fix r assume r: "r = [] \<or> (if m < 4 then Some c else None) \<noteq> Some (hd r)"
  have "hd (enc_run c m @ r) = c" "enc_run c m @ r \<noteq> []" using assms(3) by (cases m; simp add: enc_run_def)+
  then have "unrle (xs @ enc_run c m @ r) = map_option ((@) ys) (unrle (enc_run c m @ r))"
    using assms(1,2) by (simp add: closed_runs_def)
  moreover have "unrle (enc_run c m @ r) = map_option ((@) (replicate m c)) (unrle r)"
  proof (cases "m < 4")
    case True
    then show ?thesis using r assms(3) unrle_short [of m c] unrle_ends [of m c "hd r" "tl r"]
      by (cases r) (simp_all add: enc_run_less)
  next
    case False
    then have "4 + unat (of_nat (m - 4) :: u8) = m" using assms(4) by (simp add: unat_of_nat del: of_nat_diff)
    then show ?thesis using False by (simp add: enc_run_more del: of_nat_diff)
  qed
  moreover have "(@) (ys @ replicate m c) = (\<lambda>x. ys @ replicate m c @ x)" by (rule ext) simp
  ultimately show "unrle ((xs @ enc_run c m) @ r) = map_option ((@) (ys @ replicate m c)) (unrle r)"
    by (simp add: option.map_comp comp_def)
qed

text \<open>The input that was read for the block: what is in it, and the run that is collected.\<close>

definition rl_run :: "'a estate_scheme \<Rightarrow> bool" where
  "rl_run s \<longleftrightarrow> (if state_in_ch s < 256 then 1 \<le> state_in_len s \<and> state_in_len s \<le> 255
     else state_in_ch s = 256 \<and> state_in_len s = 0)"

definition rl_inv :: "u8 list \<Rightarrow> 'a estate_scheme \<Rightarrow> bool" where
  "rl_inv ys s \<longleftrightarrow> rl_run s \<and> length (inUse s) = 256 \<and> (\<forall>c \<in> set (block_of s). inUse s ! unat c)
     \<and> (\<exists>zs b. closed_runs (block_of s) zs b \<and> ys = zs @ replicate (state_in_len s) (of_nat (state_in_ch s))
          \<and> blockCRC s = fold BZ_UPDATE_CRC zs BZ_INITIALISE_CRC
          \<and> (if state_in_ch s < 256 then b \<noteq> Some (of_nat (state_in_ch s)) else b = None))"

text \<open>The run is put into the block.\<close>

definition run_put :: "'a estate_scheme \<Rightarrow> 'a estate_scheme \<Rightarrow> bool" where
  "run_put s t \<longleftrightarrow> (let c = of_nat (state_in_ch s); m = state_in_len s in \<exists>a u.
     t = s\<lparr>arr2 := a, nblock := nblock s + length (enc_run c m), inUse := u,
           blockCRC := fold BZ_UPDATE_CRC (replicate m c) (blockCRC s)\<rparr>
     \<and> block_of t = block_of s @ enc_run c m \<and> length u = 256
     \<and> (\<forall>i < 256. inUse s ! i \<longrightarrow> u ! i) \<and> (\<forall>c \<in> set (enc_run c m). u ! unat c))"

lemma arr2_bytes_input [simp]:
  "arr2_bytes (s\<lparr>nblock := n\<rparr>) = arr2_bytes s" "arr2_bytes (s\<lparr>inUse := u\<rparr>) = arr2_bytes s"
  "arr2_bytes (s\<lparr>blockCRC := c\<rparr>) = arr2_bytes s" "arr2_bytes (s\<lparr>state_in_ch := n\<rparr>) = arr2_bytes s"
  "arr2_bytes (s\<lparr>state_in_len := n\<rparr>) = arr2_bytes s"
  by (simp_all add: arr2_bytes_def)

lemma fold_replicate: "fold f (replicate n x) = f x ^^ n"
  by (induction n) (simp_all add: funpow_swap1 fun_eq_iff)

text \<open>The array with the bytes \<open>cs\<close> from place \<open>n\<close> on.\<close>

definition over :: "(nat \<Rightarrow> 'b) \<Rightarrow> nat \<Rightarrow> 'b list \<Rightarrow> nat \<Rightarrow> 'b" where
  "over a n cs = (\<lambda>i. if n \<le> i \<and> i < n + length cs then cs ! (i - n) else a i)"

lemma over_Nil: "over a n [] = a"
  by (rule ext) (auto simp: over_def)

lemma over_Cons: "over (a(n := c)) (Suc n) cs = over a n (c # cs)"
  by (auto simp: over_def fun_eq_iff nth_Cons' split: if_splits)

lemma map_over: "map (over a n cs) [0..<n + length cs] = map a [0..<n] @ cs"
  by (rule nth_equalityI) (auto simp: over_def nth_append)

lemma put_blocks:
  "nblock s + length cs \<le> arr2_bytes s \<Longrightarrow>
     for_in cs put_block s = Some (s\<lparr>arr2 := over (arr2 s) (nblock s) cs, nblock := nblock s + length cs\<rparr>)"
proof (induction cs arbitrary: s)
  case Nil
  then show ?case by (simp add: over_Nil)
next
  case (Cons c cs)
  have "put_block c s = Some (s\<lparr>arr2 := (arr2 s)(nblock s := c), nblock := nblock s + 1\<rparr>)"
    using Cons.prems by (simp add: put_block_def)
  then show ?case using Cons by (simp add: over_Cons [symmetric] fun_upd_def)
qed

lemma add_pair_put:
  assumes "1 \<le> state_in_len s"
  shows "add_pair_to_block s =
     (let c = of_nat (state_in_ch s); m = state_in_len s in
      do { s \<leftarrow> mark_used (state_in_ch s) (s\<lparr>blockCRC := (BZ_UPDATE_CRC c ^^ m) (blockCRC s)\<rparr>);
           s \<leftarrow> if 4 \<le> m then mark_used (m - 4) s else Some s;
           for_in (enc_run c m) put_block s })"
proof -
  have "state_in_len s = 1 \<or> state_in_len s = 2 \<or> state_in_len s = 3 \<or> 4 \<le> state_in_len s" using assms by linarith
  then show ?thesis
    by (elim disjE) (simp_all add: add_pair_to_block_def enc_run_less enc_run_more Let_def for_in_Cons_fun mark_used_def numeral_eq_Suc del: of_nat_diff)
qed


lemma add_pair_ok:
  assumes "state_in_ch s < 256" "rl_run s" "length (inUse s) = 256" "nblock s + 5 \<le> arr2_bytes s"
  obtains t where "add_pair_to_block s = Some t" "run_put s t"
proof -
  define c :: u8 where "c = of_nat (state_in_ch s)"
  define m where "m = state_in_len s"
  have m: "1 \<le> m" "m \<le> 255" using assms(1,2) by (simp_all add: rl_run_def m_def)
  have len: "length (enc_run c m) \<le> 5" by (simp add: enc_run_def)
  have c: "unat c = state_in_ch s" using assms(1) by (simp add: c_def unat_of_nat)
  let ?u = "(inUse s)[state_in_ch s := True]"
  let ?v = "if 4 \<le> m then ?u[m - 4 := True] else ?u"
  let ?crc = "(BZ_UPDATE_CRC c ^^ m) (blockCRC s)"
  let ?t = "s\<lparr>arr2 := over (arr2 s) (nblock s) (enc_run c m), nblock := nblock s + length (enc_run c m), inUse := ?v, blockCRC := ?crc\<rparr>"
  have puts: "for_in (enc_run c m) put_block (s\<lparr>blockCRC := ?crc, inUse := ?v\<rparr>) = Some ?t"
    using len assms(4) by (subst put_blocks) simp_all
  have "add_pair_to_block s = for_in (enc_run c m) put_block (s\<lparr>blockCRC := ?crc, inUse := ?v\<rparr>)"
    unfolding add_pair_put [OF m(1) [unfolded m_def]] Let_def c_def [symmetric] m_def [symmetric]
    using assms(1,3) m(2) by (simp add: mark_used_def)
  then have add: "add_pair_to_block s = Some ?t" unfolding puts .
  have "?v ! unat d" if "d \<in> set (enc_run c m)" for d
  proof -
    have "d = c \<or> 4 \<le> m \<and> d = of_nat (m - 4)" using that by (auto simp: enc_run_def simp del: of_nat_diff split: if_splits)
    moreover have "unat (of_nat (m - 4) :: u8) = m - 4" using m(2) by (simp add: unat_of_nat del: of_nat_diff)
    ultimately show ?thesis using assms(1,3) m(2) c by (auto simp: nth_list_update simp del: of_nat_diff)
  qed
  moreover have "\<forall>i < 256. inUse s ! i \<longrightarrow> ?v ! i" using assms(1,3) m(2) by (auto simp: nth_list_update)
  ultimately have "run_put s ?t"
    unfolding run_put_def Let_def c_def [symmetric] m_def [symmetric]
    using assms(3) by (intro exI [of _ "over (arr2 s) (nblock s) (enc_run c m)"] exI [of _ ?v])
      (simp add: fold_replicate block_of_def map_over)
  then show thesis by (rule that [OF add])
qed

lemma run_put_inv:
  assumes "rl_inv ys s" "state_in_ch s < 256" "run_put s t"
  shows "\<exists>b. closed_runs (block_of t) ys b \<and> (state_in_len s = 255 \<or> d \<noteq> of_nat (state_in_ch s) \<longrightarrow> b \<noteq> Some d)"
    "blockCRC t = fold BZ_UPDATE_CRC ys BZ_INITIALISE_CRC" "length (inUse t) = 256" "\<forall>c \<in> set (block_of t). inUse t ! unat c"
    "nblock t \<le> nblock s + 5"
proof -
  let ?c = "of_nat (state_in_ch s) :: u8" and ?m = "state_in_len s"
  obtain zs b where zs: "closed_runs (block_of s) zs b" "ys = zs @ replicate ?m ?c" "blockCRC s = fold BZ_UPDATE_CRC zs BZ_INITIALISE_CRC"
     "b \<noteq> Some ?c" and m: "1 \<le> ?m" "?m \<le> 255"
    using assms(1,2) by (auto simp: rl_inv_def rl_run_def)
  obtain a u where t: "t = s\<lparr>arr2 := a, nblock := nblock s + length (enc_run ?c ?m), inUse := u,
           blockCRC := fold BZ_UPDATE_CRC (replicate ?m ?c) (blockCRC s)\<rparr>"
    and u: "block_of t = block_of s @ enc_run ?c ?m" "length u = 256" "\<forall>i < 256. inUse s ! i \<longrightarrow> u ! i" "\<forall>c \<in> set (enc_run ?c ?m). u ! unat c"
    using assms(3) by (auto simp: run_put_def Let_def)
  show "\<exists>b. closed_runs (block_of t) ys b \<and> (?m = 255 \<or> d \<noteq> ?c \<longrightarrow> b \<noteq> Some d)"
    using closed_runs_run [OF zs(1,4) m] unfolding u(1) zs(2) by (intro exI conjI) (auto split: if_splits)
  show "blockCRC t = fold BZ_UPDATE_CRC ys BZ_INITIALISE_CRC" "length (inUse t) = 256" "nblock t \<le> nblock s + 5"
    using zs(2,3) u(2) by (simp_all add: t enc_run_def)
  have "unat c < 256" for c :: u8 by (rule unat_u8_less)
  then show "\<forall>c \<in> set (block_of t). inUse t ! unat c" using u assms(1) by (auto simp: t rl_inv_def)
qed


text \<open>What collecting the input changes.\<close>

definition rl_frame :: "'a estate_scheme \<Rightarrow> 'a estate_scheme \<Rightarrow> bool" where
  "rl_frame s t \<longleftrightarrow> (\<exists>a n u crc ch l. t = s\<lparr>arr2 := a, nblock := n, inUse := u, blockCRC := crc, state_in_ch := ch, state_in_len := l\<rparr>)"

lemma rl_frame_refl [simp]: "rl_frame s s"
  unfolding rl_frame_def
  by (intro exI [of _ "arr2 s"] exI [of _ "nblock s"] exI [of _ "inUse s"] exI [of _ "blockCRC s"] exI [of _ "state_in_ch s"]
      exI [of _ "state_in_len s"]) simp

lemma rl_frame_trans: "rl_frame s t \<Longrightarrow> rl_frame t u \<Longrightarrow> rl_frame s u"
  unfolding rl_frame_def by fastforce

lemma rl_frame_run: "run_put s t \<Longrightarrow> rl_frame s (t\<lparr>state_in_ch := c, state_in_len := m\<rparr>)"
  unfolding run_put_def rl_frame_def Let_def by (elim exE conjE) (intro exI, simp only: estate.surjective estate.update_convs estate.simps)

lemma rl_frame_bytes: "rl_frame s t \<Longrightarrow> arr2_bytes t = arr2_bytes s"
  by (auto simp: rl_frame_def)

lemma block_of_run [simp]: "block_of (s\<lparr>state_in_ch := c, state_in_len := m\<rparr>) = block_of s"
  by (simp add: block_of_def)

text \<open>A run is closed and the next begins.\<close>

lemma next_run:
  assumes "rl_inv ys s" "nblock s + 5 \<le> arr2_bytes s" "unat c \<noteq> state_in_ch s \<or> state_in_len s = 255"
  shows "\<exists>t. (if state_in_ch s < 256 then add_pair_to_block s else Some s) = Some t
     \<and> rl_inv (ys @ [c]) (t\<lparr>state_in_ch := unat c, state_in_len := 1\<rparr>) \<and> nblock t \<le> nblock s + 5
     \<and> rl_frame s (t\<lparr>state_in_ch := unat c, state_in_len := 1\<rparr>) \<and> state_in_len t = state_in_len s"
proof (cases "state_in_ch s < 256")
  case True
  obtain t where t: "add_pair_to_block s = Some t" "run_put s t"
    using add_pair_ok [of s] assms True by (auto simp: rl_inv_def)
  note inv = run_put_inv [OF assms(1) True t(2)]
  have "c \<noteq> of_nat (state_in_ch s) \<or> state_in_len s = 255" using assms(3) True by (auto simp: unat_of_nat)
  then obtain b where b: "closed_runs (block_of t) ys b" "b \<noteq> Some c" using inv(1) [of c] by blast
  have "rl_inv (ys @ [c]) (t\<lparr>state_in_ch := unat c, state_in_len := 1\<rparr>)"
    using b inv(2-4) by (auto simp: rl_inv_def rl_run_def)
  moreover have "state_in_len t = state_in_len s" using t(2) by (auto simp: run_put_def Let_def)
  ultimately show ?thesis using True t(1) inv(5) rl_frame_run [OF t(2)] by (intro exI [of _ t]) simp
next
  case False
  then have s: "state_in_ch s = 256" "state_in_len s = 0" using assms(1) by (simp_all add: rl_inv_def rl_run_def split: if_splits)
  then have c: "closed_runs (block_of s) ys None" "blockCRC s = fold BZ_UPDATE_CRC ys BZ_INITIALISE_CRC" "length (inUse s) = 256"
      "\<forall>c \<in> set (block_of s). inUse s ! unat c" using assms(1) by (auto simp: rl_inv_def)
  have "rl_inv (ys @ [c]) (s\<lparr>state_in_ch := unat c, state_in_len := 1\<rparr>)"
    unfolding rl_inv_def using c by (intro conjI exI [of _ ys] exI [of _ None]) (simp_all add: rl_run_def)
  moreover have "rl_frame s (s\<lparr>state_in_ch := unat c, state_in_len := 1\<rparr>)"
    unfolding rl_frame_def
    by (intro exI [of _ "arr2 s"] exI [of _ "nblock s"] exI [of _ "inUse s"] exI [of _ "blockCRC s"] exI [of _ "unat c"] exI [of _ 1]) simp
  ultimately show ?thesis using False by (intro exI [of _ s]) simp
qed

lemma ADD_CHAR_ok:
  assumes "rl_inv ys s" "nblock s + 5 \<le> arr2_bytes s"
  shows "\<exists>t. ADD_CHAR_TO_BLOCK c s = Some t \<and> rl_inv (ys @ [c]) t \<and> nblock t \<le> nblock s + 5 \<and> rl_frame s t"
proof (cases "unat c \<noteq> state_in_ch s \<or> state_in_len s = 255")
  case True
  obtain t where t: "(if state_in_ch s < 256 then add_pair_to_block s else Some s) = Some t"
     "rl_inv (ys @ [c]) (t\<lparr>state_in_ch := unat c, state_in_len := 1\<rparr>)" "nblock t \<le> nblock s + 5"
     "rl_frame s (t\<lparr>state_in_ch := unat c, state_in_len := 1\<rparr>)" "state_in_len t = state_in_len s"
    using next_run [OF assms True] by blast
  have "ADD_CHAR_TO_BLOCK c s = Some (t\<lparr>state_in_ch := unat c, state_in_len := 1\<rparr>)"
  proof (cases "unat c \<noteq> state_in_ch s \<and> state_in_len s = 1")
    case True
    then have ch: "state_in_ch s < 256" using assms(1) by (simp add: rl_inv_def rl_run_def split: if_splits)
    then have "add_pair_to_block s = Some t" using t(1) by simp
    moreover have "t\<lparr>state_in_ch := unat c, state_in_len := 1\<rparr> = t\<lparr>state_in_ch := unat c\<rparr>"
      using t(5) True by simp
    ultimately show ?thesis using True by (auto simp: ADD_CHAR_TO_BLOCK_def add_pair_to_block_def Let_def bind_eq_Some_conv)
  next
    case False
    show ?thesis unfolding ADD_CHAR_TO_BLOCK_def Let_def if_not_P [OF False] if_P [OF True] t(1) by simp
  qed
  then show ?thesis using t(2-4) by (intro exI [of _ "t\<lparr>state_in_ch := unat c, state_in_len := 1\<rparr>"]) simp
next
  case False
  then have s: "state_in_ch s = unat c" "state_in_len s < 255" "1 \<le> state_in_len s"
    using assms(1) unat_u8_less [of c] by (auto simp: rl_inv_def rl_run_def)
  let ?t = "s\<lparr>state_in_len := state_in_len s + 1\<rparr>"
  have "ADD_CHAR_TO_BLOCK c s = Some ?t" using False by (simp add: ADD_CHAR_TO_BLOCK_def Let_def)
  moreover have "rl_inv (ys @ [c]) ?t"
    using assms(1) s by (auto simp: rl_inv_def rl_run_def block_of_def replicate_append_same)
  moreover have "rl_frame s ?t"
    unfolding rl_frame_def
    by (intro exI [of _ "arr2 s"] exI [of _ "nblock s"] exI [of _ "inUse s"] exI [of _ "blockCRC s"] exI [of _ "state_in_ch s"]
        exI [of _ "state_in_len s + 1"]) simp
  ultimately show ?thesis by (intro exI [of _ ?t]) simp
qed


section \<open>The input is copied\<close>

text \<open>The two halves of the counter.\<close>

definition count64 :: "u32 \<Rightarrow> u32 \<Rightarrow> nat" where
  "count64 hi lo = unat hi * 2 ^ 32 + unat lo"

lemma unat_u32_less: "unat (w :: u32) < 2 ^ 32"
  using unsigned_less [where ?'a = nat, of w] by simp

lemma count64_less: "count64 hi lo < 2 ^ 64"
  using unat_u32_less [of hi] unat_u32_less [of lo] by (simp add: count64_def)

lemma count64_Suc: "count64 (if lo + 1 = 0 then hi + 1 else hi) (lo + 1) = (count64 hi lo + 1) mod 2 ^ 64"
proof -
  have L: "unat (lo + 1) = (unat lo + 1) mod 2 ^ 32" and H: "unat (hi + 1) = (unat hi + 1) mod 2 ^ 32"
    by (simp_all add: unat_word_ariths)
  have bound: "unat lo < 2 ^ 32" "unat hi < 2 ^ 32" using unsigned_less [of lo] unsigned_less [of hi] by simp_all
  show ?thesis
  proof (cases "lo + 1 = 0")
    case True
    then have "(unat lo + 1) mod 2 ^ 32 = 0" using L by simp
    then have "unat lo = 2 ^ 32 - 1" using bound(1) by (cases "unat lo + 1 = 2 ^ 32") simp_all
    then have "(count64 hi lo + 1) mod 2 ^ 64 = ((unat hi + 1) * 2 ^ 32) mod (2 ^ 32 * 2 ^ 32)" by (simp add: count64_def)
    also have "\<dots> = ((unat hi + 1) mod 2 ^ 32) * 2 ^ 32" by (rule mod_mult_mult2)
    finally show ?thesis using True H by (simp add: count64_def)
  next
    case False
    then have "(unat lo + 1) mod 2 ^ 32 \<noteq> 0" using L by (metis unat_eq_zero)
    then have "unat lo + 1 < 2 ^ 32" using bound(1) by (cases "unat lo + 1 = 2 ^ 32") simp_all
    then show ?thesis using False L bound by (simp add: count64_def)
  qed
qed

text \<open>What copying changes besides the input and its counts.\<close>

definition in_frame :: "'a cstate_scheme \<Rightarrow> 'a cstate_scheme \<Rightarrow> bool" where
  "in_frame s t \<longleftrightarrow> t\<lparr>arr2 := arr2 s, nblock := nblock s, inUse := inUse s, blockCRC := blockCRC s, state_in_ch := state_in_ch s,
     state_in_len := state_in_len s, avail_in_expect := avail_in_expect s, next_in := next_in s,
     total_in_lo32 := total_in_lo32 s, total_in_hi32 := total_in_hi32 s\<rparr> = s"

lemma in_frame_trans: "in_frame s t \<Longrightarrow> in_frame t u \<Longrightarrow> in_frame s u"
proof -
  assume st: "in_frame s t" and tu: "in_frame t u"
  let ?undo = "\<lambda>s t. t\<lparr>arr2 := arr2 s, nblock := nblock s, inUse := inUse s, blockCRC := blockCRC s, state_in_ch := state_in_ch s,
     state_in_len := state_in_len s, avail_in_expect := avail_in_expect s, next_in := next_in s,
     total_in_lo32 := total_in_lo32 s, total_in_hi32 := total_in_hi32 s\<rparr>"
  have "?undo s u = ?undo s (?undo t u)" by simp
  then show ?thesis using st tu unfolding in_frame_def by metis
qed

lemma in_frame_rl: "rl_frame s t \<Longrightarrow>
    in_frame s (t\<lparr>total_in_lo32 := lo, total_in_hi32 := hi\<rparr>) \<and> in_frame s (t\<lparr>total_in_lo32 := lo, total_in_hi32 := hi, avail_in_expect := e\<rparr>)"
  by (auto simp: rl_frame_def in_frame_def)

lemma in_frame_same:
  assumes "in_frame s t"
  shows "nblockMAX t = nblockMAX s" "mode t = mode s" "blockSize100k t = blockSize100k s"
proof -
  define u where "u = t\<lparr>arr2 := arr2 s, nblock := nblock s, inUse := inUse s, blockCRC := blockCRC s, state_in_ch := state_in_ch s,
     state_in_len := state_in_len s, avail_in_expect := avail_in_expect s, next_in := next_in s,
     total_in_lo32 := total_in_lo32 s, total_in_hi32 := total_in_hi32 s\<rparr>"
  have s: "u = s" using assms by (simp add: in_frame_def u_def)
  show "nblockMAX t = nblockMAX s" "mode t = mode s" "blockSize100k t = blockSize100k s"
    by (simp_all add: s [symmetric]) (simp_all add: u_def)
qed

text \<open>Why the copying stops.\<close>

definition stopped :: "'a cstate_scheme \<Rightarrow> bool" where
  "stopped s \<longleftrightarrow> nblock s \<ge> nblockMAX s \<or> next_in s = [] \<or> mode s \<noteq> BZ_M_RUNNING \<and> avail_in_expect s = 0"

lemma rl_frame_input: "rl_frame s t \<Longrightarrow> total_in_lo32 t = total_in_lo32 s \<and> total_in_hi32 t = total_in_hi32 s
    \<and> mode t = mode s \<and> avail_in_expect t = avail_in_expect s"
  by (auto simp: rl_frame_def)

lemma rl_inv_input: "rl_inv ys (s\<lparr>total_in_lo32 := lo, total_in_hi32 := hi\<rparr>) = rl_inv ys s"
  "rl_inv ys (s\<lparr>total_in_lo32 := lo, total_in_hi32 := hi, avail_in_expect := e\<rparr>) = rl_inv ys s"
  "rl_inv ys (s\<lparr>next_in := xs\<rparr>) = rl_inv ys s"
  by (simp_all add: rl_inv_def rl_run_def block_of_def)

lemma copy_input_ok:
  assumes "rl_inv ys s" "nblockMAX s + 4 \<le> arr2_bytes s" "nblock s \<le> nblockMAX s + 4"
  shows "\<exists>t cs. copy_input avail p s = Some (p \<or> cs \<noteq> [], t) \<and> avail = cs @ next_in t \<and> rl_inv (ys @ cs) t
     \<and> nblock t \<le> nblockMAX s + 4 \<and> stopped t \<and> in_frame s t
     \<and> (avail \<noteq> [] \<and> nblock s < nblockMAX s \<and> mode s = BZ_M_RUNNING \<longrightarrow> cs \<noteq> [])
     \<and> count64 (total_in_hi32 t) (total_in_lo32 t) = (count64 (total_in_hi32 s) (total_in_lo32 s) + length cs) mod 2 ^ 64"
  using assms
proof (induction avail arbitrary: ys p s)
  case Nil
  have "copy_input [] p s = Some (p, s\<lparr>next_in := []\<rparr>)" by (simp add: copy_input.simps)
  then show ?case using Nil count64_less [of "total_in_hi32 s" "total_in_lo32 s"]
    by (intro exI [of _ "s\<lparr>next_in := []\<rparr>"] exI [of _ "[]"]) (simp add: rl_inv_input stopped_def in_frame_def)
next
  case (Cons c rest)
  show ?case
  proof (cases "nblock s \<ge> nblockMAX s \<or> mode s \<noteq> BZ_M_RUNNING \<and> avail_in_expect s = 0")
    case True
    then have "copy_input (c # rest) p s = Some (p, s\<lparr>next_in := c # rest\<rparr>)" by (auto simp: copy_input.simps)
    then show ?thesis using Cons.prems True count64_less [of "total_in_hi32 s" "total_in_lo32 s"]
      by (intro exI [of _ "s\<lparr>next_in := c # rest\<rparr>"] exI [of _ "[]"]) (auto simp: rl_inv_input stopped_def in_frame_def)
  next
    case False
    obtain t where t: "ADD_CHAR_TO_BLOCK c s = Some t" "rl_inv (ys @ [c]) t" "nblock t \<le> nblock s + 5" "rl_frame s t"
      using ADD_CHAR_ok [OF Cons.prems(1), of c] Cons.prems(2) False by auto
    define lo where "lo = total_in_lo32 s + 1"
    define hi where "hi = (if lo = 0 then total_in_hi32 s + 1 else total_in_hi32 s)"
    define u where "u = (if mode s = BZ_M_RUNNING then t\<lparr>total_in_lo32 := lo, total_in_hi32 := hi\<rparr>
       else t\<lparr>total_in_lo32 := lo, total_in_hi32 := hi, avail_in_expect := avail_in_expect s - 1\<rparr>)"
    have u: "rl_inv (ys @ [c]) u" "in_frame s u" "nblock u = nblock t" "arr2_bytes u = arr2_bytes s"
        "total_in_lo32 u = lo" "total_in_hi32 u = hi"
      using t(2) in_frame_rl [OF t(4)] rl_frame_bytes [OF t(4)] by (simp_all add: u_def rl_inv_input arr2_bytes_def)
    note same = in_frame_same [OF u(2)]
    have copy: "copy_input (c # rest) p s = copy_input rest True u"
      using False t(1) rl_frame_input [OF t(4)] by (subst copy_input.simps) (auto simp: u_def lo_def hi_def Let_def)
    obtain v cs where v: "copy_input rest True u = Some (True \<or> cs \<noteq> [], v)" "rest = cs @ next_in v" "rl_inv ((ys @ [c]) @ cs) v"
        "nblock v \<le> nblockMAX u + 4" "stopped v" "in_frame u v"
        "count64 (total_in_hi32 v) (total_in_lo32 v) = (count64 (total_in_hi32 u) (total_in_lo32 u) + length cs) mod 2 ^ 64"
      using Cons.IH [OF u(1), of True] u(3,4) same t(3) Cons.prems(2) False by auto
    have "count64 hi lo = (count64 (total_in_hi32 s) (total_in_lo32 s) + 1) mod 2 ^ 64"
      unfolding hi_def lo_def by (rule count64_Suc)
    then have "count64 (total_in_hi32 v) (total_in_lo32 v) = (count64 (total_in_hi32 s) (total_in_lo32 s) + length (c # cs)) mod 2 ^ 64"
      unfolding v(7) u(5,6) by (simp add: mod_add_left_eq)
    then show ?thesis using copy v same in_frame_trans [OF u(2) v(6)]
      by (intro exI [of _ v] exI [of _ "c # cs"]) simp
  qed
qed

text \<open>A new block begins with the run that is collected.\<close>

lemma flush_ok:
  assumes "rl_inv ys s" "nblock s + 5 \<le> arr2_bytes s"
  shows "\<exists>t. flush_RL s = Some t \<and> unrle (block_of t) = Some ys \<and> blockCRC t = fold BZ_UPDATE_CRC ys BZ_INITIALISE_CRC
     \<and> length (inUse t) = 256 \<and> (\<forall>c \<in> set (block_of t). inUse t ! unat c) \<and> nblock t \<le> nblock s + 5 \<and> rl_frame s t
     \<and> isempty_RL t"
proof (cases "state_in_ch s < 256")
  case True
  obtain t where t: "add_pair_to_block s = Some t" "run_put s t"
    using add_pair_ok [of s] assms True by (auto simp: rl_inv_def)
  note inv = run_put_inv [OF assms(1) True t(2)]
  have "flush_RL s = Some (t\<lparr>state_in_ch := 256, state_in_len := 0\<rparr>)" using t(1) True by (simp add: flush_RL_def init_RL_def)
  then show ?thesis using inv(2-5) inv(1) [of 0] closed_runs_unrle rl_frame_run [OF t(2), where c = 256 and m = 0]
    by (intro exI [of _ "t\<lparr>state_in_ch := 256, state_in_len := 0\<rparr>"]) (auto simp: isempty_RL_def)
next
  case False
  then have s: "state_in_ch s = 256" "state_in_len s = 0" using assms(1) by (simp_all add: rl_inv_def rl_run_def split: if_splits)
  then have "init_RL s = s" by (simp add: init_RL_def)
  then have "flush_RL s = Some s" using s by (simp add: flush_RL_def)
  then show ?thesis using assms(1) s closed_runs_unrle by (intro exI [of _ s]) (auto simp: rl_inv_def isempty_RL_def)
qed

end
