(* ===== verification/BzOutput.thy ===== *)
theory BzOutput
  imports BzUnsort BzRle
begin

text \<open>
  The output of the decompressor (\<open>unRLE_obuf_to_output_FAST\<close> of
  \<open>benchmarks/wasi/bzip2/bzlib.c\<close>): the bytes of a block are taken along the vector of
  successors, and a run of four equal bytes is followed by a count of further ones. The
  function stops when the output buffer is full and goes on at its next call.
\<close>

section \<open>The code\<close>

text \<open>[bzip2/bzlib.c 615-619 unRLE_obuf_to_output_FAST] A byte is written and the CRC updated.\<close>

definition put_out :: "dstate \<Rightarrow> dstate" where
  "put_out s = s\<lparr>d_next_out := d_next_out s @ [d_state_out_ch s],
     d_calculatedBlockCRC := BZ_UPDATE_CRC (d_state_out_ch s) (d_calculatedBlockCRC s),
     d_avail_out := d_avail_out s - 1\<rparr>"

text \<open>The places between which the loop jumps.\<close>

datatype out_label = Finish_run | Eq_one | Start_run | Return_notr

text \<open>[bzip2/bzlib.c 612-620 unRLE_obuf_to_output_FAST]\<close>

function emit_more :: "dstate \<Rightarrow> out_label \<times> dstate" where
  "emit_more s =
     (if d_avail_out s = 0 then (Return_notr, s)
      else if d_state_out_len s = 1 then (Eq_one, s)
      else emit_more ((put_out s)\<lparr>d_state_out_len := d_state_out_len s - 1\<rparr>))"
  by pat_completeness auto
termination
  by (relation "measure d_avail_out") (auto simp: put_out_def)

declare emit_more.simps [simp del]

text \<open>[bzip2/bzlib.c 611-620 unRLE_obuf_to_output_FAST]\<close>

definition finish_run :: "dstate \<Rightarrow> out_label \<times> dstate" where
  "finish_run s = (if d_state_out_len s > 0 then emit_more s else (Start_run, s))"

text \<open>[bzip2/bzlib.c 621-630 unRLE_obuf_to_output_FAST]\<close>

definition emit_one :: "dstate \<Rightarrow> out_label \<times> dstate" where
  "emit_one s = (if d_avail_out s = 0 then (Return_notr, s\<lparr>d_state_out_len := 1\<rparr>) else (Start_run, put_out s))"

text \<open>
  [bzip2/bzlib_private.h 451-456 BZ_GET_FAST_C] with the increment of \<open>nblock_used\<close> that follows
  it everywhere. The macro works on copies of the fields, which are the fields in the model; it returns
  \<open>True\<close> from the function, here with the code \<open>BZ_RUN_OK\<close>.
\<close>

definition get_more :: "dstate \<Rightarrow> u8 out option" where
  "get_more s = andthen (BZ_GET_FAST s) (\<lambda>k s. Some (Go k (s\<lparr>d_nblock_used := d_nblock_used s + 1\<rparr>)))"

text \<open>[bzip2/bzlib.c 658-660 unRLE_obuf_to_output_FAST] After four equal bytes.\<close>

definition count_run :: "dstate \<Rightarrow> out_label out option" where
  "count_run s =
     andthen (get_more s) (\<lambda>k1 s.
     andthen (get_more (s\<lparr>d_state_out_len := int (unat k1) + 4\<rparr>)) (\<lambda>k0 s.
     Some (Go Finish_run (s\<lparr>d_k0 := k0\<rparr>))))"

text \<open>[bzip2/bzlib.c 653-660 unRLE_obuf_to_output_FAST] After three equal bytes.\<close>

definition third_of_run :: "dstate \<Rightarrow> out_label out option" where
  "third_of_run s =
     andthen (get_more (s\<lparr>d_state_out_len := 3\<rparr>)) (\<lambda>k1 s.
       if d_nblock_used s = int (d_save_nblock s) + 1 then Some (Go Finish_run s)
       else if k1 \<noteq> d_k0 s then Some (Go Finish_run (s\<lparr>d_k0 := k1\<rparr>))
       else count_run s)"

text \<open>[bzip2/bzlib.c 648-660 unRLE_obuf_to_output_FAST] After two equal bytes.\<close>

definition second_of_run :: "dstate \<Rightarrow> out_label out option" where
  "second_of_run s =
     andthen (get_more (s\<lparr>d_state_out_len := 2\<rparr>)) (\<lambda>k1 s.
       if d_nblock_used s = int (d_save_nblock s) + 1 then Some (Go Finish_run s)
       else if k1 \<noteq> d_k0 s then Some (Go Finish_run (s\<lparr>d_k0 := k1\<rparr>))
       else third_of_run s)"

text \<open>[bzip2/bzlib.c 632-660 unRLE_obuf_to_output_FAST]\<close>

definition start_run :: "dstate \<Rightarrow> out_label out option" where
  "start_run s =
     (if d_nblock_used s > int (d_save_nblock s) + 1 then Some (Stop BZ_RUN_OK s)
      else if d_nblock_used s = int (d_save_nblock s) + 1 then Some (Go Return_notr (s\<lparr>d_state_out_len := 0\<rparr>))
      else andthen (get_more (s\<lparr>d_state_out_ch := d_k0 s\<rparr>)) (\<lambda>k1 s.
        if k1 \<noteq> d_k0 s then Some (Go Eq_one (s\<lparr>d_k0 := k1\<rparr>))
        else if d_nblock_used s = int (d_save_nblock s) + 1 then Some (Go Eq_one s)
        else second_of_run s))"

text \<open>[bzip2/bzlib.c 608-661 unRLE_obuf_to_output_FAST] The loop ends at \<open>return_notr\<close> or with \<open>True\<close>.\<close>

definition output_step :: "out_label \<Rightarrow> dstate \<Rightarrow> out_label out option" where
  "output_step l s =
     (case l of
        Finish_run \<Rightarrow> (case finish_run s of (l, s) \<Rightarrow> Some (Go l s))
      | Eq_one \<Rightarrow> (case emit_one s of (l, s) \<Rightarrow> Some (Go l s))
      | Start_run \<Rightarrow> start_run s
      | Return_notr \<Rightarrow> Some (Go Return_notr s))"

partial_function (option) output_loop :: "out_label \<Rightarrow> dstate \<Rightarrow> unit out option" where
  "output_loop l s = (if l = Return_notr then Some (Go () s) else andthen (output_step l s) output_loop)"

declare output_loop.simps [code]

text \<open>
  [bzip2/bzlib.c 589-681 unRLE_obuf_to_output_FAST] of a block that is not randomised; when the data are
  corrupt, nothing is saved.
\<close>

definition unRLE_obuf_to_output_FAST :: "dstate \<Rightarrow> (bool \<times> dstate) option" where
  "unRLE_obuf_to_output_FAST s =
     do { guard (\<not> d_blockRandomised s);
          r \<leftarrow> output_loop Finish_run s;
          Some (case r of
              Stop _ _ \<Rightarrow> (True, s)
            | Go _ t \<Rightarrow>
                (let lo = d_total_out_lo32 s + of_nat (d_avail_out s - d_avail_out t)
                 in (False, t\<lparr>d_total_out_lo32 := lo,
                      d_total_out_hi32 := (if lo < d_total_out_lo32 s then d_total_out_hi32 s + 1 else d_total_out_hi32 s)\<rparr>))) }"

section \<open>What will be output\<close>

definition in_block :: "u8 list \<Rightarrow> dstate \<Rightarrow> bool" where
  "in_block xs s \<longleftrightarrow> (\<exists>k. d_nblock_used s = int (Suc k) \<and> k \<le> length xs \<and> at_byte xs (Suc k) s
     \<and> (k < length xs \<longrightarrow> d_k0 s = xs ! k)) \<and> d_save_nblock s = length xs \<and> \<not> d_blockRandomised s"

text \<open>The bytes of the run that is being written, and those behind it.\<close>

definition run_left :: "out_label \<Rightarrow> dstate \<Rightarrow> u8 list" where
  "run_left l s = (case l of Start_run \<Rightarrow> [] | Eq_one \<Rightarrow> [d_state_out_ch s]
     | _ \<Rightarrow> replicate (nat (d_state_out_len s)) (d_state_out_ch s))"

definition will_output :: "u8 list \<Rightarrow> u8 list \<Rightarrow> out_label \<Rightarrow> dstate \<Rightarrow> bool" where
  "will_output xs ys l s \<longleftrightarrow> in_block xs s
     \<and> (\<exists>zs. unrle (drop (nat (d_nblock_used s - 1)) xs) = Some zs \<and> ys = run_left l s @ zs)"

text \<open>What has been written since \<open>s\<close>.\<close>

definition wrote :: "u8 list \<Rightarrow> dstate \<Rightarrow> dstate \<Rightarrow> bool" where
  "wrote ys s t \<longleftrightarrow> d_next_out t = d_next_out s @ ys \<and> d_avail_out s = d_avail_out t + length ys
     \<and> d_calculatedBlockCRC t = fold BZ_UPDATE_CRC ys (d_calculatedBlockCRC s)
     \<and> d_total_out_lo32 t = d_total_out_lo32 s \<and> d_total_out_hi32 t = d_total_out_hi32 s \<and> out_frame s t"

lemma wrote_nothing [simp]: "wrote [] s s"
  by (simp add: wrote_def)

lemma wrote_trans: "wrote ys s t \<Longrightarrow> wrote zs t u \<Longrightarrow> wrote (ys @ zs) s u"
  using out_frame_trans by (simp add: wrote_def) blast

section \<open>A run is started\<close>

lemma at_byte_update [simp]:
  "at_byte xs k (s\<lparr>d_nblock_used := a\<rparr>) = at_byte xs k s" "at_byte xs k (s\<lparr>d_k0 := b\<rparr>) = at_byte xs k s"
  "at_byte xs k (s\<lparr>d_state_out_len := c\<rparr>) = at_byte xs k s" "at_byte xs k (s\<lparr>d_state_out_ch := b\<rparr>) = at_byte xs k s"
  by (simp_all add: at_byte_def linked_def)

lemma drop_ConsD: "drop k xs = a # r \<Longrightarrow> k < length xs \<and> xs ! k = a \<and> drop (Suc k) xs = r"
proof -
  assume d: "drop k xs = a # r"
  then have k: "k < length xs" by (metis drop_all list.distinct(1) not_le)
  then have "drop k xs = xs ! k # drop (Suc k) xs" by (rule Cons_nth_drop_Suc [symmetric])
  with d k show ?thesis by simp
qed

text \<open>After a byte was taken: the successor is that of byte \<open>k\<close>.\<close>

definition gone :: "u8 list \<Rightarrow> nat \<Rightarrow> dstate \<Rightarrow> dstate \<Rightarrow> bool" where
  "gone xs k s t \<longleftrightarrow> (\<exists>q. t = s\<lparr>d_tPos := q, d_nblock_used := int k\<rparr>) \<and> at_byte xs k t"

lemma get_more_ok:
  assumes "at_byte xs k s" "d_nblock_used s = int k"
  obtains t where "get_more s = Some (Go (xs ! (k mod length xs)) t)" "gone xs (Suc k) s t"
proof -
  obtain q where q: "BZ_GET_FAST s = Some (Go (xs ! (k mod length xs)) (s\<lparr>d_tPos := q\<rparr>))" "at_byte xs (Suc k) (s\<lparr>d_tPos := q\<rparr>)"
    using BZ_GET_FAST_ok [OF assms(1)] by blast
  let ?t = "s\<lparr>d_tPos := q, d_nblock_used := int (Suc k)\<rparr>"
  have "get_more s = Some (Go (xs ! (k mod length xs)) ?t)" using q(1) assms(2) by (simp add: get_more_def)
  moreover have "gone xs (Suc k) s ?t" using q(2) by (auto simp: gone_def)
  ultimately show thesis by (rule that)
qed

lemma gone_same:
  assumes "gone xs k s t"
  shows "at_byte xs k t" "d_nblock_used t = int k" "d_k0 t = d_k0 s" "d_save_nblock t = d_save_nblock s"
    "d_state_out_ch t = d_state_out_ch s" "d_state_out_len t = d_state_out_len s" "wrote ys r t = wrote ys r s"
    "d_blockRandomised t = d_blockRandomised s"
  using assms by (auto simp: gone_def wrote_def out_frame_def)

lemma wrote_update [simp]:
  "wrote ys r (s\<lparr>d_k0 := b\<rparr>) = wrote ys r s" "wrote ys r (s\<lparr>d_state_out_len := c\<rparr>) = wrote ys r s"
  "wrote ys r (s\<lparr>d_state_out_ch := b\<rparr>) = wrote ys r s"
  by (simp_all add: wrote_def out_frame_def)

lemma will_outputI:
  assumes "at_byte xs (Suc k) t" "d_nblock_used t = int (Suc k)" "drop k xs = r" "k \<le> length xs"
    and "r \<noteq> [] \<Longrightarrow> d_k0 t = hd r" "d_save_nblock t = length xs" "\<not> d_blockRandomised t"
    and "unrle r = Some zs" "ys = run_left l t @ zs"
  shows "will_output xs ys l t"
proof -
  have "d_k0 t = xs ! k" if "k < length xs"
  proof -
    have "drop k xs \<noteq> []" using that by simp
    then show ?thesis using assms(5) hd_drop_conv_nth [OF that] by (simp add: assms(3))
  qed
  then have "in_block xs t" using assms by (auto simp: in_block_def)
  moreover have "nat (d_nblock_used t - 1) = k" using assms(2) by simp
  ultimately show ?thesis using assms by (auto simp: will_output_def)
qed


text \<open>Some bytes \<open>a\<close> are taken, and \<open>r\<close> is next.\<close>

definition taken :: "u8 list \<Rightarrow> u8 \<Rightarrow> u8 list \<Rightarrow> dstate \<Rightarrow> bool" where
  "taken xs a r s \<longleftrightarrow> (\<exists>k. at_byte xs k s \<and> d_nblock_used s = int k \<and> drop k xs = r \<and> k \<le> length xs)
     \<and> d_k0 s = a \<and> d_state_out_ch s = a \<and> d_save_nblock s = length xs \<and> \<not> d_blockRandomised s"

definition run_taken :: "u8 list \<Rightarrow> u8 list \<Rightarrow> dstate \<Rightarrow> out_label out option \<Rightarrow> bool" where
  "run_taken xs ys s m \<longleftrightarrow> (\<exists>l t. m = Some (Go l t) \<and> will_output xs ys l t \<and> wrote [] s t
     \<and> d_nblock_used s < d_nblock_used t \<and> (l = Eq_one \<or> l = Finish_run))"

lemma taken_len [simp]: "taken xs a r (s\<lparr>d_state_out_len := c\<rparr>) = taken xs a r s"
  by (simp add: taken_def)

text \<open>The next byte is taken; behind the block there is one too, which is not used.\<close>

definition took :: "u8 list \<Rightarrow> u8 \<Rightarrow> u8 list \<Rightarrow> dstate \<Rightarrow> dstate \<Rightarrow> bool" where
  "took xs a r s t \<longleftrightarrow> (\<exists>k. at_byte xs (Suc k) t \<and> d_nblock_used t = int (Suc k) \<and> drop k xs = r \<and> k \<le> length xs)
     \<and> d_k0 t = a \<and> d_state_out_ch t = a \<and> d_save_nblock t = length xs \<and> \<not> d_blockRandomised t
     \<and> wrote [] s t \<and> d_nblock_used t = d_nblock_used s + 1 \<and> d_state_out_len t = d_state_out_len s"

lemma take_next:
  assumes "taken xs a r s"
  obtains b t where "get_more s = Some (Go b t)" "took xs a r s t" "d_nblock_used t = int (length xs) + 1 \<longleftrightarrow> r = []"
    "r \<noteq> [] \<Longrightarrow> b = hd r" "r \<noteq> [] \<Longrightarrow> taken xs a (tl r) t"
proof -
  obtain k where k: "at_byte xs k s" "d_nblock_used s = int k" "drop k xs = r" "k \<le> length xs" using assms by (auto simp: taken_def)
  obtain t where t: "get_more s = Some (Go (xs ! (k mod length xs)) t)" "gone xs (Suc k) s t" by (rule get_more_ok [OF k(1,2)])
  note same = gone_same [OF t(2)]
  have nil: "r = [] \<longleftrightarrow> k = length xs" using k(3,4) by auto
  have cons: "xs ! (k mod length xs) = hd r" "taken xs a (tl r) t" if "r \<noteq> []"
  proof -
    have lt: "k < length xs" using nil k(4) that by simp
    then show "xs ! (k mod length xs) = hd r" using k(3) hd_drop_conv_nth [OF lt] by simp
    have "drop (Suc k) xs = tl r" using k(3) by (simp add: tl_drop [symmetric] drop_Suc)
    then show "taken xs a (tl r) t"
      unfolding taken_def using assms same lt by (intro conjI exI [of _ "Suc k"]) (simp_all add: taken_def)
  qed
  have "took xs a r s t"
    unfolding took_def using assms same k same(7) [of "[]" s] by (intro conjI exI [of _ k]) (simp_all add: taken_def)
  moreover have "d_nblock_used t = int (length xs) + 1 \<longleftrightarrow> r = []" using same(2) nil by auto
  ultimately show thesis using that [OF t(1)] cons by blast
qed

text \<open>The run ends with the byte that was taken.\<close>

lemma took_ends:
  assumes "took xs a r s t" "r \<noteq> [] \<Longrightarrow> b = hd r" "unrle r = Some zs" "l = Eq_one \<or> l = Finish_run" "ys = run_left l t @ zs"
  shows "run_taken xs ys s (Some (Go l (t\<lparr>d_k0 := b\<rparr>)))"
proof -
  obtain k where k: "at_byte xs (Suc k) t" "d_nblock_used t = int (Suc k)" "drop k xs = r" "k \<le> length xs"
    using assms(1) by (auto simp: took_def)
  have "run_left l (t\<lparr>d_k0 := b\<rparr>) = run_left l t" by (simp add: run_left_def split: out_label.split)
  then have "will_output xs ys l (t\<lparr>d_k0 := b\<rparr>)"
    using assms k by (intro will_outputI [of xs k _ r zs]) (simp_all add: took_def)
  then show ?thesis using assms(1,4) by (auto simp: run_taken_def took_def)
qed

lemma took_ends_block:
  assumes "took xs a [] s t" "l = Eq_one \<or> l = Finish_run" "ys = run_left l t"
  shows "run_taken xs ys s (Some (Go l t))"
  using took_ends [of xs a "[]" s t "d_k0 t" "[]" l ys] assms by simp

lemma run_taken_wrote:
  assumes "run_taken xs ys t m" "wrote [] s t" "d_nblock_used s \<le> d_nblock_used t"
  shows "run_taken xs ys s m"
  using assms wrote_trans [of "[]" s t "[]"] by (fastforce simp: run_taken_def)

lemma took_taken: "took xs a r s t \<Longrightarrow> run_taken xs ys t m \<Longrightarrow> run_taken xs ys s m"
  by (erule run_taken_wrote) (simp_all add: took_def)

lemma count_run_ok:
  assumes "taken xs a r s" "unrle (a # a # a # a # r) = Some ys"
  shows "run_taken xs ys s (count_run s)"
proof -
  obtain n r' where r: "r = n # r'" using assms(2) by (cases r) auto
  then obtain zs where zs: "unrle r' = Some zs" "ys = replicate (4 + unat n) a @ zs" using assms(2) by auto
  obtain t where t: "get_more s = Some (Go n t)" "took xs a r s t" "taken xs a r' t"
    using take_next [OF assms(1)] r by (metis list.distinct(1) list.sel(1,3))
  let ?t = "t\<lparr>d_state_out_len := int (unat n) + 4\<rparr>"
  have "taken xs a r' ?t" using t(3) by simp
  then obtain b u where u: "get_more ?t = Some (Go b u)" "took xs a r' ?t u" "r' \<noteq> [] \<Longrightarrow> b = hd r'"
    using take_next by metis
  have "run_left Finish_run u = replicate (4 + unat n) a" using u(2) by (simp add: took_def run_left_def nat_add_distrib)
  then have "run_taken xs ys ?t (Some (Go Finish_run (u\<lparr>d_k0 := b\<rparr>)))"
    using u(3) zs by (intro took_ends [OF u(2)]) simp_all
  then have "run_taken xs ys t (Some (Go Finish_run (u\<lparr>d_k0 := b\<rparr>)))" by (rule run_taken_wrote) simp_all
  then have "run_taken xs ys s (Some (Go Finish_run (u\<lparr>d_k0 := b\<rparr>)))" by (rule took_taken [OF t(2)])
  then show ?thesis using t(1) u(1) by (simp add: count_run_def)
qed

text \<open>A run of at most three bytes ends with the block or before another byte.\<close>

lemma run_goes_on:
  assumes "taken xs a r s" "unrle (replicate m a @ r) = Some ys" "0 < m" "m < 4" "l = Eq_one \<or> l = Finish_run"
    and "\<And>t. d_state_out_ch t = a \<Longrightarrow> d_state_out_len t = d_state_out_len s \<Longrightarrow> run_left l t = replicate m a"
  obtains b t where "get_more s = Some (Go b t)" "d_k0 t = a" "d_save_nblock t = length xs"
    "d_nblock_used t = int (length xs) + 1 \<Longrightarrow> run_taken xs ys s (Some (Go l t))"
    "b \<noteq> a \<Longrightarrow> run_taken xs ys s (Some (Go l (t\<lparr>d_k0 := b\<rparr>)))"
    "\<And>f. d_nblock_used t \<noteq> int (length xs) + 1 \<Longrightarrow> b = a \<Longrightarrow>
        (\<And>r. taken xs a r t \<Longrightarrow> unrle (replicate (Suc m) a @ r) = Some ys \<Longrightarrow> run_taken xs ys t f) \<Longrightarrow> run_taken xs ys s f"
proof -
  obtain b t where t: "get_more s = Some (Go b t)" "took xs a r s t" "d_nblock_used t = int (length xs) + 1 \<longleftrightarrow> r = []"
    "r \<noteq> [] \<Longrightarrow> b = hd r" "r \<noteq> [] \<Longrightarrow> taken xs a (tl r) t"
    using take_next [OF assms(1)] by metis
  have left: "run_left l t = replicate m a" using t(2) by (intro assms(6)) (simp_all add: took_def)
  show thesis
  proof (rule that [OF t(1)])
    show "d_k0 t = a" "d_save_nblock t = length xs" using t(2) by (simp_all add: took_def)
    show "run_taken xs ys s (Some (Go l t))" if "d_nblock_used t = int (length xs) + 1"
    proof -
      have r: "r = []" using that t(3) by simp
      then have "ys = run_left l t" using assms(2-4) unrle_short left by simp
      then show ?thesis using t(2) assms(5) unfolding r by (intro took_ends_block)
    qed
    show "run_taken xs ys s (Some (Go l (t\<lparr>d_k0 := b\<rparr>)))" if ne: "b \<noteq> a"
    proof (cases r)
      case Nil
      then show ?thesis
        using assms(2-5) unrle_short left by (intro took_ends [OF t(2), where zs = "[]"]) simp_all
    next
      case (Cons c r')
      then have "b = c" using t(4) by simp
      then obtain zs where "unrle r = Some zs" "ys = replicate m a @ zs"
        using assms(2-4) unrle_ends [of m a c r'] ne Cons by (cases "unrle (c # r')") auto
      then show ?thesis using left t(4) assms(5) by (intro took_ends [OF t(2)]) simp_all
    qed
    show "run_taken xs ys s f" if "d_nblock_used t \<noteq> int (length xs) + 1" "b = a"
      "\<And>r. taken xs a r t \<Longrightarrow> unrle (replicate (Suc m) a @ r) = Some ys \<Longrightarrow> run_taken xs ys t f" for f
    proof -
      have "r \<noteq> []" using that(1) t(3) by simp
      then have "r = a # tl r" using t(4) that(2) by simp
      then have "replicate m a @ r = replicate (Suc m) a @ tl r" by (metis append_Cons replicate_Suc replicate_app_Cons_same)
      then have "run_taken xs ys t f" using that(3) t(5) \<open>r \<noteq> []\<close> assms(2) by simp
      then show ?thesis by (rule took_taken [OF t(2)])
    qed
  qed
qed

lemma third_of_run_ok:
  assumes "taken xs a r s" "unrle (a # a # a # r) = Some ys"
  shows "run_taken xs ys s (third_of_run s)"
proof -
  let ?s = "s\<lparr>d_state_out_len := 3\<rparr>"
  have "taken xs a r ?s" "unrle (replicate 3 a @ r) = Some ys" using assms by simp_all
  then obtain b t where t: "get_more ?s = Some (Go b t)" "d_k0 t = a" "d_save_nblock t = length xs"
    "d_nblock_used t = int (length xs) + 1 \<Longrightarrow> run_taken xs ys ?s (Some (Go Finish_run t))"
    "b \<noteq> a \<Longrightarrow> run_taken xs ys ?s (Some (Go Finish_run (t\<lparr>d_k0 := b\<rparr>)))"
    "\<And>f. d_nblock_used t \<noteq> int (length xs) + 1 \<Longrightarrow> b = a \<Longrightarrow>
        (\<And>r. taken xs a r t \<Longrightarrow> unrle (replicate (Suc 3) a @ r) = Some ys \<Longrightarrow> run_taken xs ys t f) \<Longrightarrow> run_taken xs ys ?s f"
    by (rule run_goes_on [where l = Finish_run]) (simp_all add: run_left_def)
  have "run_taken xs ys ?s (third_of_run s)"
    using t(1-5) t(6) [of "count_run t"] count_run_ok [of xs a _ t ys] by (simp add: third_of_run_def)
  then show ?thesis by (rule run_taken_wrote) simp_all
qed


lemma second_of_run_ok:
  assumes "taken xs a r s" "unrle (a # a # r) = Some ys"
  shows "run_taken xs ys s (second_of_run s)"
proof -
  let ?s = "s\<lparr>d_state_out_len := 2\<rparr>"
  have "taken xs a r ?s" "unrle (replicate 2 a @ r) = Some ys" using assms by simp_all
  then obtain b t where t: "get_more ?s = Some (Go b t)" "d_k0 t = a" "d_save_nblock t = length xs"
    "d_nblock_used t = int (length xs) + 1 \<Longrightarrow> run_taken xs ys ?s (Some (Go Finish_run t))"
    "b \<noteq> a \<Longrightarrow> run_taken xs ys ?s (Some (Go Finish_run (t\<lparr>d_k0 := b\<rparr>)))"
    "\<And>f. d_nblock_used t \<noteq> int (length xs) + 1 \<Longrightarrow> b = a \<Longrightarrow>
        (\<And>r. taken xs a r t \<Longrightarrow> unrle (replicate (Suc 2) a @ r) = Some ys \<Longrightarrow> run_taken xs ys t f) \<Longrightarrow> run_taken xs ys ?s f"
    by (rule run_goes_on [where l = Finish_run]) (simp_all add: run_left_def)
  have "run_taken xs ys ?s (second_of_run s)"
    using t(1-5) t(6) [of "third_of_run t"] third_of_run_ok [of xs a _ t ys] by (simp add: second_of_run_def)
  then show ?thesis by (rule run_taken_wrote) simp_all
qed

lemma start_run_ok:
  assumes "will_output xs ys Start_run s" "d_nblock_used s \<le> int (length xs)"
  shows "run_taken xs ys s (start_run s)"
proof -
  obtain k where k: "d_nblock_used s = int (Suc k)" "k < length xs" "at_byte xs (Suc k) s" "d_k0 s = xs ! k"
    and s: "d_save_nblock s = length xs" "\<not> d_blockRandomised s" and ys: "unrle (drop (nat (d_nblock_used s - 1)) xs) = Some ys"
    using assms by (auto simp: will_output_def in_block_def run_left_def)
  let ?a = "xs ! k" and ?s = "s\<lparr>d_state_out_ch := d_k0 s\<rparr>"
  have "taken xs ?a (drop (Suc k) xs) ?s"
    unfolding taken_def using k s by (intro conjI exI [of _ "Suc k"]) simp_all
  moreover have "unrle (replicate 1 ?a @ drop (Suc k) xs) = Some ys"
    using ys k(1) Cons_nth_drop_Suc [OF k(2)] by simp
  ultimately obtain b t where t: "get_more ?s = Some (Go b t)" "d_k0 t = ?a" "d_save_nblock t = length xs"
    "d_nblock_used t = int (length xs) + 1 \<Longrightarrow> run_taken xs ys ?s (Some (Go Eq_one t))"
    "b \<noteq> ?a \<Longrightarrow> run_taken xs ys ?s (Some (Go Eq_one (t\<lparr>d_k0 := b\<rparr>)))"
    "\<And>f. d_nblock_used t \<noteq> int (length xs) + 1 \<Longrightarrow> b = ?a \<Longrightarrow>
        (\<And>r. taken xs ?a r t \<Longrightarrow> unrle (replicate (Suc 1) ?a @ r) = Some ys \<Longrightarrow> run_taken xs ys t f) \<Longrightarrow> run_taken xs ys ?s f"
    by (rule run_goes_on [where l = Eq_one]) (simp_all add: run_left_def)
  have "run_taken xs ys ?s (start_run s)"
    using t(1-5) t(6) [of "second_of_run t"] second_of_run_ok [of xs ?a _ t ys] k(1,2) s(1)
    by (simp add: start_run_def numeral_2_eq_2 [symmetric])
  then show ?thesis by (rule run_taken_wrote) simp_all
qed

section \<open>The loop\<close>

text \<open>A run is written as far as there is room.\<close>

lemma put_out_simps [simp]:
  "d_state_out_ch (put_out s) = d_state_out_ch s" "d_nblock_used (put_out s) = d_nblock_used s" "d_save_nblock (put_out s) = d_save_nblock s"
  "d_avail_out (put_out s) = d_avail_out s - 1" "d_k0 (put_out s) = d_k0 s" "d_blockRandomised (put_out s) = d_blockRandomised s"
  "at_byte xs k (put_out s) = at_byte xs k s" "in_block xs (put_out s) = in_block xs s"
  by (simp_all add: put_out_def at_byte_def linked_def in_block_def)

lemma put_out_wrote: "0 < d_avail_out s \<Longrightarrow> wrote [d_state_out_ch s] s (put_out s)"
  by (simp add: put_out_def wrote_def out_frame_def)

lemma in_block_len [simp]: "in_block xs (s\<lparr>d_state_out_len := c\<rparr>) = in_block xs s"
  by (simp add: in_block_def)

lemma emit_more_ok:
  assumes "0 < d_state_out_len s" "in_block xs s"
  shows "\<exists>l t ws. emit_more s = (l, t) \<and> run_left Finish_run s = ws @ run_left l t \<and> wrote ws s t \<and> in_block xs t
     \<and> d_nblock_used t = d_nblock_used s \<and> (l = Return_notr \<and> d_avail_out t = 0 \<and> 0 < d_state_out_len t \<or> l = Eq_one)"
  using assms
proof (induction s rule: emit_more.induct)
  case (1 s)
  consider "d_avail_out s = 0" | "0 < d_avail_out s" "d_state_out_len s = 1" | "0 < d_avail_out s" "1 < d_state_out_len s"
    using 1(2) by linarith
  then show ?case
  proof cases
    case 1
    then show ?thesis using 1 \<open>in_block xs s\<close> \<open>0 < d_state_out_len s\<close>
      by (subst emit_more.simps) (simp add: run_left_def)
  next
    case 2
    then show ?thesis using 1(3) by (subst emit_more.simps) (simp add: run_left_def)
  next
    case 3
    let ?u = "(put_out s)\<lparr>d_state_out_len := d_state_out_len s - 1\<rparr>"
    obtain l t ws where t: "emit_more ?u = (l, t)" "run_left Finish_run ?u = ws @ run_left l t" "wrote ws ?u t" "in_block xs t"
        "d_nblock_used t = d_nblock_used s" "l = Return_notr \<and> d_avail_out t = 0 \<and> 0 < d_state_out_len t \<or> l = Eq_one"
      using 1(1) 3 1(3) by auto
    have "emit_more s = (l, t)" using 3 t(1) by (subst emit_more.simps) simp
    moreover have "run_left Finish_run s = d_state_out_ch s # run_left Finish_run ?u"
    proof -
      have "nat (d_state_out_len s) = Suc (nat (d_state_out_len s - 1))" using 3 by simp
      then show ?thesis by (simp add: run_left_def)
    qed
    moreover have "wrote [d_state_out_ch s] s ?u" using put_out_wrote [OF 3(1)] by simp
    then have "wrote ([d_state_out_ch s] @ ws) s t" using t(3) by (rule wrote_trans)
    ultimately show ?thesis using t by (intro exI [of _ l] exI [of _ t] exI [of _ "d_state_out_ch s # ws"]) simp
  qed
qed


text \<open>One step of the loop writes what is left of the run, or takes the next one.\<close>

definition loop_rank :: "u8 list \<Rightarrow> out_label \<Rightarrow> dstate \<Rightarrow> nat" where
  "loop_rank xs l s = 3 * nat (int (length xs) + 1 - d_nblock_used s)
     + (case l of Finish_run \<Rightarrow> 2 | Eq_one \<Rightarrow> 1 | _ \<Rightarrow> 0)"

text \<open>The call returns because the block is done or the buffer is full.\<close>

definition returned :: "u8 list \<Rightarrow> u8 list \<Rightarrow> dstate \<Rightarrow> bool" where
  "returned xs ys t \<longleftrightarrow> (if ys = [] then d_nblock_used t = int (length xs) + 1 \<and> d_state_out_len t = 0
     else d_avail_out t = 0 \<and> 0 < d_state_out_len t) \<and> will_output xs ys Finish_run t"

lemma output_step_ok:
  assumes "will_output xs ys l s" "l \<noteq> Return_notr"
  shows "\<exists>l' t ws zs. output_step l s = Some (Go l' t) \<and> ys = ws @ zs \<and> wrote ws s t
     \<and> (if l' = Return_notr then returned xs zs t else will_output xs zs l' t \<and> loop_rank xs l' t < loop_rank xs l s)"
proof -
  have blk: "in_block xs s" using assms(1) by (simp add: will_output_def)
  then have used: "1 \<le> d_nblock_used s" "d_nblock_used s \<le> int (length xs) + 1" "d_save_nblock s = length xs"
    by (auto simp: in_block_def)
  obtain zs where zs: "unrle (drop (nat (d_nblock_used s - 1)) xs) = Some zs" "ys = run_left l s @ zs"
    using assms(1) by (auto simp: will_output_def)
  consider "l = Finish_run" "d_state_out_len s \<le> 0" | "l = Finish_run" "0 < d_state_out_len s" | "l = Eq_one" "d_avail_out s = 0"
    | "l = Eq_one" "0 < d_avail_out s" | "l = Start_run" "d_nblock_used s = int (length xs) + 1"
    | "l = Start_run" "d_nblock_used s \<le> int (length xs)"
    using assms(2) used(2) by (cases l) force+
  then show ?thesis
  proof cases
    case 1
    then have "output_step l s = Some (Go Start_run s)" by (simp add: output_step_def finish_run_def)
    then show ?thesis using 1 zs blk
      by (intro exI [of _ Start_run] exI [of _ s] exI [of _ "[]"] exI [of _ ys]) (simp add: will_output_def run_left_def loop_rank_def)
  next
    case 2
    obtain l' t ws where t: "emit_more s = (l', t)" "run_left Finish_run s = ws @ run_left l' t" "wrote ws s t" "in_block xs t"
        "d_nblock_used t = d_nblock_used s" "l' = Return_notr \<and> d_avail_out t = 0 \<and> 0 < d_state_out_len t \<or> l' = Eq_one"
      using emit_more_ok [OF 2(2) blk] by blast
    have "output_step l s = Some (Go l' t)" using 2 t(1) by (simp add: output_step_def finish_run_def)
    moreover have "ys = ws @ run_left l' t @ zs" using zs(2) t(2) 2(1) by simp
    moreover have "will_output xs (run_left l' t @ zs) l' t" using t(4,5) zs(1) by (simp add: will_output_def)
    ultimately show ?thesis using t(3,5,6) 2(1)
      by (intro exI [of _ l'] exI [of _ t] exI [of _ ws] exI [of _ "run_left l' t @ zs"])
        (auto simp: returned_def will_output_def run_left_def loop_rank_def)
  next
    case 3
    let ?t = "s\<lparr>d_state_out_len := 1\<rparr>"
    have "output_step l s = Some (Go Return_notr ?t)" using 3 by (simp add: output_step_def emit_one_def)
    moreover have "returned xs ys ?t" using 3 zs blk by (simp add: returned_def will_output_def run_left_def)
    ultimately show ?thesis by (intro exI [of _ Return_notr] exI [of _ ?t] exI [of _ "[]"] exI [of _ ys]) simp
  next
    case 4
    have "output_step l s = Some (Go Start_run (put_out s))" using 4 by (simp add: output_step_def emit_one_def)
    then show ?thesis using 4 zs blk put_out_wrote [OF 4(2)]
      by (intro exI [of _ Start_run] exI [of _ "put_out s"] exI [of _ "[d_state_out_ch s]"] exI [of _ zs])
        (simp add: will_output_def run_left_def loop_rank_def)
  next
    case 5
    let ?t = "s\<lparr>d_state_out_len := 0\<rparr>"
    have "output_step l s = Some (Go Return_notr ?t)" using 5 used by (simp add: output_step_def start_run_def)
    moreover have "zs = []" using zs(1) 5(2) by simp
    then have "returned xs ys ?t" using 5 zs blk by (simp add: returned_def will_output_def run_left_def)
    ultimately show ?thesis by (intro exI [of _ Return_notr] exI [of _ ?t] exI [of _ "[]"] exI [of _ ys]) simp
  next
    case 6
    then obtain l' t where t: "start_run s = Some (Go l' t)" "will_output xs ys l' t" "wrote [] s t"
        "d_nblock_used s < d_nblock_used t" "l' = Eq_one \<or> l' = Finish_run"
      using start_run_ok [of xs ys s] assms(1) by (auto simp: run_taken_def)
    have "loop_rank xs l' t < loop_rank xs l s" using t(4,5) 6 used(1) by (auto simp: loop_rank_def)
    then show ?thesis using t 6
      by (intro exI [of _ l'] exI [of _ t] exI [of _ "[]"] exI [of _ ys]) (auto simp: output_step_def)
  qed
qed

lemma output_loop_ok:
  assumes "will_output xs ys l s" "l \<noteq> Return_notr"
  shows "\<exists>t ws zs. output_loop l s = Some (Go () t) \<and> ys = ws @ zs \<and> wrote ws s t \<and> returned xs zs t"
  using assms
proof (induction "loop_rank xs l s" arbitrary: ys l s rule: less_induct)
  case less
  obtain l' t ws zs where t: "output_step l s = Some (Go l' t)" "ys = ws @ zs" "wrote ws s t"
    "if l' = Return_notr then returned xs zs t else will_output xs zs l' t \<and> loop_rank xs l' t < loop_rank xs l s"
    using output_step_ok [OF less(2,3)] by blast
  have loop: "output_loop l s = output_loop l' t" using less(3) t(1) by (subst output_loop.simps) simp
  show ?case
  proof (cases "l' = Return_notr")
    case True
    then have "output_loop l s = Some (Go () t)" using loop by (subst (asm) (2) output_loop.simps) simp
    then show ?thesis using t True by auto
  next
    case False
    then obtain u ws' zs' where u: "output_loop l' t = Some (Go () u)" "zs = ws' @ zs'" "wrote ws' t u" "returned xs zs' u"
      using less(1) [of l' t zs] t(4) by auto
    then show ?thesis using loop t(2) wrote_trans [OF t(3) u(3)]
      by (intro exI [of _ u] exI [of _ "ws @ ws'"] exI [of _ zs']) simp
  qed
qed

section \<open>A call\<close>

text \<open>The decompressor is about to output \<open>ys\<close>, the rest of the block \<open>xs\<close>.\<close>

definition outputs :: "u8 list \<Rightarrow> u8 list \<Rightarrow> dstate \<Rightarrow> bool" where
  "outputs xs ys s \<longleftrightarrow> will_output xs ys Finish_run s"

definition block_done :: "dstate \<Rightarrow> bool" where
  "block_done s \<longleftrightarrow> d_nblock_used s = int (d_save_nblock s) + 1 \<and> d_state_out_len s = 0"

lemma output_call:
  assumes "outputs xs ys s"
  shows "\<exists>t. unRLE_obuf_to_output_FAST s = Some (False, t) \<and> outputs xs (drop (d_avail_out s) ys) t
     \<and> d_next_out t = d_next_out s @ take (d_avail_out s) ys
     \<and> d_calculatedBlockCRC t = fold BZ_UPDATE_CRC (take (d_avail_out s) ys) (d_calculatedBlockCRC s)
     \<and> (block_done t \<longleftrightarrow> length ys \<le> d_avail_out s) \<and> out_frame s t \<and> d_avail_out t = d_avail_out s - length ys"
proof -
  have out: "will_output xs ys Finish_run s" using assms by (simp add: outputs_def)
  then have rand: "\<not> d_blockRandomised s" by (simp add: will_output_def in_block_def)
  obtain t ws zs where t: "output_loop Finish_run s = Some (Go () t)" "ys = ws @ zs" "wrote ws s t" "returned xs zs t"
    using output_loop_ok [OF out] by auto
  have len: "d_avail_out s = d_avail_out t + length ws" using t(3) by (simp add: wrote_def)
  have full: "zs = [] \<or> d_avail_out t = 0" using t(4) by (auto simp: returned_def split: if_splits)
  then have take: "take (d_avail_out s) ys = ws" "drop (d_avail_out s) ys = zs" using t(2) len by auto
  have save: "d_save_nblock t = length xs" using t(4) by (simp add: returned_def will_output_def in_block_def)
  define lo where "lo = d_total_out_lo32 s + of_nat (d_avail_out s - d_avail_out t)"
  let ?u = "t\<lparr>d_total_out_lo32 := lo,
      d_total_out_hi32 := (if lo < d_total_out_lo32 s then d_total_out_hi32 s + 1 else d_total_out_hi32 s)\<rparr>"
  have "unRLE_obuf_to_output_FAST s = Some (False, ?u)"
    using t(1) rand by (simp add: unRLE_obuf_to_output_FAST_def Let_def lo_def)
  moreover have "outputs xs zs ?u"
    using t(4) by (simp add: outputs_def returned_def will_output_def in_block_def at_byte_def linked_def run_left_def)
  moreover have "length ys \<le> d_avail_out s \<longleftrightarrow> zs = []" using take(2) by auto
  then have "block_done ?u \<longleftrightarrow> length ys \<le> d_avail_out s"
    using t(4) save by (auto simp: block_done_def returned_def split: if_splits)
  moreover have "out_frame s t" using t(3) by (simp add: wrote_def)
  then have "out_frame s ?u" by (simp add: out_frame_def)
  moreover have "d_avail_out t = d_avail_out s - length ys" using full len t(2) by auto
  ultimately show ?thesis using t(2,3) take by (intro exI [of _ ?u]) (auto simp: wrote_def)
qed

text \<open>The block is fetched with buffers of the sizes \<open>ms\<close>, one after the other.\<close>

definition fetch :: "nat list \<Rightarrow> dstate \<Rightarrow> dstate option" where
  "fetch ms s = for_in ms (\<lambda>m s. do { r \<leftarrow> unRLE_obuf_to_output_FAST (s\<lparr>d_avail_out := m\<rparr>); guard (\<not> fst r); Some (snd r) }) s"

lemma fetch_ok:
  assumes "outputs xs ys s" "block_done s \<longleftrightarrow> ys = []"
  shows "\<exists>t. fetch ms s = Some t \<and> d_next_out t = d_next_out s @ take (sum_list ms) ys
     \<and> d_calculatedBlockCRC t = fold BZ_UPDATE_CRC (take (sum_list ms) ys) (d_calculatedBlockCRC s)
     \<and> (block_done t \<longleftrightarrow> length ys \<le> sum_list ms) \<and> out_frame s t"
  using assms
proof (induction ms arbitrary: ys s)
  case Nil
  then show ?case by (simp add: fetch_def)
next
  case (Cons m ms)
  let ?s = "s\<lparr>d_avail_out := m\<rparr>"
  have "outputs xs ys ?s"
    using Cons.prems(1) by (simp add: outputs_def will_output_def in_block_def at_byte_def linked_def run_left_def)
  from output_call [OF this] obtain t where t: "unRLE_obuf_to_output_FAST ?s = Some (False, t)" "outputs xs (drop m ys) t"
     "d_next_out t = d_next_out s @ take m ys" "d_calculatedBlockCRC t = fold BZ_UPDATE_CRC (take m ys) (d_calculatedBlockCRC s)"
     "block_done t \<longleftrightarrow> drop m ys = []" "out_frame ?s t" by auto
  from Cons.IH [OF t(2,5)] obtain u where u: "fetch ms t = Some u" "d_next_out u = d_next_out t @ take (sum_list ms) (drop m ys)"
     "d_calculatedBlockCRC u = fold BZ_UPDATE_CRC (take (sum_list ms) (drop m ys)) (d_calculatedBlockCRC t)"
     "block_done u \<longleftrightarrow> length (drop m ys) \<le> sum_list ms" "out_frame t u" by blast
  have "out_frame s ?s" by (simp add: out_frame_def)
  then have "out_frame s u" using t(6) u(5) out_frame_trans by blast
  have "fetch (m # ms) s = Some u" using t(1) u(1) by (simp add: fetch_def)
  moreover have "take (sum_list (m # ms)) ys = take m ys @ take (sum_list ms) (drop m ys)" by (simp add: take_add)
  ultimately show ?case using t(3,4) u(2-4) \<open>out_frame s u\<close> by (intro exI [of _ u]) auto
qed

lemma unsorted_outputs:
  assumes "received xs orig s" "unrle xs = Some ys"
  shows "\<exists>t. unsort_fast (length xs) s = Some (Go () t) \<and> outputs xs ys t \<and> \<not> block_done t \<and> ys \<noteq> []
     \<and> d_calculatedBlockCRC t = 0xffffffff \<and> out_frame s t \<and> d_next_out t = d_next_out s \<and> d_avail_out t = d_avail_out s"
proof -
  obtain t where t: "unsort_fast (length xs) s = Some (Go () t)" "at_byte xs 1 t" "d_k0 t = xs ! 0" "d_nblock_used t = 1"
     "d_save_nblock t = length xs" "d_state_out_len t = 0" "d_calculatedBlockCRC t = 0xffffffff" "\<not> d_blockRandomised t"
     "out_frame s t" "d_next_out t = d_next_out s" "d_avail_out t = d_avail_out s"
    using unsort_fast_ok [OF assms(1)] by blast
  have ne: "xs \<noteq> []" using assms(1) by (auto simp: received_def)
  have "hd xs = xs ! 0" using ne by (rule hd_conv_nth)
  then have "outputs xs ys t"
    unfolding outputs_def using t assms(2) ne by (intro will_outputI [of xs 0 t xs ys]) (simp_all add: run_left_def)
  moreover have "\<not> block_done t" using t ne by (simp add: block_done_def)
  ultimately show ?thesis using t unrle_nonempty [OF assms(2)] ne by blast
qed

section \<open>Properties\<close>

text \<open>
  C20: the inverse of the block sorting and the output: from the last column of the sorted
  rotations of a block, its counts and the place of the block among the rotations,
  \<open>BZ2_decompress\<close> builds the vector of successors without leaving an array, and the calls of
  \<open>unRLE_obuf_to_output_FAST\<close>, with output buffers of any sizes, give the bytes that the runs in the block
  stand for, in order, as far as there is room, and their CRC; the block is done exactly when
  all are given.
\<close>

theorem block_fetched:
  assumes "received xs orig s" "unrle xs = Some ys"
  shows "\<exists>t u. unsort_fast (length xs) s = Some (Go () t) \<and> fetch ms t = Some u
     \<and> d_next_out u = d_next_out s @ take (sum_list ms) ys
     \<and> d_calculatedBlockCRC u = fold BZ_UPDATE_CRC (take (sum_list ms) ys) 0xffffffff
     \<and> (block_done u \<longleftrightarrow> length ys \<le> sum_list ms)"
proof -
  obtain t where t: "unsort_fast (length xs) s = Some (Go () t)" "outputs xs ys t" "\<not> block_done t" "ys \<noteq> []"
     "d_calculatedBlockCRC t = 0xffffffff" "d_next_out t = d_next_out s"
    using unsorted_outputs [OF assms] by blast
  then have "block_done t \<longleftrightarrow> ys = []" by simp
  from fetch_ok [OF t(2) this, of ms] obtain u where "fetch ms t = Some u" "d_next_out u = d_next_out t @ take (sum_list ms) ys"
     "d_calculatedBlockCRC u = fold BZ_UPDATE_CRC (take (sum_list ms) ys) (d_calculatedBlockCRC t)"
     "block_done u \<longleftrightarrow> length ys \<le> sum_list ms" by blast
  with t show ?thesis by (intro exI [of _ t] exI [of _ u]) simp
qed

text \<open>A decompressor that has received the last column for a block.\<close>

definition received_dstate :: "u8 list \<Rightarrow> nat \<Rightarrow> dstate" where
  "received_dstate xs orig = (start_dstate [])\<lparr>d_tt := (\<lambda>i. ucast (bwt xs ! i)),
     d_unzftab := map (\<lambda>i. int (count_list (bwt xs) (of_nat i))) [0..<256], d_origPtr := int orig\<rparr>"

lemma received_dstate_ok:
  assumes "orig < length xs" "sorted_rows xs ! orig = xs" "length xs \<le> 100000"
  shows "received xs orig (received_dstate xs orig)"
  using assms by (simp add: received_def received_dstate_def start_dstate_def stored_def has_counts_def)

lemma block_fetched_witness:
  "\<exists>t u. unsort_fast 6 (received_dstate [98, 97, 97, 97, 97, 2] 5) = Some (Go () t) \<and> fetch [2, 9] t = Some u
     \<and> d_next_out u = [98, 97, 97, 97, 97, 97, 97] \<and> block_done u"
proof -
  let ?xs = "[98, 97, 97, 97, 97, 2] :: u8 list"
  have "sorted_rows ?xs ! 5 = ?xs"
    by (simp add: sorted_rows_def upt_rec rotate_drop_take)
  then have rec: "received ?xs 5 (received_dstate ?xs 5)" by (intro received_dstate_ok) simp_all
  have "replicate 6 (97 :: u8) = [97, 97, 97, 97, 97, 97]" by (simp add: numeral_eq_Suc)
  then have runs: "unrle ?xs = Some [98, 97, 97, 97, 97, 97, 97]" by simp
  have len: "length ?xs = 6" by simp
  have "d_next_out (received_dstate ?xs 5) = []" by (simp add: received_dstate_def start_dstate_def)
  then show ?thesis using block_fetched [OF rec runs, of "[2, 9]", unfolded len] by auto
qed

end
