(* ===== verification/BzHeader.thy ===== *)
theory BzHeader
  imports BzOutput
begin

text \<open>
  The header of a block in the stream, which \<open>BZ2_compressBlock\<close>
  (\<open>benchmarks/wasi/bzip2/compress.c\<close>) writes and \<open>BZ2_decompress\<close>
  (\<open>benchmarks/wasi/bzip2/decompress.c\<close>) reads, and the two functions around it. The sorting of the block is a
  parameter of the compressor.
\<close>

section \<open>The decompressor reads the header\<close>

text \<open>[bzip2/decompress.c 226-235 BZ2_decompress] A sequence of bytes that must be there.\<close>

definition expect_bytes :: "nat list \<Rightarrow> dstate \<Rightarrow> unit out option" where
  "expect_bytes vs s = for_out vs (\<lambda>v _ s.
     andthen (get_bits 8 s) (\<lambda>uc s. Some (if uc \<noteq> v then Stop BZ_DATA_ERROR s else Go () s))) () s"

text \<open>[bzip2/decompress.c 241-249 BZ2_decompress]\<close>

definition receive_block_crc :: "dstate \<Rightarrow> unit out option" where
  "receive_block_crc s = for_out [0..<4] (\<lambda>_ _ s.
     andthen (get_bits 8 s) (\<lambda>uc s. Some (Go () (s\<lparr>d_storedBlockCRC := push_bit 8 (d_storedBlockCRC s) OR of_nat uc\<rparr>)))) ()
     (s\<lparr>d_storedBlockCRC := 0\<rparr>)"

text \<open>[bzip2/decompress.c 253-259 BZ2_decompress]\<close>

definition receive_origPtr :: "dstate \<Rightarrow> unit out option" where
  "receive_origPtr s = for_out [0..<3] (\<lambda>_ _ s.
     andthen (get_bits 8 s) (\<lambda>uc s. do { z \<leftarrow> int32 (push_bit 8 (d_origPtr s) OR int uc); Some (Go () (s\<lparr>d_origPtr := z\<rparr>)) })) ()
     (s\<lparr>d_origPtr := 0\<rparr>)"

text \<open>[bzip2/decompress.c 226-264 BZ2_decompress]\<close>

definition receive_fields :: "dstate \<Rightarrow> bool out option" where
  "receive_fields s =
     andthen (expect_bytes [0x41, 0x59, 0x26, 0x53, 0x59] s) (\<lambda>_ s.
     andthen (receive_block_crc s) (\<lambda>_ s.
     andthen (get_bits 1 s) (\<lambda>b s.
     andthen (receive_origPtr (s\<lparr>d_blockRandomised := (b = 1)\<rparr>)) (\<lambda>_ s.
     Some (if d_origPtr s < 0 \<or> d_origPtr s > 10 + 100000 * int (d_blockSize100k s)
           then Stop BZ_DATA_ERROR s else Go True s)))))"

text \<open>[bzip2/decompress.c 222-264 BZ2_decompress] The result is \<open>False\<close> at the end of the stream.\<close>

definition receive_header :: "dstate \<Rightarrow> bool out option" where
  "receive_header s =
     andthen (get_bits 8 s) (\<lambda>uc s.
       if uc = 0x17 then Some (Go False s)
       else if uc \<noteq> 0x31 then Some (Stop BZ_DATA_ERROR s)
       else receive_fields s)"

text \<open>[bzip2/decompress.c 590-612 BZ2_decompress] The trailer of the stream.\<close>

definition receive_trailer :: "dstate \<Rightarrow> unit out option" where
  "receive_trailer s =
     andthen (expect_bytes [0x72, 0x45, 0x38, 0x50, 0x90] s) (\<lambda>_ s.
     andthen (for_out [0..<4] (\<lambda>_ _ s.
       andthen (get_bits 8 s) (\<lambda>uc s. Some (Go () (s\<lparr>d_storedCombinedCRC := push_bit 8 (d_storedCombinedCRC s) OR of_nat uc\<rparr>)))) ()
       (s\<lparr>d_storedCombinedCRC := 0\<rparr>)) (\<lambda>_ s.
     Some (Stop BZ_STREAM_END s)))"

text \<open>
  [bzip2/decompress.c 222-612 BZ2_decompress] A block, from its first byte to the first byte that can
  be output, with the fast variant of the inverse, or the trailer.
\<close>

definition decompress_block :: "dstate \<Rightarrow> unit out option" where
  "decompress_block s =
     andthen (receive_header s) (\<lambda>b s.
       if b then andthen (receive_block s) (\<lambda>nblk s. do { guard (\<not> d_smallDecompress s); unsort_fast nblk s })
       else receive_trailer s)"

text \<open>[bzip2/bzlib.c 819-839 BZ2_bzDecompress] The output of a block, and the check of its CRC at its end.\<close>

definition output_block :: "dstate \<Rightarrow> unit out option" where
  "output_block s =
     do { r \<leftarrow> unRLE_obuf_to_output_FAST s;
          Some (case r of (corrupt, s) \<Rightarrow>
            if corrupt then Stop BZ_DATA_ERROR s
            else if d_nblock_used s = int (d_save_nblock s) + 1 \<and> d_state_out_len s = 0
            then let s = s\<lparr>d_calculatedBlockCRC := BZ_FINALISE_CRC (d_calculatedBlockCRC s)\<rparr>
                 in if d_calculatedBlockCRC s \<noteq> d_storedBlockCRC s then Stop BZ_DATA_ERROR s
                    else Go () (s\<lparr>d_calculatedCombinedCRC := (push_bit 1 (d_calculatedCombinedCRC s)
                           OR drop_bit 31 (d_calculatedCombinedCRC s)) XOR d_calculatedBlockCRC s\<rparr>)
            else Stop BZ_OK s) }"

section \<open>The compressor writes the header\<close>

text \<open>[bzip2/compress.c 604-609 BZ2_compressBlock]\<close>

definition finalise_block :: "'a estate_scheme \<Rightarrow> 'a estate_scheme" where
  "finalise_block s =
     (let s = s\<lparr>blockCRC := BZ_FINALISE_CRC (blockCRC s)\<rparr>;
          s = s\<lparr>combinedCRC := (push_bit 1 (combinedCRC s) OR drop_bit 31 (combinedCRC s)) XOR blockCRC s\<rparr>
      in if blockNo s > 1 then s\<lparr>numZ := 0\<rparr> else s)"

text \<open>[bzip2/compress.c 632-652 BZ2_compressBlock]\<close>

definition write_block :: "'a estate_scheme \<Rightarrow> 'a estate_scheme option" where
  "write_block s =
     do { s \<leftarrow> for_in [0x31, 0x41, 0x59, 0x26, 0x53, 0x59] (\<lambda>c s. bsPutUChar s c) s;
          s \<leftarrow> bsPutUInt32 s (blockCRC s);
          s \<leftarrow> bsW s 1 0;
          s \<leftarrow> bsW s 24 (of_int (origPtr s));
          s \<leftarrow> generateMTFValues s;
          sendMTFValues s }"

text \<open>[bzip2/compress.c 659-665 BZ2_compressBlock]\<close>

definition write_trailer :: "'a estate_scheme \<Rightarrow> 'a estate_scheme option" where
  "write_trailer s =
     do { s \<leftarrow> for_in [0x17, 0x72, 0x45, 0x38, 0x50, 0x90] (\<lambda>c s. bsPutUChar s c) s;
          s \<leftarrow> bsPutUInt32 s (combinedCRC s);
          bsFinishWrite s }"

text \<open>[bzip2/compress.c 622-628 BZ2_compressBlock]\<close>

definition write_stream_header :: "'a estate_scheme \<Rightarrow> 'a estate_scheme option" where
  "write_stream_header s =
     for_in [0x42, 0x5a, 0x68, of_nat (0x30 + blockSize100k s)] (\<lambda>c s. bsPutUChar s c) (BZ2_bsInitWrite s)"

text \<open>[bzip2/compress.c 602-667 BZ2_compressBlock] \<open>BZ2_blockSort\<close> is a parameter.\<close>

definition BZ2_compressBlock :: "('a estate_scheme \<Rightarrow> 'a estate_scheme option) \<Rightarrow> bool \<Rightarrow> 'a estate_scheme \<Rightarrow> 'a estate_scheme option" where
  "BZ2_compressBlock blockSort is_last_block s =
     do { s \<leftarrow> if nblock s > 0 then blockSort (finalise_block s) else Some s;
          let s = s\<lparr>zbits := nblock s\<rparr>;
          s \<leftarrow> if blockNo s = 1 then write_stream_header s else Some s;
          s \<leftarrow> if nblock s > 0 then write_block s else Some s;
          if is_last_block then write_trailer s else Some s }"


section \<open>What is written\<close>

definition header_bits :: "u32 \<Rightarrow> nat \<Rightarrow> bool list" where
  "header_bits crc orig = concat (map (bits_of 8) [0x31, 0x41, 0x59, 0x26, 0x53, 0x59 :: u8]) @ bits_of 32 crc @ [False] @ nbits 24 orig"

lemma for_in_map_fun: "for_in (map f xs) g = for_in xs (\<lambda>x. g (f x))"
  by (rule ext) (rule for_in_map)

lemma put_bytes_ok:
  assumes "bs_inv s" "8 * length cs \<le> bs_room s"
  shows "runs (for_in cs (\<lambda>c s. bsPutUChar s c) s) (\<lambda>t. bs_inv t \<and> bs_written t = bs_written s @ concat (map (bits_of 8) cs)
     \<and> bs_room t = bs_room s - 8 * length cs \<and> bs_frame s t)"
proof -
  let ?ps = "map (\<lambda>c. (8 :: nat, ucast (c :: u8) :: u32)) cs"
  have bits: "bs.bits_of_list ?ps = concat (map (bits_of 8) cs)"
    by (simp add: bs.bits_of_list_def comp_def bits_of_ucast_u8)
  have len: "length (concat (map (bits_of 8) cs)) = 8 * length cs" by (simp add: length_concat comp_def sum_list_triv)
  have "(ucast c :: u32) < 2 ^ 8" for c :: u8
    by (simp add: word_less_nat_alt unsigned_ucast_eq) (rule le_less_trans [OF take_bit_nat_less_eq_self unat_u8_less])
  then have "\<forall>p \<in> set ?ps. bs.fits p" by (auto simp: bs.fits_def)
  from bs.put_list [OF assms(1) this] show ?thesis
    using assms(2) unfolding bits len by (simp add: for_in_map_fun bsPutUChar_def)
qed

text \<open>The writer stays behind the block.\<close>

lemma bs_frame_block:
  assumes "bs_frame s t" "nblock s \<le> zbits s"
  shows "block_of t = block_of s" "block_sorted s \<Longrightarrow> block_sorted t" "block_sorted s \<Longrightarrow> last_column t = last_column s"
    "nblock t = nblock s" "zbits t = zbits s" "tables_shape t = tables_shape s" "code t = code s" "selectorMtf t = selectorMtf s"
    "blockCRC t = blockCRC s" "origPtr t = origPtr s" "arr2_bytes t = arr2_bytes s" "combinedCRC t = combinedCRC s"
proof -
  obtain a z b l where t: "t = s\<lparr>arr2 := a, numZ := z, bsBuff := b, bsLive := l\<rparr>" and a: "\<forall>i < zbits s. a i = arr2 s i"
    using assms(1) by (auto simp: bs_frame_def)
  have a: "a i = arr2 s i" if "i < nblock s" for i using a that assms(2) by simp
  have ptr: "ptr_at t = ptr_at s" by (simp add: fun_eq_iff ptr_at_def t)
  show "block_of t = block_of s" using a by (simp add: block_of_def t)
  show "block_sorted t" if "block_sorted s" using that a unfolding block_sorted_def ptr by (simp add: t)
  show "last_column t = last_column s" if "block_sorted s"
    using that a before_less unfolding last_column_def ptr block_sorted_def by (simp add: t)
  show "nblock t = nblock s" "zbits t = zbits s" "tables_shape t = tables_shape s" "code t = code s" "selectorMtf t = selectorMtf s"
    "blockCRC t = blockCRC s" "origPtr t = origPtr s" "arr2_bytes t = arr2_bytes s" "combinedCRC t = combinedCRC s"
    by (simp_all add: t tables_shape_def arr2_bytes_def)
qed

lemma length_concat_bytes [simp]: "length (concat (map (bits_of 8) cs)) = 8 * length cs"
  by (simp add: length_concat comp_def sum_list_triv)

lemma length_zbytes [simp]: "length (zbytes s) = numZ s"
  by (simp add: zbytes_def)

lemma bs_room_written: "bs_inv s \<Longrightarrow> bs_room s = 8 * arr2_bytes s - 8 * zbits s - length (bs_written s)"
  by (auto simp: bs_inv_def bs_room_def bs_written_def)

text \<open>What the back end leaves as it is.\<close>

lemma back_frame_update:
  assumes "back_frame s t"
  shows "t = s\<lparr>arr1 := arr1 t, arr2 := arr2 t, numZ := numZ t, nInUse := nInUse t, unseqToSeq := unseqToSeq t,
     bsBuff := bsBuff t, bsLive := bsLive t, nMTF := nMTF t, mtfFreq := mtfFreq t, selector := selector t,
     selectorMtf := selectorMtf t, len := len t, code := code t, rfreq := rfreq t\<rparr>"
proof -
  define u where "u = t\<lparr>arr1 := arr1 s, arr2 := arr2 s, numZ := numZ s, nInUse := nInUse s, unseqToSeq := unseqToSeq s,
     bsBuff := bsBuff s, bsLive := bsLive s, nMTF := nMTF s, mtfFreq := mtfFreq s, selector := selector s,
     selectorMtf := selectorMtf s, len := len s, code := code s, rfreq := rfreq s\<rparr>"
  have "t = u\<lparr>arr1 := arr1 t, arr2 := arr2 t, numZ := numZ t, nInUse := nInUse t, unseqToSeq := unseqToSeq t,
     bsBuff := bsBuff t, bsLive := bsLive t, nMTF := nMTF t, mtfFreq := mtfFreq t, selector := selector t,
     selectorMtf := selectorMtf t, len := len t, code := code t, rfreq := rfreq t\<rparr>" by (simp add: u_def)
  moreover have "u = s" using assms by (simp add: back_frame_def u_def)
  ultimately show ?thesis by simp
qed

lemma back_frame_same:
  assumes "back_frame s t"
  shows "zbits t = zbits s" "blockSize100k t = blockSize100k s" "combinedCRC t = combinedCRC s" "blockNo t = blockNo s"
    "nblock t = nblock s" "blockCRC t = blockCRC s"
  by (subst back_frame_update [OF assms], simp)+

lemma back_frame_room: "back_frame s t \<Longrightarrow> zbits t = zbits s \<and> arr2_bytes t = arr2_bytes s"
  by (simp add: arr2_bytes_def back_frame_same)

text \<open>The state behind the sorting: the back end has its tables, and there is room.\<close>

definition sorted_ready :: "'a estate_scheme \<Rightarrow> bool" where
  "sorted_ready s \<longleftrightarrow> block_sorted s \<and> tables_shape s \<and> rect 6 258 (code s) \<and> length (selectorMtf s) = 18002 \<and> bs_inv s
     \<and> nblock s \<le> zbits s \<and> 0 \<le> origPtr s \<and> origPtr s < int (nblock s) \<and> 18 * (nblock s + 1) + 51595 \<le> bs_room s"

lemma write_block_ok:
  assumes "sorted_ready s"
  shows "\<exists>u bits. write_block s = Some u \<and> bs_inv u \<and> bs_written u = bs_written s @ header_bits (blockCRC s) (nat (origPtr s)) @ bits
     \<and> (\<forall>nmax rest. nblock s \<le> nmax \<and> nmax \<le> 900000 \<longrightarrow> parse_block nmax (bits @ rest) = Found (last_column s) rest)
     \<and> back_frame s u \<and> back_shape u \<and> length (unseqToSeq u) = 256 \<and> 80 \<le> bs_room u"
proof -
  note s = assms [unfolded sorted_ready_def]
  let ?magic = "[0x31, 0x41, 0x59, 0x26, 0x53, 0x59 :: u8]"
  obtain s1 where s1: "for_in ?magic (\<lambda>c s. bsPutUChar s c) s = Some s1" "bs_inv s1"
     "bs_written s1 = bs_written s @ concat (map (bits_of 8) ?magic)" "bs_room s1 = bs_room s - 8 * length ?magic" "bs_frame s s1"
    using put_bytes_ok [of s ?magic] s by (auto simp: runs_iff_Some)
  have b1: "blockCRC s1 = blockCRC s" "origPtr s1 = origPtr s" using bs_frame_block [OF s1(5)] s by simp_all
  have "105 \<le> bs_room s" using s by linarith
  then have room: "105 \<le> bs_room s1 + 48" using s1(4) by simp
  then have "32 \<le> bs_room s1" by simp
  then obtain s2 where s2: "bsPutUInt32 s1 (blockCRC s1) = Some s2" "bs_inv s2" "bs_written s2 = bs_written s1 @ bits_of 32 (blockCRC s)"
     "bs_room s2 = bs_room s1 - 32" "bs_frame s1 s2"
    using bsPutUInt32_ok [OF s1(2), of "blockCRC s1"] b1 by (auto simp: runs_iff_Some)
  have "1 \<le> bs_room s2" using s2(4) room by simp
  then obtain s3 where s3: "bsW s2 1 0 = Some s3" "bs_inv s3" "bs_written s3 = bs_written s2 @ [False]" "bs_room s3 = bs_room s2 - 1" "bs_frame s2 s3"
    using bsW_ok [OF s2(2), of 1 0] by (auto simp: runs_iff_Some bits_of_Suc)
  have f3: "bs_frame s s3" using s1(5) s2(5) s3(5) by (blast intro: bs_frame_trans)
  define orig where "orig = nat (origPtr s)"
  have n: "nblock s \<le> 900000" using s by (auto simp: block_sorted_def)
  have orig: "origPtr s3 = int orig" "orig < nblock s"
    using bs_frame_block [OF f3] s by (simp_all add: orig_def nat_less_iff)
  have orig24: "orig < 2 ^ 24" using orig(2) n by simp
  have "(of_nat orig :: u32) < 2 ^ 24" using orig24 by (simp add: word_less_nat_alt unat_of_nat)
  moreover have "24 \<le> bs_room s3" using s3(4) s2(4) room by simp
  ultimately obtain s4 where s4: "bsW s3 24 (of_int (origPtr s3)) = Some s4" "bs_inv s4" "bs_written s4 = bs_written s3 @ nbits 24 orig"
     "bs_room s4 = bs_room s3 - 24" "bs_frame s3 s4"
    using bsW_ok [OF s3(2), of 24 "of_nat orig"] orig by (auto simp: runs_iff_Some bits_of_nat)
  have f4: "bs_frame s s4" using f3 s4(5) by (rule bs_frame_trans)
  have z: "nblock s \<le> zbits s" using s by simp
  note same = bs_frame_block [OF f4 z]
  have "bs_room s4 = bs_room s - 105" using s1(4) s2(4) s3(4) s4(4) by simp
  moreover have "18 * (nblock s + 1) + 51595 \<le> bs_room s" using s by blast
  ultimately have room4: "18 * (nblock s4 + 1) + 51490 \<le> bs_room s4" using same(4) by simp
  then have e4: "e_ready s4" using s same s4(2) by (simp add: e_ready_def)
  from sent_block_parsed [OF e4] obtain t u bits where u: "generateMTFValues s4 = Some t" "sendMTFValues t = Some u" "bs_inv u"
     "bs_written u = bs_written s4 @ bits"
     "\<forall>nmax rest. nblock s4 \<le> nmax \<and> nmax \<le> 900000 \<longrightarrow> parse_block nmax (bits @ rest) = Found (last_column s4) rest"
     "back_frame s4 u" "back_shape u" "length (unseqToSeq u) = 256" "length bits \<le> 18 * (nblock s4 + 1) + 51410" by blast
  have frame: "back_frame s u" using back_frame_writer [OF f4] u(6) by (rule back_frame_trans)
  have "write_block s = Some u" using s1(1) s2(1) s3(1) s4(1) u(1,2) by (simp add: write_block_def)
  moreover have "bs_written u = bs_written s @ header_bits (blockCRC s) orig @ bits"
    using s1(3) s2(3) s3(3) s4(3) u(4) by (simp add: header_bits_def)
  moreover have "80 \<le> bs_room u"
    using bs_room_written [OF s4(2)] bs_room_written [OF u(3)] back_frame_room [OF u(6)] u(4,9) room4 by simp
  ultimately show ?thesis using u(3,5,7,8) frame same s unfolding orig_def [symmetric] by (intro exI [of _ u] exI [of _ bits]) simp
qed


section \<open>What is read\<close>

definition parse_expect :: "nat list \<Rightarrow> bool list \<Rightarrow> unit found" where
  "parse_expect vs bs = pfor vs (\<lambda>v _ bs. pbind (pget 8 bs) (\<lambda>uc bs. if uc \<noteq> v then Corrupt else Found () bs)) () bs"

text \<open>A number of \<open>k\<close> bytes, the most significant first.\<close>

definition parse_number :: "nat \<Rightarrow> bool list \<Rightarrow> nat found" where
  "parse_number k bs = pfor [0..<k] (\<lambda>_ n bs. pbind (pget 8 bs) (\<lambda>uc. Found (256 * n + uc))) 0 bs"

text \<open>The CRC, the mark of randomisation and the pointer; nothing at the end of the stream.\<close>

definition parse_fields :: "nat \<Rightarrow> bool list \<Rightarrow> (u32 \<times> bool \<times> nat) option found" where
  "parse_fields nmax bs =
     pbind (parse_expect [0x41, 0x59, 0x26, 0x53, 0x59] bs) (\<lambda>_ bs.
     pbind (parse_number 4 bs) (\<lambda>crc bs.
     pbind (pget 1 bs) (\<lambda>b bs.
     pbind (parse_number 3 bs) (\<lambda>orig bs.
     if orig > 10 + nmax then Corrupt else Found (Some (of_nat crc, b = 1, orig)) bs))))"

definition parse_header :: "nat \<Rightarrow> bool list \<Rightarrow> (u32 \<times> bool \<times> nat) option found" where
  "parse_header nmax bs =
     pbind (pget 8 bs) (\<lambda>uc bs.
       if uc = 0x17 then Found None bs else if uc \<noteq> 0x31 then Corrupt else parse_fields nmax bs)"

lemma pget_bits: "n \<le> LENGTH('a) \<Longrightarrow> n < 32 \<Longrightarrow> pget n (bits_of n (w :: 'a::len word) @ bs) = Found (unat (take_bit n w)) bs"
proof -
  assume n: "n \<le> LENGTH('a)" "n < 32"
  have "unat (take_bit n w) = take_bit n (unat w)" using n(1) by (simp add: unsigned_take_bit_eq)
  then have "unat (take_bit n w) < 2 ^ n" by simp
  then show ?thesis unfolding bits_of_nbits [OF n(1)] by (rule pget_nbits)
qed

lemma take_all [simp]: "take_bit 8 (c :: u8) = c" "take_bit 32 (w :: u32) = w"
  by (rule bit_word_eqI; simp add: bit_take_bit_iff)+

lemma pget_byte [simp]: "pget 8 (bits_of 8 (c :: u8) @ bs) = Found (unat c) bs"
  using pget_bits [of 8 c bs] by simp

lemma parse_expect_bits: "parse_expect (map unat cs) (concat (map (bits_of 8) (cs :: u8 list)) @ bs) = Found () bs"
  by (induction cs) (simp_all add: parse_expect_def pget_byte)

lemma pfor_append: "pfor (is @ js) body x bs = pbind (pfor is body x bs) (pfor js body)"
proof (induction "is" arbitrary: x bs)
  case (Cons i "is")
  then show ?case by (cases "body i x bs") simp_all
qed simp

lemma nbits_mod: "nbits n (c mod 2 ^ n) = nbits n c"
  by (simp add: nbits_def take_bit_eq_mod [symmetric] bit_take_bit_iff)

lemma parse_number_nbits: "n < 2 ^ (8 * k) \<Longrightarrow> parse_number k (nbits (8 * k) n @ bs) = Found n bs"
proof (induction k arbitrary: n bs)
  case 0
  then show ?case by (simp add: parse_number_def)
next
  case (Suc k)
  have split: "nbits (8 * Suc k) n = nbits (8 * k) (n div 256) @ nbits 8 n"
    using nbits_split [of "8 * k" "8 * Suc k" n] by simp
  have "n div 256 < 2 ^ (8 * k)" using Suc.prems by (simp add: div_less_iff_less_mult power_add)
  then have "parse_number k (nbits (8 * k) (n div 256) @ nbits 8 n @ bs) = Found (n div 256) (nbits 8 n @ bs)" by (rule Suc.IH)
  moreover have "pget 8 (nbits 8 n @ bs) = Found (n mod 256) bs" using pget_nbits [of "n mod 256" 8 bs] nbits_mod [of 8 n] by simp
  ultimately show ?case unfolding split by (simp add: parse_number_def pfor_append)
qed

lemma parse_header_bits:
  assumes "orig \<le> nmax" "nmax \<le> 900000"
  shows "parse_header nmax (header_bits crc orig @ bs) = Found (Some (crc, False, orig)) bs"
proof -
  let ?cs = "[0x41, 0x59, 0x26, 0x53, 0x59] :: u8 list"
  have head: "header_bits crc orig @ bs = bits_of 8 (0x31 :: u8) @ concat (map (bits_of 8) ?cs) @ nbits (8 * 4) (unat crc) @ [False] @ nbits (8 * 3) orig @ bs"
    using bits_of_nbits [of 32 crc] by (simp add: header_bits_def)
  have "parse_expect [0x41, 0x59, 0x26, 0x53, 0x59] (concat (map (bits_of 8) ?cs) @ r) = Found () r" for r
    using parse_expect_bits [of ?cs r] by simp
  moreover have "parse_number 4 (nbits (8 * 4) (unat crc) @ r) = Found (unat crc) r" for r
    using unat_u32_less [of crc] by (intro parse_number_nbits) simp
  moreover have "orig < 2 ^ (8 * 3)" using assms by simp
  then have "parse_number 3 (nbits (8 * 3) orig @ r) = Found orig r" for r by (rule parse_number_nbits)
  moreover have "pget 1 ([False] @ r) = Found 0 r" for r by (simp add: pget_1 del: One_nat_def)
  moreover have "pget 8 (bits_of 8 (0x31 :: u8) @ r) = Found 0x31 r" for r using pget_byte [of "0x31" r] by simp
  ultimately show ?thesis
    unfolding head parse_header_def parse_fields_def using assms by (simp del: One_nat_def mult_numeral_left_semiring_numeral numeral_times_numeral)
qed

section \<open>The code reads it\<close>

lemma head_frame_put:
  assumes "rd_frame s t"
  shows "rd_frame (s\<lparr>d_storedBlockCRC := x\<rparr>) (t\<lparr>d_storedBlockCRC := x\<rparr>)" "rd_frame (s\<lparr>d_origPtr := y\<rparr>) (t\<lparr>d_origPtr := y\<rparr>)"
    "rd_frame (s\<lparr>d_blockRandomised := z\<rparr>) (t\<lparr>d_blockRandomised := z\<rparr>)"
    "rd_frame (s\<lparr>d_storedCombinedCRC := x\<rparr>) (t\<lparr>d_storedCombinedCRC := x\<rparr>)"
  by (simp_all add: rd_frame_def) (rule dstate.equality; simp add: rd_frame_same [OF assms])+

lemma head_update [simp]:
  "rd_inv (t\<lparr>d_storedBlockCRC := x\<rparr>) = rd_inv t" "pending (t\<lparr>d_storedBlockCRC := x\<rparr>) = pending t"
  "rd_inv (t\<lparr>d_origPtr := y\<rparr>) = rd_inv t" "pending (t\<lparr>d_origPtr := y\<rparr>) = pending t"
  "rd_inv (t\<lparr>d_blockRandomised := z\<rparr>) = rd_inv t" "pending (t\<lparr>d_blockRandomised := z\<rparr>) = pending t"
  "rd_inv (t\<lparr>d_storedCombinedCRC := x\<rparr>) = rd_inv t" "pending (t\<lparr>d_storedCombinedCRC := x\<rparr>) = pending t"
  by (simp_all add: rd_inv_def pending_def)

lemma refines_for_list:
  assumes "I s" "rd_inv s" "\<And>i s. I s \<Longrightarrow> rd_inv s \<Longrightarrow> refines (body i () s) (pbody i () (pending s)) (\<lambda>_ _. I)"
  shows "refines (for_out is body () s) (pfor is pbody () (pending s)) (\<lambda>_ _. I)"
  using assms(1,2)
proof (induction "is" arbitrary: s)
  case Nil
  then show ?case by simp
next
  case (Cons i "is")
  show ?case unfolding for_out.simps pfor.simps
    by (rule refines_bind [OF assms(3) [OF Cons.prems]]) (use Cons.IH in simp)
qed

lemma expect_bytes_refines:
  assumes "rd_inv s"
  shows "refines (expect_bytes vs s) (parse_expect vs (pending s)) (\<lambda>_ _ t. rd_frame s t)"
  unfolding expect_bytes_def parse_expect_def
proof (rule refines_for_list [where I = "rd_frame s"])
  fix v t assume t: "rd_frame s t" "rd_inv t"
  show "refines (andthen (get_bits 8 t) (\<lambda>uc s. Some (if uc \<noteq> v then Stop BZ_DATA_ERROR s else Go () s)))
     (pbind (pget 8 (pending t)) (\<lambda>uc bs. if uc \<noteq> v then Corrupt else Found () bs)) (\<lambda>_ _. rd_frame s)"
    by (rule refines_bind [OF get_bits_refines [OF t(2)]]) (use t in \<open>auto intro: rd_frame_trans\<close>)
qed (use assms in simp_all)


lemma bits_val_bound: "0 \<le> bits_val bs \<and> bits_val bs < 2 ^ length bs"
  by (induction bs rule: rev_induct) (auto split: if_splits)

lemma get_byte_refines:
  assumes "rd_inv s"
  shows "refines (get_bits 8 s) (pget 8 (pending s)) (\<lambda>y x t. x = y \<and> y < 256 \<and> rd_frame s t)"
proof -
  have "y < 256" if "pget 8 bs = Found y cs" for bs cs y
    using that bits_val_bound [of "take 8 bs"] by (auto simp: pget_def nat_less_iff split: if_splits)
  then show ?thesis using get_bits_refines [OF assms, of 8] by (cases "pget 8 (pending s)") auto
qed

lemma number_refines:
  assumes "rd_inv (upd 0 s)" "pending (upd 0 s) = pending s" "k \<le> 4"
    and frame: "\<And>t n m. rd_frame (upd n s) t \<Longrightarrow> rd_frame (upd m s) (upd m t)"
    and same: "\<And>t m. rd_inv (upd m t) = rd_inv t" "\<And>t m. pending (upd m t) = pending t"
    and step: "\<And>t n uc. rd_frame (upd n s) t \<Longrightarrow> n < 256 ^ (k - 1) \<Longrightarrow> uc < 256 \<Longrightarrow> put uc t = Some (Go () (upd (256 * n + uc) t))"
  shows "refines (for_out [0..<k] (\<lambda>_ _ t. andthen (get_bits 8 t) put) () (upd 0 s)) (parse_number k (pending s))
     (\<lambda>n _ t. n < 256 ^ k \<and> rd_frame (upd n s) t)"
proof -
  let ?I = "\<lambda>j n _ t. n < 256 ^ j \<and> rd_frame (upd n s) t"
  have "refines (for_out [0..<k] (\<lambda>_ _ t. andthen (get_bits 8 t) put) () (upd 0 s))
     (pfor [0..<k] (\<lambda>_ n bs. pbind (pget 8 bs) (\<lambda>uc. Found (256 * n + uc))) 0 (pending (upd 0 s))) (?I k)"
  proof (rule refines_for [where I = ?I])
    fix i n x t assume i: "i < k" and I: "?I i n x t" and inv: "rd_inv t"
    show "refines (andthen (get_bits 8 t) put) (pbind (pget 8 (pending t)) (\<lambda>uc. Found (256 * n + uc))) (?I (Suc i))"
    proof (rule refines_bind [OF get_byte_refines [OF inv]])
      fix y x :: nat and u assume u: "x = y \<and> y < 256 \<and> rd_frame t u" "rd_inv u"
      have "(256 :: nat) ^ i \<le> 256 ^ (k - 1)" using i by (intro power_increasing) simp_all
      then have n: "n < 256 ^ (k - 1)" using I by linarith
      have fr: "rd_frame (upd n s) u" using I u rd_frame_trans by blast
      have "put y u = Some (Go () (upd (256 * n + y) u))" using u by (intro step [OF fr n]) simp
      then have "put x u = Some (Go () (upd (256 * n + y) u))" using u by simp
      then show "refines (put x u) (Found (256 * n + y) (pending u)) (?I (Suc i))"
        using u I frame [OF fr, of "256 * n + y"] by (simp add: same)
    qed
  qed (use assms(1) in simp_all)
  then show ?thesis unfolding parse_number_def assms(2) .
qed

lemma push_number: "uc < 256 \<Longrightarrow> push_bit 8 n OR uc = 256 * n + (uc :: nat)"
proof -
  assume uc: "uc < 256"
  have "push_bit 8 n AND uc = 0"
  proof (rule bit_eqI)
    fix i
    have "\<not> bit uc i" if "8 \<le> i"
      using uc power_increasing [OF that, of "2 :: nat"] nat_bit_le [of uc i] by auto
    then show "bit (push_bit 8 n AND uc) i = bit 0 i" by (auto simp: bit_simps)
  qed
  then show ?thesis using disjunctive_add_eq_or [of "push_bit 8 n" uc] by (simp add: push_bit_eq_mult)
qed

lemma push_word: "uc < 256 \<Longrightarrow> push_bit 8 (of_nat n) OR of_nat uc = (of_nat (256 * n + uc) :: u32)"
  unfolding push_number [symmetric] of_nat_or_eq of_nat_push_bit by (rule refl)

lemma push_int: "uc < 256 \<Longrightarrow> push_bit 8 (int n) OR int uc = int (256 * n + uc)"
  unfolding push_number [symmetric] of_nat_or_eq of_nat_push_bit by (rule refl)

lemma receive_block_crc_refines:
  assumes "rd_inv s"
  shows "refines (receive_block_crc s) (parse_number 4 (pending s)) (\<lambda>n _ t. rd_frame (s\<lparr>d_storedBlockCRC := of_nat n\<rparr>) t)"
proof -
  let ?upd = "\<lambda>n s. s\<lparr>d_storedBlockCRC := of_nat n\<rparr>"
  have "refines (for_out [0..<4] (\<lambda>_ _ t. andthen (get_bits 8 t)
        (\<lambda>uc s. Some (Go () (s\<lparr>d_storedBlockCRC := push_bit 8 (d_storedBlockCRC s) OR of_nat uc\<rparr>)))) () (?upd 0 s))
      (parse_number 4 (pending s)) (\<lambda>n _ t. n < 256 ^ 4 \<and> rd_frame (?upd n s) t)"
  proof (rule number_refines)
    fix t n uc assume t: "rd_frame (?upd n s) t" "uc < (256 :: nat)"
    have "d_storedBlockCRC t = of_nat n" using rd_frame_same [OF t(1)] by simp
    then show "Some (Go () (t\<lparr>d_storedBlockCRC := push_bit 8 (d_storedBlockCRC t) OR of_nat uc\<rparr>)) = Some (Go () (?upd (256 * n + uc) t))"
      using push_word [OF t(2), of n] by simp
  next
    fix t n m assume "rd_frame (?upd n s) t"
    from head_frame_put(1) [OF this] show "rd_frame (?upd m s) (?upd m t)" by simp
  qed (use assms in simp_all)
  then show ?thesis unfolding receive_block_crc_def by (simp add: refines_mono)
qed

lemma receive_origPtr_refines:
  assumes "rd_inv s"
  shows "refines (receive_origPtr s) (parse_number 3 (pending s)) (\<lambda>n _ t. rd_frame (s\<lparr>d_origPtr := int n\<rparr>) t)"
proof -
  let ?upd = "\<lambda>n s. s\<lparr>d_origPtr := int n\<rparr>"
  have "refines (for_out [0..<3] (\<lambda>_ _ t. andthen (get_bits 8 t)
        (\<lambda>uc s. do { z \<leftarrow> int32 (push_bit 8 (d_origPtr s) OR int uc); Some (Go () (s\<lparr>d_origPtr := z\<rparr>)) })) () (?upd 0 s))
      (parse_number 3 (pending s)) (\<lambda>n _ t. n < 256 ^ 3 \<and> rd_frame (?upd n s) t)"
  proof (rule number_refines)
    fix t n uc assume t: "rd_frame (?upd n s) t" "n < 256 ^ (3 - 1)" "uc < (256 :: nat)"
    have "d_origPtr t = int n" using rd_frame_same [OF t(1)] by simp
    then have "push_bit 8 (d_origPtr t) OR int uc = int (256 * n + uc)" using push_int [OF t(3), of n] by simp
    moreover have "int32 (int (256 * n + uc)) = Some (int (256 * n + uc))" using t(2,3) by simp
    ultimately show "do { z \<leftarrow> int32 (push_bit 8 (d_origPtr t) OR int uc); Some (Go () (t\<lparr>d_origPtr := z\<rparr>)) } = Some (Go () (?upd (256 * n + uc) t))"
      by (simp only: bind.bind_lunit)
  next
    fix t n m assume "rd_frame (?upd n s) t"
    from head_frame_put(2) [OF this] show "rd_frame (?upd m s) (?upd m t)" by simp
  qed (use assms in simp_all)
  then show ?thesis unfolding receive_origPtr_def by (simp add: refines_mono)
qed

text \<open>What the header leaves.\<close>

definition head_read :: "dstate \<Rightarrow> (u32 \<times> bool \<times> nat) option \<Rightarrow> bool \<Rightarrow> dstate \<Rightarrow> bool" where
  "head_read s h b t \<longleftrightarrow> (case h of None \<Rightarrow> \<not> b \<and> rd_frame s t
     | Some (crc, rand, orig) \<Rightarrow> b \<and> rd_frame (s\<lparr>d_storedBlockCRC := crc, d_blockRandomised := rand, d_origPtr := int orig\<rparr>) t)"

lemma receive_fields_refines:
  assumes "rd_inv s"
  shows "refines (receive_fields s) (parse_fields (100000 * d_blockSize100k s) (pending s)) (head_read s)"
  unfolding receive_fields_def parse_fields_def
proof (rule refines_bind [OF expect_bytes_refines [OF assms]], rule refines_bind [OF receive_block_crc_refines], assumption,
    rule refines_bind [OF get_bits_refines])
  fix u v crc b w and b' :: nat
  assume u: "rd_frame s u" and v: "rd_frame (u\<lparr>d_storedBlockCRC := of_nat crc\<rparr>) v" and w: "b' = b \<and> rd_frame v w" "rd_inv w"
  let ?w = "w\<lparr>d_blockRandomised := (b' = 1)\<rparr>"
  have "rd_frame (s\<lparr>d_storedBlockCRC := of_nat crc\<rparr>) w"
    using head_frame_put(1) [OF u] v w rd_frame_trans by blast
  then have fr: "rd_frame (s\<lparr>d_storedBlockCRC := of_nat crc, d_blockRandomised := (b = 1)\<rparr>) ?w"
    using head_frame_put(3) w by blast
  have inv: "rd_inv ?w" using w by simp
  have "refines (andthen (receive_origPtr ?w) (\<lambda>_ s.
        Some (if d_origPtr s < 0 \<or> d_origPtr s > 10 + 100000 * int (d_blockSize100k s)
              then Stop BZ_DATA_ERROR s else Go True s)))
     (pbind (parse_number 3 (pending ?w)) (\<lambda>orig bs.
        if orig > 10 + 100000 * d_blockSize100k s then Corrupt else Found (Some (of_nat crc, b = 1, orig)) bs)) (head_read s)"
  proof (rule refines_bind [OF receive_origPtr_refines [OF inv]])
    fix orig z x assume x: "rd_frame (?w\<lparr>d_origPtr := int orig\<rparr>) x" "rd_inv x"
    have fr: "rd_frame (s\<lparr>d_storedBlockCRC := of_nat crc, d_blockRandomised := (b = 1), d_origPtr := int orig\<rparr>) x"
      using head_frame_put(2) [OF fr, of "int orig"] x(1) rd_frame_trans by blast
    have "d_origPtr x = int orig" "d_blockSize100k x = d_blockSize100k s" using rd_frame_same [OF fr] by simp_all
    then show "refines (Some (if d_origPtr x < 0 \<or> d_origPtr x > 10 + 100000 * int (d_blockSize100k x)
              then Stop BZ_DATA_ERROR x else Go True x))
        (if orig > 10 + 100000 * d_blockSize100k s then Corrupt else Found (Some (of_nat crc, b = 1, orig)) (pending x)) (head_read s)"
      using x(2) fr by (auto simp: head_read_def)
  qed
  then show "refines (andthen (receive_origPtr ?w) (\<lambda>_ s.
        Some (if d_origPtr s < 0 \<or> d_origPtr s > 10 + 100000 * int (d_blockSize100k s)
              then Stop BZ_DATA_ERROR s else Go True s)))
     (pbind (parse_number 3 (pending w)) (\<lambda>orig bs.
        if orig > 10 + 100000 * d_blockSize100k s then Corrupt else Found (Some (of_nat crc, b = 1, orig)) bs)) (head_read s)"
    by simp
qed simp_all

lemma receive_header_refines:
  assumes "rd_inv s"
  shows "refines (receive_header s) (parse_header (100000 * d_blockSize100k s) (pending s)) (head_read s)"
  unfolding receive_header_def parse_header_def
proof (rule refines_bind [OF get_bits_refines [OF assms]])
  fix y x :: nat and t assume t: "x = y \<and> rd_frame s t" "rd_inv t"
  have "head_read s h b u" if "head_read t h b u" for h b u
  proof -
    have "rd_frame (s\<lparr>d_storedBlockCRC := c, d_blockRandomised := r, d_origPtr := p\<rparr>)
        (t\<lparr>d_storedBlockCRC := c, d_blockRandomised := r, d_origPtr := p\<rparr>)" for c r p
      using t by (intro head_frame_put) simp
    then show ?thesis using that t rd_frame_trans by (fastforce simp: head_read_def split: option.splits)
  qed
  then have "refines (receive_fields t) (parse_fields (100000 * d_blockSize100k t) (pending t)) (head_read s)"
    using receive_fields_refines [OF t(2)] refines_mono by blast
  moreover have "d_blockSize100k t = d_blockSize100k s" using t by (simp add: rd_frame_same)
  ultimately show "refines (if x = 0x17 then Some (Go False t) else if x \<noteq> 0x31 then Some (Stop BZ_DATA_ERROR t) else receive_fields t)
      (if y = 0x17 then Found None (pending t) else if y \<noteq> 0x31 then Corrupt
       else parse_fields (100000 * d_blockSize100k s) (pending t)) (head_read s)"
    using t by (auto simp: head_read_def)
qed simp


end
