(* ===== verification/BzStream.thy ===== *)
theory BzStream
  imports BzHeader
begin

text \<open>
  A block on its way from the input of the compressor to the output of the decompressor
  (\<open>benchmarks/wasi/bzip2/bzlib.c\<close>): the parts of the other theories are put together.
\<close>

section \<open>The hypothesis on the sorting, and a block in the decompressor\<close>

text \<open>What is needed of the sorting: the pointers are the sorted rotations, and the block is not changed.\<close>

definition rotations_sorted :: "'a estate_scheme \<Rightarrow> bool" where
  "rotations_sorted s \<longleftrightarrow> (\<forall>i < nblock s. ptr_at s i < nblock s)
     \<and> map (\<lambda>i. rotate (ptr_at s i) (block_of s)) [0..<nblock s] = sorted_rows (block_of s)
     \<and> 0 \<le> origPtr s \<and> origPtr s < int (nblock s) \<and> ptr_at s (nat (origPtr s)) = 0"

definition sorts :: "('a estate_scheme \<Rightarrow> 'a estate_scheme option) \<Rightarrow> 'a estate_scheme \<Rightarrow> bool" where
  "sorts blockSort s \<longleftrightarrow> (\<exists>a b orig. blockSort s = Some (s\<lparr>arr1 := a, arr2 := b, origPtr := orig\<rparr>)
     \<and> block_of (s\<lparr>arr1 := a, arr2 := b, origPtr := orig\<rparr>) = block_of s
     \<and> rotations_sorted (s\<lparr>arr1 := a, arr2 := b, origPtr := orig\<rparr>))"

lemma length_block_of [simp]: "length (block_of s) = nblock s"
  by (simp add: block_of_def)

lemma last_rotation: "p < length xs \<Longrightarrow> last (rotate p xs) = xs ! before (length xs) p"
proof (cases p)
  case 0
  assume "p < length xs"
  then have "xs \<noteq> []" by auto
  then show ?thesis using 0 by (simp add: before_def last_conv_nth)
next
  case (Suc k)
  assume p: "p < length xs"
  then have "xs \<noteq> []" by auto
  then show ?thesis using last_rotate [of xs k] p Suc by (simp add: before_def del: rotate_Suc)
qed

lemma last_column_bwt:
  assumes "rotations_sorted s"
  shows "last_column s = bwt (block_of s)"
proof -
  have rows: "sorted_rows (block_of s) = map (\<lambda>i. rotate (ptr_at s i) (block_of s)) [0..<nblock s]"
    and ptr: "\<forall>i < nblock s. ptr_at s i < nblock s" using assms by (simp_all add: rotations_sorted_def)
  have "last (rotate (ptr_at s i) (block_of s)) = arr2 s (before (nblock s) (ptr_at s i))" if "i < nblock s" for i
  proof -
    have p: "ptr_at s i < nblock s" using ptr that by simp
    then have "before (nblock s) (ptr_at s i) < nblock s" by (rule before_less)
    then show ?thesis using p by (simp add: last_rotation) (simp add: block_of_def)
  qed
  then show ?thesis unfolding bwt_def rows by (simp add: last_column_def)
qed

lemma original_row:
  assumes "rotations_sorted s"
  shows "sorted_rows (block_of s) ! nat (origPtr s) = block_of s"
proof -
  let ?o = "nat (origPtr s)"
  have o: "?o < nblock s" "ptr_at s ?o = 0" using assms by (auto simp: rotations_sorted_def)
  have "sorted_rows (block_of s) ! ?o = map (\<lambda>i. rotate (ptr_at s i) (block_of s)) [0..<nblock s] ! ?o"
    using assms by (simp add: rotations_sorted_def)
  then show ?thesis using o by simp
qed

lemma out_frame_same:
  assumes "out_frame s t"
  shows "pending t = pending s" "d_ready t = d_ready s" "d_smallDecompress t = d_smallDecompress s" "length (d_cftab t) = length (d_cftab s)"
    "d_storedBlockCRC t = d_storedBlockCRC s" "d_calculatedCombinedCRC t = d_calculatedCombinedCRC s" "d_blockSize100k t = d_blockSize100k s"
proof -
  define u where "u = t\<lparr>d_tt := d_tt s, d_cftab := d_cftab s, d_tPos := d_tPos s, d_k0 := d_k0 s, d_rand := d_rand s,
     d_nblock_used := d_nblock_used s, d_save_nblock := d_save_nblock s, d_state_out_len := d_state_out_len s,
     d_state_out_ch := d_state_out_ch s, d_calculatedBlockCRC := d_calculatedBlockCRC s, d_next_out := d_next_out s,
     d_avail_out := d_avail_out s, d_total_out_lo32 := d_total_out_lo32 s, d_total_out_hi32 := d_total_out_hi32 s\<rparr>"
  have s: "u = s" using assms by (simp add: out_frame_def u_def)
  show "length (d_cftab t) = length (d_cftab s)" using assms by (simp add: out_frame_def)
  show "pending t = pending s" "d_ready t = d_ready s" "d_smallDecompress t = d_smallDecompress s"
    "d_storedBlockCRC t = d_storedBlockCRC s" "d_calculatedCombinedCRC t = d_calculatedCombinedCRC s" "d_blockSize100k t = d_blockSize100k s"
    by (simp_all add: s [symmetric])
      (simp_all add: u_def pending_def d_ready_def rd_inv_def map_shape_def selectors_shape_def tables_d_shape_def values_shape_def)
qed

text \<open>The decompressor with all its arrays, between two blocks.\<close>

definition d_full :: "dstate \<Rightarrow> bool" where
  "d_full d \<longleftrightarrow> d_ready d \<and> length (d_cftab d) = 257 \<and> \<not> d_smallDecompress d"

lemma d_full_rd: "rd_frame s t \<Longrightarrow> rd_inv t \<Longrightarrow> d_full s \<Longrightarrow> d_full t"
  by (simp add: d_full_def d_ready_def map_shape_def selectors_shape_def tables_d_shape_def values_shape_def rd_frame_same)

lemma d_full_head [simp]:
  "d_full (s\<lparr>d_storedBlockCRC := x, d_blockRandomised := z, d_origPtr := y\<rparr>) = d_full s"
  by (simp add: d_full_def d_ready_def map_shape_def selectors_shape_def tables_d_shape_def values_shape_def rd_inv_def)

lemma decompress_block_ok:
  assumes d: "d_full d" "pending d = header_bits crc orig @ bits"
    and parse: "parse_block (100000 * d_blockSize100k d) bs = Found (bwt xs) rest" "bits = bs"
    and xs: "orig < length xs" "length xs \<le> 100000 * d_blockSize100k d" "sorted_rows xs ! orig = xs" "unrle xs = Some ys"
  shows "\<exists>t. decompress_block d = Some (Go () t) \<and> outputs xs ys t \<and> \<not> block_done t \<and> ys \<noteq> []
     \<and> d_calculatedBlockCRC t = 0xffffffff \<and> d_storedBlockCRC t = crc \<and> pending t = rest \<and> d_full t
     \<and> d_next_out t = d_next_out d \<and> d_avail_out t = d_avail_out d \<and> d_calculatedCombinedCRC t = d_calculatedCombinedCRC d
     \<and> d_blockSize100k t = d_blockSize100k d"
proof -
  let ?m = "100000 * d_blockSize100k d"
  have inv: "rd_inv d" "?m \<le> 900000" using d(1) ready_max [of d] by (simp_all add: d_full_def d_ready_def)
  have "parse_header ?m (pending d) = Found (Some (crc, False, orig)) bits"
    unfolding d(2) using xs(1,2) inv(2) by (intro parse_header_bits) simp_all
  then obtain t1 where t1: "receive_header d = Some (Go True t1)" "rd_inv t1" "pending t1 = bits"
     "rd_frame (d\<lparr>d_storedBlockCRC := crc, d_blockRandomised := False, d_origPtr := int orig\<rparr>) t1"
    using receive_header_refines [OF inv(1)] by (auto simp: head_read_def)
  have full: "d_full t1" using d_full_rd [OF t1(4,2)] d(1) by simp
  then have ready: "d_ready t1" by (simp add: d_full_def)
  have size: "d_blockSize100k t1 = d_blockSize100k d" using rd_frame_same [OF t1(4)] by simp
  obtain t2 where t2: "receive_block t1 = Some (Go (length (bwt xs)) t2)" "pending t2 = rest" "stored (bwt xs) t2" "has_counts (bwt xs) t2"
     "same_head t1 t2" "d_ready t2" "d_blockSize100k t2 = d_blockSize100k t1" "d_smallDecompress t2 = d_smallDecompress t1"
    using receive_block_refines [OF ready] parse unfolding size t1(3) by auto
  have head: "d_origPtr t2 = int orig" "\<not> d_blockRandomised t2" "d_storedBlockCRC t2 = crc" "d_cftab t2 = d_cftab t1"
      "d_next_out t2 = d_next_out d" "d_avail_out t2 = d_avail_out d" "d_calculatedCombinedCRC t2 = d_calculatedCombinedCRC d"
    using t2(5) rd_frame_same [OF t1(4)] by (simp_all add: same_head_def)
  have full2: "d_full t2" using full t2(6,8) head(4) by (simp add: d_full_def)
  have "d_blockSize100k t2 \<le> 9" using inv(2) t2(7) size by simp
  then have "received xs orig t2"
    using xs head(1,2) t2(3,4,7) full2 size by (simp add: received_def d_full_def)
  from unsorted_outputs [OF this xs(4)] obtain t3 where t3: "unsort_fast (length xs) t2 = Some (Go () t3)" "outputs xs ys t3"
     "\<not> block_done t3" "ys \<noteq> []" "d_calculatedBlockCRC t3 = 0xffffffff" "out_frame t2 t3" "d_next_out t3 = d_next_out t2"
     "d_avail_out t3 = d_avail_out t2" by blast
  note same = out_frame_same [OF t3(6)]
  have "decompress_block d = Some (Go () t3)"
    using t1(1) t2(1) t3(1) full2 by (simp add: decompress_block_def d_full_def)
  moreover have "d_full t3" using full2 same by (simp add: d_full_def)
  ultimately show ?thesis using t3 same head t2(2,7) size by (intro exI [of _ t3]) simp
qed

lemma output_block_ok:
  assumes "outputs xs ys s" "length ys \<le> d_avail_out s" "d_storedBlockCRC s = BZ_FINALISE_CRC (fold BZ_UPDATE_CRC ys (d_calculatedBlockCRC s))"
    "d_full s"
  shows "\<exists>t. output_block s = Some (Go () t) \<and> d_next_out t = d_next_out s @ ys \<and> d_avail_out t = d_avail_out s - length ys
     \<and> pending t = pending s \<and> d_full t \<and> d_blockSize100k t = d_blockSize100k s
     \<and> d_calculatedCombinedCRC t = (push_bit 1 (d_calculatedCombinedCRC s) OR drop_bit 31 (d_calculatedCombinedCRC s)) XOR d_storedBlockCRC s"
proof -
  obtain t where t: "unRLE_obuf_to_output_FAST s = Some (False, t)" "d_next_out t = d_next_out s @ ys"
     "d_calculatedBlockCRC t = fold BZ_UPDATE_CRC ys (d_calculatedBlockCRC s)" "block_done t" "out_frame s t"
     "d_avail_out t = d_avail_out s - length ys"
    using output_call [OF assms(1)] assms(2) by auto
  note same = out_frame_same [OF t(5)]
  let ?u = "t\<lparr>d_calculatedBlockCRC := BZ_FINALISE_CRC (d_calculatedBlockCRC t),
     d_calculatedCombinedCRC := (push_bit 1 (d_calculatedCombinedCRC t) OR drop_bit 31 (d_calculatedCombinedCRC t)) XOR d_storedBlockCRC s\<rparr>"
  have "output_block s = Some (Go () ?u)"
    using t(1,3,4) same(5) assms(3) by (simp add: output_block_def block_done_def Let_def)
  moreover have "d_full t" using assms(4) same by (simp add: d_full_def)
  then have "d_full ?u" "pending ?u = pending s"
    using same(1) by (simp_all add: d_full_def d_ready_def map_shape_def selectors_shape_def tables_d_shape_def values_shape_def
        rd_inv_def pending_def)
  ultimately show ?thesis using t(2,6) same by (intro exI [of _ ?u]) simp
qed

section \<open>The compressor writes a block\<close>

text \<open>The code of a block, for the bytes \<open>ys\<close> that it stands for.\<close>

definition block_code :: "nat \<Rightarrow> u8 list \<Rightarrow> bool list \<Rightarrow> bool" where
  "block_code b ys bits \<longleftrightarrow> (\<exists>xs orig codes. bits = header_bits (BZ_FINALISE_CRC (fold BZ_UPDATE_CRC ys BZ_INITIALISE_CRC)) orig @ codes
     \<and> orig < length xs \<and> length xs \<le> 100000 * b \<and> sorted_rows xs ! orig = xs \<and> unrle xs = Some ys
     \<and> (\<forall>nmax rest. length xs \<le> nmax \<and> nmax \<le> 900000 \<longrightarrow> parse_block nmax (codes @ rest) = Found (bwt xs) rest))"

definition trail_bits :: "u32 \<Rightarrow> bool list" where
  "trail_bits crc = concat (map (bits_of 8) [0x17, 0x72, 0x45, 0x38, 0x50, 0x90 :: u8]) @ bits_of 32 crc"

definition magic_bits :: "nat \<Rightarrow> bool list" where
  "magic_bits b = concat (map (bits_of 8) [0x42, 0x5a, 0x68, of_nat (0x30 + b) :: u8])"

definition add_crc :: "u8 list \<Rightarrow> u32 \<Rightarrow> u32" where
  "add_crc ys c = (push_bit 1 c OR drop_bit 31 c) XOR BZ_FINALISE_CRC (fold BZ_UPDATE_CRC ys BZ_INITIALISE_CRC)"

text \<open>The state of the compressor when it begins a block: the arrays of the back end, and the bits that are left.\<close>

definition back_ready :: "'a estate_scheme \<Rightarrow> bool" where
  "back_ready s \<longleftrightarrow> back_shape s \<and> length (unseqToSeq s) = 256 \<and> 1 \<le> blockSize100k s \<and> blockSize100k s \<le> 9"

definition lead_ready :: "'a estate_scheme \<Rightarrow> bool" where
  "lead_ready s \<longleftrightarrow> numZ s = 0
     \<and> (blockNo s \<noteq> 1 \<longrightarrow> 0 \<le> bsLive s \<and> bsLive s \<le> 32 \<and> (\<forall>k. int k < 32 - bsLive s \<longrightarrow> \<not> bit (bsBuff s) k))"

text \<open>The bits in front of a block: the header of the stream, or what is left of the block before.\<close>

definition lead_bits :: "'a estate_scheme \<Rightarrow> bool list" where
  "lead_bits s = (if blockNo s = 1 then magic_bits (blockSize100k s) else take (nat (bsLive s)) (bits_of 32 (bsBuff s)))"

lemma lead_ok:
  assumes "lead_ready s" "8 * zbits s + 32 \<le> 8 * arr2_bytes s"
  shows "\<exists>t. (if blockNo s = 1 then write_stream_header s else Some s) = Some t \<and> bs_inv t \<and> bs_written t = lead_bits s
     \<and> bs_frame s t \<and> 8 * arr2_bytes s \<le> bs_room t + 8 * zbits s + 32"
proof (cases "blockNo s = 1")
  case True
  let ?s = "BZ2_bsInitWrite s" and ?cs = "[0x42, 0x5a, 0x68, of_nat (0x30 + blockSize100k s)] :: u8 list"
  have i: "bs_inv ?s" "bs_written ?s = []" "bs_room ?s = 8 * arr2_bytes s - 8 * zbits s"
    using assms by (auto simp: BZ2_bsInitWrite_def bs_inv_def bs_written_def zbytes_def lead_ready_def bs_room_def)
  have f: "bs_frame s ?s"
    unfolding bs_frame_def BZ2_bsInitWrite_def
    by (intro exI [of _ "arr2 s"] exI [of _ "numZ s"] exI [of _ 0]) simp
  have "32 \<le> bs_room ?s" using assms(2) i(3) by simp
  then obtain t where t: "write_stream_header s = Some t" "bs_inv t" "bs_written t = concat (map (bits_of 8) ?cs)"
     "bs_room t = bs_room ?s - 32" "bs_frame ?s t"
    using put_bytes_ok [OF i(1), of ?cs] i(2) by (auto simp: runs_iff_Some write_stream_header_def)
  have "bs_frame s t" using f t(5) by (rule bs_frame_trans)
  then show ?thesis using True t i(3) by (intro exI [of _ t]) (simp add: lead_bits_def magic_bits_def)
next
  case False
  then have "bs_inv s" using assms by (auto simp: lead_ready_def bs_inv_def)
  moreover have "bs_written s = lead_bits s" using False assms(1) by (simp add: lead_bits_def lead_ready_def bs_written_def zbytes_def)
  moreover have "8 * arr2_bytes s \<le> bs_room s + 8 * zbits s + 32"
    using False assms(1) by (auto simp: bs_room_def lead_ready_def)
  ultimately show ?thesis using False by (intro exI [of _ s]) simp
qed

lemma write_trailer_ok:
  assumes "bs_inv s" "80 \<le> bs_room s"
  shows "\<exists>t k. write_trailer s = Some t \<and> bs_frame s t \<and> k < 8 \<and> zbits t + numZ t \<le> arr2_bytes t
     \<and> concat (map (bits_of 8) (zbytes t)) = bs_written s @ trail_bits (combinedCRC s) @ replicate k False"
proof -
  let ?cs = "[0x17, 0x72, 0x45, 0x38, 0x50, 0x90] :: u8 list"
  obtain t where t: "for_in ?cs (\<lambda>c s. bsPutUChar s c) s = Some t" "bs_inv t"
     "bs_written t = bs_written s @ concat (map (bits_of 8) ?cs)" "bs_room t = bs_room s - 48" "bs_frame s t"
    using put_bytes_ok [OF assms(1), of ?cs] assms(2) by (auto simp: runs_iff_Some)
  have crc: "combinedCRC t = combinedCRC s" using back_frame_same(3) [OF back_frame_writer [OF t(5)]] .
  have "32 \<le> bs_room t" using t(4) assms(2) by simp
  then obtain u where u: "bsPutUInt32 t (combinedCRC t) = Some u" "bs_inv u" "bs_written u = bs_written t @ bits_of 32 (combinedCRC s)" "bs_frame t u"
    using bsPutUInt32_ok [OF t(2), of "combinedCRC t"] crc by (auto simp: runs_iff_Some)
  obtain v k where v: "bsFinishWrite u = Some v" "bs_frame u v" "k < 8" "concat (map (bits_of 8) (zbytes v)) = bs_written u @ replicate k False"
    using bsFinishWrite_ok [OF u(2)] by (auto simp: runs_iff_Some)
  have frame: "bs_frame s v" using bs_frame_trans [OF t(5) bs_frame_trans [OF u(4) v(2)]] .
  have "length (concat (map (bits_of 8) (zbytes v))) = length (bs_written u @ replicate k False)" using v(4) by simp
  moreover have "nat (bsLive u) \<le> 32" using u(2) by (auto simp: bs_inv_def)
  ultimately have "8 * numZ v = 8 * numZ u + nat (bsLive u) + k" by (simp add: bs_written_def min_absorb2)
  then have "zbits v + numZ v \<le> arr2_bytes v"
    using u(2) v(3) back_frame_room [OF back_frame_writer [OF v(2)]] by (auto simp: bs_inv_def)
  moreover have "write_trailer s = Some v" using t(1) u(1) v(1) by (simp add: write_trailer_def)
  ultimately show ?thesis
    using frame v(3,4) u(3) t(3) by (intro exI [of _ v] exI [of _ k]) (simp add: trail_bits_def)
qed


text \<open>The block is closed and stands for the bytes \<open>ys\<close>.\<close>

definition closed_block :: "u8 list \<Rightarrow> 'a estate_scheme \<Rightarrow> bool" where
  "closed_block ys s \<longleftrightarrow> back_ready s \<and> lead_ready s \<and> unrle (block_of s) = Some ys \<and> blockCRC s = fold BZ_UPDATE_CRC ys BZ_INITIALISE_CRC
     \<and> length (inUse s) = 256 \<and> (\<forall>c \<in> set (block_of s). inUse s ! unat c) \<and> 0 < nblock s \<and> nblock s \<le> 100000 * blockSize100k s"

text \<open>What writing a block changes, and what has been written.\<close>

definition comp_frame :: "'a estate_scheme \<Rightarrow> 'a estate_scheme \<Rightarrow> bool" where
  "comp_frame s t \<longleftrightarrow> back_frame (s\<lparr>origPtr := origPtr t, zbits := zbits t, blockCRC := blockCRC t, combinedCRC := combinedCRC t\<rparr>) t"

definition sent :: "bool \<Rightarrow> 'a estate_scheme \<Rightarrow> bool list \<Rightarrow> 'a estate_scheme \<Rightarrow> bool" where
  "sent is_last s bits t \<longleftrightarrow> comp_frame s t \<and> back_ready t
     \<and> (if is_last then \<exists>k < 8. concat (map (bits_of 8) (zbytes t)) = lead_bits s @ bits @ trail_bits (combinedCRC t) @ replicate k False
            \<and> zbits t + numZ t \<le> arr2_bytes t
        else bs_inv t \<and> bs_written t = lead_bits s @ bits)"

lemma comp_frame_same:
  assumes "comp_frame s t"
  shows "blockSize100k t = blockSize100k s" "blockNo t = blockNo s" "arr2_bytes t = arr2_bytes s"
  using back_frame_same [OF assms [unfolded comp_frame_def]] by (simp_all add: arr2_bytes_def)

lemma comp_frameI:
  assumes "back_frame s t"
  shows "comp_frame s t"
proof -
  have "origPtr t = origPtr s" "zbits t = zbits s" "blockCRC t = blockCRC s" "combinedCRC t = combinedCRC s"
    by (subst back_frame_update [OF assms], simp)+
  then show ?thesis using assms by (simp add: comp_frame_def)
qed

lemma comp_frame_back:
  assumes "comp_frame s t" "back_frame t u"
  shows "comp_frame s u"
proof -
  have "origPtr u = origPtr t" "zbits u = zbits t" "blockCRC u = blockCRC t" "combinedCRC u = combinedCRC t"
    by (subst back_frame_update [OF assms(2)], simp)+
  then show ?thesis using assms back_frame_trans unfolding comp_frame_def by metis
qed

text \<open>The end of a block: the trailer, or nothing.\<close>

lemma sent_end:
  assumes "comp_frame s t" "back_ready t" "bs_inv t" "bs_written t = lead_bits s @ bits" "80 \<le> bs_room t"
  shows "\<exists>u. (if is_last then write_trailer t else Some t) = Some u \<and> sent is_last s bits u \<and> combinedCRC u = combinedCRC t"
proof (cases is_last)
  case True
  obtain u k where u: "write_trailer t = Some u" "bs_frame t u" "k < 8" "zbits u + numZ u \<le> arr2_bytes u"
     "concat (map (bits_of 8) (zbytes u)) = bs_written t @ trail_bits (combinedCRC t) @ replicate k False"
    using write_trailer_ok [OF assms(3,5)] by blast
  have f: "back_frame t u" using u(2) by (rule back_frame_writer)
  have "back_ready u" using assms(2) back_shape_writer [OF u(2)] back_frame_same(2) [OF f] by (simp add: back_ready_def)
  moreover have "combinedCRC u = combinedCRC t" using back_frame_same(3) [OF f] .
  ultimately show ?thesis using True u assms(4) comp_frame_back [OF assms(1) f]
    by (intro exI [of _ u]) (auto simp: sent_def)
qed (use assms in \<open>simp add: sent_def\<close>)

lemma compress_nothing:
  assumes "back_ready s" "lead_ready s" "nblock s = 0"
  shows "\<exists>u. BZ2_compressBlock blockSort is_last s = Some u \<and> sent is_last s [] u \<and> combinedCRC u = combinedCRC s"
proof -
  let ?s = "s\<lparr>zbits := 0\<rparr>"
  have lead: "lead_ready ?s" "lead_bits ?s = lead_bits s" using assms by (simp_all add: lead_ready_def lead_bits_def)
  have bytes: "400000 \<le> arr2_bytes s" "arr2_bytes ?s = arr2_bytes s"
    using assms(1) by (simp_all add: arr2_bytes_def back_ready_def)
  then have "8 * zbits ?s + 32 \<le> 8 * arr2_bytes ?s" by simp
  from lead_ok [OF lead(1) this] obtain t where t: "(if blockNo ?s = 1 then write_stream_header ?s else Some ?s) = Some t" "bs_inv t"
     "bs_written t = lead_bits s" "bs_frame ?s t" "8 * arr2_bytes s \<le> bs_room t + 32"
    using bytes(2) unfolding lead(2) by auto
  note f = back_frame_writer [OF t(4)]
  have "zbits t = 0" "origPtr t = origPtr s" "blockCRC t = blockCRC s" "combinedCRC t = combinedCRC s"
    by (subst back_frame_update [OF f], simp)+
  then have "comp_frame s t" using f by (simp add: comp_frame_def)
  moreover have "back_ready t"
    using assms(1) back_shape_writer [OF t(4)] back_frame_same(2) [OF f] by (simp add: back_ready_def back_shape_def tables_shape_def)
  moreover have "80 \<le> bs_room t" using t(5) bytes(1) by simp
  ultimately obtain u where "(if is_last then write_trailer t else Some t) = Some u" "sent is_last s [] u" "combinedCRC u = combinedCRC t"
    using sent_end [of s t "[]" is_last] t(2,3) by auto
  then show ?thesis using t(1) assms(3) \<open>combinedCRC t = combinedCRC s\<close> back_frame_same(5) [OF f]
    by (intro exI [of _ u]) (auto simp: BZ2_compressBlock_def Let_def split: if_splits)
qed

text \<open>A closed block is written.\<close>

lemma compress_block:
  assumes "closed_block ys s" "sorts blockSort (finalise_block s)"
  shows "\<exists>u bits. BZ2_compressBlock blockSort is_last s = Some u \<and> block_code (blockSize100k s) ys bits \<and> sent is_last s bits u
     \<and> combinedCRC u = add_crc ys (combinedCRC s)"
proof -
  note c = assms(1) [unfolded closed_block_def back_ready_def back_shape_def lead_ready_def]
  obtain a b orig where sort: "blockSort (finalise_block s) = Some ((finalise_block s)\<lparr>arr1 := a, arr2 := b, origPtr := orig\<rparr>)"
     "block_of ((finalise_block s)\<lparr>arr1 := a, arr2 := b, origPtr := orig\<rparr>) = block_of (finalise_block s)"
     "rotations_sorted ((finalise_block s)\<lparr>arr1 := a, arr2 := b, origPtr := orig\<rparr>)"
    using assms(2) by (auto simp: sorts_def)
  define t where "t = (finalise_block s)\<lparr>arr1 := a, arr2 := b, origPtr := orig\<rparr>"
  have fin: "block_of (finalise_block s) = block_of s" by (simp add: finalise_block_def block_of_def Let_def)
  have crc: "combinedCRC t = add_crc ys (combinedCRC s)" "blockCRC t = BZ_FINALISE_CRC (blockCRC s)"
    using c by (simp_all add: t_def finalise_block_def Let_def add_crc_def)
  have t: "nblock t = nblock s" "blockNo t = blockNo s" "blockSize100k t = blockSize100k s" "numZ t = 0" "bsLive t = bsLive s"
      "bsBuff t = bsBuff s" "inUse t = inUse s" "mtfFreq t = mtfFreq s"
      "tables_shape t = tables_shape s" "code t = code s" "selectorMtf t = selectorMtf s" "unseqToSeq t = unseqToSeq s"
      "arr2_bytes t = arr2_bytes s"
    using c by (simp_all add: t_def finalise_block_def Let_def tables_shape_def arr2_bytes_def)
  let ?N = "100000 * blockSize100k s"
  have bytes: "arr2_bytes s = 4 * (?N + 34)" by (simp add: arr2_bytes_def BZ_N_OVERSHOOT_def)
  have size: "nblock s \<le> ?N" "100000 \<le> ?N" using c by auto
  have rot: "rotations_sorted t" "block_of t = block_of s" using sort(2,3) fin by (simp_all add: t_def)
  have ptr: "\<forall>i < nblock s. ptr_at t i < nblock s" "0 \<le> origPtr t" "origPtr t < int (nblock s)"
    using rot(1) t(1) by (simp_all add: rotations_sorted_def)
  have marks: "\<forall>i < nblock s. inUse s ! unat (arr2 t i)"
  proof (intro allI impI)
    fix i assume "i < nblock s"
    then have "arr2 t i \<in> set (block_of t)" using t(1) by (simp add: block_of_def)
    then show "inUse s ! unat (arr2 t i)" unfolding rot(2) using c by simp
  qed
  define v where "v = t\<lparr>zbits := nblock t\<rparr>"
  have v: "nblock v = nblock s" "zbits v = nblock s" "origPtr v = origPtr t" "blockNo v = blockNo s" "blockSize100k v = blockSize100k s"
      "blockCRC v = blockCRC t" "combinedCRC v = combinedCRC t" "arr2_bytes v = arr2_bytes s" "tables_shape v = tables_shape s"
      "code v = code s" "selectorMtf v = selectorMtf s" "last_column v = last_column t"
    using t by (simp_all add: v_def tables_shape_def arr2_bytes_def last_column_def ptr_at_def)
  have sorted: "block_sorted v"
    using ptr(1) marks c t by (simp add: block_sorted_def v_def ptr_at_def tables_shape_def)
  have lead: "lead_ready v" "lead_bits v = lead_bits s"
    using c t by (simp_all add: lead_ready_def lead_bits_def v_def)
  have "8 * zbits v + 32 \<le> 8 * arr2_bytes v" using v(2,8) size bytes by simp
  from lead_ok [OF lead(1) this] obtain w where w: "(if blockNo v = 1 then write_stream_header v else Some v) = Some w" "bs_inv w"
     "bs_written w = lead_bits s" "bs_frame v w" "8 * arr2_bytes s \<le> bs_room w + 8 * nblock s + 32"
    unfolding lead(2) v(2,8) by blast
  have z: "nblock v \<le> zbits v" using v(1,2) by simp
  note same = bs_frame_block [OF w(4) z]
  have "18 * (nblock s + 1) + 51595 \<le> bs_room w" using w(5) size bytes by simp
  then have "sorted_ready w"
    unfolding sorted_ready_def using w(2) same sorted v ptr c by simp
  from write_block_ok [OF this] obtain x codes where x: "write_block w = Some x" "bs_inv x"
     "bs_written x = bs_written w @ header_bits (blockCRC w) (nat (origPtr w)) @ codes"
     "\<forall>nmax rest. nblock w \<le> nmax \<and> nmax \<le> 900000 \<longrightarrow> parse_block nmax (codes @ rest) = Found (last_column w) rest"
     "back_frame w x" "back_shape x" "length (unseqToSeq x) = 256" "80 \<le> bs_room x" by blast
  let ?bits = "header_bits (BZ_FINALISE_CRC (blockCRC s)) (nat (origPtr t)) @ codes"
  have col: "last_column w = bwt (block_of s)"
    using same(3) sorted v(12) last_column_bwt [OF rot(1)] rot(2) by simp
  have orig: "nat (origPtr t) < length (block_of s)" "sorted_rows (block_of s) ! nat (origPtr t) = block_of s"
    using ptr original_row [OF rot(1)] rot(2) by auto
  have "block_code (blockSize100k s) ys ?bits"
    unfolding block_code_def using orig size(1) c x(4) same(4) v(1)
    by (intro exI [of _ "block_of s"] exI [of _ "nat (origPtr t)"] exI [of _ codes]) (simp add: col)
  moreover have "comp_frame s w"
  proof -
    have "back_frame (s\<lparr>origPtr := origPtr v, zbits := zbits v, blockCRC := blockCRC v, combinedCRC := combinedCRC v\<rparr>) v"
      by (simp add: back_frame_def v_def t_def finalise_block_def Let_def)
    then have "comp_frame s v" by (simp add: comp_frame_def)
    then show ?thesis using back_frame_writer [OF w(4)] by (rule comp_frame_back)
  qed
  then have frame: "comp_frame s x" using x(5) by (rule comp_frame_back)
  have "back_ready x" using x(6,7) comp_frame_same(1) [OF frame] c by (simp add: back_ready_def)
  moreover have "bs_written x = lead_bits s @ ?bits" using x(3) w(3) same v crc by simp
  ultimately obtain u where u: "(if is_last then write_trailer x else Some x) = Some u" "sent is_last s ?bits u" "combinedCRC u = combinedCRC x"
    using sent_end [OF frame _ x(2) _ x(8)] by blast
  have pos: "0 < nblock s" "0 < nblock w" using c same v by simp_all
  have fb: "nblock (finalise_block s) = nblock s" by (simp add: finalise_block_def Let_def)
  have "BZ2_compressBlock blockSort is_last s = do { w \<leftarrow> if blockNo v = 1 then write_stream_header v else Some v;
      x \<leftarrow> if nblock w > 0 then write_block w else Some w; if is_last then write_trailer x else Some x }"
    using sort(1) pos(1) by (simp add: BZ2_compressBlock_def fb t_def [symmetric] v_def Let_def)
  then have "BZ2_compressBlock blockSort is_last s = Some u"
    unfolding w(1) using x(1) u(1) pos(2) by simp
  then show ?thesis
    using u(2,3) \<open>block_code (blockSize100k s) ys ?bits\<close> crc(1) v(7) same(12) back_frame_same(3) [OF x(5)]
    by (intro exI [of _ u] exI [of _ ?bits]) simp
qed

section \<open>A sorting\<close>

text \<open>
  What the sorting is to compute: the pointers to the rotations in ascending order. It shows that
  the hypothesis about the sorting can hold.
\<close>

definition sorted_pointers :: "u8 list \<Rightarrow> nat list" where
  "sorted_pointers xs = sort_key (\<lambda>i. rotate i xs) [0..<length xs]"

definition reference_sort :: "'a estate_scheme \<Rightarrow> 'a estate_scheme option" where
  "reference_sort s =
     (let ps = sorted_pointers (block_of s)
      in Some (s\<lparr>arr1 := (\<lambda>i. of_nat (if even i then ps ! (i div 2) else ps ! (i div 2) div 2 ^ 16)),
           arr2 := arr2 s, origPtr := int (place 0 ps)\<rparr>))"

lemma pointer_words: "p < 2 ^ 32 \<Longrightarrow> unat (ucast (of_nat p :: u16) OR push_bit 16 (ucast (of_nat (p div 2 ^ 16) :: u16)) :: u32) = p"
proof -
  assume p: "p < 2 ^ 32"
  have "p div 2 ^ 16 = drop_bit 16 p" by (simp add: drop_bit_eq_div)
  then have "ucast (of_nat p :: u16) OR push_bit 16 (ucast (of_nat (p div 2 ^ 16) :: u16)) = (of_nat p :: u32)"
    by (intro bit_word_eqI) (auto simp only: bit_simps, auto)
  then show ?thesis using p by (simp add: unat_of_nat)
qed

lemma map_sort_key: "map f (sort_key f xs) = sort (map f xs)"
  by (rule sym, rule properties_for_sort) simp_all

lemma reference_sorts:
  assumes "0 < nblock s" "nblock s \<le> 900000"
  shows "sorts reference_sort s"
proof -
  let ?xs = "block_of s"
  define ps where "ps = sorted_pointers ?xs"
  have len: "length ps = nblock s" "set ps = {..<nblock s}" by (auto simp: ps_def sorted_pointers_def)
  let ?t = "s\<lparr>arr1 := (\<lambda>i. of_nat (if even i then ps ! (i div 2) else ps ! (i div 2) div 2 ^ 16)), arr2 := arr2 s,
     origPtr := int (place 0 ps)\<rparr>"
  have less: "ps ! i < nblock s" if "i < nblock s" for i using that len nth_mem [of i ps] by auto
  have ptr: "ptr_at ?t i = ps ! i" if "i < nblock s" for i
    using pointer_words [of "ps ! i"] less [OF that] assms(2) by (simp add: ptr_at_def)
  have zero: "place 0 ps < nblock s" "ps ! place 0 ps = 0"
    using place_less [of 0 ps] nth_place [of 0 ps] len assms(1) by simp_all
  have "map (\<lambda>i. rotate (ptr_at ?t i) ?xs) [0..<nblock s] = map (\<lambda>i. rotate (ps ! i) ?xs) [0..<nblock s]"
    using ptr by (intro map_cong) simp_all
  also have "\<dots> = map (\<lambda>p. rotate p ?xs) ps" using len(1) by (intro nth_equalityI) simp_all
  also have "\<dots> = sorted_rows ?xs" by (simp add: ps_def sorted_pointers_def map_sort_key sorted_rows_def)
  finally have "map (\<lambda>i. rotate (ptr_at ?t i) ?xs) [0..<nblock s] = sorted_rows ?xs" .
  moreover have blk: "block_of ?t = ?xs" by (simp add: block_of_def)
  ultimately have "rotations_sorted ?t" using ptr less zero by (simp add: rotations_sorted_def)
  moreover have "reference_sort s = Some ?t" by (simp add: reference_sort_def Let_def flip: ps_def)
  ultimately show ?thesis using blk unfolding sorts_def by blast
qed

end
