(* ===== verification/BzOneBlock.thy ===== *)
theory BzOneBlock
  imports BzStream
begin

text \<open>
  A single block on its way from the input of the compressor to the output of the decompressor, whatever is around it.
\<close>

section \<open>From the input to the output\<close>

lemma block_code_restored:
  assumes "block_code b ys bits"
  shows "\<forall>d rest. d_full d \<and> pending d = bits @ rest \<and> b \<le> d_blockSize100k d \<and> length ys \<le> d_avail_out d \<longrightarrow>
     (\<exists>e f. decompress_block d = Some (Go () e) \<and> output_block e = Some (Go () f)
        \<and> d_next_out f = d_next_out d @ ys \<and> pending f = rest \<and> d_full f)"
proof (intro allI impI)
  fix d rest assume d: "d_full d \<and> pending d = bits @ rest \<and> b \<le> d_blockSize100k d \<and> length ys \<le> d_avail_out d"
  obtain xs orig codes where xs: "bits = header_bits (BZ_FINALISE_CRC (fold BZ_UPDATE_CRC ys BZ_INITIALISE_CRC)) orig @ codes"
     "orig < length xs" "length xs \<le> 100000 * b" "sorted_rows xs ! orig = xs" "unrle xs = Some ys"
     "\<forall>nmax rest. length xs \<le> nmax \<and> nmax \<le> 900000 \<longrightarrow> parse_block nmax (codes @ rest) = Found (bwt xs) rest"
    using assms by (auto simp: block_code_def)
  let ?m = "100000 * d_blockSize100k d"
  have m: "length xs \<le> ?m" "?m \<le> 900000" using d xs(3) ready_max [of d] by (auto simp: d_full_def)
  have d1: "d_full d" "pending d = header_bits (BZ_FINALISE_CRC (fold BZ_UPDATE_CRC ys BZ_INITIALISE_CRC)) orig @ (codes @ rest)"
    using d xs(1) by simp_all
  have parse: "parse_block ?m (codes @ rest) = Found (bwt xs) rest" using xs(6) m by blast
  from decompress_block_ok [OF d1 parse refl xs(2) m(1) xs(4,5)]
  obtain e where e: "decompress_block d = Some (Go () e)" "outputs xs ys e" "d_calculatedBlockCRC e = 0xffffffff"
     "d_storedBlockCRC e = BZ_FINALISE_CRC (fold BZ_UPDATE_CRC ys BZ_INITIALISE_CRC)" "pending e = rest" "d_full e"
     "d_next_out e = d_next_out d" "d_avail_out e = d_avail_out d" by blast
  have "length ys \<le> d_avail_out e" "d_storedBlockCRC e = BZ_FINALISE_CRC (fold BZ_UPDATE_CRC ys (d_calculatedBlockCRC e))"
    using d e(3,4,8) by (simp_all add: BZ_INITIALISE_CRC_def)
  from output_block_ok [OF e(2) this e(6)] show "\<exists>e f. decompress_block d = Some (Go () e) \<and> output_block e = Some (Go () f)
        \<and> d_next_out f = d_next_out d @ ys \<and> pending f = rest \<and> d_full f" using e by auto
qed

text \<open>The input is collected in a block.\<close>

definition block_begins :: "u8 list \<Rightarrow> 'a cstate_scheme \<Rightarrow> bool" where
  "block_begins run s \<longleftrightarrow> rl_inv run s \<and> nblock s = 0 \<and> back_ready s \<and> lead_ready s \<and> nblockMAX s = 100000 * blockSize100k s - 19
     \<and> mode s = BZ_M_RUNNING"

lemma back_ready_frame: "in_frame s t \<Longrightarrow> back_ready t = back_ready s \<and> lead_ready t = lead_ready s"
proof -
  assume fr: "in_frame s t"
  define u where "u = t\<lparr>arr2 := arr2 s, nblock := nblock s, inUse := inUse s, blockCRC := blockCRC s, state_in_ch := state_in_ch s,
     state_in_len := state_in_len s, avail_in_expect := avail_in_expect s, next_in := next_in s,
     total_in_lo32 := total_in_lo32 s, total_in_hi32 := total_in_hi32 s\<rparr>"
  have s: "u = s" using fr by (simp add: in_frame_def u_def)
  show ?thesis by (simp add: s [symmetric]) (simp add: u_def back_ready_def lead_ready_def back_shape_def tables_shape_def)
qed

lemma back_ready_rl:
  "rl_frame s t \<Longrightarrow> back_ready t = back_ready s \<and> lead_ready t = lead_ready s \<and> blockSize100k t = blockSize100k s \<and> next_in t = next_in s"
  by (auto simp: rl_frame_def back_ready_def lead_ready_def back_shape_def tables_shape_def)

lemma block_collected:
  assumes "block_begins run s" "next_in s \<noteq> []"
  shows "\<exists>t u cs. copy_input_until_stop s = Some (True, t) \<and> next_in s = cs @ next_in t \<and> cs \<noteq> [] \<and> flush_RL t = Some u
     \<and> closed_block (run @ cs) u \<and> blockSize100k u = blockSize100k s \<and> next_in u = next_in t \<and> nblock t \<le> nblockMAX s + 4
     \<and> (next_in t = [] \<or> nblockMAX s \<le> nblock t)"
proof -
  let ?N = "100000 * blockSize100k s"
  have s: "rl_inv run s" "nblock s = 0" "back_ready s" "nblockMAX s = ?N - 19" "mode s = BZ_M_RUNNING" "1 \<le> blockSize100k s"
    using assms(1) by (simp_all add: block_begins_def back_ready_def)
  have bytes: "arr2_bytes s = 4 * (?N + 34)" by (simp add: arr2_bytes_def BZ_N_OVERSHOOT_def)
  have "nblockMAX s + 4 \<le> arr2_bytes s" "nblock s \<le> nblockMAX s + 4" using s bytes by simp_all
  from copy_input_ok [OF s(1) this, of "next_in s" False] obtain t cs where
    t: "copy_input_until_stop s = Some (cs \<noteq> [], t)" "next_in s = cs @ next_in t" "rl_inv (run @ cs) t" "nblock t \<le> nblockMAX s + 4"
       "stopped t" "in_frame s t" "next_in s \<noteq> [] \<and> nblock s < nblockMAX s \<and> mode s = BZ_M_RUNNING \<longrightarrow> cs \<noteq> []" unfolding copy_input_until_stop_def simp_thms by blast
  note same = in_frame_same [OF t(6)] back_ready_frame [OF t(6)]
  have cs: "cs \<noteq> []" using t(7) assms(2) s(2,4,5,6) by simp
  have bytes_t: "arr2_bytes t = arr2_bytes s" using same by (simp add: arr2_bytes_def)
  have "nblock t + 5 \<le> arr2_bytes t" using t(4) s(4,6) bytes bytes_t by simp
  from flush_ok [OF t(3) this] obtain u where u: "flush_RL t = Some u" "unrle (block_of u) = Some (run @ cs)"
     "blockCRC u = fold BZ_UPDATE_CRC (run @ cs) BZ_INITIALISE_CRC" "length (inUse u) = 256" "\<forall>c \<in> set (block_of u). inUse u ! unat c"
     "nblock u \<le> nblock t + 5" "rl_frame t u" by blast
  have "block_of u \<noteq> []" using u(2) unrle_nonempty [OF u(2)] cs by simp
  then have "0 < nblock u" by (simp add: block_of_def)
  note after = back_ready_rl [OF u(7)]
  have ready: "back_ready u" "lead_ready u" "blockSize100k u = blockSize100k s"
    using after same assms(1) s(3) by (simp_all add: block_begins_def)
  then have "closed_block (run @ cs) u" using \<open>0 < nblock u\<close> u t(4) s(4,6) ready by (simp add: closed_block_def)
  moreover have "next_in u = next_in t" using after by simp
  moreover have "next_in t = [] \<or> nblockMAX s \<le> nblock t" using t(5) same s(5) by (auto simp: stopped_def)
  ultimately show ?thesis using t u(1) cs ready by (intro exI [of _ t] exI [of _ u] exI [of _ cs]) simp
qed


section \<open>Properties\<close>

text \<open>
  A block goes through compressor and decompressor: from any state in which a block begins, with
  or without a run carried over, and with any sorting that sorts, the compressor collects as
  much input as fits, closes the block and writes it. A decompressor with all its arrays and
  a large enough block size, whose input goes on with the bits that were written,
  whatever is behind them, outputs the run and the input that was taken, finds the CRC that was
  stored, and is then at the bits behind the block, ready for the next.
\<close>

theorem block_restored:
  assumes "block_begins run s" "next_in s \<noteq> []" "\<forall>u. 0 < nblock u \<and> nblock u \<le> 900000 \<longrightarrow> sorts blockSort u"
  shows "\<exists>t u cs v bits. copy_input_until_stop s = Some (True, t) \<and> next_in s = cs @ next_in t \<and> cs \<noteq> []
     \<and> (next_in t = [] \<or> nblockMAX s \<le> nblock t)
     \<and> flush_RL t = Some u \<and> BZ2_compressBlock blockSort False u = Some v \<and> bs_written v = lead_bits u @ bits
     \<and> (\<forall>d rest. d_full d \<and> pending d = bits @ rest \<and> blockSize100k s \<le> d_blockSize100k d
            \<and> length (run @ cs) \<le> d_avail_out d \<longrightarrow>
          (\<exists>e f. decompress_block d = Some (Go () e) \<and> output_block e = Some (Go () f)
             \<and> d_next_out f = d_next_out d @ run @ cs \<and> pending f = rest \<and> d_full f))"
proof -
  obtain t u cs where t: "copy_input_until_stop s = Some (True, t)" "next_in s = cs @ next_in t" "cs \<noteq> []" "flush_RL t = Some u"
     "closed_block (run @ cs) u" "blockSize100k u = blockSize100k s" "next_in t = [] \<or> nblockMAX s \<le> nblock t"
    using block_collected [OF assms(1,2)] by blast
  have "nblock (finalise_block u) = nblock u" by (simp add: finalise_block_def Let_def)
  moreover have "0 < nblock u" "nblock u \<le> 900000" using t(5) by (auto simp: closed_block_def back_ready_def)
  ultimately have "sorts blockSort (finalise_block u)" using assms(3) by simp
  from compress_block [OF t(5) this, of False] obtain v bits where v: "BZ2_compressBlock blockSort False u = Some v"
     "block_code (blockSize100k s) (run @ cs) bits" "bs_written v = lead_bits u @ bits"
    unfolding t(6) by (auto simp: sent_def)
  show ?thesis
    using t v block_code_restored [OF v(2)] by (intro exI [of _ t] exI [of _ u] exI [of _ cs] exI [of _ v] exI [of _ bits]) blast
qed

text \<open>A compressor at the beginning of a stream, and its input.\<close>

definition start_cstate :: "u8 list \<Rightarrow> cstate" where
  "start_cstate bytes = estate.extend (empty_estate\<lparr>blockNo := 1, blockCRC := BZ_INITIALISE_CRC\<rparr>) (cstate.fields bytes 0 0)"

lemma start_cstate_begins:
  "block_begins [] (start_cstate bytes)" "next_in (start_cstate bytes) = bytes" "blockSize100k (start_cstate bytes) = 1"
proof -
  have rl: "rl_inv [] (start_cstate bytes)"
    unfolding rl_inv_def
    by (intro conjI exI [of _ "[]"] exI [of _ None])
      (simp_all add: start_cstate_def estate.extend_def cstate.fields_def empty_estate_def rl_run_def block_of_def closed_runs_Nil)
  show "block_begins [] (start_cstate bytes)"
    using rl by (simp add: block_begins_def) (simp add: start_cstate_def estate.extend_def cstate.fields_def empty_estate_def
        back_ready_def lead_ready_def back_shape_def tables_shape_def rect_def)
  show "next_in (start_cstate bytes) = bytes" "blockSize100k (start_cstate bytes) = 1"
    by (simp_all add: start_cstate_def estate.extend_def cstate.fields_def empty_estate_def)
qed

lemma block_restored_witness:
  "\<exists>t u v bits bytes rest e f. copy_input_until_stop (start_cstate [97]) = Some (True, t) \<and> next_in t = [] \<and> flush_RL t = Some u
     \<and> BZ2_compressBlock reference_sort False u = Some v \<and> bs_written v = lead_bits u @ bits
     \<and> pending (start_dstate bytes) = bits @ rest
     \<and> decompress_block ((start_dstate bytes)\<lparr>d_avail_out := 1\<rparr>) = Some (Go () e) \<and> output_block e = Some (Go () f)
     \<and> d_next_out f = [97] \<and> pending f = rest"
proof -
  let ?s = "start_cstate [97]"
  have sort: "\<forall>u :: cstate. 0 < nblock u \<and> nblock u \<le> 900000 \<longrightarrow> sorts reference_sort u" using reference_sorts by blast
  have "next_in ?s \<noteq> []" by (simp add: start_cstate_begins)
  from block_restored [OF start_cstate_begins(1) this sort] obtain t u cs v bits where t: "copy_input_until_stop ?s = Some (True, t)" "next_in ?s = cs @ next_in t" "cs \<noteq> []"
      "flush_RL t = Some u" "BZ2_compressBlock reference_sort False u = Some v" "bs_written v = lead_bits u @ bits"
    and dec: "\<forall>d rest. d_full d \<and> pending d = bits @ rest \<and> blockSize100k ?s \<le> d_blockSize100k d
            \<and> length ([] @ cs) \<le> d_avail_out d \<longrightarrow>
          (\<exists>e f. decompress_block d = Some (Go () e) \<and> output_block e = Some (Go () f)
             \<and> d_next_out f = d_next_out d @ [] @ cs \<and> pending f = rest \<and> d_full f)"
    by (elim exE conjE) (rule that; assumption)
  have cs: "cs = [97]" "next_in t = []" using t(2,3) by (cases cs; simp add: start_cstate_begins)+
  obtain bytes :: "u8 list" and rest where b: "concat (map (bits_of 8) bytes) = bits @ rest" using bytes_of_bits by blast
  let ?d = "(start_dstate bytes)\<lparr>d_avail_out := 1\<rparr>"
  have "d_full ?d"
    using start_dstate_ready [of bytes]
    by (simp add: d_full_def d_ready_def rd_inv_def map_shape_def selectors_shape_def tables_d_shape_def values_shape_def start_dstate_def)
  moreover have "pending ?d = bits @ rest" "d_avail_out ?d = 1" "d_blockSize100k ?d = 1" "d_next_out ?d = []"
      "pending (start_dstate bytes) = bits @ rest"
    using b by (simp_all add: start_dstate_def pending_def)
  ultimately obtain e f where "decompress_block ?d = Some (Go () e)" "output_block e = Some (Go () f)" "d_next_out f = [97]" "pending f = rest"
    using dec cs(1) by (fastforce simp: start_cstate_begins)
  with t cs \<open>pending (start_dstate bytes) = bits @ rest\<close> show ?thesis
    by (intro exI [of _ t] exI [of _ u] exI [of _ v] exI [of _ bits] exI [of _ bytes] exI [of _ rest] exI [of _ e] exI [of _ f]) simp
qed

end
