(* ===== verification/BzCompressor.thy ===== *)
theory BzCompressor
  imports BzStream
begin

text \<open>
  The compressor of a stream (\<open>benchmarks/wasi/bzip2/bzlib.c\<close>): the input goes into blocks, blocks are
  written into \<open>zbits\<close>, and their bytes are copied to the output as far as there is room.
  \<open>BZ2_bzCompress\<close> is a state machine: the stream runs, is being flushed or finished, or is idle.

  The input that is there is the list \<open>next_in\<close>, so \<open>avail_in\<close> is its length. The output so far is
  \<open>next_out\<close>, and \<open>avail_out\<close> bytes more can be written.
\<close>

section \<open>The code\<close>

text \<open>[bzip2/bzlib.h 48-66 bz_stream] The output of the stream.\<close>

record zstate = cstate +
  next_out :: "u8 list"
  avail_out :: nat
  total_out_lo32 :: u32
  total_out_hi32 :: u32

text \<open>[bzip2/bzlib.h 29-29 BZ_RUN] The actions are integers.\<close>

definition BZ_RUN :: int where "BZ_RUN = 0"

text \<open>[bzip2/bzlib.h 30-30 BZ_FLUSH]\<close>

definition BZ_FLUSH :: int where "BZ_FLUSH = 1"

text \<open>[bzip2/bzlib.h 31-31 BZ_FINISH]\<close>

definition BZ_FINISH :: int where "BZ_FINISH = 2"

text \<open>[bzip2/bzlib.c 333-356 copy_output_until_stop] The result tells whether something was written.\<close>

function copy_output :: "bool \<Rightarrow> 'a zstate_scheme \<Rightarrow> (bool \<times> 'a zstate_scheme) option" where
  "copy_output progress_out s =
     (if avail_out s = 0 then Some (progress_out, s)
      else if state_out_pos s \<ge> numZ s then Some (progress_out, s)
      else do { c \<leftarrow> fget (arr2_bytes s) (arr2 s) (zbits s + state_out_pos s);
                let lo = total_out_lo32 s + 1;
                copy_output True (s\<lparr>next_out := next_out s @ [c], state_out_pos := state_out_pos s + 1,
                  avail_out := avail_out s - 1, total_out_lo32 := lo,
                  total_out_hi32 := (if lo = 0 then total_out_hi32 s + 1 else total_out_hi32 s)\<rparr>) })"
  by pat_completeness auto
termination
  by (relation "measure (\<lambda>(_, s). avail_out s)") auto

declare copy_output.simps [simp del]

text \<open>[bzip2/bzlib.c 333-356 copy_output_until_stop]\<close>

definition copy_output_until_stop :: "'a zstate_scheme \<Rightarrow> (bool \<times> 'a zstate_scheme) option" where
  "copy_output_until_stop s = copy_output False s"

text \<open>
  [bzip2/bzlib.c 369-380 handle_compress] The first half of the loop. The result tells whether the loop is left,
  and whether output was written so far.
\<close>

definition output_stage :: "bool \<Rightarrow> 'a zstate_scheme \<Rightarrow> (bool \<times> bool \<times> 'a zstate_scheme) option" where
  "output_stage progress_out s =
     (if io_state s = BZ_S_OUTPUT
      then do { (p, s) \<leftarrow> copy_output_until_stop s;
                let progress_out = progress_out \<or> p;
                if state_out_pos s < numZ s then Some (True, progress_out, s)
                else if mode s = BZ_M_FINISHING \<and> avail_in_expect s = 0 \<and> isempty_RL s then Some (True, progress_out, s)
                else do { s \<leftarrow> prepare_new_block s;
                          let s = s\<lparr>io_state := BZ_S_INPUT\<rparr>;
                          Some (mode s = BZ_M_FLUSHING \<and> avail_in_expect s = 0 \<and> isempty_RL s, progress_out, s) } }
      else Some (False, progress_out, s))"

text \<open>[bzip2/bzlib.c 382-398 handle_compress] The second half.\<close>

definition input_stage ::
    "('a zstate_scheme \<Rightarrow> 'a zstate_scheme option) \<Rightarrow> bool \<Rightarrow> 'a zstate_scheme \<Rightarrow> (bool \<times> bool \<times> 'a zstate_scheme) option" where
  "input_stage blockSort progress_in s =
     (if io_state s = BZ_S_INPUT
      then do { (p, s) \<leftarrow> copy_input_until_stop s;
                let progress_in = progress_in \<or> p;
                if mode s \<noteq> BZ_M_RUNNING \<and> avail_in_expect s = 0
                then do { s \<leftarrow> flush_RL s;
                          s \<leftarrow> BZ2_compressBlock blockSort (mode s = BZ_M_FINISHING) s;
                          Some (False, progress_in, s\<lparr>io_state := BZ_S_OUTPUT\<rparr>) }
                else if nblock s \<ge> nblockMAX s
                then do { s \<leftarrow> BZ2_compressBlock blockSort False s;
                          Some (False, progress_in, s\<lparr>io_state := BZ_S_OUTPUT\<rparr>) }
                else Some (next_in s = [], progress_in, s) }
      else Some (False, progress_in, s))"

text \<open>[bzip2/bzlib.c 367-402 handle_compress] The loop.\<close>

partial_function (option) handle_loop ::
    "('a zstate_scheme \<Rightarrow> 'a zstate_scheme option) \<Rightarrow> bool \<Rightarrow> bool \<Rightarrow> 'a zstate_scheme \<Rightarrow> (bool \<times> 'a zstate_scheme) option" where
  "handle_loop blockSort progress_in progress_out s =
     do { (stop, progress_out, s) \<leftarrow> output_stage progress_out s;
          if stop then Some (progress_in \<or> progress_out, s)
          else do { (stop, progress_in, s) \<leftarrow> input_stage blockSort progress_in s;
                    if stop then Some (progress_in \<or> progress_out, s)
                    else handle_loop blockSort progress_in progress_out s } }"

declare handle_loop.simps [code]

text \<open>[bzip2/bzlib.c 361-403 handle_compress]\<close>

definition handle_compress ::
    "('a zstate_scheme \<Rightarrow> 'a zstate_scheme option) \<Rightarrow> 'a zstate_scheme \<Rightarrow> (bool \<times> 'a zstate_scheme) option" where
  "handle_compress blockSort s = handle_loop blockSort False False s"

text \<open>[bzip2/bzlib.c 447-448 BZ2_bzCompress] Something is left to be done.\<close>

definition unfinished :: "'a zstate_scheme \<Rightarrow> bool" where
  "unfinished s \<longleftrightarrow> avail_in_expect s > 0 \<or> \<not> isempty_RL s \<or> state_out_pos s < numZ s"

text \<open>[bzip2/bzlib.c 443-450 BZ2_bzCompress]\<close>

definition do_flush ::
    "('a zstate_scheme \<Rightarrow> 'a zstate_scheme option) \<Rightarrow> int \<Rightarrow> 'a zstate_scheme \<Rightarrow> (bz_ret \<times> 'a zstate_scheme) option" where
  "do_flush blockSort action s =
     (if action \<noteq> BZ_FLUSH then Some (BZ_SEQUENCE_ERROR, s)
      else if avail_in_expect s \<noteq> of_nat (length (next_in s)) then Some (BZ_SEQUENCE_ERROR, s)
      else do { (progress, s) \<leftarrow> handle_compress blockSort s;
                Some (if unfinished s then (BZ_FLUSH_OK, s) else (BZ_RUN_OK, s\<lparr>mode := BZ_M_RUNNING\<rparr>)) })"

text \<open>[bzip2/bzlib.c 453-461 BZ2_bzCompress]\<close>

definition do_finish ::
    "('a zstate_scheme \<Rightarrow> 'a zstate_scheme option) \<Rightarrow> int \<Rightarrow> 'a zstate_scheme \<Rightarrow> (bz_ret \<times> 'a zstate_scheme) option" where
  "do_finish blockSort action s =
     (if action \<noteq> BZ_FINISH then Some (BZ_SEQUENCE_ERROR, s)
      else if avail_in_expect s \<noteq> of_nat (length (next_in s)) then Some (BZ_SEQUENCE_ERROR, s)
      else do { (progress, s) \<leftarrow> handle_compress blockSort s;
                Some (if \<not> progress then (BZ_SEQUENCE_ERROR, s)
                      else if unfinished s then (BZ_FINISH_OK, s)
                      else (BZ_STREAM_END, s\<lparr>mode := BZ_M_IDLE\<rparr>)) })"

text \<open>[bzip2/bzlib.c 416-462 BZ2_bzCompress] The jump to \<open>preswitch\<close> goes to the case of the new mode.\<close>

definition BZ2_bzCompress ::
    "('a zstate_scheme \<Rightarrow> 'a zstate_scheme option) \<Rightarrow> int \<Rightarrow> 'a zstate_scheme \<Rightarrow> (bz_ret \<times> 'a zstate_scheme) option" where
  "BZ2_bzCompress blockSort action s =
     (case mode s of
        BZ_M_IDLE \<Rightarrow> Some (BZ_SEQUENCE_ERROR, s)
      | BZ_M_RUNNING \<Rightarrow>
          if action = BZ_RUN
          then do { (progress, s) \<leftarrow> handle_compress blockSort s; Some (if progress then BZ_RUN_OK else BZ_PARAM_ERROR, s) }
          else if action = BZ_FLUSH
          then do_flush blockSort action (s\<lparr>avail_in_expect := of_nat (length (next_in s)), mode := BZ_M_FLUSHING\<rparr>)
          else if action = BZ_FINISH
          then do_finish blockSort action (s\<lparr>avail_in_expect := of_nat (length (next_in s)), mode := BZ_M_FINISHING\<rparr>)
          else Some (BZ_PARAM_ERROR, s)
      | BZ_M_FLUSHING \<Rightarrow> do_flush blockSort action s
      | BZ_M_FINISHING \<Rightarrow> do_finish blockSort action s)"

text \<open>
  [bzip2/bzlib.c 159-209 BZ2_bzCompressInit] \<open>fresh\<close> is the new \<open>EState\<close> with its arrays, if there is memory for it.
  What is in it at first is arbitrary.
\<close>

definition BZ2_bzCompressInit :: "'a zstate_scheme option \<Rightarrow> int \<Rightarrow> int \<Rightarrow> (bz_ret \<times> 'a zstate_scheme option) option" where
  "BZ2_bzCompressInit fresh blockSize factor =
     (if blockSize < 1 \<or> blockSize > 9 \<or> factor < 0 \<or> factor > 250 then Some (BZ_PARAM_ERROR, None)
      else case fresh of
             None \<Rightarrow> Some (BZ_MEM_ERROR, None)
           | Some s \<Rightarrow>
               do { s \<leftarrow> prepare_new_block (init_RL (s\<lparr>blockNo := 0, io_state := BZ_S_INPUT, mode := BZ_M_RUNNING,
                      combinedCRC := 0, blockSize100k := nat blockSize, nblockMAX := 100000 * nat blockSize - 19,
                      workFactor := (if factor = 0 then 30 else factor), zbits := 0, total_in_lo32 := 0, total_in_hi32 := 0,
                      total_out_lo32 := 0, total_out_hi32 := 0\<rparr>));
                    Some (BZ_OK, Some s) })"

section \<open>The parts of the loop\<close>

text \<open>The output is copied as far as there is room.\<close>

lemma copy_output_ok:
  assumes "zbits s + numZ s \<le> arr2_bytes s" "state_out_pos s \<le> numZ s" "n = min (avail_out s) (numZ s - state_out_pos s)"
  shows "\<exists>lo hi. copy_output p s = Some (p \<or> n \<noteq> 0, s\<lparr>next_out := next_out s @ take n (drop (state_out_pos s) (zbytes s)),
       state_out_pos := state_out_pos s + n, avail_out := avail_out s - n, total_out_lo32 := lo, total_out_hi32 := hi\<rparr>)"
  using assms
proof (induction "avail_out s" arbitrary: s p n)
  case 0
  then show ?case
    by (intro exI [of _ "total_out_lo32 s"] exI [of _ "total_out_hi32 s"]) (simp add: copy_output.simps)
next
  case (Suc m)
  show ?case
  proof (cases "state_out_pos s \<ge> numZ s")
    case True
    then have n: "n = 0" using Suc by simp
    show ?thesis using True n Suc.hyps(2)
      by (intro exI [of _ "total_out_lo32 s"] exI [of _ "total_out_hi32 s"]) (simp add: copy_output.simps)
  next
    case False
    let ?c = "arr2 s (zbits s + state_out_pos s)"
    define lo where "lo = total_out_lo32 s + 1"
    define t where "t = s\<lparr>next_out := next_out s @ [?c], state_out_pos := state_out_pos s + 1, avail_out := avail_out s - 1,
        total_out_lo32 := lo, total_out_hi32 := (if lo = 0 then total_out_hi32 s + 1 else total_out_hi32 s)\<rparr>"
    have step: "copy_output p s = copy_output True t"
      using False Suc.hyps(2) Suc.prems(1) by (subst copy_output.simps) (simp add: t_def lo_def Let_def arr2_bytes_def)
    have t: "m = avail_out t" "zbits t + numZ t \<le> arr2_bytes t" "state_out_pos t \<le> numZ t"
      using Suc.hyps(2) Suc.prems(1) False by (simp_all add: t_def arr2_bytes_def)
    have n1: "n - 1 = min (avail_out t) (numZ t - state_out_pos t)"
      unfolding Suc.prems(3) using Suc.hyps(2) by (simp add: t_def)
    obtain lo' hi' where u: "copy_output True t = Some (True, t\<lparr>next_out := next_out t @ take (n - 1) (drop (state_out_pos t) (zbytes t)),
       state_out_pos := state_out_pos t + (n - 1), avail_out := avail_out t - (n - 1), total_out_lo32 := lo', total_out_hi32 := hi'\<rparr>)"
      using Suc.hyps(1) [OF t n1, of True] by auto
    have n: "0 < n" using Suc False by simp
    have z: "zbytes t = zbytes s" by (simp add: t_def zbytes_def)
    have "drop (state_out_pos s) (zbytes s) = ?c # drop (state_out_pos s + 1) (zbytes s)"
      using False Cons_nth_drop_Suc [of "state_out_pos s" "zbytes s"] by (simp add: zbytes_def)
    then have "take n (drop (state_out_pos s) (zbytes s)) = ?c # take (n - 1) (drop (state_out_pos s + 1) (zbytes s))"
      using n by (cases n) simp_all
    then show ?thesis using step u n
      by (intro exI [of _ lo'] exI [of _ hi']) (simp add: z, simp add: t_def)
  qed
qed

lemma prepare_ok:
  assumes "length (inUse s) = 256"
  shows "prepare_new_block s = Some (s\<lparr>nblock := 0, numZ := 0, state_out_pos := 0, blockCRC := BZ_INITIALISE_CRC,
     inUse := replicate 256 False, blockNo := blockNo s + 1\<rparr>)"
proof -
  have "for_in [0..<256] (\<lambda>i u. aput u i False) (inUse s) = Some (replicate 256 False)"
    using for_in_aput_range [of 0 256 "inUse s" "\<lambda>_. False"] assms by (simp add: map_replicate_const)
  then show ?thesis by (simp add: prepare_new_block_def Let_def)
qed

end
