(* ===== verification/BzDecompress.thy ===== *)
theory BzDecompress
  imports BzStream
begin

text \<open>
  The decompressor of a stream: the header of the stream, \<open>BZ2_decompress\<close> as a whole
  (\<open>benchmarks/wasi/bzip2/decompress.c\<close>), and \<open>BZ2_bzDecompressInit\<close> and \<open>BZ2_bzDecompress\<close>
  (\<open>benchmarks/wasi/bzip2/bzlib.c\<close>).

  The memory that \<open>BZALLOC\<close> gives is a parameter: \<open>alloc n\<close> tells whether \<open>n\<close> bytes are
  given. What is in it at first is arbitrary, so are the fields of a new \<open>DState\<close>.
\<close>

section \<open>The code\<close>

text \<open>
  [bzip2/bzlib_private.h 291-298 BZ_X_IDLE] The values of \<open>state\<close> at which \<open>BZ2_decompress\<close> can be entered
  in the model. All labels inside a block are one value; entering there again is not modelled.
\<close>

datatype d_label = BZ_X_IDLE | BZ_X_OUTPUT | BZ_X_MAGIC_1 | BZ_X_BLKHDR_1 | BZ_X_inside

text \<open>[bzip2/decompress.c 197-198 BZ2_decompress] A byte of the magic number.\<close>

definition expect_magic :: "nat \<Rightarrow> dstate \<Rightarrow> unit out option" where
  "expect_magic v s = andthen (get_bits 8 s) (\<lambda>uc s. Some (if uc \<noteq> v then Stop BZ_DATA_ERROR_MAGIC s else Go () s))"

text \<open>[bzip2/decompress.c 211-220 BZ2_decompress] The memory for a block.\<close>

definition alloc_block :: "(nat \<Rightarrow> bool) \<Rightarrow> dstate \<Rightarrow> unit out option" where
  "alloc_block alloc s = Some
     (let n = d_blockSize100k s * 100000
      in if d_smallDecompress s then (if alloc (n * 2) \<and> alloc ((1 + n) div 2) then Go () s else Stop BZ_MEM_ERROR s)
         else if alloc (n * 4) then Go () s else Stop BZ_MEM_ERROR s)"

text \<open>[bzip2/decompress.c 197-220 BZ2_decompress] The header of the stream.\<close>

definition receive_magic :: "(nat \<Rightarrow> bool) \<Rightarrow> dstate \<Rightarrow> unit out option" where
  "receive_magic alloc s =
     andthen (expect_magic 0x42 s) (\<lambda>_ s.
     andthen (expect_magic 0x5a s) (\<lambda>_ s.
     andthen (expect_magic 0x68 s) (\<lambda>_ s.
     andthen (get_bits 8 s) (\<lambda>uc s.
       let s = s\<lparr>d_blockSize100k := uc\<rparr>
       in if d_blockSize100k s < 0x30 + 1 \<or> d_blockSize100k s > 0x30 + 9 then Some (Stop BZ_DATA_ERROR_MAGIC s)
          else alloc_block alloc (s\<lparr>d_blockSize100k := d_blockSize100k s - 0x30\<rparr>)))))"

text \<open>
  [bzip2/decompress.c 195-615 BZ2_decompress] From a label on; the result is the code that is returned and the new
  \<open>state\<close>. It is already \<open>BZ_X_OUTPUT\<close> when \<open>BZ_GET_FAST\<close> returns.
\<close>

definition BZ2_decompress :: "(nat \<Rightarrow> bool) \<Rightarrow> d_label \<Rightarrow> dstate \<Rightarrow> (bz_ret \<times> d_label \<times> dstate) option" where
  "BZ2_decompress alloc l s =
     do { r \<leftarrow> (case l of
                  BZ_X_MAGIC_1 \<Rightarrow> andthen (receive_magic alloc s) (\<lambda>_. decompress_block)
                | BZ_X_BLKHDR_1 \<Rightarrow> decompress_block s
                | _ \<Rightarrow> None);
          Some (case r of
              Go _ s \<Rightarrow> (BZ_OK, BZ_X_OUTPUT, s)
            | Stop c s \<Rightarrow> (c, if c = BZ_STREAM_END then BZ_X_IDLE else if c = BZ_RUN_OK then BZ_X_OUTPUT else BZ_X_inside, s)) }"

text \<open>[bzip2/bzlib.c 502-527 BZ2_bzDecompressInit] \<open>fresh\<close> is the new state, if there is memory for it.\<close>

definition BZ2_bzDecompressInit :: "dstate option \<Rightarrow> int \<Rightarrow> int \<Rightarrow> bz_ret \<times> (d_label \<times> dstate) option" where
  "BZ2_bzDecompressInit fresh verbosity small =
     (if small \<noteq> 0 \<and> small \<noteq> 1 then (BZ_PARAM_ERROR, None)
      else if verbosity < 0 \<or> verbosity > 4 then (BZ_PARAM_ERROR, None)
      else case fresh of
             None \<Rightarrow> (BZ_MEM_ERROR, None)
           | Some s \<Rightarrow> (BZ_OK, Some (BZ_X_MAGIC_1, s\<lparr>d_bsLive := 0, d_bsBuff := 0, d_calculatedCombinedCRC := 0,
                 d_total_in_lo32 := 0, d_total_in_hi32 := 0, d_total_out_lo32 := 0, d_total_out_hi32 := 0,
                 d_smallDecompress := (small = 1)\<rparr>)))"

text \<open>
  [bzip2/bzlib.c 817-853 BZ2_bzDecompress] The output of a block, if one is there, and then the next block, until
  a function returns.
\<close>

partial_function (option) BZ2_bzDecompress :: "(nat \<Rightarrow> bool) \<Rightarrow> d_label \<Rightarrow> dstate \<Rightarrow> (bz_ret \<times> d_label \<times> dstate) option" where
  "BZ2_bzDecompress alloc l s =
     (if l = BZ_X_IDLE then Some (BZ_SEQUENCE_ERROR, l, s)
      else do { r \<leftarrow> (if l = BZ_X_OUTPUT then output_block s else Some (Go () s));
                case r of
                  Stop c s \<Rightarrow> Some (c, BZ_X_OUTPUT, s)
                | Go _ s \<Rightarrow>
                    do { (c, l, s) \<leftarrow> BZ2_decompress alloc (if l = BZ_X_OUTPUT then BZ_X_BLKHDR_1 else l) s;
                         if c = BZ_STREAM_END
                         then Some (if d_calculatedCombinedCRC s \<noteq> d_storedCombinedCRC s then BZ_DATA_ERROR else c, l, s)
                         else if l \<noteq> BZ_X_OUTPUT then Some (c, l, s)
                         else BZ2_bzDecompress alloc l s } })"

declare BZ2_bzDecompress.simps [code]

section \<open>The header and the trailer\<close>

lemma refines_found: "refines m (Found y bs) Q \<Longrightarrow> \<exists>x t. m = Some (Go x t) \<and> rd_inv t \<and> pending t = bs \<and> Q y x t"
  by simp

lemma expect_magic_ok:
  assumes "rd_inv s" "pending s = bits_of 8 (c :: u8) @ bs" "unat c = v"
  shows "\<exists>t. expect_magic v s = Some (Go () t) \<and> rd_inv t \<and> pending t = bs \<and> rd_frame s t"
  using get_bits_refines [OF assms(1), of 8] assms(2,3) by (auto simp: expect_magic_def)

definition alloc_ok :: "(nat \<Rightarrow> bool) \<Rightarrow> bool" where
  "alloc_ok alloc \<longleftrightarrow> (\<forall>n \<le> 3600000. alloc n)"

lemma magic_byte: "b \<le> 9 \<Longrightarrow> unat (of_nat (48 + b) :: u8) = 48 + b"
  unfolding unat_of_nat by simp

lemma receive_magic_ok:
  assumes "rd_inv s" "pending s = magic_bits b @ bs" "1 \<le> b" "b \<le> 9" "alloc_ok alloc" "\<not> d_smallDecompress s"
  shows "\<exists>t. receive_magic alloc s = Some (Go () t) \<and> rd_inv t \<and> pending t = bs \<and> rd_frame (s\<lparr>d_blockSize100k := b\<rparr>) t"
proof -
  have bits: "pending s = bits_of 8 (0x42 :: u8) @ bits_of 8 (0x5a :: u8) @ bits_of 8 (0x68 :: u8) @ bits_of 8 (of_nat (0x30 + b) :: u8) @ bs"
    using assms(2) by (simp add: magic_bits_def)
  obtain t1 where t1: "expect_magic 0x42 s = Some (Go () t1)" "rd_inv t1" "rd_frame s t1"
     "pending t1 = bits_of 8 (0x5a :: u8) @ bits_of 8 (0x68 :: u8) @ bits_of 8 (of_nat (0x30 + b) :: u8) @ bs"
    using expect_magic_ok [OF assms(1) bits, of "0x42"] by auto
  obtain t2 where t2: "expect_magic 0x5a t1 = Some (Go () t2)" "rd_inv t2" "rd_frame t1 t2"
     "pending t2 = bits_of 8 (0x68 :: u8) @ bits_of 8 (of_nat (0x30 + b) :: u8) @ bs"
    using expect_magic_ok [OF t1(2,4), of "0x5a"] by auto
  obtain t3 where t3: "expect_magic 0x68 t2 = Some (Go () t3)" "rd_inv t3" "rd_frame t2 t3"
     "pending t3 = bits_of 8 (of_nat (0x30 + b) :: u8) @ bs"
    using expect_magic_ok [OF t2(2,4), of "0x68"] by auto
  obtain t4 where t4: "get_bits 8 t3 = Some (Go (48 + b) t4)" "rd_inv t4" "pending t4 = bs" "rd_frame t3 t4"
    using get_bits_refines [OF t3(2), of 8] t3(4) magic_byte [OF assms(4)] by auto
  have fr: "rd_frame s t4" using t1(3) t2(3) t3(3) t4(4) by (blast intro: rd_frame_trans)
  let ?t = "t4\<lparr>d_blockSize100k := b\<rparr>"
  have small: "\<not> d_smallDecompress t4" using rd_frame_same [OF fr] assms(6) by simp
  have "alloc (b * 100000 * 4)" using assms(4,5) by (simp add: alloc_ok_def)
  then have "receive_magic alloc s = Some (Go () ?t)"
    using t1(1) t2(1) t3(1) t4(1) assms(3,4) small by (simp add: receive_magic_def Let_def alloc_block_def)
  moreover have "rd_frame (s\<lparr>d_blockSize100k := b\<rparr>) ?t"
    using fr by (simp add: rd_frame_def) (rule dstate.equality; simp add: rd_frame_same [OF fr])
  moreover have "rd_inv ?t" "pending ?t = bs" using t4 by (simp_all add: rd_inv_def pending_def)
  ultimately show ?thesis by blast
qed

lemma receive_trailer_ok:
  assumes "rd_inv s" "pending s = concat (map (bits_of 8) [0x72, 0x45, 0x38, 0x50, 0x90 :: u8]) @ bits_of 32 (crc :: u32) @ bs"
  shows "\<exists>t. receive_trailer s = Some (Stop BZ_STREAM_END t) \<and> pending t = bs \<and> rd_frame (s\<lparr>d_storedCombinedCRC := crc\<rparr>) t"
proof -
  let ?cs = "[0x72, 0x45, 0x38, 0x50, 0x90] :: u8 list"
  have "parse_expect (map unat ?cs) (pending s) = Found () (bits_of 32 crc @ bs)"
    unfolding assms(2) by (rule parse_expect_bits)
  then have "refines (expect_bytes (map unat ?cs) s) (Found () (bits_of 32 crc @ bs)) (\<lambda>_ _ t. rd_frame s t)"
    using expect_bytes_refines [OF assms(1), of "map unat ?cs"] by simp
  then obtain t1 where t1: "expect_bytes [0x72, 0x45, 0x38, 0x50, 0x90] s = Some (Go () t1)" "rd_inv t1"
      "pending t1 = bits_of 32 crc @ bs" "rd_frame s t1" by auto
  let ?upd = "\<lambda>n s. s\<lparr>d_storedCombinedCRC := of_nat n\<rparr>"
  have "refines (for_out [0..<4] (\<lambda>_ _ t. andthen (get_bits 8 t)
        (\<lambda>uc s. Some (Go () (s\<lparr>d_storedCombinedCRC := push_bit 8 (d_storedCombinedCRC s) OR of_nat uc\<rparr>)))) () (?upd 0 t1))
      (parse_number 4 (pending t1)) (\<lambda>n _ t. n < 256 ^ 4 \<and> rd_frame (?upd n t1) t)"
  proof (rule number_refines)
    fix t n uc assume t: "rd_frame (?upd n t1) t" "uc < (256 :: nat)"
    have "d_storedCombinedCRC t = of_nat n" using rd_frame_same [OF t(1)] by simp
    then show "Some (Go () (t\<lparr>d_storedCombinedCRC := push_bit 8 (d_storedCombinedCRC t) OR of_nat uc\<rparr>)) = Some (Go () (?upd (256 * n + uc) t))"
      using push_word [OF t(2), of n] by simp
  next
    fix t n m assume "rd_frame (?upd n t1) t"
    from head_frame_put(4) [OF this] show "rd_frame (?upd m t1) (?upd m t)" by simp
  qed (use t1(2) in simp_all)
  moreover have "parse_number 4 (pending t1) = Found (unat crc) bs"
    using parse_number_nbits [of "unat crc" 4 bs] unat_u32_less [of crc] bits_of_nbits [of 32 crc] t1(3) by simp
  ultimately obtain t2 where t2: "for_out [0..<4] (\<lambda>_ _ t. andthen (get_bits 8 t)
        (\<lambda>uc s. Some (Go () (s\<lparr>d_storedCombinedCRC := push_bit 8 (d_storedCombinedCRC s) OR of_nat uc\<rparr>)))) () (t1\<lparr>d_storedCombinedCRC := 0\<rparr>)
        = Some (Go () t2)" "pending t2 = bs" "rd_frame (t1\<lparr>d_storedCombinedCRC := crc\<rparr>) t2"
    by auto
  have "rd_frame (s\<lparr>d_storedCombinedCRC := crc\<rparr>) t2"
    using head_frame_put(4) [OF t1(4)] t2(3) by (rule rd_frame_trans)
  then show ?thesis using t1(1) t2(1,2) by (intro exI [of _ t2]) (simp add: receive_trailer_def)
qed

lemma decompress_trailer:
  assumes "rd_inv s" "pending s = trail_bits crc @ bs"
  shows "\<exists>t. decompress_block s = Some (Stop BZ_STREAM_END t) \<and> pending t = bs \<and> rd_frame (s\<lparr>d_storedCombinedCRC := crc\<rparr>) t"
proof -
  let ?cs = "[0x72, 0x45, 0x38, 0x50, 0x90] :: u8 list"
  have "pending s = bits_of 8 (0x17 :: u8) @ concat (map (bits_of 8) ?cs) @ bits_of 32 crc @ bs"
    using assms(2) by (simp add: trail_bits_def)
  then obtain t1 where t1: "receive_header s = Some (Go False t1)" "rd_inv t1" "rd_frame s t1"
     "pending t1 = concat (map (bits_of 8) ?cs) @ bits_of 32 crc @ bs"
    using get_bits_refines [OF assms(1), of 8] by (auto simp: receive_header_def)
  obtain t2 where t2: "receive_trailer t1 = Some (Stop BZ_STREAM_END t2)" "pending t2 = bs"
     "rd_frame (t1\<lparr>d_storedCombinedCRC := crc\<rparr>) t2"
    using receive_trailer_ok [OF t1(2,4)] by blast
  have "rd_frame (s\<lparr>d_storedCombinedCRC := crc\<rparr>) t2"
    using head_frame_put(4) [OF t1(3)] t2(3) by (rule rd_frame_trans)
  then show ?thesis using t1(1) t2 by (intro exI [of _ t2]) (simp add: decompress_block_def)
qed

section \<open>A call\<close>

text \<open>The bits that are left of a stream with the blocks \<open>bs\<close>, when the CRC of the blocks before is \<open>c\<close>.\<close>

definition rest_bits :: "u32 \<Rightarrow> (u8 list \<times> bool list) list \<Rightarrow> bool list" where
  "rest_bits c bs = concat (map snd bs) @ trail_bits (fold add_crc (map fst bs) c)"

definition blocks_code :: "nat \<Rightarrow> (u8 list \<times> bool list) list \<Rightarrow> bool" where
  "blocks_code b bs \<longleftrightarrow> (\<forall>(ys, bits) \<in> set bs. block_code b ys bits)"

definition bytes_of :: "(u8 list \<times> bool list) list \<Rightarrow> u8 list" where
  "bytes_of bs = concat (map fst bs)"

text \<open>The decompressor is between two blocks, or it is about to output \<open>zs\<close> and then the blocks.\<close>

definition d_between :: "(u8 list \<times> bool list) list \<Rightarrow> dstate \<Rightarrow> bool" where
  "d_between bs s \<longleftrightarrow> d_full s \<and> blocks_code (d_blockSize100k s) bs \<and> (\<exists>pad. pending s = rest_bits (d_calculatedCombinedCRC s) bs @ pad)"

definition d_output :: "u8 list \<Rightarrow> (u8 list \<times> bool list) list \<Rightarrow> dstate \<Rightarrow> bool" where
  "d_output zs bs s \<longleftrightarrow> d_full s \<and> blocks_code (d_blockSize100k s) bs \<and> (\<exists>xs. outputs xs zs s)
     \<and> d_storedBlockCRC s = BZ_FINALISE_CRC (fold BZ_UPDATE_CRC zs (d_calculatedBlockCRC s))
     \<and> (\<exists>pad. pending s = rest_bits ((push_bit 1 (d_calculatedCombinedCRC s) OR drop_bit 31 (d_calculatedCombinedCRC s))
            XOR d_storedBlockCRC s) bs @ pad)"

text \<open>The decompressor will give \<open>ys\<close>.\<close>

definition will_decode :: "u8 list \<Rightarrow> d_label \<Rightarrow> dstate \<Rightarrow> bool" where
  "will_decode ys l s \<longleftrightarrow> (\<exists>bs. l = BZ_X_BLKHDR_1 \<and> d_between bs s \<and> ys = bytes_of bs)
     \<or> (\<exists>zs bs. l = BZ_X_OUTPUT \<and> d_output zs bs s \<and> ys = zs @ bytes_of bs)"

lemma bytes_of_simps [simp]:
  "bytes_of [] = []" "bytes_of (x # bs) = fst x @ bytes_of bs" "bytes_of (as @ bs) = bytes_of as @ bytes_of bs"
  by (simp_all add: bytes_of_def)

lemma block_code_nonempty: "block_code b ys bits \<Longrightarrow> ys \<noteq> []"
  by (auto simp: block_code_def dest!: unrle_nonempty)

text \<open>The next block is read.\<close>

lemma begin_block:
  assumes "d_between ((ys, bits) # bs) s"
  shows "\<exists>t. decompress_block s = Some (Go () t) \<and> d_output ys bs t \<and> d_next_out t = d_next_out s \<and> d_avail_out t = d_avail_out s"
proof -
  have s: "d_full s" "block_code (d_blockSize100k s) ys bits" "blocks_code (d_blockSize100k s) bs"
    using assms by (simp_all add: d_between_def blocks_code_def)
  obtain pad where pad: "pending s = bits @ rest_bits (add_crc ys (d_calculatedCombinedCRC s)) bs @ pad"
    using assms by (auto simp: d_between_def rest_bits_def)
  let ?crc = "BZ_FINALISE_CRC (fold BZ_UPDATE_CRC ys BZ_INITIALISE_CRC)"
    and ?rest = "rest_bits (add_crc ys (d_calculatedCombinedCRC s)) bs @ pad"
  obtain xs orig codes where x: "bits = header_bits ?crc orig @ codes" "orig < length xs" "length xs \<le> 100000 * d_blockSize100k s"
     "sorted_rows xs ! orig = xs" "unrle xs = Some ys"
     "\<forall>nmax rest. length xs \<le> nmax \<and> nmax \<le> 900000 \<longrightarrow> parse_block nmax (codes @ rest) = Found (bwt xs) rest"
    using s(2) by (auto simp: block_code_def)
  have pend: "pending s = header_bits ?crc orig @ codes @ ?rest" using pad x(1) by simp
  have "100000 * d_blockSize100k s \<le> 900000" using s(1) ready_max [of s] by (simp add: d_full_def)
  then have "parse_block (100000 * d_blockSize100k s) (codes @ ?rest) = Found (bwt xs) ?rest" using x(3,6) by blast
  from decompress_block_ok [OF s(1) pend this refl x(2,3,4,5)] obtain t where t: "decompress_block s = Some (Go () t)" "outputs xs ys t"
     "d_calculatedBlockCRC t = 0xffffffff" "d_storedBlockCRC t = ?crc" "pending t = ?rest" "d_full t" "d_next_out t = d_next_out s"
     "d_avail_out t = d_avail_out s" "d_calculatedCombinedCRC t = d_calculatedCombinedCRC s" "d_blockSize100k t = d_blockSize100k s"
    by blast
  have "d_output ys bs t"
    using t s(3) by (auto simp: d_output_def add_crc_def BZ_INITIALISE_CRC_def)
  then show ?thesis using t by blast
qed

text \<open>The output of a block: it ends, or there is no more room.\<close>

lemma output_ends:
  assumes "d_output zs bs s" "length zs \<le> d_avail_out s"
  shows "\<exists>t. output_block s = Some (Go () t) \<and> d_between bs t \<and> d_next_out t = d_next_out s @ zs \<and> d_avail_out t = d_avail_out s - length zs"
proof -
  obtain xs where out: "outputs xs zs s" and s: "d_full s" "blocks_code (d_blockSize100k s) bs"
     "d_storedBlockCRC s = BZ_FINALISE_CRC (fold BZ_UPDATE_CRC zs (d_calculatedBlockCRC s))"
    using assms(1) by (auto simp: d_output_def)
  from output_block_ok [OF out assms(2) s(3,1)] obtain t where t: "output_block s = Some (Go () t)" "d_next_out t = d_next_out s @ zs"
     "d_avail_out t = d_avail_out s - length zs" "pending t = pending s" "d_full t" "d_blockSize100k t = d_blockSize100k s"
     "d_calculatedCombinedCRC t = (push_bit 1 (d_calculatedCombinedCRC s) OR drop_bit 31 (d_calculatedCombinedCRC s)) XOR d_storedBlockCRC s"
    by blast
  then have "d_between bs t" using assms(1) s(2) by (auto simp: d_between_def d_output_def)
  with t show ?thesis by blast
qed

lemma output_full:
  assumes "d_output zs bs s" "d_avail_out s < length zs"
  shows "\<exists>t. output_block s = Some (Stop BZ_OK t) \<and> d_output (drop (d_avail_out s) zs) bs t
     \<and> d_next_out t = d_next_out s @ take (d_avail_out s) zs \<and> d_avail_out t = 0"
proof -
  obtain xs where out: "outputs xs zs s" using assms(1) by (auto simp: d_output_def)
  obtain t where t: "unRLE_obuf_to_output_FAST s = Some (False, t)" "outputs xs (drop (d_avail_out s) zs) t"
     "d_next_out t = d_next_out s @ take (d_avail_out s) zs"
     "d_calculatedBlockCRC t = fold BZ_UPDATE_CRC (take (d_avail_out s) zs) (d_calculatedBlockCRC s)" "\<not> block_done t" "out_frame s t"
     "d_avail_out t = 0"
    using output_call [OF out] assms(2) by auto
  note same = out_frame_same [OF t(6)]
  have "fold BZ_UPDATE_CRC zs (d_calculatedBlockCRC s) = fold BZ_UPDATE_CRC (drop (d_avail_out s) zs) (d_calculatedBlockCRC t)"
    unfolding t(4) by (metis append_take_drop_id fold_append comp_apply)
  then have "d_output (drop (d_avail_out s) zs) bs t"
    using assms(1) t(2) same by (auto simp: d_output_def d_full_def)
  moreover have "output_block s = Some (Stop BZ_OK t)" using t(1,5) by (auto simp: output_block_def block_done_def)
  ultimately show ?thesis using t(3,7) by blast
qed

text \<open>A call of \<open>BZ2_bzDecompress\<close> gives what there is room for.\<close>

definition d_returned :: "u8 list \<Rightarrow> dstate \<Rightarrow> (bz_ret \<times> d_label \<times> dstate) option \<Rightarrow> bool" where
  "d_returned ys s m \<longleftrightarrow> (\<exists>r l t. m = Some (r, l, t) \<and> d_next_out t = d_next_out s @ take (d_avail_out s) ys
     \<and> d_avail_out t = d_avail_out s - length ys
     \<and> (if length ys \<le> d_avail_out s then r = BZ_STREAM_END \<and> l = BZ_X_IDLE
        else r = BZ_OK \<and> will_decode (drop (d_avail_out s) ys) l t))"

lemma d_returned_from:
  assumes "d_returned zs t m" "d_next_out t = d_next_out s @ ys" "d_avail_out s = d_avail_out t + length ys"
  shows "d_returned (ys @ zs) s m"
proof (cases "length zs \<le> d_avail_out t")
  case True
  then show ?thesis using assms by (auto simp: d_returned_def)
next
  case False
  then obtain l u where "m = Some (BZ_OK, l, u)" "d_next_out u = d_next_out t @ take (d_avail_out t) zs" "d_avail_out u = 0"
     "will_decode (drop (d_avail_out t) zs) l u"
    using assms(1) by (auto simp: d_returned_def)
  then show ?thesis using assms(2,3) False by (simp add: d_returned_def)
qed

lemma output_call_returns:
  assumes "d_output zs bs s"
    and "\<And>t. d_between bs t \<Longrightarrow> d_returned (bytes_of bs) t (BZ2_bzDecompress alloc BZ_X_BLKHDR_1 t)"
  shows "d_returned (zs @ bytes_of bs) s (BZ2_bzDecompress alloc BZ_X_OUTPUT s)"
proof (cases "length zs \<le> d_avail_out s")
  case True
  obtain t where t: "output_block s = Some (Go () t)" "d_between bs t" "d_next_out t = d_next_out s @ zs" "d_avail_out t = d_avail_out s - length zs"
    using output_ends [OF assms(1) True] by blast
  have "BZ2_bzDecompress alloc BZ_X_OUTPUT s = BZ2_bzDecompress alloc BZ_X_BLKHDR_1 t"
    by (subst (1 2) BZ2_bzDecompress.simps) (simp add: t(1))
  then show ?thesis using d_returned_from [OF assms(2) [OF t(2)] t(3)] t(4) True by simp
next
  case False
  then obtain t where t: "output_block s = Some (Stop BZ_OK t)" "d_output (drop (d_avail_out s) zs) bs t"
     "d_next_out t = d_next_out s @ take (d_avail_out s) zs" "d_avail_out t = 0"
    using output_full [OF assms(1)] by auto
  have "BZ2_bzDecompress alloc BZ_X_OUTPUT s = Some (BZ_OK, BZ_X_OUTPUT, t)"
    by (subst BZ2_bzDecompress.simps) (simp add: t(1))
  then show ?thesis using t False by (auto simp: d_returned_def will_decode_def)
qed

lemma between_call_returns:
  assumes "d_between bs s"
  shows "d_returned (bytes_of bs) s (BZ2_bzDecompress alloc BZ_X_BLKHDR_1 s)"
  using assms
proof (induction bs arbitrary: s)
  case Nil
  obtain pad where "pending s = trail_bits (d_calculatedCombinedCRC s) @ pad" "rd_inv s"
    using Nil by (auto simp: d_between_def rest_bits_def d_full_def d_ready_def)
  then obtain t where t: "decompress_block s = Some (Stop BZ_STREAM_END t)"
     "rd_frame (s\<lparr>d_storedCombinedCRC := d_calculatedCombinedCRC s\<rparr>) t"
    using decompress_trailer by blast
  note same = rd_frame_same [OF t(2)]
  have "BZ2_bzDecompress alloc BZ_X_BLKHDR_1 s = Some (BZ_STREAM_END, BZ_X_IDLE, t)"
    using same by (subst BZ2_bzDecompress.simps) (simp add: t(1) BZ2_decompress_def)
  then show ?case using same by (simp add: d_returned_def)
next
  case (Cons x bs)
  obtain ys bits where x: "x = (ys, bits)" by fastforce
  obtain t where t: "decompress_block s = Some (Go () t)" "d_output ys bs t" "d_next_out t = d_next_out s" "d_avail_out t = d_avail_out s"
    using begin_block Cons.prems unfolding x by blast
  have "BZ2_bzDecompress alloc BZ_X_BLKHDR_1 s = BZ2_bzDecompress alloc BZ_X_OUTPUT t"
    by (subst BZ2_bzDecompress.simps) (simp add: t(1) BZ2_decompress_def)
  moreover have "d_returned (ys @ bytes_of bs) t (BZ2_bzDecompress alloc BZ_X_OUTPUT t)"
    using t(2) Cons.IH by (rule output_call_returns)
  ultimately show ?case using d_returned_from [of _ t _ s "[]"] t(3,4) by (simp add: x)
qed

lemma will_decode_call:
  assumes "will_decode ys l s"
  shows "d_returned ys s (BZ2_bzDecompress alloc l s)"
  using assms between_call_returns output_call_returns by (auto simp: will_decode_def)

section \<open>A stream\<close>

text \<open>The bytes \<open>zs\<close> are the code of a stream for \<open>ys\<close>: the header, the blocks, the trailer, and some zeros.\<close>

definition stream_code :: "u8 list \<Rightarrow> u8 list \<Rightarrow> bool" where
  "stream_code ys zs \<longleftrightarrow> (\<exists>b bs k. 1 \<le> b \<and> b \<le> 9 \<and> blocks_code b bs \<and> ys = bytes_of bs \<and> k < 8
     \<and> concat (map (bits_of 8) zs) = magic_bits b @ rest_bits 0 bs @ replicate k False)"

text \<open>The arrays of the struct; everything else in a new struct is arbitrary.\<close>

definition d_arrays :: "dstate \<Rightarrow> bool" where
  "d_arrays s \<longleftrightarrow> map_shape s \<and> selectors_shape s \<and> tables_d_shape s \<and> length (d_unzftab s) = 256 \<and> length (d_mtfa s) = 4096
     \<and> length (d_mtfbase s) = 16 \<and> length (d_cftab s) = 257"

text \<open>A stream is received from its beginning.\<close>

lemma stream_call:
  assumes "d_arrays s" "d_bsLive s = 0" "\<not> d_smallDecompress s" "d_calculatedCombinedCRC s = 0" "stream_code ys (d_next_in s)" "alloc_ok alloc"
  shows "d_returned ys s (BZ2_bzDecompress alloc BZ_X_MAGIC_1 s)"
proof -
  obtain b bs k where b: "1 \<le> b" "b \<le> 9" "blocks_code b bs" "ys = bytes_of bs"
     "concat (map (bits_of 8) (d_next_in s)) = magic_bits b @ rest_bits 0 bs @ replicate k False"
    using assms(5) by (auto simp: stream_code_def)
  have inv: "rd_inv s" "pending s = magic_bits b @ rest_bits 0 bs @ replicate k False"
    using assms(2) b(5) by (simp_all add: rd_inv_def pending_def)
  from receive_magic_ok [OF inv b(1,2) assms(6,3)] obtain t where t: "receive_magic alloc s = Some (Go () t)" "rd_inv t"
     "pending t = rest_bits 0 bs @ replicate k False" "rd_frame (s\<lparr>d_blockSize100k := b\<rparr>) t" by blast
  note same = rd_frame_same [OF t(4)]
  have "d_full t"
    using assms(1,3) t(2) b(2) same
    by (simp add: d_arrays_def d_full_def d_ready_def map_shape_def selectors_shape_def tables_d_shape_def values_shape_def)
  then have "d_between bs t" using t(3) b(3) same assms(4) by (auto simp: d_between_def)
  then have "d_returned ys t (BZ2_bzDecompress alloc BZ_X_BLKHDR_1 t)" unfolding b(4) by (rule between_call_returns)
  moreover have "BZ2_bzDecompress alloc BZ_X_MAGIC_1 s = BZ2_bzDecompress alloc BZ_X_BLKHDR_1 t"
    by (subst (1 2) BZ2_bzDecompress.simps) (simp add: BZ2_decompress_def t(1))
  ultimately show ?thesis using d_returned_from [of ys t _ s "[]"] same by simp
qed

end
