(* ===== verification/BzWriter.thy ===== *)
theory BzWriter
  imports BzCompressor BzDecompress
begin

text \<open>
  What the compressor writes: in every state between two steps, the bits that are in the output, in
  \<open>zbits\<close> and in the buffer of the bit writer are those of the blocks so far, and the blocks and the
  block that is being collected stand for the input that was read. When the stream ends, the output
  is the code of a stream for all the input.
\<close>

section \<open>Frames\<close>

lemma in_frame_update:
  assumes "in_frame s t"
  shows "t = s\<lparr>arr2 := arr2 t, nblock := nblock t, inUse := inUse t, blockCRC := blockCRC t, state_in_ch := state_in_ch t,
     state_in_len := state_in_len t, avail_in_expect := avail_in_expect t, next_in := next_in t,
     total_in_lo32 := total_in_lo32 t, total_in_hi32 := total_in_hi32 t\<rparr>"
proof -
  define u where "u = t\<lparr>arr2 := arr2 s, nblock := nblock s, inUse := inUse s, blockCRC := blockCRC s, state_in_ch := state_in_ch s,
     state_in_len := state_in_len s, avail_in_expect := avail_in_expect s, next_in := next_in s,
     total_in_lo32 := total_in_lo32 s, total_in_hi32 := total_in_hi32 s\<rparr>"
  have "t = u\<lparr>arr2 := arr2 t, nblock := nblock t, inUse := inUse t, blockCRC := blockCRC t, state_in_ch := state_in_ch t,
     state_in_len := state_in_len t, avail_in_expect := avail_in_expect t, next_in := next_in t,
     total_in_lo32 := total_in_lo32 t, total_in_hi32 := total_in_hi32 t\<rparr>" by (simp add: u_def)
  moreover have "u = s" using assms by (simp add: in_frame_def u_def)
  ultimately show ?thesis by simp
qed

text \<open>The fields of the stream that the collection and the compression of a block leave alone.\<close>

definition kept :: "'a zstate_scheme \<Rightarrow> 'a zstate_scheme \<Rightarrow> bool" where
  "kept s t \<longleftrightarrow> mode t = mode s \<and> io_state t = io_state s \<and> nblockMAX t = nblockMAX s \<and> blockSize100k t = blockSize100k s
     \<and> blockNo t = blockNo s \<and> state_out_pos t = state_out_pos s \<and> next_out t = next_out s \<and> avail_out t = avail_out s"

lemma kept_trans: "kept s t \<Longrightarrow> kept t u \<Longrightarrow> kept s u"
  by (simp add: kept_def)

lemma in_frame_fields:
  assumes "in_frame s t"
  shows "mode t = mode s" "io_state t = io_state s" "nblockMAX t = nblockMAX s" "blockSize100k t = blockSize100k s"
    "blockNo t = blockNo s" "state_out_pos t = state_out_pos s" "next_out t = next_out s" "avail_out t = avail_out s"
    "combinedCRC t = combinedCRC s" "numZ t = numZ s" "bsLive t = bsLive s" "bsBuff t = bsBuff s" "len t = len s" "rfreq t = rfreq s"
    "selector t = selector s" "mtfFreq t = mtfFreq s" "code t = code s" "selectorMtf t = selectorMtf s" "unseqToSeq t = unseqToSeq s"
  by (subst in_frame_update [OF assms], simp)+

lemma in_frame_kept:
  assumes "in_frame s t"
  shows "kept s t" "combinedCRC t = combinedCRC s" "lead_ready t = lead_ready s" "lead_bits t = lead_bits s" "back_ready t = back_ready s"
    "numZ t = numZ s" "arr2_bytes t = arr2_bytes s"
  by (simp_all add: kept_def lead_ready_def lead_bits_def back_ready_def back_shape_def tables_shape_def arr2_bytes_def
      in_frame_fields [OF assms])

lemma rl_frame_kept:
  assumes "rl_frame s t"
  shows "kept s t" "combinedCRC t = combinedCRC s" "lead_ready t = lead_ready s" "lead_bits t = lead_bits s" "back_ready t = back_ready s"
    "numZ t = numZ s" "next_in t = next_in s" "avail_in_expect t = avail_in_expect s"
  using assms by (auto simp: rl_frame_def kept_def lead_ready_def lead_bits_def back_ready_def back_shape_def tables_shape_def)

lemma comp_frame_fields:
  assumes "comp_frame s t"
  shows "mode t = mode s" "io_state t = io_state s" "nblockMAX t = nblockMAX s" "blockSize100k t = blockSize100k s"
    "blockNo t = blockNo s" "state_out_pos t = state_out_pos s" "next_out t = next_out s" "avail_out t = avail_out s"
    "next_in t = next_in s" "avail_in_expect t = avail_in_expect s" "state_in_ch t = state_in_ch s"
    "state_in_len t = state_in_len s" "inUse t = inUse s"
  by (subst back_frame_update [OF assms [unfolded comp_frame_def]], simp)+

lemma comp_frame_kept: "comp_frame s t \<Longrightarrow> kept s t"
  by (simp add: kept_def comp_frame_fields)

section \<open>The states of the compressor\<close>

definition emitted :: "'a zstate_scheme \<Rightarrow> bool list" where
  "emitted s = concat (map (bits_of 8) (next_out s))"

definition block_bits_of :: "(u8 list \<times> bool list) list \<Rightarrow> bool list" where
  "block_bits_of bs = concat (map snd bs)"

lemma rest_bits_eq: "rest_bits c bs = block_bits_of bs @ trail_bits (fold add_crc (map fst bs) c)"
  by (simp add: rest_bits_def block_bits_of_def)

lemma block_bits_of_simps [simp]:
  "block_bits_of [] = []" "block_bits_of (as @ bs) = block_bits_of as @ block_bits_of bs" "block_bits_of [x] = snd x"
  by (simp_all add: block_bits_of_def)

text \<open>What holds in every state.\<close>

definition z_common :: "(u8 list \<times> bool list) list \<Rightarrow> 'a zstate_scheme \<Rightarrow> bool" where
  "z_common bs s \<longleftrightarrow> back_ready s \<and> nblockMAX s = 100000 * blockSize100k s - 19 \<and> length (inUse s) = 256
     \<and> blocks_code (blockSize100k s) bs \<and> combinedCRC s = fold add_crc (map fst bs) 0 \<and> 1 \<le> blockNo s"

text \<open>A block is collected; it stands for \<open>cur\<close>.\<close>

definition z_input :: "(u8 list \<times> bool list) list \<Rightarrow> u8 list \<Rightarrow> 'a zstate_scheme \<Rightarrow> bool" where
  "z_input bs cur s \<longleftrightarrow> z_common bs s \<and> io_state s = BZ_S_INPUT \<and> state_out_pos s = 0 \<and> lead_ready s \<and> rl_inv cur s
     \<and> nblock s < nblockMAX s \<and> (nblock s = 0 \<or> state_in_ch s < 256)
     \<and> emitted s @ lead_bits s = magic_bits (blockSize100k s) @ block_bits_of bs"

text \<open>A block is output; the run \<open>cur\<close> is left for the next.\<close>

definition z_output :: "(u8 list \<times> bool list) list \<Rightarrow> u8 list \<Rightarrow> 'a zstate_scheme \<Rightarrow> bool" where
  "z_output bs cur s \<longleftrightarrow> z_common bs s \<and> io_state s = BZ_S_OUTPUT \<and> rl_run s
     \<and> cur = replicate (state_in_len s) (of_nat (state_in_ch s)) \<and> bs_inv s \<and> state_out_pos s \<le> numZ s
     \<and> (isempty_RL s \<longrightarrow> mode s = BZ_M_FLUSHING \<and> avail_in_expect s = 0)
     \<and> emitted s @ concat (map (bits_of 8) (drop (state_out_pos s) (zbytes s))) @ take (nat (bsLive s)) (bits_of 32 (bsBuff s))
        = magic_bits (blockSize100k s) @ block_bits_of bs"

text \<open>The end of the stream is output.\<close>

definition z_final :: "(u8 list \<times> bool list) list \<Rightarrow> 'a zstate_scheme \<Rightarrow> bool" where
  "z_final bs s \<longleftrightarrow> z_common bs s \<and> io_state s = BZ_S_OUTPUT \<and> mode s = BZ_M_FINISHING \<and> avail_in_expect s = 0 \<and> isempty_RL s
     \<and> state_out_pos s \<le> numZ s \<and> zbits s + numZ s \<le> arr2_bytes s
     \<and> (\<exists>k < 8. emitted s @ concat (map (bits_of 8) (drop (state_out_pos s) (zbytes s)))
          = magic_bits (blockSize100k s) @ rest_bits 0 bs @ replicate k False)"

text \<open>The input \<open>xs\<close> was read.\<close>

definition z_inv :: "u8 list \<Rightarrow> 'a zstate_scheme \<Rightarrow> bool" where
  "z_inv xs s \<longleftrightarrow> (\<exists>bs cur. z_input bs cur s \<and> xs = bytes_of bs @ cur) \<or> (\<exists>bs cur. z_output bs cur s \<and> xs = bytes_of bs @ cur)
     \<or> (\<exists>bs. z_final bs s \<and> xs = bytes_of bs)"

lemma z_common_kept:
  assumes "z_common bs s" "kept s t" "back_ready t = back_ready s" "length (inUse t) = 256" "combinedCRC t = combinedCRC s"
  shows "z_common bs t"
  using assms by (simp add: z_common_def kept_def)

section \<open>Output\<close>

lemma rl_run_cong:
  assumes "state_in_ch t = state_in_ch s" "state_in_len t = state_in_len s"
  shows "rl_run t = rl_run s" "isempty_RL t = isempty_RL s"
  by (simp_all only: rl_run_def isempty_RL_def assms)

lemma isempty_run: "rl_run s \<Longrightarrow> isempty_RL s \<longleftrightarrow> state_in_len s = 0"
  by (auto simp: rl_run_def isempty_RL_def split: if_splits)

text \<open>A new block begins.\<close>

lemma new_block:
  assumes "z_output bs cur s" "state_out_pos s = numZ s"
  shows "\<exists>t. prepare_new_block s = Some t \<and> z_input bs cur (t\<lparr>io_state := BZ_S_INPUT\<rparr>) \<and> mode t = mode s
     \<and> avail_in_expect t = avail_in_expect s \<and> next_in t = next_in s \<and> next_out t = next_out s \<and> avail_out t = avail_out s
     \<and> isempty_RL t = isempty_RL s \<and> state_out_pos t = 0 \<and> numZ t = 0 \<and> blockSize100k t = blockSize100k s"
proof -
  let ?t = "s\<lparr>nblock := 0, numZ := 0, state_out_pos := 0, blockCRC := BZ_INITIALISE_CRC, inUse := replicate 256 False, blockNo := blockNo s + 1\<rparr>"
  let ?u = "?t\<lparr>io_state := BZ_S_INPUT\<rparr>"
  have s: "z_common bs s" "rl_run s" "cur = replicate (state_in_len s) (of_nat (state_in_ch s))" "bs_inv s"
    using assms(1) by (simp_all add: z_output_def)
  have "prepare_new_block s = Some ?t" using s(1) by (intro prepare_ok) (simp add: z_common_def)
  moreover have "z_common bs ?u"
    using s(1) by (simp add: z_common_def back_ready_def back_shape_def tables_shape_def)
  moreover have "lead_ready ?u" using s(4) by (simp add: lead_ready_def bs_inv_def)
  moreover have "rl_inv cur ?u"
    unfolding rl_inv_def using s(2,3)
    by (intro conjI exI [of _ "[]"] exI [of _ None]) (auto simp: rl_run_def block_of_def closed_runs_Nil split: if_splits)
  moreover have "blockNo s \<noteq> 0" using s(1) by (simp add: z_common_def)
  then have "emitted ?u @ lead_bits ?u = magic_bits (blockSize100k ?u) @ block_bits_of bs"
    using assms by (simp add: z_output_def emitted_def lead_bits_def)
  moreover have "0 < nblockMAX ?u" using s(1) by (simp add: z_common_def back_ready_def)
  ultimately show ?thesis by (intro exI [of _ ?t]) (simp add: z_input_def isempty_RL_def)
qed

text \<open>A part of \<open>zbits\<close> is copied.\<close>

lemma copy_some:
  assumes "zbits s + numZ s \<le> arr2_bytes s" "state_out_pos s \<le> numZ s"
  shows "\<exists>t n lo hi. copy_output_until_stop s = Some (n \<noteq> 0, t) \<and> n = min (avail_out s) (numZ s - state_out_pos s)
     \<and> t = s\<lparr>next_out := next_out t, state_out_pos := state_out_pos s + n, avail_out := avail_out s - n, total_out_lo32 := lo, total_out_hi32 := hi\<rparr>
     \<and> next_out t = next_out s @ take n (drop (state_out_pos s) (zbytes s))
     \<and> emitted t @ concat (map (bits_of 8) (drop (state_out_pos t) (zbytes t)))
        = emitted s @ concat (map (bits_of 8) (drop (state_out_pos s) (zbytes s)))"
proof -
  define n where "n = min (avail_out s) (numZ s - state_out_pos s)"
  obtain lo hi where c: "copy_output False s = Some (False \<or> n \<noteq> 0, s\<lparr>next_out := next_out s @ take n (drop (state_out_pos s) (zbytes s)),
       state_out_pos := state_out_pos s + n, avail_out := avail_out s - n, total_out_lo32 := lo, total_out_hi32 := hi\<rparr>)"
    using copy_output_ok [OF assms n_def] by blast
  define t where "t = s\<lparr>next_out := next_out s @ take n (drop (state_out_pos s) (zbytes s)),
       state_out_pos := state_out_pos s + n, avail_out := avail_out s - n, total_out_lo32 := lo, total_out_hi32 := hi\<rparr>"
  have t: "zbytes t = zbytes s" "state_out_pos t = state_out_pos s + n" "next_out t = next_out s @ take n (drop (state_out_pos s) (zbytes s))"
    by (simp_all add: t_def zbytes_def)
  have "drop (state_out_pos s) (zbytes s) = take n (drop (state_out_pos s) (zbytes s)) @ drop (state_out_pos t) (zbytes t)"
    unfolding t by (metis append_take_drop_id add.commute drop_drop)
  then have "emitted t @ concat (map (bits_of 8) (drop (state_out_pos t) (zbytes t)))
        = emitted s @ concat (map (bits_of 8) (drop (state_out_pos s) (zbytes s)))"
    unfolding emitted_def t(3) by (metis append.assoc concat_append map_append)
  moreover have "t = s\<lparr>next_out := next_out t, state_out_pos := state_out_pos s + n, avail_out := avail_out s - n,
      total_out_lo32 := lo, total_out_hi32 := hi\<rparr>" unfolding t(3) by (simp only: t_def)
  moreover have "copy_output_until_stop s = Some (n \<noteq> 0, t)" using c by (simp add: copy_output_until_stop_def t_def)
  ultimately show ?thesis using t(3) n_def by blast
qed

text \<open>Why the loop is left.\<close>

definition z_stopped :: "'a zstate_scheme \<Rightarrow> bool" where
  "z_stopped s \<longleftrightarrow> (io_state s = BZ_S_OUTPUT \<and> state_out_pos s < numZ s \<and> avail_out s = 0)
     \<or> (io_state s = BZ_S_OUTPUT \<and> mode s = BZ_M_FINISHING \<and> avail_in_expect s = 0 \<and> isempty_RL s \<and> state_out_pos s = numZ s)
     \<or> (io_state s = BZ_S_INPUT \<and> mode s = BZ_M_FLUSHING \<and> avail_in_expect s = 0 \<and> isempty_RL s \<and> state_out_pos s = 0 \<and> numZ s = 0)
     \<or> (io_state s = BZ_S_INPUT \<and> mode s = BZ_M_RUNNING \<and> next_in s = [])"

text \<open>
  The most bytes of output that a block can have, the least bytes of input that a full block stands for,
  and the room that is enough for \<open>n\<close> bytes of input.
\<close>

definition block_bytes :: "nat \<Rightarrow> nat" where
  "block_bytes b = 4 * (100000 * b + 34)"

definition block_input :: "nat \<Rightarrow> nat" where
  "block_input b = 80000 * b - 15"

definition enough_room :: "nat \<Rightarrow> nat \<Rightarrow> nat" where
  "enough_room b n = block_bytes b * (n div block_input b + 1)"

lemma arr2_bytes_eq: "arr2_bytes s = block_bytes (blockSize100k s)"
  by (simp add: arr2_bytes_def BZ_N_OVERSHOOT_def block_bytes_def)

lemma enough_room_step:
  assumes "m + block_input b \<le> n" "1 \<le> b"
  shows "block_bytes b + enough_room b m \<le> enough_room b n"
proof -
  have "0 < block_input b" using assms(2) by (simp add: block_input_def)
  then have "m div block_input b + 1 \<le> n div block_input b" using div_le_mono [OF assms(1), of "block_input b"] div_add_self2 [of "block_input b" m] by simp
  then have "block_bytes b * (m div block_input b + 1 + 1) \<le> block_bytes b * (n div block_input b + 1)" by (intro mult_le_mono2) simp
  then show ?thesis by (simp add: enough_room_def)
qed

lemma enough_room_least: "block_bytes b \<le> enough_room b n"
  by (simp add: enough_room_def)

text \<open>Five bytes of a block stand for at least four bytes of input.\<close>

lemma unrle_length: "unrle xs = Some ys \<Longrightarrow> 4 * length xs \<le> 5 * length ys"
  by (induction xs arbitrary: ys rule: unrle.induct) (fastforce split: if_splits)+

lemma full_block_length:
  assumes "unrle (block_of s) = Some zs" "100000 * b - 19 \<le> nblock s"
  shows "block_input b \<le> length zs"
  using unrle_length [OF assms(1)] assms(2) by (simp add: block_input_def block_of_def)

definition left_alone :: "'a zstate_scheme \<Rightarrow> 'a zstate_scheme \<Rightarrow> bool" where
  "left_alone s t \<longleftrightarrow> mode t = mode s \<and> avail_in_expect t = avail_in_expect s \<and> next_in t = next_in s \<and> isempty_RL t = isempty_RL s
     \<and> blockSize100k t = blockSize100k s"

lemma z_output_keeps:
  assumes "z_output bs cur s" "t = s\<lparr>next_out := xs, state_out_pos := p, avail_out := a, total_out_lo32 := lo, total_out_hi32 := hi\<rparr>"
    "p \<le> numZ s" "emitted t @ concat (map (bits_of 8) (drop (state_out_pos t) (zbytes t)))
        = emitted s @ concat (map (bits_of 8) (drop (state_out_pos s) (zbytes s)))"
  shows "z_output bs cur t"
proof -
  have "z_common bs t"
    using assms(1) unfolding assms(2) z_output_def z_common_def back_ready_def back_shape_def tables_shape_def by simp
  moreover have "bs_inv t = bs_inv s" unfolding assms(2) by (simp add: bs_inv_def arr2_bytes_def)
  moreover have "emitted t @ concat (map (bits_of 8) (drop (state_out_pos t) (zbytes t))) @ take (nat (bsLive t)) (bits_of 32 (bsBuff t))
        = magic_bits (blockSize100k t) @ block_bits_of bs"
  proof -
    have "bsLive t = bsLive s" "bsBuff t = bsBuff s" "blockSize100k t = blockSize100k s" using assms(2) by simp_all
    then show ?thesis using assms(1,4) by (simp add: z_output_def) (metis append.assoc)
  qed
  moreover have "rl_run t = rl_run s" "isempty_RL t = isempty_RL s" "numZ t = numZ s" "state_out_pos t = p" "io_state t = io_state s"
      "state_in_len t = state_in_len s" "state_in_ch t = state_in_ch s" "mode t = mode s" "avail_in_expect t = avail_in_expect s"
    by (simp_all add: assms(2) rl_run_def isempty_RL_def)
  ultimately show ?thesis using assms(1,3) unfolding z_output_def by metis
qed

lemma output_stage_block:
  assumes "z_output bs cur s"
  shows "\<exists>stop t w. output_stage p s = Some (stop, p \<or> w \<noteq> [], t) \<and> next_out t = next_out s @ w \<and> left_alone s t
     \<and> avail_out s \<le> avail_out t + block_bytes (blockSize100k s) \<and> avail_out s = avail_out t + length w
     \<and> (if stop then z_stopped t \<and> (z_output bs cur t \<or> z_input bs cur t) \<and> (mode s = BZ_M_FINISHING \<longrightarrow> avail_out t = 0)
        else z_input bs cur t \<and> (mode t = BZ_M_FLUSHING \<longrightarrow> avail_in_expect t \<noteq> 0 \<or> \<not> isempty_RL t))"
proof -
  have s: "z_common bs s" "io_state s = BZ_S_OUTPUT" "bs_inv s" "state_out_pos s \<le> numZ s"
    "isempty_RL s \<longrightarrow> mode s = BZ_M_FLUSHING \<and> avail_in_expect s = 0"
    using assms by (simp_all add: z_output_def)
  have "zbits s + numZ s \<le> arr2_bytes s" using s(3) by (auto simp: bs_inv_def)
  from copy_some [OF this s(4)] obtain t n lo hi where t: "copy_output_until_stop s = Some (n \<noteq> 0, t)"
     "n = min (avail_out s) (numZ s - state_out_pos s)"
     "t = s\<lparr>next_out := next_out t, state_out_pos := state_out_pos s + n, avail_out := avail_out s - n, total_out_lo32 := lo, total_out_hi32 := hi\<rparr>"
     "next_out t = next_out s @ take n (drop (state_out_pos s) (zbytes s))"
     "emitted t @ concat (map (bits_of 8) (drop (state_out_pos t) (zbytes t)))
        = emitted s @ concat (map (bits_of 8) (drop (state_out_pos s) (zbytes s)))" by blast
  let ?w = "take n (drop (state_out_pos s) (zbytes s))"
  have f: "state_out_pos t = state_out_pos s + n" "avail_out t = avail_out s - n" "numZ t = numZ s" "mode t = mode s"
     "avail_in_expect t = avail_in_expect s" "next_in t = next_in s" "isempty_RL t = isempty_RL s" "io_state t = io_state s"
     "blockSize100k t = blockSize100k s"
    by (subst t(3), simp add: isempty_RL_def)+
  have w: "?w \<noteq> [] \<longleftrightarrow> n \<noteq> 0" using t(2) s(4) by (cases n) auto
  have room: "length ?w = n" "n \<le> avail_out s" using t(2) s(4) by simp_all
  have small: "n \<le> block_bytes (blockSize100k s)"
    using t(2) \<open>zbits s + numZ s \<le> arr2_bytes s\<close> by (simp add: arr2_bytes_eq)
  have out: "z_output bs cur t" using assms t(3) _ t(5) by (rule z_output_keeps) (use t(2) s(4) in simp)
  show ?thesis
  proof (cases "state_out_pos t < numZ t")
    case True
    have "output_stage p s = Some (True, p \<or> ?w \<noteq> [], t)" using s(2) t(1) True w by (simp add: output_stage_def Let_def)
    moreover have "avail_out t = 0" using True f t(2) by simp
    ultimately show ?thesis using out t(4) small f s(2) True room
      by (intro exI [of _ True] exI [of _ t] exI [of _ ?w]) (simp add: z_stopped_def left_alone_def)
  next
    case False
    then have pos: "state_out_pos t = numZ t" using out by (simp add: z_output_def)
    have go: "\<not> (mode t = BZ_M_FINISHING \<and> avail_in_expect t = 0 \<and> isempty_RL t)" using s(5) f by auto
    obtain u where u: "prepare_new_block t = Some u" "z_input bs cur (u\<lparr>io_state := BZ_S_INPUT\<rparr>)" "mode u = mode t"
       "avail_in_expect u = avail_in_expect t" "next_in u = next_in t" "next_out u = next_out t" "avail_out u = avail_out t"
       "isempty_RL u = isempty_RL t" "state_out_pos u = 0" "numZ u = 0" "blockSize100k u = blockSize100k t"
      using new_block [OF out pos] by blast
    let ?u = "u\<lparr>io_state := BZ_S_INPUT\<rparr>"
    let ?stop = "mode t = BZ_M_FLUSHING \<and> avail_in_expect t = 0 \<and> isempty_RL t"
    have same: "isempty_RL ?u = isempty_RL t" using u(8) by (simp add: isempty_RL_def)
    have "output_stage p s = Some (?stop, p \<or> ?w \<noteq> [], ?u)"
      using s(2) t(1) False go u(1,3,4) same w by (simp add: output_stage_def Let_def)
    then show ?thesis using u t(4) small f same room
      by (intro exI [of _ ?stop] exI [of _ ?u] exI [of _ ?w]) (auto simp: z_stopped_def left_alone_def word_gt_0)
  qed
qed

lemma output_stage_final:
  assumes "z_final bs s"
  shows "\<exists>t w. output_stage p s = Some (True, p \<or> w \<noteq> [], t) \<and> next_out t = next_out s @ w \<and> left_alone s t \<and> z_final bs t \<and> z_stopped t
     \<and> avail_out s = avail_out t + length w
     \<and> (block_bytes (blockSize100k s) \<le> avail_out s \<longrightarrow> state_out_pos t = numZ t)"
proof -
  have s: "z_common bs s" "io_state s = BZ_S_OUTPUT" "state_out_pos s \<le> numZ s" "zbits s + numZ s \<le> arr2_bytes s"
     "mode s = BZ_M_FINISHING" "avail_in_expect s = 0" "isempty_RL s"
    using assms by (simp_all add: z_final_def)
  from copy_some [OF s(4,3)] obtain t n lo hi where t: "copy_output_until_stop s = Some (n \<noteq> 0, t)"
     "n = min (avail_out s) (numZ s - state_out_pos s)"
     "t = s\<lparr>next_out := next_out t, state_out_pos := state_out_pos s + n, avail_out := avail_out s - n, total_out_lo32 := lo, total_out_hi32 := hi\<rparr>"
     "next_out t = next_out s @ take n (drop (state_out_pos s) (zbytes s))"
     "emitted t @ concat (map (bits_of 8) (drop (state_out_pos t) (zbytes t)))
        = emitted s @ concat (map (bits_of 8) (drop (state_out_pos s) (zbytes s)))" by blast
  let ?w = "take n (drop (state_out_pos s) (zbytes s))"
  have f: "state_out_pos t = state_out_pos s + n" "avail_out t = avail_out s - n" "numZ t = numZ s" "mode t = mode s"
     "avail_in_expect t = avail_in_expect s" "next_in t = next_in s" "isempty_RL t = isempty_RL s" "io_state t = io_state s"
     "zbits t = zbits s" "blockSize100k t = blockSize100k s"
    by (subst t(3), simp add: isempty_RL_def)+
  have w: "?w \<noteq> [] \<longleftrightarrow> n \<noteq> 0" using t(2) s(3) by (cases n) auto
  have "z_common bs t"
    by (subst t(3)) (use s(1) in \<open>simp add: z_common_def back_ready_def back_shape_def tables_shape_def\<close>)
  moreover have "arr2_bytes t = arr2_bytes s" by (simp add: arr2_bytes_def f)
  ultimately have fin: "z_final bs t" using assms f t(2,5) by (auto simp: z_final_def)
  have "output_stage p s = Some (True, p \<or> ?w \<noteq> [], t)" using s t(1) f w by (simp add: output_stage_def Let_def)
  moreover have "z_stopped t" using f s t(2) by (auto simp: z_stopped_def min_def)
  moreover have "state_out_pos t = numZ t" if "block_bytes (blockSize100k s) \<le> avail_out s"
    using that f t(2) s(3,4) by (simp add: arr2_bytes_eq)
  moreover have "length ?w = n" "n \<le> avail_out s" using t(2) s(3) by simp_all
  ultimately show ?thesis using t(4) fin f
    by (intro exI [of _ t] exI [of _ ?w]) (simp add: left_alone_def)
qed

section \<open>Input\<close>

text \<open>A block that is closed, or nothing, is written.\<close>

lemma compress_any:
  assumes "nblock s = 0 \<and> ys = [] \<and> back_ready s \<and> lead_ready s \<or> closed_block ys s"
    and "\<forall>u. 0 < nblock u \<and> nblock u \<le> 900000 \<longrightarrow> sorts blockSort u"
  shows "\<exists>u bs. BZ2_compressBlock blockSort is_last s = Some u \<and> bytes_of bs = ys \<and> blocks_code (blockSize100k s) bs
     \<and> sent is_last s (block_bits_of bs) u \<and> combinedCRC u = fold add_crc (map fst bs) (combinedCRC s)"
  using assms(1)
proof
  assume "nblock s = 0 \<and> ys = [] \<and> back_ready s \<and> lead_ready s"
  then show ?thesis using compress_nothing [of s blockSort is_last]
    by (auto intro!: exI [of _ "[]"] simp: blocks_code_def)
next
  assume c: "closed_block ys s"
  have "nblock (finalise_block s) = nblock s" by (simp add: finalise_block_def Let_def)
  moreover have "0 < nblock s" "nblock s \<le> 900000" using c by (auto simp: closed_block_def back_ready_def)
  ultimately have "sorts blockSort (finalise_block s)" using assms(2) by simp
  from compress_block [OF c this] obtain u bits where "BZ2_compressBlock blockSort is_last s = Some u" "block_code (blockSize100k s) ys bits"
     "sent is_last s bits u" "combinedCRC u = add_crc ys (combinedCRC s)" by blast
  then show ?thesis by (intro exI [of _ u] exI [of _ "[(ys, bits)]"]) (simp add: blocks_code_def)
qed

lemma sent_common:
  assumes "sent is_last s (block_bits_of bs') u" "z_common bs s" "blocks_code (blockSize100k s) bs'"
    "combinedCRC u = fold add_crc (map fst bs') (combinedCRC s)"
  shows "z_common (bs @ bs') (u\<lparr>io_state := x\<rparr>)"
proof -
  have f: "comp_frame s u" "back_ready u" using assms(1) by (simp_all add: sent_def)
  show ?thesis
    using assms(2-4) f(2) comp_frame_fields [OF f(1)]
    by (auto simp: z_common_def blocks_code_def back_ready_def back_shape_def tables_shape_def)
qed

text \<open>The block goes to the output, in the middle or at the end of the stream.\<close>

lemma sent_output:
  assumes "sent False s (block_bits_of bs') u" "z_common bs s" "blocks_code (blockSize100k s) bs'"
    "combinedCRC u = fold add_crc (map fst bs') (combinedCRC s)" "state_out_pos s = 0"
    "emitted s @ lead_bits s = magic_bits (blockSize100k s) @ block_bits_of bs" "rl_run s"
    "isempty_RL s \<longrightarrow> mode s = BZ_M_FLUSHING \<and> avail_in_expect s = 0"
  shows "z_output (bs @ bs') (replicate (state_in_len s) (of_nat (state_in_ch s))) (u\<lparr>io_state := BZ_S_OUTPUT\<rparr>)"
proof -
  let ?u = "u\<lparr>io_state := BZ_S_OUTPUT\<rparr>"
  have f: "comp_frame s u" "bs_inv u" "bs_written u = lead_bits s @ block_bits_of bs'" using assms(1) by (simp_all add: sent_def)
  note same = comp_frame_fields [OF f(1)]
  have "rl_run ?u = rl_run s" "isempty_RL ?u = isempty_RL s" by (rule rl_run_cong; simp add: same)+
  moreover have "bs_inv ?u" using f(2) by (simp add: bs_inv_def arr2_bytes_def)
  moreover have "emitted ?u @ bs_written u = magic_bits (blockSize100k u) @ block_bits_of (bs @ bs')"
  proof -
    have "emitted ?u = emitted s" using same by (simp add: emitted_def)
    then have "emitted ?u @ bs_written u = (emitted s @ lead_bits s) @ block_bits_of bs'" by (simp add: f(3))
    then show ?thesis using same unfolding assms(6) by simp
  qed
  ultimately show ?thesis
    using sent_common [OF assms(1-4)] assms(5,7,8) same
    by (simp add: z_output_def bs_written_def zbytes_def)
qed

lemma sent_final:
  assumes "sent True s (block_bits_of bs') u" "z_common bs s" "blocks_code (blockSize100k s) bs'"
    "combinedCRC u = fold add_crc (map fst bs') (combinedCRC s)" "state_out_pos s = 0"
    "emitted s @ lead_bits s = magic_bits (blockSize100k s) @ block_bits_of bs" "isempty_RL s" "mode s = BZ_M_FINISHING" "avail_in_expect s = 0"
  shows "z_final (bs @ bs') (u\<lparr>io_state := BZ_S_OUTPUT\<rparr>)"
proof -
  let ?u = "u\<lparr>io_state := BZ_S_OUTPUT\<rparr>"
  obtain k where f: "comp_frame s u" "k < 8" "zbits u + numZ u \<le> arr2_bytes u"
     "concat (map (bits_of 8) (zbytes u)) = lead_bits s @ block_bits_of bs' @ trail_bits (combinedCRC u) @ replicate k False"
    using assms(1) by (auto simp: sent_def)
  note same = comp_frame_fields [OF f(1)]
  have common: "z_common (bs @ bs') ?u" using sent_common [OF assms(1-4)] .
  then have crc: "combinedCRC u = fold add_crc (map fst (bs @ bs')) 0" by (simp add: z_common_def)
  have "emitted ?u @ concat (map (bits_of 8) (zbytes u)) = magic_bits (blockSize100k u) @ rest_bits 0 (bs @ bs') @ replicate k False"
    unfolding f(4) rest_bits_eq crc [symmetric] using assms(6) same by (simp add: emitted_def)
  moreover have "zbytes ?u = zbytes u" "arr2_bytes ?u = arr2_bytes u" by (simp_all add: zbytes_def arr2_bytes_def)
  ultimately show ?thesis using common f(2,3) assms(5,7-9) same
    by (auto simp: z_final_def isempty_RL_def)
qed

text \<open>Copying input keeps what the caller promised of its amount, and leaves a run whenever the block is not empty.\<close>

definition in_sync :: "'a zstate_scheme \<Rightarrow> bool" where
  "in_sync s \<longleftrightarrow> length (next_in s) < 2 ^ 32 \<and> (mode s \<noteq> BZ_M_RUNNING \<longrightarrow> avail_in_expect s = of_nat (length (next_in s)))"

lemma ADD_CHAR_run: "ADD_CHAR_TO_BLOCK c s = Some t \<Longrightarrow> state_in_ch t < 256"
proof -
  assume t: "ADD_CHAR_TO_BLOCK c s = Some t"
  have "state_in_ch t = unat c"
    using t unat_u8_less [of c] by (auto simp: ADD_CHAR_TO_BLOCK_def Let_def split: if_splits bind_splits)
  then show ?thesis using unat_u8_less [of c] by simp
qed

lemma put_block_keeps: "put_block c s = Some t \<Longrightarrow> mode t = mode s \<and> avail_in_expect t = avail_in_expect s"
  "mark_used i s = Some t \<Longrightarrow> mode t = mode s \<and> avail_in_expect t = avail_in_expect s"
  by (auto simp: put_block_def mark_used_def split: bind_splits)

lemma add_pair_keeps: "add_pair_to_block s = Some t \<Longrightarrow> mode t = mode s \<and> avail_in_expect t = avail_in_expect s"
  by (auto simp: add_pair_to_block_def Let_def split: bind_splits if_splits dest!: put_block_keeps)

lemma ADD_CHAR_keeps: "ADD_CHAR_TO_BLOCK c s = Some t \<Longrightarrow> mode t = mode s \<and> avail_in_expect t = avail_in_expect s"
  by (auto simp: ADD_CHAR_TO_BLOCK_def Let_def split: bind_splits if_splits dest!: put_block_keeps add_pair_keeps)

lemma copy_input_sync:
  "copy_input avail p s = Some (q, t) \<Longrightarrow> mode s \<noteq> BZ_M_RUNNING \<Longrightarrow> avail_in_expect s = of_nat (length avail) \<Longrightarrow>
     avail_in_expect t = of_nat (length (next_in t))"
proof (induction avail arbitrary: p s)
  case Nil
  then show ?case by (auto simp: copy_input.simps split: if_splits)
next
  case (Cons c rest)
  show ?case
  proof (cases "nblock s \<ge> nblockMAX s \<or> avail_in_expect s = 0")
    case True
    then show ?thesis using Cons.prems by (auto simp: copy_input.simps [of "c # rest"] split: if_splits)
  next
    case False
    then obtain u where u: "ADD_CHAR_TO_BLOCK c s = Some u"
      using Cons.prems(1,2) by (auto simp: copy_input.simps [of "c # rest"] split: bind_splits)
    define lo where "lo = total_in_lo32 u + 1"
    define w where "w = u\<lparr>total_in_lo32 := lo, total_in_hi32 := (if lo = 0 then total_in_hi32 u + 1 else total_in_hi32 u),
        avail_in_expect := avail_in_expect u - 1\<rparr>"
    have keep: "mode u = mode s" "avail_in_expect u = avail_in_expect s" using ADD_CHAR_keeps [OF u] by simp_all
    have "copy_input (c # rest) p s = copy_input rest True w"
      using False Cons.prems(2) u keep by (subst copy_input.simps) (simp add: w_def lo_def Let_def)
    moreover have "mode w \<noteq> BZ_M_RUNNING" "avail_in_expect w = of_nat (length rest)"
      using Cons.prems(2,3) keep by (simp_all add: w_def)
    ultimately show ?thesis using Cons.IH [of True w] Cons.prems(1) by simp
  qed
qed

lemma copy_input_run:
  "copy_input avail p s = Some (q, t) \<Longrightarrow> nblock s = 0 \<or> state_in_ch s < 256 \<Longrightarrow> nblock t = 0 \<or> state_in_ch t < 256"
proof (induction avail arbitrary: p s)
  case Nil
  then show ?case by (auto simp: copy_input.simps split: if_splits)
next
  case (Cons c rest)
  show ?case
  proof (cases "nblock s \<ge> nblockMAX s \<or> mode s \<noteq> BZ_M_RUNNING \<and> avail_in_expect s = 0")
    case True
    then show ?thesis using Cons.prems by (auto simp: copy_input.simps [of "c # rest"] split: if_splits)
  next
    case False
    then obtain u where u: "ADD_CHAR_TO_BLOCK c s = Some u"
      using Cons.prems(1) by (auto simp: copy_input.simps [of "c # rest"] split: bind_splits)
    define lo where "lo = total_in_lo32 u + 1"
    define v where "v = u\<lparr>total_in_lo32 := lo, total_in_hi32 := (if lo = 0 then total_in_hi32 u + 1 else total_in_hi32 u)\<rparr>"
    define w where "w = (if mode v = BZ_M_RUNNING then v else v\<lparr>avail_in_expect := avail_in_expect v - 1\<rparr>)"
    have "copy_input (c # rest) p s = copy_input rest True w"
      using False u by (subst copy_input.simps) (auto simp: w_def v_def lo_def Let_def)
    moreover have "state_in_ch w < 256" using ADD_CHAR_run [OF u] by (simp add: w_def v_def)
    ultimately show ?thesis using Cons.IH [of True w] Cons.prems(1) by simp
  qed
qed

lemma copy_input_progress: "copy_input avail True s = Some (q, t) \<Longrightarrow> q"
proof (induction avail arbitrary: s)
  case Nil
  then show ?case by (auto simp: copy_input.simps split: if_splits)
next
  case (Cons c rest)
  then show ?case by (auto simp: copy_input.simps [of "c # rest"] Let_def split: if_splits bind_splits)
qed

lemma copy_input_nothing: "copy_input avail False s = Some (False, t) \<Longrightarrow> nblock t = nblock s"
  by (cases avail) (auto simp: copy_input.simps [of "[]"] copy_input.simps [of "_ # _"] Let_def split: if_splits bind_splits
      dest: copy_input_progress)

text \<open>
  The blocks and the run stand for \<open>ys\<close>, and the compressor goes on with the output. The last block is the last of
  a flush, or it is full; then most of the \<open>n\<close> bytes that were not in blocks are in it now.
\<close>

definition z_next :: "u8 list \<Rightarrow> nat \<Rightarrow> 'a zstate_scheme \<Rightarrow> bool" where
  "z_next ys n s \<longleftrightarrow> (\<exists>bs. z_final bs s \<and> bytes_of bs = ys \<and> next_in s = [])
     \<or> (\<exists>bs run. z_output bs run s \<and> bytes_of bs @ run = ys \<and> (isempty_RL s \<and> mode s = BZ_M_FLUSHING
          \<or> length run + block_input (blockSize100k s) \<le> n))"

lemma sync_zero: "in_sync s \<Longrightarrow> mode s \<noteq> BZ_M_RUNNING \<Longrightarrow> avail_in_expect s = 0 \<longleftrightarrow> next_in s = []"
proof -
  assume s: "in_sync s" "mode s \<noteq> BZ_M_RUNNING"
  then have "unat (avail_in_expect s) = length (next_in s)"
    by (simp add: in_sync_def unat_of_nat)
  then show ?thesis by (metis length_0_conv unat_eq_zero)
qed

lemma left_alone_frame:
  assumes "kept s t"
  shows "mode t = mode s" "next_out t = next_out s" "avail_out t = avail_out s" "state_out_pos t = state_out_pos s"
    "blockSize100k t = blockSize100k s" "io_state t = io_state s" "nblockMAX t = nblockMAX s" "emitted t = emitted s"
  using assms by (simp_all add: kept_def emitted_def)

text \<open>The end of the input, or a full block, closes the block.\<close>

lemma close_flushed:
  assumes "z_common bs s" "rl_inv ys s" "lead_ready s" "state_out_pos s = 0" "nblock s \<le> nblockMAX s + 4"
    "emitted s @ lead_bits s = magic_bits (blockSize100k s) @ block_bits_of bs"
    "mode s = BZ_M_FLUSHING \<or> mode s = BZ_M_FINISHING" "avail_in_expect s = 0" "next_in s = []"
    and sort: "\<forall>u. 0 < nblock u \<and> nblock u \<le> 900000 \<longrightarrow> sorts blockSort u"
  shows "\<exists>u v. flush_RL s = Some u \<and> BZ2_compressBlock blockSort (mode u = BZ_M_FINISHING) u = Some v
     \<and> z_next (bytes_of bs @ ys) n (v\<lparr>io_state := BZ_S_OUTPUT\<rparr>) \<and> kept s v \<and> next_in v = next_in s \<and> avail_in_expect v = avail_in_expect s"
proof -
  let ?N = "100000 * blockSize100k s"
  have s: "back_ready s" "nblockMAX s = ?N - 19" "1 \<le> blockSize100k s" using assms(1) by (simp_all add: z_common_def back_ready_def)
  have "arr2_bytes s = 4 * (?N + 34)" by (simp add: arr2_bytes_def BZ_N_OVERSHOOT_def)
  then have "nblock s + 5 \<le> arr2_bytes s" using assms(5) s by simp
  from flush_ok [OF assms(2) this] obtain u where u: "flush_RL s = Some u" "unrle (block_of u) = Some ys"
     "blockCRC u = fold BZ_UPDATE_CRC ys BZ_INITIALISE_CRC" "length (inUse u) = 256" "\<forall>c \<in> set (block_of u). inUse u ! unat c"
     "nblock u \<le> nblock s + 5" "rl_frame s u" "isempty_RL u" by blast
  note f = rl_frame_kept [OF u(7)] left_alone_frame [OF rl_frame_kept(1) [OF u(7)]]
  have common: "z_common bs u" using assms(1) f(1) u(4) f(2,5) by (intro z_common_kept [OF assms(1) f(1)]) simp_all
  have "nblock u = 0 \<and> ys = [] \<and> back_ready u \<and> lead_ready u \<or> closed_block ys u"
  proof (cases "nblock u = 0")
    case True
    then have "block_of u = []" by (simp add: block_of_def)
    then show ?thesis using True u(2) f(3,5) s(1) assms(3) by simp
  next
    case False
    moreover have "nblock u \<le> 100000 * blockSize100k u" using u(6) assms(5) s f by simp
    ultimately show ?thesis using u f(3,5) s(1) assms(3) by (simp add: closed_block_def)
  qed
  from compress_any [OF this sort, of "mode u = BZ_M_FINISHING"] obtain v bs' where v:
    "BZ2_compressBlock blockSort (mode u = BZ_M_FINISHING) u = Some v" "bytes_of bs' = ys" "blocks_code (blockSize100k u) bs'"
    "sent (mode u = BZ_M_FINISHING) u (block_bits_of bs') v" "combinedCRC v = fold add_crc (map fst bs') (combinedCRC u)" by blast
  have comp: "comp_frame u v" using v(4) by (simp add: sent_def)
  note g = comp_frame_fields [OF comp]
  have lead: "state_out_pos u = 0" "emitted u @ lead_bits u = magic_bits (blockSize100k u) @ block_bits_of bs"
    using assms(4,6) f by simp_all
  have run: "rl_run u" "replicate (state_in_len u) (of_nat (state_in_ch u)) = ([] :: u8 list)"
    using u(1,8) assms(2) by (auto simp: flush_RL_def init_RL_def rl_run_def split: bind_splits)
  have after: "next_in v = next_in s" "avail_in_expect v = avail_in_expect s" "kept s v"
    using g f kept_trans [OF f(1) comp_frame_kept [OF comp]] by simp_all
  have "z_next (bytes_of bs @ ys) n (v\<lparr>io_state := BZ_S_OUTPUT\<rparr>)"
  proof (cases "mode u = BZ_M_FINISHING")
    case True
    then have "z_final (bs @ bs') (v\<lparr>io_state := BZ_S_OUTPUT\<rparr>)"
      using v(4) f assms(8) by (intro sent_final [OF _ common v(3,5) lead u(8)]) simp_all
    then show ?thesis using v(2) after assms(9) by (auto simp: z_next_def)
  next
    case False
    then have m: "mode u = BZ_M_FLUSHING" using assms(7) f by simp
    then have "z_output (bs @ bs') (replicate (state_in_len u) (of_nat (state_in_ch u))) (v\<lparr>io_state := BZ_S_OUTPUT\<rparr>)"
      using v(4) f assms(8) False by (intro sent_output [OF _ common v(3,5) lead run(1)]) simp_all
    moreover have "isempty_RL (v\<lparr>io_state := BZ_S_OUTPUT\<rparr>)" using u(8) g by (simp add: isempty_RL_def)
    ultimately show ?thesis using v(2) run(2) m g
      unfolding z_next_def by (intro disjI2 exI [of _ "bs @ bs'"] exI [of _ "[]"]) simp
  qed
  then show ?thesis using u(1) v(1) after by blast
qed

lemma close_full:
  assumes "z_common bs s" "rl_inv ys s" "lead_ready s" "state_out_pos s = 0" "nblock s \<le> nblockMAX s + 4" "nblockMAX s \<le> nblock s"
    "emitted s @ lead_bits s = magic_bits (blockSize100k s) @ block_bits_of bs" "state_in_ch s < 256"
    and sort: "\<forall>u. 0 < nblock u \<and> nblock u \<le> 900000 \<longrightarrow> sorts blockSort u"
  shows "\<exists>v. BZ2_compressBlock blockSort False s = Some v
     \<and> z_next (bytes_of bs @ ys) (length ys) (v\<lparr>io_state := BZ_S_OUTPUT\<rparr>) \<and> kept s v \<and> next_in v = next_in s \<and> avail_in_expect v = avail_in_expect s"
proof -
  let ?N = "100000 * blockSize100k s"
  have s: "back_ready s" "nblockMAX s = ?N - 19" "1 \<le> blockSize100k s" using assms(1) by (simp_all add: z_common_def back_ready_def)
  obtain zs b where zs: "closed_runs (block_of s) zs b" "ys = zs @ replicate (state_in_len s) (of_nat (state_in_ch s))"
     "blockCRC s = fold BZ_UPDATE_CRC zs BZ_INITIALISE_CRC" "length (inUse s) = 256" "\<forall>c \<in> set (block_of s). inUse s ! unat c" "rl_run s"
    using assms(2) by (auto simp: rl_inv_def)
  have "0 < nblock s" "nblock s \<le> ?N" using assms(5,6) s(2,3) by linarith+
  then have "closed_block zs s"
    using zs(3-5) closed_runs_unrle [OF zs(1)] s assms(3,5,6) by (simp add: closed_block_def)
  from compress_any [OF disjI2 [OF this] sort, of False] obtain v bs' where v:
    "BZ2_compressBlock blockSort False s = Some v" "bytes_of bs' = zs" "blocks_code (blockSize100k s) bs'"
    "sent False s (block_bits_of bs') v" "combinedCRC v = fold add_crc (map fst bs') (combinedCRC s)" by blast
  have comp: "comp_frame s v" using v(4) by (simp add: sent_def)
  note g = comp_frame_fields [OF comp]
  have "\<not> isempty_RL s" using assms(8) zs(6) by (auto simp: isempty_RL_def rl_run_def)
  then have "z_output (bs @ bs') (replicate (state_in_len s) (of_nat (state_in_ch s))) (v\<lparr>io_state := BZ_S_OUTPUT\<rparr>)"
    by (intro sent_output [OF v(4) assms(1) v(3,5) assms(4,7) zs(6)]) simp
  then have "z_next (bytes_of bs @ ys) (length ys) (v\<lparr>io_state := BZ_S_OUTPUT\<rparr>)"
    unfolding z_next_def using v(2) zs(2) full_block_length [OF closed_runs_unrle [OF zs(1)], of "blockSize100k s"] assms(6) s(2) g
    by (intro disjI2 exI [of _ "bs @ bs'"] exI [of _ "replicate (state_in_len s) (of_nat (state_in_ch s))"]) simp
  then show ?thesis using v(1) g comp_frame_kept [OF comp] by blast
qed

lemma input_stage_ok:
  assumes "z_input bs cur s" "in_sync s" "mode s \<noteq> BZ_M_IDLE" "\<forall>u. 0 < nblock u \<and> nblock u \<le> 900000 \<longrightarrow> sorts blockSort u"
  shows "\<exists>stop t cs. input_stage blockSort p s = Some (stop, p \<or> cs \<noteq> [], t) \<and> next_in s = cs @ next_in t \<and> in_sync t
     \<and> mode t = mode s \<and> next_out t = next_out s \<and> avail_out t = avail_out s \<and> blockSize100k t = blockSize100k s
     \<and> (if stop then z_stopped t \<and> z_input bs (cur @ cs) t else z_next (bytes_of bs @ cur @ cs) (length (cur @ cs)) t)"
proof -
  let ?N = "100000 * blockSize100k s"
  have s: "z_common bs s" "io_state s = BZ_S_INPUT" "state_out_pos s = 0" "lead_ready s" "rl_inv cur s" "nblock s < nblockMAX s"
    "nblock s = 0 \<or> state_in_ch s < 256" "emitted s @ lead_bits s = magic_bits (blockSize100k s) @ block_bits_of bs"
    using assms(1) by (simp_all add: z_input_def)
  have "nblockMAX s + 4 \<le> arr2_bytes s" "nblock s \<le> nblockMAX s + 4"
    using s(1,6) by (simp_all add: z_common_def arr2_bytes_def BZ_N_OVERSHOOT_def)
  from copy_input_ok [OF s(5) this, of "next_in s" False] obtain t cs where
    t: "copy_input (next_in s) False s = Some (cs \<noteq> [], t)" "next_in s = cs @ next_in t" "rl_inv (cur @ cs) t" "nblock t \<le> nblockMAX s + 4"
       "stopped t" "in_frame s t" unfolding simp_thms by blast
  note f = in_frame_kept [OF t(6)] left_alone_frame [OF in_frame_kept(1) [OF t(6)]]
  have len: "length (inUse t) = 256" using t(3) by (simp add: rl_inv_def)
  have common: "z_common bs t" using s(1) f(1) f(5) len f(2) by (rule z_common_kept)
  have sync: "in_sync t"
    using assms(2) copy_input_sync [OF t(1)] t(2) f(8) by (auto simp: in_sync_def)
  have run: "nblock t = 0 \<or> state_in_ch t < 256" using copy_input_run [OF t(1) s(7)] .
  have lead: "lead_ready t" "state_out_pos t = 0" "nblock t \<le> nblockMAX t + 4"
     "emitted t @ lead_bits t = magic_bits (blockSize100k t) @ block_bits_of bs"
    using s(3,4,8) t(4) f by simp_all
  have copy: "copy_input_until_stop s = Some (cs \<noteq> [], t)" using t(1) by (simp add: copy_input_until_stop_def)
  consider "mode t \<noteq> BZ_M_RUNNING \<and> avail_in_expect t = 0"
    | "\<not> (mode t \<noteq> BZ_M_RUNNING \<and> avail_in_expect t = 0)" "nblockMAX t \<le> nblock t"
    | "\<not> (mode t \<noteq> BZ_M_RUNNING \<and> avail_in_expect t = 0)" "nblock t < nblockMAX t" by linarith
  then show ?thesis
  proof cases
    case 1
    then have "next_in t = []" using sync_zero [OF sync] by simp
    moreover have "mode t = BZ_M_FLUSHING \<or> mode t = BZ_M_FINISHING" using 1 assms(3) f(8) by (cases "mode t") simp_all
    ultimately obtain u v where u: "flush_RL t = Some u" "BZ2_compressBlock blockSort (mode u = BZ_M_FINISHING) u = Some v"
       "z_next (bytes_of bs @ cur @ cs) (length (cur @ cs)) (v\<lparr>io_state := BZ_S_OUTPUT\<rparr>)" "kept t v" "next_in v = next_in t" "avail_in_expect v = avail_in_expect t"
      using close_flushed [OF common t(3) lead(1,2,3,4)] 1 assms(4) by blast
    let ?v = "v\<lparr>io_state := BZ_S_OUTPUT\<rparr>"
    have "input_stage blockSort p s = Some (False, p \<or> cs \<noteq> [], ?v)"
      using s(2) copy 1 u(1,2) by (simp add: input_stage_def Let_def)
    moreover have "in_sync ?v" using sync u(4-6) by (simp add: in_sync_def kept_def)
    ultimately show ?thesis using t(2) u(3-5) f
      by (intro exI [of _ False] exI [of _ ?v] exI [of _ cs]) (simp add: kept_def)
  next
    case 2
    have "cs \<noteq> []"
    proof
      assume "cs = []"
      then have "nblock t = nblock s" using copy_input_nothing t(1) by simp
      then show False using 2(2) s(6) f by simp
    qed
    have "0 < nblockMAX t" using s(6) f by simp
    then have "state_in_ch t < 256" using run 2(2) by linarith
    from close_full [OF common t(3) lead(1,2,3) 2(2) lead(4) this assms(4)] obtain v where v: "BZ2_compressBlock blockSort False t = Some v"
       "z_next (bytes_of bs @ cur @ cs) (length (cur @ cs)) (v\<lparr>io_state := BZ_S_OUTPUT\<rparr>)" "kept t v" "next_in v = next_in t" "avail_in_expect v = avail_in_expect t"
      by blast
    let ?v = "v\<lparr>io_state := BZ_S_OUTPUT\<rparr>"
    have "input_stage blockSort p s = Some (False, p \<or> cs \<noteq> [], ?v)"
      using s(2) copy 2 v(1) by (auto simp: input_stage_def Let_def)
    moreover have "in_sync ?v" using sync v(3-5) by (simp add: in_sync_def kept_def)
    ultimately show ?thesis using t(2) v f \<open>cs \<noteq> []\<close>
      by (intro exI [of _ False] exI [of _ ?v] exI [of _ cs]) (simp add: kept_def)
  next
    case 3
    then have "next_in t = []" using t(5) by (auto simp: stopped_def)
    then have m: "mode t = BZ_M_RUNNING" using 3(1) sync_zero [OF sync] by blast
    have "input_stage blockSort p s = Some (True, p \<or> cs \<noteq> [], t)"
      using s(2) copy 3 \<open>next_in t = []\<close> by (auto simp: input_stage_def Let_def)
    moreover have "z_input bs (cur @ cs) t"
      using common lead t(3) 3(2) run f s(2) by (simp add: z_input_def)
    moreover have "z_stopped t" using m \<open>next_in t = []\<close> f s(2) by (simp add: z_stopped_def)
    ultimately show ?thesis using t(2) sync f
      by (intro exI [of _ True] exI [of _ t] exI [of _ cs]) simp
  qed
qed

section \<open>The loop\<close>

text \<open>There is room for the block that is output and for the input that is left, with the \<open>m\<close> bytes of the run.\<close>

definition z_room :: "nat \<Rightarrow> 'a zstate_scheme \<Rightarrow> bool" where
  "z_room m s \<longleftrightarrow> block_bytes (blockSize100k s) + enough_room (blockSize100k s) (m + length (next_in s)) \<le> avail_out s"

definition handled :: "u8 list \<Rightarrow> bool \<Rightarrow> 'a zstate_scheme \<Rightarrow> (bool \<times> 'a zstate_scheme) option \<Rightarrow> bool" where
  "handled xs p s m \<longleftrightarrow> (\<exists>t ds w. m = Some (p \<or> ds \<noteq> [] \<or> w \<noteq> [], t) \<and> next_in s = ds @ next_in t \<and> next_out t = next_out s @ w
     \<and> z_inv (xs @ ds) t \<and> in_sync t \<and> mode t = mode s \<and> z_stopped t \<and> avail_out s = avail_out t + length w)"

lemma handled_from:
  assumes "handled (xs @ cs) (p \<or> cs \<noteq> [] \<or> v \<noteq> []) t m" "next_in s = cs @ next_in t" "next_out t = next_out s @ v" "mode t = mode s"
    "avail_out s = avail_out t + length v"
  shows "handled xs p s m"
proof -
  obtain u ds w where "m = Some ((p \<or> cs \<noteq> [] \<or> v \<noteq> []) \<or> ds \<noteq> [] \<or> w \<noteq> [], u)" "next_in t = ds @ next_in u" "next_out u = next_out t @ w"
     "z_inv ((xs @ cs) @ ds) u" "in_sync u" "mode u = mode t" "z_stopped u" "avail_out t = avail_out u + length w"
    using assms(1) by (auto simp: handled_def)
  then show ?thesis using assms(2-5) unfolding handled_def
    by (intro exI [of _ u] exI [of _ "cs @ ds"] exI [of _ "v @ w"]) auto
qed

lemma in_sync_alone: "in_sync s \<Longrightarrow> left_alone s t \<Longrightarrow> in_sync t"
  by (simp add: in_sync_def left_alone_def)

lemma loop_final:
  assumes "z_final bs s" "in_sync s"
  shows "handled (bytes_of bs) (pi \<or> po) s (handle_loop blockSort pi po s)
     \<and> (block_bytes (blockSize100k s) \<le> avail_out s \<longrightarrow> (\<exists>p t. handle_loop blockSort pi po s = Some (p, t) \<and> state_out_pos t = numZ t))"
proof -
  obtain t w where t: "output_stage po s = Some (True, po \<or> w \<noteq> [], t)" "next_out t = next_out s @ w" "left_alone s t" "z_final bs t" "z_stopped t"
     "block_bytes (blockSize100k s) \<le> avail_out s \<longrightarrow> state_out_pos t = numZ t" "avail_out s = avail_out t + length w"
    using output_stage_final [OF assms(1)] by blast
  have "handle_loop blockSort pi po s = Some (pi \<or> po \<or> w \<noteq> [], t)"
    by (subst handle_loop.simps) (simp add: t(1))
  moreover have "z_inv (bytes_of bs) t" using t(4) by (auto simp: z_inv_def)
  ultimately show ?thesis using t in_sync_alone [OF assms(2) t(3)] unfolding handled_def left_alone_def
    by (intro conjI exI [of _ t] exI [of _ "[]"] exI [of _ w]) auto
qed

text \<open>One round from a block that is output; \<open>z_input\<close> is reached, or the loop is left.\<close>

lemma loop_output:
  assumes "z_output bs cur s" "in_sync s"
    and "\<And>t po. z_input bs cur t \<Longrightarrow> in_sync t \<Longrightarrow> left_alone s t \<Longrightarrow> avail_out s \<le> avail_out t + block_bytes (blockSize100k s) \<Longrightarrow>
       (mode t = BZ_M_FLUSHING \<Longrightarrow> avail_in_expect t \<noteq> 0 \<or> \<not> isempty_RL t) \<Longrightarrow>
       handled (bytes_of bs @ cur) (pi \<or> po) t (handle_loop blockSort pi po t)
        \<and> (mode s = BZ_M_FINISHING \<and> z_room (length cur) s \<longrightarrow> (\<exists>p u. handle_loop blockSort pi po t = Some (p, u) \<and> state_out_pos u = numZ u))"
  shows "handled (bytes_of bs @ cur) (pi \<or> po) s (handle_loop blockSort pi po s)
     \<and> (mode s = BZ_M_FINISHING \<and> z_room (length cur) s \<longrightarrow> (\<exists>p u. handle_loop blockSort pi po s = Some (p, u) \<and> state_out_pos u = numZ u))"
proof -
  obtain stop t w where t: "output_stage po s = Some (stop, po \<or> w \<noteq> [], t)" "next_out t = next_out s @ w" "left_alone s t"
     "avail_out s \<le> avail_out t + block_bytes (blockSize100k s)"
     "if stop then z_stopped t \<and> (z_output bs cur t \<or> z_input bs cur t) \<and> (mode s = BZ_M_FINISHING \<longrightarrow> avail_out t = 0)
        else z_input bs cur t \<and> (mode t = BZ_M_FLUSHING \<longrightarrow> avail_in_expect t \<noteq> 0 \<or> \<not> isempty_RL t)"
     "avail_out s = avail_out t + length w"
    using output_stage_block [OF assms(1)] by blast
  note sync = in_sync_alone [OF assms(2) t(3)]
  show ?thesis
  proof (cases stop)
    case True
    then have "handle_loop blockSort pi po s = Some (pi \<or> po \<or> w \<noteq> [], t)"
      by (subst handle_loop.simps) (simp add: t(1))
    moreover have "z_inv (bytes_of bs @ cur) t" using t(5) True by (auto simp: z_inv_def)
    moreover have "\<not> (mode s = BZ_M_FINISHING \<and> z_room (length cur) s)"
    proof
      assume m: "mode s = BZ_M_FINISHING \<and> z_room (length cur) s"
      then have "avail_out s \<le> block_bytes (blockSize100k s)" using t(4,5) True by simp
      moreover have "0 < enough_room (blockSize100k s) (length cur + length (next_in s))"
        by (simp add: enough_room_def block_bytes_def)
      ultimately show False using m unfolding z_room_def by linarith
    qed
    ultimately show ?thesis using t sync True unfolding handled_def left_alone_def
      by (intro conjI exI [of _ t] exI [of _ "[]"] exI [of _ w]) auto
  next
    case False
    then have z: "z_input bs cur t" "mode t = BZ_M_FLUSHING \<Longrightarrow> avail_in_expect t \<noteq> 0 \<or> \<not> isempty_RL t" using t(5) by simp_all
    have "io_state t = BZ_S_INPUT" using z(1) by (simp add: z_input_def)
    then have "output_stage (po \<or> w \<noteq> []) t = Some (False, po \<or> w \<noteq> [], t)" by (simp add: output_stage_def)
    then have eq: "handle_loop blockSort pi po s = handle_loop blockSort pi (po \<or> w \<noteq> []) t"
      using False by (subst (1 2) handle_loop.simps) (simp add: t(1))
    have next_t: "handled (bytes_of bs @ cur) (pi \<or> po \<or> w \<noteq> []) t (handle_loop blockSort pi (po \<or> w \<noteq> []) t)
        \<and> (mode s = BZ_M_FINISHING \<and> z_room (length cur) s \<longrightarrow> (\<exists>p u. handle_loop blockSort pi (po \<or> w \<noteq> []) t = Some (p, u) \<and> state_out_pos u = numZ u))"
      using assms(3) [OF z(1) sync t(3,4) z(2)] by simp
    have "handled (bytes_of bs @ cur) (pi \<or> po) s (handle_loop blockSort pi (po \<or> w \<noteq> []) t)"
      by (rule handled_from [where xs = "bytes_of bs @ cur" and cs = "[]" and v = w and t = t]) (use conjunct1 [OF next_t] t(2,3,6) in \<open>simp_all add: left_alone_def\<close>)
    then show ?thesis using next_t unfolding eq by blast
  qed
qed

text \<open>A round that begins with input.\<close>

lemma loop_input:
  assumes "z_input bs cur s" "in_sync s" "mode s \<noteq> BZ_M_IDLE" and sort: "\<forall>u. 0 < nblock u \<and> nblock u \<le> 900000 \<longrightarrow> sorts blockSort u"
  shows "handled (bytes_of bs @ cur) (pi \<or> po) s (handle_loop blockSort pi po s)
     \<and> (mode s = BZ_M_FINISHING \<and> enough_room (blockSize100k s) (length (cur @ next_in s)) \<le> avail_out s \<longrightarrow>
          (\<exists>p u. handle_loop blockSort pi po s = Some (p, u) \<and> state_out_pos u = numZ u))"
  using assms(1-3)
proof (induction "length (cur @ next_in s)" arbitrary: bs cur s pi po rule: less_induct)
  case less
  have "io_state s = BZ_S_INPUT" using less.prems by (simp add: z_input_def)
  then have out: "output_stage po s = Some (False, po, s)" by (simp add: output_stage_def)
  obtain stop t cs where t: "input_stage blockSort pi s = Some (stop, pi \<or> cs \<noteq> [], t)" "next_in s = cs @ next_in t" "in_sync t"
     "mode t = mode s" "next_out t = next_out s" "avail_out t = avail_out s" "blockSize100k t = blockSize100k s"
     "if stop then z_stopped t \<and> z_input bs (cur @ cs) t else z_next (bytes_of bs @ cur @ cs) (length (cur @ cs)) t"
    using input_stage_ok [OF less.prems sort] by blast
  let ?xs = "bytes_of bs @ cur" and ?Q = "\<lambda>m. \<exists>p u. m = Some (p, u) \<and> state_out_pos u = numZ u"
  show ?case
  proof (cases stop)
    case True
    then have h: "handle_loop blockSort pi po s = Some (pi \<or> cs \<noteq> [] \<or> po, t)"
      by (subst handle_loop.simps) (simp add: out t(1) disj_commute disj_left_commute)
    moreover have "z_inv (?xs @ cs) t" using t(8) True by (auto simp: z_inv_def)
    moreover have "io_state t = BZ_S_INPUT" "z_stopped t" using t(8) True by (simp_all add: z_input_def)
    then have "mode s \<noteq> BZ_M_FINISHING" using t(4) by (auto simp: z_stopped_def)
    ultimately show ?thesis using t True unfolding handled_def
      by (intro conjI exI [of _ t] exI [of _ cs] exI [of _ "[]"]) auto
  next
    case False
    have h: "handle_loop blockSort pi po s = handle_loop blockSort (pi \<or> cs \<noteq> []) po t"
      using False by (subst handle_loop.simps) (simp add: out t(1))
    have from_t: "handled ?xs (pi \<or> po) s (handle_loop blockSort (pi \<or> cs \<noteq> []) po t)"
      if "handled (?xs @ cs) ((pi \<or> cs \<noteq> []) \<or> po) t (handle_loop blockSort (pi \<or> cs \<noteq> []) po t)"
      by (rule handled_from [where xs = ?xs and cs = cs and v = "[]" and t = t]) (use that t(2,4,5,6) in \<open>simp_all add: disj_commute disj_left_commute\<close>)
    from t(8) False have "z_next (?xs @ cs) (length (cur @ cs)) t" by simp
    then consider bs' where "z_final bs' t" "bytes_of bs' = ?xs @ cs"
      | bs' run where "z_output bs' run t" "bytes_of bs' @ run = ?xs @ cs" 
          "isempty_RL t \<and> mode t = BZ_M_FLUSHING \<or> length run + block_input (blockSize100k t) \<le> length (cur @ cs)"
      by (auto simp: z_next_def)
    then show ?thesis
    proof cases
      case 1
      have room: "block_bytes (blockSize100k t) \<le> avail_out t" if "enough_room (blockSize100k s) (length (cur @ next_in s)) \<le> avail_out s"
        using that t(6,7) enough_room_least [of "blockSize100k s" "length (cur @ next_in s)"] by simp
      from loop_final [OF 1(1) t(3), of "pi \<or> cs \<noteq> []" po blockSort]
      show ?thesis unfolding h using from_t 1(2) room by auto
    next
      case 2
      have "handled (bytes_of bs' @ run) ((pi \<or> cs \<noteq> []) \<or> po) t (handle_loop blockSort (pi \<or> cs \<noteq> []) po t)
        \<and> (mode t = BZ_M_FINISHING \<and> z_room (length run) t \<longrightarrow> ?Q (handle_loop blockSort (pi \<or> cs \<noteq> []) po t))"
      proof (rule loop_output [OF 2(1) t(3)])
        fix u po' assume u: "z_input bs' run u" "in_sync u" "left_alone t u" "avail_out t \<le> avail_out u + block_bytes (blockSize100k t)"
          and fl: "mode u = BZ_M_FLUSHING \<Longrightarrow> avail_in_expect u \<noteq> 0 \<or> \<not> isempty_RL u"
        have "avail_in_expect t = 0" if "isempty_RL t" using 2(1) that by (simp add: z_output_def)
        then have "length run + block_input (blockSize100k t) \<le> length (cur @ cs)" using 2(3) fl u(3) by (auto simp: left_alone_def)
        moreover have "0 < block_input (blockSize100k t)" using 2(1) by (simp add: z_output_def z_common_def back_ready_def block_input_def)
        ultimately have less: "length (run @ next_in u) < length (cur @ next_in s)" using t(2) u(3) by (simp add: left_alone_def)
        have m: "mode u \<noteq> BZ_M_IDLE" "mode u = mode s" "next_in u = next_in t" "blockSize100k u = blockSize100k t" using less.prems(3) t(4) u(3) by (simp_all add: left_alone_def)
        have room: "enough_room (blockSize100k u) (length (run @ next_in u)) \<le> avail_out u" if "z_room (length run) t"
          using that u(4) m(3,4) by (simp add: z_room_def)
        from less.hyps [OF less u(1,2) m(1), of "pi \<or> cs \<noteq> []" po']
        show "handled (bytes_of bs' @ run) ((pi \<or> cs \<noteq> []) \<or> po') u (handle_loop blockSort (pi \<or> cs \<noteq> []) po' u)
          \<and> (mode t = BZ_M_FINISHING \<and> z_room (length run) t \<longrightarrow> ?Q (handle_loop blockSort (pi \<or> cs \<noteq> []) po' u))"
          using room m(2) t(4) by auto
      qed
      moreover have "z_room (length run) t" if "enough_room (blockSize100k s) (length (cur @ next_in s)) \<le> avail_out s" "mode s = BZ_M_FINISHING"
      proof -
        have "1 \<le> blockSize100k t" using 2(1) by (simp add: z_output_def z_common_def back_ready_def)
        moreover have "length run + length (next_in t) + block_input (blockSize100k t) \<le> length (cur @ next_in s)"
          using 2(3) that(2) t(2,4) by auto
        ultimately show ?thesis using that(1) t(6,7) enough_room_step unfolding z_room_def by (metis le_trans)
      qed
      ultimately show ?thesis unfolding h using from_t 2(2) t(4) by auto
    qed
  qed
qed

text \<open>\<open>handle_compress\<close> in any state.\<close>

lemma handle_ok:
  assumes "z_inv xs s" "in_sync s" "mode s \<noteq> BZ_M_IDLE" and sort: "\<forall>u. 0 < nblock u \<and> nblock u \<le> 900000 \<longrightarrow> sorts blockSort u"
  shows "handled xs False s (handle_compress blockSort s)"
proof -
  have input: "handled (bytes_of bs @ cur) (False \<or> po) u (handle_loop blockSort False po u)"
    if "z_input bs cur u" "in_sync u" "mode u \<noteq> BZ_M_IDLE" for bs cur po u
    using loop_input [OF that sort] by blast
  from assms(1) consider bs cur where "z_input bs cur s" "xs = bytes_of bs @ cur"
    | bs cur where "z_output bs cur s" "xs = bytes_of bs @ cur" | bs where "z_final bs s" "xs = bytes_of bs"
    by (auto simp: z_inv_def)
  then show ?thesis
  proof cases
    case 1
    then show ?thesis using input [OF 1(1) assms(2,3), of False] by (simp add: handle_compress_def)
  next
    case 2
    have "handled (bytes_of bs @ cur) (False \<or> False) s (handle_loop blockSort False False s)"
    proof -
      obtain stop t w where t: "output_stage False s = Some (stop, False \<or> w \<noteq> [], t)" "next_out t = next_out s @ w" "left_alone s t"
         "if stop then z_stopped t \<and> (z_output bs cur t \<or> z_input bs cur t) else z_input bs cur t" "avail_out s = avail_out t + length w"
        using output_stage_block [OF 2(1), of False] by (auto split: if_splits)
      note sync = in_sync_alone [OF assms(2) t(3)]
      show ?thesis
      proof (cases stop)
        case True
        then have "handle_loop blockSort False False s = Some (w \<noteq> [], t)"
          by (subst handle_loop.simps) (use t(1) in simp)
        moreover have "z_inv (bytes_of bs @ cur) t" using t(4) True by (auto simp: z_inv_def)
        ultimately show ?thesis using t sync True unfolding handled_def left_alone_def
          by (intro exI [of _ t] exI [of _ "[]"] exI [of _ w]) auto
      next
        case False
        then have z: "z_input bs cur t" using t(4) by simp
        have "io_state t = BZ_S_INPUT" using z by (simp add: z_input_def)
        then have "output_stage (w \<noteq> []) t = Some (False, w \<noteq> [], t)" by (simp add: output_stage_def)
        then have eq: "handle_loop blockSort False False s = handle_loop blockSort False (w \<noteq> []) t"
          using False t(1) by (subst (1 2) handle_loop.simps) simp
        have "mode t \<noteq> BZ_M_IDLE" using assms(3) t(3) by (simp add: left_alone_def)
        from input [OF z sync this, of "w \<noteq> []"]
        have "handled ((bytes_of bs @ cur) @ []) ((False \<or> False) \<or> [] \<noteq> ([] :: u8 list) \<or> w \<noteq> []) t (handle_loop blockSort False (w \<noteq> []) t)"
          by simp
        then show ?thesis
          unfolding eq by (rule handled_from) (use t(2,3,5) in \<open>simp_all add: left_alone_def\<close>)
      qed
    qed
    then show ?thesis using 2(2) by (simp add: handle_compress_def)
  next
    case 3
    then show ?thesis using loop_final [OF 3(1) assms(2), of False False] by (simp add: handle_compress_def)
  qed
qed

section \<open>A call\<close>

text \<open>The stream is idle, and its output is the code of the input; or it goes on.\<close>

definition z_state :: "u8 list \<Rightarrow> 'a zstate_scheme \<Rightarrow> bool" where
  "z_state xs s \<longleftrightarrow> (if mode s = BZ_M_IDLE then stream_code xs (next_out s) else z_inv xs s)"

lemma z_mode_update:
  fixes s :: "'a zstate_scheme" and e :: u32 and m :: bz_mode
  defines "t \<equiv> s\<lparr>avail_in_expect := e, mode := m\<rparr>"
  shows "z_common bs t = z_common bs s" "emitted t = emitted s" "lead_bits t = lead_bits s" "lead_ready t = lead_ready s"
    "zbytes t = zbytes s" "bs_inv t = bs_inv s" "rl_run t = rl_run s" "isempty_RL t = isempty_RL s" "rl_inv cur t = rl_inv cur s"
  by (simp_all add: t_def z_common_def back_ready_def back_shape_def tables_shape_def emitted_def lead_bits_def lead_ready_def zbytes_def
      bs_inv_def arr2_bytes_def rl_run_def isempty_RL_def rl_inv_def block_of_def)

lemma z_input_mode: "z_input bs cur s \<Longrightarrow> z_input bs cur (s\<lparr>avail_in_expect := e, mode := m\<rparr>)"
  by (simp add: z_input_def z_mode_update)

lemma z_inv_mode:
  assumes "z_inv xs s" "mode s = BZ_M_RUNNING"
  shows "z_inv xs (s\<lparr>avail_in_expect := e, mode := m\<rparr>)"
proof -
  have "z_output bs cur s \<Longrightarrow> z_output bs cur (s\<lparr>avail_in_expect := e, mode := m\<rparr>)" for bs cur
    using assms(2) by (auto simp: z_output_def z_mode_update)
  moreover have "\<not> z_final bs s" for bs using assms(2) by (simp add: z_final_def)
  ultimately show ?thesis using assms(1) z_input_mode unfolding z_inv_def by blast
qed

text \<open>What a call does.\<close>

definition called :: "u8 list \<Rightarrow> 'a zstate_scheme \<Rightarrow> (bz_ret \<times> 'a zstate_scheme) option \<Rightarrow> bool" where
  "called xs s m \<longleftrightarrow> (\<exists>r t ds. m = Some (r, t) \<and> next_in s = ds @ next_in t \<and> z_state (xs @ ds) t \<and> (r = BZ_STREAM_END \<longrightarrow> mode t = BZ_M_IDLE \<and> next_in t = []))"

lemma calledI: "z_state xs s \<Longrightarrow> r \<noteq> BZ_STREAM_END \<Longrightarrow> called xs s (Some (r, s))"
  by (auto simp: called_def)

lemma in_sync_here: "length (next_in s) < 2 ^ 32 \<Longrightarrow> avail_in_expect s = of_nat (length (next_in s)) \<or> mode s = BZ_M_RUNNING \<Longrightarrow> in_sync s"
  by (auto simp: in_sync_def)

lemma unfinished_iff: "\<not> unfinished s \<longleftrightarrow> avail_in_expect s = 0 \<and> isempty_RL s \<and> numZ s \<le> state_out_pos s"
  by (auto simp: unfinished_def word_gt_0)

lemma do_flush_called:
  assumes "z_inv xs s" "mode s = BZ_M_FLUSHING" "length (next_in s) < 2 ^ 32"
    and sort: "\<forall>u. 0 < nblock u \<and> nblock u \<le> 900000 \<longrightarrow> sorts blockSort u"
  shows "called xs s (do_flush blockSort action s)"
proof (cases "action = BZ_FLUSH \<and> avail_in_expect s = of_nat (length (next_in s))")
  case False
  have "z_state xs s" using assms(1,2) by (simp add: z_state_def)
  then show ?thesis using False by (auto simp: do_flush_def intro: calledI)
next
  case True
  then have "in_sync s" using assms(3) by (intro in_sync_here) simp_all
  from handle_ok [OF assms(1) this _ sort] assms(2) obtain p t ds where t: "handle_compress blockSort s = Some (p, t)"
     "next_in s = ds @ next_in t" "z_inv (xs @ ds) t" "in_sync t" "mode t = BZ_M_FLUSHING" "z_stopped t"
    by (auto simp: handled_def)
  show ?thesis
  proof (cases "unfinished t")
    case True
    then have "do_flush blockSort action s = Some (BZ_FLUSH_OK, t)"
      using t(1) \<open>action = BZ_FLUSH \<and> _\<close> by (simp add: do_flush_def)
    then show ?thesis using t by (auto simp: called_def z_state_def)
  next
    case False
    let ?t = "t\<lparr>mode := BZ_M_RUNNING\<rparr>"
    have "do_flush blockSort action s = Some (BZ_RUN_OK, ?t)"
      using t(1) False True by (simp add: do_flush_def)
    moreover have "io_state t = BZ_S_INPUT"
      using t(5,6) False unfolding unfinished_iff by (auto simp: z_stopped_def)
    then obtain bs cur where z: "z_input bs cur t" "xs @ ds = bytes_of bs @ cur"
      using t(3) by (auto simp: z_inv_def z_output_def z_final_def)
    then have "z_input bs cur ?t" using z_input_mode [where s = t and e = "avail_in_expect t" and m = BZ_M_RUNNING] by simp
    then have "z_inv (xs @ ds) ?t" using z(2) by (auto simp: z_inv_def)
    ultimately show ?thesis using t(2) by (auto simp: called_def z_state_def)
  qed
qed

lemma do_finish_called:
  assumes "z_inv xs s" "mode s = BZ_M_FINISHING" "length (next_in s) < 2 ^ 32"
    and sort: "\<forall>u. 0 < nblock u \<and> nblock u \<le> 900000 \<longrightarrow> sorts blockSort u"
  shows "called xs s (do_finish blockSort action s)"
proof (cases "action = BZ_FINISH \<and> avail_in_expect s = of_nat (length (next_in s))")
  case False
  have "z_state xs s" using assms(1,2) by (simp add: z_state_def)
  then show ?thesis using False by (auto simp: do_finish_def intro: calledI)
next
  case True
  then have "in_sync s" using assms(3) by (intro in_sync_here) simp_all
  from handle_ok [OF assms(1) this _ sort] assms(2) obtain p t ds where t: "handle_compress blockSort s = Some (p, t)"
     "next_in s = ds @ next_in t" "z_inv (xs @ ds) t" "in_sync t" "mode t = BZ_M_FINISHING" "z_stopped t"
    by (auto simp: handled_def)
  have eq: "do_finish blockSort action s = Some (if \<not> p then (BZ_SEQUENCE_ERROR, t) else if unfinished t then (BZ_FINISH_OK, t)
      else (BZ_STREAM_END, t\<lparr>mode := BZ_M_IDLE\<rparr>))"
    using t(1) True by (simp add: do_finish_def)
  show ?thesis
  proof (cases "\<not> p \<or> unfinished t")
    case True
    then show ?thesis using t unfolding eq by (auto simp: called_def z_state_def)
  next
    case False
    then have "isempty_RL t" "numZ t \<le> state_out_pos t" using unfinished_iff [of t] by simp_all
    then have f: "state_out_pos t = numZ t" "io_state t = BZ_S_OUTPUT" "isempty_RL t"
      using t(5,6) by (auto simp: z_stopped_def)
    then obtain bs where bs: "z_final bs t" "xs @ ds = bytes_of bs"
      using t(3,5) by (auto simp: z_inv_def z_input_def z_output_def)
    then obtain k where k: "k < 8" "emitted t = magic_bits (blockSize100k t) @ rest_bits 0 bs @ replicate k False"
        "1 \<le> blockSize100k t" "blockSize100k t \<le> 9" "blocks_code (blockSize100k t) bs"
      using f(1) by (auto simp: z_final_def z_common_def back_ready_def)
    then have "stream_code (xs @ ds) (next_out t)" using bs(2) by (auto simp: stream_code_def emitted_def)
    moreover have "next_in t = []" using sync_zero [OF t(4)] t(5) False by (simp add: unfinished_iff)
    ultimately show ?thesis using False t(2) unfolding eq by (auto simp: called_def z_state_def)
  qed
qed

lemma bzCompress_called:
  assumes "z_state xs s" "length (next_in s) < 2 ^ 32"
    and sort: "\<forall>u. 0 < nblock u \<and> nblock u \<le> 900000 \<longrightarrow> sorts blockSort u"
  shows "called xs s (BZ2_bzCompress blockSort action s)"
proof (cases "mode s")
  case BZ_M_IDLE
  then show ?thesis using assms(1) by (simp add: BZ2_bzCompress_def calledI)
next
  case BZ_M_RUNNING
  then have inv: "z_inv xs s" using assms(1) by (simp add: z_state_def)
  have from_mode: "called xs s m" if "called xs (s\<lparr>avail_in_expect := e, mode := md\<rparr>) m" for e md m
    using that by (simp add: called_def)
  consider "action = BZ_RUN" | "action = BZ_FLUSH" "action \<noteq> BZ_RUN" | "action = BZ_FINISH" "action \<noteq> BZ_RUN" "action \<noteq> BZ_FLUSH"
    | "action \<noteq> BZ_RUN" "action \<noteq> BZ_FLUSH" "action \<noteq> BZ_FINISH" by blast
  then show ?thesis
  proof cases
    case 1
    have "in_sync s" using assms(2) BZ_M_RUNNING by (intro in_sync_here) simp_all
    from handle_ok [OF inv this _ sort] BZ_M_RUNNING obtain p t ds where "handle_compress blockSort s = Some (p, t)"
       "next_in s = ds @ next_in t" "z_inv (xs @ ds) t" "mode t = BZ_M_RUNNING"
      by (auto simp: handled_def)
    then show ?thesis using 1 BZ_M_RUNNING by (auto simp: BZ2_bzCompress_def called_def z_state_def)
  next
    case 2
    have "called xs (s\<lparr>avail_in_expect := of_nat (length (next_in s)), mode := BZ_M_FLUSHING\<rparr>)
       (do_flush blockSort action (s\<lparr>avail_in_expect := of_nat (length (next_in s)), mode := BZ_M_FLUSHING\<rparr>))"
      using z_inv_mode [OF inv BZ_M_RUNNING] assms(2) by (intro do_flush_called sort) simp_all
    then show ?thesis using 2 BZ_M_RUNNING from_mode by (simp add: BZ2_bzCompress_def)
  next
    case 3
    have "called xs (s\<lparr>avail_in_expect := of_nat (length (next_in s)), mode := BZ_M_FINISHING\<rparr>)
       (do_finish blockSort action (s\<lparr>avail_in_expect := of_nat (length (next_in s)), mode := BZ_M_FINISHING\<rparr>))"
      using z_inv_mode [OF inv BZ_M_RUNNING] assms(2) by (intro do_finish_called sort) simp_all
    then show ?thesis using 3 BZ_M_RUNNING from_mode by (simp add: BZ2_bzCompress_def)
  next
    case 4
    then show ?thesis using BZ_M_RUNNING assms(1) by (simp add: BZ2_bzCompress_def calledI)
  qed
next
  case BZ_M_FLUSHING
  then show ?thesis using assms do_flush_called by (simp add: BZ2_bzCompress_def z_state_def)
next
  case BZ_M_FINISHING
  then show ?thesis using assms do_finish_called by (simp add: BZ2_bzCompress_def z_state_def)
qed

end
