(* ===== verification/BzBuffers.thy ===== *)
theory BzBuffers
  imports BzWriter
begin

text \<open>
  The use of the library (\<open>benchmarks/wasi/bzip2/bzlib.c\<close>): a stream that is compressed with any sequence of
  calls and decompressed with any sequence of calls, and the functions on whole buffers,
  \<open>BZ2_bzBuffToBuffCompress\<close> and \<open>BZ2_bzBuffToBuffDecompress\<close>, which the benchmark drivers call.
\<close>

section \<open>The code\<close>

text \<open>
  [bzip2/bzlib.c 1261-1294 BZ2_bzBuffToBuffCompress] The pointers are not null. The result is the code that is
  returned and the bytes that were written to \<open>dest\<close>, whose number is the new \<open>*destLen\<close> when the code is
  \<open>BZ_OK\<close>. The new state is a parameter, as in \<open>BZ2_bzCompressInit\<close>.
\<close>

definition BZ2_bzBuffToBuffCompress ::
    "(zstate \<Rightarrow> zstate option) \<Rightarrow> zstate option \<Rightarrow> nat \<Rightarrow> u8 list \<Rightarrow> int \<Rightarrow> int \<Rightarrow> int \<Rightarrow> (bz_ret \<times> u8 list) option" where
  "BZ2_bzBuffToBuffCompress blockSort fresh destLen source blockSize verbosity factor =
     (if blockSize < 1 \<or> blockSize > 9 \<or> verbosity < 0 \<or> verbosity > 4 \<or> factor < 0 \<or> factor > 250 then Some (BZ_PARAM_ERROR, [])
      else do { (ret, strm) \<leftarrow> BZ2_bzCompressInit fresh blockSize (if factor = 0 then 30 else factor);
                case strm of
                  None \<Rightarrow> Some (ret, [])
                | Some s \<Rightarrow>
                    do { (ret, s) \<leftarrow> BZ2_bzCompress blockSort BZ_FINISH (s\<lparr>next_in := source, next_out := [], avail_out := destLen\<rparr>);
                         Some (if ret = BZ_FINISH_OK then BZ_OUTBUFF_FULL else if ret \<noteq> BZ_STREAM_END then ret else BZ_OK, next_out s) } })"

text \<open>[bzip2/bzlib.c 1312-1347 BZ2_bzBuffToBuffDecompress]\<close>

definition BZ2_bzBuffToBuffDecompress ::
    "(nat \<Rightarrow> bool) \<Rightarrow> dstate option \<Rightarrow> nat \<Rightarrow> u8 list \<Rightarrow> int \<Rightarrow> int \<Rightarrow> (bz_ret \<times> u8 list) option" where
  "BZ2_bzBuffToBuffDecompress alloc fresh destLen source small verbosity =
     (if small \<noteq> 0 \<and> small \<noteq> 1 \<or> verbosity < 0 \<or> verbosity > 4 then Some (BZ_PARAM_ERROR, [])
      else case BZ2_bzDecompressInit fresh verbosity small of
             (ret, None) \<Rightarrow> Some (ret, [])
           | (ret, Some (l, s)) \<Rightarrow>
               do { (ret, l, s) \<leftarrow> BZ2_bzDecompress alloc l (s\<lparr>d_next_in := source, d_next_out := [], d_avail_out := destLen\<rparr>);
                    Some (if ret = BZ_OK then (if d_avail_out s > 0 then BZ_UNEXPECTED_EOF else BZ_OUTBUFF_FULL)
                          else if ret \<noteq> BZ_STREAM_END then ret else BZ_OK, d_next_out s) })"

section \<open>Clients\<close>

text \<open>A client compresses: in every call it brings some more input, some more room, and an action.\<close>

fun compress_calls ::
    "(zstate \<Rightarrow> zstate option) \<Rightarrow> (u8 list \<times> nat \<times> int) list \<Rightarrow> zstate \<Rightarrow> (bz_ret list \<times> zstate) option" where
  "compress_calls blockSort [] s = Some ([], s)"
| "compress_calls blockSort ((bytes, room, action) # calls) s =
     do { (r, s) \<leftarrow> BZ2_bzCompress blockSort action (s\<lparr>next_in := next_in s @ bytes, avail_out := avail_out s + room\<rparr>);
          (rs, s) \<leftarrow> compress_calls blockSort calls s;
          Some (r # rs, s) }"

text \<open>A client decompresses: all the input is there, and in every call it brings some more room.\<close>

fun decompress_calls :: "(nat \<Rightarrow> bool) \<Rightarrow> nat list \<Rightarrow> d_label \<Rightarrow> dstate \<Rightarrow> (bz_ret list \<times> d_label \<times> dstate) option" where
  "decompress_calls alloc [] l s = Some ([], l, s)"
| "decompress_calls alloc (room # rooms) l s =
     do { (r, l, s) \<leftarrow> BZ2_bzDecompress alloc l (s\<lparr>d_avail_out := d_avail_out s + room\<rparr>);
          (rs, l, s) \<leftarrow> decompress_calls alloc rooms l s;
          Some (r # rs, l, s) }"

section \<open>The beginning of a stream\<close>

text \<open>The arrays of a new \<open>EState\<close> have their sizes; everything else in it is arbitrary.\<close>

definition e_arrays :: "zstate \<Rightarrow> bool" where
  "e_arrays s \<longleftrightarrow> back_shape s \<and> length (unseqToSeq s) = 256 \<and> length (inUse s) = 256"

lemma init_ok:
  assumes "e_arrays fresh" "1 \<le> b" "b \<le> 9" "0 \<le> factor" "factor \<le> 250"
  shows "\<exists>s. BZ2_bzCompressInit (Some fresh) b factor = Some (BZ_OK, Some s) \<and> mode s = BZ_M_RUNNING
     \<and> next_in s = next_in fresh \<and> avail_out s = avail_out fresh \<and> blockSize100k s = nat b
     \<and> (\<forall>xs n. z_input [] [] (s\<lparr>next_in := xs, next_out := [], avail_out := n\<rparr>))"
proof -
  define s0 where "s0 = init_RL (fresh\<lparr>blockNo := 0, io_state := BZ_S_INPUT, mode := BZ_M_RUNNING, combinedCRC := 0,
     blockSize100k := nat b, nblockMAX := 100000 * nat b - 19, workFactor := (if factor = 0 then 30 else factor), zbits := 0,
     total_in_lo32 := 0, total_in_hi32 := 0, total_out_lo32 := 0, total_out_hi32 := 0\<rparr>)"
  define s where "s = s0\<lparr>nblock := 0, numZ := 0, state_out_pos := 0, blockCRC := BZ_INITIALISE_CRC,
     inUse := replicate 256 False, blockNo := blockNo s0 + 1\<rparr>"
  have "length (inUse s0) = 256" using assms(1) by (simp add: s0_def init_RL_def e_arrays_def)
  then have "prepare_new_block s0 = Some s" unfolding s_def by (rule prepare_ok)
  then have init: "BZ2_bzCompressInit (Some fresh) b factor = Some (BZ_OK, Some s)"
    using assms(2-5) by (simp add: BZ2_bzCompressInit_def s0_def)
  have rl: "rl_inv [] (s\<lparr>next_in := xs, next_out := [], avail_out := n\<rparr>)" for xs n
    unfolding rl_inv_def
    by (intro conjI exI [of _ "[]"] exI [of _ None]) (simp_all add: s_def s0_def init_RL_def rl_run_def block_of_def closed_runs_Nil)
  have b: "1 \<le> nat b" "nat b \<le> 9" using assms(2,3) by linarith+
  have "z_input [] [] (s\<lparr>next_in := xs, next_out := [], avail_out := n\<rparr>)" for xs n
    using assms(1) b rl [where xs = xs and n = n]
    by (simp add: z_input_def)
      (simp add: z_common_def back_ready_def back_shape_def tables_shape_def s_def s0_def init_RL_def e_arrays_def blocks_code_def
        lead_ready_def emitted_def lead_bits_def)
  moreover have "mode s = BZ_M_RUNNING" "next_in s = next_in fresh" "avail_out s = avail_out fresh" "blockSize100k s = nat b"
    by (simp_all add: s_def s0_def init_RL_def)
  ultimately show ?thesis using init by blast
qed

section \<open>Sequences of calls\<close>

lemma z_state_feed: "z_state xs s \<Longrightarrow> z_state xs (s\<lparr>next_in := ys, avail_out := n\<rparr>)"
proof -
  let ?t = "s\<lparr>next_in := ys, avail_out := n\<rparr>"
  have same: "z_common bs ?t = z_common bs s" "emitted ?t = emitted s" "lead_bits ?t = lead_bits s" "lead_ready ?t = lead_ready s"
    "zbytes ?t = zbytes s" "bs_inv ?t = bs_inv s" "rl_run ?t = rl_run s" "isempty_RL ?t = isempty_RL s" "rl_inv cur ?t = rl_inv cur s"
    "arr2_bytes ?t = arr2_bytes s" "mode ?t = mode s" "next_out ?t = next_out s" for bs cur
    by (simp_all add: z_common_def back_ready_def back_shape_def tables_shape_def emitted_def lead_bits_def lead_ready_def zbytes_def
      bs_inv_def arr2_bytes_def rl_run_def isempty_RL_def rl_inv_def block_of_def)
  have "z_input bs cur ?t = z_input bs cur s" for bs cur by (simp add: z_input_def same(1-6,9))
  moreover have "z_output bs cur ?t = z_output bs cur s" for bs cur by (simp add: z_output_def same)
  moreover have "z_final bs ?t = z_final bs s" for bs by (simp add: z_final_def same)
  ultimately have "z_inv xs ?t = z_inv xs s" unfolding z_inv_def by presburger
  then show "z_state xs s \<Longrightarrow> z_state xs ?t" unfolding z_state_def same(11,12) by presburger
qed

lemma compress_calls_ok:
  assumes "z_state xs s" "length (next_in s @ concat (map fst calls)) < 2 ^ 32"
    and sort: "\<forall>u. 0 < nblock u \<and> nblock u \<le> 900000 \<longrightarrow> sorts blockSort u"
  shows "\<exists>rs t ds. compress_calls blockSort calls s = Some (rs, t) \<and> next_in s @ concat (map fst calls) = ds @ next_in t
     \<and> z_state (xs @ ds) t \<and> (BZ_STREAM_END \<in> set rs \<or> mode s = BZ_M_IDLE \<longrightarrow> mode t = BZ_M_IDLE)
     \<and> (calls \<noteq> [] \<and> last rs = BZ_STREAM_END \<longrightarrow> next_in t = [])"
  using assms(1,2)
proof (induction calls arbitrary: xs s)
  case Nil
  then show ?case by (intro exI [of _ "[]"] exI [of _ s]) simp
next
  case (Cons call calls)
  obtain bytes room action where call: "call = (bytes, room, action)" by (rule prod_cases3)
  let ?s = "s\<lparr>next_in := next_in s @ bytes, avail_out := avail_out s + room\<rparr>"
  have "z_state xs ?s" using Cons.prems(1) by (rule z_state_feed)
  moreover have "length (next_in ?s) < 2 ^ 32" using Cons.prems(2) by (simp add: call)
  ultimately obtain r t ds where t: "BZ2_bzCompress blockSort action ?s = Some (r, t)" "next_in ?s = ds @ next_in t" "z_state (xs @ ds) t"
     "r = BZ_STREAM_END \<longrightarrow> mode t = BZ_M_IDLE \<and> next_in t = []"
    using bzCompress_called sort unfolding called_def by blast
  have idle: "mode t = BZ_M_IDLE" if "mode s = BZ_M_IDLE" using t(1) that by (auto simp: BZ2_bzCompress_def)
  have all: "next_in s @ concat (map fst (call # calls)) = ds @ next_in t @ concat (map fst calls)"
    using t(2) by (simp add: call flip: append_assoc)
  then have "length (next_in t @ concat (map fst calls)) < 2 ^ 32" using Cons.prems(2) by (metis le_add2 le_less_trans length_append)
  from Cons.IH [OF t(3) this] obtain rs u es where u: "compress_calls blockSort calls t = Some (rs, u)"
     "next_in t @ concat (map fst calls) = es @ next_in u" "z_state ((xs @ ds) @ es) u"
     "BZ_STREAM_END \<in> set rs \<or> mode t = BZ_M_IDLE \<longrightarrow> mode u = BZ_M_IDLE"
     "calls \<noteq> [] \<and> last rs = BZ_STREAM_END \<longrightarrow> next_in u = []" by blast
  have "compress_calls blockSort (call # calls) s = Some (r # rs, u)" using t(1) u(1) by (simp add: call)
  moreover have "last (r # rs) = BZ_STREAM_END \<longrightarrow> next_in u = []"
  proof (cases calls)
    case Nil
    then show ?thesis using t(4) u(1) by auto
  next
    case (Cons c cs)
    then have "rs \<noteq> []" using u(1) by (cases c) (auto split: Option.bind_splits)
    then show ?thesis using u(5) Cons by simp
  qed
  ultimately show ?case using all u t(4) idle
    by (intro exI [of _ "r # rs"] exI [of _ u] exI [of _ "ds @ es"]) auto
qed

text \<open>The decompressor gives what there is room for, whatever the calls are.\<close>

definition d_state :: "u8 list \<Rightarrow> d_label \<Rightarrow> dstate \<Rightarrow> bool" where
  "d_state ys l s \<longleftrightarrow> (if l = BZ_X_IDLE then ys = []
     else if l = BZ_X_MAGIC_1 then d_arrays s \<and> d_bsLive s = 0 \<and> \<not> d_smallDecompress s \<and> d_calculatedCombinedCRC s = 0 \<and> stream_code ys (d_next_in s)
     else will_decode ys l s)"

lemma will_decode_room: "will_decode ys l (s\<lparr>d_avail_out := n, d_next_out := zs\<rparr>) = will_decode ys l s"
  by (simp add: will_decode_def d_between_def d_output_def d_full_def d_ready_def map_shape_def selectors_shape_def tables_d_shape_def
      values_shape_def rd_inv_def pending_def outputs_def will_output_def in_block_def at_byte_def linked_def run_left_def)

lemma d_state_room: "d_state ys l s \<Longrightarrow> d_state ys l (s\<lparr>d_avail_out := n\<rparr>)"
  using will_decode_room [where ys = ys and l = l and s = s and n = n and zs = "d_next_out s"]
  by (auto simp: d_state_def d_arrays_def map_shape_def selectors_shape_def tables_d_shape_def split: if_splits)

lemma d_state_call:
  assumes "d_state ys l s" "l \<noteq> BZ_X_IDLE" "alloc_ok alloc"
  shows "d_returned ys s (BZ2_bzDecompress alloc l s)"
  using assms will_decode_call stream_call by (auto simp: d_state_def split: if_splits)

lemma will_decode_label: "will_decode ys l s \<Longrightarrow> l \<noteq> BZ_X_IDLE \<and> l \<noteq> BZ_X_MAGIC_1"
  by (auto simp: will_decode_def)

lemma decompress_calls_ok:
  assumes "d_state ys l s" "alloc_ok alloc" "l = BZ_X_IDLE \<or> d_avail_out s = 0"
  shows "\<exists>rs k t. decompress_calls alloc rooms l s = Some (rs, k, t) \<and> d_next_out t = d_next_out s @ take (sum_list rooms) ys
     \<and> (if l = BZ_X_IDLE then BZ_STREAM_END \<notin> set rs
        else rooms \<noteq> [] \<longrightarrow> (BZ_STREAM_END \<in> set rs \<longleftrightarrow> length ys \<le> sum_list rooms))"
  using assms(1,3)
proof (induction rooms arbitrary: ys l s)
  case Nil
  then show ?case by simp
next
  case (Cons room rooms)
  let ?s = "s\<lparr>d_avail_out := d_avail_out s + room\<rparr>"
  show ?case
  proof (cases "l = BZ_X_IDLE")
    case True
    then have ys: "ys = []" using Cons.prems(1) by (simp add: d_state_def)
    have "d_state [] BZ_X_IDLE ?s" by (simp add: d_state_def)
    from Cons.IH [OF this] obtain rs k t where t: "decompress_calls alloc rooms BZ_X_IDLE ?s = Some (rs, k, t)" "d_next_out t = d_next_out s"
       "BZ_STREAM_END \<notin> set rs" by auto
    have "BZ2_bzDecompress alloc BZ_X_IDLE ?s = Some (BZ_SEQUENCE_ERROR, BZ_X_IDLE, ?s)" by (subst BZ2_bzDecompress.simps) simp
    then show ?thesis using t True ys by simp
  next
    case False
    then have s: "?s = s\<lparr>d_avail_out := room\<rparr>" using Cons.prems(2) by simp
    have "d_state ys l ?s" unfolding s using Cons.prems(1) by (rule d_state_room)
    have room_of: "d_avail_out (s\<lparr>d_avail_out := room\<rparr>) = room" "d_next_out (s\<lparr>d_avail_out := room\<rparr>) = d_next_out s" by simp_all
    have "\<exists>r k t. BZ2_bzDecompress alloc l ?s = Some (r, k, t) \<and> d_next_out t = d_next_out s @ take room ys
       \<and> d_avail_out t = room - length ys
       \<and> (if length ys \<le> room then r = BZ_STREAM_END \<and> k = BZ_X_IDLE else r = BZ_OK \<and> will_decode (drop room ys) k t)"
      using d_state_call [OF \<open>d_state ys l ?s\<close> False assms(2)] unfolding s d_returned_def room_of .
    then obtain r k t where t: "BZ2_bzDecompress alloc l ?s = Some (r, k, t)"
       "d_next_out t = d_next_out s @ take room ys" "d_avail_out t = room - length ys"
       "if length ys \<le> room then r = BZ_STREAM_END \<and> k = BZ_X_IDLE else r = BZ_OK \<and> will_decode (drop room ys) k t"
      by blast
    have next_t: "d_state (drop room ys) k t" "k = BZ_X_IDLE \<or> d_avail_out t = 0"
      using t(3,4) will_decode_label [of "drop room ys" k t] by (auto simp: d_state_def split: if_splits)
    from Cons.IH [OF this] obtain rs k' u where u: "decompress_calls alloc rooms k t = Some (rs, k', u)"
       "d_next_out u = d_next_out t @ take (sum_list rooms) (drop room ys)"
       "if k = BZ_X_IDLE then BZ_STREAM_END \<notin> set rs
        else rooms \<noteq> [] \<longrightarrow> (BZ_STREAM_END \<in> set rs \<longleftrightarrow> length (drop room ys) \<le> sum_list rooms)" by blast
    have calls: "decompress_calls alloc (room # rooms) l s = Some (r # rs, k', u)" using t(1) u(1) by simp
    have out: "d_next_out u = d_next_out s @ take (sum_list (room # rooms)) ys" using u(2) t(2) by (simp add: take_add)
    have "BZ_STREAM_END \<in> set (r # rs) \<longleftrightarrow> length ys \<le> sum_list (room # rooms)"
    proof (cases "length ys \<le> room")
      case False
      then have k: "r = BZ_OK" "k \<noteq> BZ_X_IDLE" using t(4) will_decode_label by auto
      show ?thesis
      proof (cases "rooms = []")
        case True
        then show ?thesis using u(1) k False by simp
      next
        case False
        then show ?thesis using u(3) k by auto
      qed
    qed (use t(4) in simp)
    then show ?thesis using calls out False by simp
  qed
qed

section \<open>A single call\<close>

text \<open>What \<open>handle_compress\<close> leaves when the stream is finished: all the output, or no room.\<close>

lemma finish_handled:
  fixes s :: zstate
  defines "u \<equiv> s\<lparr>avail_in_expect := of_nat (length (next_in s)), mode := BZ_M_FINISHING\<rparr>"
  assumes "z_input [] [] s" "length (next_in s) < 2 ^ 32" "next_out s = []"
    and sort: "\<forall>u. 0 < nblock u \<and> nblock u \<le> 900000 \<longrightarrow> sorts blockSort u"
  shows "\<exists>t ds. handle_compress blockSort u = Some (ds \<noteq> [] \<or> next_out t \<noteq> [], t) \<and> next_in s = ds @ next_in t \<and> z_inv ds t \<and> in_sync t
     \<and> mode t = BZ_M_FINISHING \<and> z_stopped t \<and> avail_out s = avail_out t + length (next_out t)
     \<and> (unfinished t \<and> avail_out t = 0 \<and> avail_out s < enough_room (blockSize100k s) (length (next_in s))
        \<or> \<not> unfinished t \<and> next_out t \<noteq> [])"
proof -
  have z: "z_input [] [] u" "in_sync u" using assms(2,3) by (auto simp: u_def z_input_mode in_sync_def)
  note loop = loop_input [OF z, of blockSort False False, folded handle_compress_def, OF _ sort]
  have "handled [] False u (handle_compress blockSort u)" using loop by (simp add: u_def)
  then obtain t ds where t: "handle_compress blockSort u = Some (ds \<noteq> [] \<or> next_out t \<noteq> [], t)" "next_in s = ds @ next_in t"
     "z_inv ds t" "in_sync t" "mode t = BZ_M_FINISHING" "z_stopped t" "avail_out s = avail_out t + length (next_out t)"
    using assms(4) by (auto simp: handled_def u_def)
  have finished: "next_out t \<noteq> [] \<and> \<not> unfinished t" if "\<not> (state_out_pos t < numZ t \<and> avail_out t = 0)"
  proof -
    have f: "io_state t = BZ_S_OUTPUT" "avail_in_expect t = 0" "isempty_RL t" "state_out_pos t = numZ t"
      using t(5,6) that by (auto simp: z_stopped_def)
    then obtain bs where "z_final bs t"
      using t(3,5) by (auto simp: z_inv_def z_input_def z_output_def)
    moreover have "magic_bits (blockSize100k t) \<noteq> []" by (simp add: magic_bits_def flip: length_greater_0_conv)
    ultimately have "emitted t \<noteq> []" using f(4) by (auto simp: z_final_def)
    then show ?thesis using f by (auto simp: emitted_def unfinished_iff)
  qed
  moreover have "avail_out s < enough_room (blockSize100k s) (length (next_in s))" if "state_out_pos t < numZ t"
    using loop t(1) that by (intro not_le_imp_less notI) (auto simp: u_def)
  ultimately have "unfinished t \<and> avail_out t = 0 \<and> avail_out s < enough_room (blockSize100k s) (length (next_in s))
        \<or> \<not> unfinished t \<and> next_out t \<noteq> []" by (cases "state_out_pos t < numZ t \<and> avail_out t = 0") (auto simp: unfinished_def)
  then show ?thesis using t by blast
qed

text \<open>The stream is finished in one call if there is room.\<close>

lemma finish_call:
  fixes s :: zstate
  assumes "z_input [] [] s" "mode s = BZ_M_RUNNING" "length (next_in s) < 2 ^ 32" "next_out s = []" "0 < avail_out s"
    and sort: "\<forall>u. 0 < nblock u \<and> nblock u \<le> 900000 \<longrightarrow> sorts blockSort u"
  shows "\<exists>r t. BZ2_bzCompress blockSort BZ_FINISH s = Some (r, t) \<and> length (next_out t) + avail_out t = avail_out s
     \<and> (r = BZ_STREAM_END \<and> stream_code (next_in s) (next_out t)
        \<or> r = BZ_FINISH_OK \<and> avail_out s < enough_room (blockSize100k s) (length (next_in s)))"
proof -
  obtain t ds where t: "handle_compress blockSort (s\<lparr>avail_in_expect := of_nat (length (next_in s)), mode := BZ_M_FINISHING\<rparr>)
       = Some (ds \<noteq> [] \<or> next_out t \<noteq> [], t)" "avail_out s = avail_out t + length (next_out t)" "next_in s = ds @ next_in t"
     "unfinished t \<and> avail_out t = 0 \<and> avail_out s < enough_room (blockSize100k s) (length (next_in s))
        \<or> \<not> unfinished t \<and> next_out t \<noteq> []"
    using finish_handled [OF assms(1,3,4) sort] by (elim exE conjE) (rule that; assumption)
  define r where "r = (if unfinished t then BZ_FINISH_OK else BZ_STREAM_END)"
  define u where "u = (if unfinished t then t else t\<lparr>mode := BZ_M_IDLE\<rparr>)"
  have "ds \<noteq> [] \<or> next_out t \<noteq> []" using t(2,4) assms(5) by (cases "next_out t = []") auto
  then have call: "BZ2_bzCompress blockSort BZ_FINISH s = Some (r, u)"
    using assms(2) t(1) by (simp add: BZ2_bzCompress_def do_finish_def BZ_RUN_def BZ_FLUSH_def BZ_FINISH_def r_def u_def)
  have "called [] s (BZ2_bzCompress blockSort BZ_FINISH s)"
  proof (rule bzCompress_called [OF _ assms(3) sort])
    show "z_state [] s" using assms(1,2) by (force simp: z_state_def z_inv_def)
  qed
  then have "stream_code (next_in s) (next_out u)" if "r = BZ_STREAM_END"
    using that call by (auto simp: called_def z_state_def)
  moreover have "next_out u = next_out t" "avail_out u = avail_out t" by (simp_all add: u_def)
  ultimately show ?thesis using call t(2,4) by (intro exI [of _ r] exI [of _ u]) (auto simp: r_def)
qed

text \<open>Without room there is progress only if there is input.\<close>

lemma finish_without_room:
  fixes s :: zstate
  assumes "z_input [] [] s" "mode s = BZ_M_RUNNING" "length (next_in s) < 2 ^ 32" "next_out s = []" "avail_out s = 0"
    and sort: "\<forall>u. 0 < nblock u \<and> nblock u \<le> 900000 \<longrightarrow> sorts blockSort u"
  shows "\<exists>t. BZ2_bzCompress blockSort BZ_FINISH s = Some (if next_in s = [] then BZ_SEQUENCE_ERROR else BZ_FINISH_OK, t) \<and> next_out t = []"
proof -
  obtain t ds where t: "handle_compress blockSort (s\<lparr>avail_in_expect := of_nat (length (next_in s)), mode := BZ_M_FINISHING\<rparr>)
       = Some (ds \<noteq> [] \<or> next_out t \<noteq> [], t)" "next_in s = ds @ next_in t" "z_inv ds t" "in_sync t" "mode t = BZ_M_FINISHING" "z_stopped t"
     "avail_out s = avail_out t + length (next_out t)"
     "unfinished t \<and> avail_out t = 0 \<and> avail_out s < enough_room (blockSize100k s) (length (next_in s))
        \<or> \<not> unfinished t \<and> next_out t \<noteq> []"
    using finish_handled [OF assms(1,3,4) sort] by (elim exE conjE) (rule that, assumption+)
  have none: "next_out t = []" "unfinished t" using t(7,8) assms(5) by auto
  have "next_in t = []" if empty: "ds = []"
  proof -
    have "io_state t = BZ_S_OUTPUT" using t(5,6) by (auto simp: z_stopped_def)
    then consider bs where "z_final bs t" | bs where "z_output bs [] t"
      using t(3) empty by (auto simp: z_inv_def z_input_def)
    then show ?thesis
    proof cases
      case 1
      then show ?thesis using sync_zero [OF t(4)] by (simp add: z_final_def)
    next
      case 2
      then have "state_in_len t = 0" "rl_run t" by (simp_all add: z_output_def)
      then show ?thesis using 2(1) t(5) isempty_run [of t] by (simp add: z_output_def)
    qed
  qed
  then have "ds = [] \<longleftrightarrow> next_in s = []" using t(2) by auto
  then show ?thesis using assms(2) t(1) none
    by (intro exI [of _ t]) (simp add: BZ2_bzCompress_def do_finish_def BZ_RUN_def BZ_FLUSH_def BZ_FINISH_def)
qed

text \<open>A new decompressor is ready for a stream.\<close>

lemma decompress_init_ok:
  assumes "d_arrays fresh" "0 \<le> v" "v \<le> 4" "stream_code ys zs"
  shows "\<exists>s. BZ2_bzDecompressInit (Some fresh) v 0 = (BZ_OK, Some (BZ_X_MAGIC_1, s))
     \<and> (\<forall>n. d_state ys BZ_X_MAGIC_1 (s\<lparr>d_next_in := zs, d_next_out := [], d_avail_out := n\<rparr>))"
proof -
  define s where "s = fresh\<lparr>d_bsLive := 0, d_bsBuff := 0, d_calculatedCombinedCRC := 0,
     d_total_in_lo32 := 0, d_total_in_hi32 := 0, d_total_out_lo32 := 0, d_total_out_hi32 := 0, d_smallDecompress := False\<rparr>"
  have "BZ2_bzDecompressInit (Some fresh) v 0 = (BZ_OK, Some (BZ_X_MAGIC_1, s))"
    using assms(2,3) by (simp add: BZ2_bzDecompressInit_def s_def)
  moreover have "d_state ys BZ_X_MAGIC_1 (s\<lparr>d_next_in := zs, d_next_out := [], d_avail_out := n\<rparr>)" for n
    using assms(1,4) by (simp add: d_state_def d_arrays_def map_shape_def selectors_shape_def tables_d_shape_def s_def)
  ultimately show ?thesis by blast
qed

section \<open>Streams and buffers are restored\<close>

text \<open>
  C18: A stream that is compressed can be decompressed. A new compressor is initialised, and a client makes any
  calls of \<open>BZ2_bzCompress\<close>: in each it brings some more input and some more room, and one of the actions, or
  any other number. Every call returns. What was read of the input is a prefix of it, all of it when the last call returned
  \<open>BZ_STREAM_END\<close>. Once a call returned \<open>BZ_STREAM_END\<close>, the bytes that were written are a stream for that prefix: a new
  decompressor that is given them, and any room in each of any calls of \<open>BZ2_bzDecompress\<close>, writes as much of the prefix as
  there is room, and reports \<open>BZ_STREAM_END\<close> in one of the calls if and only if the whole prefix has been written.
\<close>

theorem streams_restored:
  assumes "e_arrays fresh" "1 \<le> b" "b \<le> 9" "0 \<le> factor" "factor \<le> 250" "length (concat (map fst calls)) < 2 ^ 32"
    and "\<forall>u. 0 < nblock u \<and> nblock u \<le> 900000 \<longrightarrow> sorts blockSort u"
    and "d_arrays d" "alloc_ok alloc" "0 \<le> v" "v \<le> 4"
  shows "\<exists>s rs t read. BZ2_bzCompressInit (Some fresh) b factor = Some (BZ_OK, Some s)
     \<and> compress_calls blockSort calls (s\<lparr>next_in := [], next_out := [], avail_out := 0\<rparr>) = Some (rs, t)
     \<and> concat (map fst calls) = read @ next_in t \<and> (calls \<noteq> [] \<and> last rs = BZ_STREAM_END \<longrightarrow> next_in t = [])
     \<and> (BZ_STREAM_END \<in> set rs \<longrightarrow>
          (\<exists>e rs' l u. BZ2_bzDecompressInit (Some d) v 0 = (BZ_OK, Some (BZ_X_MAGIC_1, e))
             \<and> decompress_calls alloc rooms BZ_X_MAGIC_1 (e\<lparr>d_next_in := next_out t, d_next_out := [], d_avail_out := 0\<rparr>) = Some (rs', l, u)
             \<and> d_next_out u = take (sum_list rooms) read
             \<and> (rooms \<noteq> [] \<longrightarrow> (BZ_STREAM_END \<in> set rs' \<longleftrightarrow> length read \<le> sum_list rooms))))"
proof -
  obtain s where s: "BZ2_bzCompressInit (Some fresh) b factor = Some (BZ_OK, Some s)" "mode s = BZ_M_RUNNING"
     "z_input [] [] (s\<lparr>next_in := [], next_out := [], avail_out := 0\<rparr>)"
    using init_ok [OF assms(1-5)] by blast
  let ?s = "s\<lparr>next_in := [], next_out := [], avail_out := 0\<rparr>"
  have "z_state [] ?s" using s(2,3) by (force simp: z_state_def z_inv_def)
  from compress_calls_ok [OF this _ assms(7), of calls] assms(6) obtain rs t ds where
    t: "compress_calls blockSort calls ?s = Some (rs, t)" "concat (map fst calls) = ds @ next_in t" "z_state ds t"
       "BZ_STREAM_END \<in> set rs \<longrightarrow> mode t = BZ_M_IDLE" "calls \<noteq> [] \<and> last rs = BZ_STREAM_END \<longrightarrow> next_in t = []"
    by auto
  have "\<exists>e rs' l u. BZ2_bzDecompressInit (Some d) v 0 = (BZ_OK, Some (BZ_X_MAGIC_1, e))
     \<and> decompress_calls alloc rooms BZ_X_MAGIC_1 (e\<lparr>d_next_in := next_out t, d_next_out := [], d_avail_out := 0\<rparr>) = Some (rs', l, u)
     \<and> d_next_out u = take (sum_list rooms) ds \<and> (rooms \<noteq> [] \<longrightarrow> (BZ_STREAM_END \<in> set rs' \<longleftrightarrow> length ds \<le> sum_list rooms))"
    if "BZ_STREAM_END \<in> set rs"
  proof -
    have "stream_code ds (next_out t)" using t(3,4) that by (simp add: z_state_def)
    then obtain e where e: "BZ2_bzDecompressInit (Some d) v 0 = (BZ_OK, Some (BZ_X_MAGIC_1, e))"
       "d_state ds BZ_X_MAGIC_1 (e\<lparr>d_next_in := next_out t, d_next_out := [], d_avail_out := 0\<rparr>)"
      using decompress_init_ok [OF assms(8,10,11)] by blast
    from decompress_calls_ok [OF e(2) assms(9), of rooms] e(1) show ?thesis by auto
  qed
  then show ?thesis using s(1) t(1,2,5) by blast
qed

text \<open>New states, whose arrays have their sizes.\<close>

definition new_zstate :: zstate where
  "new_zstate = cstate.extend (estate.extend empty_estate (cstate.fields [] 0 0)) (zstate.fields [] 0 0 0)"

lemma new_states: "e_arrays new_zstate" "d_arrays (start_dstate [])" "alloc_ok (\<lambda>_. True)"
proof -
  show "e_arrays new_zstate"
    by (simp add: e_arrays_def back_shape_def tables_shape_def rect_def new_zstate_def cstate.extend_def zstate.fields_def
        estate.extend_def cstate.fields_def empty_estate_def)
  show "d_arrays (start_dstate [])"
    by (simp add: d_arrays_def map_shape_def selectors_shape_def tables_d_shape_def start_dstate_def BZ_MAX_SELECTORS_def rect_def)
  show "alloc_ok (\<lambda>_. True)" by (simp add: alloc_ok_def)
qed

lemma in_range: "(1 :: int) \<le> 1" "(1 :: int) \<le> 9" "(0 :: int) \<le> 0" "(0 :: int) \<le> 250" "(0 :: int) \<le> 4"
  by simp_all

lemma streams_restored_witness:
  "\<exists>s t e rs l u. BZ2_bzCompressInit (Some new_zstate) 1 0 = Some (BZ_OK, Some s)
     \<and> compress_calls reference_sort [([97, 98], enough_room 1 2, BZ_FINISH)] (s\<lparr>next_in := [], next_out := [], avail_out := 0\<rparr>)
        = Some ([BZ_STREAM_END], t)
     \<and> BZ2_bzDecompressInit (Some (start_dstate [])) 0 0 = (BZ_OK, Some (BZ_X_MAGIC_1, e))
     \<and> decompress_calls (\<lambda>_. True) [1, 1] BZ_X_MAGIC_1 (e\<lparr>d_next_in := next_out t, d_next_out := [], d_avail_out := 0\<rparr>) = Some (rs, l, u)
     \<and> d_next_out u = [97, 98] \<and> BZ_STREAM_END \<in> set rs"
proof -
  let ?calls = "[([97, 98], enough_room 1 2, BZ_FINISH)] :: (u8 list \<times> nat \<times> int) list"
  have sort: "\<forall>u :: zstate. 0 < nblock u \<and> nblock u \<le> 900000 \<longrightarrow> sorts reference_sort u" using reference_sorts by blast
  have "length (concat (map fst ?calls)) < 2 ^ 32" by simp
  note restored = streams_restored [OF new_states(1) in_range(1-4) this sort new_states(2,3) in_range(3,5), of "[1, 1]"]
  obtain s rs t ds where s: "BZ2_bzCompressInit (Some new_zstate) 1 0 = Some (BZ_OK, Some s)"
    and t: "compress_calls reference_sort ?calls (s\<lparr>next_in := [], next_out := [], avail_out := 0\<rparr>) = Some (rs, t)"
      "concat (map fst ?calls) = ds @ next_in t" "?calls \<noteq> [] \<and> last rs = BZ_STREAM_END \<longrightarrow> next_in t = []"
    and d: "BZ_STREAM_END \<in> set rs \<longrightarrow>
      (\<exists>e rs' l u. BZ2_bzDecompressInit (Some (start_dstate [])) 0 0 = (BZ_OK, Some (BZ_X_MAGIC_1, e))
         \<and> decompress_calls (\<lambda>_. True) [1, 1] BZ_X_MAGIC_1 (e\<lparr>d_next_in := next_out t, d_next_out := [], d_avail_out := 0\<rparr>) = Some (rs', l, u)
         \<and> d_next_out u = take (sum_list [1, 1]) ds
         \<and> ([1, 1] \<noteq> ([] :: nat list) \<longrightarrow> (BZ_STREAM_END \<in> set rs' \<longleftrightarrow> length ds \<le> sum_list [1, 1])))"
    using restored by (elim exE conjE) (rule that; assumption)
  obtain s' where s': "BZ2_bzCompressInit (Some new_zstate) 1 0 = Some (BZ_OK, Some s')" "mode s' = BZ_M_RUNNING" "blockSize100k s' = 1"
     "z_input [] [] (s'\<lparr>next_in := [97, 98], next_out := [], avail_out := enough_room 1 2\<rparr>)"
    using init_ok [OF new_states(1), of 1 0] by auto
  then have eq: "s' = s" using s by simp
  have "length (next_in (s'\<lparr>next_in := [97, 98], next_out := [], avail_out := enough_room 1 2\<rparr>)) < 2 ^ 32" by simp
  note finish = finish_call [OF s'(4) _ this _ _ sort]
  have "0 < enough_room 1 2" by (simp add: enough_room_def block_bytes_def)
  then obtain u where u: "BZ2_bzCompress reference_sort BZ_FINISH (s\<lparr>next_in := [97, 98], next_out := [], avail_out := enough_room 1 2\<rparr>)
       = Some (BZ_STREAM_END, u)"
    using finish s'(2,3) unfolding eq by (auto simp: numeral_2_eq_2)
  have swap: "s\<lparr>next_out := [], next_in := x, avail_out := n\<rparr> = s\<lparr>next_in := x, next_out := [], avail_out := n\<rparr>" for x n by simp
  have "BZ2_bzCompress reference_sort BZ_FINISH (s\<lparr>next_out := [], next_in := [97, 98], avail_out := enough_room 1 2\<rparr>)
       = Some (BZ_STREAM_END, u)" unfolding swap by (rule u)
  then have rs: "rs = [BZ_STREAM_END]" using t(1) by simp
  then have ds: "ds = [97, 98]" using t(2,3) by simp
  have two: "take (sum_list [1, 1]) [97, 98 :: u8] = [97, 98]" "length [97, 98 :: u8] \<le> sum_list [1, 1]" by simp_all
  obtain e rs' l u where e: "BZ2_bzDecompressInit (Some (start_dstate [])) 0 0 = (BZ_OK, Some (BZ_X_MAGIC_1, e))"
     "decompress_calls (\<lambda>_. True) [1, 1] BZ_X_MAGIC_1 (e\<lparr>d_next_in := next_out t, d_next_out := [], d_avail_out := 0\<rparr>) = Some (rs', l, u)"
     "d_next_out u = [97, 98]" "BZ_STREAM_END \<in> set rs'"
    using d two unfolding rs ds by auto
  show ?thesis using s t(1) e unfolding rs by blast
qed

text \<open>
  C19: Buffers survive a round trip. \<open>BZ2_bzBuffToBuffCompress\<close> returns for every source and every room that is not zero;
  it writes no more than there is room, and its result is \<open>BZ_OK\<close> or \<open>BZ_OUTBUFF_FULL\<close>, and \<open>BZ_OK\<close> when there is room for
  \<open>enough_room\<close> bytes, about five times the source and 400000 times the block size. After \<open>BZ_OK\<close>,
  \<open>BZ2_bzBuffToBuffDecompress\<close> gives the source back with \<open>BZ_OK\<close> when there is room for it, and else \<open>BZ_OUTBUFF_FULL\<close> and
  the bytes that there is room for.
\<close>

theorem buffers_restored:
  assumes "e_arrays fresh" "1 \<le> b" "b \<le> 9" "0 \<le> factor" "factor \<le> 250" "length source < 2 ^ 32" "0 < destLen"
    and "\<forall>u. 0 < nblock u \<and> nblock u \<le> 900000 \<longrightarrow> sorts blockSort u"
    and "d_arrays d" "alloc_ok alloc" "0 \<le> v" "v \<le> 4"
  shows "\<exists>r dest. BZ2_bzBuffToBuffCompress blockSort (Some fresh) destLen source b v factor = Some (r, dest)
     \<and> length dest \<le> destLen \<and> (r = BZ_OK \<or> r = BZ_OUTBUFF_FULL \<and> destLen < enough_room (nat b) (length source))
     \<and> (r = BZ_OK \<longrightarrow> BZ2_bzBuffToBuffDecompress alloc (Some d) outLen dest 0 v
          = Some (if length source \<le> outLen then (BZ_OK, source) else (BZ_OUTBUFF_FULL, take outLen source)))"
proof -
  define f where "f = (if factor = 0 then 30 else factor)"
  have f: "0 \<le> f" "f \<le> 250" using assms(4,5) by (simp_all add: f_def)
  obtain s where s: "BZ2_bzCompressInit (Some fresh) b f = Some (BZ_OK, Some s)" "mode s = BZ_M_RUNNING" "blockSize100k s = nat b"
     "z_input [] [] (s\<lparr>next_in := source, next_out := [], avail_out := destLen\<rparr>)"
    using init_ok [OF assms(1-3) f] by blast
  let ?s = "s\<lparr>next_in := source, next_out := [], avail_out := destLen\<rparr>"
  obtain r t where t: "BZ2_bzCompress blockSort BZ_FINISH ?s = Some (r, t)" "length (next_out t) + avail_out t = destLen"
     "r = BZ_STREAM_END \<and> stream_code source (next_out t) \<or> r = BZ_FINISH_OK \<and> destLen < enough_room (nat b) (length source)"
    using finish_call [OF s(4) _ _ _ _ assms(8)] s(2,3) assms(6,7) by auto
  define r' where "r' = (if r = BZ_FINISH_OK then BZ_OUTBUFF_FULL else BZ_OK)"
  have "BZ2_bzBuffToBuffCompress blockSort (Some fresh) destLen source b v factor = Some (r', next_out t)"
    using assms(2-5,11,12) s(1) t(1,3) by (auto simp: BZ2_bzBuffToBuffCompress_def r'_def simp flip: f_def)
  moreover have "BZ2_bzBuffToBuffDecompress alloc (Some d) outLen (next_out t) 0 v
      = Some (if length source \<le> outLen then (BZ_OK, source) else (BZ_OUTBUFF_FULL, take outLen source))" if "r' = BZ_OK"
  proof -
    have "stream_code source (next_out t)" using t(3) that by (auto simp: r'_def)
    then obtain e where e: "BZ2_bzDecompressInit (Some d) v 0 = (BZ_OK, Some (BZ_X_MAGIC_1, e))"
       "d_state source BZ_X_MAGIC_1 (e\<lparr>d_next_in := next_out t, d_next_out := [], d_avail_out := outLen\<rparr>)"
      using decompress_init_ok [OF assms(9,11,12)] by blast
    let ?e = "e\<lparr>d_next_in := next_out t, d_next_out := [], d_avail_out := outLen\<rparr>"
    have room_of: "d_avail_out ?e = outLen" "d_next_out ?e = []" by simp_all
    have "d_returned source ?e (BZ2_bzDecompress alloc BZ_X_MAGIC_1 ?e)" using d_state_call [OF e(2) _ assms(10)] by simp
    then obtain q l u where u: "BZ2_bzDecompress alloc BZ_X_MAGIC_1 ?e = Some (q, l, u)" "d_next_out u = [] @ take outLen source"
       "d_avail_out u = outLen - length source"
       "if length source \<le> outLen then q = BZ_STREAM_END \<and> l = BZ_X_IDLE else q = BZ_OK \<and> will_decode (drop outLen source) l u"
      unfolding d_returned_def room_of by blast
    then show ?thesis using e(1) assms(11,12) by (auto simp: BZ2_bzBuffToBuffDecompress_def split: if_splits)
  qed
  ultimately show ?thesis using t(2,3) by (intro exI [of _ r'] exI [of _ "next_out t"]) (auto simp: r'_def)
qed

lemma buffers_restored_witness:
  "\<exists>dest. BZ2_bzBuffToBuffCompress reference_sort (Some new_zstate) (enough_room 1 2) [97, 98] 1 0 0 = Some (BZ_OK, dest)
     \<and> BZ2_bzBuffToBuffDecompress (\<lambda>_. True) (Some (start_dstate [])) 2 dest 0 0 = Some (BZ_OK, [97, 98])
     \<and> BZ2_bzBuffToBuffDecompress (\<lambda>_. True) (Some (start_dstate [])) 1 dest 0 0 = Some (BZ_OUTBUFF_FULL, [97])"
proof -
  have sort: "\<forall>u :: zstate. 0 < nblock u \<and> nblock u \<le> 900000 \<longrightarrow> sorts reference_sort u" using reference_sorts by blast
  have room: "0 < enough_room 1 2" by (simp add: enough_room_def block_bytes_def)
  have len: "length ([97, 98] :: u8 list) < 2 ^ 32" by simp
  note restored = buffers_restored [OF new_states(1) in_range(1-4) len room sort new_states(2,3) in_range(3,5)]
  obtain r dest where c: "BZ2_bzBuffToBuffCompress reference_sort (Some new_zstate) (enough_room 1 2) [97, 98] 1 0 0 = Some (r, dest)"
     "r = BZ_OK \<or> r = BZ_OUTBUFF_FULL \<and> enough_room 1 2 < enough_room (nat 1) (length ([97, 98] :: u8 list))"
     "r = BZ_OK \<longrightarrow> BZ2_bzBuffToBuffDecompress (\<lambda>_. True) (Some (start_dstate [])) 2 dest 0 0 = Some (BZ_OK, [97, 98])"
    using restored [of 2] by auto
  have r: "r = BZ_OK" using c(2) by (simp add: numeral_2_eq_2)
  have "BZ2_bzBuffToBuffDecompress (\<lambda>_. True) (Some (start_dstate [])) 1 dest 0 0 = Some (BZ_OUTBUFF_FULL, [97])"
    using restored [of 1] c(1) r by auto
  then show ?thesis using c r by blast
qed

text \<open>
  C35: No room at all. With a \<open>*destLen\<close> of zero \<open>BZ2_bzBuffToBuffCompress\<close> writes nothing and returns \<open>BZ_OUTBUFF_FULL\<close>,
  but not for an empty source: then no byte is read and none is written, \<open>handle_compress\<close> reports that there was no
  progress, and the result is \<open>BZ_SEQUENCE_ERROR\<close>, although no call was out of sequence.
\<close>

theorem buffer_without_room:
  assumes "e_arrays fresh" "1 \<le> b" "b \<le> 9" "0 \<le> factor" "factor \<le> 250" "length source < 2 ^ 32" "0 \<le> v" "v \<le> 4"
    and "\<forall>u. 0 < nblock u \<and> nblock u \<le> 900000 \<longrightarrow> sorts blockSort u"
  shows "BZ2_bzBuffToBuffCompress blockSort (Some fresh) 0 source b v factor
    = Some (if source = [] then BZ_SEQUENCE_ERROR else BZ_OUTBUFF_FULL, [])"
proof -
  define f where "f = (if factor = 0 then 30 else factor)"
  have f: "0 \<le> f" "f \<le> 250" using assms(4,5) by (simp_all add: f_def)
  obtain s where s: "BZ2_bzCompressInit (Some fresh) b f = Some (BZ_OK, Some s)" "mode s = BZ_M_RUNNING"
     "z_input [] [] (s\<lparr>next_in := source, next_out := [], avail_out := 0\<rparr>)"
    using init_ok [OF assms(1-3) f] by blast
  obtain t where "BZ2_bzCompress blockSort BZ_FINISH (s\<lparr>next_in := source, next_out := [], avail_out := 0\<rparr>)
       = Some (if source = [] then BZ_SEQUENCE_ERROR else BZ_FINISH_OK, t)" "next_out t = []"
    using finish_without_room [OF s(3) _ _ _ _ assms(9)] s(2) assms(6) by auto
  then show ?thesis using assms(2-5,7,8) s(1) by (auto simp: BZ2_bzBuffToBuffCompress_def simp flip: f_def)
qed

lemma buffer_without_room_witness:
  "BZ2_bzBuffToBuffCompress reference_sort (Some new_zstate) 0 [] 1 0 0 = Some (BZ_SEQUENCE_ERROR, [])
   \<and> BZ2_bzBuffToBuffCompress reference_sort (Some new_zstate) 0 [97] 1 0 0 = Some (BZ_OUTBUFF_FULL, [])"
proof -
  have sort: "\<forall>u :: zstate. 0 < nblock u \<and> nblock u \<le> 900000 \<longrightarrow> sorts reference_sort u" using reference_sorts by blast
  note no_room = buffer_without_room [OF new_states(1) in_range(1-4) _ in_range(3,5) sort]
  show ?thesis using no_room [of "[]"] no_room [of "[97]"] by simp
qed

end
