(* ===== verification/Spec2Isabelle.thy ===== *)
theory Spec2Isabelle
  imports NoAslr FreqProbe CoreCrc CoreMatrix CoreState CoreListRun Sha256 BzCrc BzHuffman BzLengths BzBits BzMtf BzOneBlock BzBuffers
begin

text \<open>
  A verification library for the C programs of Silverfir-nano.

  The repository holds a WebAssembly runtime written in Rust. Its C programs are two host tools
  that the continuous integration and the measurements use, and the benchmarks that are compiled
  to WebAssembly and run by the runtime. The library models both tools completely, and of the
  benchmarks those that compute something with a contract: bzip2, SHA-256 and the three
  kernels and the CRC of CoreMark. All paths below are under \<open>src/\<close>; a mark such as
  \<open>[bzip2/compress.c 71-78 bsW]\<close> before a definition names the lines it translates.

  \<^bold>\<open>The programs and how their parts interact\<close>

    \<^item> \<open>ci/noaslr.c\<close> starts a command without address-space randomisation and returns the status
      of the command. It talks to nothing but the system.
    \<^item> \<open>scripts/freqprobe.c\<close> times dependent additions and prints a frequency.
    \<^item> \<open>benchmarks/wasi/bzip2/\<close>: the compressor collects its input in runs in a block
      (\<open>bzlib.c\<close>), sorts the rotations of the block (\<open>blocksort.c\<close>), codes the last column of the
      sorted rotations by move-to-front and runs, chooses Huffman tables (\<open>huffman.c\<close>) and
      transmits everything through a bit writer (\<open>compress.c\<close>). The decompressor reads the bits back
      (\<open>decompress.c\<close>), inverts the sorting and expands the runs (\<open>bzlib.c\<close>). Both compute the
      CRC of \<open>crctable.c\<close>. \<open>BZ2_bzCompress\<close> and \<open>BZ2_bzDecompress\<close> drive the two sides: they suspend when
      the input is used up or the output is full, and go on in the next call; the functions on whole
      buffers, which the benchmark calls, are one call of each.
    \<^item> \<open>benchmarks/wasi/sha256/bench_sha256.c\<close> hashes a buffer again and again.
    \<^item> \<open>benchmarks/wasi/coremark/\<close>: \<open>iterate\<close> (\<open>core_main.c\<close>) runs the list kernel, which sorts a list
      by values that the kernels on matrices and on a state machine compute; the results are folded
      into a CRC (\<open>core_util.c\<close>).

  \<^bold>\<open>Conventions\<close>

    \<^item> A function that can have undefined behaviour or that may not return has the type
      \<^typ>\<open>'a option\<close>. \<^const>\<open>None\<close> stands for an access outside an array, a failed assertion, a
      shift by too much, or a computation without end. A theorem \<open>runs m Q\<close> or \<open>m = Some y\<close>
      therefore says that the code stays inside its arrays, returns, and is right.
    \<^item> Every access to an array is checked against the array (\<open>aget\<close>, \<open>aput\<close>, and \<open>fget\<close>, \<open>fput\<close>
      for the blocks of memory of the bzip2 states, which are maps from indexes below a bound).
    \<^item> An integer is a machine word where the code lets it wrap (the CRCs, SHA-256, the bit buffers,
      the matrix cells) and \<^typ>\<open>int\<close> or \<^typ>\<open>nat\<close> where a bound is proved that keeps it in range.
    \<^item> An early return of \<open>BZ2_decompress\<close> is a value: \<open>Go x s\<close> goes on, \<open>Stop c s\<close> returns the
      code \<open>c\<close>. A counted loop is \<open>for_in\<close>; a loop without a bound of its own is a
      \<open>partial_function (option)\<close>, and that it ends is a theorem.

  \<^bold>\<open>Theories\<close>

  Shared.
    \<^item> \<open>CPrelude\<close>: the C integer types, \<open>runs\<close>, checked accesses, counted loops and their rules (the
      collections \<open>c_run\<close> and \<open>c_word\<close>), bits of words.
    \<^item> \<open>CText\<close>: vectors of strings, decimal numbers as \<open>printf\<close> writes them.
    \<^item> \<open>CDouble\<close>: binary64 with rounding to nearest, ties to even; \<open>atof\<close>; \<open>%.3f\<close>.

  The tools.
    \<^item> \<open>NoAslr\<close> (\<open>ci/noaslr.c\<close>): \<open>main\<close> is a tree of system calls whose branches are the answers;
      \<open>call\<close> and \<open>executes\<close> are its step relation and its executions. The theorems state the order
      of the calls, that every execution ends, and what the status says of the command; what
      POSIX documents of \<open>posix_spawn\<close> and \<open>waitpid\<close> is a hypothesis, with a witness.
    \<^item> \<open>FreqProbe\<close> (\<open>scripts/freqprobe.c\<close>): the clock is a parameter. The theorems state when the
      probe returns, which reading ends it, the accuracy of what it prints, and the arguments
      with which it never returns.

  CoreMark and SHA-256.
    \<^item> \<open>CoreCrc\<close> (\<open>core_util.c\<close>): the locale \<open>crc_code\<close>, a step that is linear and loses nothing;
      inside it, a changed byte is always detected. It is interpreted by \<open>crcu8\<close> and, in \<open>BzCrc\<close>,
      by \<open>BZ_UPDATE_CRC\<close>.
    \<^item> \<open>CoreMatrix\<close> (\<open>core_matrix.c\<close>): the matrix operations on checked lists; the layout that
      \<open>core_init_matrix\<close> chooses; that the benchmark restores its matrices.
    \<^item> \<open>CoreState\<close> (\<open>core_state.c\<close>): the scanner against the formats of numbers, the
      initialisation, and the pass that corrupts and repairs its input.
    \<^item> \<open>CoreList\<close> (\<open>core_list_join.c\<close>): lists in an array of heads; reversal, removal, and the merge
      sort without recursion. The locale \<open>comparison\<close> is what the sort asks of a comparison that changes
      the items it compares: that their keys are settled after the first look at them. Inside it the
      sort is shown to be the stable sort by the keys that are settled in the end.
    \<^item> \<open>CoreListBench\<close>: the items, the comparisons by index and by value (which calls the other kernels
      and caches what they return), both interpretations of the locale, and \<open>core_bench_list\<close>.
      \<open>CoreListRun\<close>: \<open>core_list_init\<close> and \<open>iterate\<close>.
    \<^item> \<open>Fips180\<close>: SHA-256 as the standard defines it, on strings of bits, with the constants as
      fractional parts of roots of primes. It uses nothing of the code.
    \<^item> \<open>Sha256\<close> (\<open>bench_sha256.c\<close>): the locale \<open>block_stream\<close>, code of a block function that computes a
      specified one, behind a byte buffer. The interpretation shows that the compression function is
      that of the standard; the theorem, that the code computes its digest.

  bzip2, the compressor.
    \<^item> \<open>BzCrc\<close> (\<open>crctable.c\<close>, \<open>randtable.c\<close>, the macros of \<open>bzlib_private.h\<close>).
    \<^item> \<open>BzHuffman\<close> (\<open>huffman.c\<close>): codes and decoding tables, and that they are inverse.
      \<open>BzLengths\<close>: that \<open>BZ2_hbMakeCodeLengths\<close> ends and gives a full prefix code: the heap, the
      depth of the tree, and the scaling of the weights.
    \<^item> \<open>BzBits\<close> (\<open>compress.c\<close>, \<open>EState\<close>): the state and the bit writer. The locale \<open>bit_sink\<close> is
      the interface that every later writer uses; \<open>bsW\<close> interprets it.
    \<^item> \<open>BzMtf\<close> (\<open>makeMaps_e\<close>, \<open>generateMTFValues\<close>), \<open>BzCompress\<close> (\<open>sendMTFValues\<close>), \<open>BzTables\<close>
      (its choice of tables is safe), \<open>BzSend\<close> (what it transmits, and how many bits).
    \<^item> \<open>BzRle\<close> (\<open>add_pair_to_block\<close>, \<open>flush_RL\<close>, \<open>ADD_CHAR_TO_BLOCK\<close>, \<open>copy_input_until_stop\<close> of
      \<open>bzlib.c\<close>): the invariant \<open>rl_inv\<close> ties the block, the pending run, \<open>inUse\<close> and the CRC to
      the input so far.
    \<^item> \<open>BzHeader\<close> (\<open>BZ2_compressBlock\<close>, the header and the trailer in \<open>BZ2_decompress\<close>).
    \<^item> \<open>BzCompressor\<close> (\<open>copy_output_until_stop\<close>, \<open>handle_compress\<close>, \<open>BZ2_bzCompress\<close>,
      \<open>BZ2_bzCompressInit\<close>): the modes of a stream. \<open>BzWriter\<close>: the invariant \<open>z_state\<close> of a stream between
      two calls (\<open>z_input\<close> while a block is collected, \<open>z_output\<close> while one is output, \<open>z_final\<close> at the
      end), that every call in every mode keeps it, and that the loop of \<open>handle_compress\<close> ends.

  bzip2, the decompressor.
    \<^item> \<open>BzReader\<close> (\<open>DState\<close>, \<open>GET_BITS\<close>): what it means that code implements an abstract parser of
      bits (\<open>refines\<close>): the same result on every input, corrupt and short ones included.
    \<^item> \<open>BzReceive\<close> (mapping table, selectors, coding tables), \<open>BzSymbol\<close> (\<open>GET_MTF_VAL\<close>),
      \<open>BzUnmtf\<close> (the move-to-front list in rows), \<open>BzValues\<close> (runs and bytes), \<open>BzBlock\<close> (all of
      it, and its round trip with the compressor).
    \<^item> \<open>BzUnsort\<close> (the vector of successors, and that following it restores the block),
      \<open>BzOutput\<close> (\<open>unRLE_obuf_to_output_FAST\<close>, for every size of the output buffers).
    \<^item> \<open>BzStream\<close>: the code of a block (\<open>block_code\<close>); the compressor writes it, the decompressor
      reads and outputs it. \<open>BzOneBlock\<close> puts the two together for a single block.
    \<^item> \<open>BzDecompress\<close> (\<open>BZ2_decompress\<close> from the magic number to the trailer, \<open>BZ2_bzDecompressInit\<close>,
      \<open>BZ2_bzDecompress\<close>): the code of a stream (\<open>stream_code\<close>), and what a call returns for it.
    \<^item> \<open>BzBuffers\<close> (\<open>BZ2_bzBuffToBuffCompress\<close>, \<open>BZ2_bzBuffToBuffDecompress\<close>): sequences of calls
      of both sides, and whole buffers.

  \<^bold>\<open>How a stream is proved to be restored\<close>

  Every stage has an abstract description, and the code of both sides is tied to it.
    \<^enum> Input: \<open>unrle\<close> gives back the bytes of a block of runs. \<open>copy_input_ok\<close> and \<open>flush_ok\<close> show
      that the block means the input, \<open>block_fetched\<close> that the output of a block is its meaning.
    \<^enum> Sorting: the last column of the sorted rotations. The sorter is a parameter with the
      hypothesis \<open>sorts\<close>: it returns, leaves the block alone, and \<open>arr1\<close> then lists the starts of
      the rotations in order. \<open>reference_sort\<close> has this property, so the hypothesis can hold.
      The inverse is shown to restore every block from its last column and \<open>origPtr\<close>.
    \<^enum> Values: an abstract move-to-front and run coder on lists with its inverse. The compressor
      computes it in place; the decompressor's rows of sixteen are the plain list.
    \<^enum> Bits: the abstract encoding of a block (header, mapping table, selectors, lengths, code
      words) and the parser that reads it. The compressor appends the encoding
      (\<open>sendMTFValues_refines\<close>), the decompressor implements the parser on all inputs
      (\<open>receive_block_implements_parser\<close>), and the parser reads the encoding back.
  \<open>block_restored\<close> composes them for a block. A stream is its magic number, the codes of its blocks and a trailer
  with the combined CRC, filled up with zeros; \<open>stream_code xs ys\<close> says that the bytes \<open>ys\<close> are one for the input \<open>xs\<close>.
    \<^enum> Compressor: between two calls, the bytes that were written, those that wait in \<open>zbits\<close> and the
      bits in the buffer of the bit writer together are the code of the blocks so far, and these
      blocks and the one that is collected stand for the input that was read. No call breaks
      this, so when the stream ends its output is a \<open>stream_code\<close> for the input.
    \<^enum> Decompressor: on a \<open>stream_code\<close>, a call writes as many bytes of the input as there is room, and
      returns \<open>BZ_STREAM_END\<close> when there are no more.
    \<^enum> \<open>streams_restored\<close>: any calls on one side followed by any calls on the other restore the input.
      \<open>buffers_restored\<close>: the functions on whole buffers do, with their error codes when there is too
      little room on either side.

  \<^bold>\<open>Bounds and fuel\<close>

    \<^item> A block has at most \<open>100000 * blockSize100k - 19\<close> bytes with \<open>blockSize100k\<close> at most 9; the
      buffer of the compressor has room for the bits of its encoding, which is proved.
    \<^item> \<open>enough_room b n\<close> bytes of output are enough for \<open>n\<close> bytes of input at the block size \<open>b\<close>: a
      full block takes \<open>80000 * b - 15\<close> bytes of input or more, because five bytes of a block stand for at least four,
      and its code fits into the buffer of the compressor. Compressed data are much smaller; the
      bound serves to show that the compressor finishes.
    \<^item> The input of one stream is shorter than \<open>2 ^ 32\<close> bytes, so that \<open>avail_in_expect\<close> counts it.
    \<^item> The abstract parser of the values carries fuel. Every step adds at least one byte and more
      than \<open>nmax = 100000 * blockSize100k\<close> bytes are refused, so \<open>nmax + 1\<close> steps are enough and
      the result never depends on the fuel. The code has no fuel.
    \<^item> The attempts of \<open>BZ2_hbMakeCodeLengths\<close> end because each halves the weights and a tree of
      small weights is not deep; the loop of the frequency probe ends exactly when the clock passes
      the target; every round of \<open>handle_compress\<close> that goes on has put a full block into the output;
      all other loops are counted or shrink their input.

  \<^bold>\<open>Not modelled\<close>

    \<^item> \<open>bzip2/blocksort.c\<close>: the sorters are a parameter (see above). The correctness of
      \<open>mainSort\<close> and \<open>fallbackSort\<close> is not claimed.
    \<^item> The labels and the save area of \<open>BZ2_decompress\<close>, by which it resumes in the middle of a block
      when more input comes: all input is present at once, and running out of it is \<open>Stop BZ_OK\<close>.
    \<^item> \<open>smallDecompress\<close> after the values of a block are received (\<open>unRLE_obuf_to_output_SMALL\<close>,
      \<open>BZ2_indexIntoF\<close>), and blocks with the randomisation bit, which this compressor never writes,
      in the output. Both are outside the hypotheses of the theorems, not assumed away in the code
      that is modelled: where the model would enter them its value is \<^const>\<open>None\<close>.
    \<^item> The rest of \<open>bzlib.c\<close>: the allocation (what \<open>BZALLOC\<close> gives is a parameter, null pointers are not
      passed, and \<open>BZ2_bzCompressEnd\<close> and \<open>BZ2_bzDecompressEnd\<close>, which only free it, are left out), the
      functions on files, and the benchmark drivers.
    \<^item> The main program of CoreMark apart from \<open>iterate\<close>, and its platform layer. The list is shown to be
      restored if its indices are all different, as they are in the standard runs
      (\<open>standard_indices\<close>); nothing is claimed of lists in which an index occurs twice.
    \<^item> The timing and the printing of the benchmarks, the LZ4 and SQLite benchmarks (copies of these
      libraries), the floating-point benchmarks, the call benchmarks and the profile driver of SHA-256.
    \<^item> The sign of a zero in \<open>CDouble\<close>, which no program here observes.

  \<^bold>\<open>What the proofs found\<close>

    \<^item> \<open>NoAslr.flag_error_unnoticed\<close>: if the flag cannot be set, the command runs randomised and
      nothing is reported.
    \<^item> \<open>FreqProbe.freqprobe_never_returns\<close>: the durations \<open>inf\<close> and \<open>nan\<close> make the probe endless, and
      \<open>-inf\<close> ends it at once.
    \<^item> \<open>CoreMatrix.init_matrix_overrun\<close>: in a block that is not aligned, the third matrix can end two
      bytes past the block.
    \<^item> \<open>BzBuffers.buffer_without_room\<close>: for an empty source and no room, \<open>BZ2_bzBuffToBuffCompress\<close>
      returns \<open>BZ_SEQUENCE_ERROR\<close> and not \<open>BZ_OUTBUFF_FULL\<close>.
    \<^item> \<open>CoreState.state_block_not_restored\<close>: equal seeds do not always restore the block, as a comment
      says, because a byte that became a comma is skipped.
    \<^item> \<open>CoreListBench.crc_loop_ok\<close>: the CRC of the list is the CRC of the data of its head, again and
      again, not of the data of the items, as a comment says. \<open>CoreList.mergesort_empty\<close>: the sort writes
      through a null pointer for the empty list, which a comment allows for.
\<close>

end
